(* ===== verification/Prelude.thy ===== *)
theory Prelude
  imports Main "HOL-Library.Word"
begin

text \<open>
  The shared base of the development: names for the machine integer types of the Rust
  sources, byte encodings of the standard library that the wire formats use, a runner for
  tick-driven controllers, and the two interfaces that most controllers of the transport
  implement: \<open>invariant_machine\<close> (an invariant kept by every operation holds after every
  sequence of operations) and \<open>retry_probe\<close> (a countdown that retransmits a bounded number of
  times and then gives up).
\<close>

named_theorems trace_simps \<open>facts that compute the event traces of tick-driven controllers\<close>
named_theorems wf_intros \<open>introduction rules for well-formedness invariants\<close>

section \<open>Machine integers and bytes\<close>

type_synonym u8 = "8 word"
type_synonym u16 = "16 word"
type_synonym u32 = "32 word"
type_synonym u64 = "64 word"
type_synonym bytes = "8 word list"

text \<open>\<open>Ord::clamp\<close>: the value, moved into the closed interval.\<close>

definition clamp :: "'a::linorder \<Rightarrow> 'a \<Rightarrow> 'a \<Rightarrow> 'a" where
  "clamp x lo hi = (if x < lo then lo else if hi < x then hi else x)"

lemma clamp_bounds: "lo \<le> hi \<Longrightarrow> lo \<le> clamp x lo hi \<and> clamp x lo hi \<le> hi"
  by (auto simp: clamp_def)

lemma clamp_id [simp]: "lo \<le> x \<Longrightarrow> x \<le> hi \<Longrightarrow> clamp x lo hi = x"
  by (auto simp: clamp_def)

text \<open>\<open>uN::saturating_sub\<close>.\<close>

definition saturating_sub :: "'a::len word \<Rightarrow> 'a word \<Rightarrow> 'a word" where
  "saturating_sub a b = (if a < b then 0 else a - b)"

lemma unat_saturating_sub [simp]: "unat (saturating_sub a b) = unat a - unat b"
  by (auto simp: saturating_sub_def unat_sub word_less_nat_alt word_le_nat_alt)

text \<open>\<open>u16::to_be_bytes\<close> and \<open>u16::from_be_bytes\<close>.\<close>

definition to_be_bytes16 :: "u16 \<Rightarrow> bytes" where
  "to_be_bytes16 w = [ucast (drop_bit 8 w), ucast w]"

definition from_be_bytes16 :: "u8 \<Rightarrow> u8 \<Rightarrow> u16" where
  "from_be_bytes16 hi lo = of_nat (unat hi * 256 + unat lo)"

lemma length_to_be_bytes16 [simp]: "length (to_be_bytes16 w) = 2"
  by (simp add: to_be_bytes16_def)

lemma unat_less_exp: "unat (w :: 'a::len word) < 2 ^ LENGTH('a)"
  by (rule unsigned_less)

lemma unat_from_be_bytes16: "unat (from_be_bytes16 hi lo) = unat hi * 256 + unat lo"
proof -
  have "unat hi < 256" "unat lo < 256"
    using unat_less_exp [of hi] unat_less_exp [of lo] by simp_all
  then have "unat hi * 256 + unat lo < 65536" by linarith
  then show ?thesis
    by (simp only: from_be_bytes16_def unsigned_of_nat) (simp add: take_bit_nat_eq_self)
qed

lemma from_to_be_bytes16: "from_be_bytes16 (ucast (drop_bit 8 w)) (ucast w) = w"
proof -
  have w: "unat w < 65536" using unat_less_exp [of w] by simp
  have hi: "unat (ucast (drop_bit 8 w) :: u8) = unat w div 256"
    using w by (simp add: unsigned_ucast_eq drop_bit_eq_div unat_div_distrib take_bit_nat_eq_self)
  have lo: "unat (ucast w :: u8) = unat w mod 256"
    by (simp add: unsigned_ucast_eq take_bit_eq_mod)
  have "unat (from_be_bytes16 (ucast (drop_bit 8 w)) (ucast w)) = unat w"
    by (simp add: unat_from_be_bytes16 hi lo)
  then show ?thesis by (simp add: word_unat_eq_iff)
qed

lemma to_from_be_bytes16: "to_be_bytes16 (from_be_bytes16 hi lo) = [hi, lo]"
proof -
  have b: "unat hi < 256" "unat lo < 256"
    using unat_less_exp [of hi] unat_less_exp [of lo] by simp_all
  have "unat (ucast (drop_bit 8 (from_be_bytes16 hi lo)) :: u8) = unat hi"
    using b by (simp add: unsigned_ucast_eq drop_bit_eq_div unat_div_distrib
        unat_from_be_bytes16 take_bit_nat_eq_self)
  moreover have "unat (ucast (from_be_bytes16 hi lo) :: u8) = unat lo"
    using b by (simp add: unsigned_ucast_eq take_bit_eq_mod unat_from_be_bytes16)
  ultimately show ?thesis by (simp add: to_be_bytes16_def word_unat_eq_iff)
qed

text \<open>\<open>u32::to_le_bytes\<close>.\<close>

definition to_le_bytes32 :: "u32 \<Rightarrow> bytes" where
  "to_le_bytes32 w =
     [ucast w, ucast (drop_bit 8 w), ucast (drop_bit 16 w), ucast (drop_bit 24 w)]"

lemma length_to_le_bytes32 [simp]: "length (to_le_bytes32 w) = 4"
  by (simp add: to_le_bytes32_def)

text \<open>\<open>u32::from_le_bytes\<close>.\<close>

definition from_le_bytes32 :: "u8 \<Rightarrow> u8 \<Rightarrow> u8 \<Rightarrow> u8 \<Rightarrow> u32" where
  "from_le_bytes32 a b c d =
     of_nat (unat a + 256 * unat b + 65536 * unat c + 16777216 * unat d)"

lemma unat_from_le_bytes32:
  "unat (from_le_bytes32 a b c d) =
     unat a + 256 * unat b + 65536 * unat c + 16777216 * unat d"
proof -
  have "unat a < 256" "unat b < 256" "unat c < 256" "unat d < 256"
    using unat_less_exp [of a] unat_less_exp [of b] unat_less_exp [of c] unat_less_exp [of d]
    by simp_all
  then have "unat a + 256 * unat b + 65536 * unat c + 16777216 * unat d < 4294967296"
    by linarith
  then show ?thesis
    by (simp only: from_le_bytes32_def unsigned_of_nat) (simp add: take_bit_nat_eq_self)
qed

lemma unat_ucast_byte: "unat (ucast (w :: u32) :: u8) = unat w mod 256"
  by (simp add: unsigned_ucast_eq take_bit_eq_mod)

lemma unat_drop_bit_div: "unat (drop_bit n (w :: u32)) = unat w div 2 ^ n"
  by (simp only: unsigned_drop_bit_eq drop_bit_eq_div)
    (metis unsigned_take_bit_eq take_bit_word_eq_self order_refl unsigned_drop_bit_eq
      drop_bit_eq_div)

lemma byte_digits:
  fixes n :: nat
  assumes "n < 4294967296"
  shows "n mod 256 + 256 * (n div 2 ^ 8 mod 256) + 65536 * (n div 2 ^ 16 mod 256)
      + 16777216 * (n div 2 ^ 24 mod 256) = n"
proof -
  have d: "n div 2 ^ 16 = n div 256 div 256" "n div 2 ^ 24 = n div 256 div 256 div 256"
    by (simp_all flip: div_mult2_eq)
  define q where "q = n div 256"
  define r where "r = q div 256"
  define t where "t = r div 256"
  have "t < 256"
    using assms by (simp add: t_def r_def q_def less_mult_imp_div_less flip: div_mult2_eq)
  moreover have "n = n mod 256 + 256 * q" "q = q mod 256 + 256 * r" "r = r mod 256 + 256 * t"
    by (simp_all add: q_def r_def t_def)
  moreover have "n div 2 ^ 8 = q" "n div 2 ^ 16 = r" "n div 2 ^ 24 = t"
    by (simp_all add: d q_def r_def t_def)
  ultimately show ?thesis by simp
qed

lemma digits_bytes:
  fixes a b c d :: nat
  assumes "a < 256" "b < 256" "c < 256" "d < 256"
  defines "n \<equiv> a + 256 * b + 65536 * c + 16777216 * d"
  shows "n mod 256 = a" "n div 2 ^ 8 mod 256 = b" "n div 2 ^ 16 mod 256 = c"
    "n div 2 ^ 24 mod 256 = d"
proof -
  have e: "n = a + 256 * (b + 256 * (c + 256 * d))" by (simp add: n_def)
  have m: "(x + 256 * y) mod 256 = x" if "x < 256" for x y :: nat using that by simp
  have q: "n div 256 = b + 256 * (c + 256 * d)" unfolding e using assms(1) by simp
  have q2: "n div 256 div 256 = c + 256 * d" unfolding q using assms(2) by simp
  have q3: "n div 256 div 256 div 256 = d" unfolding q2 using assms(3) by simp
  have s: "n div 2 ^ 16 = n div 256 div 256" "n div 2 ^ 24 = n div 256 div 256 div 256"
    by (simp_all flip: div_mult2_eq)
  show "n mod 256 = a" unfolding e by (rule m [OF assms(1)])
  have "n div 2 ^ 8 = b + 256 * (c + 256 * d)" using q by simp
  then show "n div 2 ^ 8 mod 256 = b" by (simp only: m [OF assms(2)])
  show "n div 2 ^ 16 mod 256 = c" unfolding s(1) q2 using assms(3) by simp
  show "n div 2 ^ 24 mod 256 = d" unfolding s(2) q3 using assms(4) by simp
qed

lemma unat_u8_less: "unat (a :: u8) < 256"
  using unat_less_exp [of a] by simp

lemma from_to_le_bytes32:
  "from_le_bytes32 (ucast w) (ucast (drop_bit 8 w)) (ucast (drop_bit 16 w))
     (ucast (drop_bit 24 w)) = w"
proof -
  have "unat w < 4294967296" using unat_less_exp [of w] by simp
  from byte_digits [OF this] show ?thesis
    by (simp only: word_unat_eq_iff unat_from_le_bytes32 unat_ucast_byte unat_drop_bit_div)
qed

lemma to_from_le_bytes32: "to_le_bytes32 (from_le_bytes32 a b c d) = [a, b, c, d]"
  by (simp only: to_le_bytes32_def word_unat_eq_iff list.inject unat_ucast_byte
      unat_drop_bit_div unat_from_le_bytes32 digits_bytes [OF unat_u8_less unat_u8_less
        unat_u8_less unat_u8_less] simp_thms)

section \<open>Sequences of ticks\<close>

text \<open>
  \<open>ticks tick n s\<close> calls a \<open>tick(&mut self) -> Option<Event>\<close> method \<open>n\<close> times and collects
  what each call returns.
\<close>

fun ticks :: "('s \<Rightarrow> 'e option \<times> 's) \<Rightarrow> nat \<Rightarrow> 's \<Rightarrow> 'e option list \<times> 's" where
  "ticks tick 0 s = ([], s)"
| "ticks tick (Suc n) s =
     (let (e, s') = tick s; (es, s'') = ticks tick n s' in (e # es, s''))"

lemma ticks_add:
  "ticks tick (m + n) s =
     (let (es, s') = ticks tick m s; (fs, s'') = ticks tick n s' in (es @ fs, s''))"
  by (induction m arbitrary: s) (auto simp: Let_def split: prod.splits)

lemma length_ticks [simp]: "length (fst (ticks tick n s)) = n"
  by (induction n arbitrary: s) (simp_all add: Let_def split_beta)

lemma ticks_add_state: "snd (ticks tick (m + n) s) = snd (ticks tick n (snd (ticks tick m s)))"
  by (simp add: ticks_add Let_def split: prod.splits)

section \<open>Hold timers and runs\<close>

text \<open>
  A timer that every event sets to \<open>n\<close> and every other tick lets run down; it has more than \<open>k\<close>
  ticks left exactly when some event is recent enough.
\<close>

definition hold_left :: "nat \<Rightarrow> bool list \<Rightarrow> nat" where
  "hold_left n h = foldl (\<lambda>left event. if event then n else left - 1) 0 h"

lemma hold_left_simps [simp]:
  "hold_left n [] = 0" "hold_left n (h @ [True]) = n" "hold_left n (h @ [False]) = hold_left n h - 1"
  by (simp_all add: hold_left_def)

lemma hold_left_iff: "k < hold_left n h \<longleftrightarrow> (\<exists>i < length h. h ! i \<and> length h + k \<le> i + n)"
proof (induction h arbitrary: k rule: rev_induct)
  case (snoc e h)
  show ?case
  proof (cases e)
    case True
    then show ?thesis by (force simp: nth_append less_Suc_eq)
  next
    case False
    then have "k < hold_left n (h @ [e]) \<longleftrightarrow> Suc k < hold_left n h" by auto
    with False show ?thesis by (auto simp: snoc nth_append less_Suc_eq)
  qed
qed simp

text \<open>The number of ticks at the end of a history on which something held.\<close>

definition run_length :: "bool list \<Rightarrow> nat" where
  "run_length h = length (takeWhile (\<lambda>b. b) (rev h))"

lemma run_length_simps [simp]:
  "run_length [] = 0" "run_length (h @ [True]) = Suc (run_length h)" "run_length (h @ [False]) = 0"
  by (simp_all add: run_length_def)

lemma run_length_ge_iff: "n \<le> run_length h \<longleftrightarrow> n \<le> length h \<and> (\<forall>b\<in>set (drop (length h - n) h). b)"
proof (induction h arbitrary: n rule: rev_induct)
  case (snoc e h)
  show ?case
  proof (cases n)
    case (Suc m)
    then show ?thesis by (cases e) (auto simp: snoc Suc_diff_le)
  qed simp
qed simp

section \<open>Interface: an operation sequence that keeps an invariant\<close>

text \<open>
  A component is a start state and a step function over its operations. What every
  operation keeps holds after every sequence of operations.
\<close>

locale invariant_machine =
  fixes init :: 's
    and step :: "'s \<Rightarrow> 'op \<Rightarrow> 's"
    and inv :: "'s \<Rightarrow> bool"
  assumes inv_init: "inv init"
    and inv_step: "inv s \<Longrightarrow> inv (step s a)"
begin

lemma inv_run_from: "inv s \<Longrightarrow> inv (foldl step s ops)"
  by (induction ops arbitrary: s) (auto intro: inv_step)

lemma inv_run: "inv (foldl step init ops)"
  by (rule inv_run_from [OF inv_init])

end

text \<open>
  The trace of an unanswered probe with a retry timer: \<open>r\<close> retransmissions, each after a
  silent wait, and the report that the controller gives up.
\<close>

primrec retry_trace ::
  "('k \<Rightarrow> nat \<Rightarrow> 'e) \<Rightarrow> ('k \<Rightarrow> 'e) \<Rightarrow> nat \<Rightarrow> 'k \<Rightarrow> nat \<Rightarrow> nat \<Rightarrow> 'e option list" where
  "retry_trace resend give_up interval k 0 t = replicate t None @ [Some (give_up k)]"
| "retry_trace resend give_up interval k (Suc r) t =
     replicate t None @ [Some (resend k (Suc r))] @
       retry_trace resend give_up interval k r interval"

lemma retry_trace_length:
  "length (retry_trace resend give_up interval k r t) = Suc t + r * Suc interval"
  by (induction r arbitrary: t) simp_all

text \<open>Exactly \<open>r\<close> retransmissions and one failure are reported.\<close>

lemma retry_trace_events:
  "List.map_filter id (retry_trace resend give_up interval k r t) =
     map (resend k) (rev [1..<Suc r]) @ [give_up k]"
  by (induction r arbitrary: t) (simp_all add: List.map_filter_def)

section \<open>Interface: a probe with a retry timer\<close>

text \<open>
  \<open>probe k r t\<close> is the state of a controller with a probe for \<open>k\<close> in flight, \<open>r\<close> retransmissions
  left and \<open>t\<close> ticks to wait. While it waits a tick is silent; at zero it retransmits and
  rearms the timer with \<open>interval\<close>; with no retransmission left it gives up. A controller
  starts with at most \<open>limit\<close> retransmissions.
\<close>

locale retry_probe =
  fixes tick :: "'s \<Rightarrow> 'e option \<times> 's"
    and probe :: "'k \<Rightarrow> nat \<Rightarrow> nat \<Rightarrow> 's"
    and resend :: "'k \<Rightarrow> nat \<Rightarrow> 'e"
    and give_up :: "'k \<Rightarrow> 'e"
    and stopped :: "'k \<Rightarrow> 's"
    and interval :: nat
    and limit :: nat
  assumes tick_wait: "r \<le> limit \<Longrightarrow> tick (probe k r (Suc t)) = (None, probe k r t)"
    and tick_retry: "Suc r \<le> limit \<Longrightarrow>
      tick (probe k (Suc r) 0) = (Some (resend k (Suc r)), probe k r interval)"
    and tick_fail: "tick (probe k 0 0) = (Some (give_up k), stopped k)"
begin

lemma ticks_wait:
  "r \<le> limit \<Longrightarrow> n \<le> t \<Longrightarrow> ticks tick n (probe k r t) = (replicate n None, probe k r (t - n))"
proof (induction n arbitrary: t)
  case 0
  then show ?case by simp
next
  case (Suc n)
  then obtain t' where t: "t = Suc t'" by (cases t) auto
  with Suc show ?case by (simp add: tick_wait)
qed

text \<open>One full wait and the retransmission that ends it.\<close>

lemma ticks_one_retry:
  "Suc r \<le> limit \<Longrightarrow> ticks tick (Suc t) (probe k (Suc r) t) =
     (replicate t None @ [Some (resend k (Suc r))], probe k r interval)"
  using ticks_add [of tick t 1 "probe k (Suc r) t"]
  by (simp add: ticks_wait tick_retry Let_def)

lemma ticks_last_wait:
  "ticks tick (Suc t) (probe k 0 t) = (replicate t None @ [Some (give_up k)], stopped k)"
  using ticks_add [of tick t 1 "probe k 0 t"]
  by (simp add: ticks_wait tick_fail Let_def)

lemma ticks_unanswered:
  "r \<le> limit \<Longrightarrow> ticks tick (Suc t + r * Suc interval) (probe k r t) =
     (retry_trace resend give_up interval k r t, stopped k)"
proof (induction r arbitrary: t)
  case 0
  have "Suc t + 0 * Suc interval = Suc t" by simp
  then show ?case by (simp only: ticks_last_wait retry_trace.simps)
next
  case (Suc r)
  have split: "Suc t + Suc r * Suc interval = Suc t + (Suc interval + r * Suc interval)" by simp
  from Suc.prems have r: "r \<le> limit" by simp
  show ?case
    unfolding split
    by (simp only: ticks_add [of tick "Suc t"] ticks_one_retry [OF Suc.prems] Let_def prod.case
        Suc.IH [OF r] retry_trace.simps append_assoc)
qed

text \<open>Before that the probe is still in flight: the controller never gives up early.\<close>

lemma ticks_still_probing:
  "r \<le> limit \<Longrightarrow> n < Suc t + r * Suc interval \<Longrightarrow>
     \<exists>r' t'. snd (ticks tick n (probe k r t)) = probe k r' t' \<and> r' \<le> r"
proof (induction r arbitrary: n t)
  case 0
  then show ?case by (auto simp: ticks_wait)
next
  case (Suc r)
  show ?case
  proof (cases "n \<le> t")
    case True
    with Suc.prems show ?thesis by (auto simp: ticks_wait)
  next
    case False
    then obtain m where n: "n = Suc t + m" by (metis add_Suc less_imp_Suc_add not_le)
    with Suc.prems have "r \<le> limit" "m < Suc interval + r * Suc interval" by simp_all
    from Suc.IH [OF this] obtain r' t' where
      "snd (ticks tick m (probe k r interval)) = probe k r' t'" "r' \<le> r" by blast
    then show ?thesis
      unfolding n
      by (simp only: ticks_add_state ticks_one_retry [OF Suc.prems(1)] snd_conv)
        (auto intro: le_SucI)
  qed
qed

end

end
