(* ===== verification/Path.thy ===== *)
theory Path
  imports Prelude
begin

text \<open>
  Path migration (\<open>core/lbtp/src/path.rs\<close>): the controller sends a random 8-byte token to a
  candidate address, retransmits it on a timer and commits to the new path only when the peer
  echoes the token. The lemmas show how long an unanswered challenge lives and that a session
  never migrates without the echo of the token of its latest challenge.
\<close>

section \<open>Data and constants\<close>

type_synonym challenge_token = bytes

definition CHALLENGE_TIMEOUT_TICKS :: nat where
  "CHALLENGE_TIMEOUT_TICKS = 10"

definition MAX_CHALLENGE_RETRIES :: nat where
  "MAX_CHALLENGE_RETRIES = 3"

record path_challenge_frame =
  challenge_token_of :: challenge_token

record path_response_frame =
  response_token_of :: challenge_token

datatype migration_event =
    PathRetransmit path_challenge_frame
  | MigratedEvent
  | MigrationFailedEvent

text \<open>
  The counters \<open>retries_left: u8\<close> and \<open>ticks_remaining: u32\<close> only ever count down to zero from
  the constants above, behind a test for zero, so they are natural numbers here.
\<close>

datatype migration_state =
    PathIdle
  | PathProbing challenge_token nat nat \<comment> \<open>token, retries left, ticks remaining\<close>
  | PathMigrated
  | PathFailed

record path_migration_controller =
  path_state :: migration_state

section \<open>Operations\<close>

definition path_new :: path_migration_controller where
  "path_new = \<lparr>path_state = PathIdle\<rparr>"

definition path_start ::
  "path_migration_controller \<Rightarrow> challenge_token \<Rightarrow>
     path_challenge_frame \<times> path_migration_controller" where
  "path_start c token =
     (\<lparr>challenge_token_of = token\<rparr>,
      c\<lparr>path_state := PathProbing token MAX_CHALLENGE_RETRIES CHALLENGE_TIMEOUT_TICKS\<rparr>)"

definition path_tick ::
  "path_migration_controller \<Rightarrow> migration_event option \<times> path_migration_controller" where
  "path_tick c =
     (case path_state c of
        PathProbing token retries_left ticks_remaining \<Rightarrow>
          if ticks_remaining > 0
          then (None, c\<lparr>path_state := PathProbing token retries_left (ticks_remaining - 1)\<rparr>)
          else if retries_left = 0
          then (Some MigrationFailedEvent, c\<lparr>path_state := PathFailed\<rparr>)
          else (Some (PathRetransmit \<lparr>challenge_token_of = token\<rparr>),
                c\<lparr>path_state := PathProbing token (retries_left - 1) CHALLENGE_TIMEOUT_TICKS\<rparr>)
      | _ \<Rightarrow> (None, c))"

definition path_on_response ::
  "path_migration_controller \<Rightarrow> path_response_frame \<Rightarrow>
     migration_event option \<times> path_migration_controller" where
  "path_on_response c response =
     (case path_state c of
        PathProbing token _ _ \<Rightarrow>
          if response_token_of response = token
          then (Some MigratedEvent, c\<lparr>path_state := PathMigrated\<rparr>)
          else (None, c)
      | _ \<Rightarrow> (None, c))"

definition path_is_migrated :: "path_migration_controller \<Rightarrow> bool" where
  "path_is_migrated c \<longleftrightarrow> path_state c = PathMigrated"

definition path_is_failed :: "path_migration_controller \<Rightarrow> bool" where
  "path_is_failed c \<longleftrightarrow> path_state c = PathFailed"

fun is_PathProbing :: "migration_state \<Rightarrow> bool" where
  "is_PathProbing (PathProbing _ _ _) = True"
| "is_PathProbing _ = False"

definition path_is_probing :: "path_migration_controller \<Rightarrow> bool" where
  "path_is_probing c \<longleftrightarrow> is_PathProbing (path_state c)"

lemmas path_op_defs =
  path_new_def path_start_def path_tick_def path_on_response_def

lemmas path_query_defs = path_is_migrated_def path_is_failed_def path_is_probing_def

section \<open>The retry timer\<close>

interpretation path_retry: retry_probe path_tick
  "\<lambda>token r t. \<lparr>path_state = PathProbing token r t\<rparr>"
  "\<lambda>token r. PathRetransmit \<lparr>challenge_token_of = token\<rparr>"
  "\<lambda>token. MigrationFailedEvent"
  "\<lambda>token. \<lparr>path_state = PathFailed\<rparr>"
  CHALLENGE_TIMEOUT_TICKS MAX_CHALLENGE_RETRIES
  by unfold_locales (simp_all add: path_tick_def)

lemma path_start_state:
  "snd (path_start c token) =
     \<lparr>path_state = PathProbing token MAX_CHALLENGE_RETRIES CHALLENGE_TIMEOUT_TICKS\<rparr>"
  by (cases c) (simp add: path_start_def)

lemma path_challenge_ticks:
  "Suc CHALLENGE_TIMEOUT_TICKS + MAX_CHALLENGE_RETRIES * Suc CHALLENGE_TIMEOUT_TICKS = 44"
  by (simp add: CHALLENGE_TIMEOUT_TICKS_def MAX_CHALLENGE_RETRIES_def)

lemma path_unanswered_trace:
  "ticks path_tick 44 (snd (path_start c token)) =
     (retry_trace (\<lambda>token r. PathRetransmit \<lparr>challenge_token_of = token\<rparr>)
        (\<lambda>token. MigrationFailedEvent) CHALLENGE_TIMEOUT_TICKS token
        MAX_CHALLENGE_RETRIES CHALLENGE_TIMEOUT_TICKS,
      \<lparr>path_state = PathFailed\<rparr>)"
  using path_retry.ticks_unanswered
    [OF order_refl, of CHALLENGE_TIMEOUT_TICKS token, unfolded path_challenge_ticks]
  by (simp add: path_start_state)

lemma path_still_probing:
  "n < 44 \<Longrightarrow> path_is_probing (snd (ticks path_tick n (snd (path_start c token))))"
  using path_retry.ticks_still_probing
    [OF order_refl, of n CHALLENGE_TIMEOUT_TICKS token, unfolded path_challenge_ticks]
  by (auto simp: path_start_state path_is_probing_def)

text \<open>
  An unanswered path challenge is retransmitted exactly three times, always with its own
  token, and the controller declares failure on the 44th tick and not before.
\<close>

lemma path_unanswered_challenge:
  "List.map_filter id (fst (ticks path_tick 44 (snd (path_start c token)))) =
     replicate 3 (PathRetransmit (fst (path_start c token))) @ [MigrationFailedEvent] \<and>
   path_is_failed (snd (ticks path_tick 44 (snd (path_start c token)))) \<and>
   (\<forall>n<44. path_is_probing (snd (ticks path_tick n (snd (path_start c token)))))"
proof (intro conjI allI impI)
  show "List.map_filter id (fst (ticks path_tick 44 (snd (path_start c token)))) =
     replicate 3 (PathRetransmit (fst (path_start c token))) @ [MigrationFailedEvent]"
    by (simp only: path_unanswered_trace fst_conv retry_trace_events)
      (simp add: path_start_def MAX_CHALLENGE_RETRIES_def map_replicate_const)
  show "path_is_failed (snd (ticks path_tick 44 (snd (path_start c token))))"
    by (simp only: path_unanswered_trace) (simp add: path_is_failed_def)
qed (rule path_still_probing)

section \<open>Operation sequences\<close>

datatype path_op =
    PathStart challenge_token
  | PathTick
  | PathResponse challenge_token

fun path_step :: "path_migration_controller \<Rightarrow> path_op \<Rightarrow> path_migration_controller" where
  "path_step c (PathStart token) = snd (path_start c token)"
| "path_step c PathTick = snd (path_tick c)"
| "path_step c (PathResponse token) = snd (path_on_response c \<lparr>response_token_of = token\<rparr>)"

definition path_run :: "path_op list \<Rightarrow> path_migration_controller" where
  "path_run ops = foldl path_step path_new ops"

lemma path_run_snoc: "path_run (ops @ [a]) = path_step (path_run ops) a"
  by (simp add: path_run_def)

definition path_wf :: "path_migration_controller \<Rightarrow> bool" where
  "path_wf c = (case path_state c of
     PathProbing _ r t \<Rightarrow> r \<le> MAX_CHALLENGE_RETRIES \<and> t \<le> CHALLENGE_TIMEOUT_TICKS
   | _ \<Rightarrow> True)"

interpretation path_machine: invariant_machine path_new path_step path_wf
proof unfold_locales
  show "path_wf path_new" by (simp add: path_wf_def path_new_def)
next
  fix c a
  assume "path_wf c"
  then show "path_wf (path_step c a)"
    by (cases a; cases "path_state c") (auto simp: path_wf_def path_op_defs)
qed

text \<open>
  The history behind a state: a probe in flight carries the token of the latest start, and a
  migrated session has seen that token come back.
\<close>

definition started_last :: "path_op list \<Rightarrow> challenge_token \<Rightarrow> path_op list \<Rightarrow> bool" where
  "started_last ops token later \<longleftrightarrow>
     (\<exists>before. ops = before @ PathStart token # later) \<and> (\<forall>t. PathStart t \<notin> set later)"

lemma started_last_snoc:
  "started_last ops token later \<Longrightarrow> \<forall>t. a \<noteq> PathStart t \<Longrightarrow>
     started_last (ops @ [a]) token (later @ [a])"
  by (auto simp: started_last_def)

lemma started_last_start: "started_last (ops @ [PathStart token]) token []"
  by (simp add: started_last_def)

definition path_history :: "path_op list \<Rightarrow> migration_state \<Rightarrow> bool" where
  "path_history ops s = (case s of
     PathProbing token _ _ \<Rightarrow> (\<exists>later. started_last ops token later)
   | PathMigrated \<Rightarrow>
       (\<exists>token later. started_last ops token later \<and> PathResponse token \<in> set later)
   | _ \<Rightarrow> True)"

lemma path_history_step:
  assumes "path_history ops (path_state c)"
  shows "path_history (ops @ [a]) (path_state (path_step c a))"
proof (cases a)
  case (PathStart token)
  then show ?thesis
    using started_last_start [of ops token] by (auto simp: path_history_def path_start_def)
next
  case PathTick
  with assms show ?thesis
    by (cases "path_state c")
      (force simp: path_history_def path_tick_def intro: started_last_snoc)+
next
  case (PathResponse token)
  with assms show ?thesis
    by (cases "path_state c")
      (force simp: path_history_def path_on_response_def intro: started_last_snoc)+
qed

lemma path_history_run: "path_history ops (path_state (path_run ops))"
proof (induction ops rule: rev_induct)
  case Nil
  then show ?case by (simp add: path_history_def path_run_def path_new_def)
next
  case (snoc a ops)
  then show ?case by (simp add: path_run_snoc path_history_step)
qed

text \<open>
  C5: a session reports a migrated path only if, after its latest challenge was started, the
  peer echoed the token of that challenge: no earlier token, no other token and no timer event
  can migrate it.
\<close>

theorem path_migrates_only_on_echo:
  assumes "path_is_migrated (path_run ops)"
  shows "\<exists>before token later. ops = before @ PathStart token # later \<and>
           (\<forall>t. PathStart t \<notin> set later) \<and> PathResponse token \<in> set later"
proof -
  from assms have "path_state (path_run ops) = PathMigrated" by (simp add: path_is_migrated_def)
  with path_history_run [of ops] obtain token later where
    "started_last ops token later" "PathResponse token \<in> set later"
    by (auto simp: path_history_def)
  then show ?thesis unfolding started_last_def by blast
qed

theorem path_migrates_only_on_echo_witness:
  "path_is_migrated (path_run [PathStart [7], PathTick, PathResponse [7]]) \<and>
   (\<exists>before token later. [PathStart [7], PathTick, PathResponse [7]] =
      before @ PathStart token # later \<and>
      (\<forall>t. PathStart t \<notin> set later) \<and> PathResponse token \<in> set later)"
proof -
  have m: "path_is_migrated (path_run [PathStart [7], PathTick, PathResponse [7]])"
    by (simp add: path_run_def path_op_defs path_is_migrated_def CHALLENGE_TIMEOUT_TICKS_def)
  show ?thesis by (rule conjI [OF m path_migrates_only_on_echo [OF m]])
qed

end
