(* ===== verification/Mtu.thy ===== *)
theory Mtu
  imports Prelude
begin

text \<open>
  Path MTU discovery (\<open>core/lbtp/src/mtu.rs\<close>): a ladder of probe sizes above the 1200-byte base,
  one probe in flight at a time, each with the retry timer of the transport's controllers. The
  lemmas relate the confirmed size to the position on the ladder after every sequence of
  operations.
\<close>

section \<open>Data and constants\<close>

definition MTU_BASE_BYTES :: u16 where
  "MTU_BASE_BYTES = 1200"

definition MTU_PROBE_STEPS :: "u16 list" where
  "MTU_PROBE_STEPS = [1400, 1452, 1500]"

definition MTU_PROBE_TIMEOUT_TICKS :: nat where
  "MTU_PROBE_TIMEOUT_TICKS = 10"

definition MTU_PROBE_MAX_RETRIES :: nat where
  "MTU_PROBE_MAX_RETRIES = 3"

definition LBTP_OVERHEAD :: u16 where
  "LBTP_OVERHEAD = 19"

lemmas mtu_constants =
  MTU_BASE_BYTES_def MTU_PROBE_STEPS_def MTU_PROBE_TIMEOUT_TICKS_def
  MTU_PROBE_MAX_RETRIES_def LBTP_OVERHEAD_def

record mtu_probe_frame =
  target_mtu :: u16
  payload_bytes :: u16

datatype mtu_event =
    MtuRetransmit mtu_probe_frame
  | MtuRaised u16
  | MtuProbeFailed u16

text \<open>The step index is \<open>usize\<close>; retries and ticks count down to zero behind a test.\<close>

datatype mtu_state =
    MtuIdle nat \<comment> \<open>next step index\<close>
  | MtuProbing u16 nat nat nat \<comment> \<open>target, step index, retries left, ticks remaining\<close>
  | MtuComplete

record path_mtu_controller =
  path_mtu :: u16
  mtu_state :: mtu_state

section \<open>Operations\<close>

definition make_probe :: "u16 \<Rightarrow> mtu_probe_frame" where
  "make_probe target =
     \<lparr>target_mtu = target, payload_bytes = saturating_sub target LBTP_OVERHEAD\<rparr>"

definition mtu_new :: path_mtu_controller where
  "mtu_new = \<lparr>path_mtu = MTU_BASE_BYTES, mtu_state = MtuIdle 0\<rparr>"

definition mtu_is_complete :: "path_mtu_controller \<Rightarrow> bool" where
  "mtu_is_complete c = (case mtu_state c of MtuComplete \<Rightarrow> True | _ \<Rightarrow> False)"

definition mtu_is_probing :: "path_mtu_controller \<Rightarrow> bool" where
  "mtu_is_probing c = (case mtu_state c of MtuProbing _ _ _ _ \<Rightarrow> True | _ \<Rightarrow> False)"

text \<open>\<open>MTU_PROBE_STEPS.get(i)\<close>, \<open>None\<close> past the end of the array.\<close>

definition mtu_step_get :: "nat \<Rightarrow> u16 option" where
  "mtu_step_get i = (if i < length MTU_PROBE_STEPS then Some (MTU_PROBE_STEPS ! i) else None)"

definition mtu_probe_step ::
  "path_mtu_controller \<Rightarrow> nat \<Rightarrow> mtu_probe_frame option \<times> path_mtu_controller" where
  "mtu_probe_step c next_step_idx =
     (case mtu_step_get next_step_idx of
        None \<Rightarrow> (None, c\<lparr>mtu_state := MtuComplete\<rparr>)
      | Some target \<Rightarrow>
          (Some (make_probe target),
           c\<lparr>mtu_state :=
               MtuProbing target next_step_idx MTU_PROBE_MAX_RETRIES MTU_PROBE_TIMEOUT_TICKS\<rparr>))"

definition mtu_start_probe ::
  "path_mtu_controller \<Rightarrow> mtu_probe_frame option \<times> path_mtu_controller" where
  "mtu_start_probe c =
     (case mtu_state c of
        MtuIdle next_step_idx \<Rightarrow> mtu_probe_step c next_step_idx
      | MtuProbing _ step_idx _ _ \<Rightarrow> mtu_probe_step c step_idx
      | MtuComplete \<Rightarrow> (None, c))"

definition mtu_tick :: "path_mtu_controller \<Rightarrow> mtu_event option \<times> path_mtu_controller" where
  "mtu_tick c =
     (case mtu_state c of
        MtuProbing target step_idx retries_left ticks_remaining \<Rightarrow>
          if ticks_remaining > 0
          then (None, c\<lparr>mtu_state :=
                  MtuProbing target step_idx retries_left (ticks_remaining - 1)\<rparr>)
          else if retries_left = 0
          then (Some (MtuProbeFailed target), c\<lparr>mtu_state := MtuIdle step_idx\<rparr>)
          else (Some (MtuRetransmit (make_probe target)),
                c\<lparr>mtu_state :=
                  MtuProbing target step_idx (retries_left - 1) MTU_PROBE_TIMEOUT_TICKS\<rparr>)
      | _ \<Rightarrow> (None, c))"

definition mtu_on_probe_acked ::
  "path_mtu_controller \<Rightarrow> u16 \<Rightarrow> mtu_event option \<times> path_mtu_controller" where
  "mtu_on_probe_acked c acked_mtu =
     (case mtu_state c of
        MtuProbing target step_idx _ _ \<Rightarrow>
          if acked_mtu \<noteq> target then (None, c)
          else (Some (MtuRaised target),
                c\<lparr>path_mtu := target,
                  mtu_state := (if step_idx + 1 \<ge> length MTU_PROBE_STEPS then MtuComplete
                                else MtuIdle (step_idx + 1))\<rparr>)
      | _ \<Rightarrow> (None, c))"

lemmas mtu_op_defs =
  mtu_new_def mtu_probe_step_def mtu_start_probe_def mtu_tick_def mtu_on_probe_acked_def
  mtu_step_get_def

section \<open>The retry timer\<close>

interpretation mtu_retry: retry_probe mtu_tick
  "\<lambda>(mtu, target, i) r t. \<lparr>path_mtu = mtu, mtu_state = MtuProbing target i r t\<rparr>"
  "\<lambda>(mtu, target, i) r. MtuRetransmit (make_probe target)"
  "\<lambda>(mtu, target, i). MtuProbeFailed target"
  "\<lambda>(mtu, target, i). \<lparr>path_mtu = mtu, mtu_state = MtuIdle i\<rparr>"
  MTU_PROBE_TIMEOUT_TICKS MTU_PROBE_MAX_RETRIES
  by unfold_locales (auto simp: mtu_tick_def)

section \<open>Operation sequences\<close>

datatype mtu_op = MtuStartProbe | MtuTick | MtuAck u16

fun mtu_step :: "path_mtu_controller \<Rightarrow> mtu_op \<Rightarrow> path_mtu_controller" where
  "mtu_step c MtuStartProbe = snd (mtu_start_probe c)"
| "mtu_step c MtuTick = snd (mtu_tick c)"
| "mtu_step c (MtuAck n) = snd (mtu_on_probe_acked c n)"

definition mtu_run :: "mtu_op list \<Rightarrow> path_mtu_controller" where
  "mtu_run ops = foldl mtu_step mtu_new ops"

text \<open>The size confirmed once the first \<open>i\<close> steps of the ladder are climbed.\<close>

definition mtu_ladder :: "nat \<Rightarrow> u16" where
  "mtu_ladder i = (MTU_BASE_BYTES # MTU_PROBE_STEPS) ! i"

definition mtu_wf :: "path_mtu_controller \<Rightarrow> bool" where
  "mtu_wf c = (case mtu_state c of
     MtuIdle i \<Rightarrow> i < length MTU_PROBE_STEPS \<and> path_mtu c = mtu_ladder i
   | MtuProbing target i r t \<Rightarrow> i < length MTU_PROBE_STEPS \<and> target = mtu_ladder (Suc i) \<and>
       path_mtu c = mtu_ladder i \<and> r \<le> MTU_PROBE_MAX_RETRIES \<and> t \<le> MTU_PROBE_TIMEOUT_TICKS
   | MtuComplete \<Rightarrow> path_mtu c = mtu_ladder (length MTU_PROBE_STEPS))"

lemma mtu_wf_step: "mtu_wf c \<Longrightarrow> mtu_wf (mtu_step c a)"
  by (cases a; cases "mtu_state c")
    (auto simp: mtu_wf_def mtu_op_defs mtu_ladder_def le_eq_less_or_eq Suc_le_eq split: if_splits)

interpretation mtu_machine: invariant_machine mtu_new mtu_step mtu_wf
proof unfold_locales
  show "mtu_wf mtu_new"
    by (simp add: mtu_wf_def mtu_new_def mtu_ladder_def MTU_PROBE_STEPS_def)
qed (rule mtu_wf_step)

lemma mtu_run_wf: "mtu_wf (mtu_run ops)"
  unfolding mtu_run_def by (rule mtu_machine.inv_run)

lemma mtu_ladder_eqs:
  "mtu_ladder 0 = 1200" "mtu_ladder (Suc 0) = 1400"
  "mtu_ladder 2 = 1452" "mtu_ladder 3 = 1500"
  by (simp_all add: mtu_ladder_def mtu_constants)

lemma mtu_index_cases: "(i::nat) < 3 \<Longrightarrow> i = 0 \<or> i = Suc 0 \<or> i = 2"
  by linarith

lemma mtu_ladder_values: "i \<le> 3 \<Longrightarrow> mtu_ladder i \<in> {1200, 1400, 1452, 1500}"
  using mtu_index_cases [of i] by (auto simp: mtu_ladder_eqs le_less)

lemma mtu_ladder_Suc: "i < length MTU_PROBE_STEPS \<Longrightarrow> mtu_ladder i < mtu_ladder (Suc i)"
  using mtu_index_cases [of i]
  by (auto simp: mtu_ladder_eqs MTU_PROBE_STEPS_def simp flip: numeral_2_eq_2 numeral_3_eq_3)

lemma mtu_ladder_below_top: "i < 3 \<Longrightarrow> mtu_ladder i \<noteq> 1500"
  using mtu_index_cases [of i] by (auto simp: mtu_ladder_eqs)

text \<open>
  Whatever probes, timeouts and acknowledgements happen, an operation changes the confirmed
  path MTU only when it is the acknowledgement of the probe in flight, and then it raises the
  MTU to exactly the acknowledged size; the confirmed size is always one of 1200, 1400, 1452 and
  1500 bytes.
\<close>

lemma mtu_raised_only_by_ack:
  shows "path_mtu (mtu_run ops) \<in> {1200, 1400, 1452, 1500} \<and>
    (path_mtu (mtu_run (ops @ [a])) = path_mtu (mtu_run ops) \<or>
     (\<exists>n. a = MtuAck n \<and> fst (mtu_on_probe_acked (mtu_run ops) n) = Some (MtuRaised n) \<and>
       path_mtu (mtu_run (ops @ [a])) = n \<and> path_mtu (mtu_run ops) < n))"
proof (intro conjI)
  let ?c = "mtu_run ops"
  have wf: "mtu_wf ?c" by (rule mtu_run_wf)
  then show "path_mtu ?c \<in> {1200, 1400, 1452, 1500}"
    by (cases "mtu_state ?c")
      (auto simp: mtu_wf_def MTU_PROBE_STEPS_def simp del: insert_iff intro!: mtu_ladder_values)
  have run: "mtu_run (ops @ [a]) = mtu_step ?c a" by (simp add: mtu_run_def)
  show "path_mtu (mtu_run (ops @ [a])) = path_mtu ?c \<or>
     (\<exists>n. a = MtuAck n \<and> fst (mtu_on_probe_acked ?c n) = Some (MtuRaised n) \<and>
       path_mtu (mtu_run (ops @ [a])) = n \<and> path_mtu ?c < n)"
    unfolding run using wf
    by (cases a; cases "mtu_state ?c")
      (auto simp: mtu_wf_def mtu_op_defs intro: mtu_ladder_Suc split: if_splits)
qed

text \<open>
  After any history, \<open>start_probe\<close> refuses to probe exactly when the whole ladder has been
  climbed; otherwise it probes the first size that is not confirmed yet, also when earlier
  probes of that size failed.
\<close>

lemma mtu_start_probe_refuses_iff_complete:
  "(fst (mtu_start_probe (mtu_run ops)) = None \<longleftrightarrow> mtu_is_complete (mtu_run ops)) \<and>
   (mtu_is_complete (mtu_run ops) \<longleftrightarrow> path_mtu (mtu_run ops) = 1500)"
proof -
  let ?c = "mtu_run ops"
  have wf: "mtu_wf ?c" by (rule mtu_run_wf)
  show ?thesis
    using wf mtu_ladder_below_top
    by (cases "mtu_state ?c")
      (auto simp: mtu_wf_def mtu_is_complete_def mtu_op_defs MTU_PROBE_STEPS_def mtu_ladder_eqs
        simp flip: numeral_3_eq_3)
qed

text \<open>
  An unanswered probe is retransmitted three times, then reported as failed on the 44th
  tick with the confirmed size and the step unchanged, so that the same size can be probed
  again.
\<close>

lemma mtu_unanswered_probe:
  assumes "mtu_start_probe c = (Some f, c')"
  shows "List.map_filter id (fst (ticks mtu_tick 44 c')) =
      replicate 3 (MtuRetransmit f) @ [MtuProbeFailed (target_mtu f)] \<and>
    path_mtu (snd (ticks mtu_tick 44 c')) = path_mtu c \<and>
    mtu_start_probe (snd (ticks mtu_tick 44 c')) = (Some f, c')"
proof -
  from assms obtain i where i: "mtu_step_get i = Some (target_mtu f)"
    and f: "f = make_probe (target_mtu f)"
    and c': "c' = \<lparr>path_mtu = path_mtu c, mtu_state =
        MtuProbing (target_mtu f) i MTU_PROBE_MAX_RETRIES MTU_PROBE_TIMEOUT_TICKS\<rparr>"
    by (cases c; cases "mtu_state c")
      (auto simp: mtu_start_probe_def mtu_probe_step_def make_probe_def split: option.splits)
  have n: "Suc MTU_PROBE_TIMEOUT_TICKS + MTU_PROBE_MAX_RETRIES * Suc MTU_PROBE_TIMEOUT_TICKS = 44"
    by (simp add: mtu_constants)
  have trace: "ticks mtu_tick 44 c' =
      (retry_trace (\<lambda>(mtu, target, i) r. MtuRetransmit (make_probe target))
         (\<lambda>(mtu, target, i). MtuProbeFailed target) MTU_PROBE_TIMEOUT_TICKS
         (path_mtu c, target_mtu f, i) MTU_PROBE_MAX_RETRIES MTU_PROBE_TIMEOUT_TICKS,
       \<lparr>path_mtu = path_mtu c, mtu_state = MtuIdle i\<rparr>)"
    using mtu_retry.ticks_unanswered [OF order_refl, of MTU_PROBE_TIMEOUT_TICKS
        "(path_mtu c, target_mtu f, i)", unfolded n] c' by simp
  show ?thesis
    unfolding trace
    by (simp only: fst_conv snd_conv retry_trace_events)
      (simp add: mtu_start_probe_def mtu_probe_step_def i c' f [symmetric]
        MTU_PROBE_MAX_RETRIES_def map_replicate_const)
qed

end
