(* ===== verification/Hole_Punch.thy ===== *)
theory Hole_Punch
  imports Prelude
begin

text \<open>
  UDP hole punching (\<open>core/lbtp/src/hole_punch.rs\<close>) and the NAT keepalive timer
  (\<open>core/lbtp/src/nat_keepalive.rs\<close>): paced probes that open a direct path, and the countdown
  that keeps its binding alive.
\<close>

section \<open>Hole punching: data and constants\<close>

definition HOLE_PUNCH_PROBE_INTERVAL_TICKS :: nat where
  "HOLE_PUNCH_PROBE_INTERVAL_TICKS = 5"

definition HOLE_PUNCH_MAX_PROBES :: u8 where
  "HOLE_PUNCH_MAX_PROBES = 10"

definition HOLE_PUNCH_PROBE_PAYLOAD_BYTES :: nat where
  "HOLE_PUNCH_PROBE_PAYLOAD_BYTES = 5"

record hole_punch_probe_frame =
  hp_payload :: bytes

definition hole_punch_probe_frame_new :: "u32 \<Rightarrow> u8 \<Rightarrow> hole_punch_probe_frame" where
  "hole_punch_probe_frame_new nonce sq = \<lparr>hp_payload = to_le_bytes32 nonce @ [sq]\<rparr>"

datatype hole_punch_event =
    HolePunchSendProbe hole_punch_probe_frame
  | HolePunchConnectedEvent
  | HolePunchFailedEvent

datatype hole_punch_state =
    HolePunchIdle
  | HolePunchProbing u32 u8 nat \<comment> \<open>nonce, probes sent, ticks remaining\<close>
  | HolePunchConnected
  | HolePunchFailed

record hole_punch_controller =
  hp_state :: hole_punch_state

section \<open>Hole punching: operations\<close>

definition hole_punch_new :: hole_punch_controller where
  "hole_punch_new = \<lparr>hp_state = HolePunchIdle\<rparr>"

definition hole_punch_start ::
  "hole_punch_controller \<Rightarrow> u32 \<Rightarrow> hole_punch_probe_frame \<times> hole_punch_controller" where
  "hole_punch_start c nonce =
     (hole_punch_probe_frame_new nonce 0,
      c\<lparr>hp_state := HolePunchProbing nonce 1 HOLE_PUNCH_PROBE_INTERVAL_TICKS\<rparr>)"

definition hole_punch_tick ::
  "hole_punch_controller \<Rightarrow> hole_punch_event option \<times> hole_punch_controller" where
  "hole_punch_tick c =
     (case hp_state c of
        HolePunchProbing nonce probes_sent ticks_remaining \<Rightarrow>
          if ticks_remaining > 0
          then (None, c\<lparr>hp_state := HolePunchProbing nonce probes_sent (ticks_remaining - 1)\<rparr>)
          else if probes_sent \<ge> HOLE_PUNCH_MAX_PROBES
          then (Some HolePunchFailedEvent, c\<lparr>hp_state := HolePunchFailed\<rparr>)
          else (Some (HolePunchSendProbe (hole_punch_probe_frame_new nonce probes_sent)),
                c\<lparr>hp_state :=
                  HolePunchProbing nonce (probes_sent + 1) HOLE_PUNCH_PROBE_INTERVAL_TICKS\<rparr>)
      | _ \<Rightarrow> (None, c))"

definition hole_punch_on_probe_received ::
  "hole_punch_controller \<Rightarrow> hole_punch_event option \<times> hole_punch_controller" where
  "hole_punch_on_probe_received c =
     (case hp_state c of
        HolePunchProbing _ _ _ \<Rightarrow>
          (Some HolePunchConnectedEvent, c\<lparr>hp_state := HolePunchConnected\<rparr>)
      | _ \<Rightarrow> (None, c))"

definition hole_punch_is_connected :: "hole_punch_controller \<Rightarrow> bool" where
  "hole_punch_is_connected c \<longleftrightarrow> hp_state c = HolePunchConnected"

definition hole_punch_is_failed :: "hole_punch_controller \<Rightarrow> bool" where
  "hole_punch_is_failed c \<longleftrightarrow> hp_state c = HolePunchFailed"

definition hole_punch_is_probing :: "hole_punch_controller \<Rightarrow> bool" where
  "hole_punch_is_probing c = (case hp_state c of HolePunchProbing _ _ _ \<Rightarrow> True | _ \<Rightarrow> False)"

definition hole_punch_probes_sent :: "hole_punch_controller \<Rightarrow> u8" where
  "hole_punch_probes_sent c =
     (case hp_state c of
        HolePunchProbing _ probes_sent _ \<Rightarrow> probes_sent
      | HolePunchFailed \<Rightarrow> HOLE_PUNCH_MAX_PROBES
      | _ \<Rightarrow> 0)"

lemmas hole_punch_op_defs =
  hole_punch_new_def hole_punch_start_def hole_punch_tick_def hole_punch_on_probe_received_def

section \<open>Hole punching: the probe schedule\<close>

text \<open>
  Seen as a retry timer, a controller that has sent \<open>s\<close> probes has \<open>10 - s\<close> left; the probe it
  sends with \<open>r\<close> left carries the sequence number \<open>10 - r\<close>.
\<close>

definition probes_before :: "nat \<Rightarrow> u8" where
  "probes_before r = of_nat (10 - r)"

lemma probes_before_0 [simp]: "probes_before 0 = 10"
  by (simp add: probes_before_def)

lemma probes_before_Suc: "Suc r \<le> 9 \<Longrightarrow> probes_before r = probes_before (Suc r) + 1"
proof -
  assume "Suc r \<le> 9"
  then have "10 - r = Suc (10 - Suc r)" by simp
  then show ?thesis by (simp add: probes_before_def)
qed

lemma probes_before_less: "Suc r \<le> 9 \<Longrightarrow> probes_before (Suc r) < HOLE_PUNCH_MAX_PROBES"
  by (simp only: probes_before_def HOLE_PUNCH_MAX_PROBES_def word_less_nat_alt unsigned_of_nat)
    (simp add: take_bit_nat_eq_self)

interpretation hole_punch_retry: retry_probe hole_punch_tick
  "\<lambda>nonce r t. \<lparr>hp_state = HolePunchProbing nonce (probes_before r) t\<rparr>"
  "\<lambda>nonce r. HolePunchSendProbe (hole_punch_probe_frame_new nonce (probes_before r))"
  "\<lambda>nonce. HolePunchFailedEvent"
  "\<lambda>nonce. \<lparr>hp_state = HolePunchFailed\<rparr>"
  HOLE_PUNCH_PROBE_INTERVAL_TICKS 9
proof unfold_locales
  fix nonce r
  assume "Suc r \<le> 9"
  with probes_before_less [of r] probes_before_Suc [of r]
  show "hole_punch_tick \<lparr>hp_state = HolePunchProbing nonce (probes_before (Suc r)) 0\<rparr> =
      (Some (HolePunchSendProbe (hole_punch_probe_frame_new nonce (probes_before (Suc r)))),
       \<lparr>hp_state = HolePunchProbing nonce (probes_before r) HOLE_PUNCH_PROBE_INTERVAL_TICKS\<rparr>)"
    by (simp add: hole_punch_tick_def not_le)
qed (simp_all add: hole_punch_tick_def HOLE_PUNCH_MAX_PROBES_def)

lemma hole_punch_start_state:
  "snd (hole_punch_start c nonce) =
     \<lparr>hp_state = HolePunchProbing nonce (probes_before 9) HOLE_PUNCH_PROBE_INTERVAL_TICKS\<rparr>"
  by (cases c) (simp add: hole_punch_start_def probes_before_def)

lemma hole_punch_total_ticks:
  "Suc HOLE_PUNCH_PROBE_INTERVAL_TICKS + 9 * Suc HOLE_PUNCH_PROBE_INTERVAL_TICKS = 60"
  by (simp add: HOLE_PUNCH_PROBE_INTERVAL_TICKS_def)

lemma hole_punch_unanswered_trace:
  "ticks hole_punch_tick 60 (snd (hole_punch_start c nonce)) =
     (retry_trace
        (\<lambda>nonce r. HolePunchSendProbe (hole_punch_probe_frame_new nonce (probes_before r)))
        (\<lambda>nonce. HolePunchFailedEvent) HOLE_PUNCH_PROBE_INTERVAL_TICKS nonce 9
        HOLE_PUNCH_PROBE_INTERVAL_TICKS,
      \<lparr>hp_state = HolePunchFailed\<rparr>)"
  using hole_punch_retry.ticks_unanswered
    [OF order_refl, of HOLE_PUNCH_PROBE_INTERVAL_TICKS nonce, unfolded hole_punch_total_ticks]
  by (simp only: hole_punch_start_state)

lemma hole_punch_still_probing:
  "n < 60 \<Longrightarrow> hole_punch_is_probing (snd (ticks hole_punch_tick n (snd (hole_punch_start c nonce))))"
  using hole_punch_retry.ticks_still_probing
    [OF order_refl, of n HOLE_PUNCH_PROBE_INTERVAL_TICKS nonce, unfolded hole_punch_total_ticks]
  by (auto simp: hole_punch_start_state hole_punch_is_probing_def)

lemma probe_sequence:
  "map (\<lambda>r. HolePunchSendProbe (hole_punch_probe_frame_new nonce (probes_before r))) (rev [1..<Suc 9]) =
   map (\<lambda>s. HolePunchSendProbe (hole_punch_probe_frame_new nonce (of_nat s))) [1..<10]"
  by (simp add: upt_rec probes_before_def)

text \<open>
  When the peer never answers, the controller sends exactly ten probes in all, the one
  \<open>start\<close> returns and nine more, with the nonce and the consecutive sequence numbers 0 to 9, and
  reports failure on the 60th tick and not before.
\<close>

lemma hole_punch_unanswered:
  "HolePunchSendProbe (fst (hole_punch_start c nonce)) #
     List.map_filter id (fst (ticks hole_punch_tick 60 (snd (hole_punch_start c nonce)))) =
     map (\<lambda>s. HolePunchSendProbe (hole_punch_probe_frame_new nonce (of_nat s))) [0..<10] @
       [HolePunchFailedEvent] \<and>
   hole_punch_is_failed (snd (ticks hole_punch_tick 60 (snd (hole_punch_start c nonce)))) \<and>
   (\<forall>n<60. hole_punch_is_probing (snd (ticks hole_punch_tick n (snd (hole_punch_start c nonce)))))"
proof (intro conjI allI impI)
  have "[0..<10] = 0 # [1..<10]" by (simp add: upt_rec)
  then show "HolePunchSendProbe (fst (hole_punch_start c nonce)) #
     List.map_filter id (fst (ticks hole_punch_tick 60 (snd (hole_punch_start c nonce)))) =
     map (\<lambda>s. HolePunchSendProbe (hole_punch_probe_frame_new nonce (of_nat s))) [0..<10] @
       [HolePunchFailedEvent]"
    by (simp only: hole_punch_unanswered_trace fst_conv retry_trace_events probe_sequence)
      (simp add: hole_punch_start_def)
  show "hole_punch_is_failed (snd (ticks hole_punch_tick 60 (snd (hole_punch_start c nonce))))"
    by (simp only: hole_punch_unanswered_trace) (simp add: hole_punch_is_failed_def)
qed (rule hole_punch_still_probing)

section \<open>Hole punching: operation sequences\<close>

datatype hole_punch_op = HpStart u32 | HpTick | HpReceive

fun hole_punch_step :: "hole_punch_controller \<Rightarrow> hole_punch_op \<Rightarrow> hole_punch_controller" where
  "hole_punch_step c (HpStart nonce) = snd (hole_punch_start c nonce)"
| "hole_punch_step c HpTick = snd (hole_punch_tick c)"
| "hole_punch_step c HpReceive = snd (hole_punch_on_probe_received c)"

definition hole_punch_run :: "hole_punch_op list \<Rightarrow> hole_punch_controller" where
  "hole_punch_run ops = foldl hole_punch_step hole_punch_new ops"

definition hole_punch_wf :: "hole_punch_controller \<Rightarrow> bool" where
  "hole_punch_wf c = (case hp_state c of
     HolePunchProbing _ s t \<Rightarrow>
       1 \<le> s \<and> s \<le> HOLE_PUNCH_MAX_PROBES \<and> t \<le> HOLE_PUNCH_PROBE_INTERVAL_TICKS
   | _ \<Rightarrow> True)"

lemma probes_sent_Suc:
  "s < HOLE_PUNCH_MAX_PROBES \<Longrightarrow> 1 \<le> s + 1 \<and> s + 1 \<le> HOLE_PUNCH_MAX_PROBES"
  by (auto simp: HOLE_PUNCH_MAX_PROBES_def word_less_nat_alt word_le_nat_alt unat_word_ariths)

interpretation hole_punch_machine: invariant_machine hole_punch_new hole_punch_step hole_punch_wf
proof unfold_locales
  show "hole_punch_wf hole_punch_new" by (simp add: hole_punch_wf_def hole_punch_new_def)
next
  fix c a
  assume "hole_punch_wf c"
  then show "hole_punch_wf (hole_punch_step c a)"
    by (cases a; cases "hp_state c")
      (auto simp: hole_punch_wf_def hole_punch_op_defs HOLE_PUNCH_MAX_PROBES_def
        dest: probes_sent_Suc [unfolded HOLE_PUNCH_MAX_PROBES_def] simp: not_le)
qed

text \<open>
  After any history the probe counter never passes ten (it cannot wrap its \<open>u8\<close>), and the
  controller connects only in a step that receives a datagram while it is probing.
\<close>

lemma hole_punch_safe:
  "hole_punch_probes_sent (hole_punch_run ops) \<le> 10 \<and>
   (hole_punch_is_connected (hole_punch_run (ops @ [a])) \<longrightarrow>
      hole_punch_is_connected (hole_punch_run ops) \<or>
      a = HpReceive \<and> hole_punch_is_probing (hole_punch_run ops))"
proof -
  let ?c = "hole_punch_run ops"
  have wf: "hole_punch_wf ?c"
    unfolding hole_punch_run_def by (rule hole_punch_machine.inv_run)
  have run: "hole_punch_run (ops @ [a]) = hole_punch_step ?c a" by (simp add: hole_punch_run_def)
  show ?thesis
    unfolding run using wf
    by (cases a; cases "hp_state ?c")
      (auto simp: hole_punch_wf_def hole_punch_probes_sent_def hole_punch_op_defs
        HOLE_PUNCH_MAX_PROBES_def hole_punch_is_connected_def hole_punch_is_probing_def)
qed

section \<open>The NAT keepalive timer\<close>

definition NAT_KEEPALIVE_MIN_TICKS :: nat where
  "NAT_KEEPALIVE_MIN_TICKS = 150"

definition NAT_KEEPALIVE_MAX_TICKS :: nat where
  "NAT_KEEPALIVE_MAX_TICKS = 250"

datatype keepalive_event = Keepalive

text \<open>
  \<open>ticks_remaining: u32\<close> is set by \<open>clamp\<close> to at most 250 and counts down behind a test for
  zero, so it is a natural number here.
\<close>

record nat_keepalive_controller =
  nk_ticks_remaining :: nat

definition nat_keepalive_new :: "nat \<Rightarrow> nat_keepalive_controller" where
  "nat_keepalive_new interval_ticks =
     \<lparr>nk_ticks_remaining = clamp interval_ticks NAT_KEEPALIVE_MIN_TICKS NAT_KEEPALIVE_MAX_TICKS\<rparr>"

definition nat_keepalive_tick ::
  "nat_keepalive_controller \<Rightarrow> keepalive_event option \<times> nat_keepalive_controller" where
  "nat_keepalive_tick c =
     (if nk_ticks_remaining c = 0 then (None, c)
      else let c' = c\<lparr>nk_ticks_remaining := nk_ticks_remaining c - 1\<rparr> in
        if nk_ticks_remaining c' = 0 then (Some Keepalive, c') else (None, c'))"

definition nat_keepalive_reset ::
  "nat_keepalive_controller \<Rightarrow> nat \<Rightarrow> nat_keepalive_controller" where
  "nat_keepalive_reset c interval_ticks =
     c\<lparr>nk_ticks_remaining := clamp interval_ticks NAT_KEEPALIVE_MIN_TICKS NAT_KEEPALIVE_MAX_TICKS\<rparr>"

lemma nat_keepalive_countdown:
  "ticks nat_keepalive_tick (Suc n) \<lparr>nk_ticks_remaining = Suc n\<rparr> =
     (replicate n None @ [Some Keepalive], \<lparr>nk_ticks_remaining = 0\<rparr>)"
  by (induction n) (simp_all add: nat_keepalive_tick_def Let_def)

lemma nat_keepalive_disarmed:
  "ticks nat_keepalive_tick n \<lparr>nk_ticks_remaining = 0\<rparr> =
     (replicate n None, \<lparr>nk_ticks_remaining = 0\<rparr>)"
  by (induction n) (simp_all add: nat_keepalive_tick_def)

text \<open>
  a keepalive timer armed with any requested interval fires exactly once, on the tick whose
  number is the interval clamped to 150..250 ticks, and stays silent for all later ticks until
  it is armed again.
\<close>

lemma nat_keepalive_fires_once:
  fixes i m :: nat and c :: nat_keepalive_controller
  defines "n \<equiv> clamp i 150 250"
  shows "nat_keepalive_reset c i = nat_keepalive_new i \<and> 150 \<le> n \<and> n \<le> 250 \<and>
    fst (ticks nat_keepalive_tick (n + m) (nat_keepalive_new i)) =
      replicate (n - 1) None @ [Some Keepalive] @ replicate m None"
proof -
  have n: "150 \<le> n" "n \<le> 250"
    using clamp_bounds [of 150 250 i] by (simp_all add: n_def)
  then obtain k where k: "n = Suc k" by (cases n) auto
  have new: "nat_keepalive_new i = \<lparr>nk_ticks_remaining = Suc k\<rparr>"
    using k by (simp add: nat_keepalive_new_def n_def NAT_KEEPALIVE_MIN_TICKS_def
        NAT_KEEPALIVE_MAX_TICKS_def)
  have "fst (ticks nat_keepalive_tick (n + m) (nat_keepalive_new i)) =
      replicate (n - 1) None @ [Some Keepalive] @ replicate m None"
    unfolding k new ticks_add nat_keepalive_countdown Let_def prod.case nat_keepalive_disarmed
    by simp
  with n show ?thesis
    by (cases c) (simp add: nat_keepalive_reset_def nat_keepalive_new_def)
qed

end
