(* ===== verification/Turn_Relay.thy ===== *)
theory Turn_Relay
  imports Prelude
begin

text \<open>
  The TURN relay fallback (\<open>core/lbtp/src/turn_relay.rs\<close>): the controller that activates and
  keeps a relay allocation when no direct path works, and the ChannelData framer that wraps
  ciphertext for the relay.
\<close>

section \<open>The controller\<close>

definition TURN_PROBE_TIMEOUT_TICKS :: nat where
  "TURN_PROBE_TIMEOUT_TICKS = 5"

definition TURN_PROBE_MAX_RETRIES :: nat where
  "TURN_PROBE_MAX_RETRIES = 4"

definition TURN_KEEPALIVE_INTERVAL_TICKS :: nat where
  "TURN_KEEPALIVE_INTERVAL_TICKS = 1200"

datatype relay_event = RelayRetransmit | RelayActivated | RelayKeepalive | RelayFailedEvent

datatype relay_state =
    RelayIdle
  | RelayProbing nat nat \<comment> \<open>retries left, ticks remaining\<close>
  | RelayActive nat \<comment> \<open>keepalive ticks\<close>
  | RelayFailed

record turn_relay_controller =
  relay_state :: relay_state

definition turn_relay_new :: turn_relay_controller where
  "turn_relay_new = \<lparr>relay_state = RelayIdle\<rparr>"

definition on_direct_path_failed :: "turn_relay_controller \<Rightarrow> turn_relay_controller" where
  "on_direct_path_failed c =
     (if relay_state c = RelayIdle
      then c\<lparr>relay_state := RelayProbing TURN_PROBE_MAX_RETRIES TURN_PROBE_TIMEOUT_TICKS\<rparr>
      else c)"

fun is_RelayProbing :: "relay_state \<Rightarrow> bool" where
  "is_RelayProbing (RelayProbing _ _) = True"
| "is_RelayProbing _ = False"

fun is_RelayActive :: "relay_state \<Rightarrow> bool" where
  "is_RelayActive (RelayActive _) = True"
| "is_RelayActive _ = False"

definition on_relay_activated ::
  "turn_relay_controller \<Rightarrow> relay_event option \<times> turn_relay_controller" where
  "on_relay_activated c =
     (if is_RelayProbing (relay_state c)
      then (Some RelayActivated, c\<lparr>relay_state := RelayActive TURN_KEEPALIVE_INTERVAL_TICKS\<rparr>)
      else (None, c))"

definition on_relay_ack :: "turn_relay_controller \<Rightarrow> turn_relay_controller" where
  "on_relay_ack c =
     (case relay_state c of
        RelayActive _ \<Rightarrow> c\<lparr>relay_state := RelayActive TURN_KEEPALIVE_INTERVAL_TICKS\<rparr>
      | _ \<Rightarrow> c)"

definition on_direct_path_recovered :: "turn_relay_controller \<Rightarrow> turn_relay_controller" where
  "on_direct_path_recovered c =
     (if is_RelayActive (relay_state c) then c\<lparr>relay_state := RelayIdle\<rparr> else c)"

definition turn_relay_tick ::
  "turn_relay_controller \<Rightarrow> relay_event option \<times> turn_relay_controller" where
  "turn_relay_tick c =
     (case relay_state c of
        RelayActive keepalive_ticks \<Rightarrow>
          if keepalive_ticks > 0
          then (None, c\<lparr>relay_state := RelayActive (keepalive_ticks - 1)\<rparr>)
          else (Some RelayKeepalive, c\<lparr>relay_state := RelayActive TURN_KEEPALIVE_INTERVAL_TICKS\<rparr>)
      | RelayProbing retries_left ticks_remaining \<Rightarrow>
          if ticks_remaining > 0
          then (None, c\<lparr>relay_state := RelayProbing retries_left (ticks_remaining - 1)\<rparr>)
          else if retries_left = 0
          then (Some RelayFailedEvent, c\<lparr>relay_state := RelayFailed\<rparr>)
          else (Some RelayRetransmit,
                c\<lparr>relay_state := RelayProbing (retries_left - 1) TURN_PROBE_TIMEOUT_TICKS\<rparr>)
      | _ \<Rightarrow> (None, c))"

definition relay_is_idle :: "turn_relay_controller \<Rightarrow> bool" where
  "relay_is_idle c \<longleftrightarrow> relay_state c = RelayIdle"

definition relay_is_probing :: "turn_relay_controller \<Rightarrow> bool" where
  "relay_is_probing c \<longleftrightarrow> is_RelayProbing (relay_state c)"

definition relay_is_active :: "turn_relay_controller \<Rightarrow> bool" where
  "relay_is_active c \<longleftrightarrow> is_RelayActive (relay_state c)"

definition relay_is_failed :: "turn_relay_controller \<Rightarrow> bool" where
  "relay_is_failed c \<longleftrightarrow> relay_state c = RelayFailed"

lemmas relay_op_defs =
  turn_relay_new_def on_direct_path_failed_def on_relay_activated_def on_relay_ack_def
  on_direct_path_recovered_def turn_relay_tick_def

lemmas relay_query_defs =
  relay_is_idle_def relay_is_probing_def relay_is_active_def relay_is_failed_def

interpretation relay_retry: retry_probe turn_relay_tick
  "\<lambda>_::unit. \<lambda>r t. \<lparr>relay_state = RelayProbing r t\<rparr>"
  "\<lambda>_ _. RelayRetransmit"
  "\<lambda>_. RelayFailedEvent"
  "\<lambda>_. \<lparr>relay_state = RelayFailed\<rparr>"
  TURN_PROBE_TIMEOUT_TICKS TURN_PROBE_MAX_RETRIES
  by unfold_locales (simp_all add: turn_relay_tick_def)

lemma relay_total_ticks:
  "Suc TURN_PROBE_TIMEOUT_TICKS + TURN_PROBE_MAX_RETRIES * Suc TURN_PROBE_TIMEOUT_TICKS = 30"
  by (simp add: TURN_PROBE_TIMEOUT_TICKS_def TURN_PROBE_MAX_RETRIES_def)

section \<open>Operation sequences\<close>

datatype relay_op =
  RelayDirectFailed | RelayActivatedResponse | RelayAck | RelayDirectRecovered | RelayTick

fun relay_step :: "turn_relay_controller \<Rightarrow> relay_op \<Rightarrow> turn_relay_controller" where
  "relay_step c RelayDirectFailed = on_direct_path_failed c"
| "relay_step c RelayActivatedResponse = snd (on_relay_activated c)"
| "relay_step c RelayAck = on_relay_ack c"
| "relay_step c RelayDirectRecovered = on_direct_path_recovered c"
| "relay_step c RelayTick = snd (turn_relay_tick c)"

definition relay_run :: "relay_op list \<Rightarrow> turn_relay_controller" where
  "relay_run ops = foldl relay_step turn_relay_new ops"

text \<open>
  The state diagram in the module's documentation, as a relation between the kinds of state.
\<close>

datatype relay_phase = PhaseIdle | PhaseProbing | PhaseActive | PhaseFailed

fun relay_phase_of :: "relay_state \<Rightarrow> relay_phase" where
  "relay_phase_of RelayIdle = PhaseIdle"
| "relay_phase_of (RelayProbing _ _) = PhaseProbing"
| "relay_phase_of (RelayActive _) = PhaseActive"
| "relay_phase_of RelayFailed = PhaseFailed"

inductive relay_diagram :: "relay_phase \<Rightarrow> relay_op \<Rightarrow> relay_phase \<Rightarrow> bool" where
  direct_failed: "relay_diagram PhaseIdle RelayDirectFailed PhaseProbing"
| activated: "relay_diagram PhaseProbing RelayActivatedResponse PhaseActive"
| exhausted: "relay_diagram PhaseProbing RelayTick PhaseFailed"
| recovered: "relay_diagram PhaseActive RelayDirectRecovered PhaseIdle"
| stay: "relay_diagram p a p"

inductive_simps relay_diagram_simps: "relay_diagram p a q"

text \<open>
  Every operation moves the relay controller along an edge of the documented state diagram:
  idle to probing on a failed direct path, probing to active on an allocation response, probing
  to failed on a tick, active to idle on a recovered path, and nothing else; in particular a
  failed relay is terminal.
\<close>

lemma relay_follows_diagram:
  "relay_diagram (relay_phase_of (relay_state c)) a (relay_phase_of (relay_state (relay_step c a))) \<and>
   (relay_is_failed c \<longrightarrow> relay_is_failed (foldl relay_step c ops))"
proof (intro conjI impI)
  show "relay_diagram (relay_phase_of (relay_state c)) a
          (relay_phase_of (relay_state (relay_step c a)))"
    by (cases a; cases "relay_state c") (auto simp: relay_diagram_simps relay_op_defs)
  have stuck: "relay_is_failed (relay_step d b)" if "relay_is_failed d" for d b
    using that by (cases b) (simp_all add: relay_is_failed_def relay_op_defs)
  assume "relay_is_failed c"
  then show "relay_is_failed (foldl relay_step c ops)"
    by (induction ops arbitrary: c) (auto intro: stuck)
qed

text \<open>
  Once the direct path failed, a relay that never answers is probed four more times and
  given up on the 30th tick exactly; an answer on any earlier tick activates it.
\<close>

lemma relay_probe_bounded:
  assumes "relay_is_idle c"
  shows "List.map_filter id (fst (ticks turn_relay_tick 30 (on_direct_path_failed c))) =
      replicate 4 RelayRetransmit @ [RelayFailedEvent] \<and>
    relay_is_failed (snd (ticks turn_relay_tick 30 (on_direct_path_failed c))) \<and>
    (\<forall>n<30. fst (on_relay_activated (snd (ticks turn_relay_tick n (on_direct_path_failed c)))) =
      Some RelayActivated)"
proof -
  have c: "on_direct_path_failed c =
      \<lparr>relay_state = RelayProbing TURN_PROBE_MAX_RETRIES TURN_PROBE_TIMEOUT_TICKS\<rparr>"
    using assms by (cases c) (simp add: on_direct_path_failed_def relay_is_idle_def)
  have trace: "ticks turn_relay_tick 30 (on_direct_path_failed c) =
      (retry_trace (\<lambda>_ _. RelayRetransmit) (\<lambda>_. RelayFailedEvent) TURN_PROBE_TIMEOUT_TICKS ()
         TURN_PROBE_MAX_RETRIES TURN_PROBE_TIMEOUT_TICKS, \<lparr>relay_state = RelayFailed\<rparr>)"
    using relay_retry.ticks_unanswered
      [OF order_refl, of TURN_PROBE_TIMEOUT_TICKS, unfolded relay_total_ticks]
    by (simp only: c)
  have early: "fst (on_relay_activated (snd (ticks turn_relay_tick n (on_direct_path_failed c)))) =
      Some RelayActivated" if "n < 30" for n
    using relay_retry.ticks_still_probing
      [OF order_refl, of n TURN_PROBE_TIMEOUT_TICKS, unfolded relay_total_ticks, OF that]
    by (auto simp: c on_relay_activated_def)
  have events: "List.map_filter id (fst (ticks turn_relay_tick 30 (on_direct_path_failed c))) =
      replicate 4 RelayRetransmit @ [RelayFailedEvent]"
    by (simp only: trace fst_conv retry_trace_events)
      (simp add: TURN_PROBE_MAX_RETRIES_def map_replicate_const)
  show ?thesis
    using early by (simp add: events) (simp add: trace relay_is_failed_def)
qed

text \<open>
  An active relay refreshes its allocation on every 1201st tick, for ever, as long as nothing
  else happens.
\<close>

lemma relay_keepalive_wait:
  "n \<le> k \<Longrightarrow> ticks turn_relay_tick n \<lparr>relay_state = RelayActive k\<rparr> =
     (replicate n None, \<lparr>relay_state = RelayActive (k - n)\<rparr>)"
proof (induction n arbitrary: k)
  case 0
  then show ?case by simp
next
  case (Suc n)
  then obtain k' where "k = Suc k'" by (cases k) auto
  with Suc show ?case by (simp add: turn_relay_tick_def)
qed

lemma relay_keepalive_period:
  "ticks turn_relay_tick (Suc TURN_KEEPALIVE_INTERVAL_TICKS)
     \<lparr>relay_state = RelayActive TURN_KEEPALIVE_INTERVAL_TICKS\<rparr> =
   (replicate TURN_KEEPALIVE_INTERVAL_TICKS None @ [Some RelayKeepalive],
    \<lparr>relay_state = RelayActive TURN_KEEPALIVE_INTERVAL_TICKS\<rparr>)"
  using ticks_add [of turn_relay_tick TURN_KEEPALIVE_INTERVAL_TICKS 1]
  by (simp add: relay_keepalive_wait Let_def) (simp add: turn_relay_tick_def)

section \<open>ChannelData framing\<close>

definition TURN_CHANNEL_HEADER_BYTES :: nat where
  "TURN_CHANNEL_HEADER_BYTES = 4"

definition TURN_MIN_CHANNEL_NUMBER :: u16 where
  "TURN_MIN_CHANNEL_NUMBER = 0x4000"

definition TURN_MAX_CHANNEL_NUMBER :: u16 where
  "TURN_MAX_CHANNEL_NUMBER = 0x7FFF"

definition TURN_DEFAULT_CHANNEL_NUMBER :: u16 where
  "TURN_DEFAULT_CHANNEL_NUMBER = 0x4000"

definition TURN_MAX_PAYLOAD_BYTES :: nat where
  "TURN_MAX_PAYLOAD_BYTES = 1200"

record turn_channel_data_framer =
  channel_number :: u16

text \<open>
  \<open>new\<close> checks its argument with \<open>debug_assert!\<close>: a build with debug assertions panics
  (\<open>None\<close>) outside the TURN channel range, a release build accepts any number.
\<close>

definition turn_framer_new :: "bool \<Rightarrow> u16 \<Rightarrow> turn_channel_data_framer option" where
  "turn_framer_new debug_assertions n =
     (if debug_assertions \<and> \<not> (TURN_MIN_CHANNEL_NUMBER \<le> n \<and> n \<le> TURN_MAX_CHANNEL_NUMBER)
      then None else Some \<lparr>channel_number = n\<rparr>)"

definition turn_encode :: "turn_channel_data_framer \<Rightarrow> bytes \<Rightarrow> bytes option" where
  "turn_encode f ciphertext =
     (if length ciphertext > TURN_MAX_PAYLOAD_BYTES then None
      else Some (to_be_bytes16 (channel_number f) @
                 to_be_bytes16 (of_nat (length ciphertext)) @ ciphertext))"

definition turn_decode :: "bytes \<Rightarrow> (u16 \<times> bytes) option" where
  "turn_decode bs =
     (if length bs < TURN_CHANNEL_HEADER_BYTES then None
      else let channel = from_be_bytes16 (bs ! 0) (bs ! 1);
               data_len = unat (from_be_bytes16 (bs ! 2) (bs ! 3))
           in if length bs \<noteq> TURN_CHANNEL_HEADER_BYTES + data_len then None
              else Some (channel, drop TURN_CHANNEL_HEADER_BYTES bs))"

lemma turn_decode_header:
  "turn_decode (to_be_bytes16 ch @ to_be_bytes16 (of_nat n) @ p) =
     (if n < 65536 \<and> length p = n then Some (ch, p)
      else if length p = n mod 65536 then Some (ch, p) else None)"
proof -
  have n: "unat (of_nat n :: u16) = n mod 65536"
    by (simp add: unsigned_of_nat take_bit_eq_mod)
  show ?thesis
    by (simp add: turn_decode_def to_be_bytes16_def TURN_CHANNEL_HEADER_BYTES_def
        from_to_be_bytes16 Let_def n [simplified])
qed

lemma turn_decode_Some_iff:
  "turn_decode bs = Some (ch, p) \<longleftrightarrow>
     length p < 65536 \<and> bs = to_be_bytes16 ch @ to_be_bytes16 (of_nat (length p)) @ p"
proof
  assume "turn_decode bs = Some (ch, p)"
  then obtain a b c d q where bs: "bs = a # b # c # d # q"
    by (auto simp: turn_decode_def TURN_CHANNEL_HEADER_BYTES_def Let_def numeral_eq_Suc
        length_Suc_conv not_less Suc_le_length_iff split: if_splits)
  with \<open>turn_decode bs = Some (ch, p)\<close> have
    ch: "ch = from_be_bytes16 a b" and len: "length p = unat (from_be_bytes16 c d)" and q: "q = p"
    by (auto simp: turn_decode_def TURN_CHANNEL_HEADER_BYTES_def Let_def split: if_splits)
  have le: "length p < 65536" using unat_less_exp [of "from_be_bytes16 c d"] len by simp
  have "of_nat (length p) = from_be_bytes16 c d" by (simp add: len)
  with ch q bs le show "length p < 65536 \<and> bs = to_be_bytes16 ch @ to_be_bytes16 (of_nat (length p)) @ p"
    by (simp add: to_from_be_bytes16)
next
  assume "length p < 65536 \<and> bs = to_be_bytes16 ch @ to_be_bytes16 (of_nat (length p)) @ p"
  then show "turn_decode bs = Some (ch, p)" by (simp add: turn_decode_header)
qed

text \<open>
  What the framer encodes, and only that up to the size limit, is what the decoder accepts:
  a frame of at most 1200 ciphertext bytes decodes to its channel number and its ciphertext
  unchanged, a larger one is refused, and a decoded message of at most 1200 bytes is the
  encoding of what the decoder returned.
\<close>

lemma turn_framing_roundtrip:
  "(length p \<le> 1200 \<longrightarrow> (\<exists>bs. turn_encode f p = Some bs \<and> length bs = 4 + length p \<and>
      turn_decode bs = Some (channel_number f, p))) \<and>
   (length p > 1200 \<longrightarrow> turn_encode f p = None) \<and>
   (turn_decode bs = Some (ch, q) \<and> length q \<le> 1200 \<longrightarrow>
      turn_encode \<lparr>channel_number = ch\<rparr> q = Some bs)"
  by (auto simp: turn_encode_def TURN_MAX_PAYLOAD_BYTES_def turn_decode_Some_iff)

end
