(* ===== verification/Seq.thy ===== *)
theory Seq
  imports Prelude
begin

text \<open>
  Wire sequence expansion (\<open>core/lbtp/src/seq.rs\<close>): the receiver rebuilds the 47-bit packet
  sequence number, from which the AEAD nonce is made, out of the 16 bits on the wire.
\<close>

unbundle bit_operations_syntax

section \<open>Constants, state and operations\<close>

definition WIRE_SEQ_BITS :: nat where
  "WIRE_SEQ_BITS = 16"

definition SEQ_BITS :: nat where
  "SEQ_BITS = 47"

definition SEQ_MAX :: u64 where
  "SEQ_MAX = push_bit SEQ_BITS 1 - 1"

definition WIRE_MASK :: u64 where
  "WIRE_MASK = push_bit WIRE_SEQ_BITS 1 - 1"

record seq_expander =
  next_expected :: u64

definition seq_new :: seq_expander where
  "seq_new = \<lparr>next_expected = 0\<rparr>"

text \<open>
  The casts of the source: \<open>as u16\<close> keeps the low 16 bits, \<open>as i16\<close> and \<open>as i64\<close> read two's
  complement. The \<open>i64\<close> sum cannot overflow, since \<open>next_expected\<close> stays at most \<open>2 ^ 47\<close>
  (\<open>seq_wf\<close> below), so it is an integer sum here.
\<close>

definition seq_expand :: "seq_expander \<Rightarrow> u16 \<Rightarrow> u64 \<times> seq_expander" where
  "seq_expand s wire_seq =
     (let low = ucast (next_expected s AND WIRE_MASK) :: u16;
          delta = sint (wire_seq - low);
          full = of_int (clamp (sint (next_expected s) + delta) 0 (sint SEQ_MAX)) :: u64
      in (full,
          if full \<ge> next_expected s then s\<lparr>next_expected := full + 1\<rparr> else s))"

text \<open>What the sender puts on the wire.\<close>

definition wire_of :: "nat \<Rightarrow> u16" where
  "wire_of q = of_nat q"

section \<open>Arithmetic of one expansion\<close>

lemma SEQ_MAX_eq: "SEQ_MAX = 2 ^ 47 - 1"
  by (simp add: SEQ_MAX_def SEQ_BITS_def push_bit_eq_mult)

lemma sint_SEQ_MAX: "sint SEQ_MAX = 2 ^ 47 - 1"
  by (simp add: SEQ_MAX_eq)

lemma unat_SEQ_MAX: "unat SEQ_MAX = 2 ^ 47 - 1"
  by (simp add: SEQ_MAX_eq)

definition seq_wf :: "seq_expander \<Rightarrow> bool" where
  "seq_wf s \<longleftrightarrow> unat (next_expected s) \<le> 2 ^ 47"

lemma sint_small: "unat (w :: u64) \<le> 2 ^ 47 \<Longrightarrow> sint w = int (unat w)"
proof -
  assume "unat w \<le> 2 ^ 47"
  then have "int (unat w) \<le> int (2 ^ 47)" by (simp only: of_nat_le_iff)
  then have "int (unat w) < 2 ^ 63" by (simp del: of_nat_unat)
  then have "signed_take_bit 63 (int (unat w)) = int (unat w)"
    by (intro signed_take_bit_int_eq_self) (simp_all del: of_nat_unat)
  then show ?thesis by (simp add: sint_uint)
qed

lemma wire_mask_low: "ucast (n AND WIRE_MASK) = (ucast n :: u16)" for n :: u64
proof -
  have "WIRE_MASK = mask 16" by (simp add: WIRE_MASK_def WIRE_SEQ_BITS_def mask_eq_exp_minus_1)
  then have "n AND WIRE_MASK = take_bit 16 n" by (simp add: take_bit_eq_mask)
  then show ?thesis
    by (simp add: word_unat_eq_iff unsigned_ucast_eq unsigned_take_bit_eq)
qed

text \<open>The signed 16-bit difference of two numbers at most half the wire range apart.\<close>

lemma sint_wire_delta:
  assumes "- 32768 \<le> int q - int n" "int q - int n \<le> 32767"
  shows "sint (of_nat q - of_nat n :: u16) = int q - int n"
proof -
  have "(of_nat q - of_nat n :: u16) = of_int (int q - int n)" by simp
  moreover have "sint (of_int (int q - int n) :: u16) = int q - int n"
    unfolding signed_of_int using assms by (subst signed_take_bit_int_eq_self) simp_all
  ultimately show ?thesis by simp
qed

lemma ucast_of_unat: "(ucast n :: u16) = of_nat (unat (n :: u64))"
  by (simp add: word_unat_eq_iff unsigned_ucast_eq unsigned_of_nat)

lemma of_int_clamp_u64:
  assumes "0 \<le> i" "i < 2 ^ 63"
  shows "unat (of_int i :: u64) = nat i"
proof -
  have "(of_int i :: u64) = of_nat (nat i)" using assms(1) by simp
  moreover have "unat (of_nat (nat i) :: u64) = nat i"
    using assms by (simp only: unsigned_of_nat) (simp add: take_bit_nat_eq_self nat_less_iff)
  ultimately show ?thesis by simp
qed

lemma seq_expand_eq:
  assumes "seq_wf s" "- 32768 \<le> int q - int (unat (next_expected s))"
    "int q - int (unat (next_expected s)) \<le> 32767" "q < 2 ^ 47"
  shows "unat (fst (seq_expand s (wire_of q))) = q \<and>
    unat (next_expected (snd (seq_expand s (wire_of q)))) = max (unat (next_expected s)) (Suc q)"
proof -
  let ?n = "unat (next_expected s)"
  have n: "?n \<le> 2 ^ 47" using assms(1) by (simp add: seq_wf_def)
  have d: "sint (wire_of q - ucast (next_expected s AND WIRE_MASK)) = int q - int ?n"
    unfolding wire_mask_low unfolding ucast_of_unat wire_of_def
    by (rule sint_wire_delta) fact+
  define full where "full = (of_int (clamp (sint (next_expected s) + (int q - int ?n)) 0
      (sint SEQ_MAX)) :: u64)"
  have "full = of_int (int q)"
    using assms(4) by (simp add: full_def sint_small [OF n] sint_SEQ_MAX)
  then have full: "unat full = q"
    using of_int_clamp_u64 [of "int q"] assms(4) by simp
  have full1: "unat (full + 1) = Suc q"
    using full assms(4) by (simp add: unat_word_ariths)
  have e: "seq_expand s (wire_of q) =
      (full, if full \<ge> next_expected s then s\<lparr>next_expected := full + 1\<rparr> else s)"
    unfolding seq_expand_def Let_def d full_def by simp
  show ?thesis unfolding e using full full1 by (auto simp: word_le_nat_alt max_def)
qed

text \<open>The result of any expansion fits the nonce, and the state never moves back.\<close>

lemma seq_expand_bounds:
  assumes "seq_wf s"
  shows "unat (fst (seq_expand s w)) < 2 ^ 47 \<and> seq_wf (snd (seq_expand s w)) \<and>
    next_expected s \<le> next_expected (snd (seq_expand s w))"
proof -
  define full where "full = fst (seq_expand s w)"
  define i where "i = clamp (sint (next_expected s) +
      sint (w - ucast (next_expected s AND WIRE_MASK))) 0 (sint SEQ_MAX)"
  have "0 \<le> i \<and> i \<le> sint SEQ_MAX"
    unfolding i_def by (rule clamp_bounds) (simp add: sint_SEQ_MAX)
  then have i: "0 \<le> i" "i < 2 ^ 47" by (simp_all add: sint_SEQ_MAX)
  have "full = of_int i" by (simp add: full_def seq_expand_def Let_def i_def)
  then have full: "unat full = nat i" using of_int_clamp_u64 [of i] i by simp
  then have f47: "unat full < 2 ^ 47" using i by simp
  then have full1: "unat (full + 1) = Suc (unat full)" by (simp add: unat_word_ariths)
  have e: "seq_expand s w =
      (full, if full \<ge> next_expected s then s\<lparr>next_expected := full + 1\<rparr> else s)"
    by (simp add: full_def seq_expand_def Let_def)
  show ?thesis unfolding e using f47 full1 assms by (auto simp: seq_wf_def word_le_nat_alt)
qed

section \<open>Streams\<close>

fun expand_all :: "seq_expander \<Rightarrow> u16 list \<Rightarrow> u64 list \<times> seq_expander" where
  "expand_all s [] = ([], s)"
| "expand_all s (w # ws) =
     (let (q, s') = seq_expand s w; (qs, s'') = expand_all s' ws in (q # qs, s''))"

interpretation seq_machine: invariant_machine seq_new "\<lambda>s w. snd (seq_expand s w)" seq_wf
proof unfold_locales
  show "seq_wf seq_new" by (simp add: seq_wf_def seq_new_def)
qed (simp add: seq_expand_bounds)

text \<open>
  A stream is in the window when each packet's number is within 32768 below and 32767 above
  the next expected one, that is one more than the highest number received before it.
\<close>

fun in_window :: "nat \<Rightarrow> nat list \<Rightarrow> bool" where
  "in_window next [] = True"
| "in_window next (q # qs) =
     (next \<le> q + 32768 \<and> q \<le> next + 32767 \<and> q < 2 ^ 47 \<and> in_window (max next (Suc q)) qs)"

lemma expand_all_from:
  "seq_wf s \<Longrightarrow> in_window (unat (next_expected s)) qs \<Longrightarrow>
     map unat (fst (expand_all s (map wire_of qs))) = qs"
proof (induction qs arbitrary: s)
  case Nil
  then show ?case by simp
next
  case (Cons q qs)
  obtain w s' where e: "seq_expand s (wire_of q) = (w, s')" by fastforce
  have "- 32768 \<le> int q - int (unat (next_expected s))"
    "int q - int (unat (next_expected s)) \<le> 32767" "q < 2 ^ 47"
    using Cons.prems(2) by (simp_all del: of_nat_unat)
  from seq_expand_eq [OF Cons.prems(1) this] e
  have w: "unat w = q" and n: "unat (next_expected s') = max (unat (next_expected s)) (Suc q)"
    by simp_all
  have "seq_wf s'" using seq_expand_bounds [OF Cons.prems(1), of "wire_of q"] e by simp
  moreover have "in_window (unat (next_expected s')) qs" using Cons.prems(2) n by simp
  ultimately have "map unat (fst (expand_all s' (map wire_of qs))) = qs" by (rule Cons.IH)
  with e w show ?case by (simp add: Let_def split_beta)
qed

text \<open>
  C4: for every stream of packets whose reordering and loss stay inside the window of 32768
  packets, expanding the truncated wire numbers, in the order of arrival, reconstructs exactly
  the full sequence numbers the sender used.
\<close>

theorem seq_expansion_reconstructs:
  assumes "in_window 0 qs"
  shows "map unat (fst (expand_all seq_new (map wire_of qs))) = qs"
  by (rule expand_all_from) (use assms in \<open>simp_all add: seq_wf_def seq_new_def\<close>)

theorem seq_expansion_reconstructs_witness:
  "map unat (fst (expand_all seq_new (map wire_of [0, 3, 1, 32000, 64000, 65536, 65535]))) =
     [0, 3, 1, 32000, 64000, 65536, 65535]"
  by (rule seq_expansion_reconstructs) simp

text \<open>
  Whatever arrives on the wire, an expanded number always fits the 47 bits of the nonce and
  the expected number never exceeds \<open>2 ^ 47\<close> nor moves back.
\<close>

lemma seq_expand_fits_nonce:
  fixes ws w
  defines "s \<equiv> foldl (\<lambda>s w. snd (seq_expand s w)) seq_new ws"
  shows "unat (fst (seq_expand s w)) < 2 ^ 47 \<and> unat (next_expected s) \<le> 2 ^ 47 \<and>
    next_expected s \<le> next_expected (snd (seq_expand s w))"
proof -
  have "seq_wf s" unfolding s_def by (rule seq_machine.inv_run)
  with seq_expand_bounds [OF this] show ?thesis by (simp add: seq_wf_def)
qed

text \<open>
  At the start of a session a wire number in the upper half of the 16-bit range is expanded
  to 0, whose low bits differ from the wire number, and it advances the expander as if packet 0
  had arrived: the clamp, not the nearest congruent number, decides.
\<close>

lemma seq_expand_fresh_upper_half:
  assumes "32768 \<le> unat w"
  shows "seq_expand seq_new w = (0, \<lparr>next_expected = 1\<rparr>) \<and> wire_of (unat (0::u64)) \<noteq> w"
proof -
  have u: "unat w < 65536" using unat_less_exp [of w] by simp
  have "(int (unat w) + 32768) mod 65536 = int (unat w) + 32768 - 65536"
    by (rule int_mod_pos_eq [where q = 1]) (use assms u in \<open>simp_all del: of_nat_unat\<close>)
  then have "(int (unat w) + 32768) mod 65536 < 32768" using u by linarith
  then have "sint w < 0"
    by (simp add: sint_uint signed_take_bit_eq_take_bit_shift take_bit_eq_mod)
  moreover have "w \<noteq> 0" using assms by auto
  ultimately show ?thesis
    by (simp add: seq_expand_def seq_new_def Let_def clamp_def wire_of_def)
qed

end
