(* ===== verification/F64.thy ===== *)
theory F64
  imports Prelude "HOL-Library.Log_Nat" Complex_Main
begin

text \<open>
  Rust's \<open>f64\<close> as the sources use it. A finite double is the rational number it denotes, and
  every arithmetic operation is the exact one followed by \<open>f64_round\<close>: rounding to nearest,
  ties to even, to a 53-bit significand with the gradual underflow of IEEE 754 binary64.
  Infinities and NaN are not modelled: no operation of the components below divides by zero,
  and their values stay many orders of magnitude below the overflow threshold.
\<close>

section \<open>Rounding to nearest, ties to even\<close>

type_synonym f64 = rat

definition round_half_even :: "rat \<Rightarrow> int" where
  "round_half_even x =
     (let f = \<lfloor>x\<rfloor>; d = x - of_int f in
      if d < 1 / 2 then f else if 1 / 2 < d then f + 1 else if even f then f else f + 1)"

lemma round_half_even_bounds: "\<lfloor>x\<rfloor> \<le> round_half_even x \<and> round_half_even x \<le> \<lfloor>x\<rfloor> + 1"
  by (auto simp: round_half_even_def Let_def)

lemma round_half_even_of_int [simp]: "round_half_even (of_int n) = n"
  by (simp add: round_half_even_def Let_def)

lemma round_half_even_mono: "x \<le> y \<Longrightarrow> round_half_even x \<le> round_half_even y"
proof (cases "\<lfloor>x\<rfloor> = \<lfloor>y\<rfloor>")
  case True
  assume "x \<le> y"
  with True show ?thesis by (auto simp: round_half_even_def Let_def)
next
  case False
  assume "x \<le> y"
  then have "\<lfloor>x\<rfloor> \<le> \<lfloor>y\<rfloor>" by (rule floor_mono)
  with False have "\<lfloor>x\<rfloor> + 1 \<le> \<lfloor>y\<rfloor>" by simp
  with round_half_even_bounds [of x] round_half_even_bounds [of y] show ?thesis by linarith
qed

section \<open>The exponent of a positive number\<close>

definition ilog2 :: "rat \<Rightarrow> int" where
  "ilog2 x = (if 1 \<le> x then bitlen \<lfloor>x\<rfloor> - 1 else - bitlen (\<lceil>1 / x\<rceil> - 1))"

lemma bitlen_powi:
  assumes "0 < n"
  shows "(2::rat) powi (bitlen n - 1) \<le> of_int n \<and> of_int n + 1 \<le> (2::rat) powi (bitlen n)"
proof -
  from assms have b: "2 ^ nat (bitlen n - 1) \<le> n \<and> n < 2 ^ nat (bitlen n)"
    by (rule bitlen_bounds)
  have pos: "0 < bitlen n" using assms bitlen_le_iff_power [of n 0] by (simp add: not_le [symmetric])
  have "(2::rat) ^ nat (bitlen n - 1) = of_int (2 ^ nat (bitlen n - 1))" by simp
  also have "\<dots> \<le> of_int n" using b by (simp only: of_int_le_iff)
  finally have lo: "(2::rat) powi (bitlen n - 1) \<le> of_int n"
    using pos by (simp add: power_int_def)
  have "of_int (n + 1) \<le> (of_int (2 ^ nat (bitlen n)) :: rat)"
    using b by (simp only: of_int_le_iff) simp
  then have hi: "of_int n + 1 \<le> (2::rat) powi (bitlen n)"
    using pos by (simp add: power_int_def)
  from lo hi show ?thesis ..
qed

lemma powi_minus_le: "0 < x \<Longrightarrow> 1 / x \<le> (2::rat) powi b \<Longrightarrow> 2 powi (- b) \<le> x"
  by (simp add: power_int_minus field_simps)

lemma powi_minus_less: "0 < x \<Longrightarrow> (2::rat) powi b < 1 / x \<Longrightarrow> x < 2 powi (- b)"
  by (simp add: power_int_minus field_simps)

lemma ilog2_bounds:
  assumes "0 < x"
  shows "(2::rat) powi (ilog2 x) \<le> x \<and> x < 2 powi (ilog2 x + 1)"
proof (cases "1 \<le> x")
  case True
  then have n: "0 < \<lfloor>x\<rfloor>" by simp
  have "x < of_int \<lfloor>x\<rfloor> + 1" by linarith
  with bitlen_powi [OF n] of_int_floor_le [of x]
  have "2 powi (bitlen \<lfloor>x\<rfloor> - 1) \<le> x" "x < 2 powi (bitlen \<lfloor>x\<rfloor>)" by linarith+
  then show ?thesis using True by (simp add: ilog2_def)
next
  case False
  define n where "n = \<lceil>1 / x\<rceil> - 1"
  have "1 < 1 / x" using assms False by simp
  then have n: "0 < n" by (simp add: n_def)
  have "of_int n < 1 / x" "1 / x \<le> of_int n + 1"
    using ceiling_correct [of "1 / x"] by (simp_all add: n_def)
  with bitlen_powi [OF n] have b: "2 powi (bitlen n - 1) < 1 / x" "1 / x \<le> 2 powi (bitlen n)"
    by linarith+
  have "x < 2 powi (- (bitlen n - 1))" "2 powi (- bitlen n) \<le> x"
    by (rule powi_minus_less [OF assms b(1)]) (rule powi_minus_le [OF assms b(2)])
  moreover have "ilog2 x = - bitlen n" using False by (simp add: ilog2_def n_def)
  ultimately show ?thesis by (simp add: algebra_simps)
qed

lemma ilog2_mono:
  assumes "0 < x" "x \<le> y"
  shows "ilog2 x \<le> ilog2 y"
proof (rule ccontr)
  assume "\<not> ilog2 x \<le> ilog2 y"
  then have "(2::rat) powi (ilog2 y + 1) \<le> 2 powi (ilog2 x)"
    by (intro power_int_increasing) auto
  with ilog2_bounds [of x] ilog2_bounds [of y] assms show False by auto
qed

section \<open>Rounding to double precision\<close>

definition f64_exponent :: "rat \<Rightarrow> int" where
  "f64_exponent x = max (ilog2 x - 52) (- 1074)"

definition f64_round_pos :: "rat \<Rightarrow> rat" where
  "f64_round_pos x =
     (let q = 2 powi (f64_exponent x) in of_int (round_half_even (x / q)) * q)"

definition f64_round :: "rat \<Rightarrow> f64" where
  "f64_round x =
     (if x = 0 then 0 else if 0 < x then f64_round_pos x else - f64_round_pos (- x))"

lemma f64_round_0 [simp]: "f64_round 0 = 0"
  by (simp add: f64_round_def)

lemma f64_round_minus: "f64_round (- x) = - f64_round x"
  by (auto simp: f64_round_def)

lemma f64_round_pos_same_exponent:
  assumes "x \<le> y" "f64_exponent x = f64_exponent y"
  shows "f64_round_pos x \<le> f64_round_pos y"
proof -
  have "x / 2 powi (f64_exponent y) \<le> y / 2 powi (f64_exponent y)"
    using assms(1) by (simp add: divide_right_mono)
  from round_half_even_mono [OF this] show ?thesis
    using assms(2) by (simp add: f64_round_pos_def Let_def mult_right_mono)
qed

text \<open>A number that fits 53 bits at the scale of \<open>x\<close> bounds the rounded value as well.\<close>

lemma f64_round_pos_le:
  assumes "x \<le> of_int n * 2 powi (f64_exponent x)"
  shows "f64_round_pos x \<le> of_int n * 2 powi (f64_exponent x)"
proof -
  have "x / 2 powi (f64_exponent x) \<le> of_int n"
    using assms by (simp add: divide_le_eq)
  from round_half_even_mono [OF this] show ?thesis
    by (simp add: f64_round_pos_def Let_def mult_right_mono)
qed

lemma f64_round_pos_ge:
  assumes "of_int n * 2 powi (f64_exponent x) \<le> x"
  shows "of_int n * 2 powi (f64_exponent x) \<le> f64_round_pos x"
proof -
  have "of_int n \<le> x / 2 powi (f64_exponent x)"
    using assms by (simp add: le_divide_eq)
  from round_half_even_mono [OF this] show ?thesis
    by (simp add: f64_round_pos_def Let_def mult_right_mono)
qed

lemma powi_scale: "of_int (2 ^ n) * (2::rat) powi e = 2 powi (int n + e)"
  by (simp add: power_int_add)

lemma f64_round_pos_mono:
  assumes "0 < x" "x \<le> y"
  shows "f64_round_pos x \<le> f64_round_pos y"
proof (cases "f64_exponent x = f64_exponent y")
  case True
  with assms(2) show ?thesis by (rule f64_round_pos_same_exponent)
next
  case False
  from ilog2_mono [OF assms] False
  have lt: "f64_exponent x < f64_exponent y" by (auto simp: f64_exponent_def)
  then have ey: "f64_exponent y = ilog2 y - 52" by (auto simp: f64_exponent_def)
  have "x < 2 powi (ilog2 x + 1)" using ilog2_bounds [OF assms(1)] by simp
  also have "\<dots> \<le> 2 powi (53 + f64_exponent x)"
    by (intro power_int_increasing) (auto simp: f64_exponent_def)
  finally have x: "x \<le> of_int (2 ^ 53) * 2 powi (f64_exponent x)"
    unfolding powi_scale by simp
  have "f64_round_pos x \<le> 2 powi (53 + f64_exponent x)"
    using f64_round_pos_le [OF x] unfolding powi_scale by simp
  also have "\<dots> \<le> 2 powi (52 + f64_exponent y)"
    using lt by (intro power_int_increasing) auto
  also have "\<dots> \<le> f64_round_pos y"
  proof -
    have "2 powi (ilog2 y) \<le> y" using ilog2_bounds [of y] assms by simp
    then have "of_int (2 ^ 52) * 2 powi (f64_exponent y) \<le> y"
      unfolding powi_scale ey by simp
    from f64_round_pos_ge [OF this] show ?thesis unfolding powi_scale by simp
  qed
  finally show ?thesis .
qed

lemma f64_round_pos_nonneg: "0 < x \<Longrightarrow> 0 \<le> f64_round_pos x"
  using f64_round_pos_ge [of 0 x] by simp

theorem f64_round_mono: "x \<le> y \<Longrightarrow> f64_round x \<le> f64_round y"
  using f64_round_pos_mono [of x y] f64_round_pos_mono [of "- y" "- x"]
    f64_round_pos_nonneg [of y] f64_round_pos_nonneg [of "- x"]
  by (auto simp: f64_round_def)

lemma f64_round_nonneg: "0 \<le> x \<Longrightarrow> 0 \<le> f64_round x"
  using f64_round_mono [of 0 x] by simp

text \<open>Multiples of a power of two with at most 53 significant bits are exact.\<close>

lemma f64_round_pos_multiple:
  assumes "f64_exponent y \<le> e"
  shows "y = of_int n * 2 powi e \<Longrightarrow> f64_round_pos y = y"
proof -
  assume y: "y = of_int n * 2 powi e"
  define d where "d = nat (e - f64_exponent y)"
  have e: "e = int d + f64_exponent y" using assms by (simp add: d_def)
  have "(2::rat) powi e = 2 ^ d * 2 powi (f64_exponent y)"
    by (subst e) (simp add: power_int_add)
  with y have y': "y = of_int (n * 2 ^ d) * 2 powi (f64_exponent y)" by simp
  then have "y / 2 powi (f64_exponent y) = of_int (n * 2 ^ d)" by (simp add: divide_eq_eq)
  then have "f64_round_pos y = of_int (n * 2 ^ d) * 2 powi (f64_exponent y)"
    by (simp add: f64_round_pos_def Let_def del: of_int_mult)
  with y' show ?thesis by simp
qed

lemma f64_round_pos_dyadic:
  assumes "0 < n" "n \<le> 2 ^ 53" "- 1074 \<le> e" and y: "y = of_int n * 2 powi e"
  shows "f64_round_pos y = y"
proof -
  have pos: "0 < y" using assms(1) y by simp
  have "of_int n \<le> (of_int (2 ^ 53) :: rat)" using assms(2) by (simp only: of_int_le_iff)
  then have "y \<le> of_int (2 ^ 53) * 2 powi e" unfolding y by (intro mult_right_mono) auto
  then have le: "y \<le> 2 powi (53 + e)" unfolding powi_scale by simp
  have "2 powi (ilog2 y) \<le> y" using ilog2_bounds [OF pos] by simp
  with le have "(2::rat) powi (ilog2 y) \<le> 2 powi (53 + e)" by linarith
  then have il: "ilog2 y \<le> 53 + e"
    using power_int_strict_increasing [of "53 + e" "ilog2 y" "2::rat"] by (auto simp: not_less [symmetric])
  show ?thesis
  proof (cases "f64_exponent y \<le> e")
    case True
    then show ?thesis using y by (rule f64_round_pos_multiple)
  next
    case False
    with il assms(3) have ey: "f64_exponent y = e + 1" "ilog2 y = 53 + e"
      by (auto simp: f64_exponent_def)
    with \<open>2 powi (ilog2 y) \<le> y\<close> le have "y = 2 powi (53 + e)" by simp
    also have "\<dots> = of_int (2 ^ 52) * 2 powi (e + 1)" unfolding powi_scale by simp
    finally show ?thesis using ey by (intro f64_round_pos_multiple [of _ "e + 1"]) simp_all
  qed
qed

lemma f64_round_pos_of_int: "0 < n \<Longrightarrow> n \<le> 2 ^ 53 \<Longrightarrow> f64_round_pos (of_int n) = of_int n"
  by (rule f64_round_pos_dyadic [where e = 0 and n = n]) auto

lemma f64_round_of_int: "\<bar>n\<bar> \<le> 2 ^ 53 \<Longrightarrow> f64_round (of_int n) = of_int n"
  using f64_round_pos_of_int [of n] f64_round_pos_of_int [of "- n"]
  by (cases n "0::int" rule: linorder_cases) (simp_all add: f64_round_def)

lemma f64_round_of_nat: "n \<le> 2 ^ 53 \<Longrightarrow> f64_round (of_nat n) = of_nat n"
  using f64_round_of_int [of "int n"] by (simp del: of_nat_numeral power_numeral)

lemma f64_round_eighths:
  assumes "n \<le> 2 ^ 53"
  shows "f64_round (of_nat n / 8) = of_nat n / 8"
proof (cases "n = 0")
  case False
  have "int n \<le> int (2 ^ 53)" using assms by (simp only: of_nat_le_iff)
  then have n: "int n \<le> 2 ^ 53" by simp
  have q: "(of_nat n / 8 :: rat) = of_int (int n) * 2 powi (- 3)" by (simp add: power_int_def power3_eq_cube)
  have "f64_round_pos (of_nat n / 8) = of_nat n / 8"
    by (rule f64_round_pos_dyadic [OF _ n _ q]) (use False in simp_all)
  with False show ?thesis by (simp add: f64_round_def)
qed simp

text \<open>Fractions with a power of two below are exact, and bound what is rounded between them.\<close>

lemma f64_round_dyadic:
  assumes "n \<le> 2 ^ 53" "k \<le> 1074"
  shows "f64_round (of_nat n / 2 ^ k) = of_nat n / 2 ^ k"
proof (cases "n = 0")
  case False
  have "int n \<le> int (2 ^ 53)" using assms(1) by (simp only: of_nat_le_iff)
  then have n: "int n \<le> 2 ^ 53" by simp
  have q: "(of_nat n / 2 ^ k :: rat) = of_int (int n) * 2 powi (- int k)"
    by (simp add: power_int_minus field_simps)
  have "f64_round_pos (of_nat n / 2 ^ k) = of_nat n / 2 ^ k"
    by (rule f64_round_pos_dyadic [OF _ n _ q]) (use False assms(2) in simp_all)
  with False show ?thesis by (simp add: f64_round_def)
qed simp

lemma f64_round_between:
  assumes "of_nat m / 2 ^ j \<le> x" "x \<le> of_nat n / 2 ^ k" "m \<le> 2 ^ 53" "j \<le> 1074" "n \<le> 2 ^ 53" "k \<le> 1074"
  shows "of_nat m / 2 ^ j \<le> f64_round x" "f64_round x \<le> of_nat n / 2 ^ k"
  using f64_round_mono [OF assms(1)] f64_round_mono [OF assms(2)] assms(3-6) by (simp_all add: f64_round_dyadic)

text \<open>The double nearest to a value, from an integer next to its 53-bit significand.\<close>

lemma round_half_even_nearest:
  assumes "\<bar>x - of_int n\<bar> < 1 / 2"
  shows "round_half_even x = n"
proof (cases "of_int n \<le> x")
  case True
  then have "\<lfloor>x\<rfloor> = n" using assms by (simp add: floor_eq_iff)
  then show ?thesis using assms True by (simp add: round_half_even_def)
next
  case False
  then have "\<lfloor>x\<rfloor> = n - 1" using assms by (simp add: floor_eq_iff)
  then show ?thesis using assms False by (simp add: round_half_even_def)
qed

lemma ilog2_unique:
  assumes "(2::rat) powi e \<le> x" "x < 2 powi (e + 1)"
  shows "ilog2 x = e"
proof -
  have pos: "0 < x" using assms(1) by (rule less_le_trans [rotated]) simp
  have le: "i \<le> j" if "(2::rat) powi i \<le> x" "x < 2 powi (j + 1)" for i j
  proof (rule ccontr)
    assume "\<not> i \<le> j"
    then have "(2::rat) powi (j + 1) \<le> 2 powi i" by (intro power_int_increasing) auto
    with that show False by simp
  qed
  show ?thesis using le [of e "ilog2 x"] le [of "ilog2 x" e] ilog2_bounds [OF pos] assms by simp
qed

lemma f64_round_eqI:
  assumes "2 ^ 52 \<le> x * 2 ^ k" "x * 2 ^ k < 2 ^ 53" "\<bar>x * 2 ^ k - of_int n\<bar> < 1 / 2" "k \<le> 1074"
  shows "f64_round x = of_int n / 2 ^ k"
proof -
  have scale: "(2::rat) powi (int m - int k) = 2 ^ m / 2 ^ k" for m by (simp add: power_int_diff)
  have "(2::rat) powi (52 - int k) = 2 ^ 52 / 2 ^ k" "(2::rat) powi (52 - int k + 1) = 2 ^ 53 / 2 ^ k"
    using scale [of 52] scale [of 53] by (simp_all add: algebra_simps)
  then have "(2::rat) powi (52 - int k) \<le> x" "x < 2 powi (52 - int k + 1)"
    using assms(1,2) by (simp_all add: pos_divide_le_eq pos_less_divide_eq)
  then have "ilog2 x = 52 - int k" by (rule ilog2_unique)
  then have e: "f64_exponent x = - int k" using assms(4) by (simp add: f64_exponent_def)
  have pos: "0 < x" using assms(1) by (metis less_le_trans zero_less_mult_pos2 zero_less_numeral zero_less_power)
  have q: "(2::rat) powi (- int k) = 1 / 2 ^ k" by (simp add: power_int_minus divide_inverse)
  show ?thesis
    using pos round_half_even_nearest [OF assms(3)] by (simp add: f64_round_def f64_round_pos_def e q)
qed

text \<open>Rounding twice is rounding once: the result of an operation is a double.\<close>

lemma f64_round_pos_idem:
  assumes "0 < x"
  shows "f64_round (f64_round_pos x) = f64_round_pos x"
proof -
  let ?e = "f64_exponent x"
  define n where "n = round_half_even (x / 2 powi ?e)"
  have y: "f64_round_pos x = of_int n * 2 powi ?e"
    by (simp add: f64_round_pos_def Let_def n_def)
  have "x < 2 powi (ilog2 x + 1)" using ilog2_bounds [OF assms] by simp
  also have "\<dots> \<le> 2 powi (53 + ?e)"
    by (intro power_int_increasing) (auto simp: f64_exponent_def)
  finally have "x \<le> of_int (2 ^ 53) * 2 powi ?e" unfolding powi_scale by simp
  then have "x / 2 powi ?e \<le> of_int (2 ^ 53)" by (simp add: divide_le_eq del: of_int_power)
  from round_half_even_mono [OF this] have n53: "n \<le> 2 ^ 53"
    unfolding n_def round_half_even_of_int .
  have "of_int 0 \<le> x / 2 powi ?e" using assms by simp
  from round_half_even_mono [OF this] have "0 \<le> n"
    unfolding n_def round_half_even_of_int .
  then consider "n = 0" | "0 < n" by linarith
  then show ?thesis
  proof cases
    case 1
    then show ?thesis by (simp add: y)
  next
    case 2
    have "f64_round_pos (f64_round_pos x) = f64_round_pos x"
      by (rule f64_round_pos_dyadic [OF 2 n53 _ y]) (simp add: f64_exponent_def)
    moreover have "0 < f64_round_pos x" using 2 by (simp add: y)
    ultimately show ?thesis by (simp add: f64_round_def)
  qed
qed

lemma f64_round_idem [simp]: "f64_round (f64_round x) = f64_round x"
proof (cases x "0::rat" rule: linorder_cases)
  case less
  then show ?thesis
    using f64_round_pos_idem [of "- x"] by (simp add: f64_round_def [of x] f64_round_minus)
next
  case greater
  then show ?thesis using f64_round_pos_idem [of x] by (simp add: f64_round_def [of x])
qed simp

section \<open>Arithmetic\<close>

definition f64_add :: "f64 \<Rightarrow> f64 \<Rightarrow> f64" where
  "f64_add x y = f64_round (x + y)"

definition f64_sub :: "f64 \<Rightarrow> f64 \<Rightarrow> f64" where
  "f64_sub x y = f64_round (x - y)"

definition f64_mul :: "f64 \<Rightarrow> f64 \<Rightarrow> f64" where
  "f64_mul x y = f64_round (x * y)"

definition f64_div :: "f64 \<Rightarrow> f64 \<Rightarrow> f64" where
  "f64_div x y = f64_round (x / y)"

text \<open>\<open>n as f64\<close> for an unsigned integer.\<close>

definition f64_of_nat :: "nat \<Rightarrow> f64" where
  "f64_of_nat n = f64_round (of_nat n)"

lemma f64_of_nat_nonneg [simp]: "0 \<le> f64_of_nat n"
  by (simp add: f64_of_nat_def f64_round_nonneg)

lemma f64_of_nat_mono: "m \<le> n \<Longrightarrow> f64_of_nat m \<le> f64_of_nat n"
  by (simp add: f64_of_nat_def f64_round_mono)

text \<open>\<open>f64::round\<close> (half away from zero) and the saturating cast \<open>as u32\<close>.\<close>

definition f64_round_int :: "f64 \<Rightarrow> int" where
  "f64_round_int x = (if 0 \<le> x then \<lfloor>x + 1 / 2\<rfloor> else - \<lfloor>- x + 1 / 2\<rfloor>)"

definition int_as_u32 :: "int \<Rightarrow> nat" where
  "int_as_u32 i = nat (clamp i 0 (2 ^ 32 - 1))"

lemma f64_round_int_mono: "0 \<le> x \<Longrightarrow> x \<le> y \<Longrightarrow> f64_round_int x \<le> f64_round_int y"
  by (simp add: f64_round_int_def floor_mono)

lemma f64_round_int_of_nat [simp]: "f64_round_int (of_nat n) = int n"
  by (simp add: f64_round_int_def floor_eq_iff)

lemma int_as_u32_mono: "i \<le> j \<Longrightarrow> int_as_u32 i \<le> int_as_u32 j"
  by (auto simp: int_as_u32_def clamp_def)

lemma int_as_u32_of_nat: "n < 2 ^ 32 \<Longrightarrow> int_as_u32 (int n) = n"
  by (simp add: int_as_u32_def clamp_def)

text \<open>A value is a double when rounding leaves it alone; results of operations are doubles.\<close>

definition f64_repr :: "rat \<Rightarrow> bool" where
  "f64_repr x \<longleftrightarrow> f64_round x = x"

lemma f64_repr_ops [simp, intro]:
  "f64_repr 0" "f64_repr (f64_round x)" "f64_repr (f64_add x y)" "f64_repr (f64_sub x y)"
  "f64_repr (f64_mul x y)" "f64_repr (f64_div x y)" "f64_repr (f64_of_nat n)"
  by (simp_all add: f64_repr_def f64_add_def f64_sub_def f64_mul_def f64_div_def f64_of_nat_def)

lemma f64_repr_min [intro]: "f64_repr x \<Longrightarrow> f64_repr y \<Longrightarrow> f64_repr (min x y)"
  by (simp add: min_def)

lemma f64_sub_le: "f64_repr x \<Longrightarrow> 0 \<le> y \<Longrightarrow> f64_sub x y \<le> x"
  using f64_round_mono [of "x - y" x] by (simp add: f64_sub_def f64_repr_def)

lemma f64_sub_nonneg: "y \<le> x \<Longrightarrow> 0 \<le> f64_sub x y"
  by (simp add: f64_sub_def f64_round_nonneg)

text \<open>Dyadic bounds of results.\<close>

lemma f64_op_ge:
  assumes "n \<le> 2 ^ 53" "k \<le> 1074"
  shows "of_nat n / 2 ^ k \<le> x * y \<Longrightarrow> of_nat n / 2 ^ k \<le> f64_mul x y"
    "of_nat n / 2 ^ k \<le> x + y \<Longrightarrow> of_nat n / 2 ^ k \<le> f64_add x y"
  using f64_round_mono f64_round_dyadic [OF assms] by (fastforce simp: f64_mul_def f64_add_def)+

lemma f64_op_le:
  assumes "n \<le> 2 ^ 53" "k \<le> 1074"
  shows "x * y \<le> of_nat n / 2 ^ k \<Longrightarrow> f64_mul x y \<le> of_nat n / 2 ^ k"
    "x + y \<le> of_nat n / 2 ^ k \<Longrightarrow> f64_add x y \<le> of_nat n / 2 ^ k"
  using f64_round_mono f64_round_dyadic [OF assms] by (fastforce simp: f64_mul_def f64_add_def)+

lemma f64_op_nonneg:
  "0 \<le> x \<Longrightarrow> 0 \<le> y \<Longrightarrow> 0 \<le> f64_mul x y" "0 \<le> x \<Longrightarrow> 0 \<le> y \<Longrightarrow> 0 \<le> f64_add x y"
  by (simp_all add: f64_mul_def f64_add_def f64_round_nonneg)

lemma f64_mul_le: "0 \<le> x \<Longrightarrow> f64_repr x \<Longrightarrow> y \<le> 1 \<Longrightarrow> f64_mul x y \<le> x"
  using f64_round_mono [of "x * y" x] by (simp add: f64_mul_def f64_repr_def mult_left_le)

end
