(* ===== verification/Tcp_Fallback.thy ===== *)
theory Tcp_Fallback
  imports F64
begin

text \<open>
  The TCP fallback (\<open>core/lbtp/src/tcp_fallback.rs\<close>): datagrams with a two-byte length prefix on
  a byte stream, the reassembler that finds them again however the stream is cut into chunks,
  and the tracker of the latency penalty shown to the user.
\<close>

section \<open>Framing\<close>

definition TCP_LENGTH_PREFIX_BYTES :: nat where
  "TCP_LENGTH_PREFIX_BYTES = 2"

definition TCP_MAX_DATAGRAM_BYTES :: nat where
  "TCP_MAX_DATAGRAM_BYTES = 1200"

definition tcp_encode :: "bytes \<Rightarrow> bytes option" where
  "tcp_encode datagram =
     (if length datagram > TCP_MAX_DATAGRAM_BYTES then None
      else Some (to_be_bytes16 (of_nat (length datagram)) @ datagram))"

section \<open>Reassembly\<close>

datatype reassembler_state =
    RHeader bytes nat \<comment> \<open>the two-byte buffer and how much of it is filled\<close>
  | RBody nat bytes \<comment> \<open>expected length and the bytes so far\<close>

record tcp_reassembler =
  tr_state :: reassembler_state
  oversized_rejected :: u32

definition header_start :: reassembler_state where
  "header_start = RHeader [0, 0] 0"

definition tcp_reassembler_new :: tcp_reassembler where
  "tcp_reassembler_new = \<lparr>tr_state = header_start, oversized_rejected = 0\<rparr>"

text \<open>The state after a complete length prefix.\<close>

definition header_complete :: "tcp_reassembler \<Rightarrow> bytes \<Rightarrow> tcp_reassembler" where
  "header_complete s buf =
     (let len = unat (from_be_bytes16 (buf ! 0) (buf ! 1)) in
      if len > TCP_MAX_DATAGRAM_BYTES
      then s\<lparr>oversized_rejected := oversized_rejected s + 1, tr_state := header_start\<rparr>
      else s\<lparr>tr_state := RBody len []\<rparr>)"

text \<open>
  The loop of \<open>push\<close>, over the bytes not consumed yet (\<open>bytes[pos..]\<close>). \<open>None\<close> is a panic: the
  subtractions \<open>2 - filled\<close> and \<open>expected - buf.len()\<close> underflow, or the slice of the buffer is
  out of range. A header that completes, or an empty body, may consume no byte, so what
  decreases is the number of bytes left and then the distance to a state that must consume.
\<close>

fun state_slack :: "reassembler_state \<Rightarrow> nat" where
  "state_slack (RHeader buf filled) = (if filled < 2 then 0 else 2)"
| "state_slack (RBody expected buf) = (if length buf < expected then 0 else 1)"

function tcp_push_loop ::
  "tcp_reassembler \<Rightarrow> bytes \<Rightarrow> bytes list \<Rightarrow> (bytes list \<times> tcp_reassembler) option" where
  "tcp_push_loop s rest completed =
     (if rest = [] then Some (completed, s)
      else case tr_state s of
        RHeader buf filled \<Rightarrow>
          if filled > TCP_LENGTH_PREFIX_BYTES \<or> length buf \<noteq> 2 then None
          else let copy = min (TCP_LENGTH_PREFIX_BYTES - filled) (length rest);
                   buf' = take filled buf @ take copy rest @ drop (filled + copy) buf;
                   filled' = filled + copy;
                   rest' = drop copy rest
               in if filled' = TCP_LENGTH_PREFIX_BYTES
                  then tcp_push_loop (header_complete s buf') rest' completed
                  else tcp_push_loop (s\<lparr>tr_state := RHeader buf' filled'\<rparr>) rest' completed
      | RBody expected buf \<Rightarrow>
          if length buf > expected then None
          else let copy = min (expected - length buf) (length rest);
                   buf' = buf @ take copy rest;
                   rest' = drop copy rest
               in if length buf' = expected
                  then tcp_push_loop (s\<lparr>tr_state := header_start\<rparr>) rest'
                         (if expected > 0 then completed @ [buf'] else completed)
                  else tcp_push_loop (s\<lparr>tr_state := RBody expected buf'\<rparr>) rest' completed)"
  by pat_completeness auto
termination
  by (relation "measures [\<lambda>(s, rest, _). length rest, \<lambda>(s, rest, _). state_slack (tr_state s)]")
    (auto simp: TCP_LENGTH_PREFIX_BYTES_def header_complete_def header_start_def Let_def min_def
      split: if_splits)

declare tcp_push_loop.simps [simp del]

definition tcp_push :: "tcp_reassembler \<Rightarrow> bytes \<Rightarrow> (bytes list \<times> tcp_reassembler) option" where
  "tcp_push s bs = tcp_push_loop s bs []"

section \<open>A reference: the reassembler one byte at a time\<close>

text \<open>
  \<open>feed\<close> is the specification of the reassembler: what one more byte of the stream does. An
  empty body is complete before its first byte.
\<close>

definition settled :: "reassembler_state \<Rightarrow> reassembler_state" where
  "settled st = (case st of RBody 0 [] \<Rightarrow> header_start | _ \<Rightarrow> st)"

definition feed :: "bytes list \<times> tcp_reassembler \<Rightarrow> u8 \<Rightarrow> bytes list \<times> tcp_reassembler" where
  "feed acc b =
     (case acc of (completed, s) \<Rightarrow>
       (case settled (tr_state s) of
          RHeader buf filled \<Rightarrow>
            let buf' = buf[filled := b] in
            if Suc filled = 2 then (completed, header_complete s buf')
            else (completed, s\<lparr>tr_state := RHeader buf' (Suc filled)\<rparr>)
        | RBody expected buf \<Rightarrow>
            let buf' = buf @ [b] in
            if length buf' = expected
            then (completed @ [buf'], s\<lparr>tr_state := header_start\<rparr>)
            else (completed, s\<lparr>tr_state := RBody expected buf'\<rparr>)))"

definition reassembler_wf :: "tcp_reassembler \<Rightarrow> bool" where
  "reassembler_wf s = (case tr_state s of
     RHeader buf filled \<Rightarrow> length buf = 2 \<and> filled < 2
   | RBody expected buf \<Rightarrow> expected \<le> TCP_MAX_DATAGRAM_BYTES \<and>
       (length buf < expected \<or> expected = 0 \<and> buf = []))"

lemma reassembler_wf_start [simp]:
  "reassembler_wf (s\<lparr>tr_state := header_start\<rparr>)" "reassembler_wf tcp_reassembler_new"
  by (simp_all add: reassembler_wf_def header_start_def tcp_reassembler_new_def)

lemma reassembler_wf_complete [simp]: "reassembler_wf (header_complete s buf)"
  by (auto simp: reassembler_wf_def header_complete_def header_start_def Let_def)

lemma header_complete_state [simp]: "header_complete (s\<lparr>tr_state := st\<rparr>) buf = header_complete s buf"
  by (simp add: header_complete_def Let_def)

lemma feed_header:
  "tr_state s = RHeader buf filled \<Longrightarrow> feed (acc, s) b =
     (acc, if Suc filled = 2 then header_complete s (buf[filled := b])
           else s\<lparr>tr_state := RHeader (buf[filled := b]) (Suc filled)\<rparr>)"
  by (simp add: feed_def settled_def Let_def)

text \<open>Feeding part of a body.\<close>

lemma feed_body_partial:
  "tr_state s = RBody e buf \<Longrightarrow> length buf + length xs < e \<Longrightarrow>
     foldl feed (acc, s) xs = (acc, s\<lparr>tr_state := RBody e (buf @ xs)\<rparr>)"
proof (induction xs arbitrary: s buf)
  case Nil
  then show ?case by (cases s) simp
next
  case (Cons x xs)
  from Cons.prems have "feed (acc, s) x = (acc, s\<lparr>tr_state := RBody e (buf @ [x])\<rparr>)"
    by (auto simp: feed_def settled_def split: nat.splits)
  with Cons.prems Cons.IH [of "s\<lparr>tr_state := RBody e (buf @ [x])\<rparr>" "buf @ [x]"]
  show ?case by simp
qed

lemma feed_body_complete:
  assumes "tr_state s = RBody e buf" "length buf < e" "length buf + length xs = e"
  shows "foldl feed (acc, s) xs = (acc @ [buf @ xs], s\<lparr>tr_state := header_start\<rparr>)"
proof -
  from assms have "xs \<noteq> []" by auto
  then obtain ys y where xs: "xs = ys @ [y]" by (metis rev_exhaust)
  with assms have "foldl feed (acc, s) ys = (acc, s\<lparr>tr_state := RBody e (buf @ ys)\<rparr>)"
    by (intro feed_body_partial) auto
  with assms xs show ?thesis
    by (auto simp: feed_def settled_def split: nat.splits)
qed

text \<open>Feeding a header, which is one or two bytes.\<close>

lemma header_cases:
  assumes "reassembler_wf s" "tr_state s = RHeader buf filled"
  obtains (empty) a b where "buf = [a, b]" "filled = 0"
    | (half) a b where "buf = [a, b]" "filled = 1"
proof -
  from assms have "length buf = 2" "filled < 2" by (auto simp: reassembler_wf_def)
  then obtain a b where "buf = [a, b]" by (auto simp: numeral_2_eq_2 length_Suc_conv)
  with \<open>filled < 2\<close> that show thesis by (cases filled) auto
qed

lemma push_loop_feed:
  "reassembler_wf s \<Longrightarrow> \<exists>acc' s'. tcp_push_loop s rest acc = Some (acc', s') \<and>
     foldl feed (acc, s) rest = (acc', s') \<and> reassembler_wf s'"
proof (induction s rest acc rule: tcp_push_loop.induct)
  case (1 s rest acc)
  note unfold = tcp_push_loop.simps [of s rest acc]
  show ?case
  proof (cases "rest = []")
    case True
    with "1.prems" show ?thesis by (simp add: tcp_push_loop.simps)
  next
    case nonempty: False
    then obtain x xs where rest: "rest = x # xs" by (cases rest) auto
    note unfold' = tcp_push_loop.simps [of s "x # xs" acc]
    show ?thesis
    proof (cases "tr_state s")
      case (RHeader buf filled)
      from "1.prems" this show ?thesis
      proof (cases rule: header_cases)
        case (empty a b)
        note IH = "1.IH"(1,2) [OF nonempty RHeader, OF _ refl refl refl refl]
        show ?thesis
        proof (cases xs)
          case Nil
          with IH(2) empty rest show ?thesis
            by (auto simp: tcp_push_loop.simps [of s "[x]" acc] RHeader TCP_LENGTH_PREFIX_BYTES_def Let_def feed_header
                reassembler_wf_def)
        next
          case (Cons y ys)
          with IH(1) empty rest show ?thesis
            by (auto simp: tcp_push_loop.simps [of s "x # y # ys" acc] RHeader TCP_LENGTH_PREFIX_BYTES_def Let_def feed_header)
        qed
      next
        case (half a b)
        note IH = "1.IH"(1) [OF nonempty RHeader, OF _ refl refl refl refl]
        with half rest show ?thesis
          by (auto simp: unfold' RHeader TCP_LENGTH_PREFIX_BYTES_def Let_def feed_header)
      qed
    next
      case (RBody e buf)
      let ?copy = "min (e - length buf) (length rest)"
      from "1.prems" RBody have le: "length buf \<le> e" by (auto simp: reassembler_wf_def)
      have split: "foldl feed (acc, s) rest =
          foldl feed (foldl feed (acc, s) (take ?copy rest)) (drop ?copy rest)"
        by (metis append_take_drop_id foldl_append)
      note IH = "1.IH"(3,4) [OF nonempty RBody, OF _ refl refl refl]
      show ?thesis
      proof (cases "e = 0")
        case True
        with "1.prems" RBody have buf: "buf = []" by (auto simp: reassembler_wf_def)
        have s: "foldl feed (acc, s) rest = foldl feed (acc, s\<lparr>tr_state := header_start\<rparr>) rest"
          using RBody True buf rest by (simp add: feed_def settled_def header_start_def)
        from IH(1) True buf show ?thesis by (simp add: unfold RBody nonempty Let_def s)
      next
        case False
        with "1.prems" RBody have lt: "length buf < e" "e \<le> TCP_MAX_DATAGRAM_BYTES"
          by (auto simp: reassembler_wf_def)
        show ?thesis
        proof (cases "length (buf @ take ?copy rest) = e")
          case True
          have f: "foldl feed (acc, s) (take ?copy rest) =
              (acc @ [buf @ take ?copy rest], s\<lparr>tr_state := header_start\<rparr>)"
            using RBody lt True by (intro feed_body_complete) auto
          from IH(1) lt le True show ?thesis
            unfolding split f by (simp add: unfold RBody nonempty Let_def)
        next
          case part: False
          have f: "foldl feed (acc, s) (take ?copy rest) =
              (acc, s\<lparr>tr_state := RBody e (buf @ take ?copy rest)\<rparr>)"
            using RBody lt part by (intro feed_body_partial) auto
          have wf: "reassembler_wf (s\<lparr>tr_state := RBody e (buf @ take ?copy rest)\<rparr>)"
            using lt part by (auto simp: reassembler_wf_def)
          from part have "length buf + length rest \<noteq> e" by auto
          with IH(2) wf lt le part show ?thesis
            unfolding split f by (simp add: unfold RBody nonempty Let_def)
        qed
      qed
    qed
  qed
qed

lemma tcp_push_feed:
  "reassembler_wf s \<Longrightarrow> tcp_push s bs = Some (foldl feed ([], s) bs) \<and>
     reassembler_wf (snd (foldl feed ([], s) bs))"
  using push_loop_feed [of s bs "[]"] by (auto simp: tcp_push_def)

lemma feed_accumulates: "feed (acc, s) b = (acc @ fst (feed ([], s) b), snd (feed ([], s) b))"
  by (auto simp: feed_def Let_def split: reassembler_state.splits)

lemma foldl_feed_accumulates:
  "foldl feed (acc, s) bs = (acc @ fst (foldl feed ([], s) bs), snd (foldl feed ([], s) bs))"
proof (induction bs arbitrary: acc s)
  case Nil
  then show ?case by simp
next
  case (Cons b bs)
  obtain d t where f: "feed ([], s) b = (d, t)" by fastforce
  have "foldl feed (acc, s) (b # bs) = foldl feed (acc @ d, t) bs"
    using feed_accumulates [of acc s b] f by simp
  also have "\<dots> = (acc @ d @ fst (foldl feed ([], t) bs), snd (foldl feed ([], t) bs))"
    using Cons.IH [of "acc @ d" t] by simp
  also have "\<dots> = (acc @ fst (foldl feed (d, t) bs), snd (foldl feed (d, t) bs))"
    using Cons.IH [of d t] by simp
  finally show ?case using f by simp
qed

section \<open>Streams cut into chunks\<close>

text \<open>What the receive loop does: one \<open>push\<close> per chunk the socket delivers.\<close>

fun tcp_push_chunks ::
  "tcp_reassembler \<Rightarrow> bytes list \<Rightarrow> (bytes list \<times> tcp_reassembler) option" where
  "tcp_push_chunks s [] = Some ([], s)"
| "tcp_push_chunks s (c # cs) =
     (case tcp_push s c of
        None \<Rightarrow> None
      | Some (ds, s') \<Rightarrow> map_option (\<lambda>(es, t). (ds @ es, t)) (tcp_push_chunks s' cs))"

lemma tcp_push_chunks_feed:
  "reassembler_wf s \<Longrightarrow> tcp_push_chunks s cs = Some (foldl feed ([], s) (concat cs))"
proof (induction cs arbitrary: s)
  case Nil
  then show ?case by simp
next
  case (Cons c cs)
  obtain ds t where f: "foldl feed ([], s) c = (ds, t)" by fastforce
  with tcp_push_feed [OF Cons.prems, of c] have p: "tcp_push s c = Some (ds, t)" "reassembler_wf t"
    by simp_all
  from Cons.IH [OF p(2)] p(1) show ?case
    using foldl_feed_accumulates [of ds t "concat cs"] f by (simp add: case_prod_beta)
qed

text \<open>
  The reassembler never panics, and how the stream is cut into chunks does not matter:
  after any history, pushing the chunks one by one yields the same datagrams and the same state
  as pushing their concatenation at once, which is what the byte-at-a-time reference yields.
\<close>

lemma tcp_push_chunking_irrelevant:
  assumes "tcp_push_chunks tcp_reassembler_new history = Some (old, s)"
  shows "tcp_push_chunks s chunks = tcp_push s (concat chunks) \<and>
    tcp_push s (concat chunks) = Some (foldl feed ([], s) (concat chunks))"
proof -
  have "s = snd (foldl feed ([], tcp_reassembler_new) (concat history))"
    using assms tcp_push_chunks_feed [of tcp_reassembler_new history]
    by (metis option.inject reassembler_wf_start(2) snd_conv)
  then have "reassembler_wf s"
    using tcp_push_feed [of tcp_reassembler_new "concat history"] by simp
  then show ?thesis by (simp add: tcp_push_chunks_feed tcp_push_feed)
qed

lemma feed_prefix:
  assumes "settled (tr_state s) = header_start" "n \<le> TCP_MAX_DATAGRAM_BYTES"
  shows "foldl feed (acc, s) (to_be_bytes16 (of_nat n)) = (acc, s\<lparr>tr_state := RBody n []\<rparr>)"
proof -
  have n: "unat (of_nat n :: u16) = n"
    using assms(2) by (simp only: unsigned_of_nat) (simp add: take_bit_nat_eq_self TCP_MAX_DATAGRAM_BYTES_def)
  have "feed (acc, s) b = (acc, s\<lparr>tr_state := RHeader [b, 0] 1\<rparr>)" for b
    using assms(1) by (simp add: feed_def header_start_def)
  then show ?thesis
    using assms(2) n
    by (simp add: to_be_bytes16_def feed_header header_complete_def from_to_be_bytes16 Let_def)
qed

lemma feed_datagram:
  assumes "settled (tr_state s) = header_start" "tcp_encode d = Some bs"
  shows "\<exists>s'. foldl feed (acc, s) bs = (acc @ filter (\<lambda>d. d \<noteq> []) [d], s') \<and>
    settled (tr_state s') = header_start \<and> oversized_rejected s' = oversized_rejected s"
proof -
  have le: "length d \<le> TCP_MAX_DATAGRAM_BYTES" and bs: "bs = to_be_bytes16 (of_nat (length d)) @ d"
    using assms(2) by (auto simp: tcp_encode_def split: if_splits)
  let ?t = "s\<lparr>tr_state := RBody (length d) []\<rparr>"
  have p: "foldl feed (acc, s) bs = foldl feed (acc, ?t) d"
    using feed_prefix [OF assms(1) le, of acc] by (simp add: bs)
  show ?thesis
  proof (cases "d = []")
    case True
    then show ?thesis by (simp add: p settled_def header_start_def)
  next
    case False
    then have "foldl feed (acc, ?t) d = (acc @ [d], ?t\<lparr>tr_state := header_start\<rparr>)"
      using feed_body_complete [of ?t "length d" "[]" d acc] by simp
    with False show ?thesis by (simp add: p settled_def header_start_def)
  qed
qed

lemma feed_datagrams:
  "settled (tr_state s) = header_start \<Longrightarrow> \<forall>d \<in> set ds. length d \<le> TCP_MAX_DATAGRAM_BYTES \<Longrightarrow>
     \<exists>s'. foldl feed (acc, s) (concat (map (the \<circ> tcp_encode) ds)) =
       (acc @ filter (\<lambda>d. d \<noteq> []) ds, s') \<and>
       settled (tr_state s') = header_start \<and> oversized_rejected s' = oversized_rejected s"
proof (induction ds arbitrary: acc s)
  case Nil
  then show ?case by simp
next
  case (Cons d ds)
  obtain bs where bs: "tcp_encode d = Some bs"
    using Cons.prems(2) by (auto simp: tcp_encode_def)
  from feed_datagram [OF Cons.prems(1) bs, of acc] obtain t where
    t: "foldl feed (acc, s) bs = (acc @ filter (\<lambda>d. d \<noteq> []) [d], t)"
      "settled (tr_state t) = header_start" "oversized_rejected t = oversized_rejected s" by blast
  from Cons.IH [OF t(2), of "acc @ filter (\<lambda>d. d \<noteq> []) [d]"] Cons.prems(2) t bs
  show ?case by (auto simp del: filter.simps) (auto simp: filter.simps)
qed

text \<open>
  C3: datagrams of at most 1200 bytes survive the stream however the network cuts it: any
  chunks whose concatenation is the encoded datagrams in order give back exactly those
  datagrams, in order and with none rejected, except that empty datagrams are dropped.
\<close>

theorem tcp_stream_roundtrip:
  assumes "\<forall>d \<in> set ds. length d \<le> 1200"
    and "concat chunks = concat (map (the \<circ> tcp_encode) ds)"
  shows "\<exists>s. tcp_push_chunks tcp_reassembler_new chunks = Some (filter (\<lambda>d. d \<noteq> []) ds, s) \<and>
    settled (tr_state s) = header_start \<and> oversized_rejected s = 0"
proof -
  have "settled (tr_state tcp_reassembler_new) = header_start"
    by (simp add: tcp_reassembler_new_def settled_def header_start_def)
  from feed_datagrams [OF this, of ds "[]"] assms show ?thesis
    by (simp add: tcp_push_chunks_feed TCP_MAX_DATAGRAM_BYTES_def)
      (simp add: tcp_reassembler_new_def)
qed

theorem tcp_stream_roundtrip_witness:
  "\<exists>s. tcp_push_chunks tcp_reassembler_new [[0], [2, 7, 8, 0, 0], [0, 1, 9]] =
     Some (filter (\<lambda>d. d \<noteq> []) [[7, 8], [], [9]], s) \<and>
     settled (tr_state s) = header_start \<and> oversized_rejected s = 0"
  by (rule tcp_stream_roundtrip)
    (simp_all add: tcp_encode_def to_be_bytes16_def TCP_MAX_DATAGRAM_BYTES_def)

section \<open>The latency penalty\<close>

definition TCP_RTT_EWMA_ALPHA :: f64 where
  "TCP_RTT_EWMA_ALPHA = 1 / 8"

definition TCP_FALLBACK_PENALTY_FLOOR_MS :: nat where
  "TCP_FALLBACK_PENALTY_FLOOR_MS = 30"

text \<open>Milliseconds are \<open>u32\<close> in the source; they are naturals below \<open>2 ^ 32\<close> here.\<close>

record tcp_penalty_tracker =
  udp_baseline_ms :: nat
  smoothed_rtt :: "f64 option"

definition tcp_penalty_new :: "nat \<Rightarrow> tcp_penalty_tracker" where
  "tcp_penalty_new baseline = \<lparr>udp_baseline_ms = baseline, smoothed_rtt = None\<rparr>"

definition observe_rtt_ms :: "tcp_penalty_tracker \<Rightarrow> nat \<Rightarrow> tcp_penalty_tracker" where
  "observe_rtt_ms t rtt_ms =
     (let sample = f64_of_nat rtt_ms in
      t\<lparr>smoothed_rtt := Some (case smoothed_rtt t of
          None \<Rightarrow> sample
        | Some prev \<Rightarrow> f64_add (f64_mul prev (f64_sub 1 TCP_RTT_EWMA_ALPHA))
                               (f64_mul sample TCP_RTT_EWMA_ALPHA))\<rparr>)"

definition penalty_ms :: "tcp_penalty_tracker \<Rightarrow> nat" where
  "penalty_ms t =
     (let raw = (case smoothed_rtt t of
          None \<Rightarrow> 0
        | Some s \<Rightarrow> int_as_u32 (f64_round_int (max (f64_sub s (f64_of_nat (udp_baseline_ms t))) 0)))
      in max raw TCP_FALLBACK_PENALTY_FLOOR_MS)"

definition smoothed_rtt_ms :: "tcp_penalty_tracker \<Rightarrow> nat option" where
  "smoothed_rtt_ms t = map_option (\<lambda>s. int_as_u32 (f64_round_int s)) (smoothed_rtt t)"

definition set_udp_baseline_ms :: "tcp_penalty_tracker \<Rightarrow> nat \<Rightarrow> tcp_penalty_tracker" where
  "set_udp_baseline_ms t baseline = t\<lparr>udp_baseline_ms := baseline\<rparr>"

lemma f64_of_u32: "n < 2 ^ 32 \<Longrightarrow> f64_of_nat n = of_nat n"
  by (simp add: f64_of_nat_def f64_round_of_nat)

lemma ewma_factor: "f64_sub 1 TCP_RTT_EWMA_ALPHA = 7 / 8"
  using f64_round_eighths [of 7] by (simp add: f64_sub_def TCP_RTT_EWMA_ALPHA_def)

text \<open>Blending stays between two integer bounds even though every operation rounds.\<close>

lemma ewma_between:
  assumes "of_nat lo \<le> x" "x \<le> of_nat hi" "of_nat lo \<le> y" "y \<le> of_nat hi" "hi < 2 ^ 32"
  shows "of_nat lo \<le> f64_add (f64_mul x (7 / 8)) (f64_mul y (1 / 8)) \<and>
    f64_add (f64_mul x (7 / 8)) (f64_mul y (1 / 8)) \<le> of_nat hi"
proof -
  have lo: "lo < 2 ^ 32" using assms by (metis le_less_trans of_nat_le_iff order_trans)
  have e: "f64_round (of_nat (7 * k) / 8) = of_nat (7 * k) / 8"
    "f64_round (of_nat k / 8) = of_nat k / 8" if "k < 2 ^ 32" for k
    using that f64_round_eighths [of "7 * k"] f64_round_eighths [of k] by simp_all
  have "f64_mul x (7 / 8) \<le> of_nat (7 * hi) / 8" "of_nat (7 * lo) / 8 \<le> f64_mul x (7 / 8)"
    using f64_round_mono [of "x * (7 / 8)" "of_nat (7 * hi) / 8"]
      f64_round_mono [of "of_nat (7 * lo) / 8" "x * (7 / 8)"] e(1) [OF assms(5)] e(1) [OF lo] assms
    by (simp_all add: f64_mul_def)
  moreover have "f64_mul y (1 / 8) \<le> of_nat hi / 8" "of_nat lo / 8 \<le> f64_mul y (1 / 8)"
    using f64_round_mono [of "y * (1 / 8)" "of_nat hi / 8"]
      f64_round_mono [of "of_nat lo / 8" "y * (1 / 8)"] e(2) [OF assms(5)] e(2) [OF lo] assms
    by (simp_all add: f64_mul_def)
  ultimately have s: "of_nat lo \<le> f64_mul x (7 / 8) + f64_mul y (1 / 8)"
    "f64_mul x (7 / 8) + f64_mul y (1 / 8) \<le> of_nat hi" by simp_all
  from f64_round_mono [OF s(1)] f64_round_mono [OF s(2)] show ?thesis
    using lo assms(5) by (simp add: f64_add_def f64_round_of_nat)
qed

definition observe_all :: "tcp_penalty_tracker \<Rightarrow> nat list \<Rightarrow> tcp_penalty_tracker" where
  "observe_all t rtts = foldl observe_rtt_ms t rtts"

lemma observe_all_between:
  assumes "\<forall>r \<in> set rtts. lo \<le> r \<and> r \<le> hi" "hi < 2 ^ 32" "rtts \<noteq> []"
  shows "\<exists>s. smoothed_rtt (observe_all (tcp_penalty_new b) rtts) = Some s \<and>
    of_nat lo \<le> s \<and> s \<le> of_nat hi"
  using assms(1,3)
proof (induction rtts rule: rev_induct)
  case (snoc r rtts)
  then have r: "of_nat lo \<le> f64_of_nat r" "f64_of_nat r \<le> of_nat hi"
    using assms(2) by (auto simp: f64_of_u32)
  show ?case
  proof (cases "rtts = []")
    case True
    with r show ?thesis by (simp add: observe_all_def observe_rtt_ms_def tcp_penalty_new_def)
  next
    case False
    with snoc obtain s where s: "smoothed_rtt (observe_all (tcp_penalty_new b) rtts) = Some s"
      "of_nat lo \<le> s" "s \<le> of_nat hi" by auto
    from ewma_between [OF s(2,3) r assms(2)] s(1) show ?thesis
      by (simp add: observe_all_def observe_rtt_ms_def ewma_factor Let_def)
        (simp add: TCP_RTT_EWMA_ALPHA_def)
  qed
qed simp

text \<open>
  The reported penalty is never below 30 ms, and it never exceeds the largest RTT sample
  (or the floor): the rounding of the moving average in double precision cannot push the
  estimate outside the range of the samples.
\<close>

lemma tcp_penalty_bounds:
  assumes "\<forall>r \<in> set rtts. lo \<le> r \<and> r \<le> hi" "hi < 2 ^ 32" "b < 2 ^ 32" "rtts \<noteq> []"
  shows "30 \<le> penalty_ms (observe_all (tcp_penalty_new b) rtts) \<and>
    penalty_ms (observe_all (tcp_penalty_new b) rtts) \<le> max hi 30 \<and>
    (\<exists>m. smoothed_rtt_ms (observe_all (tcp_penalty_new b) rtts) = Some m \<and> lo \<le> m \<and> m \<le> hi)"
proof -
  let ?t = "observe_all (tcp_penalty_new b) rtts"
  obtain s where s: "smoothed_rtt ?t = Some s" "of_nat lo \<le> s" "s \<le> of_nat hi"
    using observe_all_between [OF assms(1,2,4)] by blast
  have lo: "lo < 2 ^ 32" using s assms(2) by (metis le_less_trans of_nat_le_iff order_trans)
  have "f64_sub s (f64_of_nat (udp_baseline_ms ?t)) \<le> f64_round (of_nat hi)"
    unfolding f64_sub_def by (rule f64_round_mono)
      (use s(3) f64_of_nat_nonneg [of "udp_baseline_ms ?t"] in linarith)
  then have "f64_sub s (f64_of_nat (udp_baseline_ms ?t)) \<le> of_nat hi"
    using assms(2) by (simp add: f64_round_of_nat)
  then have "f64_round_int (max (f64_sub s (f64_of_nat (udp_baseline_ms ?t))) 0) \<le> int hi"
    using f64_round_int_mono [of "max (f64_sub s (f64_of_nat (udp_baseline_ms ?t))) 0" "of_nat hi"]
    by simp
  from int_as_u32_mono [OF this] have p: "penalty_ms ?t \<le> max hi 30"
    using assms(2) by (auto simp: penalty_ms_def s(1) int_as_u32_of_nat
        TCP_FALLBACK_PENALTY_FLOOR_MS_def)
  have "0 \<le> s" using s(2) by (metis of_nat_0_le_iff order_trans)
  then have "int lo \<le> f64_round_int s" "f64_round_int s \<le> int hi"
    using f64_round_int_mono [of "of_nat lo" s] f64_round_int_mono [of s "of_nat hi"] s by simp_all
  from this [THEN int_as_u32_mono] have "lo \<le> int_as_u32 (f64_round_int s)"
    "int_as_u32 (f64_round_int s) \<le> hi"
    using lo assms(2) by (simp_all add: int_as_u32_of_nat)
  with p show ?thesis
    by (simp add: smoothed_rtt_ms_def s(1)) (simp add: penalty_ms_def TCP_FALLBACK_PENALTY_FLOOR_MS_def)
qed

end
