(* ===== verification/Paced_Queue.thy ===== *)
theory Paced_Queue
  imports Prelude
begin

text \<open>
  The interface between a connection and the pacer it sends through: frames are accepted or
  refused, drained in batches, and each channel is a FIFO. A client proves once, inside the
  locale, that nothing accepted is lost, duplicated or reordered within its channel.
\<close>

datatype ('f, 'a) paced_op = PEnqueue 'f | PDrain | PAdjust 'a

text \<open>
  A run of a client: the frames accepted, the frames drained, and the state at the end; \<open>None\<close>
  when an operation panics.
\<close>

fun paced_run ::
  "('s \<Rightarrow> 'f \<Rightarrow> (bool \<times> 's) option) \<Rightarrow> ('s \<Rightarrow> 'f list option \<times> 's) \<Rightarrow> ('s \<Rightarrow> 'a \<Rightarrow> 's) \<Rightarrow>
   's \<Rightarrow> ('f, 'a) paced_op list \<Rightarrow> ('f list \<times> 'f list \<times> 's) option" where
  "paced_run enq drn adj s [] = Some ([], [], s)"
| "paced_run enq drn adj s (PEnqueue f # ops) =
     (case enq s f of
        None \<Rightarrow> None
      | Some (accepted, s') \<Rightarrow>
          map_option (\<lambda>(acc, sent, t). (if accepted then f # acc else acc, sent, t))
            (paced_run enq drn adj s' ops))"
| "paced_run enq drn adj s (PDrain # ops) =
     (case drn s of
        (out, s') \<Rightarrow>
          map_option (\<lambda>(acc, sent, t). (acc, (case out of None \<Rightarrow> [] | Some fs \<Rightarrow> fs) @ sent, t))
            (paced_run enq drn adj s' ops))"
| "paced_run enq drn adj s (PAdjust a # ops) = paced_run enq drn adj (adj s a) ops"

locale paced_queue =
  fixes enq :: "'s \<Rightarrow> 'f \<Rightarrow> (bool \<times> 's) option"
    and drn :: "'s \<Rightarrow> 'f list option \<times> 's"
    and adj :: "'s \<Rightarrow> 'a \<Rightarrow> 's"
    and chan :: "'f \<Rightarrow> nat"
    and pending :: "'s \<Rightarrow> nat \<Rightarrow> 'f list"
    and inv :: "'s \<Rightarrow> bool"
    and channels :: nat
  assumes inv_enq: "inv s \<Longrightarrow> enq s f = Some (b, s') \<Longrightarrow> inv s'"
    and inv_drn: "inv s \<Longrightarrow> drn s = (out, s') \<Longrightarrow> inv s'"
    and inv_adj: "inv s \<Longrightarrow> inv (adj s a)"
    and pending_accept: "inv s \<Longrightarrow> enq s f = Some (True, s') \<Longrightarrow>
      pending s' c = pending s c @ (if c = chan f then [f] else [])"
    and pending_refuse: "inv s \<Longrightarrow> enq s f = Some (False, s') \<Longrightarrow> pending s' c = pending s c"
    and pending_drain: "inv s \<Longrightarrow> drn s = (out, s') \<Longrightarrow>
      filter (\<lambda>f. chan f = c) (case out of None \<Rightarrow> [] | Some fs \<Rightarrow> fs) @ pending s' c = pending s c"
    and pending_adj: "inv s \<Longrightarrow> pending (adj s a) c = pending s c"
    and enq_total: "inv s \<Longrightarrow> chan f < channels \<Longrightarrow> enq s f \<noteq> None"
begin

theorem run_conserves:
  "inv s \<Longrightarrow> paced_run enq drn adj s ops = Some (acc, sent, t) \<Longrightarrow>
     inv t \<and> filter (\<lambda>f. chan f = c) sent @ pending t c =
       pending s c @ filter (\<lambda>f. chan f = c) acc"
proof (induction ops arbitrary: s acc sent)
  case Nil
  then show ?case by simp
next
  case (Cons op ops)
  show ?case
  proof (cases op)
    case (PEnqueue f)
    with Cons.prems(2) obtain b s' acc' where
      e: "enq s f = Some (b, s')" and r: "paced_run enq drn adj s' ops = Some (acc', sent, t)"
      and acc: "acc = (if b then f # acc' else acc')"
      by (auto split: option.splits)
    from Cons.IH [OF inv_enq [OF Cons.prems(1) e] r] e acc show ?thesis
      by (cases b) (auto simp: pending_accept [OF Cons.prems(1)] pending_refuse [OF Cons.prems(1)])
  next
    case PDrain
    with Cons.prems(2) obtain out s' sent' where
      d: "drn s = (out, s')" and r: "paced_run enq drn adj s' ops = Some (acc, sent', t)"
      and sent: "sent = (case out of None \<Rightarrow> [] | Some fs \<Rightarrow> fs) @ sent'"
      by (auto split: prod.splits)
    from Cons.IH [OF inv_drn [OF Cons.prems(1) d] r] pending_drain [OF Cons.prems(1) d, of c]
    show ?thesis by (metis append_assoc filter_append sent)
  next
    case (PAdjust a)
    with Cons.prems(2) have "paced_run enq drn adj (adj s a) ops = Some (acc, sent, t)" by simp
    from Cons.IH [OF inv_adj [OF Cons.prems(1)] this] show ?thesis
      by (simp add: pending_adj [OF Cons.prems(1)])
  qed
qed

text \<open>On channels that exist no operation panics.\<close>

theorem run_total:
  "inv s \<Longrightarrow> (\<And>f. PEnqueue f \<in> set ops \<Longrightarrow> chan f < channels) \<Longrightarrow>
     \<exists>acc sent t. paced_run enq drn adj s ops = Some (acc, sent, t)"
proof (induction ops arbitrary: s)
  case Nil
  then show ?case by simp
next
  case (Cons op ops)
  show ?case
  proof (cases op)
    case (PEnqueue f)
    with Cons.prems(2) have "chan f < channels" by simp
    with Cons.prems(1) have "enq s f \<noteq> None" by (rule enq_total)
    then obtain b s' where e: "enq s f = Some (b, s')" by auto
    from Cons.IH [OF inv_enq [OF Cons.prems(1) e]] Cons.prems(2) PEnqueue e show ?thesis
      by fastforce
  next
    case PDrain
    obtain out s' where d: "drn s = (out, s')" by fastforce
    from Cons.IH [OF inv_drn [OF Cons.prems(1) d]] Cons.prems(2) PDrain d show ?thesis
      by fastforce
  next
    case (PAdjust a)
    with Cons show ?thesis by (simp add: inv_adj)
  qed
qed

end

end
