(* ===== verification/Pacer.thy ===== *)
theory Pacer
  imports F64 Paced_Queue
begin

text \<open>
  The channel-priority token-bucket pacer (\<open>core/lbtp/src/pacer.rs\<close>): one FIFO queue per
  channel, drained in a fixed priority order as far as the token balance and the 1200-byte
  datagram allow. The lemmas give the contract of \<open>drain_tick\<close>: it never overfills a datagram,
  loses or reorders nothing within a channel, emits in priority order, spends only tokens it
  has, and stops only when nothing more fits.
\<close>

section \<open>Data and constants\<close>

definition NUM_CHANNELS :: nat where
  "NUM_CHANNELS = 9"

definition BURST_TOLERANCE_MS :: f64 where
  "BURST_TOLERANCE_MS = 5"

definition DATAGRAM_OVERHEAD :: nat where
  "DATAGRAM_OVERHEAD = 19"

definition FRAME_HEADER_OVERHEAD :: nat where
  "FRAME_HEADER_OVERHEAD = 2"

definition MAX_DATAGRAM_PAYLOAD_BYTES :: nat where
  "MAX_DATAGRAM_PAYLOAD_BYTES = 1200 - DATAGRAM_OVERHEAD"

definition MAX_FRAME_DATA_BYTES :: nat where
  "MAX_FRAME_DATA_BYTES = MAX_DATAGRAM_PAYLOAD_BYTES - FRAME_HEADER_OVERHEAD"

definition PRIORITY_ORDER :: "nat list" where
  "PRIORITY_ORDER = [0, 3, 2, 1, 4, 5, 6, 7, 8]"

lemmas pacer_constants =
  DATAGRAM_OVERHEAD_def FRAME_HEADER_OVERHEAD_def MAX_DATAGRAM_PAYLOAD_BYTES_def
  MAX_FRAME_DATA_BYTES_def

datatype delivery_class = Realtime | ReliableUnordered | ReliableOrdered

definition CHANNEL_DELIVERY_CLASS :: "delivery_class list" where
  "CHANNEL_DELIVERY_CLASS =
     [ReliableOrdered, Realtime, ReliableOrdered, ReliableOrdered, Realtime, Realtime,
      ReliableUnordered, ReliableUnordered, Realtime]"

text \<open>\<open>ChannelId(u8)\<close>; \<open>new\<close> panics out of range in builds with debug assertions only.\<close>

type_synonym channel_id = u8

definition channel_id_new :: "bool \<Rightarrow> u8 \<Rightarrow> channel_id option" where
  "channel_id_new debug_assertions ch =
     (if debug_assertions \<and> \<not> unat ch < NUM_CHANNELS then None else Some ch)"

text \<open>Indexing the class table panics out of range.\<close>

definition channel_delivery_class :: "channel_id \<Rightarrow> delivery_class option" where
  "channel_delivery_class ch =
     (if unat ch < length CHANNEL_DELIVERY_CLASS then Some (CHANNEL_DELIVERY_CLASS ! unat ch)
      else None)"

record pacer_frame =
  pf_channel :: channel_id
  pf_data :: bytes

abbreviation frame_len :: "pacer_frame \<Rightarrow> nat" where
  "frame_len f \<equiv> length (pf_data f)"

abbreviation frame_chan :: "pacer_frame \<Rightarrow> nat" where
  "frame_chan f \<equiv> unat (pf_channel f)"

text \<open>\<open>PacerFrame::new\<close> only asserts the size limit in debug builds.\<close>

definition pacer_frame_new :: "bool \<Rightarrow> channel_id \<Rightarrow> bytes \<Rightarrow> pacer_frame option" where
  "pacer_frame_new debug_assertions ch data =
     (if debug_assertions \<and> \<not> length data \<le> MAX_FRAME_DATA_BYTES then None
      else Some \<lparr>pf_channel = ch, pf_data = data\<rparr>)"

type_synonym aggregated_datagram = "pacer_frame list"

definition datagram_data_bytes :: "aggregated_datagram \<Rightarrow> nat" where
  "datagram_data_bytes frames = sum_list (map frame_len frames)"

text \<open>The queues are an array with one \<open>VecDeque\<close> per channel.\<close>

record pacer =
  queues :: "pacer_frame list list"
  token_bytes :: f64
  rate_bps :: f64
  burst_cap_bytes :: f64

section \<open>Rate and tokens\<close>

definition burst_cap_for_rate :: "f64 \<Rightarrow> f64" where
  "burst_cap_for_rate rate = f64_div (f64_mul rate BURST_TOLERANCE_MS) 8000"

definition pacer_new :: "f64 \<Rightarrow> pacer" where
  "pacer_new initial_rate =
     \<lparr>queues = replicate NUM_CHANNELS [], token_bytes = 0, rate_bps = initial_rate,
      burst_cap_bytes = burst_cap_for_rate initial_rate\<rparr>"

definition pacer_set_rate :: "pacer \<Rightarrow> f64 \<Rightarrow> pacer" where
  "pacer_set_rate p rate =
     p\<lparr>rate_bps := rate, burst_cap_bytes := burst_cap_for_rate rate,
       token_bytes := min (token_bytes p) (burst_cap_for_rate rate)\<rparr>"

definition pacer_advance :: "pacer \<Rightarrow> u64 \<Rightarrow> pacer" where
  "pacer_advance p elapsed_ns =
     (let added = f64_div (f64_mul (rate_bps p) (f64_of_nat (unat elapsed_ns))) 8000000000
      in p\<lparr>token_bytes := min (f64_add (token_bytes p) added) (burst_cap_bytes p)\<rparr>)"

section \<open>Queues\<close>

text \<open>
  \<open>queues[i]\<close> on the fixed-size array; the arrays of the model have nine entries as well, and the
  priority order only names those.
\<close>

definition queue_at :: "pacer \<Rightarrow> nat \<Rightarrow> pacer_frame list" where
  "queue_at p ch = (if ch < length (queues p) then queues p ! ch else [])"

definition pop_queue :: "pacer \<Rightarrow> nat \<Rightarrow> pacer" where
  "pop_queue p ch = p\<lparr>queues := (queues p)[ch := tl (queue_at p ch)]\<rparr>"

text \<open>
  \<open>enqueue\<close> returns whether the frame was accepted; the index panics (\<open>None\<close>) for a channel
  number that is not 0 to 8.
\<close>

definition pacer_enqueue :: "pacer \<Rightarrow> pacer_frame \<Rightarrow> (bool \<times> pacer) option" where
  "pacer_enqueue p frame =
     (if frame_len frame > MAX_FRAME_DATA_BYTES then Some (False, p)
      else if frame_chan frame < length (queues p)
      then Some (True, p\<lparr>queues :=
             (queues p)[frame_chan frame := queue_at p (frame_chan frame) @ [frame]]\<rparr>)
      else None)"

fun pacer_dequeue_scan :: "pacer \<Rightarrow> nat list \<Rightarrow> pacer_frame option \<times> pacer" where
  "pacer_dequeue_scan p [] = (None, p)"
| "pacer_dequeue_scan p (ch # chs) =
     (case queue_at p ch of
        [] \<Rightarrow> pacer_dequeue_scan p chs
      | frame # _ \<Rightarrow>
          let needed = f64_of_nat (frame_len frame) in
          if token_bytes p \<ge> needed
          then (Some frame, (pop_queue p ch)\<lparr>token_bytes := f64_sub (token_bytes p) needed\<rparr>)
          else pacer_dequeue_scan p chs)"

definition pacer_dequeue :: "pacer \<Rightarrow> pacer_frame option \<times> pacer" where
  "pacer_dequeue p = pacer_dequeue_scan p PRIORITY_ORDER"

definition pacer_queued_frames :: "pacer \<Rightarrow> nat \<Rightarrow> nat" where
  "pacer_queued_frames p ch = length (queue_at p ch)"

definition pacer_total_queued_frames :: "pacer \<Rightarrow> nat" where
  "pacer_total_queued_frames p = sum_list (map length (queues p))"

definition pacer_pending_bytes :: "pacer \<Rightarrow> nat \<Rightarrow> nat" where
  "pacer_pending_bytes p ch = sum_list (map frame_len (queue_at p ch))"

section \<open>Draining one tick\<close>

text \<open>
  One pass of the inner loop of \<open>drain_tick\<close> over the channels in priority order: what it finds
  to do first.
\<close>

datatype drain_action = DrainNothing | DrainDrop nat | DrainAdmit nat pacer_frame

definition frame_slot :: "pacer_frame \<Rightarrow> nat" where
  "frame_slot f = FRAME_HEADER_OVERHEAD + frame_len f"

fun drain_scan :: "pacer \<Rightarrow> bool \<Rightarrow> nat \<Rightarrow> nat list \<Rightarrow> drain_action" where
  "drain_scan p no_frames datagram_used [] = DrainNothing"
| "drain_scan p no_frames datagram_used (ch # chs) =
     (case queue_at p ch of
        [] \<Rightarrow> drain_scan p no_frames datagram_used chs
      | front # _ \<Rightarrow>
          if token_bytes p < f64_of_nat (frame_len front)
          then drain_scan p no_frames datagram_used chs
          else if frame_slot front > MAX_DATAGRAM_PAYLOAD_BYTES then DrainDrop ch
          else if \<not> no_frames \<and> datagram_used + frame_slot front > MAX_DATAGRAM_PAYLOAD_BYTES
          then drain_scan p no_frames datagram_used chs
          else DrainAdmit ch front)"

definition drain_admit :: "pacer \<Rightarrow> nat \<Rightarrow> pacer_frame \<Rightarrow> pacer" where
  "drain_admit p ch front =
     (pop_queue p ch)\<lparr>token_bytes := f64_sub (token_bytes p) (f64_of_nat (frame_len front))\<rparr>"

lemma drain_scan_Drop:
  "drain_scan p e u chs = DrainDrop ch \<Longrightarrow>
     ch \<in> set chs \<and> (\<exists>f fs. queue_at p ch = f # fs \<and> frame_slot f > MAX_DATAGRAM_PAYLOAD_BYTES)"
  by (induction chs) (auto split: list.splits if_splits)

lemma drain_scan_Admit:
  "drain_scan p e u chs = DrainAdmit ch f \<Longrightarrow>
     ch \<in> set chs \<and> (\<exists>fs. queue_at p ch = f # fs) \<and> f64_of_nat (frame_len f) \<le> token_bytes p \<and>
     frame_slot f \<le> MAX_DATAGRAM_PAYLOAD_BYTES \<and>
     (\<not> e \<longrightarrow> u + frame_slot f \<le> MAX_DATAGRAM_PAYLOAD_BYTES)"
  by (induction chs) (auto split: list.splits if_splits)

lemma drain_scan_Admit_tokens:
  "drain_scan p e u chs = DrainAdmit ch f \<Longrightarrow>
     0 \<le> f64_sub (token_bytes p) (f64_of_nat (frame_len f))"
  by (rule f64_sub_nonneg) (simp add: drain_scan_Admit)

lemma total_queued_pop:
  assumes "queue_at p ch = f # fs"
  shows "pacer_total_queued_frames (pop_queue p ch) < pacer_total_queued_frames p"
proof -
  have ch: "ch < length (queues p)" "queues p ! ch = f # fs"
    using assms by (auto simp: queue_at_def split: if_splits)
  then have "f # fs \<in> set (queues p)" by (metis nth_mem)
  then have "length (f # fs) \<in> set (map length (queues p))"
    unfolding set_map by (rule imageI)
  from member_le_sum_list [OF this] have "Suc (length fs) \<le> sum_list (map length (queues p))"
    by simp
  with ch show ?thesis
    by (simp add: pacer_total_queued_frames_def pop_queue_def queue_at_def map_update
        sum_list_update)
qed

lemma total_queued_tokens [simp]:
  "pacer_total_queued_frames (p\<lparr>token_bytes := t\<rparr>) = pacer_total_queued_frames p"
  by (simp add: pacer_total_queued_frames_def)

text \<open>The outer loop: each round admits or drops one frame, so it ends.\<close>

function drain_loop ::
  "pacer \<Rightarrow> pacer_frame list \<Rightarrow> nat \<Rightarrow> pacer_frame list \<times> pacer" where
  "drain_loop p frames datagram_used =
     (case drain_scan p (frames = []) datagram_used PRIORITY_ORDER of
        DrainNothing \<Rightarrow> (frames, p)
      | DrainDrop ch \<Rightarrow> drain_loop (pop_queue p ch) frames datagram_used
      | DrainAdmit ch front \<Rightarrow>
          drain_loop (drain_admit p ch front) (frames @ [front]) (datagram_used + frame_slot front))"
  by pat_completeness auto
termination
proof (relation "measure (\<lambda>(p, _, _). pacer_total_queued_frames p)")
  fix p u ch and frames :: "pacer_frame list"
  assume "drain_scan p (frames = []) u PRIORITY_ORDER = DrainDrop ch"
  then show "((pop_queue p ch, frames, u), p, frames, u)
      \<in> measure (\<lambda>(p, _, _). pacer_total_queued_frames p)"
    by (auto dest!: drain_scan_Drop intro: total_queued_pop)
next
  fix p u ch f and frames :: "pacer_frame list"
  assume "drain_scan p (frames = []) u PRIORITY_ORDER = DrainAdmit ch f"
  then show "((drain_admit p ch f, frames @ [f], u + frame_slot f), p, frames, u)
      \<in> measure (\<lambda>(p, _, _). pacer_total_queued_frames p)"
    by (auto dest!: drain_scan_Admit intro: total_queued_pop simp: drain_admit_def)
qed simp

declare drain_loop.simps [simp del]

definition drain_tick :: "pacer \<Rightarrow> aggregated_datagram option \<times> pacer" where
  "drain_tick p =
     (let (frames, p') = drain_loop p [] 0 in
      (if frames = [] then None else Some frames, p'))"

section \<open>Well-formed pacers\<close>

definition pacer_wf :: "pacer \<Rightarrow> bool" where
  "pacer_wf p \<longleftrightarrow> length (queues p) = NUM_CHANNELS \<and>
     (\<forall>ch. \<forall>f \<in> set (queue_at p ch). frame_chan f = ch \<and> frame_len f \<le> MAX_FRAME_DATA_BYTES) \<and>
     f64_repr (token_bytes p) \<and> f64_repr (burst_cap_bytes p) \<and> token_bytes p \<le> burst_cap_bytes p"

lemma queue_at_pop:
  "queue_at (pop_queue p ch) c = (if c = ch then tl (queue_at p ch) else queue_at p c)"
  by (auto simp: queue_at_def pop_queue_def)

lemma queue_at_tokens [simp]: "queue_at (p\<lparr>token_bytes := t\<rparr>) c = queue_at p c"
  by (simp add: queue_at_def)

lemma queue_at_admit:
  "queue_at (drain_admit p ch f) c = (if c = ch then tl (queue_at p ch) else queue_at p c)"
  by (simp add: drain_admit_def queue_at_pop)

lemma drain_admit_tokens [simp]:
  "token_bytes (drain_admit p ch f) = f64_sub (token_bytes p) (f64_of_nat (frame_len f))"
  by (simp add: drain_admit_def)

lemma drain_admit_other [simp]:
  "burst_cap_bytes (drain_admit p ch f) = burst_cap_bytes p"
  "rate_bps (drain_admit p ch f) = rate_bps p"
  "length (queues (drain_admit p ch f)) = length (queues p)"
  by (simp_all add: drain_admit_def pop_queue_def)

lemma pacer_wf_admit [wf_intros]:
  assumes "pacer_wf p"
  shows "pacer_wf (drain_admit p ch f)"
proof -
  have "f64_sub (token_bytes p) (f64_of_nat (frame_len f)) \<le> token_bytes p"
    using assms by (simp add: pacer_wf_def f64_sub_le)
  then show ?thesis
    using assms by (auto simp: pacer_wf_def queue_at_admit dest: list.set_sel(2) split: if_splits)
      (metis list.sel(2) list.set_sel(2))+
qed

lemma pacer_wf_new [wf_intros]: "0 \<le> rate \<Longrightarrow> pacer_wf (pacer_new rate)"
  by (auto simp: pacer_wf_def pacer_new_def queue_at_def burst_cap_for_rate_def f64_div_def
      f64_mul_def f64_round_nonneg BURST_TOLERANCE_MS_def)

lemma pacer_wf_set_rate [wf_intros]: "pacer_wf p \<Longrightarrow> pacer_wf (pacer_set_rate p rate)"
  by (auto simp: pacer_wf_def pacer_set_rate_def queue_at_def burst_cap_for_rate_def)

lemma pacer_wf_advance [wf_intros]: "pacer_wf p \<Longrightarrow> pacer_wf (pacer_advance p ns)"
  by (auto simp: pacer_wf_def pacer_advance_def queue_at_def Let_def)

lemma pacer_enqueue_queue:
  "pacer_enqueue p f = Some (True, p') \<Longrightarrow>
     queue_at p' c = queue_at p c @ (if c = frame_chan f then [f] else [])"
  by (auto simp: pacer_enqueue_def queue_at_def split: if_splits)

lemma pacer_wf_enqueue [wf_intros]:
  assumes "pacer_wf p" "pacer_enqueue p f = Some (b, p')"
  shows "pacer_wf p'"
proof (cases b)
  case True
  have q: "queue_at p' c = queue_at p c @ (if c = frame_chan f then [f] else [])" for c
    by (rule pacer_enqueue_queue) (use assms(2) True in simp)
  have same: "length (queues p') = length (queues p)" "token_bytes p' = token_bytes p"
    "burst_cap_bytes p' = burst_cap_bytes p" "frame_len f \<le> MAX_FRAME_DATA_BYTES"
    using assms(2) True by (auto simp: pacer_enqueue_def split: if_splits)
  show ?thesis using assms(1) same by (auto simp: pacer_wf_def q)
next
  case False
  then have "p' = p" using assms(2) by (auto simp: pacer_enqueue_def split: if_splits)
  with assms(1) show ?thesis by simp
qed

section \<open>Invariants of the drain loop\<close>

lemma drain_loop_inv:
  assumes "I p fs u"
    and admit: "\<And>p fs u ch f. I p fs u \<Longrightarrow>
      drain_scan p (fs = []) u PRIORITY_ORDER = DrainAdmit ch f \<Longrightarrow>
      I (drain_admit p ch f) (fs @ [f]) (u + frame_slot f)"
    and drop: "\<And>p fs u ch. I p fs u \<Longrightarrow>
      drain_scan p (fs = []) u PRIORITY_ORDER = DrainDrop ch \<Longrightarrow> I (pop_queue p ch) fs u"
    and result: "drain_loop p fs u = (fs', p')"
  shows "\<exists>u'. I p' fs' u' \<and> drain_scan p' (fs' = []) u' PRIORITY_ORDER = DrainNothing"
  using assms(1) result
proof (induction p fs u rule: drain_loop.induct)
  case (1 p fs u)
  note step = drain_loop.simps [of p fs u]
  show ?case
  proof (cases "drain_scan p (fs = []) u PRIORITY_ORDER")
    case DrainNothing
    with "1.prems" step show ?thesis by auto
  next
    case (DrainDrop ch)
    with "1.IH"(1) [OF DrainDrop] drop [OF "1.prems"(1) DrainDrop] "1.prems"(2) step
    show ?thesis by simp
  next
    case (DrainAdmit ch f)
    with "1.IH"(2) [OF DrainAdmit] admit [OF "1.prems"(1) DrainAdmit] "1.prems"(2) step
    show ?thesis by simp
  qed
qed

text \<open>In a well-formed pacer no queued frame is too large, so the drop branch is dead.\<close>

lemma pacer_wf_no_drop: "pacer_wf p \<Longrightarrow> drain_scan p e u chs \<noteq> DrainDrop ch"
proof
  assume "pacer_wf p" "drain_scan p e u chs = DrainDrop ch"
  from drain_scan_Drop [OF this(2)] obtain f fs where
    q: "queue_at p ch = f # fs" and big: "frame_slot f > MAX_DATAGRAM_PAYLOAD_BYTES" by auto
  from q \<open>pacer_wf p\<close> have "frame_len f \<le> MAX_FRAME_DATA_BYTES"
    unfolding pacer_wf_def by (metis list.set_intros(1))
  with big show False by (simp add: frame_slot_def pacer_constants)
qed

lemma drain_loop_wf_inv:
  assumes "pacer_wf p" "I p fs u"
    and admit: "\<And>p fs u ch f. pacer_wf p \<Longrightarrow> I p fs u \<Longrightarrow>
      drain_scan p (fs = []) u PRIORITY_ORDER = DrainAdmit ch f \<Longrightarrow>
      I (drain_admit p ch f) (fs @ [f]) (u + frame_slot f)"
    and result: "drain_loop p fs u = (fs', p')"
  shows "pacer_wf p' \<and>
    (\<exists>u'. I p' fs' u' \<and> drain_scan p' (fs' = []) u' PRIORITY_ORDER = DrainNothing)"
  using drain_loop_inv [of "\<lambda>p fs u. pacer_wf p \<and> I p fs u", OF _ _ _ result]
    assms(1,2) admit pacer_wf_no_drop pacer_wf_admit by metis

section \<open>Datagram size, channel order and tokens\<close>

definition datagram_slots :: "pacer_frame list \<Rightarrow> nat" where
  "datagram_slots fs = sum_list (map frame_slot fs)"

definition channel_frames :: "nat \<Rightarrow> pacer_frame list \<Rightarrow> pacer_frame list" where
  "channel_frames ch fs = filter (\<lambda>f. frame_chan f = ch) fs"

lemma channel_frames_append [simp]:
  "channel_frames ch (fs @ gs) = channel_frames ch fs @ channel_frames ch gs"
  by (simp add: channel_frames_def)

lemma drain_loop_size:
  assumes "drain_loop p [] 0 = (fs, p')"
  shows "datagram_slots fs \<le> MAX_DATAGRAM_PAYLOAD_BYTES"
proof -
  have "\<exists>u. (datagram_slots fs = u \<and> u \<le> MAX_DATAGRAM_PAYLOAD_BYTES) \<and>
      drain_scan p' (fs = []) u PRIORITY_ORDER = DrainNothing"
    by (rule drain_loop_inv [of "\<lambda>p fs u. datagram_slots fs = u \<and> u \<le> MAX_DATAGRAM_PAYLOAD_BYTES",
          OF _ _ _ assms])
      (auto simp: datagram_slots_def dest: drain_scan_Admit)
  then show ?thesis by auto
qed

text \<open>
  Whatever is queued, every datagram that \<open>drain_tick\<close> assembles fits the 1200-byte
  ceiling, counting the 19 bytes of envelope and tag and two bytes per frame.
\<close>

lemma drain_tick_fits_datagram:
  assumes "drain_tick p = (Some fs, p')"
  shows "fs \<noteq> [] \<and> 19 + (\<Sum>f\<leftarrow>fs. 2 + length (pf_data f)) \<le> 1200"
proof -
  from assms obtain fs' where "drain_loop p [] 0 = (fs', p')" "fs = fs'" "fs \<noteq> []"
    by (auto simp: drain_tick_def Let_def split: prod.splits if_splits)
  with drain_loop_size [of p fs' p'] show ?thesis
    by (simp add: datagram_slots_def frame_slot_def [abs_def] pacer_constants)
qed

definition fifo_conserved :: "pacer \<Rightarrow> pacer \<Rightarrow> pacer_frame list \<Rightarrow> bool" where
  "fifo_conserved p0 p fs \<longleftrightarrow> (\<forall>ch. channel_frames ch fs @ queue_at p ch = queue_at p0 ch)"

lemma fifo_conserved_admit:
  assumes "pacer_wf p" "fifo_conserved p0 p fs" "drain_scan p e u chs = DrainAdmit ch f"
  shows "fifo_conserved p0 (drain_admit p ch f) (fs @ [f])"
proof -
  from drain_scan_Admit [OF assms(3)] obtain gs where q: "queue_at p ch = f # gs" by auto
  with assms(1) have "frame_chan f = ch" unfolding pacer_wf_def by (metis list.set_intros(1))
  with q assms(2) show ?thesis
    unfolding fifo_conserved_def channel_frames_append
    by (auto simp: queue_at_admit channel_frames_def dest: spec [of _ ch])
qed

lemma drain_loop_fifo:
  assumes "pacer_wf p" "drain_loop p [] 0 = (fs, p')"
  shows "pacer_wf p' \<and> fifo_conserved p p' fs"
proof -
  have "pacer_wf p' \<and> (\<exists>u'. fifo_conserved p p' fs \<and>
      drain_scan p' (fs = []) u' PRIORITY_ORDER = DrainNothing)"
    by (rule drain_loop_wf_inv [of p "\<lambda>q fs u. fifo_conserved p q fs", OF assms(1) _ _ assms(2)])
      (simp add: fifo_conserved_def channel_frames_def, rule fifo_conserved_admit)
  then show ?thesis by blast
qed

definition token_spend :: "f64 \<Rightarrow> pacer_frame list \<Rightarrow> f64" where
  "token_spend t fs = foldl (\<lambda>t f. f64_sub t (f64_of_nat (frame_len f))) t fs"

lemma drain_loop_tokens:
  assumes "pacer_wf p" "drain_loop p [] 0 = (fs, p')"
  shows "token_bytes p' = token_spend (token_bytes p) fs \<and> (fs \<noteq> [] \<longrightarrow> 0 \<le> token_bytes p')"
proof -
  have "pacer_wf p' \<and> (\<exists>u'. (token_bytes p' = token_spend (token_bytes p) fs \<and>
        (fs \<noteq> [] \<longrightarrow> 0 \<le> token_bytes p')) \<and>
      drain_scan p' (fs = []) u' PRIORITY_ORDER = DrainNothing)"
    by (rule drain_loop_wf_inv [of p "\<lambda>q fs u. token_bytes q = token_spend (token_bytes p) fs \<and>
          (fs \<noteq> [] \<longrightarrow> 0 \<le> token_bytes q)", OF assms(1) _ _ assms(2)])
      (simp add: token_spend_def, auto simp: token_spend_def dest: drain_scan_Admit_tokens)
  then show ?thesis by blast
qed

section \<open>Priority order\<close>

text \<open>The position of a channel in the priority order; a smaller rank is served first.\<close>

definition channel_rank :: "nat \<Rightarrow> nat" where
  "channel_rank ch = length (takeWhile (\<lambda>c. c \<noteq> ch) PRIORITY_ORDER)"

text \<open>A channel is blocked when its front frame cannot be admitted now.\<close>

definition channel_blocked :: "pacer \<Rightarrow> bool \<Rightarrow> nat \<Rightarrow> nat \<Rightarrow> bool" where
  "channel_blocked p no_frames u ch =
     (case queue_at p ch of
        [] \<Rightarrow> True
      | f # _ \<Rightarrow> token_bytes p < f64_of_nat (frame_len f) \<or>
          \<not> no_frames \<and> u + frame_slot f > MAX_DATAGRAM_PAYLOAD_BYTES)"

lemma drain_scan_Admit_prefix:
  "drain_scan p e u chs = DrainAdmit ch f \<Longrightarrow>
     \<exists>pre post. chs = pre @ ch # post \<and> (\<forall>c \<in> set pre. channel_blocked p e u c) \<and>
       \<not> channel_blocked p e u ch"
proof (induction chs)
  case Nil
  then show ?case by simp
next
  case (Cons c chs)
  show ?case
  proof (cases "channel_blocked p e u c")
    case True
    with Cons.prems have "drain_scan p e u chs = DrainAdmit ch f"
      by (auto simp: channel_blocked_def split: list.splits if_splits)
    from Cons.IH [OF this] True show ?thesis
      by (metis append_Cons set_ConsD)
  next
    case False
    with Cons.prems have "c = ch"
      by (auto simp: channel_blocked_def split: list.splits if_splits)
    with False show ?thesis by (metis append_Nil empty_iff empty_set)
  qed
qed

lemma drain_scan_Nothing_blocked:
  "drain_scan p e u chs = DrainNothing \<Longrightarrow> c \<in> set chs \<Longrightarrow> channel_blocked p e u c"
  by (induction chs) (auto simp: channel_blocked_def split: list.splits if_splits)

lemma takeWhile_neq_index: "c \<in> set xs \<Longrightarrow> xs ! length (takeWhile (\<lambda>d. d \<noteq> c) xs) = c"
  by (induction xs) auto

lemma rank_prefix:
  assumes "PRIORITY_ORDER = pre @ ch # post" "c \<in> set PRIORITY_ORDER"
    "channel_rank c < channel_rank ch"
  shows "c \<in> set pre"
proof -
  have "distinct (pre @ ch # post)"
    unfolding assms(1) [symmetric] by (simp add: PRIORITY_ORDER_def)
  then have "ch \<notin> set pre" by simp
  then have rank: "channel_rank ch = length pre"
    unfolding channel_rank_def assms(1) by (auto simp: takeWhile_append takeWhile_eq_all_conv)
  have "PRIORITY_ORDER ! channel_rank c = c"
    using takeWhile_neq_index [OF assms(2)] by (simp add: channel_rank_def)
  with assms(1,3) rank show ?thesis by (metis nth_append nth_mem)
qed

lemma channel_blocked_admit:
  assumes "pacer_wf p" "channel_blocked p e u c" "c \<noteq> ch"
  shows "channel_blocked (drain_admit p ch f) False (u + frame_slot f) c"
proof -
  have "f64_sub (token_bytes p) (f64_of_nat (frame_len f)) \<le> token_bytes p"
    using assms(1) by (simp add: pacer_wf_def f64_sub_le)
  with assms(2,3) show ?thesis
    by (auto simp: channel_blocked_def queue_at_admit split: list.splits)
qed

text \<open>Emitted frames are in priority order and every channel above the last one is blocked.\<close>

definition priority_ordered :: "pacer \<Rightarrow> pacer_frame list \<Rightarrow> nat \<Rightarrow> bool" where
  "priority_ordered p fs u \<longleftrightarrow> sorted (map (channel_rank \<circ> frame_chan) fs) \<and>
     (fs \<noteq> [] \<longrightarrow> (\<forall>c \<in> set PRIORITY_ORDER. channel_rank c < channel_rank (frame_chan (last fs)) \<longrightarrow>
        channel_blocked p False u c))"

lemma priority_ordered_admit:
  assumes wf: "pacer_wf p" and ord: "priority_ordered p fs u"
    and scan: "drain_scan p (fs = []) u PRIORITY_ORDER = DrainAdmit ch f"
  shows "priority_ordered (drain_admit p ch f) (fs @ [f]) (u + frame_slot f)"
proof -
  obtain pre post where split: "PRIORITY_ORDER = pre @ ch # post"
    and pre: "\<forall>c \<in> set pre. channel_blocked p (fs = []) u c"
    and free: "\<not> channel_blocked p (fs = []) u ch"
    using drain_scan_Admit_prefix [OF scan] by blast
  have ch: "frame_chan f = ch"
    using drain_scan_Admit [OF scan] wf unfolding pacer_wf_def by (metis list.set_intros(1))
  have mem: "ch \<in> set PRIORITY_ORDER" unfolding split by simp
  have le: "channel_rank (frame_chan (last fs)) \<le> channel_rank ch" if "fs \<noteq> []"
    using ord free that mem by (auto simp: priority_ordered_def not_le [symmetric])
  have "sorted (map (channel_rank \<circ> frame_chan) (fs @ [f]))"
  proof (cases "fs = []")
    case False
    then obtain gs g where fs: "fs = gs @ [g]" by (metis rev_exhaust)
    with ord le [OF False] ch show ?thesis
      by (fastforce simp: priority_ordered_def sorted_append)
  qed simp
  moreover have "channel_blocked (drain_admit p ch f) False (u + frame_slot f) c"
    if "c \<in> set PRIORITY_ORDER" "channel_rank c < channel_rank ch" for c
    using rank_prefix [OF split that] pre wf that(2) by (intro channel_blocked_admit) auto
  ultimately show ?thesis by (simp add: priority_ordered_def ch)
qed

lemma drain_loop_priority:
  assumes "pacer_wf p" "drain_loop p [] 0 = (fs, p')"
  shows "sorted (map (channel_rank \<circ> frame_chan) fs)"
proof -
  have "pacer_wf p' \<and> (\<exists>u'. priority_ordered p' fs u' \<and>
      drain_scan p' (fs = []) u' PRIORITY_ORDER = DrainNothing)"
    by (rule drain_loop_wf_inv [of p priority_ordered, OF assms(1) _ _ assms(2)])
      (auto simp: priority_ordered_def [of _ "[]"] intro: priority_ordered_admit)
  then show ?thesis by (auto simp: priority_ordered_def)
qed

lemma channels_in_order: "c < 9 \<Longrightarrow> c \<in> set PRIORITY_ORDER"
  by (auto simp: PRIORITY_ORDER_def)

lemma drain_loop_maximal:
  assumes "pacer_wf p" "drain_loop p [] 0 = (fs, p')" "c < NUM_CHANNELS"
  shows "channel_blocked p' (fs = []) (datagram_slots fs) c"
proof -
  have "pacer_wf p' \<and> (\<exists>u'. datagram_slots fs = u' \<and>
      drain_scan p' (fs = []) u' PRIORITY_ORDER = DrainNothing)"
    by (rule drain_loop_wf_inv [of p "\<lambda>_ fs u. datagram_slots fs = u", OF assms(1) _ _ assms(2)])
      (auto simp: datagram_slots_def)
  moreover have "c \<in> set PRIORITY_ORDER"
    using assms(3) by (simp add: NUM_CHANNELS_def channels_in_order)
  ultimately show ?thesis by (blast intro: drain_scan_Nothing_blocked)
qed

section \<open>The contract of \<open>drain_tick\<close> and \<open>dequeue\<close>\<close>

definition datagram_frames :: "aggregated_datagram option \<Rightarrow> pacer_frame list" where
  "datagram_frames out = (case out of None \<Rightarrow> [] | Some fs \<Rightarrow> fs)"

lemma drain_tick_loop:
  "drain_tick p = (out, p') \<Longrightarrow> drain_loop p [] 0 = (datagram_frames out, p')"
  by (auto simp: drain_tick_def datagram_frames_def Let_def split: prod.splits if_splits)

lemma drain_tick_fifo:
  "pacer_wf p \<Longrightarrow> drain_tick p = (out, p') \<Longrightarrow>
     pacer_wf p' \<and> channel_frames ch (datagram_frames out) @ queue_at p' ch = queue_at p ch"
  using drain_loop_fifo [OF _ drain_tick_loop] by (auto simp: fifo_conserved_def)


definition demo_pacer :: pacer where
  "demo_pacer = \<lparr>queues = [[], [\<lparr>pf_channel = 1, pf_data = [7, 7]\<rparr>], [],
     [\<lparr>pf_channel = 3, pf_data = [9]\<rparr>], [], [], [], [], []],
     token_bytes = 4, rate_bps = 1000000, burst_cap_bytes = 625\<rparr>"

lemma pacer_wf_demo: "pacer_wf demo_pacer"
proof -
  have "frame_chan f = ch \<and> frame_len f \<le> MAX_FRAME_DATA_BYTES"
    if "f \<in> set (queue_at demo_pacer ch)" for ch f
  proof -
    have "ch < 9" using that by (auto simp: queue_at_def demo_pacer_def split: if_splits)
    then consider "ch = 0" | "ch = 1" | "ch = 2" | "ch = 3" | "ch = 4" | "ch = 5" | "ch = 6"
      | "ch = 7" | "ch = 8" by linarith
    then show ?thesis using that
      by cases (auto simp: queue_at_def demo_pacer_def pacer_constants)
  qed
  moreover have "f64_repr 4" "f64_repr 625"
    using f64_round_of_nat [of 4] f64_round_of_nat [of 625] by (simp_all add: f64_repr_def)
  ultimately show ?thesis by (auto simp: pacer_wf_def demo_pacer_def NUM_CHANNELS_def)
qed

lemma drain_tick_demo:
  "fst (drain_tick demo_pacer) =
     Some [\<lparr>pf_channel = 3, pf_data = [9]\<rparr>, \<lparr>pf_channel = 1, pf_data = [7, 7]\<rparr>]"
  by code_simp


text \<open>
  \<open>drain_tick\<close> pays for each frame it emits out of the token balance, never going below
  zero, and it stops only when no channel's front frame is both covered by the tokens left and
  small enough for the rest of the datagram.
\<close>

lemma drain_tick_spends_and_is_maximal:
  assumes "pacer_wf p" "drain_tick p = (out, p')"
  shows "token_bytes p' = token_spend (token_bytes p) (datagram_frames out) \<and>
    (out \<noteq> None \<longrightarrow> 0 \<le> token_bytes p') \<and>
    (\<forall>ch f rest. ch < 9 \<and> queue_at p' ch = f # rest \<longrightarrow>
       token_bytes p' < f64_of_nat (frame_len f) \<or>
       out \<noteq> None \<and> datagram_slots (datagram_frames out) + frame_slot f > 1181)"
proof -
  note loop = drain_tick_loop [OF assms(2)]
  have out: "out \<noteq> None \<longleftrightarrow> datagram_frames out \<noteq> []"
    using assms(2) by (auto simp: drain_tick_def datagram_frames_def Let_def
        split: prod.splits if_splits)
  show ?thesis
    using drain_loop_tokens [OF assms(1) loop] drain_loop_maximal [OF assms(1) loop] out
    by (fastforce simp: channel_blocked_def pacer_constants NUM_CHANNELS_def)
qed

lemma pacer_dequeue_scan_Some:
  "pacer_dequeue_scan p chs = (Some f, p') \<Longrightarrow>
     \<exists>pre ch post rest. chs = pre @ ch # post \<and> queue_at p ch = f # rest \<and>
       f64_of_nat (frame_len f) \<le> token_bytes p \<and> p' = drain_admit p ch f \<and>
       (\<forall>c \<in> set pre. \<forall>g gs. queue_at p c = g # gs \<longrightarrow> token_bytes p < f64_of_nat (frame_len g))"
proof (induction chs)
  case Nil
  then show ?case by simp
next
  case (Cons c chs)
  show ?case
  proof (cases "\<exists>g gs. queue_at p c = g # gs \<and> f64_of_nat (frame_len g) \<le> token_bytes p")
    case True
    then obtain g gs where g: "queue_at p c = g # gs" "f64_of_nat (frame_len g) \<le> token_bytes p"
      by blast
    with Cons.prems have "f = g" "p' = drain_admit p c f"
      by (auto simp: Let_def drain_admit_def)
    with g show ?thesis
      by (intro exI [where x = "[]"], intro exI [where x = c], intro exI [where x = chs],
          intro exI [where x = gs]) simp
  next
    case False
    then have "pacer_dequeue_scan p chs = (Some f, p')"
      using Cons.prems by (auto simp: Let_def split: list.splits if_splits)
    from Cons.IH [OF this] obtain pre ch post rest where
      ih: "chs = pre @ ch # post" "queue_at p ch = f # rest"
        "f64_of_nat (frame_len f) \<le> token_bytes p" "p' = drain_admit p ch f"
        "\<forall>c \<in> set pre. \<forall>g gs. queue_at p c = g # gs \<longrightarrow> token_bytes p < f64_of_nat (frame_len g)"
      by blast
    with False show ?thesis
      by (intro exI [where x = "c # pre"], intro exI [where x = ch], intro exI [where x = post],
          intro exI [where x = rest]) (auto simp: not_le)
  qed
qed

text \<open>
  \<open>dequeue\<close> returns the front frame of the highest-priority channel whose front frame the
  token balance covers, deducts its size, and leaves every other queue alone.
\<close>

lemma pacer_dequeue_highest_priority:
  assumes "pacer_wf p" "pacer_dequeue p = (Some f, p')"
  shows "\<exists>rest. queue_at p (frame_chan f) = f # rest \<and> queue_at p' (frame_chan f) = rest \<and>
    (\<forall>ch. ch \<noteq> frame_chan f \<longrightarrow> queue_at p' ch = queue_at p ch) \<and>
    f64_of_nat (frame_len f) \<le> token_bytes p \<and>
    token_bytes p' = f64_sub (token_bytes p) (f64_of_nat (frame_len f)) \<and>
    (\<forall>ch g gs. ch < 9 \<and> channel_rank ch < channel_rank (frame_chan f) \<and> queue_at p ch = g # gs \<longrightarrow>
       token_bytes p < f64_of_nat (frame_len g))"
proof -
  obtain pre ch post rest where s: "PRIORITY_ORDER = pre @ ch # post" "queue_at p ch = f # rest"
    "f64_of_nat (frame_len f) \<le> token_bytes p" "p' = drain_admit p ch f"
    "\<forall>c \<in> set pre. \<forall>g gs. queue_at p c = g # gs \<longrightarrow> token_bytes p < f64_of_nat (frame_len g)"
    using pacer_dequeue_scan_Some assms(2) unfolding pacer_dequeue_def by blast
  have ch: "frame_chan f = ch"
    using assms(1) s(2) unfolding pacer_wf_def by (metis list.set_intros(1))
  have "c \<in> set pre" if "c < 9" "channel_rank c < channel_rank ch" for c
    using rank_prefix [OF s(1) _ that(2)] that(1) by (simp add: channels_in_order)
  with s ch show ?thesis by (auto simp: queue_at_admit)
qed

section \<open>The pacer as a paced queue\<close>

datatype pacer_adjustment = SetRate f64 | Advance u64

fun pacer_adjust :: "pacer \<Rightarrow> pacer_adjustment \<Rightarrow> pacer" where
  "pacer_adjust p (SetRate rate) = pacer_set_rate p rate"
| "pacer_adjust p (Advance ns) = pacer_advance p ns"

lemma pacer_adjust_queue [simp]: "queue_at (pacer_adjust p a) c = queue_at p c"
  by (cases a) (simp_all add: queue_at_def pacer_set_rate_def pacer_advance_def Let_def)

interpretation pacer_queue: paced_queue pacer_enqueue drain_tick pacer_adjust frame_chan queue_at
  pacer_wf NUM_CHANNELS
proof unfold_locales
  fix p a
  assume "pacer_wf p"
  then show "pacer_wf (pacer_adjust p a)" by (cases a) (simp_all add: wf_intros)
next
  fix p out p' c
  assume "pacer_wf p" "drain_tick p = (out, p')"
  then show "filter (\<lambda>f. frame_chan f = c) (case out of None \<Rightarrow> [] | Some fs \<Rightarrow> fs) @ queue_at p' c =
      queue_at p c"
    using drain_tick_fifo by (auto simp: channel_frames_def datagram_frames_def)
next
  fix p f
  assume "pacer_wf p" "frame_chan f < NUM_CHANNELS"
  then show "pacer_enqueue p f \<noteq> None" by (auto simp: pacer_enqueue_def pacer_wf_def)
next
  fix p f p' c
  assume "pacer_enqueue p f = Some (False, p')"
  then show "queue_at p' c = queue_at p c" by (auto simp: pacer_enqueue_def split: if_splits)
qed (auto simp: pacer_enqueue_queue dest: drain_tick_fifo intro: pacer_wf_enqueue)

end
