(* ===== verification/Connection.thy ===== *)
theory Connection
  imports Pacer
begin

text \<open>
  The paced send path (\<open>core/lbtp/src/connection.rs\<close>): a connection wraps a pacer, feeds it the
  elapsed time and hands its datagrams to the socket. Wall-clock instants are natural numbers
  of nanoseconds and the process-global identifier counter is an explicit argument.
\<close>

section \<open>State and operations\<close>

record connection =
  conn_id :: u64
  conn_pacer :: pacer
  last_tick :: nat

definition NEXT_CONNECTION_ID :: u64 where
  "NEXT_CONNECTION_ID = 1"

text \<open>
  \<open>new\<close> takes the counter with \<open>fetch_add(1)\<close>, which wraps, and maps 0 to 1; the second
  component of the result is the counter afterwards.
\<close>

definition connection_new :: "u64 \<Rightarrow> f64 \<Rightarrow> nat \<Rightarrow> connection \<times> u64" where
  "connection_new counter initial_rate now =
     (\<lparr>conn_id = (if counter = 0 then 1 else counter), conn_pacer = pacer_new initial_rate,
       last_tick = now\<rparr>,
      counter + 1)"

definition connection_set_rate :: "connection \<Rightarrow> f64 \<Rightarrow> connection" where
  "connection_set_rate c rate = c\<lparr>conn_pacer := pacer_set_rate (conn_pacer c) rate\<rparr>"

definition connection_enqueue :: "connection \<Rightarrow> pacer_frame \<Rightarrow> (bool \<times> connection) option" where
  "connection_enqueue c frame =
     map_option (\<lambda>(b, p). (b, c\<lparr>conn_pacer := p\<rparr>)) (pacer_enqueue (conn_pacer c) frame)"

definition connection_tick_ns :: "connection \<Rightarrow> u64 \<Rightarrow> aggregated_datagram option \<times> connection" where
  "connection_tick_ns c elapsed_ns =
     (let (out, p) = drain_tick (pacer_advance (conn_pacer c) elapsed_ns)
      in (out, c\<lparr>conn_pacer := p\<rparr>))"

text \<open>
  \<open>duration_since\<close> saturates at zero when the clock did not advance, and \<open>as u64\<close> keeps the low
  64 bits of the nanosecond count.
\<close>

definition connection_tick :: "connection \<Rightarrow> nat \<Rightarrow> aggregated_datagram option \<times> connection" where
  "connection_tick c now =
     (let elapsed_ns = of_nat (now - last_tick c) :: u64;
          c' = c\<lparr>last_tick := now\<rparr>
      in connection_tick_ns c' elapsed_ns)"

definition connection_total_queued_frames :: "connection \<Rightarrow> nat" where
  "connection_total_queued_frames c = pacer_total_queued_frames (conn_pacer c)"

definition connection_queued_frames :: "connection \<Rightarrow> nat \<Rightarrow> nat" where
  "connection_queued_frames c ch = pacer_queued_frames (conn_pacer c) ch"

definition connection_pending_bytes :: "connection \<Rightarrow> nat \<Rightarrow> nat" where
  "connection_pending_bytes c ch = pacer_pending_bytes (conn_pacer c) ch"

section \<open>Runs of a connection\<close>

datatype conn_op =
    ConnSetRate f64
  | ConnEnqueue pacer_frame
  | ConnTick nat \<comment> \<open>the instant of the call\<close>
  | ConnTickNs u64

text \<open>The frames accepted and the datagrams handed to the socket, in order.\<close>

fun conn_run ::
  "connection \<Rightarrow> conn_op list \<Rightarrow> (pacer_frame list \<times> aggregated_datagram list \<times> connection) option"
where
  "conn_run c [] = Some ([], [], c)"
| "conn_run c (ConnSetRate rate # ops) = conn_run (connection_set_rate c rate) ops"
| "conn_run c (ConnEnqueue f # ops) =
     (case connection_enqueue c f of
        None \<Rightarrow> None
      | Some (accepted, c') \<Rightarrow>
          map_option (\<lambda>(acc, out, d). (if accepted then f # acc else acc, out, d)) (conn_run c' ops))"
| "conn_run c (ConnTick now # ops) =
     (case connection_tick c now of
        (out, c') \<Rightarrow> map_option (\<lambda>(acc, dgs, d). (acc, (case out of None \<Rightarrow> [] | Some g \<Rightarrow> [g]) @ dgs, d))
          (conn_run c' ops))"
| "conn_run c (ConnTickNs ns # ops) =
     (case connection_tick_ns c ns of
        (out, c') \<Rightarrow> map_option (\<lambda>(acc, dgs, d). (acc, (case out of None \<Rightarrow> [] | Some g \<Rightarrow> [g]) @ dgs, d))
          (conn_run c' ops))"

text \<open>What the same run asks of the pacer.\<close>

fun pacer_ops :: "nat \<Rightarrow> conn_op list \<Rightarrow> (pacer_frame, pacer_adjustment) paced_op list" where
  "pacer_ops prev [] = []"
| "pacer_ops prev (ConnSetRate rate # ops) = PAdjust (SetRate rate) # pacer_ops prev ops"
| "pacer_ops prev (ConnEnqueue f # ops) = PEnqueue f # pacer_ops prev ops"
| "pacer_ops prev (ConnTick now # ops) =
     PAdjust (Advance (of_nat (now - prev))) # PDrain # pacer_ops now ops"
| "pacer_ops prev (ConnTickNs ns # ops) = PAdjust (Advance ns) # PDrain # pacer_ops prev ops"

lemma conn_run_pacer:
  "paced_run pacer_enqueue drain_tick pacer_adjust (conn_pacer c) (pacer_ops (last_tick c) ops) =
     map_option (\<lambda>(acc, dgs, d). (acc, concat dgs, conn_pacer d)) (conn_run c ops)"
  by (induction c ops rule: conn_run.induct)
    (auto simp: connection_set_rate_def connection_enqueue_def connection_tick_def
      connection_tick_ns_def Let_def option.map_comp comp_def
      split: option.splits prod.splits intro!: option.map_cong)

lemma pacer_ops_enqueue: "PEnqueue f \<in> set (pacer_ops prev ops) \<longleftrightarrow> ConnEnqueue f \<in> set ops"
  by (induction prev ops rule: pacer_ops.induct) auto

text \<open>
  C1: over any sequence of rate changes, enqueues and ticks, a connection delivers every
  channel as a FIFO: on each channel the frames of the emitted datagrams followed by the frames
  still queued are exactly the accepted frames in the order they were enqueued. Nothing is lost,
  duplicated or reordered, and no operation on channels 0 to 8 panics.
\<close>

theorem connection_delivers_fifo:
  assumes "fst (connection_new counter rate now) = c" "0 \<le> rate"
    and "\<And>f. ConnEnqueue f \<in> set ops \<Longrightarrow> frame_chan f < 9"
  shows "\<exists>acc dgs d. conn_run c ops = Some (acc, dgs, d) \<and>
    (\<forall>ch. channel_frames ch (concat dgs) @ queue_at (conn_pacer d) ch = channel_frames ch acc)"
proof -
  have wf: "pacer_wf (conn_pacer c)"
    using assms(1,2) by (auto simp: connection_new_def intro: wf_intros)
  have empty: "queue_at (conn_pacer c) ch = []" for ch
    using assms(1) by (auto simp: connection_new_def pacer_new_def queue_at_def)
  have "\<exists>acc sent t. paced_run pacer_enqueue drain_tick pacer_adjust (conn_pacer c)
      (pacer_ops (last_tick c) ops) = Some (acc, sent, t)"
    using assms(3) by (intro pacer_queue.run_total wf) (simp add: pacer_ops_enqueue NUM_CHANNELS_def)
  then obtain acc dgs d where run: "conn_run c ops = Some (acc, dgs, d)"
    by (auto simp: conn_run_pacer)
  have "channel_frames ch (concat dgs) @ queue_at (conn_pacer d) ch = channel_frames ch acc" for ch
    using pacer_queue.run_conserves [OF wf, of "pacer_ops (last_tick c) ops" acc "concat dgs"
        "conn_pacer d" ch] run
    by (simp add: conn_run_pacer empty channel_frames_def)
  with run show ?thesis by blast
qed

theorem connection_delivers_fifo_witness:
  "\<exists>acc dgs d. conn_run (fst (connection_new 1 150000 0))
      [ConnEnqueue \<lparr>pf_channel = 1, pf_data = [5]\<rparr>, ConnTick 5000000] = Some (acc, dgs, d) \<and>
    (\<forall>ch. channel_frames ch (concat dgs) @ queue_at (conn_pacer d) ch = channel_frames ch acc)"
  by (rule connection_delivers_fifo [OF refl]) auto

section \<open>Identifiers\<close>

text \<open>The identifiers of \<open>n\<close> connections created one after the other.\<close>

fun connection_ids :: "u64 \<Rightarrow> nat \<Rightarrow> u64 list" where
  "connection_ids counter 0 = []"
| "connection_ids counter (Suc n) =
     (let (c, counter') = connection_new counter 0 0 in conn_id c # connection_ids counter' n)"

lemma connection_ids_from:
  "0 < unat counter \<Longrightarrow> unat counter + n \<le> 2 ^ 64 \<Longrightarrow>
     map unat (connection_ids counter n) = [unat counter ..< unat counter + n]"
proof (induction n arbitrary: counter)
  case 0
  then show ?case by simp
next
  case (Suc n)
  show ?case
  proof (cases n)
    case 0
    with Suc.prems show ?thesis by (auto simp: connection_new_def)
  next
    case (Suc m)
    with Suc.prems have "unat counter + 1 < 2 ^ 64" by simp
    then have s: "unat (counter + 1) = unat counter + 1"
      by (simp add: unat_word_ariths)
    have "map unat (connection_ids (counter + 1) n) = [unat counter + 1 ..< unat counter + 1 + n]"
      using Suc.IH [of "counter + 1"] Suc.prems s by simp
    with Suc.prems show ?thesis by (auto simp: connection_new_def upt_rec)
  qed
qed

text \<open>
  The first \<open>2 ^ 64 - 1\<close> connections of a process get pairwise distinct, nonzero
  identifiers, counted up from 1; the next two both get identifier 1, because the value 0 that
  the wrapped counter yields is mapped to 1 without advancing the counter past 1.
\<close>

lemma connection_ids_unique_until_wrap:
  assumes "n < 2 ^ 64"
  shows "map unat (connection_ids NEXT_CONNECTION_ID n) = [1 ..< Suc n] \<and>
    distinct (connection_ids NEXT_CONNECTION_ID n) \<and>
    connection_ids 0 2 = [1, 1]"
proof -
  have m: "map unat (connection_ids NEXT_CONNECTION_ID n) = [1 ..< Suc n]"
    using connection_ids_from [of NEXT_CONNECTION_ID n] assms by (simp add: NEXT_CONNECTION_ID_def)
  then have "distinct (map unat (connection_ids NEXT_CONNECTION_ID n))" by (simp only: distinct_upt)
  then have "distinct (connection_ids NEXT_CONNECTION_ID n)" by (simp add: distinct_map)
  moreover have "connection_ids 0 2 = [1, 1]"
    by (simp add: numeral_2_eq_2 connection_new_def)
  ultimately show ?thesis using m by blast
qed

end
