(* ===== verification/Ice.thy ===== *)
theory Ice
  imports Prelude
begin

unbundle bit_operations_syntax

text \<open>
  ICE candidate gathering (\<open>core/lbtp/src/ice_candidate.rs\<close>). Transport addresses are opaque
  to the gatherer: their type is the parameter \<open>'addr\<close>. The foundation counter is a \<open>u32\<close>
  incremented by \<open>+=\<close>: past the maximum it panics (None) when overflow checks are compiled in
  and wraps otherwise (the argument \<open>overflow_checks\<close>).

  The lemmas compute the priorities, the timing of a gathering that gets no answer (the two
  request phases are two instances of the retry-timer interface) and show that no two
  candidates of a session share a foundation.
\<close>

section \<open>Constants, candidates and events\<close>

definition ICE_STUN_TIMEOUT_TICKS :: nat where "ICE_STUN_TIMEOUT_TICKS = 5"
definition ICE_STUN_MAX_RETRIES :: nat where "ICE_STUN_MAX_RETRIES = 2"
definition ICE_TURN_TIMEOUT_TICKS :: nat where "ICE_TURN_TIMEOUT_TICKS = 10"
definition ICE_TURN_MAX_RETRIES :: nat where "ICE_TURN_MAX_RETRIES = 2"
definition ICE_HOST_TYPE_PREFERENCE :: u32 where "ICE_HOST_TYPE_PREFERENCE = 126"
definition ICE_SRFLX_TYPE_PREFERENCE :: u32 where "ICE_SRFLX_TYPE_PREFERENCE = 100"
definition ICE_RELAY_TYPE_PREFERENCE :: u32 where "ICE_RELAY_TYPE_PREFERENCE = 0"
definition ICE_LOCAL_PREFERENCE_BASE :: u32 where "ICE_LOCAL_PREFERENCE_BASE = 65535"
definition ICE_COMPONENT_ID :: u32 where "ICE_COMPONENT_ID = 1"

definition ice_priority :: "u32 \<Rightarrow> u32 \<Rightarrow> u32" where
  "ice_priority type_pref local_pref =
     (push_bit 24 type_pref OR push_bit 8 local_pref) OR (256 - ICE_COMPONENT_ID)"

datatype ice_candidate_type = IceHost | IceServerReflexive | IceRelayed

record 'addr ice_candidate =
  candidate_type :: ice_candidate_type
  candidate_addr :: 'addr
  priority :: u32
  foundation :: u32

definition ice_host :: "'addr \<Rightarrow> u32 \<Rightarrow> u32 \<Rightarrow> 'addr ice_candidate" where
  "ice_host a local_pref f =
     \<lparr>candidate_type = IceHost, candidate_addr = a,
      priority = ice_priority ICE_HOST_TYPE_PREFERENCE local_pref, foundation = f\<rparr>"

definition ice_server_reflexive :: "'addr \<Rightarrow> u32 \<Rightarrow> 'addr ice_candidate" where
  "ice_server_reflexive a f =
     \<lparr>candidate_type = IceServerReflexive, candidate_addr = a,
      priority = ice_priority ICE_SRFLX_TYPE_PREFERENCE ICE_LOCAL_PREFERENCE_BASE,
      foundation = f\<rparr>"

definition ice_relayed :: "'addr \<Rightarrow> u32 \<Rightarrow> 'addr ice_candidate" where
  "ice_relayed a f =
     \<lparr>candidate_type = IceRelayed, candidate_addr = a,
      priority = ice_priority ICE_RELAY_TYPE_PREFERENCE ICE_LOCAL_PREFERENCE_BASE,
      foundation = f\<rparr>"

datatype 'addr ice_candidate_event =
    CandidateReady "'addr ice_candidate"
  | SendStunRequest
  | RetransmitStun
  | SendTurnAllocate
  | RetransmitTurn
  | GatheringComplete

datatype gather_state =
    GatherIdle
  | GatheringServerReflexive nat nat \<comment> \<open>retries left, ticks remaining\<close>
  | GatheringRelayed nat nat
  | GatherComplete

record ice_candidate_gatherer =
  gather_state :: gather_state
  next_foundation :: u32

section \<open>Operations\<close>

definition ice_new :: ice_candidate_gatherer where
  "ice_new = \<lparr>gather_state = GatherIdle, next_foundation = 1\<rparr>"

text \<open>\<open>let foundation = self.next_foundation; self.next_foundation += 1;\<close>\<close>

definition take_foundation ::
  "bool \<Rightarrow> ice_candidate_gatherer \<Rightarrow> (u32 \<times> ice_candidate_gatherer) option" where
  "take_foundation overflow_checks g =
     (if overflow_checks \<and> next_foundation g = - 1 then None
      else Some (next_foundation g, g\<lparr>next_foundation := next_foundation g + 1\<rparr>))"

text \<open>The loop of \<open>start\<close> over the host addresses from index \<open>i\<close> on.\<close>

fun start_hosts ::
  "bool \<Rightarrow> ice_candidate_gatherer \<Rightarrow> nat \<Rightarrow> 'addr list \<Rightarrow>
     ('addr ice_candidate_event list \<times> ice_candidate_gatherer) option" where
  "start_hosts overflow_checks g i [] = Some ([], g)"
| "start_hosts overflow_checks g i (a # as) =
     (let local_pref = saturating_sub ICE_LOCAL_PREFERENCE_BASE (of_nat i) in
      case take_foundation overflow_checks g of
        None \<Rightarrow> None
      | Some (f, g') \<Rightarrow>
          (case start_hosts overflow_checks g' (Suc i) as of
             None \<Rightarrow> None
           | Some (evs, g'') \<Rightarrow> Some (CandidateReady (ice_host a local_pref f) # evs, g'')))"

definition ice_start ::
  "bool \<Rightarrow> ice_candidate_gatherer \<Rightarrow> 'addr list \<Rightarrow>
     ('addr ice_candidate_event list \<times> ice_candidate_gatherer) option" where
  "ice_start overflow_checks g host_addrs =
     (case start_hosts overflow_checks g 0 host_addrs of
        None \<Rightarrow> None
      | Some (evs, g') \<Rightarrow>
          Some (evs @ [SendStunRequest],
                g'\<lparr>gather_state :=
                    GatheringServerReflexive ICE_STUN_MAX_RETRIES ICE_STUN_TIMEOUT_TICKS\<rparr>))"

text \<open>The outer option is the panic, the inner one the \<open>Option\<close> of the method.\<close>

definition on_stun_response ::
  "bool \<Rightarrow> ice_candidate_gatherer \<Rightarrow> 'addr \<Rightarrow>
     ('addr ice_candidate_event list option \<times> ice_candidate_gatherer) option" where
  "on_stun_response overflow_checks g mapped_addr =
     (case gather_state g of
        GatheringServerReflexive _ _ \<Rightarrow>
          (case take_foundation overflow_checks g of
             None \<Rightarrow> None
           | Some (f, g') \<Rightarrow>
               Some (Some [CandidateReady (ice_server_reflexive mapped_addr f), SendTurnAllocate],
                     g'\<lparr>gather_state :=
                         GatheringRelayed ICE_TURN_MAX_RETRIES ICE_TURN_TIMEOUT_TICKS\<rparr>))
      | _ \<Rightarrow> Some (None, g))"

definition on_turn_allocated ::
  "bool \<Rightarrow> ice_candidate_gatherer \<Rightarrow> 'addr \<Rightarrow>
     ('addr ice_candidate_event list option \<times> ice_candidate_gatherer) option" where
  "on_turn_allocated overflow_checks g relay_addr =
     (case gather_state g of
        GatheringRelayed _ _ \<Rightarrow>
          (case take_foundation overflow_checks g of
             None \<Rightarrow> None
           | Some (f, g') \<Rightarrow>
               Some (Some [CandidateReady (ice_relayed relay_addr f), GatheringComplete],
                     g'\<lparr>gather_state := GatherComplete\<rparr>))
      | _ \<Rightarrow> Some (None, g))"

definition ice_tick ::
  "ice_candidate_gatherer \<Rightarrow> 'addr ice_candidate_event option \<times> ice_candidate_gatherer" where
  "ice_tick g =
     (case gather_state g of
        GatheringServerReflexive retries_left ticks_remaining \<Rightarrow>
          if ticks_remaining > 0
          then (None, g\<lparr>gather_state :=
                  GatheringServerReflexive retries_left (ticks_remaining - 1)\<rparr>)
          else if retries_left = 0
          then (Some SendTurnAllocate,
                g\<lparr>gather_state := GatheringRelayed ICE_TURN_MAX_RETRIES ICE_TURN_TIMEOUT_TICKS\<rparr>)
          else (Some RetransmitStun,
                g\<lparr>gather_state :=
                    GatheringServerReflexive (retries_left - 1) ICE_STUN_TIMEOUT_TICKS\<rparr>)
      | GatheringRelayed retries_left ticks_remaining \<Rightarrow>
          if ticks_remaining > 0
          then (None, g\<lparr>gather_state := GatheringRelayed retries_left (ticks_remaining - 1)\<rparr>)
          else if retries_left = 0
          then (Some GatheringComplete, g\<lparr>gather_state := GatherComplete\<rparr>)
          else (Some RetransmitTurn,
                g\<lparr>gather_state := GatheringRelayed (retries_left - 1) ICE_TURN_TIMEOUT_TICKS\<rparr>)
      | _ \<Rightarrow> (None, g))"

definition ice_is_idle :: "ice_candidate_gatherer \<Rightarrow> bool" where
  "ice_is_idle g \<longleftrightarrow> gather_state g = GatherIdle"

definition ice_is_gathering :: "ice_candidate_gatherer \<Rightarrow> bool" where
  "ice_is_gathering g =
     (case gather_state g of
        GatheringServerReflexive _ _ \<Rightarrow> True
      | GatheringRelayed _ _ \<Rightarrow> True
      | _ \<Rightarrow> False)"

definition ice_is_complete :: "ice_candidate_gatherer \<Rightarrow> bool" where
  "ice_is_complete g \<longleftrightarrow> gather_state g = GatherComplete"

section \<open>Unanswered requests\<close>

interpretation stun_retry: retry_probe ice_tick
  "\<lambda>f r t. \<lparr>gather_state = GatheringServerReflexive r t, next_foundation = f\<rparr>"
  "\<lambda>f r. RetransmitStun :: 'addr ice_candidate_event"
  "\<lambda>f. SendTurnAllocate"
  "\<lambda>f. \<lparr>gather_state = GatheringRelayed ICE_TURN_MAX_RETRIES ICE_TURN_TIMEOUT_TICKS,
        next_foundation = f\<rparr>"
  ICE_STUN_TIMEOUT_TICKS ICE_STUN_MAX_RETRIES
  by unfold_locales (simp_all add: ice_tick_def)

interpretation turn_retry: retry_probe ice_tick
  "\<lambda>f r t. \<lparr>gather_state = GatheringRelayed r t, next_foundation = f\<rparr>"
  "\<lambda>f r. RetransmitTurn :: 'addr ice_candidate_event"
  "\<lambda>f. GatheringComplete"
  "\<lambda>f. \<lparr>gather_state = GatherComplete, next_foundation = f\<rparr>"
  ICE_TURN_TIMEOUT_TICKS ICE_TURN_MAX_RETRIES
  by unfold_locales (simp_all add: ice_tick_def)

lemma ice_start_state:
  "ice_start oc g hosts = Some (evs, g1) \<Longrightarrow>
     g1 = \<lparr>gather_state = GatheringServerReflexive ICE_STUN_MAX_RETRIES ICE_STUN_TIMEOUT_TICKS,
           next_foundation = next_foundation g1\<rparr>"
  by (auto simp: ice_start_def split: option.splits)

lemma stun_unanswered:
  "ticks ice_tick 18
     \<lparr>gather_state = GatheringServerReflexive ICE_STUN_MAX_RETRIES ICE_STUN_TIMEOUT_TICKS,
      next_foundation = f\<rparr> =
   (retry_trace (\<lambda>f r. RetransmitStun) (\<lambda>f. SendTurnAllocate) ICE_STUN_TIMEOUT_TICKS f
      ICE_STUN_MAX_RETRIES ICE_STUN_TIMEOUT_TICKS,
    \<lparr>gather_state = GatheringRelayed ICE_TURN_MAX_RETRIES ICE_TURN_TIMEOUT_TICKS,
     next_foundation = f\<rparr>)"
proof -
  have "Suc ICE_STUN_TIMEOUT_TICKS + ICE_STUN_MAX_RETRIES * Suc ICE_STUN_TIMEOUT_TICKS = 18"
    by (simp add: ICE_STUN_TIMEOUT_TICKS_def ICE_STUN_MAX_RETRIES_def)
  with stun_retry.ticks_unanswered [OF order_refl, of ICE_STUN_TIMEOUT_TICKS f] show ?thesis
    by (simp only:)
qed

lemma turn_unanswered:
  "ticks ice_tick 33
     \<lparr>gather_state = GatheringRelayed ICE_TURN_MAX_RETRIES ICE_TURN_TIMEOUT_TICKS,
      next_foundation = f\<rparr> =
   (retry_trace (\<lambda>f r. RetransmitTurn) (\<lambda>f. GatheringComplete) ICE_TURN_TIMEOUT_TICKS f
      ICE_TURN_MAX_RETRIES ICE_TURN_TIMEOUT_TICKS,
    \<lparr>gather_state = GatherComplete, next_foundation = f\<rparr>)"
proof -
  have "Suc ICE_TURN_TIMEOUT_TICKS + ICE_TURN_MAX_RETRIES * Suc ICE_TURN_TIMEOUT_TICKS = 33"
    by (simp add: ICE_TURN_TIMEOUT_TICKS_def ICE_TURN_MAX_RETRIES_def)
  with turn_retry.ticks_unanswered [OF order_refl, of ICE_TURN_TIMEOUT_TICKS f] show ?thesis
    by (simp only:)
qed

text \<open>Before their last tick the phases are still waiting for an answer.\<close>

lemma stun_still_waiting:
  assumes "n < 18"
  shows "\<exists>r t. snd (ticks (ice_tick :: _ \<Rightarrow> 'addr ice_candidate_event option \<times> _) n
     \<lparr>gather_state = GatheringServerReflexive ICE_STUN_MAX_RETRIES ICE_STUN_TIMEOUT_TICKS,
      next_foundation = f\<rparr>) =
     \<lparr>gather_state = GatheringServerReflexive r t, next_foundation = f\<rparr>"
proof -
  have "n < Suc ICE_STUN_TIMEOUT_TICKS + ICE_STUN_MAX_RETRIES * Suc ICE_STUN_TIMEOUT_TICKS"
    using assms by (simp add: ICE_STUN_TIMEOUT_TICKS_def ICE_STUN_MAX_RETRIES_def)
  from stun_retry.ticks_still_probing [OF order_refl this] show ?thesis by metis
qed

lemma turn_still_waiting:
  assumes "n < 33"
  shows "\<exists>r t. snd (ticks (ice_tick :: _ \<Rightarrow> 'addr ice_candidate_event option \<times> _) n
     \<lparr>gather_state = GatheringRelayed ICE_TURN_MAX_RETRIES ICE_TURN_TIMEOUT_TICKS,
      next_foundation = f\<rparr>) =
     \<lparr>gather_state = GatheringRelayed r t, next_foundation = f\<rparr>"
proof -
  have "n < Suc ICE_TURN_TIMEOUT_TICKS + ICE_TURN_MAX_RETRIES * Suc ICE_TURN_TIMEOUT_TICKS"
    using assms by (simp add: ICE_TURN_TIMEOUT_TICKS_def ICE_TURN_MAX_RETRIES_def)
  from turn_retry.ticks_still_probing [OF order_refl this] show ?thesis by metis
qed

lemma map_filter_append: "List.map_filter f (xs @ ys) = List.map_filter f xs @ List.map_filter f ys"
  by (simp add: List.map_filter_def)

text \<open>
  Gathering always ends. When no server answers, exactly two STUN retransmissions, the
  move to TURN on tick 18, two TURN retransmissions and the completion on tick 51 are
  reported, in that order, and the gatherer is complete. Before tick 51 it is gathering.
\<close>

lemma ice_unanswered_gathering_completes:
  assumes "ice_start overflow_checks g hosts = Some (evs, g1)"
  shows "List.map_filter id (fst (ticks ice_tick 51 g1)) =
      [RetransmitStun, RetransmitStun, SendTurnAllocate, RetransmitTurn, RetransmitTurn,
       GatheringComplete :: 'addr ice_candidate_event] \<and>
    ice_is_complete (snd (ticks (ice_tick :: _ \<Rightarrow> 'addr ice_candidate_event option \<times> _) 51 g1)) \<and>
    (\<forall>n<51. ice_is_gathering (snd (ticks (ice_tick :: _ \<Rightarrow> 'addr ice_candidate_event option \<times> _) n g1)))"
proof (intro conjI allI impI)
  let ?f = "next_foundation g1"
  note g1 = ice_start_state [OF assms]
  have n51: "51 = 18 + (33 :: nat)" by simp
  have trace: "ticks ice_tick 51 g1 =
    (retry_trace (\<lambda>f r. RetransmitStun) (\<lambda>f. SendTurnAllocate) ICE_STUN_TIMEOUT_TICKS ?f
       ICE_STUN_MAX_RETRIES ICE_STUN_TIMEOUT_TICKS @
     retry_trace (\<lambda>f r. RetransmitTurn) (\<lambda>f. GatheringComplete) ICE_TURN_TIMEOUT_TICKS ?f
       ICE_TURN_MAX_RETRIES ICE_TURN_TIMEOUT_TICKS :: 'addr ice_candidate_event option list,
     \<lparr>gather_state = GatherComplete, next_foundation = ?f\<rparr>)"
    unfolding n51
    by (subst g1) (simp only: ticks_add stun_unanswered turn_unanswered Let_def prod.case)
  show "List.map_filter id (fst (ticks ice_tick 51 g1)) =
      [RetransmitStun, RetransmitStun, SendTurnAllocate, RetransmitTurn, RetransmitTurn,
       GatheringComplete :: 'addr ice_candidate_event]"
    by (simp only: trace fst_conv map_filter_append retry_trace_events)
      (simp add: ICE_STUN_MAX_RETRIES_def ICE_TURN_MAX_RETRIES_def upt_conv_Cons)
  show "ice_is_complete (snd (ticks (ice_tick :: _ \<Rightarrow> 'addr ice_candidate_event option \<times> _) 51 g1))"
    by (simp only: trace) (simp add: ice_is_complete_def)
  fix n :: nat
  assume n: "n < 51"
  show "ice_is_gathering (snd (ticks (ice_tick :: _ \<Rightarrow> 'addr ice_candidate_event option \<times> _) n g1))"
  proof (cases "n < 18")
    case True
    from stun_still_waiting [OF this, where 'addr = 'addr and f = ?f] show ?thesis
      by (subst g1) (auto simp: ice_is_gathering_def)
  next
    case False
    then obtain m where m: "n = 18 + m" by (metis le_Suc_ex not_less)
    with n have "m < 33" by simp
    from turn_still_waiting [OF this, where 'addr = 'addr and f = ?f] show ?thesis
      unfolding m
      by (subst g1) (auto simp only: ticks_add_state stun_unanswered snd_conv
          ice_is_gathering_def ice_candidate_gatherer.select_convs gather_state.case)
  qed
qed

section \<open>Priorities\<close>

lemma or_low_bits:
  fixes n k :: nat
  assumes "k < 2 ^ m"
  shows "push_bit m n OR k = n * 2 ^ m + k"
proof -
  have k: "k = take_bit m k" using assms by (simp add: take_bit_nat_eq_self)
  have "\<not> bit (push_bit m n) i \<or> \<not> bit k i" for i
    by (subst k) (auto simp: bit_push_bit_iff bit_take_bit_iff)
  from disjunctive_add [OF this] show ?thesis by (simp add: push_bit_eq_mult)
qed

lemma unat_push_bit_small:
  "unat (w :: u32) * 2 ^ n < 2 ^ 32 \<Longrightarrow> unat (push_bit n w) = unat w * 2 ^ n"
  by (simp only: unsigned_push_bit_eq) (simp add: push_bit_eq_mult take_bit_nat_eq_self)

text \<open>The fields of a priority do not overlap: it is a sum.\<close>

lemma unat_ice_priority:
  assumes "unat tp < 128" "unat lp < 65536"
  shows "unat (ice_priority tp lp) = unat tp * 16777216 + unat lp * 256 + 255"
proof -
  have low: "push_bit 8 (unat lp) OR 255 = unat lp * 256 + 255"
    using or_low_bits [of 255 8 "unat lp"] by simp
  have high: "push_bit 24 (unat tp) OR (unat lp * 256 + 255) =
      unat tp * 16777216 + (unat lp * 256 + 255)"
    using or_low_bits [of "unat lp * 256 + 255" 24 "unat tp"] assms(2) by simp
  have "unat (256 - ICE_COMPONENT_ID) = 255" by (simp add: ICE_COMPONENT_ID_def)
  then have "unat (ice_priority tp lp) =
      (push_bit 24 (unat tp) OR push_bit 8 (unat lp)) OR 255"
    using assms unat_push_bit_small [of tp 24] unat_push_bit_small [of lp 8]
    by (simp add: ice_priority_def unsigned_or_eq push_bit_eq_mult)
  also have "\<dots> = push_bit 24 (unat tp) OR (push_bit 8 (unat lp) OR 255)"
    by (rule or.assoc)
  finally show ?thesis by (simp only: low high)
qed

section \<open>Operation sequences\<close>

datatype 'addr ice_op = IceStart "'addr list" | IceStun 'addr | IceTurn 'addr | IceTick

text \<open>One operation, with the events it reports.\<close>

fun ice_step ::
  "bool \<Rightarrow> ice_candidate_gatherer \<Rightarrow> 'addr ice_op \<Rightarrow>
     ('addr ice_candidate_event list \<times> ice_candidate_gatherer) option" where
  "ice_step oc g (IceStart hosts) = ice_start oc g hosts"
| "ice_step oc g (IceStun a) =
     map_option (\<lambda>(r, g'). (case r of None \<Rightarrow> [] | Some evs \<Rightarrow> evs, g')) (on_stun_response oc g a)"
| "ice_step oc g (IceTurn a) =
     map_option (\<lambda>(r, g'). (case r of None \<Rightarrow> [] | Some evs \<Rightarrow> evs, g')) (on_turn_allocated oc g a)"
| "ice_step oc g IceTick =
     (case ice_tick g of (r, g') \<Rightarrow> Some (case r of None \<Rightarrow> [] | Some e \<Rightarrow> [e], g'))"

fun ice_run ::
  "bool \<Rightarrow> ice_candidate_gatherer \<Rightarrow> 'addr ice_op list \<Rightarrow>
     ('addr ice_candidate_event list \<times> ice_candidate_gatherer) option" where
  "ice_run oc g [] = Some ([], g)"
| "ice_run oc g (a # as) =
     (case ice_step oc g a of
        None \<Rightarrow> None
      | Some (evs, g') \<Rightarrow> map_option (\<lambda>(evs', g''). (evs @ evs', g'')) (ice_run oc g' as))"

fun candidates :: "'addr ice_candidate_event list \<Rightarrow> 'addr ice_candidate list" where
  "candidates [] = []"
| "candidates (CandidateReady c # evs) = c # candidates evs"
| "candidates (e # evs) = candidates evs"

lemma candidates_append: "candidates (xs @ ys) = candidates xs @ candidates ys"
  by (induction xs rule: candidates.induct) simp_all

text \<open>
  \<open>numbered oc f evs f'\<close>: the candidates among the events carry consecutive foundations from
  \<open>f\<close> up to the next one, \<open>f'\<close>, and with overflow checks the last number is never given out.
\<close>

definition numbered :: "bool \<Rightarrow> u32 \<Rightarrow> 'addr ice_candidate_event list \<Rightarrow> u32 \<Rightarrow> bool" where
  "numbered oc f evs f' \<longleftrightarrow>
     map foundation (candidates evs) =
       map (\<lambda>i. f + of_nat i) [0..<length (candidates evs)] \<and>
     f' = f + of_nat (length (candidates evs)) \<and>
     (oc \<longrightarrow> unat f + length (candidates evs) < 2 ^ 32)"

lemma numbered_Nil [simp]: "candidates evs = [] \<Longrightarrow> numbered oc f evs f"
  using unat_less_exp [of f] by (simp add: numbered_def)

lemma unat_add_of_nat: "unat (f :: u32) + n < 2 ^ 32 \<Longrightarrow> unat (f + of_nat n) = unat f + n"
  by (simp add: unat_word_ariths unsigned_of_nat take_bit_nat_eq_self)

lemma numbered_append:
  assumes "numbered oc f xs f'" "numbered oc f' ys f''"
  shows "numbered oc f (xs @ ys) f''"
proof -
  let ?m = "length (candidates xs)" and ?n = "length (candidates ys)"
  have "map (\<lambda>i. f + of_nat i) [0..<?m + ?n] =
      map (\<lambda>i. f + of_nat i) [0..<?m] @ map (\<lambda>i. f + of_nat ?m + of_nat i) [0..<?n]"
    by (rule nth_equalityI) (auto simp: nth_append)
  moreover have "oc \<Longrightarrow> unat f' = unat f + ?m"
    using assms(1) by (simp add: numbered_def unat_add_of_nat)
  ultimately show ?thesis
    using assms by (auto simp: numbered_def candidates_append add.assoc)
qed

lemma take_foundation_numbered:
  assumes "take_foundation oc g = Some (f, g')" "candidates evs = [c]" "foundation c = f"
  shows "numbered oc (next_foundation g) evs (next_foundation g') \<and>
    gather_state g' = gather_state g"
proof -
  have f: "f = next_foundation g" "g' = g\<lparr>next_foundation := next_foundation g + 1\<rparr>"
    "oc \<Longrightarrow> next_foundation g \<noteq> - 1"
    using assms(1) by (auto simp: take_foundation_def split: if_splits)
  have "unat (next_foundation g) + 1 < 2 ^ 32" if "next_foundation g \<noteq> - 1"
  proof -
    have "unat (next_foundation g) \<noteq> 2 ^ 32 - 1"
      using that by (simp add: word_unat_eq_iff unsigned_minus_1_eq_mask mask_eq_exp_minus_1)
    then show ?thesis using unat_less_exp [of "next_foundation g"] by simp
  qed
  then show ?thesis using assms(2,3) f by (auto simp: numbered_def)
qed

lemma start_hosts_numbered:
  "start_hosts oc g i hosts = Some (evs, g') \<Longrightarrow>
     numbered oc (next_foundation g) evs (next_foundation g')"
proof (induction hosts arbitrary: g i evs)
  case Nil
  then show ?case by simp
next
  case (Cons a hosts)
  then obtain f g1 evs1 where f: "take_foundation oc g = Some (f, g1)"
    and evs1: "start_hosts oc g1 (Suc i) hosts = Some (evs1, g')"
    and evs: "evs = CandidateReady
      (ice_host a (saturating_sub ICE_LOCAL_PREFERENCE_BASE (of_nat i)) f) # evs1"
    by (auto simp: Let_def split: option.splits prod.splits)
  let ?e = "[CandidateReady (ice_host a (saturating_sub ICE_LOCAL_PREFERENCE_BASE (of_nat i)) f)]"
  have "numbered oc (next_foundation g) ?e (next_foundation g1)"
    using take_foundation_numbered [OF f, of ?e] by (simp add: ice_host_def)
  from numbered_append [OF this Cons.IH [OF evs1]] show ?case by (simp add: evs)
qed

lemma ice_start_numbered:
  assumes "ice_start oc g hosts = Some (evs, g')"
  shows "numbered oc (next_foundation g) evs (next_foundation g')"
proof -
  from assms obtain evs1 g1 where h: "start_hosts oc g 0 hosts = Some (evs1, g1)"
    and e: "evs = evs1 @ [SendStunRequest]" "next_foundation g' = next_foundation g1"
    by (auto simp: ice_start_def split: option.splits)
  from numbered_append [OF start_hosts_numbered [OF h], of "[SendStunRequest]"] e
  show ?thesis by simp
qed

lemma on_stun_response_numbered:
  "on_stun_response oc g a = Some (r, g') \<Longrightarrow>
     numbered oc (next_foundation g) (case r of None \<Rightarrow> [] | Some evs \<Rightarrow> evs) (next_foundation g')"
  by (auto simp: on_stun_response_def ice_server_reflexive_def split: gather_state.splits option.splits
      dest!: take_foundation_numbered)

lemma on_turn_allocated_numbered:
  "on_turn_allocated oc g a = Some (r, g') \<Longrightarrow>
     numbered oc (next_foundation g) (case r of None \<Rightarrow> [] | Some evs \<Rightarrow> evs) (next_foundation g')"
  by (auto simp: on_turn_allocated_def ice_relayed_def split: gather_state.splits option.splits
      dest!: take_foundation_numbered)

lemma ice_tick_numbered:
  "ice_tick g = (r, g') \<Longrightarrow>
     numbered oc (next_foundation g) (case r of None \<Rightarrow> [] | Some e \<Rightarrow> [e]) (next_foundation g')"
  by (auto simp: ice_tick_def split: gather_state.splits if_splits)

lemma ice_step_numbered:
  "ice_step oc g op = Some (evs, g') \<Longrightarrow> numbered oc (next_foundation g) evs (next_foundation g')"
  by (cases op) (auto simp: ice_start_numbered dest: on_stun_response_numbered
      on_turn_allocated_numbered ice_tick_numbered split: prod.splits)

lemma ice_run_numbered:
  "ice_run oc g ops = Some (evs, g') \<Longrightarrow> numbered oc (next_foundation g) evs (next_foundation g')"
proof (induction ops arbitrary: g evs)
  case Nil
  then show ?case by simp
next
  case (Cons a ops)
  then obtain evs1 g1 evs2 where "ice_step oc g a = Some (evs1, g1)"
    "ice_run oc g1 ops = Some (evs2, g')" "evs = evs1 @ evs2"
    by (auto split: option.splits prod.splits)
  with Cons.IH ice_step_numbered numbered_append show ?case by blast
qed

text \<open>
  No two candidates of a session share a foundation. Over any sequence of starts
  (ICE restarts included), STUN and TURN answers and ticks, the candidates are numbered 1, 2,
  3 and so on in the order they are reported; the numbers are distinct and nonzero in a build
  with overflow checks, which panics before the counter wraps, and without them for fewer than
  \<open>2 ^ 32\<close> candidates.
\<close>

lemma ice_foundations_unique:
  assumes "ice_run overflow_checks ice_new ops = Some (evs, g)"
    and "overflow_checks \<or> length (candidates evs) < 2 ^ 32"
  shows "map (unat \<circ> foundation) (candidates evs) = [1..<Suc (length (candidates evs))] \<and>
    distinct (map foundation (candidates evs))"
proof -
  let ?n = "length (candidates evs)"
  have num: "numbered overflow_checks 1 evs (next_foundation g)"
    using ice_run_numbered [OF assms(1)] by (simp add: ice_new_def)
  then have n: "?n < 2 ^ 32" using assms(2) by (auto simp: numbered_def)
  have f: "map foundation (candidates evs) = map (\<lambda>i. 1 + of_nat i) [0..<?n]"
    using num by (simp add: numbered_def)
  have u: "unat (1 + of_nat i :: u32) = Suc i" if "i < ?n" for i
    using unat_add_of_nat [of 1 i] that n by simp
  have "map (unat \<circ> foundation) (candidates evs) = map unat (map foundation (candidates evs))"
    by simp
  also have "\<dots> = map Suc [0..<?n]" unfolding f by (simp add: u)
  finally have m: "map (unat \<circ> foundation) (candidates evs) = [1..<Suc ?n]"
    by (simp add: map_Suc_upt)
  then have "distinct (map unat (map foundation (candidates evs)))" by simp
  with m show ?thesis by (metis distinct_map)
qed

section \<open>Order of the candidates\<close>

lemma start_hosts_candidates:
  "start_hosts oc g i hosts = Some (evs, g') \<Longrightarrow>
     map candidate_addr (candidates evs) = hosts \<and>
     map priority (candidates evs) =
       map (\<lambda>k. ice_priority ICE_HOST_TYPE_PREFERENCE
          (saturating_sub ICE_LOCAL_PREFERENCE_BASE (of_nat k))) [i..<i + length hosts]"
proof (induction hosts arbitrary: g i evs)
  case Nil
  then show ?case by simp
next
  case (Cons a hosts)
  then obtain f g1 evs1 where
    evs1: "start_hosts oc g1 (Suc i) hosts = Some (evs1, g')"
    and evs: "evs = CandidateReady
      (ice_host a (saturating_sub ICE_LOCAL_PREFERENCE_BASE (of_nat i)) f) # evs1"
    by (auto simp: Let_def split: option.splits prod.splits)
  have "[i..<i + length (a # hosts)] = i # [Suc i..<Suc i + length hosts]"
    by (simp add: upt_conv_Cons del: upt_Suc)
  with Cons.IH [OF evs1] show ?case by (simp add: evs ice_host_def del: upt_Suc)
qed

text \<open>The local preference of the \<open>k\<close>-th host address and the three priorities.\<close>

lemma host_priority:
  assumes "k < 65536"
  shows "unat (ice_priority ICE_HOST_TYPE_PREFERENCE
      (saturating_sub ICE_LOCAL_PREFERENCE_BASE (of_nat k))) = 2130706431 - k * 256"
proof -
  have "unat (of_nat k :: u32) = k"
    using assms by (simp add: unsigned_of_nat take_bit_nat_eq_self)
  then show ?thesis
    using assms
    by (simp add: unat_ice_priority ICE_HOST_TYPE_PREFERENCE_def ICE_LOCAL_PREFERENCE_BASE_def)
qed

lemma other_priorities:
  "unat (priority (ice_server_reflexive a f)) = 1694498815"
  "unat (priority (ice_relayed a f)) = 16777215"
  by (simp_all add: ice_server_reflexive_def ice_relayed_def unat_ice_priority
      ICE_SRFLX_TYPE_PREFERENCE_def ICE_RELAY_TYPE_PREFERENCE_def ICE_LOCAL_PREFERENCE_BASE_def)

text \<open>
  Candidates are ranked as the RFC formula intends. \<open>start\<close> reports one host candidate per
  address in the given order with strictly falling priorities (for up to 65536 addresses);
  every host candidate outranks the server-reflexive one and that outranks the relayed one.
\<close>

lemma ice_priorities_ranked:
  assumes "ice_start overflow_checks g hosts = Some (evs, g')" "length hosts \<le> 65536"
  shows "map candidate_addr (candidates evs) = hosts \<and>
    sorted_wrt (\<lambda>c d. priority d < priority c) (candidates evs) \<and>
    (\<forall>c\<in>set (candidates evs). priority (ice_server_reflexive a f) < priority c) \<and>
    priority (ice_relayed b f') < priority (ice_server_reflexive a f)"
proof -
  from assms(1) obtain evs1 g1 where h: "start_hosts overflow_checks g 0 hosts = Some (evs1, g1)"
    and e: "evs = evs1 @ [SendStunRequest]"
    by (auto simp: ice_start_def split: option.splits)
  note c = start_hosts_candidates [OF h]
  have cands: "candidates evs = candidates evs1" by (simp add: e candidates_append)
  have len: "length (candidates evs) = length hosts" using c cands by (metis length_map)
  have p: "unat (priority (candidates evs ! k)) = 2130706431 - k * 256" if "k < length hosts" for k
  proof -
    have "priority (candidates evs ! k) = map priority (candidates evs1) ! k"
      using that len by (simp add: cands)
    also have "\<dots> = ice_priority ICE_HOST_TYPE_PREFERENCE
        (saturating_sub ICE_LOCAL_PREFERENCE_BASE (of_nat k))"
      using that c by simp
    finally show ?thesis using host_priority [of k] that assms(2) by simp
  qed
  have "sorted_wrt (\<lambda>c d. priority d < priority c) (candidates evs)"
    unfolding sorted_wrt_iff_nth_less len
  proof (intro allI impI)
    fix i j
    assume "i < j" "j < length hosts"
    with p [of i] p [of j] assms(2)
    show "priority (candidates evs ! j) < priority (candidates evs ! i)"
      by (simp add: word_less_nat_alt)
  qed
  moreover have "priority (ice_server_reflexive a f) < priority c" if "c \<in> set (candidates evs)" for c
  proof -
    from that obtain k where "k < length hosts" "c = candidates evs ! k"
      by (metis in_set_conv_nth len)
    with p assms(2) show ?thesis by (simp add: word_less_nat_alt other_priorities)
  qed
  ultimately show ?thesis
    using c cands by (simp add: word_less_nat_alt other_priorities)
qed

end
