(* ===== verification/Tier.thy ===== *)
theory Tier
  imports Prelude
begin

text \<open>
  The governor's quality tier: \<open>core/platform/src/tier.rs\<close>, the fast downgrade guard
  (\<open>tier_downgrade_guard.rs\<close>), the held upgrade guard (\<open>tier_upgrade_guard.rs\<close>) and the emitter
  that combines them once per 10 Hz tick (\<open>tier_classifier.rs\<close>). Bandwidth estimates are
  \<open>u32\<close>; the hold counter stays below 50 and is a natural number.

  The lemmas characterise every change of tier by the bandwidth samples before it and show
  that under a steady bandwidth the tier settles, within 150 ticks, where the floors and the
  hysteresis say.
\<close>

section \<open>Tiers and their order\<close>

datatype tier_state = Survival | Constrained | Comfortable | Full

fun tier_rank :: "tier_state \<Rightarrow> nat" where
  "tier_rank Survival = 0"
| "tier_rank Constrained = 1"
| "tier_rank Comfortable = 2"
| "tier_rank Full = 3"

lemma tier_rank_inject: "tier_rank a = tier_rank b \<longleftrightarrow> a = b"
  by (cases a; cases b) simp_all

instantiation tier_state :: linorder
begin

definition less_eq_tier_state :: "tier_state \<Rightarrow> tier_state \<Rightarrow> bool" where
  "less_eq_tier_state a b \<longleftrightarrow> tier_rank a \<le> tier_rank b"

definition less_tier_state :: "tier_state \<Rightarrow> tier_state \<Rightarrow> bool" where
  "less_tier_state a b \<longleftrightarrow> tier_rank a < tier_rank b"

instance
  by standard (auto simp: less_eq_tier_state_def less_tier_state_def tier_rank_inject)

end

definition cpu_ceiling_active :: "tier_state \<Rightarrow> bool" where
  "cpu_ceiling_active t \<longleftrightarrow> t = Constrained \<or> t = Survival"

section \<open>The downgrade guard\<close>

definition CONSTRAINED_FLOOR_BPS :: u32 where "CONSTRAINED_FLOOR_BPS = 64000"
definition COMFORTABLE_FLOOR_BPS :: u32 where "COMFORTABLE_FLOOR_BPS = 128000"
definition FULL_FLOOR_BPS :: u32 where "FULL_FLOOR_BPS = 256000"

fun tier_floor_bps :: "tier_state \<Rightarrow> u32 option" where
  "tier_floor_bps Survival = None"
| "tier_floor_bps Constrained = Some CONSTRAINED_FLOOR_BPS"
| "tier_floor_bps Comfortable = Some COMFORTABLE_FLOOR_BPS"
| "tier_floor_bps Full = Some FULL_FLOOR_BPS"

definition downgrade_trigger_bps :: "tier_state \<Rightarrow> u32 option" where
  "downgrade_trigger_bps t = map_option (\<lambda>floor. floor * 4 div 5) (tier_floor_bps t)"

fun tier_step_down :: "tier_state \<Rightarrow> tier_state" where
  "tier_step_down Full = Comfortable"
| "tier_step_down Comfortable = Constrained"
| "tier_step_down Constrained = Survival"
| "tier_step_down Survival = Survival"

definition downgrade_observe :: "tier_state \<Rightarrow> u32 \<Rightarrow> tier_state" where
  "downgrade_observe current bwe =
     (case downgrade_trigger_bps current of
        None \<Rightarrow> current
      | Some trigger \<Rightarrow> if bwe < trigger then tier_step_down current else current)"

section \<open>The upgrade guard\<close>

definition UPGRADE_HOLD_TICKS :: nat where "UPGRADE_HOLD_TICKS = 50"

record tier_upgrade_guard =
  hold_ticks :: nat

definition upgrade_guard_new :: tier_upgrade_guard where
  "upgrade_guard_new = \<lparr>hold_ticks = 0\<rparr>"

fun tier_step_up :: "tier_state \<Rightarrow> tier_state option" where
  "tier_step_up Survival = Some Constrained"
| "tier_step_up Constrained = Some Comfortable"
| "tier_step_up Comfortable = Some Full"
| "tier_step_up Full = None"

definition upgrade_observe ::
  "tier_upgrade_guard \<Rightarrow> tier_state \<Rightarrow> tier_state \<Rightarrow> tier_state \<times> tier_upgrade_guard" where
  "upgrade_observe g current candidate =
     (case tier_step_up current of
        None \<Rightarrow> (current, g\<lparr>hold_ticks := 0\<rparr>)
      | Some next_tier \<Rightarrow>
          if next_tier \<le> candidate then
            (let g' = g\<lparr>hold_ticks := hold_ticks g + 1\<rparr> in
             if UPGRADE_HOLD_TICKS \<le> hold_ticks g' then (next_tier, g'\<lparr>hold_ticks := 0\<rparr>)
             else (current, g'))
          else (current, g\<lparr>hold_ticks := 0\<rparr>))"

section \<open>Classification and emission\<close>

definition classify_bwe_tier :: "u32 \<Rightarrow> tier_state" where
  "classify_bwe_tier bwe =
     (if FULL_FLOOR_BPS \<le> bwe then Full
      else if COMFORTABLE_FLOOR_BPS \<le> bwe then Comfortable
      else if CONSTRAINED_FLOOR_BPS \<le> bwe then Constrained
      else Survival)"

record governor_tier_emitter =
  gte_upgrade_guard :: tier_upgrade_guard

definition governor_new :: governor_tier_emitter where
  "governor_new = \<lparr>gte_upgrade_guard = upgrade_guard_new\<rparr>"

definition governor_tick ::
  "governor_tier_emitter \<Rightarrow> tier_state \<Rightarrow> u32 \<Rightarrow> tier_state \<times> governor_tier_emitter" where
  "governor_tick e current bwe =
     (let candidate = classify_bwe_tier bwe;
          after_downgrade = downgrade_observe current bwe in
      if after_downgrade < current
      then (after_downgrade, e\<lparr>gte_upgrade_guard := upgrade_guard_new\<rparr>)
      else
        (let (t, g) = upgrade_observe (gte_upgrade_guard e) current candidate in
         (t, e\<lparr>gte_upgrade_guard := g\<rparr>)))"

definition upgrade_hold_ticks :: "governor_tier_emitter \<Rightarrow> nat" where
  "upgrade_hold_ticks e = hold_ticks (gte_upgrade_guard e)"

text \<open>The governor's loop: the emitted tier is passed back on the next tick.\<close>

fun governor_run ::
  "governor_tier_emitter \<times> tier_state \<Rightarrow> u32 list \<Rightarrow> governor_tier_emitter \<times> tier_state" where
  "governor_run s [] = s"
| "governor_run (e, t) (b # bs) = (let (t', e') = governor_tick e t b in governor_run (e', t') bs)"

section \<open>Thresholds\<close>

lemmas tier_consts = CONSTRAINED_FLOOR_BPS_def COMFORTABLE_FLOOR_BPS_def FULL_FLOOR_BPS_def

text \<open>The trigger of the table: four fifths of the floor, without wrap-around.\<close>

fun trigger :: "tier_state \<Rightarrow> nat" where
  "trigger Survival = 0"
| "trigger Constrained = 51200"
| "trigger Comfortable = 102400"
| "trigger Full = 204800"

fun floor_bps :: "tier_state \<Rightarrow> nat" where
  "floor_bps Survival = 0"
| "floor_bps Constrained = 64000"
| "floor_bps Comfortable = 128000"
| "floor_bps Full = 256000"

lemma downgrade_observe_eq:
  "downgrade_observe t bwe = (if unat bwe < trigger t then tier_step_down t else t)"
  by (cases t) (simp_all add: downgrade_observe_def downgrade_trigger_bps_def tier_consts
      word_less_nat_alt)

lemma le_classify_iff: "t \<le> classify_bwe_tier bwe \<longleftrightarrow> floor_bps t \<le> unat bwe"
  by (cases t) (auto simp: classify_bwe_tier_def tier_consts word_le_nat_alt
      less_eq_tier_state_def)

lemma tier_step_up_Some: "tier_step_up t = Some u \<Longrightarrow> t < u \<and> tier_rank u = Suc (tier_rank t)"
  by (cases t) (auto simp: less_tier_state_def)

lemma tier_step_down_less: "t \<noteq> Survival \<Longrightarrow> tier_step_down t < t"
  by (cases t) (auto simp: less_tier_state_def)

lemma trigger_pos: "unat (bwe :: u32) < trigger t \<Longrightarrow> t \<noteq> Survival"
  by (cases t) auto

text \<open>One tick, by cases on the sample.\<close>

lemma governor_tick_down:
  "unat bwe < trigger t \<Longrightarrow> governor_tick e t bwe = (tier_step_down t, governor_new)"
  by (cases e) (auto simp: governor_tick_def downgrade_observe_eq Let_def tier_step_down_less
      governor_new_def dest: trigger_pos)

lemma governor_tick_up:
  assumes "trigger t \<le> unat bwe" "tier_step_up t = Some u" "floor_bps u \<le> unat bwe"
  shows "governor_tick e t bwe =
    (if UPGRADE_HOLD_TICKS \<le> Suc (upgrade_hold_ticks e) then (u, governor_new)
     else (t, \<lparr>gte_upgrade_guard = \<lparr>hold_ticks = Suc (upgrade_hold_ticks e)\<rparr>\<rparr>))"
  using assms
  by (cases e) (auto simp: governor_tick_def downgrade_observe_eq Let_def upgrade_observe_def
      le_classify_iff upgrade_hold_ticks_def governor_new_def upgrade_guard_new_def)

lemma governor_tick_stay:
  assumes "trigger t \<le> unat bwe" "\<And>u. tier_step_up t = Some u \<Longrightarrow> unat bwe < floor_bps u"
  shows "governor_tick e t bwe = (t, governor_new)"
  using assms
  by (cases e; cases "tier_step_up t")
    (auto simp: governor_tick_def downgrade_observe_eq Let_def upgrade_observe_def
      le_classify_iff governor_new_def upgrade_guard_new_def)

lemma governor_tick_cases:
  obtains (down) "unat bwe < trigger t"
  | (up) u where "trigger t \<le> unat bwe" "tier_step_up t = Some u" "floor_bps u \<le> unat bwe"
  | (stay) "trigger t \<le> unat bwe" "\<And>u. tier_step_up t = Some u \<Longrightarrow> unat bwe < floor_bps u"
  by (metis not_less option.inject)

section \<open>Every change of tier is justified by the samples before it\<close>

lemma governor_run_append: "governor_run s (bs @ cs) = governor_run (governor_run s bs) cs"
  by (induction bs arbitrary: s) (auto simp: Let_def split: prod.splits)

lemma hold_governor_new [simp]: "upgrade_hold_ticks governor_new = 0"
  by (simp add: upgrade_hold_ticks_def governor_new_def upgrade_guard_new_def)

text \<open>The last \<open>h\<close> samples held the floor of the next tier and the tier did not change.\<close>

definition held :: "tier_state \<Rightarrow> u32 list \<Rightarrow> nat \<Rightarrow> tier_state \<Rightarrow> bool" where
  "held start bs h t \<longleftrightarrow>
     h \<le> length bs \<and>
     (\<forall>u. tier_step_up t = Some u \<longrightarrow>
        (\<forall>x\<in>set (drop (length bs - h) bs). floor_bps u \<le> unat x)) \<and>
     (\<forall>k\<le>h. snd (governor_run (governor_new, start) (take (length bs - k) bs)) = t)"

lemma held_0: "snd (governor_run (governor_new, start) bs) = t \<Longrightarrow> held start bs 0 t"
  by (simp add: held_def)

lemma held_Suc:
  assumes "held start bs h t" "tier_step_up t = Some u" "floor_bps u \<le> unat b"
    and "snd (governor_run (governor_new, start) (bs @ [b])) = t"
  shows "held start (bs @ [b]) (Suc h) t"
proof -
  have "snd (governor_run (governor_new, start) (take (length (bs @ [b]) - k) (bs @ [b]))) = t"
    if "k \<le> Suc h" for k
    using assms(1,4) that by (cases k) (auto simp: held_def)
  then show ?thesis using assms(1-3) by (auto simp: held_def)
qed

lemma governor_run_held:
  "governor_run (governor_new, start) bs = (e, t) \<Longrightarrow>
     upgrade_hold_ticks e < UPGRADE_HOLD_TICKS \<and> held start bs (upgrade_hold_ticks e) t"
proof (induction bs arbitrary: e t rule: rev_induct)
  case Nil
  then show ?case by (auto simp: UPGRADE_HOLD_TICKS_def held_def)
next
  case (snoc b bs)
  obtain e0 t0 where r: "governor_run (governor_new, start) bs = (e0, t0)" by fastforce
  note IH = snoc.IH [OF r]
  have tick: "governor_tick e0 t0 b = (t, e)"
    using snoc.prems by (auto simp: governor_run_append r Let_def split: prod.splits)
  have end_tier: "snd (governor_run (governor_new, start) (bs @ [b])) = t"
    using snoc.prems by simp
  have fresh: "e = governor_new \<Longrightarrow> ?case"
    using held_0 [OF end_tier] by (simp add: UPGRADE_HOLD_TICKS_def)
  show ?case
  proof (cases rule: governor_tick_cases [of b t0])
    case down
    with tick fresh show ?thesis by (simp add: governor_tick_down)
  next
    case (up u)
    show ?thesis
    proof (cases "UPGRADE_HOLD_TICKS \<le> Suc (upgrade_hold_ticks e0)")
      case True
      with tick fresh governor_tick_up [OF up, of e0] show ?thesis by simp
    next
      case False
      with tick governor_tick_up [OF up, of e0] have
        e: "t = t0" "upgrade_hold_ticks e = Suc (upgrade_hold_ticks e0)"
        by (auto simp: upgrade_hold_ticks_def)
      with IH held_Suc [of start bs "upgrade_hold_ticks e0" t0 u b] up end_tier False
      show ?thesis by simp
    qed
  next
    case stay
    with tick fresh show ?thesis by (simp add: governor_tick_stay)
  qed
qed

text \<open>
  C38: The governor changes the tier only for a reason in the bandwidth samples, one step at a
  time. A step down happens on exactly those ticks whose sample is below four fifths of the
  current tier's floor. A step up happens only when this sample and the 49 before it all
  reached the floor of the next tier, with the tier unchanged for those 49 ticks.
\<close>

theorem tier_changes_are_justified:
  assumes "governor_run (governor_new, start) bs = (e, t)" "governor_tick e t b = (t', e')"
  shows "(t' < t \<longleftrightarrow> unat b < trigger t) \<and>
    (t' < t \<longrightarrow> t' = tier_step_down t) \<and>
    (t < t' \<longrightarrow> tier_step_up t = Some t' \<and> 49 \<le> length bs \<and>
       (\<forall>x\<in>set (drop (length bs - 49) bs @ [b]). floor_bps t' \<le> unat x) \<and>
       (\<forall>k\<le>49. snd (governor_run (governor_new, start) (take (length bs - k) bs)) = t))"
proof (cases rule: governor_tick_cases [of b t])
  case down
  have "t' = tier_step_down t" using assms(2) by (simp add: governor_tick_down [OF down])
  moreover have "tier_step_down t < t" by (rule tier_step_down_less [OF trigger_pos [OF down]])
  ultimately show ?thesis using down by auto
next
  case (up u)
  note run = governor_run_held [OF assms(1)]
  show ?thesis
  proof (cases "UPGRADE_HOLD_TICKS \<le> Suc (upgrade_hold_ticks e)")
    case True
    then have "upgrade_hold_ticks e = 49" using run by (simp add: UPGRADE_HOLD_TICKS_def)
    moreover have "t' = u" using True assms(2) by (simp add: governor_tick_up [OF up])
    ultimately show ?thesis
      using run up tier_step_up_Some [OF up(2)] by (auto simp: held_def)
  next
    case False
    then have "t' = t" using assms(2) by (simp add: governor_tick_up [OF up])
    then show ?thesis using up by simp
  qed
next
  case stay
  then have "t' = t" using assms(2) by (simp add: governor_tick_stay)
  then show ?thesis using stay by simp
qed

theorem tier_changes_are_justified_witness:
  "fst (governor_tick governor_new Full 204799) < Full"
proof -
  have "governor_run (governor_new, Full) [] = (governor_new, Full)" by simp
  from tier_changes_are_justified [OF this surjective_pairing [of "governor_tick governor_new Full 204799"]]
  show ?thesis by simp
qed

section \<open>A steady bandwidth settles the tier\<close>

text \<open>Where the fast downgrade stops: the first tier from \<open>t\<close> down whose trigger holds.\<close>

function descend :: "tier_state \<Rightarrow> nat \<Rightarrow> tier_state" where
  "descend t b = (if b < trigger t then descend (tier_step_down t) b else t)"
  by auto

termination
proof (relation "measure (tier_rank \<circ> fst)")
  fix t b
  assume "b < trigger t"
  then show "((tier_step_down t, b), (t, b)) \<in> measure (tier_rank \<circ> fst)"
    by (cases t) simp_all
qed simp

declare descend.simps [simp del]

lemma run_stay:
  assumes "trigger t \<le> unat b" "\<And>u. tier_step_up t = Some u \<Longrightarrow> unat b < floor_bps u"
  shows "governor_run (governor_new, t) (replicate n b) = (governor_new, t)"
  by (induction n) (simp_all add: governor_tick_stay [OF assms])

lemma run_hold:
  assumes "trigger t \<le> unat b" "tier_step_up t = Some u" "floor_bps u \<le> unat b"
    and "h + n < UPGRADE_HOLD_TICKS"
  shows "governor_run (\<lparr>gte_upgrade_guard = \<lparr>hold_ticks = h\<rparr>\<rparr>, t) (replicate n b) =
     (\<lparr>gte_upgrade_guard = \<lparr>hold_ticks = h + n\<rparr>\<rparr>, t)"
  using assms(4)
proof (induction n arbitrary: h)
  case 0
  then show ?case by simp
next
  case (Suc n)
  from Suc.prems have h: "\<not> UPGRADE_HOLD_TICKS \<le> Suc h" "Suc h + n < UPGRADE_HOLD_TICKS" by simp_all
  from Suc.IH [OF h(2)] h(1) show ?case
    by (simp add: governor_tick_up [OF assms(1-3)] upgrade_hold_ticks_def)
qed

lemma run_upgrade:
  assumes "trigger t \<le> unat b" "tier_step_up t = Some u" "floor_bps u \<le> unat b"
  shows "governor_run (governor_new, t) (replicate 50 b) = (governor_new, u)"
proof -
  have r: "replicate 50 b = replicate 49 b @ [b]"
    using replicate_append_same [of 49 b] by (simp flip: replicate_Suc)
  have "governor_new = \<lparr>gte_upgrade_guard = \<lparr>hold_ticks = 0\<rparr>\<rparr>"
    by (simp add: governor_new_def upgrade_guard_new_def)
  then have "governor_run (governor_new, t) (replicate 49 b) =
      (\<lparr>gte_upgrade_guard = \<lparr>hold_ticks = 49\<rparr>\<rparr>, t)"
    using run_hold [OF assms, of 0 49] by (simp add: UPGRADE_HOLD_TICKS_def)
  then show ?thesis
    unfolding r governor_run_append
    by (simp add: governor_tick_up [OF assms] upgrade_hold_ticks_def UPGRADE_HOLD_TICKS_def)
qed

text \<open>Runs of a steady sample compose by their lengths.\<close>

lemma run_compose:
  "\<lbrakk>governor_run s (replicate m b) = s'; governor_run s' (replicate n b) = s''\<rbrakk> \<Longrightarrow>
     governor_run s (replicate (m + n) b) = s''"
  by (simp add: replicate_add governor_run_append)

lemma trigger_le_floor: "trigger t \<le> floor_bps t"
  by (cases t) simp_all

lemma run_climb:
  assumes "t \<le> classify_bwe_tier b"
  shows "governor_run (governor_new, t)
     (replicate (50 * (tier_rank (classify_bwe_tier b) - tier_rank t)) b) =
     (governor_new, classify_bwe_tier b)"
  using assms
proof (induction "tier_rank (classify_bwe_tier b) - tier_rank t" arbitrary: t)
  case 0
  then have "t = classify_bwe_tier b" by (simp add: less_eq_tier_state_def tier_rank_inject)
  then show ?case by simp
next
  case (Suc n)
  let ?c = "classify_bwe_tier b"
  from Suc.hyps(2) obtain u where u: "tier_step_up t = Some u" and le: "u \<le> ?c"
    by (cases t; cases ?c) (auto simp: less_eq_tier_state_def)
  have rank: "tier_rank u = Suc (tier_rank t)" using tier_step_up_Some [OF u] by simp
  have n: "n = tier_rank ?c - tier_rank u" using Suc.hyps(2) rank by simp
  have "trigger t \<le> unat b"
    using Suc.prems trigger_le_floor [of t] by (simp add: le_classify_iff)
  moreover have "floor_bps u \<le> unat b" using le by (simp add: le_classify_iff)
  ultimately have "governor_run (governor_new, t) (replicate 50 b) = (governor_new, u)"
    using u by (simp add: run_upgrade)
  from run_compose [OF this Suc.hyps(1) [OF n le]]
  have "governor_run (governor_new, t) (replicate (50 + 50 * n) b) = (governor_new, ?c)"
    by (simp add: n)
  then show ?case by (simp only: Suc.hyps(2) [symmetric] mult_Suc_right)
qed

lemma tier_rank_step_down: "b < trigger t \<Longrightarrow> tier_rank t = Suc (tier_rank (tier_step_down t))"
  by (cases t) simp_all

lemma run_descend:
  "\<exists>n\<le>tier_rank t.
     governor_run (governor_new, t) (replicate n b) = (governor_new, descend t (unat b))"
proof (induction t "unat b" rule: descend.induct)
  case (1 t)
  show ?case
  proof (cases "unat b < trigger t")
    case True
    from 1 [OF this] obtain n where n: "n \<le> tier_rank (tier_step_down t)"
      "governor_run (governor_new, tier_step_down t) (replicate n b) =
         (governor_new, descend (tier_step_down t) (unat b))"
      by blast
    have "governor_run (governor_new, t) (replicate (Suc n) b) =
        (governor_new, descend t (unat b))"
      using True n(2) by (simp add: governor_tick_down descend.simps [of t])
    then show ?thesis
      using n(1) tier_rank_step_down [OF True] by (intro exI [of _ "Suc n"]) simp
  next
    case False
    then show ?thesis by (intro exI [of _ 0]) (simp add: descend.simps)
  qed
qed

text \<open>The descent stops where the tier stays, and never below the classified tier.\<close>

lemma descend_trigger: "trigger (descend t b) \<le> b"
proof (induction t b rule: descend.induct)
  case (1 t b)
  then show ?case by (subst descend.simps) (cases "b < trigger t"; simp)
qed

lemma descend_le: "descend t b \<le> t"
proof (induction t b rule: descend.induct)
  case (1 t b)
  show ?case
  proof (cases "b < trigger t")
    case True
    then have "tier_step_down t \<le> t" by (cases t) (simp_all add: less_eq_tier_state_def)
    with 1 True show ?thesis by (simp add: descend.simps [of t] order.trans)
  qed (simp add: descend.simps)
qed

lemma descend_ge_classify: "classify_bwe_tier b \<le> t \<Longrightarrow> classify_bwe_tier b \<le> descend t (unat b)"
proof (induction t "unat b" rule: descend.induct)
  case (1 t)
  show ?case
  proof (cases "unat b < trigger t")
    case True
    then have "\<not> t \<le> classify_bwe_tier b"
      using trigger_le_floor [of t] by (simp add: le_classify_iff)
    then have "classify_bwe_tier b \<le> tier_step_down t"
      by (cases t; cases "classify_bwe_tier b") (auto simp: less_eq_tier_state_def)
    with 1 True show ?thesis by (simp add: descend.simps [of t])
  next
    case False
    with 1 show ?thesis by (simp add: descend.simps)
  qed
qed

lemma classify_next: "tier_step_up t = Some u \<Longrightarrow> classify_bwe_tier b \<le> t \<Longrightarrow> unat b < floor_bps u"
  using tier_step_up_Some [of t u] le_classify_iff [of u b]
  by (meson leD le_less_trans not_le_imp_less)

text \<open>
  C39: Under a steady bandwidth estimate the emitted tier settles. From any starting tier with
  a fresh emitter it is constant from tick 150 on: it is the tier the bandwidth classifies to,
  or a higher one that the start tier's descent stopped at because its trigger, four fifths of
  its floor, still holds (the hysteresis). So the governor neither oscillates nor stays below
  what a steady link sustains.
\<close>

theorem tier_settles:
  assumes "150 \<le> n"
  shows "snd (governor_run (governor_new, t) (replicate n b)) =
      max (classify_bwe_tier b) (descend t (unat b)) \<and>
    trigger (snd (governor_run (governor_new, t) (replicate n b))) \<le> unat b"
proof -
  let ?c = "classify_bwe_tier b" and ?d = "descend t (unat b)"
  have settled: "governor_run (governor_new, t) (replicate n b) = (governor_new, x)"
    if "governor_run (governor_new, t) (replicate k b) = (governor_new, x)" "k \<le> n"
      "trigger x \<le> unat b" "\<And>u. tier_step_up x = Some u \<Longrightarrow> unat b < floor_bps u" for k x
    using run_compose [OF that(1) run_stay [OF that(3,4)], of "n - k"] that(2) by simp
  show ?thesis
  proof (cases "t \<le> ?c")
    case True
    have "50 * (tier_rank ?c - tier_rank t) \<le> n"
      using assms by (cases ?c) auto
    moreover have "trigger ?c \<le> unat b"
      using trigger_le_floor [of ?c] le_classify_iff [of ?c b] by simp
    ultimately have "governor_run (governor_new, t) (replicate n b) = (governor_new, ?c)"
      using settled [OF run_climb [OF True]] classify_next [of ?c _ b] by blast
    then show ?thesis
      using \<open>trigger ?c \<le> unat b\<close> descend_le [of t "unat b"] True
      by (simp add: max_absorb1)
  next
    case False
    obtain k where k: "k \<le> tier_rank t"
      "governor_run (governor_new, t) (replicate k b) = (governor_new, ?d)"
      using run_descend by blast
    have "k \<le> n" using k(1) assms by (cases t) auto
    moreover have "?c \<le> ?d" using False by (intro descend_ge_classify) simp
    ultimately have "governor_run (governor_new, t) (replicate n b) = (governor_new, ?d)"
      using settled [OF k(2)] descend_trigger classify_next [of ?d _ b] by blast
    then show ?thesis using \<open>?c \<le> ?d\<close> descend_trigger by (simp add: max_absorb2)
  qed
qed

theorem tier_settles_witness:
  "snd (governor_run (governor_new, Survival) (replicate 150 300000)) = Full"
proof -
  have "(150 :: nat) \<le> 150" by simp
  from tier_settles [OF this, of Survival 300000] show ?thesis
    by (simp add: classify_bwe_tier_def tier_consts descend.simps max_def less_eq_tier_state_def)
qed

end
