(* ===== verification/Rust_Str.thy ===== *)
theory Rust_Str
  imports Prelude
begin

text \<open>
  The parts of Rust's \<open>str\<close> and \<open>char\<close> that the sources use. A string is the list of its
  Unicode scalar values; \<open>len\<close> counts the bytes of its UTF-8 encoding. \<open>is_whitespace\<close> is the
  \<open>White_Space\<close> property and \<open>is_control\<close> the category \<open>Cc\<close>, as the standard library defines
  them.
\<close>

type_synonym rust_char = nat
type_synonym rust_str = "rust_char list"

definition char_len_utf8 :: "rust_char \<Rightarrow> nat" where
  "char_len_utf8 c = (if c < 128 then 1 else if c < 2048 then 2 else if c < 65536 then 3 else 4)"

definition str_len :: "rust_str \<Rightarrow> nat" where
  "str_len s = sum_list (map char_len_utf8 s)"

definition char_is_whitespace :: "rust_char \<Rightarrow> bool" where
  "char_is_whitespace c \<longleftrightarrow>
     9 \<le> c \<and> c \<le> 13 \<or> c = 32 \<or> c = 133 \<or> c = 160 \<or> c = 5760 \<or>
     8192 \<le> c \<and> c \<le> 8202 \<or> c = 8232 \<or> c = 8233 \<or> c = 8239 \<or> c = 8287 \<or> c = 12288"

definition char_is_control :: "rust_char \<Rightarrow> bool" where
  "char_is_control c \<longleftrightarrow> c < 32 \<or> 127 \<le> c \<and> c < 160"

definition str_trim :: "rust_str \<Rightarrow> rust_str" where
  "str_trim s = rev (dropWhile char_is_whitespace (rev (dropWhile char_is_whitespace s)))"

fun str_contains :: "rust_str \<Rightarrow> rust_str \<Rightarrow> bool" where
  "str_contains pat [] \<longleftrightarrow> pat = []"
| "str_contains pat (c # s) \<longleftrightarrow> take (length pat) (c # s) = pat \<or> str_contains pat s"

lemma str_len_ge_length: "length s \<le> str_len s"
  by (induction s) (auto simp: str_len_def char_len_utf8_def)

lemma str_len_append: "str_len (s @ t) = str_len s + str_len t"
  by (simp add: str_len_def)

lemma str_len_ascii: "(\<And>c. c \<in> set s \<Longrightarrow> c < 128) \<Longrightarrow> str_len s = length s"
  by (induction s) (auto simp: str_len_def char_len_utf8_def)

lemma str_contains_iff: "str_contains pat s \<longleftrightarrow> (\<exists>u v. s = u @ pat @ v)"
proof (induction s)
  case Nil
  then show ?case by auto
next
  case (Cons c s)
  have "(\<exists>u v. c # s = u @ pat @ v) \<longleftrightarrow>
      (\<exists>v. c # s = pat @ v) \<or> (\<exists>u v. s = u @ pat @ v)"
    by (metis append_Cons append_Nil list.inject neq_Nil_conv)
  moreover have "(\<exists>v. c # s = pat @ v) \<longleftrightarrow> take (length pat) (c # s) = pat"
    by (metis append_eq_conv_conj append_take_drop_id)
  ultimately show ?case using Cons by simp
qed

lemma dropWhile_id_hd:
  "s \<noteq> [] \<Longrightarrow> dropWhile P s = s \<Longrightarrow> \<not> P (hd s)"
  by (cases s) (auto split: if_splits dest: arg_cong [where f = length] simp: length_dropWhile_le
      impossible_Cons)

text \<open>A string equal to its trimmed form starts and ends with visible characters.\<close>

lemma str_trim_fixed:
  assumes "s \<noteq> []" "str_trim s = s"
  shows "\<not> char_is_whitespace (hd s)" "\<not> char_is_whitespace (last s)"
proof -
  let ?d = "dropWhile char_is_whitespace s"
  have len: "length (str_trim s) \<le> length ?d"
    unfolding str_trim_def by (metis length_dropWhile_le length_rev)
  then have "length ?d = length s"
    using assms(2) length_dropWhile_le [of char_is_whitespace s] by simp
  then have d: "?d = s"
    by (metis append_self_conv2 length_0_conv add_cancel_left_left length_append takeWhile_dropWhile_id)
  then show "\<not> char_is_whitespace (hd s)" using dropWhile_id_hd assms(1) by blast
  from assms(2) d have "dropWhile char_is_whitespace (rev s) = rev s"
    by (metis rev_rev_ident str_trim_def)
  then show "\<not> char_is_whitespace (last s)"
    using dropWhile_id_hd [of "rev s"] assms(1) by (simp add: hd_rev)
qed

section \<open>UTF-8\<close>

text \<open>A \<open>char\<close> is a Unicode scalar value: no surrogate, at most \<open>0x10FFFF\<close>.\<close>

definition valid_char :: "rust_char \<Rightarrow> bool" where
  "valid_char c \<longleftrightarrow> c < 0xD800 \<or> 0xE000 \<le> c \<and> c \<le> 0x10FFFF"

definition valid_str :: "rust_str \<Rightarrow> bool" where
  "valid_str s \<longleftrightarrow> list_all valid_char s"

text \<open>\<open>str::as_bytes\<close>.\<close>

definition byte_of :: "nat \<Rightarrow> u8" where
  "byte_of n = of_nat n"

definition char_encode_utf8 :: "rust_char \<Rightarrow> bytes" where
  "char_encode_utf8 c =
     (if c < 128 then [byte_of c]
      else if c < 2048 then [byte_of (192 + c div 64), byte_of (128 + c mod 64)]
      else if c < 65536 then
        [byte_of (224 + c div 4096), byte_of (128 + c div 64 mod 64), byte_of (128 + c mod 64)]
      else
        [byte_of (240 + c div 262144), byte_of (128 + c div 4096 mod 64),
         byte_of (128 + c div 64 mod 64), byte_of (128 + c mod 64)])"

definition str_as_bytes :: "rust_str \<Rightarrow> bytes" where
  "str_as_bytes s = concat (map char_encode_utf8 s)"

text \<open>
  \<open>str::from_utf8\<close>: continuation bytes carry six bits, overlong forms, surrogates and values
  past \<open>0x10FFFF\<close> are refused.
\<close>

definition cont :: "u8 \<Rightarrow> bool" where
  "cont b \<longleftrightarrow> 128 \<le> unat b \<and> unat b < 192"

definition six :: "u8 \<Rightarrow> nat" where
  "six b = unat b - 128"

fun str_from_utf8 :: "bytes \<Rightarrow> rust_str option" where
  "str_from_utf8 [] = Some []"
| "str_from_utf8 (b # bs) =
     (if unat b < 128 then map_option ((#) (unat b)) (str_from_utf8 bs)
      else if unat b < 194 then None
      else if unat b < 224 then
        (case bs of
           b1 # r \<Rightarrow>
             if cont b1
             then map_option ((#) ((unat b - 192) * 64 + six b1)) (str_from_utf8 r)
             else None
         | _ \<Rightarrow> None)
      else if unat b < 240 then
        (case bs of
           b1 # b2 # r \<Rightarrow>
             let c = (unat b - 224) * 4096 + six b1 * 64 + six b2 in
             if cont b1 \<and> cont b2 \<and> 2048 \<le> c \<and> valid_char c
             then map_option ((#) c) (str_from_utf8 r)
             else None
         | _ \<Rightarrow> None)
      else if unat b < 245 then
        (case bs of
           b1 # b2 # b3 # r \<Rightarrow>
             let c = (unat b - 240) * 262144 + six b1 * 4096 + six b2 * 64 + six b3 in
             if cont b1 \<and> cont b2 \<and> cont b3 \<and> 65536 \<le> c \<and> valid_char c
             then map_option ((#) c) (str_from_utf8 r)
             else None
         | _ \<Rightarrow> None)
      else None)"

lemma unat_byte_of [simp]: "n < 256 \<Longrightarrow> unat (byte_of n) = n"
  by (simp add: byte_of_def unsigned_of_nat take_bit_nat_eq_self)

lemma byte_of_unat [simp]: "byte_of (unat b) = b"
  by (simp add: byte_of_def)

lemma cont_byte_of: "k < 64 \<Longrightarrow> cont (byte_of (128 + k)) \<and> six (byte_of (128 + k)) = k"
  by (simp add: cont_def six_def)

lemma byte_of_six: "cont b \<Longrightarrow> byte_of (128 + six b) = b \<and> six b < 64"
  by (auto simp: cont_def six_def)

lemma length_char_encode_utf8 [simp]: "length (char_encode_utf8 c) = char_len_utf8 c"
  by (simp add: char_encode_utf8_def char_len_utf8_def)

lemma length_str_as_bytes [simp]: "length (str_as_bytes s) = str_len s"
  by (induction s) (simp_all add: str_as_bytes_def str_len_def)

lemma str_as_bytes_Cons: "str_as_bytes (c # s) = char_encode_utf8 c @ str_as_bytes s"
  by (simp add: str_as_bytes_def)

text \<open>The digits of a code point in base 64.\<close>

lemma base64_two: "c div 64 * 64 + c mod 64 = (c :: nat)"
  by simp

lemma base64_three: "c div 4096 * 4096 + c div 64 mod 64 * 64 + c mod 64 = (c :: nat)"
proof -
  define q r where "q = c div 64" and "r = c div 4096"
  have "r * 64 + q mod 64 = q"
    using base64_two [of q] by (simp add: q_def r_def flip: div_mult2_eq)
  moreover have "q * 64 + c mod 64 = c" by (simp add: q_def)
  ultimately show ?thesis by (simp only: q_def [symmetric] r_def [symmetric])
qed

lemma base64_four:
  "c div 262144 * 262144 + c div 4096 mod 64 * 4096 + c div 64 mod 64 * 64 + c mod 64 = (c :: nat)"
proof -
  define q r where "q = c div 4096" and "r = c div 262144"
  have "r * 64 + q mod 64 = q"
    using base64_two [of q] by (simp add: q_def r_def flip: div_mult2_eq)
  moreover have "q * 4096 + c div 64 mod 64 * 64 + c mod 64 = c"
    unfolding q_def by (rule base64_three)
  ultimately show ?thesis by (simp only: q_def [symmetric] r_def [symmetric])
qed

lemma str_from_utf8_char:
  assumes "valid_char c"
  shows "str_from_utf8 (char_encode_utf8 c @ bs) = map_option ((#) c) (str_from_utf8 bs)"
proof -
  have m: "c mod 64 < 64" "c div 64 mod 64 < 64" "c div 4096 mod 64 < 64" by simp_all
  consider "c < 128" | "128 \<le> c" "c < 2048" | "2048 \<le> c" "c < 65536" | "65536 \<le> c"
    by linarith
  then show ?thesis
  proof cases
    case 1
    then show ?thesis by (simp add: char_encode_utf8_def)
  next
    case 2
    then have "2 \<le> c div 64" "c div 64 < 32" by (simp_all add: less_mult_imp_div_less)
    with 2 base64_two [of c] show ?thesis
      by (simp add: char_encode_utf8_def cont_byte_of)
  next
    case 3
    then have "c div 4096 < 16" by (simp add: less_mult_imp_div_less)
    with 3 assms base64_three [of c] show ?thesis
      by (simp add: char_encode_utf8_def cont_byte_of)
  next
    case 4
    have "c < 5 * 262144" using assms by (auto simp: valid_char_def)
    then have "c div 262144 < 5" by (rule less_mult_imp_div_less)
    with 4 assms base64_four [of c] show ?thesis
      by (simp add: char_encode_utf8_def cont_byte_of)
  qed
qed

lemma str_from_utf8_as_bytes:
  "valid_str s \<Longrightarrow> str_from_utf8 (str_as_bytes s) = Some s"
proof (induction s)
  case Nil
  then show ?case by (simp add: str_as_bytes_def)
next
  case (Cons c s)
  then show ?case by (simp add: valid_str_def str_as_bytes_Cons str_from_utf8_char)
qed

text \<open>Conversely, whatever the decoder accepts re-encodes to the same bytes.\<close>

lemma digit64: "x < 64 \<Longrightarrow> (q * 64 + x) div 64 = q" "x < 64 \<Longrightarrow> (q * 64 + x) mod 64 = (x :: nat)"
  by simp_all

lemma encode_two:
  assumes "194 \<le> unat b" "unat b < 224" "cont b1"
  defines "c \<equiv> (unat b - 192) * 64 + six b1"
  shows "char_encode_utf8 c = [b, b1] \<and> valid_char c"
proof -
  have s: "six b1 < 64" "byte_of (128 + six b1) = b1" using byte_of_six [OF assms(3)] by auto
  have d: "c div 64 = unat b - 192" "c mod 64 = six b1" using s(1) by (simp_all add: c_def)
  have "byte_of (192 + (unat b - 192)) = b" using assms(1) by simp
  moreover have "128 \<le> c" "c < 2048" using assms(1,2) s(1) unfolding c_def by linarith+
  ultimately show ?thesis using s d by (simp add: char_encode_utf8_def valid_char_def)
qed

lemma encode_three:
  fixes b b1 b2 :: u8
  defines "c \<equiv> (unat b - 224) * 4096 + six b1 * 64 + six b2"
  assumes "224 \<le> unat b" "unat b < 240" "cont b1" "cont b2" "2048 \<le> c"
  shows "char_encode_utf8 c = [b, b1, b2]"
proof -
  have s: "six b1 < 64" "byte_of (128 + six b1) = b1" "six b2 < 64" "byte_of (128 + six b2) = b2"
    using byte_of_six assms(4,5) by auto
  have e: "c = ((unat b - 224) * 64 + six b1) * 64 + six b2" by (simp add: c_def)
  have d1: "c div 64 = (unat b - 224) * 64 + six b1" "c mod 64 = six b2"
    unfolding e by (simp_all only: digit64 [OF s(3)])
  have "c div 4096 = c div 64 div 64" by (simp flip: div_mult2_eq)
  then have d2: "c div 4096 = unat b - 224" "c div 64 mod 64 = six b1"
    unfolding d1 by (simp_all only: digit64 [OF s(1)])
  have "byte_of (224 + (unat b - 224)) = b" using assms(2) by simp
  moreover have "c < 65536" using assms(3) s(1,3) unfolding c_def by linarith
  ultimately show ?thesis using s d1(2) d2 assms(6) by (simp add: char_encode_utf8_def)
qed

lemma encode_four:
  fixes b b1 b2 b3 :: u8
  defines "c \<equiv> (unat b - 240) * 262144 + six b1 * 4096 + six b2 * 64 + six b3"
  assumes "240 \<le> unat b" "cont b1" "cont b2" "cont b3" "65536 \<le> c"
  shows "char_encode_utf8 c = [b, b1, b2, b3]"
proof -
  have s: "six b1 < 64" "byte_of (128 + six b1) = b1" "six b2 < 64" "byte_of (128 + six b2) = b2"
    "six b3 < 64" "byte_of (128 + six b3) = b3"
    using byte_of_six assms(3-5) by auto
  have e: "c = (((unat b - 240) * 64 + six b1) * 64 + six b2) * 64 + six b3" by (simp add: c_def)
  have d1: "c div 64 = ((unat b - 240) * 64 + six b1) * 64 + six b2" "c mod 64 = six b3"
    unfolding e by (simp_all only: digit64 [OF s(5)])
  have "c div 4096 = c div 64 div 64" by (simp flip: div_mult2_eq)
  then have d2: "c div 4096 = (unat b - 240) * 64 + six b1" "c div 64 mod 64 = six b2"
    unfolding d1 by (simp_all only: digit64 [OF s(3)])
  have "c div 262144 = c div 4096 div 64" by (simp flip: div_mult2_eq)
  then have d3: "c div 262144 = unat b - 240" "c div 4096 mod 64 = six b1"
    unfolding d2 by (simp_all only: digit64 [OF s(1)])
  have "byte_of (240 + (unat b - 240)) = b" using assms(2) by simp
  then show ?thesis using s d1(2) d2(2) d3 assms(6) by (simp add: char_encode_utf8_def)
qed

lemma str_as_bytes_from_utf8:
  "str_from_utf8 bs = Some s \<Longrightarrow> str_as_bytes s = bs \<and> valid_str s"
proof (induction bs arbitrary: s rule: str_from_utf8.induct)
  case 1
  then show ?case by (simp add: str_as_bytes_def valid_str_def)
next
  case (2 b bs)
  consider (one) "unat b < 128" | (two) "194 \<le> unat b" "unat b < 224"
    | (three) "224 \<le> unat b" "unat b < 240" | (four) "240 \<le> unat b" "unat b < 245"
    using 2(5) by (fastforce split: if_splits)
  then show ?case
  proof cases
    case one
    with 2(5) obtain t where "str_from_utf8 bs = Some t" "s = unat b # t" by auto
    with 2(1) [OF one] one show ?thesis
      by (auto simp: str_as_bytes_Cons char_encode_utf8_def valid_str_def valid_char_def)
  next
    case two
    with 2(5) obtain b1 r t where bs: "bs = b1 # r" and c: "cont b1"
      and t: "str_from_utf8 r = Some t" "s = ((unat b - 192) * 64 + six b1) # t"
      by (auto split: list.splits if_splits)
    from 2(2) [of b1 r] two bs c t(1) have "str_as_bytes t = r \<and> valid_str t" by auto
    with encode_two [OF two c] bs t(2) show ?thesis
      by (simp add: str_as_bytes_Cons valid_str_def)
  next
    case three
    with 2(5) obtain b1 b2 r t where bs: "bs = b1 # b2 # r" and c: "cont b1" "cont b2"
      and v: "2048 \<le> (unat b - 224) * 4096 + six b1 * 64 + six b2"
        "valid_char ((unat b - 224) * 4096 + six b1 * 64 + six b2)"
      and t: "str_from_utf8 r = Some t" "s = ((unat b - 224) * 4096 + six b1 * 64 + six b2) # t"
      by (auto simp: Let_def split: list.splits if_splits)
    from 2(3) [OF _ _ _ _ bs] three bs c v t(1) have "str_as_bytes t = r \<and> valid_str t" by auto
    with encode_three [OF three c v(1)] bs v(2) t(2) show ?thesis
      by (simp add: str_as_bytes_Cons valid_str_def)
  next
    case four
    with 2(5) obtain b1 b2 b3 r t where bs: "bs = b1 # b2 # b3 # r"
      and c: "cont b1" "cont b2" "cont b3"
      and v: "65536 \<le> (unat b - 240) * 262144 + six b1 * 4096 + six b2 * 64 + six b3"
        "valid_char ((unat b - 240) * 262144 + six b1 * 4096 + six b2 * 64 + six b3)"
      and t: "str_from_utf8 r = Some t"
        "s = ((unat b - 240) * 262144 + six b1 * 4096 + six b2 * 64 + six b3) # t"
      by (auto simp: Let_def split: list.splits if_splits)
    from 2(4) [OF _ _ _ _ _ bs] four bs c v t(1) have "str_as_bytes t = r \<and> valid_str t" by auto
    with encode_four [OF four(1) c v(1)] bs v(2) t(2) show ?thesis
      by (simp add: str_as_bytes_Cons valid_str_def)
  qed
qed

end
