(* ===== verification/Codec.thy ===== *)
theory Codec
  imports Rust_Str
begin

text \<open>
  Little-endian integers and the reader interface of the binary formats. A reader takes the
  rest of a buffer and returns a value with the bytes after it, or an error. The interface
  \<open>codec\<close> states that a reader accepts exactly what its writer produces; it carries over to a
  counted sequence of items.
\<close>

section \<open>Little-endian integers\<close>

fun le_digits :: "nat \<Rightarrow> nat \<Rightarrow> bytes" where
  "le_digits 0 v = []"
| "le_digits (Suc n) v = byte_of (v mod 256) # le_digits n (v div 256)"

fun le_nat :: "bytes \<Rightarrow> nat" where
  "le_nat [] = 0"
| "le_nat (b # bs) = unat b + 256 * le_nat bs"

text \<open>\<open>to_le_bytes\<close> and \<open>from_le_bytes\<close> of an integer of \<open>n\<close> bytes.\<close>

definition to_le_bytes :: "nat \<Rightarrow> 'a::len word \<Rightarrow> bytes" where
  "to_le_bytes n w = le_digits n (unat w)"

definition from_le_bytes :: "bytes \<Rightarrow> 'a::len word" where
  "from_le_bytes bs = of_nat (le_nat bs)"

lemma length_le_digits [simp]: "length (le_digits n v) = n"
  by (induction n arbitrary: v) simp_all

lemma length_to_le_bytes [simp]: "length (to_le_bytes n w) = n"
  by (simp add: to_le_bytes_def)

lemma le_digits_add: "le_digits (m + n) v = le_digits m v @ le_digits n (v div 256 ^ m)"
  by (induction m arbitrary: v) (simp_all add: div_mult2_eq)

lemma le_nat_digits: "le_nat (le_digits n v) = v mod 256 ^ n"
proof (induction n arbitrary: v)
  case (Suc n)
  have "v mod 256 + 256 * (v div 256 mod 256 ^ n) = v mod (256 * 256 ^ n)"
    by (simp add: mod_mult2_eq)
  then show ?case by (simp add: Suc)
qed simp

lemma le_nat_bound: "le_nat bs < 256 ^ length bs"
proof (induction bs)
  case (Cons b bs)
  have "unat b < 256" by (rule unat_u8_less)
  with Cons have "unat b + 256 * le_nat bs < 256 * 256 ^ length bs" by linarith
  then show ?case by simp
qed simp

lemma le_digits_nat: "le_digits (length bs) (le_nat bs) = bs"
proof (induction bs)
  case (Cons b bs)
  have "unat b < 256" by (rule unat_u8_less)
  then have "(unat b + 256 * le_nat bs) mod 256 = unat b" "(unat b + 256 * le_nat bs) div 256 = le_nat bs"
    by simp_all
  with Cons show ?case by simp
qed simp

lemma from_to_le_bytes:
  assumes "LENGTH('a) = 8 * n"
  shows "from_le_bytes (to_le_bytes n (w :: 'a::len word)) = w"
proof -
  have "(2 :: nat) ^ LENGTH('a) = 256 ^ n" by (simp add: assms power_mult)
  then have "unat w < 256 ^ n" using unat_less_exp [of w] by simp
  then show ?thesis by (simp add: from_le_bytes_def to_le_bytes_def le_nat_digits)
qed

lemma to_from_le_bytes:
  assumes "LENGTH('a) = 8 * n" "length bs = n"
  shows "to_le_bytes n (from_le_bytes bs :: 'a::len word) = bs"
proof -
  have "(2 :: nat) ^ LENGTH('a) = 256 ^ n" by (simp add: assms power_mult)
  then have "unat (of_nat (le_nat bs) :: 'a word) = le_nat bs"
    using le_nat_bound [of bs] assms(2) by (simp add: unsigned_of_nat take_bit_nat_eq_self)
  then show ?thesis
    using le_digits_nat [of bs] assms(2) by (simp add: from_le_bytes_def to_le_bytes_def)
qed

section \<open>Readers\<close>

type_synonym ('e, 'a) reader = "bytes \<Rightarrow> 'e + 'a \<times> bytes"

text \<open>\<open>rest.split_at_checked(n).ok_or(err)?\<close> followed by \<open>*rest = tail\<close>.\<close>

definition split_at_checked :: "'e \<Rightarrow> nat \<Rightarrow> ('e, bytes) reader" where
  "split_at_checked err n rest = (if length rest < n then Inl err else Inr (take n rest, drop n rest))"

text \<open>A loop that reads \<open>n\<close> items one after the other, stopping at the first error.\<close>

fun take_many :: "('e, 'a) reader \<Rightarrow> nat \<Rightarrow> ('e, 'a list) reader" where
  "take_many get 0 rest = Inr ([], rest)"
| "take_many get (Suc n) rest =
     (case get rest of
        Inl e \<Rightarrow> Inl e
      | Inr (x, rest') \<Rightarrow>
          (case take_many get n rest' of
             Inl e \<Rightarrow> Inl e
           | Inr (xs, rest'') \<Rightarrow> Inr (x # xs, rest'')))"

lemma split_at_checked_iff:
  "split_at_checked err n bs = Inr (x, rest) \<longleftrightarrow> length x = n \<and> bs = x @ rest"
  by (auto simp: split_at_checked_def)

text \<open>
  A reader and its writer: on the writer's output for an admissible value the reader returns
  that value and the untouched rest, and it accepts nothing else.
\<close>

locale codec =
  fixes put :: "'a \<Rightarrow> bytes"
    and get :: "('e, 'a) reader"
    and ok :: "'a \<Rightarrow> bool"
  assumes get_put: "ok x \<Longrightarrow> get (put x @ rest) = Inr (x, rest)"
    and put_get: "get bs = Inr (x, rest) \<Longrightarrow> ok x \<and> bs = put x @ rest"
begin

lemma get_iff: "get bs = Inr (x, rest) \<longleftrightarrow> ok x \<and> bs = put x @ rest"
  using get_put put_get by blast

lemma take_many_iff:
  "take_many get n bs = Inr (xs, rest) \<longleftrightarrow>
     length xs = n \<and> list_all ok xs \<and> bs = concat (map put xs) @ rest"
proof (induction n arbitrary: bs xs)
  case 0
  then show ?case by auto
next
  case (Suc n)
  show ?case
  proof
    assume "take_many get (Suc n) bs = Inr (xs, rest)"
    then obtain x bs' ys where "get bs = Inr (x, bs')" "take_many get n bs' = Inr (ys, rest)"
      "xs = x # ys"
      by (auto split: sum.splits)
    then show "length xs = Suc n \<and> list_all ok xs \<and> bs = concat (map put xs) @ rest"
      by (simp add: get_iff Suc)
  next
    assume r: "length xs = Suc n \<and> list_all ok xs \<and> bs = concat (map put xs) @ rest"
    then obtain x ys where xs: "xs = x # ys" by (cases xs) auto
    have "take_many get n (concat (map put ys) @ rest) = Inr (ys, rest)"
      using r xs by (simp add: Suc)
    then show "take_many get (Suc n) bs = Inr (xs, rest)"
      using r xs by (simp add: get_put)
  qed
qed

end

text \<open>The integer readers of \<open>n\<close> bytes.\<close>

definition take_word :: "'e \<Rightarrow> nat \<Rightarrow> ('e, 'a::len word) reader" where
  "take_word err n rest =
     (case split_at_checked err n rest of
        Inl e \<Rightarrow> Inl e
      | Inr (head, tail) \<Rightarrow> Inr (from_le_bytes head, tail))"

lemma take_word_iff:
  assumes "LENGTH('a) = 8 * n"
  shows "take_word err n bs = Inr (w :: 'a::len word, rest) \<longleftrightarrow> bs = to_le_bytes n w @ rest"
proof
  assume "take_word err n bs = Inr (w, rest)"
  then obtain h where "split_at_checked err n bs = Inr (h, rest)" "w = from_le_bytes h"
    by (auto simp: take_word_def split: sum.splits)
  then show "bs = to_le_bytes n w @ rest"
    by (simp add: split_at_checked_iff to_from_le_bytes [OF assms])
next
  assume "bs = to_le_bytes n w @ rest"
  then have "split_at_checked err n bs = Inr (to_le_bytes n w, rest)"
    by (simp add: split_at_checked_iff)
  then show "take_word err n bs = Inr (w, rest)"
    by (simp add: take_word_def from_to_le_bytes [OF assms])
qed

end
