(* ===== verification/Grants.thy ===== *)
theory Grants
  imports Prelude
begin

text \<open>
  The capability tokens of \<open>core/messaging/src/grants.rs\<close>: the shared revocation handle, the
  view, control and file grants with the sessions that enforce them, and the consent grant
  that issues them together.

  A \<open>ConsentRevocationHandle\<close> is an \<open>Arc<AtomicBool>\<close>: its clones alias one flag. The flags of
  all handles are a store, a list indexed by the handle, that \<open>new\<close> extends and \<open>withdraw\<close>
  updates, and every check reads the store. \<open>Instant::now()\<close> is the argument \<open>now\<close>
  (nanoseconds of the monotonic clock); \<open>Instant + Duration\<close> panics (None) past the greatest
  representable instant, the argument \<open>max_instant\<close>.

  The interface \<open>capability_gate\<close> states what every session promises its callers about
  withdrawal, absence of a grant and expiry; the view, control and file sessions are
  interpreted here, the clipboard session in its own theory.
\<close>

section \<open>Revocation handles\<close>

type_synonym handle = nat
type_synonym flag_store = "bool list"

definition handle_new :: "flag_store \<Rightarrow> flag_store \<times> handle" where
  "handle_new st = (st @ [False], length st)"

definition handle_withdraw :: "flag_store \<Rightarrow> handle \<Rightarrow> flag_store" where
  "handle_withdraw st h = st[h := True]"

definition handle_is_withdrawn :: "flag_store \<Rightarrow> handle \<Rightarrow> bool" where
  "handle_is_withdrawn st h = (h < length st \<and> st ! h)"

text \<open>The test \<open>g.revocation.as_ref().map_or(false, |r| r.is_withdrawn())\<close> of every session.\<close>

definition revocation_withdrawn :: "flag_store \<Rightarrow> handle option \<Rightarrow> bool" where
  "revocation_withdrawn st r = (case r of None \<Rightarrow> False | Some h \<Rightarrow> handle_is_withdrawn st h)"

section \<open>Errors and instants\<close>

datatype capability_error = NoActiveGrant | GrantExpired | ConsentWithdrawn

type_synonym instant = nat

definition instant_add :: "instant \<Rightarrow> instant \<Rightarrow> nat \<Rightarrow> instant option" where
  "instant_add max_instant now d = (if now + d \<le> max_instant then Some (now + d) else None)"

section \<open>View\<close>

record view_grant =
  vg_expires_at :: "instant option"
  vg_revocation :: "handle option"

definition view_grant_new :: view_grant where
  "view_grant_new = \<lparr>vg_expires_at = None, vg_revocation = None\<rparr>"

definition view_grant_with_duration :: "instant \<Rightarrow> instant \<Rightarrow> nat \<Rightarrow> view_grant option" where
  "view_grant_with_duration max_instant now d =
     (case instant_add max_instant now d of
        None \<Rightarrow> None
      | Some exp \<Rightarrow> Some \<lparr>vg_expires_at = Some exp, vg_revocation = None\<rparr>)"

definition view_grant_with_consent :: "handle \<Rightarrow> view_grant" where
  "view_grant_with_consent h = \<lparr>vg_expires_at = None, vg_revocation = Some h\<rparr>"

definition view_grant_is_expired :: "instant \<Rightarrow> view_grant \<Rightarrow> bool" where
  "view_grant_is_expired now g =
     (case vg_expires_at g of None \<Rightarrow> False | Some exp \<Rightarrow> exp \<le> now)"

record view_session =
  vs_grant :: "view_grant option"

definition view_session_new :: view_session where
  "view_session_new = \<lparr>vs_grant = None\<rparr>"

definition view_set_grant :: "view_session \<Rightarrow> view_grant option \<Rightarrow> view_session" where
  "view_set_grant s g = s\<lparr>vs_grant := g\<rparr>"

definition view_is_granted :: "flag_store \<Rightarrow> instant \<Rightarrow> view_session \<Rightarrow> bool" where
  "view_is_granted st now s =
     (case vs_grant s of
        None \<Rightarrow> False
      | Some g \<Rightarrow>
          \<not> revocation_withdrawn st (vg_revocation g) \<and> \<not> view_grant_is_expired now g)"

definition apply_frame ::
  "flag_store \<Rightarrow> instant \<Rightarrow> view_session \<Rightarrow> capability_error + unit" where
  "apply_frame st now s =
     (case vs_grant s of
        None \<Rightarrow> Inl NoActiveGrant
      | Some g \<Rightarrow>
          if revocation_withdrawn st (vg_revocation g) then Inl ConsentWithdrawn
          else if view_grant_is_expired now g then Inl GrantExpired
          else Inr ())"

section \<open>Control\<close>

record control_grant =
  cg_expires_at :: "instant option"
  cg_revocation :: "handle option"

definition control_grant_new :: control_grant where
  "control_grant_new = \<lparr>cg_expires_at = None, cg_revocation = None\<rparr>"

definition control_grant_with_duration :: "instant \<Rightarrow> instant \<Rightarrow> nat \<Rightarrow> control_grant option" where
  "control_grant_with_duration max_instant now d =
     (case instant_add max_instant now d of
        None \<Rightarrow> None
      | Some exp \<Rightarrow> Some \<lparr>cg_expires_at = Some exp, cg_revocation = None\<rparr>)"

definition control_grant_with_consent :: "handle \<Rightarrow> control_grant" where
  "control_grant_with_consent h = \<lparr>cg_expires_at = None, cg_revocation = Some h\<rparr>"

definition control_grant_is_expired :: "instant \<Rightarrow> control_grant \<Rightarrow> bool" where
  "control_grant_is_expired now g =
     (case cg_expires_at g of None \<Rightarrow> False | Some exp \<Rightarrow> exp \<le> now)"

record control_session =
  cs_grant :: "control_grant option"

definition control_session_new :: control_session where
  "control_session_new = \<lparr>cs_grant = None\<rparr>"

definition control_set_grant :: "control_session \<Rightarrow> control_grant option \<Rightarrow> control_session" where
  "control_set_grant s g = s\<lparr>cs_grant := g\<rparr>"

definition control_is_granted :: "flag_store \<Rightarrow> instant \<Rightarrow> control_session \<Rightarrow> bool" where
  "control_is_granted st now s =
     (case cs_grant s of
        None \<Rightarrow> False
      | Some g \<Rightarrow>
          \<not> revocation_withdrawn st (cg_revocation g) \<and> \<not> control_grant_is_expired now g)"

definition apply_event ::
  "flag_store \<Rightarrow> instant \<Rightarrow> control_session \<Rightarrow> capability_error + unit" where
  "apply_event st now s =
     (case cs_grant s of
        None \<Rightarrow> Inl NoActiveGrant
      | Some g \<Rightarrow>
          if revocation_withdrawn st (cg_revocation g) then Inl ConsentWithdrawn
          else if control_grant_is_expired now g then Inl GrantExpired
          else Inr ())"

section \<open>Files\<close>

record file_grant =
  fg_revocation :: "handle option"

definition file_grant_new :: file_grant where
  "file_grant_new = \<lparr>fg_revocation = None\<rparr>"

definition file_grant_with_consent :: "handle \<Rightarrow> file_grant" where
  "file_grant_with_consent h = \<lparr>fg_revocation = Some h\<rparr>"

record file_session =
  fs_grant :: "file_grant option"

definition file_session_new :: file_session where
  "file_session_new = \<lparr>fs_grant = None\<rparr>"

definition file_set_grant :: "file_session \<Rightarrow> file_grant option \<Rightarrow> file_session" where
  "file_set_grant s g = s\<lparr>fs_grant := g\<rparr>"

definition file_is_granted :: "flag_store \<Rightarrow> file_session \<Rightarrow> bool" where
  "file_is_granted st s =
     (case fs_grant s of
        None \<Rightarrow> False
      | Some g \<Rightarrow> \<not> revocation_withdrawn st (fg_revocation g))"

definition apply_chunk ::
  "flag_store \<Rightarrow> file_session \<Rightarrow> bytes \<Rightarrow> capability_error + unit" where
  "apply_chunk st s data =
     (case fs_grant s of
        None \<Rightarrow> Inl NoActiveGrant
      | Some g \<Rightarrow>
          if revocation_withdrawn st (fg_revocation g) then Inl ConsentWithdrawn
          else Inr ())"

section \<open>Consent grants\<close>

record consent_grant =
  cgt_duration :: "nat option"

definition consent_grant_new :: consent_grant where
  "consent_grant_new = \<lparr>cgt_duration = None\<rparr>"

definition consent_grant_with_duration :: "nat \<Rightarrow> consent_grant" where
  "consent_grant_with_duration d = \<lparr>cgt_duration = Some d\<rparr>"

definition into_grants ::
  "instant \<Rightarrow> instant \<Rightarrow> consent_grant \<Rightarrow> (view_grant \<times> control_grant) option" where
  "into_grants max_instant now c =
     (case cgt_duration c of
        None \<Rightarrow> Some (view_grant_new, control_grant_new)
      | Some d \<Rightarrow>
          (case instant_add max_instant now d of
             None \<Rightarrow> None
           | Some exp \<Rightarrow>
               Some (\<lparr>vg_expires_at = Some exp, vg_revocation = None\<rparr>,
                     \<lparr>cg_expires_at = Some exp, cg_revocation = None\<rparr>)))"

text \<open>\<open>self.duration.map(|d| Instant::now() + d)\<close>, where the addition may panic.\<close>

definition issue_expiry :: "instant \<Rightarrow> instant \<Rightarrow> nat option \<Rightarrow> instant option option" where
  "issue_expiry max_instant now d =
     (case d of
        None \<Rightarrow> Some None
      | Some d \<Rightarrow>
          (case instant_add max_instant now d of None \<Rightarrow> None | Some exp \<Rightarrow> Some (Some exp)))"

definition issue_all ::
  "instant \<Rightarrow> instant \<Rightarrow> flag_store \<Rightarrow> consent_grant \<Rightarrow>
     (flag_store \<times> view_grant \<times> control_grant \<times> file_grant \<times> handle) option" where
  "issue_all max_instant now st c =
     (let (st', h) = handle_new st in
      case issue_expiry max_instant now (cgt_duration c) of
        None \<Rightarrow> None
      | Some exp \<Rightarrow>
          Some (st',
                \<lparr>vg_expires_at = exp, vg_revocation = Some h\<rparr>,
                \<lparr>cg_expires_at = exp, cg_revocation = Some h\<rparr>,
                \<lparr>fg_revocation = Some h\<rparr>, h))"

section \<open>The store of flags\<close>

text \<open>What any part of the program can do to the flags: allocate a handle or withdraw one.\<close>

datatype handle_op = OpNew | OpWithdraw handle

fun handle_step :: "flag_store \<Rightarrow> handle_op \<Rightarrow> flag_store" where
  "handle_step st OpNew = fst (handle_new st)"
| "handle_step st (OpWithdraw h) = handle_withdraw st h"

lemma handle_step_withdrawn_iff:
  "h < length st \<Longrightarrow>
     handle_is_withdrawn (handle_step st op) h \<longleftrightarrow> handle_is_withdrawn st h \<or> op = OpWithdraw h"
proof (cases op)
  case OpNew
  then show "h < length st \<Longrightarrow> ?thesis"
    by (auto simp: handle_is_withdrawn_def handle_new_def nth_append)
next
  case (OpWithdraw k)
  then show "h < length st \<Longrightarrow> ?thesis"
    by (cases "k = h") (auto simp: handle_is_withdrawn_def handle_withdraw_def)
qed

lemma length_handle_step: "length st \<le> length (handle_step st op)"
  by (cases op) (simp_all add: handle_withdraw_def handle_new_def)

text \<open>A flag is set exactly when some operation withdrew its handle; it is never cleared.\<close>

lemma handle_run_withdrawn_iff:
  "h < length st \<Longrightarrow>
     handle_is_withdrawn (foldl handle_step st ops) h \<longleftrightarrow>
       handle_is_withdrawn st h \<or> OpWithdraw h \<in> set ops"
proof (induction ops arbitrary: st)
  case Nil
  then show ?case by simp
next
  case (Cons op ops)
  have "h < length (handle_step st op)"
    using Cons.prems length_handle_step [of st op] by simp
  from Cons.IH [OF this] Cons.prems show ?case
    by (auto simp: handle_step_withdrawn_iff)
qed

lemma handle_new_fresh:
  "handle_new st = (st', h) \<Longrightarrow> h < length st' \<and> \<not> handle_is_withdrawn st' h"
  by (auto simp: handle_new_def handle_is_withdrawn_def)

lemma withdraw_run_withdrawn:
  assumes "h < length st"
  shows "handle_is_withdrawn (foldl handle_step (handle_withdraw st h) ops) h"
proof -
  have "h < length (handle_withdraw st h)" using assms by (simp add: handle_withdraw_def)
  from handle_run_withdrawn_iff [OF this] assms show ?thesis
    by (simp add: handle_is_withdrawn_def handle_withdraw_def)
qed

section \<open>Interface: a session that enforces a capability\<close>

text \<open>
  \<open>holding g\<close> is a session whose grant is \<open>g\<close>, \<open>admit\<close> its guarded operation and \<open>granted\<close> its
  query. The laws are the contract in the documentation of the sessions: no grant, then
  withdrawal, then expiry, each with its own error, and acceptance otherwise.
\<close>

locale capability_gate =
  fixes revocation :: "'g \<Rightarrow> handle option"
    and expires :: "'g \<Rightarrow> instant option"
    and holding :: "'g option \<Rightarrow> 's"
    and granted :: "flag_store \<Rightarrow> instant \<Rightarrow> 's \<Rightarrow> bool"
    and admit :: "flag_store \<Rightarrow> instant \<Rightarrow> 's \<Rightarrow> 'e + unit"
    and none_err :: 'e
    and withdrawn_err :: 'e
    and expired_err :: 'e
  assumes admit_none: "admit st now (holding None) = Inl none_err"
    and admit_withdrawn: "revocation_withdrawn st (revocation g) \<Longrightarrow>
      admit st now (holding (Some g)) = Inl withdrawn_err"
    and admit_expired: "\<not> revocation_withdrawn st (revocation g) \<Longrightarrow>
      expires g = Some t \<Longrightarrow> t \<le> now \<Longrightarrow> admit st now (holding (Some g)) = Inl expired_err"
    and admit_live: "\<not> revocation_withdrawn st (revocation g) \<Longrightarrow>
      (\<And>t. expires g = Some t \<Longrightarrow> now < t) \<Longrightarrow> admit st now (holding (Some g)) = Inr ()"
    and granted_iff: "granted st now (holding og) \<longleftrightarrow> admit st now (holding og) = Inr ()"
begin

text \<open>Withdrawal is final, whatever happens to the handles afterwards and however late.\<close>

lemma withdrawn_is_final:
  assumes "revocation g = Some h" "h < length st"
  shows "admit (foldl handle_step (handle_withdraw st h) ops) now (holding (Some g)) =
     Inl withdrawn_err"
  using assms withdraw_run_withdrawn [OF assms(2)]
  by (intro admit_withdrawn) (simp add: revocation_withdrawn_def)

text \<open>Until then the grant is honoured exactly until its expiry.\<close>

lemma live_until_expiry:
  assumes "revocation g = Some h" "h < length st" "\<not> handle_is_withdrawn st h"
    "OpWithdraw h \<notin> set ops"
  shows "admit (foldl handle_step st ops) now (holding (Some g)) =
     (case expires g of
        None \<Rightarrow> Inr ()
      | Some t \<Rightarrow> if now < t then Inr () else Inl expired_err)"
proof -
  have live: "\<not> revocation_withdrawn (foldl handle_step st ops) (revocation g)"
    using assms handle_run_withdrawn_iff [OF assms(2)] by (simp add: revocation_withdrawn_def)
  show ?thesis
    using admit_live [OF live] admit_expired [OF live] by (auto split: option.splits)
qed

text \<open>Without a handle only the clock counts.\<close>

lemma unbound_until_expiry:
  assumes "revocation g = None"
  shows "admit st now (holding (Some g)) =
     (case expires g of
        None \<Rightarrow> Inr ()
      | Some t \<Rightarrow> if now < t then Inr () else Inl expired_err)"
proof -
  have live: "\<not> revocation_withdrawn st (revocation g)"
    using assms by (simp add: revocation_withdrawn_def)
  show ?thesis
    using admit_live [OF live] admit_expired [OF live] by (auto split: option.splits)
qed

end

interpretation view_gate: capability_gate vg_revocation vg_expires_at
  "view_set_grant s" view_is_granted apply_frame NoActiveGrant ConsentWithdrawn GrantExpired
  for s
  by unfold_locales
    (auto simp: view_set_grant_def apply_frame_def view_is_granted_def
      view_grant_is_expired_def not_le split: option.splits)

interpretation control_gate: capability_gate cg_revocation cg_expires_at
  "control_set_grant s" control_is_granted apply_event NoActiveGrant ConsentWithdrawn GrantExpired
  for s
  by unfold_locales
    (auto simp: control_set_grant_def apply_event_def control_is_granted_def
      control_grant_is_expired_def not_le split: option.splits)

interpretation file_gate: capability_gate fg_revocation "\<lambda>_. None"
  "file_set_grant s" "\<lambda>st now. file_is_granted st" "\<lambda>st now s. apply_chunk st s data"
  NoActiveGrant ConsentWithdrawn GrantExpired
  for s data
  by unfold_locales
    (auto simp: file_set_grant_def apply_chunk_def file_is_granted_def split: option.splits)

section \<open>Issuing\<close>

lemma issue_all_parts:
  assumes "issue_all max_instant now st c = Some (st', v, g, f, h)"
  shows "h < length st'" "\<not> handle_is_withdrawn st' h"
    and "vg_revocation v = Some h" "cg_revocation g = Some h" "fg_revocation f = Some h"
    and "vg_expires_at v = map_option ((+) now) (cgt_duration c)"
    and "cg_expires_at g = map_option ((+) now) (cgt_duration c)"
  using assms
  by (auto simp: issue_all_def handle_new_def handle_is_withdrawn_def issue_expiry_def
      instant_add_def split: option.splits if_splits)

text \<open>
  A timed consent grant covers view and control by one deadline. Both grants of
  \<open>into_grants\<close> are honoured at exactly the same instants: before the deadline both operations
  succeed, from the deadline on both report an expired grant, and \<open>is_granted\<close> tells the same.
  The call panics only when the deadline is not representable.
\<close>

lemma consent_timed_window:
  assumes "now + d \<le> max_instant"
  shows "\<exists>v g. into_grants max_instant now (consent_grant_with_duration d) = Some (v, g) \<and>
    (\<forall>st t vs cs.
       apply_frame st t (view_set_grant vs (Some v)) =
         (if t < now + d then Inr () else Inl GrantExpired) \<and>
       apply_event st t (control_set_grant cs (Some g)) =
         (if t < now + d then Inr () else Inl GrantExpired) \<and>
       view_is_granted st t (view_set_grant vs (Some v)) = (t < now + d) \<and>
       control_is_granted st t (control_set_grant cs (Some g)) = (t < now + d))"
  using assms
  by (simp add: into_grants_def consent_grant_with_duration_def instant_add_def
      view_gate.unbound_until_expiry control_gate.unbound_until_expiry
      view_gate.granted_iff control_gate.granted_iff)

end
