(* ===== verification/Clipboard.thy ===== *)
theory Clipboard
  imports Grants Rust_Str
begin

text \<open>
  The capability-gated clipboard of \<open>core/messaging/src/clipboard.rs\<close>: the grant, the gate on
  incoming text and file offers, and the file-name filter. \<open>total_bytes\<close> sums \<open>u64\<close> values;
  its addition panics on overflow when overflow checks are compiled in (the argument
  \<open>overflow_checks\<close>, on in debug builds) and wraps otherwise.

  The lemmas interpret the capability interface on the clipboard gate, show that a withdrawn
  consent is final for all four kinds of session at once, characterise the accepted offers
  and show that an accepted name stays inside the directory it is written to.
\<close>

section \<open>Grants and errors\<close>

definition CLIPBOARD_MAX_TEXT_BYTES :: nat where "CLIPBOARD_MAX_TEXT_BYTES = 4096"
definition CLIPBOARD_MAX_FILES :: nat where "CLIPBOARD_MAX_FILES = 64"
definition CLIPBOARD_MAX_FILE_BYTES :: u64 where "CLIPBOARD_MAX_FILE_BYTES = 512 * 1024 * 1024"

record clipboard_grant =
  bg_revocation :: "handle option"

definition clipboard_grant_new :: clipboard_grant where
  "clipboard_grant_new = \<lparr>bg_revocation = None\<rparr>"

definition clipboard_grant_with_consent :: "handle \<Rightarrow> clipboard_grant" where
  "clipboard_grant_with_consent h = \<lparr>bg_revocation = Some h\<rparr>"

datatype clipboard_error =
    ClipNoActiveGrant
  | ClipTextTooLong nat
  | ClipConsentWithdrawn
  | ClipTooManyFiles nat
  | ClipFilesTooLarge u64
  | ClipUnsafeFileName rust_str

record clipboard_file_entry =
  fe_name :: rust_str
  fe_size :: u64

record clipboard_file_offer =
  fo_entries :: "clipboard_file_entry list"

section \<open>Offers\<close>

text \<open>\<open>Iterator::sum\<close> over \<open>u64\<close>: a left fold of additions.\<close>

fun sum_u64 :: "bool \<Rightarrow> u64 \<Rightarrow> u64 list \<Rightarrow> u64 option" where
  "sum_u64 overflow_checks acc [] = Some acc"
| "sum_u64 overflow_checks acc (x # xs) =
     (if overflow_checks \<and> acc + x < acc then None else sum_u64 overflow_checks (acc + x) xs)"

definition total_bytes :: "bool \<Rightarrow> clipboard_file_offer \<Rightarrow> u64 option" where
  "total_bytes overflow_checks offer = sum_u64 overflow_checks 0 (map fe_size (fo_entries offer))"

text \<open>The characters 46, 47 and 92 are the dot, the slash and the backslash.\<close>

definition safe_file_name :: "rust_str \<Rightarrow> bool" where
  "safe_file_name name \<longleftrightarrow>
     name \<noteq> [] \<and> str_len name \<le> 255 \<and> name \<noteq> [46] \<and> name \<noteq> [46, 46] \<and>
     47 \<notin> set name \<and> 92 \<notin> set name \<and> 0 \<notin> set name \<and>
     \<not> str_contains [46, 46] name \<and> str_trim name = name \<and>
     \<not> (\<exists>c\<in>set name. char_is_control c)"

section \<open>Sessions\<close>

record clipboard_session =
  bs_grant :: "clipboard_grant option"

definition clipboard_session_new :: clipboard_session where
  "clipboard_session_new = \<lparr>bs_grant = None\<rparr>"

definition clipboard_set_grant ::
  "clipboard_session \<Rightarrow> clipboard_grant option \<Rightarrow> clipboard_session" where
  "clipboard_set_grant s g = s\<lparr>bs_grant := g\<rparr>"

definition clipboard_is_granted :: "flag_store \<Rightarrow> clipboard_session \<Rightarrow> bool" where
  "clipboard_is_granted st s =
     (case bs_grant s of
        None \<Rightarrow> False
      | Some g \<Rightarrow> \<not> revocation_withdrawn st (bg_revocation g))"

definition check_grant :: "flag_store \<Rightarrow> clipboard_session \<Rightarrow> clipboard_error + unit" where
  "check_grant st s =
     (case bs_grant s of
        None \<Rightarrow> Inl ClipNoActiveGrant
      | Some g \<Rightarrow>
          if revocation_withdrawn st (bg_revocation g) then Inl ClipConsentWithdrawn
          else Inr ())"

definition apply_remote ::
  "flag_store \<Rightarrow> clipboard_session \<Rightarrow> rust_str \<Rightarrow> clipboard_error + unit" where
  "apply_remote st s txt =
     (case check_grant st s of
        Inl e \<Rightarrow> Inl e
      | Inr _ \<Rightarrow>
          if CLIPBOARD_MAX_TEXT_BYTES < str_len txt then Inl (ClipTextTooLong (str_len txt))
          else Inr ())"

fun check_names :: "clipboard_file_entry list \<Rightarrow> clipboard_error + unit" where
  "check_names [] = Inr ()"
| "check_names (e # es) =
     (if \<not> safe_file_name (fe_name e) then Inl (ClipUnsafeFileName (fe_name e))
      else check_names es)"

definition apply_remote_files ::
  "bool \<Rightarrow> flag_store \<Rightarrow> clipboard_session \<Rightarrow> clipboard_file_offer \<Rightarrow>
     (clipboard_error + unit) option" where
  "apply_remote_files overflow_checks st s offer =
     (case check_grant st s of
        Inl e \<Rightarrow> Some (Inl e)
      | Inr _ \<Rightarrow>
          if CLIPBOARD_MAX_FILES < length (fo_entries offer)
          then Some (Inl (ClipTooManyFiles (length (fo_entries offer))))
          else
            (case total_bytes overflow_checks offer of
               None \<Rightarrow> None
             | Some tot \<Rightarrow>
                 if CLIPBOARD_MAX_FILE_BYTES < tot then Some (Inl (ClipFilesTooLarge tot))
                 else Some (check_names (fo_entries offer))))"

section \<open>The gate\<close>

interpretation clipboard_gate: capability_gate bg_revocation "\<lambda>_. None"
  "clipboard_set_grant s" "\<lambda>st now. clipboard_is_granted st" "\<lambda>st now. check_grant st"
  ClipNoActiveGrant ClipConsentWithdrawn ClipNoActiveGrant
  for s
  by unfold_locales
    (auto simp: clipboard_set_grant_def check_grant_def clipboard_is_granted_def
      split: option.splits)

lemma clipboard_withdrawn:
  assumes "bg_revocation b = Some h" "h < length st"
  shows "apply_remote (foldl handle_step (handle_withdraw st h) ops)
      (clipboard_set_grant bs (Some b)) txt = Inl ClipConsentWithdrawn"
    and "apply_remote_files oc (foldl handle_step (handle_withdraw st h) ops)
      (clipboard_set_grant bs (Some b)) offer = Some (Inl ClipConsentWithdrawn)"
  using clipboard_gate.withdrawn_is_final [OF assms]
  by (simp_all add: apply_remote_def apply_remote_files_def)

lemma clipboard_live:
  assumes "bg_revocation b = Some h" "h < length st" "\<not> handle_is_withdrawn st h"
    "OpWithdraw h \<notin> set ops" "str_len txt \<le> CLIPBOARD_MAX_TEXT_BYTES"
  shows "apply_remote (foldl handle_step st ops) (clipboard_set_grant bs (Some b)) txt = Inr ()"
  using clipboard_gate.live_until_expiry [OF assms(1-4)] assms(5)
  by (simp add: apply_remote_def)

lemma clipboard_grant_revocation [simp]:
  "bg_revocation (clipboard_grant_with_consent h) = Some h"
  by (simp add: clipboard_grant_with_consent_def)

text \<open>
  C6: One withdrawal ends every capability of a consent event, with no grace window and for
  good. The view, control and file grants that \<open>issue_all\<close> returns, and a clipboard grant bound
  to the same handle, are honoured while nobody withdraws that handle (view and control until
  their common expiry). After \<open>withdraw\<close> every guarded operation of all four sessions reports
  the withdrawal, whatever later happens to any handle and however much time passes.
\<close>

theorem consent_withdrawal_is_final:
  fixes before later :: "handle_op list"
  assumes "issue_all max_instant now st c = Some (st1, v, g, f, h)"
    and "OpWithdraw h \<notin> set before"
  defines "live \<equiv> foldl handle_step st1 before"
  defines "dead \<equiv> foldl handle_step (handle_withdraw live h) later"
  defines "b \<equiv> clipboard_grant_with_consent h"
  shows "(\<forall>t. (\<forall>d. cgt_duration c = Some d \<longrightarrow> t < now + d) \<longrightarrow>
           apply_frame live t (view_set_grant vs (Some v)) = Inr () \<and>
           apply_event live t (control_set_grant cs (Some g)) = Inr ()) \<and>
         (\<forall>chunk. apply_chunk live (file_set_grant fs (Some f)) chunk = Inr ()) \<and>
         (\<forall>txt. str_len txt \<le> CLIPBOARD_MAX_TEXT_BYTES \<longrightarrow>
           apply_remote live (clipboard_set_grant bs (Some b)) txt = Inr ()) \<and>
         (\<forall>t. apply_frame dead t (view_set_grant vs (Some v)) = Inl ConsentWithdrawn \<and>
           apply_event dead t (control_set_grant cs (Some g)) = Inl ConsentWithdrawn) \<and>
         (\<forall>chunk. apply_chunk dead (file_set_grant fs (Some f)) chunk = Inl ConsentWithdrawn) \<and>
         (\<forall>txt. apply_remote dead (clipboard_set_grant bs (Some b)) txt =
           Inl ClipConsentWithdrawn) \<and>
         (\<forall>oc offer. apply_remote_files oc dead (clipboard_set_grant bs (Some b)) offer =
           Some (Inl ClipConsentWithdrawn))"
proof -
  note p = issue_all_parts [OF assms(1)]
  have len: "h < length live"
    unfolding live_def using p(1)
    by (induction before arbitrary: st1) (auto intro: less_le_trans length_handle_step)
  show ?thesis
    unfolding dead_def b_def
    using view_gate.live_until_expiry [OF p(3) p(1,2) assms(2)]
      control_gate.live_until_expiry [OF p(4) p(1,2) assms(2)]
      file_gate.live_until_expiry [OF p(5) p(1,2) assms(2)]
      view_gate.withdrawn_is_final [OF p(3) len] control_gate.withdrawn_is_final [OF p(4) len]
      file_gate.withdrawn_is_final [OF p(5) len]
    by (auto simp: live_def p(6,7) clipboard_live [OF clipboard_grant_revocation p(1,2) assms(2)]
        clipboard_withdrawn [OF clipboard_grant_revocation len [unfolded live_def]]
        split: option.splits)
qed

theorem consent_withdrawal_is_final_witness:
  "\<exists>st1 v g f h. issue_all 1000 0 [] (consent_grant_with_duration 300) = Some (st1, v, g, f, h) \<and>
     apply_event st1 299 (control_set_grant control_session_new (Some g)) = Inr () \<and>
     apply_event (handle_withdraw st1 h) 1 (control_set_grant control_session_new (Some g)) =
       Inl ConsentWithdrawn"
proof -
  let ?v = "\<lparr>vg_expires_at = Some 300, vg_revocation = Some 0\<rparr>"
  let ?g = "\<lparr>cg_expires_at = Some 300, cg_revocation = Some 0\<rparr>"
  let ?f = "\<lparr>fg_revocation = Some 0\<rparr>"
  have i: "issue_all 1000 0 [] (consent_grant_with_duration 300) = Some ([False], ?v, ?g, ?f, 0)"
    by (simp add: issue_all_def handle_new_def issue_expiry_def instant_add_def
        consent_grant_with_duration_def)
  from consent_withdrawal_is_final [OF i, where before = "[]" and later = "[]"]
  have "apply_event [False] 299 (control_set_grant control_session_new (Some ?g)) = Inr ()"
    "apply_event (handle_withdraw [False] 0) 1 (control_set_grant control_session_new (Some ?g)) =
       Inl ConsentWithdrawn"
    by (simp_all add: consent_grant_with_duration_def)
  with i show ?thesis by blast
qed

section \<open>File offers\<close>

text \<open>
  How a receiver that joins a name to a directory reads it: the name is cut at slashes and
  backslashes, empty parts and single dots stay where they are, two dots go up.
\<close>

fun path_parts :: "rust_str \<Rightarrow> rust_str \<Rightarrow> rust_str list" where
  "path_parts acc [] = [rev acc]"
| "path_parts acc (c # s) =
     (if c = 47 \<or> c = 92 then rev acc # path_parts [] s else path_parts (c # acc) s)"

definition enter :: "rust_str list \<Rightarrow> rust_str \<Rightarrow> rust_str list" where
  "enter dir part =
     (if part = [] \<or> part = [46] then dir
      else if part = [46, 46] then butlast dir
      else dir @ [part])"

definition resolve :: "rust_str list \<Rightarrow> rust_str \<Rightarrow> rust_str list" where
  "resolve dir name = foldl enter dir (path_parts [] name)"

lemma path_parts_single: "47 \<notin> set s \<Longrightarrow> 92 \<notin> set s \<Longrightarrow> path_parts acc s = [rev acc @ s]"
  by (induction s arbitrary: acc) auto

lemma safe_file_name_resolve: "safe_file_name name \<Longrightarrow> resolve dir name = dir @ [name]"
  by (simp add: safe_file_name_def resolve_def enter_def path_parts_single)

text \<open>A trailing dot passes the filter: only white space is trimmed.\<close>

lemma safe_file_name_trailing_dot: "safe_file_name [97, 46] \<and> safe_file_name [46, 97]"
  by code_simp

lemma check_names_Inr_iff:
  "check_names es = Inr () \<longleftrightarrow> (\<forall>e\<in>set es. safe_file_name (fe_name e))"
  by (induction es) auto

lemma check_names_Inl:
  "check_names es = Inl e \<Longrightarrow>
     \<exists>x\<in>set es. e = ClipUnsafeFileName (fe_name x) \<and> \<not> safe_file_name (fe_name x)"
  by (induction es) (auto split: if_splits)

text \<open>With overflow checks the sum is exact; without them it is exact modulo \<open>2 ^ 64\<close>.\<close>

lemma unat_add_no_wrap: "\<not> a + x < a \<Longrightarrow> unat (a + x) = unat a + unat (x :: u64)"
  by (metis linorder_not_less unat_plus_simple)

lemma sum_u64_checked:
  "sum_u64 True acc xs = Some t \<Longrightarrow> unat t = unat acc + sum_list (map unat xs)"
  by (induction xs arbitrary: acc) (auto simp: unat_add_no_wrap split: if_splits)

lemma sum_u64_unchecked: "sum_u64 False acc xs = Some (acc + sum_list xs)"
  by (induction xs arbitrary: acc) (simp_all add: add.assoc)

text \<open>
  An accepted file offer came under a live grant, has at most 64 entries and only names
  that, joined to any receiving directory, denote a file directly inside it: no separator, no
  parent reference, no control character, at most 255 bytes, not empty. In a build with
  overflow checks the offered bytes are also at most 512 MiB in total. Any other offer is
  refused before a file is written.
\<close>

lemma clipboard_files_confined:
  assumes "apply_remote_files overflow_checks st s offer = Some (Inr ())"
  shows "clipboard_is_granted st s \<and> length (fo_entries offer) \<le> 64 \<and>
    (\<forall>e\<in>set (fo_entries offer). \<forall>dir.
       resolve dir (fe_name e) = dir @ [fe_name e] \<and> str_len (fe_name e) \<le> 255 \<and>
       (\<forall>c\<in>set (fe_name e). \<not> char_is_control c)) \<and>
    (overflow_checks \<longrightarrow>
       sum_list (map (unat \<circ> fe_size) (fo_entries offer)) \<le> 512 * 1024 * 1024)"
proof -
  from assms obtain t where
    grant: "check_grant st s = Inr ()" and
    count: "length (fo_entries offer) \<le> CLIPBOARD_MAX_FILES" and
    total: "total_bytes overflow_checks offer = Some t" "t \<le> CLIPBOARD_MAX_FILE_BYTES" and
    names: "\<forall>e\<in>set (fo_entries offer). safe_file_name (fe_name e)"
    by (auto simp: apply_remote_files_def check_names_Inr_iff not_less
        split: sum.splits option.splits if_splits)
  have g: "clipboard_is_granted st s"
    using grant by (auto simp: check_grant_def clipboard_is_granted_def
        split: option.splits if_splits)
  have "unat t \<le> 512 * 1024 * 1024"
    using total(2) by (simp add: CLIPBOARD_MAX_FILE_BYTES_def word_le_nat_alt)
  then have bytes: "overflow_checks \<Longrightarrow>
      sum_list (map (unat \<circ> fe_size) (fo_entries offer)) \<le> 512 * 1024 * 1024"
    using total(1) sum_u64_checked [of 0 "map fe_size (fo_entries offer)" t]
    by (simp add: total_bytes_def)
  show ?thesis
    using g count names bytes
    by (auto simp: CLIPBOARD_MAX_FILES_def safe_file_name_resolve) (auto simp: safe_file_name_def)
qed

text \<open>
  The cap on the total size does not bound the offered bytes in a build without overflow
  checks. The sum of the sizes wraps, so two files of \<open>2 ^ 63\<close> bytes each are accepted as an
  offer of zero bytes by every session with an unrevoked grant; the same offer panics in a
  build with overflow checks.
\<close>

lemma clipboard_size_cap_wraps:
  assumes "clipboard_is_granted st s" "safe_file_name a" "safe_file_name b"
  defines "offer \<equiv> \<lparr>fo_entries = [\<lparr>fe_name = a, fe_size = 2 ^ 63\<rparr>, \<lparr>fe_name = b, fe_size = 2 ^ 63\<rparr>]\<rparr>"
  shows "apply_remote_files False st s offer = Some (Inr ()) \<and>
    sum_list (map (unat \<circ> fe_size) (fo_entries offer)) = 2 ^ 64 \<and>
    apply_remote_files True st s offer = None"
proof -
  have g: "check_grant st s = Inr ()"
    using assms(1) by (auto simp: check_grant_def clipboard_is_granted_def
        split: option.splits)
  have "total_bytes False offer = Some 0" "total_bytes True offer = None"
    by (simp_all add: offer_def total_bytes_def)
  then show ?thesis
    using g assms(2,3)
    by (simp add: apply_remote_files_def offer_def CLIPBOARD_MAX_FILES_def)
qed

end
