(* ===== verification/Panic.thy ===== *)
theory Panic
  imports Grants
begin

text \<open>
  The panic key of \<open>core/messaging/src/panic_key.rs\<close>: the local controller that severs input
  injection while the transport stays up, the five-byte notice to the peer and the receiver
  that severs the peer's mirror of the control grant once per notice. The two \<open>&mut\<close>
  arguments of the operations are passed and returned explicitly.

  The lemmas show the wire round trip and, for both sides running together over a channel
  that may delay, repeat and reorder notices, that a panic severs both sides and that a
  repeated notice never severs a grant given afterwards.
\<close>

section \<open>Data\<close>

definition PANIC_INJECTION_BLOCK_DEADLINE_MS :: u64 where
  "PANIC_INJECTION_BLOCK_DEADLINE_MS = 50"

record panic_effect =
  injection_revoked :: bool
  pe_transport_up :: bool

record panic_notice =
  pn_seq :: u32

definition PANIC_NOTICE_TAG :: u8 where "PANIC_NOTICE_TAG = 0x50"
definition PANIC_NOTICE_LEN :: nat where "PANIC_NOTICE_LEN = 5"

definition panic_notice_encode :: "panic_notice \<Rightarrow> bytes" where
  "panic_notice_encode n = PANIC_NOTICE_TAG # to_le_bytes32 (pn_seq n)"

definition panic_notice_decode :: "bytes \<Rightarrow> panic_notice option" where
  "panic_notice_decode buf =
     (if length buf \<noteq> PANIC_NOTICE_LEN \<or> buf ! 0 \<noteq> PANIC_NOTICE_TAG then None
      else Some \<lparr>pn_seq = from_le_bytes32 (buf ! 1) (buf ! 2) (buf ! 3) (buf ! 4)\<rparr>)"

record panic_notice_receiver =
  pr_last_seq :: "u32 option"

definition panic_receiver_new :: panic_notice_receiver where
  "panic_receiver_new = \<lparr>pr_last_seq = None\<rparr>"

record panic_controller =
  transport_up :: bool
  panic_fired :: bool
  next_seq :: u32

section \<open>Operations\<close>

definition panic_controller_new :: panic_controller where
  "panic_controller_new = \<lparr>transport_up = False, panic_fired = False, next_seq = 1\<rparr>"

definition set_transport_up :: "panic_controller \<Rightarrow> bool \<Rightarrow> panic_controller" where
  "set_transport_up pc up =
     (let pc' = pc\<lparr>transport_up := up\<rparr> in
      if \<not> up then pc'\<lparr>panic_fired := False\<rparr> else pc')"

definition fire_panic ::
  "panic_controller \<Rightarrow> control_session \<Rightarrow> panic_effect \<times> panic_controller \<times> control_session" where
  "fire_panic pc control =
     (if \<not> transport_up pc
      then (\<lparr>injection_revoked = False, pe_transport_up = False\<rparr>, pc, control)
      else (\<lparr>injection_revoked = True, pe_transport_up = True\<rparr>,
            pc\<lparr>panic_fired := True\<rparr>, control_set_grant control None))"

definition fire_panic_with_notice ::
  "panic_controller \<Rightarrow> control_session \<Rightarrow>
     (panic_effect \<times> panic_notice option) \<times> panic_controller \<times> control_session" where
  "fire_panic_with_notice pc control =
     (let (eff, pc', control') = fire_panic pc control in
      if \<not> injection_revoked eff then ((eff, None), pc', control')
      else ((eff, Some \<lparr>pn_seq = next_seq pc'\<rparr>),
            pc'\<lparr>next_seq := next_seq pc' + 1\<rparr>, control'))"

definition clear_panic :: "panic_controller \<Rightarrow> panic_controller" where
  "clear_panic pc = pc\<lparr>panic_fired := False\<rparr>"

definition panic_notice_apply ::
  "panic_notice_receiver \<Rightarrow> panic_notice \<Rightarrow> control_session \<Rightarrow> panic_controller \<Rightarrow>
     bool \<times> panic_notice_receiver \<times> control_session \<times> panic_controller" where
  "panic_notice_apply r notice control panic =
     (if (case pr_last_seq r of None \<Rightarrow> False | Some l \<Rightarrow> pn_seq notice \<le> l)
      then (False, r, control, panic)
      else (True, r\<lparr>pr_last_seq := Some (pn_seq notice)\<rparr>,
            control_set_grant control None, panic\<lparr>panic_fired := True\<rparr>))"

section \<open>The wire notice\<close>

lemma length_panic_notice_encode: "length (panic_notice_encode n) = PANIC_NOTICE_LEN"
  by (simp add: panic_notice_encode_def PANIC_NOTICE_LEN_def)

lemma panic_notice_decode_encode [simp]: "panic_notice_decode (panic_notice_encode n) = Some n"
  by (simp add: panic_notice_decode_def panic_notice_encode_def PANIC_NOTICE_LEN_def
      to_le_bytes32_def from_to_le_bytes32)

text \<open>
  The decoder accepts exactly the encodings: a buffer decodes to a notice if and only if
  it is the five-byte encoding of that notice, so every notice survives the wire and no other
  bytes are taken for one.
\<close>

lemma panic_notice_roundtrip:
  "panic_notice_decode buf = Some n \<longleftrightarrow> buf = panic_notice_encode n"
proof
  assume d: "panic_notice_decode buf = Some n"
  then have "length buf = 5"
    by (simp add: panic_notice_decode_def PANIC_NOTICE_LEN_def split: if_splits)
  then obtain t a b c e where buf: "buf = [t, a, b, c, e]"
    by (auto simp: numeral_eq_Suc length_Suc_conv)
  show "buf = panic_notice_encode n"
    using d
    by (auto simp: buf panic_notice_decode_def panic_notice_encode_def to_from_le_bytes32
        split: if_splits)
next
  assume "buf = panic_notice_encode n"
  then show "panic_notice_decode buf = Some n" by simp
qed

section \<open>Both sides\<close>

text \<open>
  The assisted side (controller, control session and the notices it put on the wire, oldest
  first) and the technician's side (receiver, mirror session, its own controller). A delivery
  hands any notice sent so far to the receiver, so the channel may delay, repeat and reorder.
\<close>

record panic_system =
  ps_local :: panic_controller
  ps_session :: control_session
  ps_sent :: "bytes list"
  ps_receiver :: panic_notice_receiver
  ps_mirror :: control_session
  ps_remote :: panic_controller

datatype panic_op =
    LocalTransport bool
  | LocalGrant "control_grant option"
  | LocalFire
  | LocalClear
  | RemoteTransport bool
  | RemoteGrant "control_grant option"
  | RemoteClear
  | Deliver nat

definition panic_system_new :: panic_system where
  "panic_system_new =
     \<lparr>ps_local = panic_controller_new, ps_session = control_session_new, ps_sent = [],
      ps_receiver = panic_receiver_new, ps_mirror = control_session_new,
      ps_remote = panic_controller_new\<rparr>"

fun panic_step :: "panic_system \<Rightarrow> panic_op \<Rightarrow> panic_system" where
  "panic_step s (LocalTransport up) = s\<lparr>ps_local := set_transport_up (ps_local s) up\<rparr>"
| "panic_step s (LocalGrant g) = s\<lparr>ps_session := control_set_grant (ps_session s) g\<rparr>"
| "panic_step s LocalFire =
     (let ((eff, notice), pc, control) = fire_panic_with_notice (ps_local s) (ps_session s) in
      s\<lparr>ps_local := pc, ps_session := control,
        ps_sent := ps_sent s @
          (case notice of None \<Rightarrow> [] | Some n \<Rightarrow> [panic_notice_encode n])\<rparr>)"
| "panic_step s LocalClear = s\<lparr>ps_local := clear_panic (ps_local s)\<rparr>"
| "panic_step s (RemoteTransport up) = s\<lparr>ps_remote := set_transport_up (ps_remote s) up\<rparr>"
| "panic_step s (RemoteGrant g) = s\<lparr>ps_mirror := control_set_grant (ps_mirror s) g\<rparr>"
| "panic_step s RemoteClear = s\<lparr>ps_remote := clear_panic (ps_remote s)\<rparr>"
| "panic_step s (Deliver i) =
     (if i < length (ps_sent s) then
        (case panic_notice_decode (ps_sent s ! i) of
           None \<Rightarrow> s
         | Some n \<Rightarrow>
             (let (new, r, control, pc) =
                panic_notice_apply (ps_receiver s) n (ps_mirror s) (ps_remote s) in
              s\<lparr>ps_receiver := r, ps_mirror := control, ps_remote := pc\<rparr>))
      else s)"

text \<open>
  The \<open>i\<close>-th notice carries the number \<open>i + 1\<close>, the next number follows, and the receiver's
  last number is that of a notice that was sent.
\<close>

definition nth_notice :: "nat \<Rightarrow> panic_notice" where
  "nth_notice i = \<lparr>pn_seq = of_nat (Suc i)\<rparr>"

definition panic_inv :: "panic_system \<Rightarrow> bool" where
  "panic_inv s \<longleftrightarrow>
     next_seq (ps_local s) = of_nat (Suc (length (ps_sent s))) \<and>
     ps_sent s = map (panic_notice_encode \<circ> nth_notice) [0..<length (ps_sent s)] \<and>
     (\<forall>l. pr_last_seq (ps_receiver s) = Some l \<longrightarrow>
        (\<exists>i<length (ps_sent s). l = of_nat (Suc i)))"

lemma panic_inv_sent_nth:
  "panic_inv s \<Longrightarrow> i < length (ps_sent s) \<Longrightarrow>
     ps_sent s ! i = panic_notice_encode (nth_notice i)"
  by (metis (no_types, lifting) add_0 comp_apply nth_map_upt panic_inv_def diff_zero)

lemma panic_step_Deliver:
  assumes "panic_inv s" "i < length (ps_sent s)"
  shows "panic_step s (Deliver i) =
     (if (\<exists>l. pr_last_seq (ps_receiver s) = Some l \<and> of_nat (Suc i) \<le> l) then s
      else s\<lparr>ps_receiver := \<lparr>pr_last_seq = Some (of_nat (Suc i))\<rparr>,
             ps_mirror := control_set_grant (ps_mirror s) None,
             ps_remote := (ps_remote s)\<lparr>panic_fired := True\<rparr>\<rparr>)"
  using assms(2)
  by (auto simp: panic_inv_sent_nth [OF assms] panic_notice_apply_def nth_notice_def Let_def
      split: option.splits)

lemma panic_step_Fire:
  "panic_step s LocalFire =
     (if transport_up (ps_local s) then
        s\<lparr>ps_local := (ps_local s)\<lparr>panic_fired := True, next_seq := next_seq (ps_local s) + 1\<rparr>,
          ps_session := control_set_grant (ps_session s) None,
          ps_sent := ps_sent s @ [panic_notice_encode \<lparr>pn_seq = next_seq (ps_local s)\<rparr>]\<rparr>
      else s)"
  by (simp add: fire_panic_with_notice_def fire_panic_def Let_def)

declare panic_step.simps(3,8) [simp del]

lemma panic_step_Deliver_none: "\<not> i < length (ps_sent s) \<Longrightarrow> panic_step s (Deliver i) = s"
  by (simp add: panic_step.simps(8))

lemma panic_inv_step: "panic_inv s \<Longrightarrow> panic_inv (panic_step s op)"
proof (cases op)
  case LocalFire
  assume "panic_inv s"
  then show ?thesis
    unfolding LocalFire panic_step_Fire panic_inv_def
    by (auto simp: nth_notice_def less_Suc_eq)
next
  case (Deliver i)
  assume "panic_inv s"
  then show ?thesis
    unfolding Deliver
    by (cases "i < length (ps_sent s)")
      (auto simp: panic_step_Deliver panic_step_Deliver_none panic_inv_def)
qed (auto simp: panic_inv_def set_transport_up_def clear_panic_def Let_def)

interpretation panic_run: invariant_machine panic_system_new panic_step panic_inv
  by unfold_locales
    (auto intro: panic_inv_step,
      simp add: panic_inv_def panic_system_new_def panic_controller_new_def panic_receiver_new_def)

text \<open>Between a panic and the delivery of its notice only older notices can arrive.\<close>

definition awaiting :: "nat \<Rightarrow> panic_system \<Rightarrow> bool" where
  "awaiting n s \<longleftrightarrow>
     panic_inv s \<and> length (ps_sent s) = Suc n \<and>
     (\<forall>l. pr_last_seq (ps_receiver s) = Some l \<longrightarrow> (\<exists>i<n. l = of_nat (Suc i)))"

lemma awaiting_fire:
  assumes "panic_inv s" "transport_up (ps_local s)"
  shows "awaiting (length (ps_sent s)) (panic_step s LocalFire)"
  using assms panic_inv_step [OF assms(1), of LocalFire]
  by (auto simp: awaiting_def panic_step_Fire) (auto simp: panic_inv_def)

lemma awaiting_step:
  assumes "awaiting n s" "op \<noteq> LocalFire" "op \<noteq> Deliver n"
  shows "awaiting n (panic_step s op)"
proof -
  have inv: "panic_inv s" using assms(1) by (simp add: awaiting_def)
  show ?thesis
  proof (cases op)
    case (Deliver i)
    with assms panic_inv_step [OF inv, of op] show ?thesis
      by (cases "i < length (ps_sent s)")
        (auto simp: awaiting_def panic_step_Deliver [OF inv] panic_step_Deliver_none
          intro!: exI [of _ i])
  qed (use assms panic_inv_step [OF inv, of op] in
      \<open>auto simp: awaiting_def set_transport_up_def clear_panic_def Let_def\<close>)
qed

lemma awaiting_run:
  "awaiting n s \<Longrightarrow> LocalFire \<notin> set ops \<Longrightarrow> Deliver n \<notin> set ops \<Longrightarrow>
     awaiting n (foldl panic_step s ops)"
  by (induction ops arbitrary: s) (simp_all add: awaiting_step not_sym)

lemma unat_of_nat_Suc32: "i < 2 ^ 32 - 1 \<Longrightarrow> unat (of_nat (Suc i) :: u32) = Suc i"
  by (subst unsigned_of_nat) (simp add: take_bit_nat_eq_self)

lemma seq_le_iff:
  "i < 2 ^ 32 - 1 \<Longrightarrow> j < 2 ^ 32 - 1 \<Longrightarrow> (of_nat (Suc i) :: u32) \<le> of_nat (Suc j) \<longleftrightarrow> i \<le> j"
  by (simp only: word_le_nat_alt unat_of_nat_Suc32 Suc_le_mono)

lemma awaiting_deliver:
  assumes "awaiting n s" "n < 2 ^ 32 - 1"
  shows "panic_step s (Deliver n) =
     s\<lparr>ps_receiver := \<lparr>pr_last_seq = Some (of_nat (Suc n))\<rparr>,
       ps_mirror := control_set_grant (ps_mirror s) None,
       ps_remote := (ps_remote s)\<lparr>panic_fired := True\<rparr>\<rparr>"
proof -
  have inv: "panic_inv s" and len: "n < length (ps_sent s)"
    using assms(1) by (simp_all add: awaiting_def)
  have "\<not> of_nat (Suc n) \<le> l" if "pr_last_seq (ps_receiver s) = Some l" for l
  proof -
    from that assms(1) obtain i where "i < n" "l = of_nat (Suc i)"
      by (auto simp: awaiting_def)
    with assms(2) show ?thesis by (simp only: seq_le_iff)
  qed
  then show ?thesis unfolding panic_step_Deliver [OF inv len] by auto
qed

lemma stale_deliver:
  assumes "panic_inv s" "pr_last_seq (ps_receiver s) = Some (of_nat (Suc n))" "i \<le> n"
    "n < 2 ^ 32 - 1" "n < length (ps_sent s)"
  shows "panic_step s (Deliver i) = s"
proof -
  have "(of_nat (Suc i) :: u32) \<le> of_nat (Suc n)" using assms by (subst seq_le_iff) auto
  then show ?thesis
    using assms by (subst panic_step_Deliver) auto
qed

text \<open>
  C7: The panic key severs both sides. In any history of fewer than \<open>2 ^ 32 - 1\<close> panics, firing
  while the transport is up rejects the next injected event on the assisted side at once and
  keeps the transport up. Whatever happens meanwhile except another panic (new grants, late
  or repeated older notices), the delivery of the notice then rejects injection on the
  technician's side and records the panic. Afterwards repeating that notice or any older one
  changes nothing, even when control was granted anew.
\<close>

theorem panic_severs_both_sides:
  assumes "s = foldl panic_step panic_system_new history"
    and "transport_up (ps_local s)"
    and "length (ps_sent s) < 2 ^ 32 - 1"
    and "LocalFire \<notin> set meanwhile" "Deliver (length (ps_sent s)) \<notin> set meanwhile"
  defines "fired \<equiv> panic_step s LocalFire"
  defines "told \<equiv> panic_step (foldl panic_step fired meanwhile) (Deliver (length (ps_sent s)))"
  shows "apply_event st now (ps_session fired) = Inl NoActiveGrant \<and>
    transport_up (ps_local fired) \<and> panic_fired (ps_local fired) \<and>
    apply_event st now (ps_mirror told) = Inl NoActiveGrant \<and>
    panic_fired (ps_remote told) \<and>
    (\<forall>g. \<forall>i\<le>length (ps_sent s).
       panic_step (panic_step told (RemoteGrant g)) (Deliver i) = panic_step told (RemoteGrant g))"
proof -
  have inv: "panic_inv s" unfolding assms(1) by (rule panic_run.inv_run)
  let ?n = "length (ps_sent s)" and ?m = "foldl panic_step fired meanwhile"
  have aw: "awaiting ?n ?m"
    unfolding fired_def by (rule awaiting_run [OF awaiting_fire [OF inv assms(2)] assms(4,5)])
  note told = awaiting_deliver [OF aw assms(3)]
  have fired: "apply_event st now (ps_session fired) = Inl NoActiveGrant"
    "transport_up (ps_local fired)" "panic_fired (ps_local fired)"
    using assms(2)
    by (simp_all add: fired_def panic_step_Fire control_gate.admit_none)
  have severed: "apply_event st now (ps_mirror told) = Inl NoActiveGrant"
    "panic_fired (ps_remote told)"
    by (simp_all add: told_def told control_gate.admit_none)
  have repeat: "panic_step (panic_step told (RemoteGrant g)) (Deliver i) =
      panic_step told (RemoteGrant g)" if "i \<le> ?n" for g i
  proof (rule stale_deliver [OF _ _ that assms(3)])
    have "panic_inv ?m" using aw by (simp add: awaiting_def)
    then show "panic_inv (panic_step told (RemoteGrant g))"
      unfolding told_def by (intro panic_inv_step)
    show "pr_last_seq (ps_receiver (panic_step told (RemoteGrant g))) = Some (of_nat (Suc ?n))"
      unfolding told_def told by simp
    show "?n < length (ps_sent (panic_step told (RemoteGrant g)))"
      using aw unfolding told_def told by (simp add: awaiting_def)
  qed
  show ?thesis using fired severed repeat by blast
qed

theorem panic_severs_both_sides_witness:
  "apply_event [] 0 (ps_mirror (foldl panic_step panic_system_new
     [LocalTransport True, RemoteGrant (Some control_grant_new), LocalFire, Deliver 0])) =
   Inl NoActiveGrant"
proof -
  let ?s = "foldl panic_step panic_system_new
    [LocalTransport True, RemoteGrant (Some control_grant_new)]"
  have up: "transport_up (ps_local ?s)" and sent: "ps_sent ?s = []"
    by (simp_all add: panic_system_new_def set_transport_up_def)
  have len: "length (ps_sent ?s) < 2 ^ 32 - 1" unfolding sent by simp
  have "apply_event [] 0 (ps_mirror (panic_step (foldl panic_step (panic_step ?s LocalFire) [])
      (Deliver (length (ps_sent ?s))))) = Inl NoActiveGrant"
    using panic_severs_both_sides [OF refl up len, of "[]" "[]" 0] by simp
  then show ?thesis unfolding sent by simp
qed

end
