(* ===== verification/Wire.thy ===== *)
theory Wire
  imports Codec Clipboard Panic
begin

text \<open>
  Chat and the application message frames: \<open>core/messaging/src/chat.rs\<close> and
  \<open>core/messaging/src/wire.rs\<close>. The helper functions that advance a slice are readers. The
  lemmas interpret the codec interface for every field and show that the decoder accepts
  exactly the encodings of frames within the channel caps, whatever follows them.
\<close>

section \<open>Chat\<close>

definition SURVIVAL_TIER_BPS :: u64 where "SURVIVAL_TIER_BPS = 48000"
definition CHAT_MAX_TEXT_BYTES :: nat where "CHAT_MAX_TEXT_BYTES = 256"

datatype chat_error = ChatTextTooLong nat

record chat_message =
  chat_text :: rust_str

definition chat_byte_len :: "chat_message \<Rightarrow> nat" where
  "chat_byte_len m = str_len (chat_text m)"

record chat_session =
  chat_outbox :: "chat_message list"

definition chat_new :: chat_session where
  "chat_new = \<lparr>chat_outbox = []\<rparr>"

definition chat_send ::
  "chat_session \<Rightarrow> rust_str \<Rightarrow> (chat_error + chat_message) \<times> chat_session" where
  "chat_send s txt =
     (if CHAT_MAX_TEXT_BYTES < str_len txt then (Inl (ChatTextTooLong (str_len txt)), s)
      else (let s' = s\<lparr>chat_outbox := chat_outbox s @ [\<lparr>chat_text = txt\<rparr>]\<rparr> in
            (Inr (last (chat_outbox s')), s')))"

definition chat_drain :: "chat_session \<Rightarrow> chat_message list \<times> chat_session" where
  "chat_drain s = (chat_outbox s, s\<lparr>chat_outbox := []\<rparr>)"

section \<open>Message frames\<close>

definition KIND_CHAT :: u8 where "KIND_CHAT = 0x01"
definition KIND_CLIPBOARD_TEXT :: u8 where "KIND_CLIPBOARD_TEXT = 0x02"
definition KIND_CLIPBOARD_FILES :: u8 where "KIND_CLIPBOARD_FILES = 0x03"
definition KIND_PANIC :: u8 where "KIND_PANIC = 0x04"

datatype message_frame =
    FrameChat rust_str
  | FrameClipboardText rust_str
  | FrameClipboardFiles clipboard_file_offer
  | FramePanic panic_notice

datatype frame_error = FrameTruncated | FrameUnknownKind u8 | FrameTooLong | FrameBadUtf8

text \<open>\<open>s.len() as u16\<close> keeps the low 16 bits of the length.\<close>

definition put_str :: "rust_str \<Rightarrow> bytes" where
  "put_str s = to_le_bytes 2 (of_nat (str_len s) :: u16) @ str_as_bytes s"

definition put_entry :: "clipboard_file_entry \<Rightarrow> bytes" where
  "put_entry e = put_str (fe_name e) @ to_le_bytes 8 (fe_size e)"

fun message_encode :: "message_frame \<Rightarrow> bytes" where
  "message_encode (FrameChat txt) = KIND_CHAT # put_str txt"
| "message_encode (FrameClipboardText txt) = KIND_CLIPBOARD_TEXT # put_str txt"
| "message_encode (FrameClipboardFiles offer) =
     KIND_CLIPBOARD_FILES # to_le_bytes 2 (of_nat (length (fo_entries offer)) :: u16) @
       concat (map put_entry (fo_entries offer))"
| "message_encode (FramePanic notice) = KIND_PANIC # to_le_bytes 4 (pn_seq notice)"

definition take_u16 :: "(frame_error, u16) reader" where
  "take_u16 = take_word FrameTruncated 2"

definition take_u32 :: "(frame_error, u32) reader" where
  "take_u32 = take_word FrameTruncated 4"

definition take_u64 :: "(frame_error, u64) reader" where
  "take_u64 = take_word FrameTruncated 8"

definition take_str :: "nat \<Rightarrow> (frame_error, rust_str) reader" where
  "take_str cap rest =
     (case take_u16 rest of
        Inl e \<Rightarrow> Inl e
      | Inr (len, rest1) \<Rightarrow>
          if cap < unat len then Inl FrameTooLong
          else
            (case split_at_checked FrameTruncated (unat len) rest1 of
               Inl e \<Rightarrow> Inl e
             | Inr (head, tail) \<Rightarrow>
                 (case str_from_utf8 head of
                    None \<Rightarrow> Inl FrameBadUtf8
                  | Some s \<Rightarrow> Inr (s, tail))))"

text \<open>The body of the loop over the entries of a file offer.\<close>

definition take_entry :: "(frame_error, clipboard_file_entry) reader" where
  "take_entry rest =
     (case take_str CLIPBOARD_MAX_TEXT_BYTES rest of
        Inl e \<Rightarrow> Inl e
      | Inr (name, rest1) \<Rightarrow>
          (case take_u64 rest1 of
             Inl e \<Rightarrow> Inl e
           | Inr (sz, rest2) \<Rightarrow> Inr (\<lparr>fe_name = name, fe_size = sz\<rparr>, rest2)))"

definition message_decode :: "bytes \<Rightarrow> frame_error + message_frame" where
  "message_decode buf =
     (case buf of
        [] \<Rightarrow> Inl FrameTruncated
      | kind # rest \<Rightarrow>
          if kind = KIND_CHAT then
            (case take_str CHAT_MAX_TEXT_BYTES rest of
               Inl e \<Rightarrow> Inl e
             | Inr (txt, _) \<Rightarrow> Inr (FrameChat txt))
          else if kind = KIND_CLIPBOARD_TEXT then
            (case take_str CLIPBOARD_MAX_TEXT_BYTES rest of
               Inl e \<Rightarrow> Inl e
             | Inr (txt, _) \<Rightarrow> Inr (FrameClipboardText txt))
          else if kind = KIND_CLIPBOARD_FILES then
            (case take_u16 rest of
               Inl e \<Rightarrow> Inl e
             | Inr (count, rest1) \<Rightarrow>
                 if CLIPBOARD_MAX_FILES < unat count then Inl FrameTooLong
                 else
                   (case take_many take_entry (unat count) rest1 of
                      Inl e \<Rightarrow> Inl e
                    | Inr (entries, _) \<Rightarrow> Inr (FrameClipboardFiles \<lparr>fo_entries = entries\<rparr>)))
          else if kind = KIND_PANIC then
            (case take_u32 rest of
               Inl e \<Rightarrow> Inl e
             | Inr (seq, _) \<Rightarrow> Inr (FramePanic \<lparr>pn_seq = seq\<rparr>))
          else Inl (FrameUnknownKind kind))"

section \<open>Field codecs\<close>

lemma unat_of_nat_u16: "n < 65536 \<Longrightarrow> unat (of_nat n :: u16) = n"
  by (simp add: unsigned_of_nat take_bit_nat_eq_self)

interpretation u64_codec: codec "to_le_bytes 8" take_u64 "\<lambda>_. True"
  by unfold_locales (simp_all add: take_u64_def take_word_iff)

definition str_ok :: "nat \<Rightarrow> rust_str \<Rightarrow> bool" where
  "str_ok cap s \<longleftrightarrow> valid_str s \<and> str_len s \<le> cap"

lemma take_str_iff:
  assumes "cap < 65536"
  shows "take_str cap bs = Inr (s, rest) \<longleftrightarrow> str_ok cap s \<and> bs = put_str s @ rest"
proof
  assume "take_str cap bs = Inr (s, rest)"
  then obtain len bs1 head where l: "take_u16 bs = Inr (len, bs1)" "unat len \<le> cap"
    and h: "split_at_checked FrameTruncated (unat len) bs1 = Inr (head, rest)"
    and u: "str_from_utf8 head = Some s"
    by (auto simp: take_str_def not_less split: sum.splits if_splits option.splits)
  from str_as_bytes_from_utf8 [OF u] h have "str_as_bytes s = head" "valid_str s"
    "bs1 = head @ rest" "str_len s = unat len"
    by (auto simp: split_at_checked_iff simp flip: length_str_as_bytes)
  moreover have "bs = to_le_bytes 2 len @ bs1"
    using l(1) by (simp add: take_u16_def take_word_iff)
  ultimately show "str_ok cap s \<and> bs = put_str s @ rest"
    using l(2) by (simp add: str_ok_def put_str_def)
next
  assume r: "str_ok cap s \<and> bs = put_str s @ rest"
  then have len: "unat (of_nat (str_len s) :: u16) = str_len s"
    using assms by (simp add: str_ok_def unat_of_nat_u16)
  have "take_u16 bs = Inr (of_nat (str_len s), str_as_bytes s @ rest)"
    using r by (simp add: take_u16_def take_word_iff put_str_def)
  moreover have "split_at_checked FrameTruncated (str_len s) (str_as_bytes s @ rest) =
      Inr (str_as_bytes s, rest)"
    by (simp add: split_at_checked_iff)
  ultimately show "take_str cap bs = Inr (s, rest)"
    using r len by (simp add: take_str_def str_ok_def str_from_utf8_as_bytes)
qed

lemma clipboard_cap: "CLIPBOARD_MAX_TEXT_BYTES < 65536"
  by (simp add: CLIPBOARD_MAX_TEXT_BYTES_def)

lemma chat_cap: "CHAT_MAX_TEXT_BYTES < 65536"
  by (simp add: CHAT_MAX_TEXT_BYTES_def)

interpretation entry_codec: codec put_entry take_entry
  "\<lambda>e. str_ok CLIPBOARD_MAX_TEXT_BYTES (fe_name e)"
proof unfold_locales
  fix x :: clipboard_file_entry and rest bs
  have s: "take_str CLIPBOARD_MAX_TEXT_BYTES (put_entry x @ rest) =
      Inr (fe_name x, to_le_bytes 8 (fe_size x) @ rest)"
    if "str_ok CLIPBOARD_MAX_TEXT_BYTES (fe_name x)"
    using that by (simp add: take_str_iff [OF clipboard_cap] put_entry_def)
  show "str_ok CLIPBOARD_MAX_TEXT_BYTES (fe_name x) \<Longrightarrow> take_entry (put_entry x @ rest) = Inr (x, rest)"
    by (simp add: take_entry_def s u64_codec.get_put)
  assume "take_entry bs = Inr (x, rest)"
  then show "str_ok CLIPBOARD_MAX_TEXT_BYTES (fe_name x) \<and> bs = put_entry x @ rest"
    by (auto simp: take_entry_def put_entry_def take_str_iff [OF clipboard_cap] u64_codec.get_iff
        split: sum.splits)
qed

section \<open>The whole frame\<close>

text \<open>A frame within the caps of its channel.\<close>

fun frame_ok :: "message_frame \<Rightarrow> bool" where
  "frame_ok (FrameChat txt) = str_ok CHAT_MAX_TEXT_BYTES txt"
| "frame_ok (FrameClipboardText txt) = str_ok CLIPBOARD_MAX_TEXT_BYTES txt"
| "frame_ok (FrameClipboardFiles offer) \<longleftrightarrow>
     length (fo_entries offer) \<le> CLIPBOARD_MAX_FILES \<and>
     list_all (\<lambda>e. str_ok CLIPBOARD_MAX_TEXT_BYTES (fe_name e)) (fo_entries offer)"
| "frame_ok (FramePanic notice) = True"

lemmas kind_defs = KIND_CHAT_def KIND_CLIPBOARD_TEXT_def KIND_CLIPBOARD_FILES_def KIND_PANIC_def

lemma message_decode_encode:
  assumes "frame_ok f"
  shows "message_decode (message_encode f @ rest) = Inr f"
proof (cases f)
  case (FrameChat t)
  with assms have "take_str CHAT_MAX_TEXT_BYTES (put_str t @ rest) = Inr (t, rest)"
    by (simp add: take_str_iff [OF chat_cap])
  with FrameChat show ?thesis by (simp add: message_decode_def)
next
  case (FrameClipboardText t)
  with assms have "take_str CLIPBOARD_MAX_TEXT_BYTES (put_str t @ rest) = Inr (t, rest)"
    by (simp add: take_str_iff [OF clipboard_cap])
  with FrameClipboardText show ?thesis by (simp add: message_decode_def kind_defs)
next
  case (FrameClipboardFiles offer)
  let ?es = "fo_entries offer"
  have n: "unat (of_nat (length ?es) :: u16) = length ?es"
    using assms FrameClipboardFiles by (simp add: CLIPBOARD_MAX_FILES_def unat_of_nat_u16)
  have "take_u16 (to_le_bytes 2 (of_nat (length ?es) :: u16) @ concat (map put_entry ?es) @ rest) =
      Inr (of_nat (length ?es), concat (map put_entry ?es) @ rest)"
    by (simp add: take_u16_def take_word_iff)
  moreover have "take_many take_entry (length ?es) (concat (map put_entry ?es) @ rest) =
      Inr (?es, rest)"
    using assms FrameClipboardFiles by (simp add: entry_codec.take_many_iff)
  ultimately show ?thesis
    using assms FrameClipboardFiles n by (simp add: message_decode_def kind_defs)
next
  case (FramePanic notice)
  have "take_u32 (to_le_bytes 4 (pn_seq notice) @ rest) = Inr (pn_seq notice, rest)"
    by (simp add: take_u32_def take_word_iff)
  with FramePanic show ?thesis by (simp add: message_decode_def kind_defs)
qed

lemma message_decode_sound:
  assumes "message_decode buf = Inr f"
  shows "frame_ok f \<and> (\<exists>rest. buf = message_encode f @ rest)"
proof -
  from assms obtain kind rest where buf: "buf = kind # rest"
    by (auto simp: message_decode_def split: list.splits)
  consider "kind = KIND_CHAT" | "kind = KIND_CLIPBOARD_TEXT" | "kind = KIND_CLIPBOARD_FILES"
    | "kind = KIND_PANIC"
    using assms by (auto simp: message_decode_def buf split: if_splits)
  then show ?thesis
  proof cases
    case 1
    then show ?thesis using assms
      by (auto simp: message_decode_def buf take_str_iff [OF chat_cap] split: sum.splits)
  next
    case 2
    then show ?thesis using assms
      by (auto simp: message_decode_def buf kind_defs take_str_iff [OF clipboard_cap]
          split: sum.splits)
  next
    case 3
    with assms obtain count rest1 entries rest2 where
      c: "take_u16 rest = Inr (count, rest1)" "unat count \<le> CLIPBOARD_MAX_FILES"
      and e: "take_many take_entry (unat count) rest1 = Inr (entries, rest2)"
      and f: "f = FrameClipboardFiles \<lparr>fo_entries = entries\<rparr>"
      by (auto simp: message_decode_def buf kind_defs not_less split: sum.splits if_splits)
    from e have "length entries = unat count" by (simp add: entry_codec.take_many_iff)
    then have "count = of_nat (length entries)" by simp
    with c e f 3 show ?thesis
      by (auto simp: buf entry_codec.take_many_iff take_u16_def take_word_iff)
  next
    case 4
    then show ?thesis using assms
      by (auto simp: message_decode_def buf kind_defs take_u32_def take_word_iff split: sum.splits)
  qed
qed

text \<open>
  C37: The message decoder accepts exactly the encodings of frames within the channel caps,
  followed by anything: it returns a frame if and only if that frame respects the caps (text
  length, number of files, valid text) and its encoding is a prefix of the buffer. So every
  admissible chat, clipboard and panic message survives the wire, and a peer can make the
  decoder produce nothing larger than the caps.
\<close>

theorem message_decode_iff:
  "message_decode buf = Inr f \<longleftrightarrow> frame_ok f \<and> (\<exists>rest. buf = message_encode f @ rest)"
  using message_decode_encode message_decode_sound by metis

text \<open>
  Chat messages are never dropped. A text within the cap is appended to the outbox, a
  longer one is refused without effect, and for every sequence of sends the next hand-off
  returns exactly the accepted texts in the order they were sent.
\<close>

lemma chat_outbox_fifo:
  "chat_drain (foldl (\<lambda>s t. snd (chat_send s t)) chat_new ts) =
     (map (\<lambda>t. \<lparr>chat_text = t\<rparr>) (filter (\<lambda>t. str_len t \<le> CHAT_MAX_TEXT_BYTES) ts), chat_new)"
  by (induction ts rule: rev_induct)
    (auto simp: chat_drain_def chat_send_def chat_new_def Let_def)

end
