(* ===== verification/Dataplane.thy ===== *)
theory Dataplane
  imports Wire
begin

text \<open>
  The daemon's control data plane: \<open>core/lowbandd/src/dataplane.rs\<close> and the classification of
  datagrams in \<open>core/lowbandd/src/inbound.rs\<close>. The encrypted session is outside this theory:
  \<open>session.send\<close> and \<open>session.recv\<close> are the parameters \<open>send\<close> and \<open>recv\<close>, functions on the
  session state. The outer option of the results is the overflow panic of the clipboard's size
  sum.

  The lemmas show that a frame from the peer takes effect only through the gate of its
  subsystem and can take the control grant away but never give one.
\<close>

section \<open>Operations\<close>

datatype delivered =
    DeliveredChat rust_str
  | DeliveredClipboardText rust_str
  | DeliveredClipboardFiles nat
  | DeliveredPanic bool
  | DeliveredRejected string

datatype 'se data_plane_error = DataPlaneSession 'se | DataPlaneFrame frame_error

definition send_message ::
  "('s \<Rightarrow> bytes \<Rightarrow> ('se + unit) \<times> 's) \<Rightarrow> 's \<Rightarrow> message_frame \<Rightarrow> ('se + unit) \<times> 's" where
  "send_message send session frame = send session (message_encode frame)"

definition dispatch ::
  "bool \<Rightarrow> flag_store \<Rightarrow> message_frame \<Rightarrow> clipboard_session \<Rightarrow> control_session \<Rightarrow>
     panic_controller \<Rightarrow> panic_notice_receiver \<Rightarrow>
     (delivered \<times> control_session \<times> panic_controller \<times> panic_notice_receiver) option" where
  "dispatch overflow_checks st frame clipboard control panic panic_rx =
     (case frame of
        FrameChat txt \<Rightarrow> Some (DeliveredChat txt, control, panic, panic_rx)
      | FrameClipboardText txt \<Rightarrow>
          (case apply_remote st clipboard txt of
             Inr _ \<Rightarrow> Some (DeliveredClipboardText txt, control, panic, panic_rx)
           | Inl _ \<Rightarrow>
               Some (DeliveredRejected ''clipboard text rejected'', control, panic, panic_rx))
      | FrameClipboardFiles offer \<Rightarrow>
          (case apply_remote_files overflow_checks st clipboard offer of
             None \<Rightarrow> None
           | Some (Inr _) \<Rightarrow>
               Some (DeliveredClipboardFiles (length (fo_entries offer)), control, panic, panic_rx)
           | Some (Inl _) \<Rightarrow>
               Some (DeliveredRejected ''clipboard files rejected'', control, panic, panic_rx))
      | FramePanic notice \<Rightarrow>
          (let (severed, panic_rx', control', panic') =
             panic_notice_apply panic_rx notice control panic in
           Some (DeliveredPanic severed, control', panic', panic_rx')))"

definition recv_and_dispatch ::
  "('s \<Rightarrow> ('se + bytes) \<times> 's) \<Rightarrow> bool \<Rightarrow> flag_store \<Rightarrow> 's \<Rightarrow> clipboard_session \<Rightarrow>
     control_session \<Rightarrow> panic_controller \<Rightarrow> panic_notice_receiver \<Rightarrow>
     (('se data_plane_error + delivered) \<times> 's \<times> control_session \<times> panic_controller \<times>
       panic_notice_receiver) option" where
  "recv_and_dispatch recv overflow_checks st session clipboard control panic panic_rx =
     (case recv session of
        (Inl e, session') \<Rightarrow> Some (Inl (DataPlaneSession e), session', control, panic, panic_rx)
      | (Inr bs, session') \<Rightarrow>
          (case message_decode bs of
             Inl e \<Rightarrow> Some (Inl (DataPlaneFrame e), session', control, panic, panic_rx)
           | Inr frame \<Rightarrow>
               (case dispatch overflow_checks st frame clipboard control panic panic_rx of
                  None \<Rightarrow> None
                | Some (d, control', panic', panic_rx') \<Rightarrow>
                    Some (Inr d, session', control', panic', panic_rx'))))"

datatype channel = ChannelMessage | ChannelFile | ChannelScreen | ChannelVoice | ChannelUnknown u8

definition classify :: "bytes \<Rightarrow> channel" where
  "classify bs =
     (case bs of
        [] \<Rightarrow> ChannelUnknown 0
      | b # _ \<Rightarrow>
          if 0x01 \<le> b \<and> b \<le> 0x04 then ChannelMessage
          else if 0x10 \<le> b \<and> b \<le> 0x12 then ChannelFile
          else if 0x20 \<le> b \<and> b \<le> 0x22 then ChannelScreen
          else if 0x30 \<le> b \<and> b \<le> 0x31 then ChannelVoice
          else ChannelUnknown b)"

section \<open>Gating\<close>

lemma apply_remote_ok:
  "apply_remote st s txt = Inr () \<Longrightarrow>
     clipboard_is_granted st s \<and> str_len txt \<le> CLIPBOARD_MAX_TEXT_BYTES"
  by (auto simp: apply_remote_def check_grant_def clipboard_is_granted_def not_less
      split: sum.splits option.splits if_splits)

lemma apply_remote_files_ok:
  "apply_remote_files oc st s offer = Some (Inr ()) \<Longrightarrow>
     clipboard_is_granted st s \<and> length (fo_entries offer) \<le> CLIPBOARD_MAX_FILES \<and>
     (\<forall>e\<in>set (fo_entries offer). safe_file_name (fe_name e))"
  by (auto simp: apply_remote_files_def check_names_Inr_iff check_grant_def
      clipboard_is_granted_def not_less split: sum.splits option.splits if_splits)

text \<open>What one received buffer may do to the receiver, read off the result.\<close>

definition gated ::
  "flag_store \<Rightarrow> bytes \<Rightarrow> clipboard_session \<Rightarrow> delivered \<Rightarrow> bool" where
  "gated st bs clipboard d =
     (case d of
        DeliveredChat txt \<Rightarrow> str_ok CHAT_MAX_TEXT_BYTES txt
      | DeliveredClipboardText txt \<Rightarrow>
          clipboard_is_granted st clipboard \<and> str_ok CLIPBOARD_MAX_TEXT_BYTES txt
      | DeliveredClipboardFiles n \<Rightarrow>
          clipboard_is_granted st clipboard \<and> n \<le> CLIPBOARD_MAX_FILES \<and>
          (\<exists>offer rest. bs = message_encode (FrameClipboardFiles offer) @ rest \<and>
             n = length (fo_entries offer) \<and>
             (\<forall>e\<in>set (fo_entries offer). \<forall>dir. resolve dir (fe_name e) = dir @ [fe_name e]))
      | _ \<Rightarrow> True)"

lemma dispatch_gated:
  assumes "message_decode bs = Inr frame"
    and "dispatch oc st frame clipboard control panic rx = Some (d, control', panic', rx')"
  shows "gated st bs clipboard d"
proof -
  obtain rest where ok: "frame_ok frame" and bs: "bs = message_encode frame @ rest"
    using message_decode_sound [OF assms(1)] by blast
  show ?thesis
  proof (cases frame)
    case (FrameClipboardFiles offer)
    with assms(2) bs show ?thesis
      by (auto simp: dispatch_def gated_def safe_file_name_resolve split: sum.splits option.splits
          dest!: apply_remote_files_ok simp del: message_encode.simps intro!: exI [of _ offer])
  qed (use assms(2) ok in \<open>auto simp: dispatch_def gated_def Let_def split: sum.splits prod.splits
      dest!: apply_remote_ok\<close>)
qed

lemma dispatch_control:
  assumes "dispatch oc st frame clipboard control panic rx = Some (d, control', panic', rx')"
  shows "if d = DeliveredPanic True
    then cs_grant control' = None \<and> panic_fired panic' \<and> transport_up panic' = transport_up panic
    else control' = control \<and> panic' = panic \<and> rx' = rx"
  using assms
  by (auto simp: dispatch_def panic_notice_apply_def control_set_grant_def Let_def
      split: message_frame.splits sum.splits option.splits if_splits)

text \<open>
  C8: Nothing a peer sends bypasses a gate. Whatever bytes the session delivers, if a frame
  takes effect then chat text is within its cap, clipboard text and files were admitted under
  a live grant within their caps, and every offered file name stays inside the directory it
  is written to. The control grant, the panic state and the receiver change only when a new
  panic notice is reported as severing, which removes the grant and leaves the transport up;
  no frame ever gives a grant.
\<close>

theorem dataplane_only_through_gates:
  assumes "recv_and_dispatch recv overflow_checks st session clipboard control panic panic_rx =
      Some (result, session', control', panic', panic_rx')"
  shows "(\<forall>d. result = Inr d \<longrightarrow>
      (\<exists>bs. fst (recv session) = Inr bs \<and> gated st bs clipboard d)) \<and>
    (if result = Inr (DeliveredPanic True)
     then cs_grant control' = None \<and> panic_fired panic' \<and> transport_up panic' = transport_up panic
     else control' = control \<and> panic' = panic \<and> panic_rx' = panic_rx)"
proof (cases "\<exists>d. result = Inr d")
  case True
  with assms obtain d bs frame where r: "recv session = (Inr bs, session')" "result = Inr d"
    and f: "message_decode bs = Inr frame"
    and d: "dispatch overflow_checks st frame clipboard control panic panic_rx =
      Some (d, control', panic', panic_rx')"
    by (auto simp: recv_and_dispatch_def split: sum.splits prod.splits option.splits)
  from dispatch_gated [OF f d] dispatch_control [OF d] r show ?thesis by simp
next
  case False
  with assms show ?thesis
    by (auto simp: recv_and_dispatch_def split: sum.splits prod.splits option.splits)
qed

text \<open>The witness receives a panic frame, number 1, while control is granted.\<close>

theorem dataplane_only_through_gates_witness:
  "\<exists>result session' control' panic' rx'.
     recv_and_dispatch (\<lambda>s. (Inr s :: unit + bytes, s)) True [] [4, 1, 0, 0, 0] clipboard_session_new
       \<lparr>cs_grant = Some control_grant_new\<rparr> panic_controller_new panic_receiver_new =
     Some (result, session', control', panic', rx') \<and>
     result = Inr (DeliveredPanic True) \<and> cs_grant control' = None"
proof -
  have d: "message_decode [4, 1, 0, 0, 0] = Inr (FramePanic \<lparr>pn_seq = 1\<rparr>)" by code_simp
  obtain result session' control' panic' rx' where
    r: "recv_and_dispatch (\<lambda>s. (Inr s :: unit + bytes, s)) True [] [4, 1, 0, 0, 0]
        clipboard_session_new \<lparr>cs_grant = Some control_grant_new\<rparr> panic_controller_new
        panic_receiver_new = Some (result, session', control', panic', rx')"
    and p: "result = Inr (DeliveredPanic True)"
    by (simp add: recv_and_dispatch_def d dispatch_def panic_notice_apply_def panic_receiver_new_def)
  from dataplane_only_through_gates [OF r] p r show ?thesis by simp
qed

text \<open>
  A datagram is routed to the message decoder if and only if its first byte is one of the
  four message kinds, so every encoded message frame reaches the right decoder, and the
  decoder refuses every other first byte.
\<close>

lemma classify_message_kinds:
  "(classify bs = ChannelMessage \<longleftrightarrow>
      bs \<noteq> [] \<and> hd bs \<in> {KIND_CHAT, KIND_CLIPBOARD_TEXT, KIND_CLIPBOARD_FILES, KIND_PANIC}) \<and>
   classify (message_encode f @ rest) = ChannelMessage \<and>
   (classify bs \<noteq> ChannelMessage \<longrightarrow> (\<exists>e. message_decode bs = Inl e))"
proof -
  have four: "1 \<le> b \<and> b \<le> 4 \<longleftrightarrow> b = 1 \<or> b = 2 \<or> b = 3 \<or> b = 4" for b :: u8
  proof -
    have "1 \<le> b \<and> b \<le> 4 \<longleftrightarrow> unat b = 1 \<or> unat b = 2 \<or> unat b = 3 \<or> unat b = 4"
      by (auto simp: word_le_nat_alt)
    also have "\<dots> \<longleftrightarrow> b = 1 \<or> b = 2 \<or> b = 3 \<or> b = 4" by (simp add: word_unat_eq_iff)
    finally show ?thesis .
  qed
  have iff: "classify bs = ChannelMessage \<longleftrightarrow>
      bs \<noteq> [] \<and> hd bs \<in> {KIND_CHAT, KIND_CLIPBOARD_TEXT, KIND_CLIPBOARD_FILES, KIND_PANIC}" for bs
    by (cases bs) (auto simp: classify_def kind_defs four)
  moreover have "\<exists>e. message_decode bs = Inl e" if "classify bs \<noteq> ChannelMessage"
    using that unfolding iff by (cases bs) (auto simp: message_decode_def)
  ultimately show ?thesis by (cases f) auto
qed

end
