(* ===== verification/Consent_Ui.thy ===== *)
theory Consent_Ui
  imports Prelude
begin

text \<open>
  The consent dialogs of the desktop shell: the consent screen
  (\<open>shells/src/consent_screen.rs\<close>), the panic button (\<open>shells/src/panic_control.rs\<close>) and the
  revocation button (\<open>shells/src/revocation_control.rs\<close>). They are pure state machines driven
  by daemon and user events.

  The consent screen is proved equal to a description of its event history: a choice is
  reported only after a request was shown and as the first decision made on it. The two
  buttons share the interface \<open>latched_control\<close>: their indicator is characterised by the
  history of session, grant and severing events.
\<close>

section \<open>The consent screen\<close>

datatype grant_choice = ViewOnly | ViewAndControl

datatype consent_screen_state = CsIdle | CsPendingRequest | CsGranted grant_choice | CsDenied

record consent_screen =
  csc_state :: consent_screen_state

definition consent_screen_new :: consent_screen where
  "consent_screen_new = \<lparr>csc_state = CsIdle\<rparr>"

definition on_consent_request :: "consent_screen \<Rightarrow> consent_screen" where
  "on_consent_request s = (if csc_state s = CsIdle then s\<lparr>csc_state := CsPendingRequest\<rparr> else s)"

definition consent_screen_grant :: "consent_screen \<Rightarrow> grant_choice \<Rightarrow> consent_screen" where
  "consent_screen_grant s choice =
     (if csc_state s = CsPendingRequest then s\<lparr>csc_state := CsGranted choice\<rparr> else s)"

definition consent_screen_deny :: "consent_screen \<Rightarrow> consent_screen" where
  "consent_screen_deny s = (if csc_state s = CsPendingRequest then s\<lparr>csc_state := CsDenied\<rparr> else s)"

definition consent_screen_reset :: "consent_screen \<Rightarrow> consent_screen" where
  "consent_screen_reset s = s\<lparr>csc_state := CsIdle\<rparr>"

definition on_session_ended :: "consent_screen \<Rightarrow> consent_screen" where
  "on_session_ended s = s\<lparr>csc_state := CsIdle\<rparr>"

definition pending_grant :: "consent_screen \<Rightarrow> grant_choice option" where
  "pending_grant s = (case csc_state s of CsGranted choice \<Rightarrow> Some choice | _ \<Rightarrow> None)"

datatype consent_op = Request | Grant grant_choice | Deny | Reset | SessionEnded

fun consent_step :: "consent_screen \<Rightarrow> consent_op \<Rightarrow> consent_screen" where
  "consent_step s Request = on_consent_request s"
| "consent_step s (Grant c) = consent_screen_grant s c"
| "consent_step s Deny = consent_screen_deny s"
| "consent_step s Reset = consent_screen_reset s"
| "consent_step s SessionEnded = on_session_ended s"

section \<open>The panic button\<close>

datatype panic_control_state = PcNoSession | PcControlNotGranted | PcControlActive | PcInjectionSevered

record panic_control =
  pct_session_active :: bool
  pct_control_granted :: bool
  pct_panic_fired :: bool

definition panic_control_new :: panic_control where
  "panic_control_new =
     \<lparr>pct_session_active = False, pct_control_granted = False, pct_panic_fired = False\<rparr>"

definition panic_set_session_active :: "panic_control \<Rightarrow> bool \<Rightarrow> panic_control" where
  "panic_set_session_active s active =
     (let s' = s\<lparr>pct_session_active := active\<rparr> in
      if \<not> active then s'\<lparr>pct_control_granted := False, pct_panic_fired := False\<rparr> else s')"

definition set_control_granted :: "panic_control \<Rightarrow> bool \<Rightarrow> panic_control" where
  "set_control_granted s granted =
     (let s' = s\<lparr>pct_control_granted := granted\<rparr> in
      if granted then s'\<lparr>pct_panic_fired := False\<rparr> else s')"

definition on_panic_fired :: "panic_control \<Rightarrow> panic_control" where
  "on_panic_fired s = (if pct_session_active s then s\<lparr>pct_panic_fired := True\<rparr> else s)"

definition panic_control_display :: "panic_control \<Rightarrow> panic_control_state" where
  "panic_control_display s =
     (if \<not> pct_session_active s then PcNoSession
      else if pct_panic_fired s then PcInjectionSevered
      else if pct_control_granted s then PcControlActive
      else PcControlNotGranted)"

section \<open>The revocation button\<close>

datatype revocation_control_state = RcNoSession | RcNoGrant | RcGrantActive | RcAccessRevoked

record revocation_control =
  rct_session_active :: bool
  rct_grant_active :: bool
  rct_revoked :: bool

definition revocation_control_new :: revocation_control where
  "revocation_control_new =
     \<lparr>rct_session_active = False, rct_grant_active = False, rct_revoked = False\<rparr>"

definition revocation_set_session_active :: "revocation_control \<Rightarrow> bool \<Rightarrow> revocation_control" where
  "revocation_set_session_active s active =
     (let s' = s\<lparr>rct_session_active := active\<rparr> in
      if \<not> active then s'\<lparr>rct_grant_active := False, rct_revoked := False\<rparr> else s')"

definition set_grant_active :: "revocation_control \<Rightarrow> bool \<Rightarrow> revocation_control" where
  "set_grant_active s active =
     (let s' = s\<lparr>rct_grant_active := active\<rparr> in
      if active then s'\<lparr>rct_revoked := False\<rparr> else s')"

definition on_access_revoked :: "revocation_control \<Rightarrow> revocation_control" where
  "on_access_revoked s = (if rct_session_active s then s\<lparr>rct_revoked := True\<rparr> else s)"

definition revocation_control_display :: "revocation_control \<Rightarrow> revocation_control_state" where
  "revocation_control_display s =
     (if \<not> rct_session_active s then RcNoSession
      else if rct_revoked s then RcAccessRevoked
      else if rct_grant_active s then RcGrantActive
      else RcNoGrant)"

section \<open>The consent screen follows its history\<close>

fun is_decision :: "consent_op \<Rightarrow> bool" where
  "is_decision (Grant c) = True"
| "is_decision Deny = True"
| "is_decision _ = False"

fun is_reset :: "consent_op \<Rightarrow> bool" where
  "is_reset Reset = True"
| "is_reset SessionEnded = True"
| "is_reset _ = False"

text \<open>What the user sees, read off the events since the last reset.\<close>

definition since_reset :: "consent_op list \<Rightarrow> consent_op list" where
  "since_reset ops = rev (takeWhile (\<lambda>a. \<not> is_reset a) (rev ops))"

fun decided :: "consent_op list \<Rightarrow> consent_screen_state" where
  "decided [] = CsPendingRequest"
| "decided (Grant c # ops) = CsGranted c"
| "decided (Deny # ops) = CsDenied"
| "decided (a # ops) = decided ops"

fun shown :: "consent_op list \<Rightarrow> consent_screen_state" where
  "shown [] = CsIdle"
| "shown (Request # ops) = decided ops"
| "shown (a # ops) = shown ops"

lemmas consent_defs = on_consent_request_def consent_screen_grant_def consent_screen_deny_def
  consent_screen_reset_def on_session_ended_def

lemma run_from_decided:
  "\<lbrakk>\<forall>a\<in>set ops. \<not> is_reset a; csc_state s = CsGranted c \<or> csc_state s = CsDenied\<rbrakk> \<Longrightarrow>
     csc_state (foldl consent_step s ops) = csc_state s"
proof (induction ops arbitrary: s)
  case (Cons a ops)
  then show ?case by (cases a) (auto simp: consent_defs)
qed simp

lemma run_from_pending:
  "\<lbrakk>\<forall>a\<in>set ops. \<not> is_reset a; csc_state s = CsPendingRequest\<rbrakk> \<Longrightarrow>
     csc_state (foldl consent_step s ops) = decided ops"
proof (induction ops arbitrary: s)
  case (Cons a ops)
  then show ?case
    by (cases a) (auto simp: consent_defs run_from_decided)
qed simp

lemma run_from_idle:
  "\<lbrakk>\<forall>a\<in>set ops. \<not> is_reset a; csc_state s = CsIdle\<rbrakk> \<Longrightarrow>
     csc_state (foldl consent_step s ops) = shown ops"
proof (induction ops arbitrary: s)
  case (Cons a ops)
  then show ?case
    by (cases a) (auto simp: consent_defs run_from_pending)
qed simp

lemma since_reset_split:
  "\<exists>pre. ops = pre @ since_reset ops \<and> (pre = [] \<or> is_reset (last pre)) \<and>
     (\<forall>a\<in>set (since_reset ops). \<not> is_reset a)"
proof (intro exI conjI)
  let ?d = "dropWhile (\<lambda>a. \<not> is_reset a) (rev ops)"
  show "ops = rev ?d @ since_reset ops"
    unfolding since_reset_def by (metis rev_append rev_rev_ident takeWhile_dropWhile_id)
  show "rev ?d = [] \<or> is_reset (last (rev ?d))"
    by (metis hd_dropWhile last_rev rev_is_Nil_conv)
  show "\<forall>a\<in>set (since_reset ops). \<not> is_reset a"
    by (auto simp: since_reset_def dest: set_takeWhileD)
qed

lemma reset_step_idle: "is_reset a \<Longrightarrow> csc_state (consent_step s a) = CsIdle"
  by (cases a) (auto simp: consent_defs)

lemma consent_screen_history:
  "csc_state (foldl consent_step consent_screen_new ops) = shown (since_reset ops)"
proof -
  obtain pre where ops: "ops = pre @ since_reset ops"
    and pre: "pre = [] \<or> is_reset (last pre)"
    and clean: "\<forall>a\<in>set (since_reset ops). \<not> is_reset a"
    using since_reset_split by blast
  have idle: "csc_state (foldl consent_step consent_screen_new pre) = CsIdle"
  proof (cases pre rule: rev_cases)
    case Nil
    then show ?thesis by (simp add: consent_screen_new_def)
  next
    case (snoc p a)
    with pre show ?thesis by (simp add: reset_step_idle)
  qed
  have "foldl consent_step consent_screen_new ops =
      foldl consent_step (foldl consent_step consent_screen_new pre) (since_reset ops)"
    by (subst ops) simp
  with run_from_idle [OF clean idle] show ?thesis by simp
qed

lemma decided_skip: "\<not> is_decision a \<Longrightarrow> decided (a # ops) = decided ops"
  by (cases a) auto

lemma decided_Granted:
  "decided ops = CsGranted c \<Longrightarrow>
     \<exists>quiet rest. ops = quiet @ Grant c # rest \<and> (\<forall>a\<in>set quiet. \<not> is_decision a)"
proof (induction ops)
  case (Cons a ops)
  show ?case
  proof (cases "is_decision a")
    case True
    with Cons.prems have "a = Grant c" by (cases a) auto
    then show ?thesis by (intro exI [of _ "[]"] exI [of _ ops]) simp
  next
    case False
    with Cons obtain q r where "ops = q @ Grant c # r" "\<forall>a\<in>set q. \<not> is_decision a"
      by (auto simp: decided_skip)
    with False show ?thesis by (intro exI [of _ "a # q"] exI [of _ r]) simp
  qed
qed simp

lemma shown_skip: "a \<noteq> Request \<Longrightarrow> shown (a # ops) = shown ops"
  by (cases a) auto

lemma shown_Granted:
  "shown ops = CsGranted c \<Longrightarrow>
     \<exists>before rest. ops = before @ Request # rest \<and> decided rest = CsGranted c"
proof (induction ops)
  case (Cons a ops)
  show ?case
  proof (cases "a = Request")
    case True
    with Cons.prems show ?thesis by (intro exI [of _ "[]"] exI [of _ ops]) simp
  next
    case False
    with Cons show ?thesis by (metis append_Cons shown_skip)
  qed
qed simp

text \<open>
  No capability choice is reported before the user saw a request and confirmed it. If
  \<open>pending_grant\<close> returns a choice after any sequence of events, then since the last reset or
  session end a request was shown, the user then chose exactly that level, and no other
  decision was made on the request in between.
\<close>

lemma consent_only_after_confirmation:
  assumes "pending_grant (foldl consent_step consent_screen_new ops) = Some choice"
  shows "\<exists>before quiet rest.
    since_reset ops = before @ Request # quiet @ Grant choice # rest \<and>
    (\<forall>a\<in>set quiet. \<not> is_decision a)"
proof -
  have "shown (since_reset ops) = CsGranted choice"
    using assms
    by (auto simp: pending_grant_def consent_screen_history split: consent_screen_state.splits)
  then show ?thesis by (metis shown_Granted decided_Granted)
qed

section \<open>Interface: an indicator that stays until access is given anew\<close>

datatype latch_op = SessionActive bool | Granted bool | Severed

text \<open>
  A control shows its severed indicator from a severing event in an active session until the
  session ends or access is granted anew.
\<close>

locale latched_control =
  fixes init :: 's
    and step :: "'s \<Rightarrow> latch_op \<Rightarrow> 's"
    and active :: "'s \<Rightarrow> bool"
    and severed :: "'s \<Rightarrow> bool"
    and granted :: "'s \<Rightarrow> bool"
  assumes init_clear: "\<not> active init" "\<not> severed init" "\<not> granted init"
    and active_step: "active (step s a) \<longleftrightarrow>
      (case a of SessionActive b \<Rightarrow> b | _ \<Rightarrow> active s)"
    and severed_step: "severed (step s a) \<longleftrightarrow>
      (case a of SessionActive b \<Rightarrow> b \<and> severed s | Granted b \<Rightarrow> \<not> b \<and> severed s
       | Severed \<Rightarrow> active s \<or> severed s)"
    and granted_step: "granted (step s a) \<longleftrightarrow>
      (case a of SessionActive b \<Rightarrow> b \<and> granted s | Granted b \<Rightarrow> b | Severed \<Rightarrow> granted s)"
begin

lemma severed_only_active:
  "severed (foldl step init ops) \<Longrightarrow> active (foldl step init ops)"
  by (induction ops rule: rev_induct)
    (auto simp: init_clear active_step severed_step split: latch_op.splits)

lemma severed_persists:
  "\<lbrakk>severed s; active s; Granted True \<notin> set ops; SessionActive False \<notin> set ops\<rbrakk> \<Longrightarrow>
     severed (foldl step s ops) \<and> active (foldl step s ops)"
proof (induction ops rule: rev_induct)
  case (snoc a ops)
  then show ?case
    by (cases a) (auto simp: active_step severed_step)
qed simp

lemma severed_iff:
  "severed (foldl step init ops) \<longleftrightarrow>
     (\<exists>pre post. ops = pre @ Severed # post \<and> active (foldl step init pre) \<and>
        Granted True \<notin> set post \<and> SessionActive False \<notin> set post)" (is "?l \<longleftrightarrow> ?r")
proof
  show "?l \<Longrightarrow> ?r"
  proof (induction ops rule: rev_induct)
    case (snoc a ops)
    show ?case
    proof (cases "a = Severed \<and> active (foldl step init ops)")
      case True
      then show ?thesis by (intro exI [of _ ops] exI [of _ "[]"]) simp
    next
      case False
      with snoc.prems have s: "severed (foldl step init ops)"
        and a: "a \<noteq> Granted True" "a \<noteq> SessionActive False"
        by (auto simp: severed_step split: latch_op.splits)
      from snoc.IH [OF s] obtain pre post where "ops = pre @ Severed # post"
        "active (foldl step init pre)" "Granted True \<notin> set post" "SessionActive False \<notin> set post"
        by blast
      with a show ?thesis by (intro exI [of _ pre] exI [of _ "post @ [a]"]) auto
    qed
  qed (simp add: init_clear)
next
  assume ?r
  then obtain pre post where ops: "ops = pre @ Severed # post" and
    act: "active (foldl step init pre)" and
    post: "Granted True \<notin> set post" "SessionActive False \<notin> set post"
    by blast
  have "severed (step (foldl step init pre) Severed)" "active (step (foldl step init pre) Severed)"
    using act by (simp_all add: severed_step active_step)
  from severed_persists [OF this post] show ?l by (simp add: ops)
qed

end

fun panic_control_step :: "panic_control \<Rightarrow> latch_op \<Rightarrow> panic_control" where
  "panic_control_step s (SessionActive b) = panic_set_session_active s b"
| "panic_control_step s (Granted b) = set_control_granted s b"
| "panic_control_step s Severed = on_panic_fired s"

fun revocation_control_step :: "revocation_control \<Rightarrow> latch_op \<Rightarrow> revocation_control" where
  "revocation_control_step s (SessionActive b) = revocation_set_session_active s b"
| "revocation_control_step s (Granted b) = set_grant_active s b"
| "revocation_control_step s Severed = on_access_revoked s"

interpretation panic_button: latched_control panic_control_new panic_control_step
  pct_session_active pct_panic_fired pct_control_granted
  by unfold_locales
    (auto simp: panic_control_new_def panic_set_session_active_def set_control_granted_def
      on_panic_fired_def Let_def split: latch_op.splits)

interpretation revoke_button: latched_control revocation_control_new revocation_control_step
  rct_session_active rct_revoked rct_grant_active
  by unfold_locales
    (auto simp: revocation_control_new_def revocation_set_session_active_def set_grant_active_def
      on_access_revoked_def Let_def split: latch_op.splits)

lemma panic_display_severed:
  "panic_control_display s = PcInjectionSevered \<longleftrightarrow> pct_session_active s \<and> pct_panic_fired s"
  by (simp add: panic_control_display_def)

lemma revocation_display_revoked:
  "revocation_control_display s = RcAccessRevoked \<longleftrightarrow> rct_session_active s \<and> rct_revoked s"
  by (simp add: revocation_control_display_def)

text \<open>
  Both buttons show their severed indicator exactly as long as they should. After any
  sequence of events the panic button shows ``control severed'' if and only if the panic event
  arrived in an active session and since then neither the session ended nor control was
  granted anew; the revocation button shows ``access revoked'' under the same condition on its
  own events.
\<close>

lemma severed_indicator_iff:
  "(panic_control_display (foldl panic_control_step panic_control_new ops) = PcInjectionSevered \<longleftrightarrow>
      (\<exists>pre post. ops = pre @ Severed # post \<and>
         pct_session_active (foldl panic_control_step panic_control_new pre) \<and>
         Granted True \<notin> set post \<and> SessionActive False \<notin> set post)) \<and>
   (revocation_control_display (foldl revocation_control_step revocation_control_new ops) =
        RcAccessRevoked \<longleftrightarrow>
      (\<exists>pre post. ops = pre @ Severed # post \<and>
         rct_session_active (foldl revocation_control_step revocation_control_new pre) \<and>
         Granted True \<notin> set post \<and> SessionActive False \<notin> set post))"
  unfolding panic_display_severed revocation_display_revoked
  using panic_button.severed_iff [of ops] panic_button.severed_only_active [of ops]
    revoke_button.severed_iff [of ops] revoke_button.severed_only_active [of ops]
  by blast

end
