(* ===== verification/Chunk_Cache.thy ===== *)
theory Chunk_Cache
  imports Prelude "HOL-Library.List_Lexorder"
begin

text \<open>
  The per-peer chunk index of file transfer: \<open>core/xfer/src/cache.rs\<close> (the trait \<open>ChunkCache\<close>,
  the in-memory index, manifests and delta splitting) and \<open>core/xfer/src/persistent_cache.rs\<close>
  (the index backed by an append-only log). A \<open>ChunkHash\<close> is a list of 32 bytes, a \<open>HashSet\<close> a
  set; the order in which a \<open>HashSet\<close> is iterated is the parameter \<open>iter\<close>. The log file is its
  contents; the operations assume that reads and writes of the file succeed.

  The trait is the interface \<open>chunk_cache\<close>, in which the delta splitting is proved correct; it
  is interpreted on both indexes. The persistent index is shown to survive restarts, and the
  effect of a partial entry left by a crash is computed.
\<close>

section \<open>Records of fixed size\<close>

text \<open>
  A loop of \<open>read_exact\<close> calls on entries of \<open>n\<close> bytes that stops at the end of the file or at
  a partial entry.
\<close>

function read_entries :: "nat \<Rightarrow> bytes \<Rightarrow> bytes list" where
  "read_entries n bs =
     (if n = 0 \<or> length bs < n then [] else take n bs # read_entries n (drop n bs))"
  by auto

termination
  by (relation "measure (length \<circ> snd)") auto

declare read_entries.simps [simp del]

lemma read_entries_short [simp]: "length bs < n \<Longrightarrow> read_entries n bs = []"
  by (simp add: read_entries.simps)

lemma read_entries_Cons:
  "0 < n \<Longrightarrow> length e = n \<Longrightarrow> read_entries n (e @ bs) = e # read_entries n bs"
  by (subst read_entries.simps) simp

text \<open>Whole entries are read back; what is left of a partial one is dropped.\<close>

lemma read_entries_concat:
  assumes "0 < n" "\<forall>e\<in>set es. length e = n" "length r < n"
  shows "read_entries n (concat es @ r) = es"
  using assms(2) by (induction es) (simp_all add: read_entries_Cons assms(1,3))

section \<open>Manifests and the in-memory index\<close>

type_synonym chunk_hash = bytes

record in_memory_chunk_cache =
  imc_known :: "chunk_hash set"

definition in_memory_new :: in_memory_chunk_cache where
  "in_memory_new = \<lparr>imc_known = {}\<rparr>"

definition in_memory_len :: "in_memory_chunk_cache \<Rightarrow> nat" where
  "in_memory_len c = card (imc_known c)"

definition in_memory_is_empty :: "in_memory_chunk_cache \<Rightarrow> bool" where
  "in_memory_is_empty c \<longleftrightarrow> imc_known c = {}"

definition in_memory_contains :: "in_memory_chunk_cache \<Rightarrow> chunk_hash \<Rightarrow> bool" where
  "in_memory_contains c h \<longleftrightarrow> h \<in> imc_known c"

definition in_memory_insert :: "in_memory_chunk_cache \<Rightarrow> chunk_hash \<Rightarrow> in_memory_chunk_cache" where
  "in_memory_insert c h = c\<lparr>imc_known := insert h (imc_known c)\<rparr>"

definition in_memory_remove :: "in_memory_chunk_cache \<Rightarrow> chunk_hash \<Rightarrow> in_memory_chunk_cache" where
  "in_memory_remove c h = c\<lparr>imc_known := imc_known c - {h}\<rparr>"

record transfer_manifest =
  chunk_ids :: "chunk_hash list"
  tm_total_bytes :: nat

definition manifest_new :: "chunk_hash list \<Rightarrow> nat \<Rightarrow> transfer_manifest" where
  "manifest_new ids n = \<lparr>chunk_ids = ids, tm_total_bytes = n\<rparr>"

definition chunk_count :: "transfer_manifest \<Rightarrow> nat" where
  "chunk_count m = length (chunk_ids m)"

text \<open>The two functions over the trait take the operations of the cache as arguments.\<close>

fun split_delta ::
  "('c \<Rightarrow> chunk_hash \<Rightarrow> bool) \<Rightarrow> chunk_hash list \<Rightarrow> 'c \<Rightarrow> chunk_hash list \<times> chunk_hash list" where
  "split_delta contains [] cache = ([], [])"
| "split_delta contains (h # hs) cache =
     (let (to_send, already_cached) = split_delta contains hs cache in
      if contains cache h then (to_send, h # already_cached) else (h # to_send, already_cached))"

fun confirm_delivered ::
  "('c \<Rightarrow> chunk_hash \<Rightarrow> 'c) \<Rightarrow> 'c \<Rightarrow> chunk_hash list \<Rightarrow> 'c" where
  "confirm_delivered ins cache [] = cache"
| "confirm_delivered ins cache (h # hs) = confirm_delivered ins (ins cache h) hs"

section \<open>The persistent index\<close>

definition TAG_INSERT :: u8 where "TAG_INSERT = 0x01"
definition TAG_REMOVE :: u8 where "TAG_REMOVE = 0x00"
definition ENTRY_LEN :: nat where "ENTRY_LEN = 33"

record persistent_chunk_cache =
  pcc_known :: "chunk_hash set"
  pcc_file :: bytes
  pcc_log_entries :: nat

definition replay_entry :: "chunk_hash set \<Rightarrow> bytes \<Rightarrow> chunk_hash set" where
  "replay_entry known buf =
     (if buf ! 0 = TAG_INSERT then insert (drop 1 buf) known else known - {drop 1 buf})"

definition cache_load :: "bytes option \<Rightarrow> chunk_hash set \<times> nat" where
  "cache_load file =
     (case file of
        None \<Rightarrow> ({}, 0)
      | Some bs \<Rightarrow>
          (let es = read_entries ENTRY_LEN bs in (foldl replay_entry {} es, length es)))"

definition cache_compact :: "(chunk_hash set \<Rightarrow> chunk_hash list) \<Rightarrow> chunk_hash set \<Rightarrow> bytes" where
  "cache_compact iter live = concat (map (\<lambda>h. TAG_INSERT # h) (iter live))"

definition cache_open ::
  "(chunk_hash set \<Rightarrow> chunk_hash list) \<Rightarrow> bytes option \<Rightarrow> persistent_chunk_cache" where
  "cache_open iter file =
     (let (known, log_entries) = cache_load file;
          threshold = card known * 2 + 64 in
      if threshold < log_entries
      then \<lparr>pcc_known = known, pcc_file = cache_compact iter known, pcc_log_entries = card known\<rparr>
      else \<lparr>pcc_known = known, pcc_file = (case file of None \<Rightarrow> [] | Some bs \<Rightarrow> bs),
             pcc_log_entries = log_entries\<rparr>)"

definition append_entry ::
  "persistent_chunk_cache \<Rightarrow> u8 \<Rightarrow> chunk_hash \<Rightarrow> persistent_chunk_cache" where
  "append_entry c tag h =
     c\<lparr>pcc_file := pcc_file c @ tag # h, pcc_log_entries := pcc_log_entries c + 1\<rparr>"

definition persistent_contains :: "persistent_chunk_cache \<Rightarrow> chunk_hash \<Rightarrow> bool" where
  "persistent_contains c h \<longleftrightarrow> h \<in> pcc_known c"

definition persistent_insert ::
  "persistent_chunk_cache \<Rightarrow> chunk_hash \<Rightarrow> persistent_chunk_cache" where
  "persistent_insert c h =
     (if h \<in> pcc_known c then c
      else append_entry (c\<lparr>pcc_known := insert h (pcc_known c)\<rparr>) TAG_INSERT h)"

definition persistent_remove ::
  "persistent_chunk_cache \<Rightarrow> chunk_hash \<Rightarrow> persistent_chunk_cache" where
  "persistent_remove c h =
     (if h \<in> pcc_known c
      then append_entry (c\<lparr>pcc_known := pcc_known c - {h}\<rparr>) TAG_REMOVE h
      else c)"

definition persistent_len :: "persistent_chunk_cache \<Rightarrow> nat" where
  "persistent_len c = card (pcc_known c)"

section \<open>Interface: the trait \<open>ChunkCache\<close>\<close>

locale chunk_cache =
  fixes contains :: "'c \<Rightarrow> chunk_hash \<Rightarrow> bool"
    and ins :: "'c \<Rightarrow> chunk_hash \<Rightarrow> 'c"
    and rem :: "'c \<Rightarrow> chunk_hash \<Rightarrow> 'c"
  assumes contains_ins: "contains (ins c h) k \<longleftrightarrow> k = h \<or> contains c k"
    and contains_rem: "contains (rem c h) k \<longleftrightarrow> k \<noteq> h \<and> contains c k"
begin

lemma split_delta_filter:
  "split_delta contains hs c = (filter (\<lambda>h. \<not> contains c h) hs, filter (contains c) hs)"
  by (induction hs) (simp_all add: Let_def)

lemma contains_confirm: "contains (confirm_delivered ins c hs) k \<longleftrightarrow> k \<in> set hs \<or> contains c k"
  by (induction hs arbitrary: c) (auto simp: contains_ins)

text \<open>After a delivered transfer nothing of the same payload is sent again.\<close>

lemma nothing_resent:
  "fst (split_delta contains hs (confirm_delivered ins c hs)) = []"
  by (simp add: split_delta_filter contains_confirm filter_empty_conv)

end

interpretation in_memory: chunk_cache in_memory_contains in_memory_insert in_memory_remove
  by unfold_locales
    (auto simp: in_memory_contains_def in_memory_insert_def in_memory_remove_def)

interpretation persistent: chunk_cache persistent_contains persistent_insert persistent_remove
  by unfold_locales
    (auto simp: persistent_contains_def persistent_insert_def persistent_remove_def
      append_entry_def)

section \<open>Restarts\<close>

datatype cache_op = CacheInsert chunk_hash | CacheRemove chunk_hash | CacheRestart

text \<open>A restart drops the process state and opens the log again.\<close>

fun cache_step ::
  "(chunk_hash set \<Rightarrow> chunk_hash list) \<Rightarrow> persistent_chunk_cache \<Rightarrow> cache_op \<Rightarrow>
     persistent_chunk_cache" where
  "cache_step iter c (CacheInsert h) = persistent_insert c h"
| "cache_step iter c (CacheRemove h) = persistent_remove c h"
| "cache_step iter c CacheRestart = cache_open iter (Some (pcc_file c))"

text \<open>The specification: a set, which a restart does not change.\<close>

fun spec_step :: "chunk_hash set \<Rightarrow> cache_op \<Rightarrow> chunk_hash set" where
  "spec_step s (CacheInsert h) = insert h s"
| "spec_step s (CacheRemove h) = s - {h}"
| "spec_step s CacheRestart = s"

fun op_ok :: "cache_op \<Rightarrow> bool" where
  "op_ok (CacheInsert h) \<longleftrightarrow> length h = 32"
| "op_ok (CacheRemove h) \<longleftrightarrow> length h = 32"
| "op_ok CacheRestart \<longleftrightarrow> True"

text \<open>The log consists of whole entries and replays to the set in memory.\<close>

definition cache_inv :: "persistent_chunk_cache \<Rightarrow> bool" where
  "cache_inv c \<longleftrightarrow>
     (\<exists>es. pcc_file c = concat es \<and> (\<forall>e\<in>set es. length e = ENTRY_LEN) \<and>
        foldl replay_entry {} es = pcc_known c \<and> pcc_log_entries c = length es) \<and>
     finite (pcc_known c) \<and> (\<forall>h\<in>pcc_known c. length h = 32)"

lemma cache_inv_append:
  assumes "cache_inv c" "length h = 32"
    and "replay_entry (pcc_known c) (tag # h) = known" "finite known" "\<forall>k\<in>known. length k = 32"
  shows "cache_inv (append_entry (c\<lparr>pcc_known := known\<rparr>) tag h)"
proof -
  from assms(1) obtain es where "pcc_file c = concat es" "\<forall>e\<in>set es. length e = ENTRY_LEN"
    "foldl replay_entry {} es = pcc_known c" "pcc_log_entries c = length es"
    by (auto simp: cache_inv_def)
  then have "pcc_file c @ tag # h = concat (es @ [tag # h]) \<and>
      (\<forall>e\<in>set (es @ [tag # h]). length e = ENTRY_LEN) \<and>
      foldl replay_entry {} (es @ [tag # h]) = known \<and>
      pcc_log_entries c + 1 = length (es @ [tag # h])"
    using assms(2,3) by (auto simp: ENTRY_LEN_def)
  then show ?thesis
    unfolding cache_inv_def append_entry_def using assms(4,5)
    by (auto intro!: exI [of _ "es @ [tag # h]"])
qed

lemma cache_inv_insert: "cache_inv c \<Longrightarrow> length h = 32 \<Longrightarrow> cache_inv (persistent_insert c h)"
  by (auto simp: persistent_insert_def replay_entry_def cache_inv_def [of c]
      intro!: cache_inv_append)

lemma cache_inv_remove: "cache_inv c \<Longrightarrow> length h = 32 \<Longrightarrow> cache_inv (persistent_remove c h)"
  by (auto simp: persistent_remove_def replay_entry_def TAG_INSERT_def TAG_REMOVE_def
      cache_inv_def [of c] intro!: cache_inv_append)

lemma entry_pos: "0 < ENTRY_LEN"
  by (simp add: ENTRY_LEN_def)

lemma cache_load_inv:
  assumes "cache_inv c"
  shows "cache_load (Some (pcc_file c)) = (pcc_known c, pcc_log_entries c)"
proof -
  from assms obtain es where "pcc_file c = concat es" "\<forall>e\<in>set es. length e = ENTRY_LEN"
    "foldl replay_entry {} es = pcc_known c" "pcc_log_entries c = length es"
    by (auto simp: cache_inv_def)
  then show ?thesis
    using read_entries_concat [OF entry_pos, of es "[]"] entry_pos
    by (simp add: cache_load_def Let_def)
qed

lemma replay_inserts: "foldl replay_entry s (map (\<lambda>h. TAG_INSERT # h) hs) = s \<union> set hs"
  by (induction hs arbitrary: s) (auto simp: replay_entry_def)

lemma cache_open_inv:
  assumes "cache_inv c" "set (iter (pcc_known c)) = pcc_known c" "distinct (iter (pcc_known c))"
  shows "cache_inv (cache_open iter (Some (pcc_file c)))"
    and "pcc_known (cache_open iter (Some (pcc_file c))) = pcc_known c"
    and "pcc_log_entries (cache_open iter (Some (pcc_file c))) \<le> 2 * card (pcc_known c) + 64"
proof -
  let ?o = "cache_open iter (Some (pcc_file c))"
  note load = cache_load_inv [OF assms(1)]
  show "pcc_known ?o = pcc_known c" by (simp add: cache_open_def load Let_def)
  show "pcc_log_entries ?o \<le> 2 * card (pcc_known c) + 64" by (simp add: cache_open_def load Let_def)
  show "cache_inv ?o"
  proof (cases "card (pcc_known c) * 2 + 64 < pcc_log_entries c")
    case True
    let ?es = "map (\<lambda>h. TAG_INSERT # h) (iter (pcc_known c))"
    have "\<forall>e\<in>set ?es. length e = ENTRY_LEN"
      using assms(1,2) by (auto simp: cache_inv_def ENTRY_LEN_def)
    moreover have "foldl replay_entry {} ?es = pcc_known c"
      by (simp add: replay_inserts assms(2))
    moreover have "card (pcc_known c) = length ?es"
      using distinct_card [OF assms(3)] assms(2) by simp
    ultimately show ?thesis
      using True assms(1)
      by (auto simp: cache_open_def load Let_def cache_compact_def cache_inv_def
          intro!: exI [of _ ?es])
  next
    case False
    then show ?thesis
      using assms(1) by (simp add: cache_open_def load Let_def cache_inv_def)
  qed
qed

lemma cache_open_fresh: "cache_inv (cache_open iter None)" "pcc_known (cache_open iter None) = {}"
  by (auto simp: cache_open_def cache_load_def cache_inv_def)

text \<open>
  The chunk index survives restarts. Over any sequence of insertions, removals and process
  restarts the persistent index answers every lookup like a plain set that restarts do not
  touch, and each restart leaves a log of at most twice the number of live chunks plus 64
  entries.
\<close>

lemma chunk_cache_survives_restarts:
  assumes "\<forall>A. finite A \<longrightarrow> set (iter A) = A \<and> distinct (iter A)"
    and "\<forall>op\<in>set ops. op_ok op"
  shows "(\<forall>h. persistent_contains (foldl (cache_step iter) (cache_open iter None) ops) h \<longleftrightarrow>
       h \<in> foldl spec_step {} ops) \<and>
    pcc_log_entries (cache_step iter (foldl (cache_step iter) (cache_open iter None) ops) CacheRestart)
       \<le> 2 * card (foldl spec_step {} ops) + 64"
proof -
  have run: "cache_inv (foldl (cache_step iter) (cache_open iter None) ops) \<and>
      pcc_known (foldl (cache_step iter) (cache_open iter None) ops) = foldl spec_step {} ops"
    using assms(2)
  proof (induction ops rule: rev_induct)
    case Nil
    then show ?case by (simp add: cache_open_fresh)
  next
    case (snoc op ops)
    let ?c = "foldl (cache_step iter) (cache_open iter None) ops"
    have inv: "cache_inv ?c" and k: "pcc_known ?c = foldl spec_step {} ops" using snoc by auto
    have it: "set (iter (pcc_known ?c)) = pcc_known ?c" "distinct (iter (pcc_known ?c))"
      using assms(1) inv by (auto simp: cache_inv_def)
    show ?case
    proof (cases op)
      case (CacheInsert h)
      with snoc.prems cache_inv_insert [OF inv] k show ?thesis
        by (auto simp: persistent_insert_def append_entry_def)
    next
      case (CacheRemove h)
      with snoc.prems cache_inv_remove [OF inv] k show ?thesis
        by (auto simp: persistent_remove_def append_entry_def)
    next
      case CacheRestart
      with cache_open_inv [OF inv, of iter] it k show ?thesis by simp
    qed
  qed
  let ?c = "foldl (cache_step iter) (cache_open iter None) ops"
  have "finite (pcc_known ?c)" using run unfolding cache_inv_def by blast
  with cache_open_inv(3) [of ?c iter] run assms(1) show ?thesis
    by (simp add: persistent_contains_def)
qed

text \<open>
  A partial entry left by a crash corrupts the index instead of being dropped. When one
  byte of an insertion is left at the end of the log, the log is reopened without removing
  it; the next insertion is appended behind it, and after another restart the index holds a
  hash that was never inserted, built from the tag and the first 31 bytes of the new one.
\<close>

lemma cache_crash_residue_corrupts:
  fixes iter :: "chunk_hash set \<Rightarrow> chunk_hash list"
  assumes "length h = 32"
  defines "crashed \<equiv> [TAG_INSERT]"
  defines "later \<equiv> persistent_insert (cache_open iter (Some crashed)) h"
  shows "pcc_known (cache_open iter (Some crashed)) = {} \<and>
    pcc_known (cache_open iter (Some (pcc_file later))) = {TAG_INSERT # take 31 h}"
proof -
  have s: "read_entries ENTRY_LEN [TAG_INSERT] = []" by (simp add: ENTRY_LEN_def)
  have o: "cache_open iter (Some crashed) =
      \<lparr>pcc_known = {}, pcc_file = [TAG_INSERT], pcc_log_entries = 0\<rparr>"
    by (simp add: cache_open_def cache_load_def crashed_def s)
  then have f: "pcc_file later = [TAG_INSERT] @ TAG_INSERT # h"
    by (simp add: later_def persistent_insert_def append_entry_def)
  have "[TAG_INSERT] @ TAG_INSERT # h = (TAG_INSERT # TAG_INSERT # take 31 h) @ drop 31 h" by simp
  then have "read_entries ENTRY_LEN (pcc_file later) = [TAG_INSERT # TAG_INSERT # take 31 h]"
    unfolding f using assms(1)
    by (simp only:) (subst read_entries_Cons; simp add: ENTRY_LEN_def)
  then have "cache_load (Some (pcc_file later)) = ({TAG_INSERT # take 31 h}, 1)"
    by (simp add: cache_load_def replay_entry_def)
  then show ?thesis by (simp add: o) (simp add: cache_open_def)
qed

end
