(* ===== verification/Resume.thy ===== *)
theory Resume
  imports Chunk_Cache Codec
begin

text \<open>
  Persistent transfer progress: \<open>core/xfer/src/resume.rs\<close>. The state file is its contents
  (None when it does not exist); a transfer keeps the contents of the file behind its handle.
  Reads past the end of the file fail as \<open>read_exact\<close> does; other failures of the file system
  are not modelled.

  The lemmas show that a reopened transfer resumes exactly what was recorded, also when the
  last record is partial, and never progress of another object, and what a partial record
  does to the records appended behind it.
\<close>

section \<open>Operations\<close>

definition MAGIC :: bytes where "MAGIC = [76, 66, 88, 82]" \<comment> \<open>LBXR\<close>
definition VERSION :: u8 where "VERSION = 1"
definition PROGRESS_ENTRY_LEN :: nat where "PROGRESS_ENTRY_LEN = 4"

datatype open_outcome = OpenFresh | OpenResumed nat

record resumable_transfer =
  rt_manifest :: transfer_manifest
  rt_delivered :: "u32 set"
  rt_file :: bytes

text \<open>The loop that compares the stored chunk identifiers: error, mismatch or the bytes after.\<close>

fun load_ids :: "chunk_hash list \<Rightarrow> bytes \<Rightarrow> unit + bytes option" where
  "load_ids [] rest = Inr (Some rest)"
| "load_ids (expected # ids) rest =
     (if length rest < 32 then Inl ()
      else if take 32 rest \<noteq> expected then Inr None
      else load_ids ids (drop 32 rest))"

text \<open>The loop that replays the progress entries.\<close>

definition replay_progress :: "nat \<Rightarrow> u32 set \<Rightarrow> bytes \<Rightarrow> u32 set" where
  "replay_progress cnt delivered entry =
     (let index = from_le_bytes entry :: u32 in
      if unat index < cnt then insert index delivered else delivered)"

definition resume_load :: "bytes option \<Rightarrow> transfer_manifest \<Rightarrow> unit + u32 set option" where
  "resume_load file m =
     (case file of
        None \<Rightarrow> Inr None
      | Some bs \<Rightarrow>
          if length bs < 17 then Inl ()
          else if take 4 bs \<noteq> MAGIC \<or> bs ! 4 \<noteq> VERSION then Inr None
          else
            (let cnt = unat (from_le_bytes (take 4 (drop 5 bs)) :: u32);
                 total_bytes = unat (from_le_bytes (take 8 (drop 9 bs)) :: u64) in
             if cnt \<noteq> chunk_count m \<or> total_bytes \<noteq> tm_total_bytes m then Inr None
             else
               (case load_ids (chunk_ids m) (drop 17 bs) of
                  Inl e \<Rightarrow> Inl e
                | Inr None \<Rightarrow> Inr None
                | Inr (Some rest) \<Rightarrow>
                    Inr (Some (foldl (replay_progress cnt) {}
                      (read_entries PROGRESS_ENTRY_LEN rest))))))"

definition resume_create :: "transfer_manifest \<Rightarrow> bytes" where
  "resume_create m =
     MAGIC @ [VERSION] @ to_le_bytes 4 (of_nat (chunk_count m) :: u32) @
     to_le_bytes 8 (of_nat (tm_total_bytes m) :: u64) @ concat (chunk_ids m)"

definition resume_open ::
  "bytes option \<Rightarrow> transfer_manifest \<Rightarrow> resumable_transfer \<times> open_outcome" where
  "resume_open file m =
     (case (resume_load file m, file) of
        (Inr (Some delivered), Some bs) \<Rightarrow>
          (\<lparr>rt_manifest = m, rt_delivered = delivered, rt_file = bs\<rparr>, OpenResumed (card delivered))
      | _ \<Rightarrow>
          (\<lparr>rt_manifest = m, rt_delivered = {}, rt_file = resume_create m\<rparr>, OpenFresh))"

definition mark_delivered :: "resumable_transfer \<Rightarrow> nat \<Rightarrow> resumable_transfer" where
  "mark_delivered t i =
     (if chunk_count (rt_manifest t) \<le> i then t
      else
        (let index = of_nat i :: u32 in
         if index \<in> rt_delivered t then t
         else t\<lparr>rt_delivered := insert index (rt_delivered t),
                rt_file := rt_file t @ to_le_bytes 4 index\<rparr>))"

definition remaining :: "resumable_transfer \<Rightarrow> nat list" where
  "remaining t = filter (\<lambda>i. of_nat i \<notin> rt_delivered t) [0..<chunk_count (rt_manifest t)]"

definition delivered_count :: "resumable_transfer \<Rightarrow> nat" where
  "delivered_count t = card (rt_delivered t)"

definition resume_is_complete :: "resumable_transfer \<Rightarrow> bool" where
  "resume_is_complete t \<longleftrightarrow> card (rt_delivered t) = chunk_count (rt_manifest t)"

definition remaining_ids :: "resumable_transfer \<Rightarrow> chunk_hash list" where
  "remaining_ids t = map (\<lambda>i. chunk_ids (rt_manifest t) ! i) (remaining t)"

text \<open>\<open>finish\<close>: an error, or the removal of the state file.\<close>

definition resume_finish :: "resumable_transfer \<Rightarrow> unit + bytes option" where
  "resume_finish t = (if \<not> resume_is_complete t then Inl () else Inr None)"

section \<open>Reading back the header\<close>

definition manifest_ok :: "transfer_manifest \<Rightarrow> bool" where
  "manifest_ok m \<longleftrightarrow>
     (\<forall>h\<in>set (chunk_ids m). length h = 32) \<and> chunk_count m < 2 ^ 32 \<and> tm_total_bytes m < 2 ^ 64"

lemma load_ids_concat:
  "\<forall>h\<in>set ids. length h = 32 \<Longrightarrow> load_ids ids (concat ids @ rest) = Inr (Some rest)"
  by (induction ids) auto

lemma load_ids_sound:
  "load_ids ids bs = Inr (Some rest) \<Longrightarrow> bs = concat ids @ rest"
proof (induction ids arbitrary: bs)
  case (Cons h ids)
  then have "take 32 bs = h" "drop 32 bs = concat ids @ rest" by (auto split: if_splits)
  then show ?case by (metis append_take_drop_id append.assoc concat.simps(2))
qed simp

lemma resume_header_fields:
  fixes c :: u32 and n :: u64 and rest :: bytes
  defines "bs \<equiv> MAGIC @ [VERSION] @ to_le_bytes 4 c @ to_le_bytes 8 n @ rest"
  shows "17 \<le> length bs" "take 4 bs = MAGIC" "bs ! 4 = VERSION"
    "from_le_bytes (take 4 (drop 5 bs)) = c" "from_le_bytes (take 8 (drop 9 bs)) = n"
    "drop 17 bs = rest"
proof -
  have m: "length MAGIC = 4" by (simp add: MAGIC_def)
  show "17 \<le> length bs" "take 4 bs = MAGIC" "bs ! 4 = VERSION" "drop 17 bs = rest"
    by (simp_all add: bs_def m nth_append)
  have "take 4 (drop 5 bs) = to_le_bytes 4 c" "take 8 (drop 9 bs) = to_le_bytes 8 n"
    by (simp_all add: bs_def m)
  then show "from_le_bytes (take 4 (drop 5 bs)) = c" "from_le_bytes (take 8 (drop 9 bs)) = n"
    by (simp_all add: from_to_le_bytes)
qed

lemma resume_load_header:
  assumes "manifest_ok m'"
  shows "resume_load (Some (resume_create m' @ rest)) m =
    (if chunk_count m' \<noteq> chunk_count m \<or> tm_total_bytes m' \<noteq> tm_total_bytes m then Inr None
     else
       (case load_ids (chunk_ids m) (concat (chunk_ids m') @ rest) of
          Inl e \<Rightarrow> Inl e
        | Inr None \<Rightarrow> Inr None
        | Inr (Some r) \<Rightarrow>
            Inr (Some (foldl (replay_progress (chunk_count m)) {}
              (read_entries PROGRESS_ENTRY_LEN r)))))"
proof -
  let ?c = "of_nat (chunk_count m') :: u32" and ?n = "of_nat (tm_total_bytes m') :: u64"
  have u: "unat ?c = chunk_count m'" "unat ?n = tm_total_bytes m'"
    using assms by (simp_all add: manifest_ok_def unsigned_of_nat take_bit_nat_eq_self)
  have bs: "resume_create m' @ rest =
      MAGIC @ [VERSION] @ to_le_bytes 4 ?c @ to_le_bytes 8 ?n @ (concat (chunk_ids m') @ rest)"
    by (simp add: resume_create_def)
  show ?thesis
    unfolding bs resume_load_def option.case
    by (simp only: resume_header_fields u not_less [symmetric] Let_def simp_thms if_False
        cong: if_cong) (auto simp: MAGIC_def split: sum.splits option.splits)
qed

section \<open>Progress\<close>

text \<open>The marked indices of a transfer, as the log records them.\<close>

lemma replay_marks:
  assumes "\<forall>i\<in>set is. unat i < n"
  shows "foldl (replay_progress n) s (map (to_le_bytes 4) is) = s \<union> set is"
  using assms
  by (induction "is" arbitrary: s) (auto simp: replay_progress_def from_to_le_bytes)

text \<open>
  A transfer whose file is a header and the recorded indices, with up to three bytes of a
  partial record behind them.
\<close>

definition resume_inv :: "resumable_transfer \<Rightarrow> bool" where
  "resume_inv t \<longleftrightarrow>
     manifest_ok (rt_manifest t) \<and>
     (\<exists>is. rt_file t = resume_create (rt_manifest t) @ concat (map (to_le_bytes 4) is) \<and>
        set is = rt_delivered t) \<and>
     (\<forall>i\<in>rt_delivered t. unat i < chunk_count (rt_manifest t))"

lemma resume_inv_fresh:
  "manifest_ok m \<Longrightarrow>
     resume_inv \<lparr>rt_manifest = m, rt_delivered = {}, rt_file = resume_create m\<rparr>"
  by (auto simp: resume_inv_def)

lemma resume_inv_mark: "resume_inv t \<Longrightarrow> resume_inv (mark_delivered t i)"
proof (cases "chunk_count (rt_manifest t) \<le> i \<or> of_nat i \<in> rt_delivered t")
  case True
  then show "resume_inv t \<Longrightarrow> ?thesis" by (auto simp: mark_delivered_def Let_def)
next
  case False
  assume inv: "resume_inv t"
  then obtain "is" where f: "rt_file t = resume_create (rt_manifest t) @ concat (map (to_le_bytes 4) is)"
    and "is": "set is = rt_delivered t"
    by (auto simp: resume_inv_def)
  have "i < 2 ^ 32" using False inv by (auto simp: resume_inv_def manifest_ok_def)
  then have "unat (of_nat i :: u32) = i" by (simp add: unsigned_of_nat take_bit_nat_eq_self)
  with False inv f "is" show ?thesis
    by (auto simp: mark_delivered_def Let_def resume_inv_def
        intro!: exI [of _ "is @ [of_nat i]"])
qed

lemma mark_delivered_simps [simp]:
  "rt_manifest (mark_delivered t i) = rt_manifest t"
  "rt_delivered (mark_delivered t i) =
     (if i < chunk_count (rt_manifest t) then insert (of_nat i) (rt_delivered t)
      else rt_delivered t)"
  by (auto simp: mark_delivered_def Let_def)

lemma resume_load_inv:
  assumes "resume_inv t" "length r < PROGRESS_ENTRY_LEN"
  shows "resume_load (Some (rt_file t @ r)) (rt_manifest t) = Inr (Some (rt_delivered t))"
proof -
  from assms(1) obtain "is" where
    f: "rt_file t = resume_create (rt_manifest t) @ concat (map (to_le_bytes 4) is)"
    and "is": "set is = rt_delivered t"
    and ok: "manifest_ok (rt_manifest t)"
    and b: "\<forall>i\<in>set is. unat i < chunk_count (rt_manifest t)"
    by (auto simp: resume_inv_def)
  have "read_entries PROGRESS_ENTRY_LEN (concat (map (to_le_bytes 4) is) @ r) = map (to_le_bytes 4) is"
    using assms(2) by (intro read_entries_concat) (auto simp: PROGRESS_ENTRY_LEN_def)
  moreover have "load_ids (chunk_ids (rt_manifest t))
      (concat (chunk_ids (rt_manifest t)) @ concat (map (to_le_bytes 4) is) @ r) =
      Inr (Some (concat (map (to_le_bytes 4) is) @ r))"
    using ok by (intro load_ids_concat) (simp add: manifest_ok_def)
  ultimately show ?thesis
    unfolding f append.assoc using resume_load_header [OF ok] replay_marks [OF b, of "{}"] "is"
    by simp
qed

lemma resume_load_other:
  assumes "resume_inv t" "manifest_ok m" "m \<noteq> rt_manifest t"
  shows "\<forall>d. resume_load (Some (rt_file t @ r)) m \<noteq> Inr (Some d)"
proof -
  let ?m' = "rt_manifest t"
  have ok: "manifest_ok ?m'" using assms(1) by (simp add: resume_inv_def)
  from assms(1) obtain rest where f: "rt_file t = resume_create ?m' @ rest"
    by (auto simp: resume_inv_def)
  have "load_ids (chunk_ids m) (concat (chunk_ids ?m') @ rest @ r) \<noteq> Inr (Some x)"
    if "chunk_count ?m' = chunk_count m" "tm_total_bytes ?m' = tm_total_bytes m" for x
  proof
    assume "load_ids (chunk_ids m) (concat (chunk_ids ?m') @ rest @ r) = Inr (Some x)"
    from load_ids_sound [OF this]
    have c: "concat (chunk_ids ?m') @ rest @ r = concat (chunk_ids m) @ x" .
    have l: "length (concat xs) = 32 * length xs" if "\<forall>h\<in>set xs. length h = 32" for xs :: "bytes list"
      using that by (induction xs) auto
    have "length (concat (chunk_ids ?m')) = length (concat (chunk_ids m))"
      using that(1) ok assms(2) l by (simp add: manifest_ok_def chunk_count_def)
    with c have "concat (chunk_ids ?m') = concat (chunk_ids m)" by simp
    then have "chunk_ids ?m' = chunk_ids m"
      using that(1) ok assms(2)
      by (intro concat_injective) (auto simp: manifest_ok_def chunk_count_def set_zip)
    with that(2) assms(3) show False by (metis (full_types) transfer_manifest.equality old.unit.exhaust)
  qed
  then show ?thesis
    unfolding f append.assoc resume_load_header [OF ok]
    by (auto split: sum.splits option.splits)
qed

text \<open>
  A transfer resumes exactly where it stopped, and only into the same object. After any
  chunks were marked delivered, and even when a crash leaves up to three bytes of one more
  record in the file, reopening for the same manifest resumes with exactly the marked chunks;
  reopening for any other manifest starts fresh.
\<close>

lemma resume_exact:
  fixes marks :: "nat list"
  assumes "manifest_ok m" "manifest_ok m'" "length residue < 4"
  defines "t \<equiv> foldl mark_delivered (fst (resume_open None m)) marks"
  shows "rt_delivered t = of_nat ` {i \<in> set marks. i < chunk_count m} \<and>
    resume_open (Some (rt_file t @ residue)) m =
      (t\<lparr>rt_file := rt_file t @ residue\<rparr>, OpenResumed (delivered_count t)) \<and>
    (m' \<noteq> m \<longrightarrow> snd (resume_open (Some (rt_file t @ residue)) m') = OpenFresh)"
proof -
  have o: "fst (resume_open None m) =
      \<lparr>rt_manifest = m, rt_delivered = {}, rt_file = resume_create m\<rparr>"
    by (simp add: resume_open_def resume_load_def)
  have run: "resume_inv t \<and> rt_manifest t = m \<and>
      rt_delivered t = of_nat ` {i \<in> set marks. i < chunk_count m}"
    unfolding t_def
  proof (induction marks rule: rev_induct)
    case Nil
    then show ?case using resume_inv_fresh [OF assms(1)] by (simp add: o)
  next
    case (snoc i marks)
    let ?t = "foldl mark_delivered (fst (resume_open None m)) marks"
    have "{j \<in> set (marks @ [i]). j < chunk_count m} =
        (if i < chunk_count m then insert i {j \<in> set marks. j < chunk_count m}
         else {j \<in> set marks. j < chunk_count m})"
      by auto
    with snoc show ?case using resume_inv_mark [of ?t i] by simp
  qed
  have len: "length residue < PROGRESS_ENTRY_LEN" using assms(3) by (simp add: PROGRESS_ENTRY_LEN_def)
  have "resume_load (Some (rt_file t @ residue)) m = Inr (Some (rt_delivered t))"
    using resume_load_inv [OF _ len, of t] run by simp
  moreover have "snd (resume_open (Some (rt_file t @ residue)) m') = OpenFresh" if "m' \<noteq> m"
    using resume_load_other [of t m' residue] run assms(2) that
    by (auto simp: resume_open_def split: sum.splits option.splits)
  ultimately show ?thesis
    using run by (cases t) (simp add: resume_open_def delivered_count_def)
qed

text \<open>
  A partial record corrupts the records behind it. The file is reopened for appending
  without removing the residue, so when a crash left one byte \<open>b\<close> and chunk \<open>i\<close> is then marked
  delivered, the next restart reads the index \<open>b + 256 * i\<close>: with enough chunks in the
  object, a chunk that was never delivered is taken as delivered and chunk \<open>i\<close> is not.
\<close>

lemma resume_crash_residue_misreads:
  fixes b :: u8
  assumes "manifest_ok m" "unat b + 256 * i < chunk_count m"
  defines "crashed \<equiv> resume_create m @ [b]"
  defines "later \<equiv> mark_delivered (fst (resume_open (Some crashed) m)) i"
  shows "rt_delivered (fst (resume_open (Some crashed) m)) = {} \<and>
    rt_delivered (fst (resume_open (Some (rt_file later)) m)) = {of_nat (unat b + 256 * i)}"
proof -
  let ?t = "\<lparr>rt_manifest = m, rt_delivered = {}, rt_file = resume_create m\<rparr>"
  have "resume_load (Some crashed) m = Inr (Some {})"
    using resume_load_inv [OF resume_inv_fresh [OF assms(1)], of "[b]"]
    by (simp add: crashed_def PROGRESS_ENTRY_LEN_def)
  then have o: "fst (resume_open (Some crashed) m) = ?t\<lparr>rt_file := crashed\<rparr>"
    by (simp add: resume_open_def)
  have n: "chunk_count m < 2 ^ 32" using assms(1) by (simp add: manifest_ok_def)
  have i: "i < chunk_count m" "i < 2 ^ 24" using assms(2) n by simp_all
  let ?w = "to_le_bytes 4 (of_nat i :: u32)"
  have f: "rt_file later = resume_create m @ b # ?w"
    using i(1) unfolding later_def o by (simp add: mark_delivered_def crashed_def Let_def)
  have w: "?w = le_digits 3 i @ [0]"
  proof -
    have "unat (of_nat i :: u32) = i" using i(2) by (simp add: unsigned_of_nat take_bit_nat_eq_self)
    moreover have "le_digits 1 (i div 256 ^ 3) = [0]" using i(2) by (simp add: byte_of_def)
    ultimately show ?thesis using le_digits_add [of 3 1 i] by (simp add: to_le_bytes_def)
  qed
  have "le_nat (b # le_digits 3 i) = unat b + 256 * i"
    using i(2) by (simp add: le_nat_digits)
  then have e: "from_le_bytes (b # le_digits 3 i) = (of_nat (unat b + 256 * i) :: u32)"
    by (simp add: from_le_bytes_def del: le_nat.simps)
  have "read_entries PROGRESS_ENTRY_LEN ((b # le_digits 3 i) @ [0]) = [b # le_digits 3 i]"
    by (subst read_entries_Cons) (simp_all add: PROGRESS_ENTRY_LEN_def)
  then have r: "read_entries PROGRESS_ENTRY_LEN (b # ?w) = [b # le_digits 3 i]"
    by (simp add: w)
  have u: "unat (of_nat (unat b + 256 * i) :: u32) = unat b + 256 * i"
    using assms(2) n by (subst unsigned_of_nat) (simp add: take_bit_nat_eq_self)
  have "load_ids (chunk_ids m) (concat (chunk_ids m) @ b # ?w) = Inr (Some (b # ?w))"
    using assms(1) by (intro load_ids_concat) (simp add: manifest_ok_def)
  then have "resume_load (Some (rt_file later)) m = Inr (Some {of_nat (unat b + 256 * i)})"
    unfolding f resume_load_header [OF assms(1)] using assms(2)
    by (simp add: r replay_progress_def e u del: of_nat_add of_nat_mult)
  then show ?thesis by (simp add: o) (simp add: resume_open_def)
qed

end
