(* ===== verification/File_Transfer.thy ===== *)
theory File_Transfer
  imports Resume
begin

text \<open>
  End-to-end file transfer: \<open>core/lowbandd/src/file_transfer.rs\<close>. The frames and their wire
  format, the frame sequence of \<open>send_file\<close>, and the receiver that checks every fragment,
  writes it into the destination and records progress. BLAKE3 is the parameter \<open>hash\<close>. The
  destination and the sidecar are file contents (None when absent); file-system calls other
  than reading past the end are assumed to succeed. \<open>name\<close> is not used by the receiver.
\<close>

section \<open>Frames\<close>

definition FRAGMENT_LEN :: nat where "FRAGMENT_LEN = 1024"
definition MAX_FRAGMENTS :: nat where "MAX_FRAGMENTS = 1048576"
definition KIND_OFFER :: u8 where "KIND_OFFER = 0x10"
definition KIND_FRAGMENT :: u8 where "KIND_FRAGMENT = 0x11"
definition KIND_COMPLETE :: u8 where "KIND_COMPLETE = 0x12"

datatype xfer_frame =
    XferOffer rust_str u64 "chunk_hash list" chunk_hash
      \<comment> \<open>name, total bytes, fragment hashes, whole-file hash\<close>
  | XferFragment u32 bytes
  | XferComplete

datatype xfer_error =
    XferIo
  | XferTruncated
  | XferTooLarge
  | XferUnknownKind u8
  | XferNoOffer
  | XferBadIndex
  | XferHashMismatch u32
  | XferWholeHashMismatch
  | XferSession

fun xfer_encode :: "xfer_frame \<Rightarrow> bytes" where
  "xfer_encode (XferOffer name tot frag_hashes whole) =
     KIND_OFFER # to_le_bytes 2 (of_nat (str_len name) :: u16) @ str_as_bytes name @
       to_le_bytes 8 tot @ to_le_bytes 4 (of_nat (length frag_hashes) :: u32) @
       concat frag_hashes @ whole"
| "xfer_encode (XferFragment index data) =
     KIND_FRAGMENT # to_le_bytes 4 index @ to_le_bytes 2 (of_nat (length data) :: u16) @ data"
| "xfer_encode XferComplete = [KIND_COMPLETE]"

definition xfer_take_u16 :: "(xfer_error, u16) reader" where
  "xfer_take_u16 = take_word XferTruncated 2"

definition xfer_take_u32 :: "(xfer_error, u32) reader" where
  "xfer_take_u32 = take_word XferTruncated 4"

definition xfer_take_u64 :: "(xfer_error, u64) reader" where
  "xfer_take_u64 = take_word XferTruncated 8"

definition take_hash :: "(xfer_error, chunk_hash) reader" where
  "take_hash = split_at_checked XferTruncated 32"

definition xfer_take_str :: "(xfer_error, rust_str) reader" where
  "xfer_take_str rest =
     (case xfer_take_u16 rest of
        Inl e \<Rightarrow> Inl e
      | Inr (len, rest1) \<Rightarrow>
          (case split_at_checked XferTruncated (unat len) rest1 of
             Inl e \<Rightarrow> Inl e
           | Inr (head, tail) \<Rightarrow>
               (case str_from_utf8 head of
                  None \<Rightarrow> Inl XferTruncated
                | Some s \<Rightarrow> Inr (s, tail))))"

definition decode_offer :: "bytes \<Rightarrow> xfer_error + xfer_frame" where
  "decode_offer rest =
     (case xfer_take_str rest of
        Inl e \<Rightarrow> Inl e
      | Inr (name, rest1) \<Rightarrow>
          (case xfer_take_u64 rest1 of
             Inl e \<Rightarrow> Inl e
           | Inr (tot, rest2) \<Rightarrow>
               (case xfer_take_u32 rest2 of
                  Inl e \<Rightarrow> Inl e
                | Inr (count, rest3) \<Rightarrow>
                    if MAX_FRAGMENTS < unat count then Inl XferTooLarge
                    else
                      (case take_many take_hash (unat count) rest3 of
                         Inl e \<Rightarrow> Inl e
                       | Inr (frag_hashes, rest4) \<Rightarrow>
                           (case take_hash rest4 of
                              Inl e \<Rightarrow> Inl e
                            | Inr (whole, _) \<Rightarrow> Inr (XferOffer name tot frag_hashes whole))))))"

definition decode_fragment :: "bytes \<Rightarrow> xfer_error + xfer_frame" where
  "decode_fragment rest =
     (case xfer_take_u32 rest of
        Inl e \<Rightarrow> Inl e
      | Inr (index, rest1) \<Rightarrow>
          (case xfer_take_u16 rest1 of
             Inl e \<Rightarrow> Inl e
           | Inr (len, rest2) \<Rightarrow>
               if FRAGMENT_LEN < unat len then Inl XferTooLarge
               else
                 (case split_at_checked XferTruncated (unat len) rest2 of
                    Inl e \<Rightarrow> Inl e
                  | Inr (data, _) \<Rightarrow> Inr (XferFragment index data))))"

definition xfer_decode :: "bytes \<Rightarrow> xfer_error + xfer_frame" where
  "xfer_decode buf =
     (case buf of
        [] \<Rightarrow> Inl XferTruncated
      | kind # rest \<Rightarrow>
          if kind = KIND_OFFER then decode_offer rest
          else if kind = KIND_FRAGMENT then decode_fragment rest
          else if kind = KIND_COMPLETE then Inr XferComplete
          else Inl (XferUnknownKind kind))"

section \<open>Sending\<close>

text \<open>\<open>data.chunks(n)\<close>.\<close>

function chunks :: "nat \<Rightarrow> bytes \<Rightarrow> bytes list" where
  "chunks n data = (if n = 0 \<or> data = [] then [] else take n data # chunks n (drop n data))"
  by auto

termination
  by (relation "measure (length \<circ> snd)") auto

declare chunks.simps [simp del]

text \<open>The frames that \<open>send_file\<close> sends for a file, in order.\<close>

definition send_file_frames :: "(bytes \<Rightarrow> chunk_hash) \<Rightarrow> rust_str \<Rightarrow> bytes \<Rightarrow> xfer_frame list" where
  "send_file_frames hash name data =
     XferOffer name (of_nat (length data)) (map hash (chunks FRAGMENT_LEN data)) (hash data) #
     map (\<lambda>(index, frag). XferFragment (of_nat index) frag)
       (List.enumerate 0 (chunks FRAGMENT_LEN data)) @
     [XferComplete]"

section \<open>Receiving\<close>

datatype progress =
    Started nat
  | FragmentProgress nat nat \<comment> \<open>delivered, total\<close>
  | Duplicate
  | CompleteProgress
  | Incomplete nat

record active =
  ac_transfer :: resumable_transfer
  ac_frag_hashes :: "chunk_hash list"
  ac_whole_hash :: chunk_hash
  ac_total_bytes :: u64

record file_receiver =
  fr_dst :: "bytes option"
  fr_resume :: "bytes option"
  fr_state :: "active option"

definition file_receiver_new :: "bytes option \<Rightarrow> bytes option \<Rightarrow> file_receiver" where
  "file_receiver_new dst resume = \<lparr>fr_dst = dst, fr_resume = resume, fr_state = None\<rparr>"

text \<open>\<open>File::set_len\<close> and a write at an offset, which fills a gap with zeros.\<close>

definition set_len :: "nat \<Rightarrow> bytes \<Rightarrow> bytes" where
  "set_len n bs = take n bs @ replicate (n - length bs) 0"

definition write_at :: "nat \<Rightarrow> bytes \<Rightarrow> bytes \<Rightarrow> bytes" where
  "write_at off data bs =
     take off bs @ replicate (off - length bs) 0 @ data @ drop (off + length data) bs"

definition receive_offer ::
  "file_receiver \<Rightarrow> u64 \<Rightarrow> chunk_hash list \<Rightarrow> chunk_hash \<Rightarrow>
     (xfer_error + progress) \<times> file_receiver" where
  "receive_offer r tot frag_hashes whole =
     (let manifest = manifest_new frag_hashes (unat tot);
          (transfer, outcome) = resume_open (fr_resume r) manifest;
          content = (case fr_dst r of None \<Rightarrow> [] | Some bs \<Rightarrow> bs)
      in (Inr (Started (length (remaining transfer))),
          r\<lparr>fr_dst := Some (set_len (unat tot) content),
            fr_resume := Some (rt_file transfer),
            fr_state := Some \<lparr>ac_transfer = transfer, ac_frag_hashes = frag_hashes,
              ac_whole_hash = whole, ac_total_bytes = tot\<rparr>\<rparr>))"

definition receive_fragment ::
  "(bytes \<Rightarrow> chunk_hash) \<Rightarrow> file_receiver \<Rightarrow> u32 \<Rightarrow> bytes \<Rightarrow>
     (xfer_error + progress) \<times> file_receiver" where
  "receive_fragment hash r index data =
     (case fr_state r of
        None \<Rightarrow> (Inl XferNoOffer, r)
      | Some st \<Rightarrow>
          (let idx = unat index in
           if length (ac_frag_hashes st) \<le> idx then (Inl XferBadIndex, r)
           else if idx \<notin> set (remaining (ac_transfer st)) then (Inr Duplicate, r)
           else if hash data \<noteq> ac_frag_hashes st ! idx then (Inl (XferHashMismatch index), r)
           else
             (let content = (case fr_dst r of None \<Rightarrow> [] | Some bs \<Rightarrow> bs);
                  transfer = mark_delivered (ac_transfer st) idx
              in (Inr (FragmentProgress (delivered_count transfer) (length (ac_frag_hashes st))),
                  r\<lparr>fr_dst := Some (write_at (idx * FRAGMENT_LEN) data content),
                    fr_resume := Some (rt_file transfer),
                    fr_state := Some (st\<lparr>ac_transfer := transfer\<rparr>)\<rparr>))))"

definition receive_complete ::
  "(bytes \<Rightarrow> chunk_hash) \<Rightarrow> file_receiver \<Rightarrow> (xfer_error + progress) \<times> file_receiver" where
  "receive_complete hash r =
     (case fr_state r of
        None \<Rightarrow> (Inl XferNoOffer, r)
      | Some st \<Rightarrow>
          if \<not> resume_is_complete (ac_transfer st)
          then (Inr (Incomplete (length (remaining (ac_transfer st)))), r)
          else
            (let whole = (case fr_dst r of None \<Rightarrow> [] | Some bs \<Rightarrow> bs) in
             if hash whole \<noteq> ac_whole_hash st then (Inl XferWholeHashMismatch, r)
             else
               (case resume_finish (ac_transfer st) of
                  Inl _ \<Rightarrow> (Inl XferIo, r\<lparr>fr_state := None\<rparr>)
                | Inr resume \<Rightarrow>
                    (Inr CompleteProgress, r\<lparr>fr_state := None, fr_resume := resume\<rparr>))))"

fun receiver_apply ::
  "(bytes \<Rightarrow> chunk_hash) \<Rightarrow> file_receiver \<Rightarrow> xfer_frame \<Rightarrow>
     (xfer_error + progress) \<times> file_receiver" where
  "receiver_apply hash r (XferOffer name tot frag_hashes whole) =
     receive_offer r tot frag_hashes whole"
| "receiver_apply hash r (XferFragment index data) = receive_fragment hash r index data"
| "receiver_apply hash r XferComplete = receive_complete hash r"

section \<open>The wire format\<close>

interpretation hash_codec: codec "\<lambda>h. h" take_hash "\<lambda>h. length h = 32"
  by unfold_locales (simp_all add: take_hash_def split_at_checked_iff)

fun xfer_ok :: "xfer_frame \<Rightarrow> bool" where
  "xfer_ok (XferOffer name tot frag_hashes whole) \<longleftrightarrow>
     valid_str name \<and> str_len name < 65536 \<and> length frag_hashes \<le> MAX_FRAGMENTS \<and>
     list_all (\<lambda>h. length h = 32) frag_hashes \<and> length whole = 32"
| "xfer_ok (XferFragment index data) \<longleftrightarrow> length data \<le> FRAGMENT_LEN"
| "xfer_ok XferComplete \<longleftrightarrow> True"

lemma xfer_take_str_iff:
  "xfer_take_str bs = Inr (s, rest) \<longleftrightarrow>
     valid_str s \<and> str_len s < 65536 \<and>
     bs = to_le_bytes 2 (of_nat (str_len s) :: u16) @ str_as_bytes s @ rest"
proof
  assume "xfer_take_str bs = Inr (s, rest)"
  then obtain len bs1 head where l: "xfer_take_u16 bs = Inr (len, bs1)"
    and h: "split_at_checked XferTruncated (unat len) bs1 = Inr (head, rest)"
    and u: "str_from_utf8 head = Some s"
    by (auto simp: xfer_take_str_def split: sum.splits option.splits)
  from str_as_bytes_from_utf8 [OF u] h have "str_as_bytes s = head" "valid_str s"
    "bs1 = head @ rest" "str_len s = unat len"
    by (auto simp: split_at_checked_iff simp flip: length_str_as_bytes)
  moreover have "bs = to_le_bytes 2 len @ bs1"
    using l by (simp add: xfer_take_u16_def take_word_iff)
  moreover have "unat len < 65536" using unat_less_exp [of len] by simp
  ultimately show "valid_str s \<and> str_len s < 65536 \<and>
      bs = to_le_bytes 2 (of_nat (str_len s) :: u16) @ str_as_bytes s @ rest"
    by simp
next
  assume r: "valid_str s \<and> str_len s < 65536 \<and>
      bs = to_le_bytes 2 (of_nat (str_len s) :: u16) @ str_as_bytes s @ rest"
  then have "unat (of_nat (str_len s) :: u16) = str_len s"
    by (simp add: unsigned_of_nat take_bit_nat_eq_self)
  moreover have "xfer_take_u16 bs = Inr (of_nat (str_len s), str_as_bytes s @ rest)"
    using r by (simp add: xfer_take_u16_def take_word_iff)
  moreover have "split_at_checked XferTruncated (str_len s) (str_as_bytes s @ rest) =
      Inr (str_as_bytes s, rest)"
    by (simp add: split_at_checked_iff)
  ultimately show "xfer_take_str bs = Inr (s, rest)"
    using r by (simp add: xfer_take_str_def str_from_utf8_as_bytes)
qed

lemma decode_offer_iff:
  "decode_offer bs = Inr f \<longleftrightarrow>
     (\<exists>name tot hs whole rest. f = XferOffer name tot hs whole \<and> xfer_ok f \<and>
        KIND_OFFER # bs = xfer_encode f @ rest)" (is "?l \<longleftrightarrow> ?r")
proof
  assume ?l
  then obtain name r1 tot r2 count r3 hs r4 whole rest where
    d: "xfer_take_str bs = Inr (name, r1)" "xfer_take_u64 r1 = Inr (tot, r2)"
      "xfer_take_u32 r2 = Inr (count, r3)" "unat count \<le> MAX_FRAGMENTS"
      "take_many take_hash (unat count) r3 = Inr (hs, r4)" "take_hash r4 = Inr (whole, rest)"
      "f = XferOffer name tot hs whole"
    by (auto simp: decode_offer_def not_less split: sum.splits if_splits)
  have "length hs = unat count" using d(5) by (simp add: hash_codec.take_many_iff)
  then have "count = of_nat (length hs)" by simp
  with d show ?r
    by (auto simp: xfer_take_str_iff xfer_take_u64_def xfer_take_u32_def take_word_iff
        hash_codec.take_many_iff hash_codec.get_iff)
next
  assume ?r
  then obtain name tot hs whole rest where f: "f = XferOffer name tot hs whole" "xfer_ok f"
    and bs: "bs = to_le_bytes 2 (of_nat (str_len name) :: u16) @ str_as_bytes name @
       to_le_bytes 8 tot @ to_le_bytes 4 (of_nat (length hs) :: u32) @ concat hs @ whole @ rest"
    by auto
  have n: "unat (of_nat (length hs) :: u32) = length hs"
    using f by (simp add: MAX_FRAGMENTS_def unsigned_of_nat take_bit_nat_eq_self)
  let ?r3 = "concat hs @ whole @ rest"
  let ?r2 = "to_le_bytes 4 (of_nat (length hs) :: u32) @ ?r3"
  let ?r1 = "to_le_bytes 8 tot @ ?r2"
  have "xfer_take_str bs = Inr (name, ?r1)" using f bs by (simp add: xfer_take_str_iff)
  moreover have "xfer_take_u64 ?r1 = Inr (tot, ?r2)"
    by (simp add: xfer_take_u64_def take_word_iff)
  moreover have "xfer_take_u32 ?r2 = Inr (of_nat (length hs), ?r3)"
    by (simp add: xfer_take_u32_def take_word_iff)
  moreover have "take_many take_hash (length hs) ?r3 = Inr (hs, whole @ rest)"
    using f by (simp add: hash_codec.take_many_iff)
  moreover have "take_hash (whole @ rest) = Inr (whole, rest)"
    using f by (simp add: hash_codec.get_put)
  ultimately show ?l using f n by (simp add: decode_offer_def)
qed

lemma decode_fragment_iff:
  "decode_fragment bs = Inr f \<longleftrightarrow>
     (\<exists>index data rest. f = XferFragment index data \<and> xfer_ok f \<and>
        KIND_FRAGMENT # bs = xfer_encode f @ rest)" (is "?l \<longleftrightarrow> ?r")
proof
  assume ?l
  then obtain index r1 len r2 data rest where
    d: "xfer_take_u32 bs = Inr (index, r1)" "xfer_take_u16 r1 = Inr (len, r2)"
      "unat len \<le> FRAGMENT_LEN" "split_at_checked XferTruncated (unat len) r2 = Inr (data, rest)"
      "f = XferFragment index data"
    by (auto simp: decode_fragment_def not_less split: sum.splits if_splits)
  have "length data = unat len" using d(4) by (simp add: split_at_checked_iff)
  then have "len = of_nat (length data)" by simp
  with d show ?r
    by (auto simp: xfer_take_u32_def xfer_take_u16_def take_word_iff split_at_checked_iff)
next
  assume ?r
  then obtain index data rest where f: "f = XferFragment index data" "length data \<le> FRAGMENT_LEN"
    and bs: "bs = to_le_bytes 4 index @ to_le_bytes 2 (of_nat (length data) :: u16) @ data @ rest"
    by auto
  have n: "unat (of_nat (length data) :: u16) = length data"
    using f by (simp add: FRAGMENT_LEN_def unsigned_of_nat take_bit_nat_eq_self)
  let ?r1 = "to_le_bytes 2 (of_nat (length data) :: u16) @ data @ rest"
  have "xfer_take_u32 bs = Inr (index, ?r1)" using bs by (simp add: xfer_take_u32_def take_word_iff)
  moreover have "xfer_take_u16 ?r1 = Inr (of_nat (length data), data @ rest)"
    by (simp add: xfer_take_u16_def take_word_iff)
  moreover have "split_at_checked XferTruncated (length data) (data @ rest) = Inr (data, rest)"
    by (simp add: split_at_checked_iff)
  ultimately show ?l using f n by (simp add: decode_fragment_def)
qed

text \<open>
  The file-transfer decoder accepts exactly the encodings of frames within its limits
  (at most 1048576 fragment hashes of 32 bytes, fragments of at most 1024 bytes, a name of
  valid text), followed by anything. So every frame a sender builds survives the wire and a
  small datagram cannot claim more hashes than it carries.
\<close>

lemma xfer_decode_iff:
  "xfer_decode buf = Inr f \<longleftrightarrow> xfer_ok f \<and> (\<exists>rest. buf = xfer_encode f @ rest)"
proof (cases buf)
  case Nil
  then show ?thesis by (cases f) (auto simp: xfer_decode_def)
next
  case (Cons kind bs)
  have k: "KIND_OFFER \<noteq> KIND_FRAGMENT" "KIND_OFFER \<noteq> KIND_COMPLETE" "KIND_FRAGMENT \<noteq> KIND_COMPLETE"
    by (simp_all add: KIND_OFFER_def KIND_FRAGMENT_def KIND_COMPLETE_def)
  show ?thesis
  proof (cases f)
    case (XferOffer name tot hs whole)
    then have "xfer_decode buf = Inr f \<longleftrightarrow> kind = KIND_OFFER \<and> decode_offer bs = Inr f"
      by (auto simp: xfer_decode_def Cons decode_fragment_iff split: if_splits)
    also have "\<dots> \<longleftrightarrow> xfer_ok f \<and> (\<exists>rest. buf = xfer_encode f @ rest)"
      using XferOffer by (auto simp: decode_offer_iff Cons)
    finally show ?thesis .
  next
    case (XferFragment index data)
    then have "xfer_decode buf = Inr f \<longleftrightarrow> kind = KIND_FRAGMENT \<and> decode_fragment bs = Inr f"
      using k by (auto simp: xfer_decode_def Cons decode_offer_iff split: if_splits)
    also have "\<dots> \<longleftrightarrow> xfer_ok f \<and> (\<exists>rest. buf = xfer_encode f @ rest)"
      using XferFragment by (auto simp: decode_fragment_iff Cons)
    finally show ?thesis .
  next
    case XferComplete
    then show ?thesis
      using k by (auto simp: xfer_decode_def Cons decode_offer_iff decode_fragment_iff)
  qed
qed

end
