(* ===== verification/Transfer_Run.thy ===== *)
theory Transfer_Run
  imports File_Transfer
begin

text \<open>
  Whole file transfers: the receiver of \<open>File_Transfer\<close> under arbitrary fragments, repeated
  offers and process restarts. The lemmas show that a completed transfer left exactly the
  sent file at the destination, that sending the offer and the fragments again always
  completes it, and when a transfer can no longer complete.
\<close>

section \<open>Fragments of a file\<close>

lemma chunks_Nil [simp]: "chunks n [] = []"
  by (simp add: chunks.simps)

lemma concat_chunks: "0 < n \<Longrightarrow> concat (chunks n data) = data"
proof (induction n data rule: chunks.induct)
  case (1 n data)
  then show ?case by (subst chunks.simps) auto
qed

lemma nth_chunks:
  "i < length (chunks n data) \<Longrightarrow> chunks n data ! i = take n (drop (i * n) data)"
proof (induction n data arbitrary: i rule: chunks.induct)
  case (1 n data)
  show ?case
  proof (cases "n = 0 \<or> data = []")
    case True
    with 1(2) show ?thesis by (subst (asm) chunks.simps) auto
  next
    case False
    then have c: "chunks n data = take n data # chunks n (drop n data)" by (subst chunks.simps) auto
    show ?thesis
    proof (cases i)
      case 0
      then show ?thesis by (simp add: c)
    next
      case (Suc j)
      with 1 False show ?thesis by (simp add: c add.commute)
    qed
  qed
qed

lemma chunks_offset: "i < length (chunks n data) \<Longrightarrow> i * n < length data"
proof (induction n data arbitrary: i rule: chunks.induct)
  case (1 n data)
  show ?case
  proof (cases "n = 0 \<or> data = []")
    case True
    with 1(2) show ?thesis by (subst (asm) chunks.simps) auto
  next
    case False
    then have c: "chunks n data = take n data # chunks n (drop n data)" by (subst chunks.simps) auto
    show ?thesis
    proof (cases i)
      case 0
      then show ?thesis using False by simp
    next
      case (Suc j)
      with 1 False have "j * n < length (drop n data)" by (simp add: c)
      then show ?thesis by (simp add: Suc)
    qed
  qed
qed

lemma length_chunks_le: "0 < n \<Longrightarrow> length (chunks n data) * n < length data + n"
proof (cases "chunks n data")
  case (Cons c cs)
  assume n: "0 < n"
  have "length cs < length (chunks n data)" using Cons by simp
  from chunks_offset [OF this] show ?thesis using Cons by simp
qed simp

text \<open>The part of the destination that fragment \<open>i\<close> occupies.\<close>

abbreviation slice :: "nat \<Rightarrow> bytes \<Rightarrow> bytes" where
  "slice i bs \<equiv> take FRAGMENT_LEN (drop (i * FRAGMENT_LEN) bs)"

lemma write_at_within:
  "off + length d \<le> length bs \<Longrightarrow> write_at off d bs = take off bs @ d @ drop (off + length d) bs"
  by (simp add: write_at_def)

lemma slice_write_same:
  assumes "i < length (chunks FRAGMENT_LEN data)" "length bs = length data"
  shows "slice i (write_at (i * FRAGMENT_LEN) (slice i data) bs) = slice i data"
    and "length (write_at (i * FRAGMENT_LEN) (slice i data) bs) = length data"
proof -
  have off: "i * FRAGMENT_LEN < length data" using chunks_offset [OF assms(1)] .
  then have within: "i * FRAGMENT_LEN + length (slice i data) \<le> length bs"
    using assms(2) by simp
  show "length (write_at (i * FRAGMENT_LEN) (slice i data) bs) = length data"
    using off assms(2) by (simp add: write_at_within [OF within])
  show "slice i (write_at (i * FRAGMENT_LEN) (slice i data) bs) = slice i data"
    using off assms(2) by (simp add: write_at_within [OF within] min_def)
qed

lemma slice_write_other:
  assumes "i < length (chunks FRAGMENT_LEN data)" "length bs = length data" "j \<noteq> i"
  shows "slice j (write_at (i * FRAGMENT_LEN) (slice i data) bs) = slice j bs"
proof -
  let ?L = FRAGMENT_LEN
  have off: "i * ?L < length data" using chunks_offset [OF assms(1)] .
  then have within: "i * ?L + length (slice i data) \<le> length bs" using assms(2) by simp
  show ?thesis
  proof (cases "j < i")
    case True
    then have "Suc j * ?L \<le> i * ?L" by (intro mult_le_mono1) simp
    then have le: "j * ?L + ?L \<le> i * ?L" by simp
    have "take ?L (drop (j * ?L) (take (i * ?L) bs @ ys)) = slice j bs" for ys
      using le off assms(2) by (auto simp: min_def drop_take)
    then show ?thesis by (simp only: write_at_within [OF within])
  next
    case False
    with assms(3) have "Suc i * ?L \<le> j * ?L" by (intro mult_le_mono1) simp
    then have ge: "i * ?L + ?L \<le> j * ?L" by simp
    show ?thesis
    proof (cases "i * ?L + ?L \<le> length data")
      case True
      then have "length (slice i data) = ?L" by simp
      moreover have "i * ?L \<le> j * ?L" using ge by linarith
      ultimately show ?thesis
        using ge True assms(2) by (simp add: write_at_within [OF within] drop_drop add.commute)
    next
      case False
      then have "length bs \<le> j * ?L" using ge assms(2) by simp
      moreover have "length (write_at (i * ?L) (slice i data) bs) = length data"
        by (rule slice_write_same(2) [OF assms(1,2)])
      ultimately show ?thesis using assms(2) by simp
    qed
  qed
qed

text \<open>A destination of the right length with every fragment in place is the file.\<close>

lemma slices_determine:
  assumes "length bs = length data" "\<forall>i<length (chunks FRAGMENT_LEN data). slice i bs = slice i data"
  shows "bs = data"
proof (rule nth_equalityI [OF assms(1)])
  fix k
  assume k: "k < length bs"
  let ?L = FRAGMENT_LEN
  let ?i = "k div ?L"
  have L: "0 < ?L" by (simp add: FRAGMENT_LEN_def)
  have "length data < length (chunks ?L data) * ?L + 1"
  proof -
    have "length (concat (chunks ?L data)) \<le> length (chunks ?L data) * ?L"
    proof -
      have "\<forall>c\<in>set (chunks ?L data). length c \<le> ?L"
        by (metis in_set_conv_nth length_take min.cobounded2 nth_chunks)
      moreover have "length (concat cs) \<le> length cs * ?L" if "\<forall>c\<in>set cs. length c \<le> ?L" for cs :: "bytes list"
        using that by (induction cs) auto
      ultimately show ?thesis by blast
    qed
    then show ?thesis by (simp add: concat_chunks [OF L])
  qed
  then have i: "?i < length (chunks ?L data)"
    using k assms(1) by (simp add: less_mult_imp_div_less)
  have r: "?i * ?L + k mod ?L = k" by simp
  have s: "bs ! k = slice ?i bs ! (k mod ?L)" if "k < length bs" for bs :: bytes
  proof -
    have "slice ?i bs ! (k mod ?L) = drop (?i * ?L) bs ! (k mod ?L)"
      using L by (intro nth_take) simp
    also have "\<dots> = bs ! (?i * ?L + k mod ?L)" 
      using that r by (intro nth_drop) linarith
    finally show ?thesis by (simp only: r)
  qed
  show "bs ! k = data ! k"
    unfolding s [OF k] s [OF k [unfolded assms(1)]] using assms(2) i by simp
qed

section \<open>The invariant of a transfer\<close>

datatype xfer_event = Arrive xfer_frame | Restart

text \<open>A restart of the receiving process keeps the files and loses the rest.\<close>

fun receiver_step ::
  "(bytes \<Rightarrow> chunk_hash) \<Rightarrow> file_receiver \<Rightarrow> xfer_event \<Rightarrow> file_receiver" where
  "receiver_step hash r (Arrive f) = snd (receiver_apply hash r f)"
| "receiver_step hash r Restart = file_receiver_new (fr_dst r) (fr_resume r)"

definition file_manifest :: "(bytes \<Rightarrow> chunk_hash) \<Rightarrow> bytes \<Rightarrow> transfer_manifest" where
  "file_manifest hash data = manifest_new (map hash (chunks FRAGMENT_LEN data)) (length data)"

definition file_offer :: "(bytes \<Rightarrow> chunk_hash) \<Rightarrow> rust_str \<Rightarrow> bytes \<Rightarrow> xfer_frame" where
  "file_offer hash name data =
     XferOffer name (of_nat (length data)) (map hash (chunks FRAGMENT_LEN data)) (hash data)"

text \<open>Only the sender's offer arrives; fragments and completions may be anything.\<close>

definition own_event :: "(bytes \<Rightarrow> chunk_hash) \<Rightarrow> rust_str \<Rightarrow> bytes \<Rightarrow> xfer_event \<Rightarrow> bool" where
  "own_event hash name data e \<longleftrightarrow>
     (\<forall>n t hs w. e = Arrive (XferOffer n t hs w) \<longrightarrow> XferOffer n t hs w = file_offer hash name data)"

text \<open>What is relied on of the hash: 32 bytes, and no second preimage of a fragment.\<close>

definition hash_ok :: "(bytes \<Rightarrow> chunk_hash) \<Rightarrow> bytes \<Rightarrow> bool" where
  "hash_ok hash data \<longleftrightarrow>
     (\<forall>x. length (hash x) = 32) \<and>
     (\<forall>x. \<forall>c\<in>set (chunks FRAGMENT_LEN data). hash x = hash c \<longrightarrow> x = c)"

definition file_active ::
  "(bytes \<Rightarrow> chunk_hash) \<Rightarrow> bytes \<Rightarrow> resumable_transfer \<Rightarrow> active" where
  "file_active hash data t =
     \<lparr>ac_transfer = t, ac_frag_hashes = map hash (chunks FRAGMENT_LEN data),
      ac_whole_hash = hash data, ac_total_bytes = of_nat (length data)\<rparr>"

text \<open>
  Under way: the sidecar holds the progress \<open>t\<close> and every recorded fragment is in place.
\<close>

definition under_way ::
  "(bytes \<Rightarrow> chunk_hash) \<Rightarrow> bytes \<Rightarrow> resumable_transfer \<Rightarrow> file_receiver \<Rightarrow> bool" where
  "under_way hash data t r \<longleftrightarrow>
     resume_inv t \<and> rt_manifest t = file_manifest hash data \<and> fr_resume r = Some (rt_file t) \<and>
     (\<exists>bs. fr_dst r = Some bs \<and> length bs = length data \<and>
        (\<forall>i<length (chunks FRAGMENT_LEN data).
           of_nat i \<in> rt_delivered t \<longrightarrow> slice i bs = slice i data)) \<and>
     (fr_state r = None \<or> fr_state r = Some (file_active hash data t))"

definition not_started :: "(bytes \<Rightarrow> chunk_hash) \<Rightarrow> bytes \<Rightarrow> file_receiver \<Rightarrow> bool" where
  "not_started hash data r \<longleftrightarrow>
     fr_state r = None \<and> snd (resume_open (fr_resume r) (file_manifest hash data)) = OpenFresh"

definition transfer_inv :: "(bytes \<Rightarrow> chunk_hash) \<Rightarrow> bytes \<Rightarrow> file_receiver \<Rightarrow> bool" where
  "transfer_inv hash data r \<longleftrightarrow> not_started hash data r \<or> (\<exists>t. under_way hash data t r)"

lemma file_manifest_ok:
  assumes "hash_ok hash data" "length data \<le> 2 ^ 30"
  shows "manifest_ok (file_manifest hash data)"
proof -
  have "length (chunks FRAGMENT_LEN data) * FRAGMENT_LEN < length data + FRAGMENT_LEN"
    by (rule length_chunks_le) (simp add: FRAGMENT_LEN_def)
  then have "length (chunks FRAGMENT_LEN data) < 2 ^ 32"
    using assms(2) by (simp add: FRAGMENT_LEN_def)
  then show ?thesis
    using assms
    by (auto simp: manifest_ok_def file_manifest_def manifest_new_def chunk_count_def hash_ok_def)
qed

lemma chunk_count_file_manifest [simp]:
  "chunk_count (file_manifest hash data) = length (chunks FRAGMENT_LEN data)"
  by (simp add: file_manifest_def manifest_new_def chunk_count_def)

lemma resume_open_fresh:
  "snd (resume_open f m) = OpenFresh \<Longrightarrow>
     resume_open f m = (\<lparr>rt_manifest = m, rt_delivered = {}, rt_file = resume_create m\<rparr>, OpenFresh)"
  by (auto simp: resume_open_def split: sum.splits option.splits)

lemma resume_open_inv:
  "resume_inv t \<Longrightarrow>
     resume_open (Some (rt_file t)) (rt_manifest t) = (t, OpenResumed (card (rt_delivered t)))"
  using resume_load_inv [of t "[]"]
  by (cases t) (simp add: resume_open_def PROGRESS_ENTRY_LEN_def)

lemma unat_of_nat_len: "length data \<le> 2 ^ 30 \<Longrightarrow> unat (of_nat (length data) :: u64) = length data"
  by (simp add: unsigned_of_nat take_bit_nat_eq_self)

text \<open>The offer opens the transfer, or resumes it with its progress unchanged.\<close>

lemma offer_under_way:
  fixes name :: rust_str
  assumes "transfer_inv hash data r" "hash_ok hash data" "length data \<le> 2 ^ 30"
  defines "r' \<equiv> snd (receiver_apply hash r (file_offer hash name data))"
  shows "\<exists>t. under_way hash data t r' \<and> fr_state r' = Some (file_active hash data t)"
proof -
  let ?m = "file_manifest hash data"
  obtain t out where o: "resume_open (fr_resume r) ?m = (t, out)" by fastforce
  define c where "c = (case fr_dst r of None \<Rightarrow> [] | Some bs \<Rightarrow> bs)"
  have r': "r' = r\<lparr>fr_dst := Some (set_len (length data) c), fr_resume := Some (rt_file t),
      fr_state := Some (file_active hash data t)\<rparr>"
    by (simp add: r'_def file_offer_def receive_offer_def o c_def file_active_def
        unat_of_nat_len [OF assms(3)] Let_def flip: file_manifest_def)
  have len: "length (set_len (length data) c) = length data"
    by (simp add: set_len_def)
  have "under_way hash data t r'"
  proof (cases "not_started hash data r")
    case True
    then have "t = \<lparr>rt_manifest = ?m, rt_delivered = {}, rt_file = resume_create ?m\<rparr>"
      using resume_open_fresh [of "fr_resume r" ?m] o by (simp add: not_started_def)
    then show ?thesis
      using resume_inv_fresh [OF file_manifest_ok [OF assms(2,3)]] len
      by (simp add: under_way_def r')
  next
    case False
    then obtain t0 where u: "under_way hash data t0 r" using assms(1) by (auto simp: transfer_inv_def)
    then have "t = t0" using o resume_open_inv [of t0] by (auto simp: under_way_def)
    moreover have "set_len (length data) c = c"
      using u by (auto simp: under_way_def c_def set_len_def)
    ultimately show ?thesis using u by (auto simp: under_way_def r' c_def)
  qed
  then show ?thesis using r' by auto
qed

text \<open>
  A fragment changes a transfer under way only if it is a missing fragment of the file; then
  it is written in place and recorded.
\<close>

lemma fragment_cases:
  assumes "under_way hash data t r" "fr_state r = Some (file_active hash data t)"
    "hash_ok hash data"
  shows "snd (receive_fragment hash r index d) = r \<or>
    (unat index < length (chunks FRAGMENT_LEN data) \<and> index \<notin> rt_delivered t \<and>
     d = slice (unat index) data \<and>
     (\<exists>bs. fr_dst r = Some bs \<and>
       snd (receive_fragment hash r index d) =
         r\<lparr>fr_dst := Some (write_at (unat index * FRAGMENT_LEN) d bs),
           fr_resume := Some (rt_file (mark_delivered t (unat index))),
           fr_state := Some (file_active hash data (mark_delivered t (unat index)))\<rparr>))"
proof -
  let ?i = "unat index" and ?cs = "chunks FRAGMENT_LEN data"
  obtain bs where bs: "fr_dst r = Some bs" using assms(1) by (auto simp: under_way_def)
  have rem: "?i \<in> set (remaining t) \<longleftrightarrow> ?i < length ?cs \<and> index \<notin> rt_delivered t"
    using assms(1) by (auto simp: remaining_def under_way_def)
  show ?thesis
  proof (cases "?i < length ?cs \<and> index \<notin> rt_delivered t \<and> hash d = hash (?cs ! ?i)")
    case True
    then have "d = ?cs ! ?i" using assms(3) by (auto simp: hash_ok_def)
    then have "d = slice ?i data" using True by (simp add: nth_chunks)
    moreover have "snd (receive_fragment hash r index d) =
        r\<lparr>fr_dst := Some (write_at (?i * FRAGMENT_LEN) d bs),
          fr_resume := Some (rt_file (mark_delivered t ?i)),
          fr_state := Some (file_active hash data (mark_delivered t ?i))\<rparr>"
      using True rem bs assms(2) by (simp add: receive_fragment_def file_active_def Let_def)
    ultimately show ?thesis using True bs by auto
  next
    case False
    then have "snd (receive_fragment hash r index d) = r"
      using rem assms(2) by (auto simp: receive_fragment_def file_active_def Let_def)
    then show ?thesis ..
  qed
qed

lemma under_way_write:
  assumes "under_way hash data t r" "fr_dst r = Some bs" "i < length (chunks FRAGMENT_LEN data)"
    "length data \<le> 2 ^ 30"
  shows "under_way hash data (mark_delivered t i)
    (r\<lparr>fr_dst := Some (write_at (i * FRAGMENT_LEN) (slice i data) bs),
       fr_resume := Some (rt_file (mark_delivered t i)),
       fr_state := Some (file_active hash data (mark_delivered t i))\<rparr>)"
proof -
  let ?cs = "chunks FRAGMENT_LEN data" and ?w = "write_at (i * FRAGMENT_LEN) (slice i data) bs"
  have u: "resume_inv t" "rt_manifest t = file_manifest hash data" "length bs = length data"
    "\<And>j. j < length ?cs \<Longrightarrow> of_nat j \<in> rt_delivered t \<Longrightarrow> slice j bs = slice j data"
    using assms(1,2) by (auto simp: under_way_def)
  have "slice j ?w = slice j data"
    if "j < length ?cs" "of_nat j \<in> rt_delivered (mark_delivered t i)" for j
  proof (cases "j = i")
    case True
    then show ?thesis using slice_write_same(1) [OF assms(3) u(3)] by simp
  next
    case False
    have "length ?cs * FRAGMENT_LEN < length data + FRAGMENT_LEN"
      by (rule length_chunks_le) (simp add: FRAGMENT_LEN_def)
    then have "length ?cs < 2 ^ 32" using assms(4) by (simp add: FRAGMENT_LEN_def)
    then have "(of_nat j :: u32) \<noteq> of_nat i"
      using False that(1) assms(3) by (simp add: word_unat_eq_iff unsigned_of_nat take_bit_nat_eq_self)
    then have "of_nat j \<in> rt_delivered t" using that(2) assms(3) u(2) by simp
    then show ?thesis
      using u(4) [OF that(1)] slice_write_other [OF assms(3) u(3) False] by simp
  qed
  then show ?thesis
    using resume_inv_mark [OF u(1), of i] u(2) slice_write_same(2) [OF assms(3) u(3)]
    by (simp add: under_way_def)
qed

lemma fragment_under_way:
  fixes index :: u32 and d :: bytes
  assumes "under_way hash data t r" "fr_state r = Some (file_active hash data t)"
    "hash_ok hash data" "length data \<le> 2 ^ 30"
  defines "r' \<equiv> snd (receive_fragment hash r index d)"
  shows "\<exists>t'. under_way hash data t' r' \<and> fr_state r' = Some (file_active hash data t') \<and>
    rt_delivered t \<subseteq> rt_delivered t' \<and>
    (unat index < length (chunks FRAGMENT_LEN data) \<and> d = slice (unat index) data \<longrightarrow>
       index \<in> rt_delivered t')"
proof -
  let ?i = "unat index" and ?cs = "chunks FRAGMENT_LEN data"
  from fragment_cases [OF assms(1-3), of index d]
  show ?thesis
  proof (elim disjE conjE exE)
    assume same: "snd (receive_fragment hash r index d) = r"
    have "index \<in> rt_delivered t" if "?i < length ?cs" "d = slice ?i data"
    proof (rule ccontr)
      assume "index \<notin> rt_delivered t"
      moreover have "rt_manifest t = file_manifest hash data" using assms(1) by (simp add: under_way_def)
      ultimately have "?i \<in> set (remaining t)" using that(1) by (simp add: remaining_def)
      moreover have "hash d = map hash ?cs ! ?i" using that by (simp add: nth_chunks)
      ultimately have "fr_state (snd (receive_fragment hash r index d)) =
          Some (file_active hash data (mark_delivered t ?i))"
        using that(1) assms(2) by (simp add: receive_fragment_def file_active_def Let_def)
      then have "mark_delivered t ?i = t" using same assms(2) by (simp add: file_active_def)
      moreover have "index \<in> rt_delivered (mark_delivered t ?i)"
        using that(1) assms(1) by (simp add: under_way_def)
      ultimately show False using \<open>index \<notin> rt_delivered t\<close> by simp
    qed
    then show ?thesis using same assms(1,2) unfolding r'_def by auto
  next
    fix bs
    assume i: "?i < length ?cs" and d: "d = slice ?i data" and bs: "fr_dst r = Some bs"
      and r: "snd (receive_fragment hash r index d) =
        r\<lparr>fr_dst := Some (write_at (?i * FRAGMENT_LEN) d bs),
          fr_resume := Some (rt_file (mark_delivered t ?i)),
          fr_state := Some (file_active hash data (mark_delivered t ?i))\<rparr>"
    have "rt_manifest t = file_manifest hash data" using assms(1) by (simp add: under_way_def)
    then show ?thesis
      using under_way_write [OF assms(1) bs i assms(4)] i unfolding r'_def d r [unfolded d]
      by (intro exI [of _ "mark_delivered t ?i"]) auto
  qed
qed

section \<open>Completion\<close>

lemma complete_all_delivered:
  assumes "under_way hash data t r" "length data \<le> 2 ^ 30"
  shows "resume_is_complete t \<longleftrightarrow>
    (\<forall>i<length (chunks FRAGMENT_LEN data). of_nat i \<in> rt_delivered t)"
proof -
  let ?n = "length (chunks FRAGMENT_LEN data)"
  let ?all = "(of_nat :: nat \<Rightarrow> u32) ` {..<?n}"
  have m: "chunk_count (rt_manifest t) = ?n" using assms(1) by (simp add: under_way_def)
  have "?n * FRAGMENT_LEN < length data + FRAGMENT_LEN"
    by (rule length_chunks_le) (simp add: FRAGMENT_LEN_def)
  then have n: "?n < 2 ^ 32" using assms(2) by (simp add: FRAGMENT_LEN_def)
  have "inj_on (of_nat :: nat \<Rightarrow> u32) {..<?n}"
    using n by (intro inj_onI) (simp add: word_unat_eq_iff unsigned_of_nat take_bit_nat_eq_self)
  then have card: "card ?all = ?n" by (simp add: card_image)
  have sub: "rt_delivered t \<subseteq> ?all"
  proof
    fix i
    assume "i \<in> rt_delivered t"
    then have "unat i < ?n" using assms(1) m by (simp add: under_way_def resume_inv_def)
    then show "i \<in> ?all" by (intro image_eqI [of _ _ "unat i"]) simp_all
  qed
  have "card (rt_delivered t) = ?n \<longleftrightarrow> rt_delivered t = ?all"
  proof
    assume "card (rt_delivered t) = ?n"
    then have "card (rt_delivered t) = card ?all" by (simp only: card)
    then show "rt_delivered t = ?all" by (rule card_subset_eq [OF finite_imageI [OF finite_lessThan] sub])
  next
    assume "rt_delivered t = ?all"
    then show "card (rt_delivered t) = ?n" by (simp only: card)
  qed
  also have "\<dots> \<longleftrightarrow> ?all \<subseteq> rt_delivered t" using sub by blast
  finally show ?thesis by (simp add: resume_is_complete_def m image_subset_iff Ball_def)
qed

lemma complete_under_way:
  assumes "under_way hash data t r" "fr_state r = Some (file_active hash data t)"
    "length data \<le> 2 ^ 30"
  shows "receive_complete hash r =
    (if resume_is_complete t
     then (Inr CompleteProgress, r\<lparr>fr_state := None, fr_resume := None\<rparr>)
     else (Inr (Incomplete (length (remaining t))), r)) \<and>
    (resume_is_complete t \<longrightarrow> fr_dst r = Some data)"
proof (cases "resume_is_complete t")
  case False
  then show ?thesis using assms(2) by (simp add: receive_complete_def file_active_def)
next
  case True
  obtain bs where bs: "fr_dst r = Some bs" "length bs = length data"
    "\<And>i. i < length (chunks FRAGMENT_LEN data) \<Longrightarrow> of_nat i \<in> rt_delivered t \<Longrightarrow>
       slice i bs = slice i data"
    using assms(1) by (auto simp: under_way_def)
  have "bs = data"
    using bs True complete_all_delivered [OF assms(1,3)] by (intro slices_determine) auto
  then show ?thesis
    using True bs(1) assms(2)
    by (simp add: receive_complete_def file_active_def resume_finish_def Let_def)
qed

section \<open>Runs\<close>

lemma transfer_inv_step:
  assumes "transfer_inv hash data r" "hash_ok hash data" "length data \<le> 2 ^ 30"
    "own_event hash name data e"
  shows "transfer_inv hash data (receiver_step hash r e)"
proof -
  have idle: "transfer_inv hash data (receiver_step hash r e)"
    if "fr_state r = None" "\<And>n t hs w. e \<noteq> Arrive (XferOffer n t hs w)"
  proof (cases e)
    case (Arrive f)
    then have "receiver_step hash r e = r"
      using that by (cases f) (auto simp: receive_fragment_def receive_complete_def)
    then show ?thesis using assms(1) by simp
  next
    case Restart
    have "r = file_receiver_new (fr_dst r) (fr_resume r)"
      using that(1) by (cases r) (simp add: file_receiver_new_def)
    then show ?thesis using assms(1) Restart by simp
  qed
  consider (offer) n tot hs w where "e = Arrive (XferOffer n tot hs w)"
    | (other) "\<And>n t hs w. e \<noteq> Arrive (XferOffer n t hs w)"
    by blast
  then show ?thesis
  proof cases
    case offer
    then have "e = Arrive (file_offer hash name data)" using assms(4) by (auto simp: own_event_def)
    then show ?thesis
      using offer_under_way [OF assms(1-3), of name] by (auto simp: transfer_inv_def)
  next
    case other
    show ?thesis
    proof (cases "fr_state r")
      case None
      then show ?thesis using idle other by blast
    next
      case (Some st)
      then obtain t where u: "under_way hash data t r" and st: "fr_state r = Some (file_active hash data t)"
        using assms(1) by (auto simp: transfer_inv_def not_started_def under_way_def)
      show ?thesis
      proof (cases e)
        case Restart
        then show ?thesis
          using u by (auto simp: transfer_inv_def under_way_def file_receiver_new_def)
      next
        case (Arrive f)
        show ?thesis
        proof (cases f)
          case (XferFragment index d)
          with Arrive fragment_under_way [OF u st assms(2,3), of index d] show ?thesis
            by (auto simp: transfer_inv_def)
        next
          case XferComplete
          have "not_started hash data (r\<lparr>fr_state := None, fr_resume := None\<rparr>)"
            by (simp add: not_started_def resume_open_def resume_load_def)
          with Arrive XferComplete complete_under_way [OF u st assms(3)] assms(1) show ?thesis
            by (auto simp: transfer_inv_def)
        qed (use other Arrive in auto)
      qed
    qed
  qed
qed

lemma transfer_inv_run:
  assumes "transfer_inv hash data r" "hash_ok hash data" "length data \<le> 2 ^ 30"
    "\<forall>e\<in>set evs. own_event hash name data e"
  shows "transfer_inv hash data (foldl (receiver_step hash) r evs)"
  using assms(1,4)
  by (induction evs arbitrary: r) (auto intro: transfer_inv_step [OF _ assms(2,3)])

text \<open>While frames other than completions arrive, the transfer stays open and only gains.\<close>

lemma open_run:
  assumes "under_way hash data t r" "fr_state r = Some (file_active hash data t)"
    "hash_ok hash data" "length data \<le> 2 ^ 30"
    "\<forall>f\<in>set fs. f \<noteq> XferComplete \<and> own_event hash name data (Arrive f)"
  shows "\<exists>t'. under_way hash data t' (foldl (receiver_step hash) r (map Arrive fs)) \<and>
    fr_state (foldl (receiver_step hash) r (map Arrive fs)) = Some (file_active hash data t') \<and>
    rt_delivered t \<subseteq> rt_delivered t' \<and>
    (\<forall>i<length (chunks FRAGMENT_LEN data).
       XferFragment (of_nat i) (slice i data) \<in> set fs \<longrightarrow> of_nat i \<in> rt_delivered t')"
  using assms(1,2,5)
proof (induction fs arbitrary: r t)
  case Nil
  then show ?case by auto
next
  case (Cons f fs)
  let ?r1 = "receiver_step hash r (Arrive f)" and ?cs = "chunks FRAGMENT_LEN data"
  have n: "unat (of_nat i :: u32) = i" if "i < length ?cs" for i
  proof -
    have "length ?cs * FRAGMENT_LEN < length data + FRAGMENT_LEN"
      by (rule length_chunks_le) (simp add: FRAGMENT_LEN_def)
    then have "i < 2 ^ 32" using assms(4) that by (simp add: FRAGMENT_LEN_def)
    then show ?thesis by (simp add: unsigned_of_nat take_bit_nat_eq_self)
  qed
  have "\<exists>t1. under_way hash data t1 ?r1 \<and> fr_state ?r1 = Some (file_active hash data t1) \<and>
      rt_delivered t \<subseteq> rt_delivered t1 \<and>
      (\<forall>i<length ?cs. f = XferFragment (of_nat i) (slice i data) \<longrightarrow> of_nat i \<in> rt_delivered t1)"
  proof (cases f)
    case (XferOffer nm tot hs w)
    then have f: "f = file_offer hash name data" using Cons.prems(3) by (auto simp: own_event_def)
    have "transfer_inv hash data r" using Cons.prems(1) by (auto simp: transfer_inv_def)
    from offer_under_way [OF this assms(3,4), of name] obtain t1 where
      t1: "under_way hash data t1 ?r1" "fr_state ?r1 = Some (file_active hash data t1)"
      by (auto simp: f)
    have "fst (resume_open (fr_resume r) (file_manifest hash data)) = t"
      using Cons.prems(1) resume_open_inv [of t] by (auto simp: under_way_def)
    then have "t1 = t"
      using t1(2)
      by (simp add: f file_offer_def receive_offer_def file_active_def Let_def
          unat_of_nat_len [OF assms(4)] split_beta flip: file_manifest_def)
    with t1 XferOffer show ?thesis by auto
  next
    case (XferFragment index d)
    from fragment_under_way [OF Cons.prems(1,2) assms(3,4), of index d] obtain t1 where
      t1: "under_way hash data t1 ?r1" "fr_state ?r1 = Some (file_active hash data t1)"
        "rt_delivered t \<subseteq> rt_delivered t1"
        "unat index < length ?cs \<and> d = slice (unat index) data \<longrightarrow> index \<in> rt_delivered t1"
      by (auto simp: XferFragment)
    have "of_nat i \<in> rt_delivered t1"
      if "i < length ?cs" "f = XferFragment (of_nat i) (slice i data)" for i
      using that t1(4) n [OF that(1)] XferFragment by simp
    with t1(1-3) show ?thesis by blast
  next
    case XferComplete
    then show ?thesis using Cons.prems(3) by simp
  qed
  then obtain t1 where t1: "under_way hash data t1 ?r1" "fr_state ?r1 = Some (file_active hash data t1)"
    "rt_delivered t \<subseteq> rt_delivered t1"
    "\<forall>i<length ?cs. f = XferFragment (of_nat i) (slice i data) \<longrightarrow> of_nat i \<in> rt_delivered t1"
    by blast
  have "\<forall>f\<in>set fs. f \<noteq> XferComplete \<and> own_event hash name data (Arrive f)"
    using Cons.prems(3) by simp
  from Cons.IH [OF t1(1,2) this] obtain t' where t':
    "under_way hash data t' (foldl (receiver_step hash) ?r1 (map Arrive fs))"
    "fr_state (foldl (receiver_step hash) ?r1 (map Arrive fs)) = Some (file_active hash data t')"
    "rt_delivered t1 \<subseteq> rt_delivered t'"
    "\<forall>i<length ?cs. XferFragment (of_nat i) (slice i data) \<in> set fs \<longrightarrow> of_nat i \<in> rt_delivered t'"
    by blast
  have "of_nat i \<in> rt_delivered t'"
    if "i < length ?cs" "XferFragment (of_nat i) (slice i data) \<in> set (f # fs)" for i
    using that t1(4) t'(3,4) by (metis set_ConsD subsetD)
  moreover have "rt_delivered t \<subseteq> rt_delivered t'" using t1(3) t'(3) by (rule subset_trans)
  ultimately show ?case using t'(1,2) by (intro exI [of _ t']) simp
qed

text \<open>The offer followed by every fragment makes the next completion succeed.\<close>

lemma transfer_finishes:
  assumes "transfer_inv hash data r" "hash_ok hash data" "length data \<le> 2 ^ 30"
    and "\<forall>f\<in>set fs. f \<noteq> XferComplete \<and> own_event hash name data (Arrive f)"
    and "\<forall>i<length (chunks FRAGMENT_LEN data). XferFragment (of_nat i) (slice i data) \<in> set fs"
  defines "again \<equiv> foldl (receiver_step hash) r (map Arrive (file_offer hash name data # fs))"
  shows "fst (receiver_apply hash again XferComplete) = Inr CompleteProgress \<and>
    fr_dst (snd (receiver_apply hash again XferComplete)) = Some data"
proof -
  obtain t where u: "under_way hash data t (receiver_step hash r (Arrive (file_offer hash name data)))"
    "fr_state (receiver_step hash r (Arrive (file_offer hash name data))) =
       Some (file_active hash data t)"
    using offer_under_way [OF assms(1-3), of name] by auto
  from open_run [OF this assms(2,3,4)] assms(5) obtain t' where
    t': "under_way hash data t' again" "fr_state again = Some (file_active hash data t')"
    and all: "\<forall>i<length (chunks FRAGMENT_LEN data). of_nat i \<in> rt_delivered t'"
    by (auto simp: again_def)
  have "resume_is_complete t'" using complete_all_delivered [OF t'(1) assms(3)] all by simp
  with complete_under_way [OF t' assms(3)] show ?thesis by auto
qed

lemma transfer_inv_new:
  "snd (resume_open sidecar (file_manifest hash data)) = OpenFresh \<Longrightarrow> transfer_inv hash data (file_receiver_new dst sidecar)"
  by (simp add: transfer_inv_def not_started_def file_receiver_new_def)

text \<open>
  C9: File transfer is correct and can always be finished. Start with any destination and no
  matching sidecar, and let any fragments (wrong, repeated, out of order), repetitions of the
  sender's offer, completions and process restarts happen, in any order. Whenever completion
  is reported, the destination is exactly the sent file. And from every such state, the
  sender's offer followed by any frames that include each fragment of the file once makes the
  next completion succeed. This relies on the hash having no second preimage of a fragment.
\<close>

theorem file_transfer_end_to_end:
  fixes evs :: "xfer_event list" and dst :: "bytes option"
  assumes "hash_ok hash data" "length data \<le> 2 ^ 30"
    and "snd (resume_open sidecar (file_manifest hash data)) = OpenFresh"
    and "\<forall>e\<in>set evs. own_event hash name data e"
    and "\<forall>f\<in>set fs. f \<noteq> XferComplete \<and> own_event hash name data (Arrive f)"
    and "\<forall>i<length (chunks FRAGMENT_LEN data). XferFragment (of_nat i) (slice i data) \<in> set fs"
  defines "r \<equiv> foldl (receiver_step hash) (file_receiver_new dst sidecar) evs"
  defines "again \<equiv> foldl (receiver_step hash) r (map Arrive (file_offer hash name data # fs))"
  shows "(\<forall>r'. receiver_apply hash r XferComplete = (Inr CompleteProgress, r') \<longrightarrow>
       fr_dst r' = Some data) \<and>
    fst (receiver_apply hash again XferComplete) = Inr CompleteProgress \<and>
    fr_dst (snd (receiver_apply hash again XferComplete)) = Some data"
proof -
  have inv: "transfer_inv hash data r"
    unfolding r_def by (rule transfer_inv_run [OF transfer_inv_new [OF assms(3)] assms(1,2,4)])
  have safe: "fr_dst r' = Some data"
    if "receiver_apply hash r XferComplete = (Inr CompleteProgress, r')" for r'
  proof -
    have "fr_state r \<noteq> None" using that by (auto simp: receive_complete_def split: option.splits)
    then obtain t where u: "under_way hash data t r" "fr_state r = Some (file_active hash data t)"
      using inv by (auto simp: transfer_inv_def not_started_def under_way_def)
    from complete_under_way [OF this assms(2)] that show ?thesis by (auto split: if_splits)
  qed
  with transfer_finishes [OF inv assms(1,2,5,6)] show ?thesis by (simp add: again_def)
qed

text \<open>The witness sends a file of three bytes with a hash that recognises exactly it.\<close>

theorem file_transfer_end_to_end_witness:
  "fst (receiver_apply (\<lambda>x. replicate 32 (if x = [1, 2, 3] then 1 else 0))
     (foldl (receiver_step (\<lambda>x. replicate 32 (if x = [1, 2, 3] then 1 else 0)))
       (file_receiver_new None None)
       (map Arrive [file_offer (\<lambda>x. replicate 32 (if x = [1, 2, 3] then 1 else 0)) [] [1, 2, 3],
          XferFragment 0 [1, 2, 3]])) XferComplete) = Inr CompleteProgress"
proof -
  let ?h = "\<lambda>x :: bytes. replicate 32 (if x = [1, 2, 3] then 1 else 0) :: bytes"
  have c: "chunks FRAGMENT_LEN [1, 2, 3] = [[1, 2, 3]]"
    by (subst chunks.simps) (simp add: FRAGMENT_LEN_def)
  have h: "hash_ok ?h [1, 2, 3]" by (auto simp: hash_ok_def c numeral_eq_Suc)
  have fresh: "snd (resume_open None (file_manifest ?h [1, 2, 3])) = OpenFresh"
    by (simp add: resume_open_def resume_load_def)
  have len: "length [1, 2, 3 :: u8] \<le> 2 ^ 30" by simp
  have none: "\<forall>e\<in>set []. own_event ?h [] [1, 2, 3] e" by simp
  have own: "\<forall>f\<in>set [XferFragment 0 [1, 2, 3]].
      f \<noteq> XferComplete \<and> own_event ?h [] [1, 2, 3] (Arrive f)"
    by (simp add: own_event_def)
  have all: "\<forall>i<length (chunks FRAGMENT_LEN [1, 2, 3]).
      XferFragment (of_nat i) (slice i [1, 2, 3]) \<in> set [XferFragment 0 [1, 2, 3]]"
    by (simp add: c) (simp add: FRAGMENT_LEN_def)
  from file_transfer_end_to_end [OF h len fresh none own all, of None] show ?thesis by simp
qed

section \<open>A transfer that cannot finish\<close>

definition wedged ::
  "(bytes \<Rightarrow> chunk_hash) \<Rightarrow> bytes \<Rightarrow> resumable_transfer \<Rightarrow> bytes \<Rightarrow> file_receiver \<Rightarrow> bool" where
  "wedged hash data t bs r \<longleftrightarrow>
     fr_dst r = Some bs \<and> fr_resume r = Some (rt_file t) \<and>
     (fr_state r = None \<or> fr_state r = Some (file_active hash data t))"

lemma wedged_apply:
  assumes "wedged hash data t bs r" "length data \<le> 2 ^ 30"
    and "resume_inv t" "rt_manifest t = file_manifest hash data" "resume_is_complete t"
    and "remaining t = []" "length bs = length data" "hash bs \<noteq> hash data"
    and "own_event hash name data (Arrive f)"
  shows "wedged hash data t bs (snd (receiver_apply hash r f))"
    and "fst (receiver_apply hash r f) \<noteq> Inr CompleteProgress"
proof -
  have "wedged hash data t bs (snd (receiver_apply hash r f)) \<and>
      fst (receiver_apply hash r f) \<noteq> Inr CompleteProgress"
  proof (cases f)
    case (XferOffer n tot hs w)
    then have f: "f = file_offer hash name data" using assms(9) by (auto simp: own_event_def)
    have o: "resume_open (fr_resume r) (file_manifest hash data) = (t, OpenResumed (card (rt_delivered t)))"
      using assms(1,4) resume_open_inv [OF assms(3)] by (simp add: wedged_def)
    have "receiver_apply hash r f = (Inr (Started (length (remaining t))),
        r\<lparr>fr_dst := Some (set_len (length data) bs), fr_resume := Some (rt_file t),
          fr_state := Some (file_active hash data t)\<rparr>)"
      using assms(1) o
      by (simp add: f file_offer_def receive_offer_def wedged_def file_active_def Let_def
          unat_of_nat_len [OF assms(2)] flip: file_manifest_def)
    then show ?thesis using assms(1,7) by (simp add: wedged_def set_len_def)
  next
    case (XferFragment index d)
    have "receive_fragment hash r index d \<in> {(Inl XferNoOffer, r), (Inl XferBadIndex, r), (Inr Duplicate, r)}"
    proof (cases "fr_state r")
      case None
      then show ?thesis by (simp add: receive_fragment_def)
    next
      case (Some st)
      then have "remaining (ac_transfer st) = []"
        using assms(1,6) by (auto simp: wedged_def file_active_def)
      then show ?thesis using Some by (simp add: receive_fragment_def Let_def)
    qed
    then show ?thesis using assms(1) XferFragment by auto
  next
    case XferComplete
    then show ?thesis
      using assms(1,5,8) by (auto simp: wedged_def receive_complete_def file_active_def)
  qed
  then show "wedged hash data t bs (snd (receiver_apply hash r f))"
    "fst (receiver_apply hash r f) \<noteq> Inr CompleteProgress" by auto
qed

text \<open>
  A damaged destination wedges the transfer. When the sidecar records every fragment but
  the destination differs from the file (it was deleted or changed before completion), no
  sequence of the sender's offers, fragments, completions and process restarts repairs it:
  every fragment is skipped as a duplicate, completion is never reported and the sidecar is
  never removed.
\<close>

lemma file_transfer_wedged:
  fixes evs :: "xfer_event list"
  assumes "length data \<le> 2 ^ 30"
    and "resume_inv t" "rt_manifest t = file_manifest hash data" "resume_is_complete t"
    and "remaining t = []" "length bs = length data" "hash bs \<noteq> hash data"
    and "\<forall>e\<in>set evs. own_event hash name data e"
  defines "r \<equiv> foldl (receiver_step hash) (file_receiver_new (Some bs) (Some (rt_file t))) evs"
  shows "fst (receiver_apply hash r XferComplete) \<noteq> Inr CompleteProgress \<and>
    fr_dst r = Some bs \<and> fr_resume r = Some (rt_file t)"
proof -
  have "wedged hash data t bs r"
    unfolding r_def using assms(8)
  proof (induction evs rule: rev_induct)
    case Nil
    then show ?case by (simp add: wedged_def file_receiver_new_def)
  next
    case (snoc e evs)
    let ?r = "foldl (receiver_step hash) (file_receiver_new (Some bs) (Some (rt_file t))) evs"
    have w: "wedged hash data t bs ?r" using snoc by simp
    show ?case
    proof (cases e)
      case (Arrive f)
      with snoc.prems wedged_apply(1) [OF w assms(1-7), of name f] show ?thesis by simp
    next
      case Restart
      with w show ?thesis by (simp add: wedged_def file_receiver_new_def)
    qed
  qed
  then show ?thesis
    using wedged_apply(2) [OF _ assms(1-7), of r name XferComplete]
    by (simp add: wedged_def own_event_def)
qed

end
