(* ===== verification/Bits.thy ===== *)
theory Bits
  imports Prelude
begin

text \<open>
  The bit-level writer and reader of \<open>core/platform/src/screen_encoder.rs\<close> (\<open>BitWriter\<close>,
  \<open>BitReader\<close>): values are packed least significant bit first. Both are shown to implement a
  plain sequence of bits, so that a stream of values is read back as it was written.
\<close>

unbundle bit_operations_syntax

section \<open>Operations\<close>

record bit_writer =
  bw_buf :: bytes
  bw_current :: u8
  bw_bits_used :: nat

definition bit_writer_new :: bit_writer where
  "bit_writer_new = \<lparr>bw_buf = [], bw_current = 0, bw_bits_used = 0\<rparr>"

definition write_bit :: "bit_writer \<Rightarrow> bool \<Rightarrow> bit_writer" where
  "write_bit w b =
     (let current = bw_current w OR push_bit (bw_bits_used w) (of_bool b);
          bits_used = bw_bits_used w + 1
      in if bits_used = 8 then \<lparr>bw_buf = bw_buf w @ [current], bw_current = 0, bw_bits_used = 0\<rparr>
         else w\<lparr>bw_current := current, bw_bits_used := bits_used\<rparr>)"

definition write_bits :: "bit_writer \<Rightarrow> u32 \<Rightarrow> nat \<Rightarrow> bit_writer" where
  "write_bits w v n_bits = foldl (\<lambda>w i. write_bit w (bit v i)) w [0..<n_bits]"

definition bit_writer_finish :: "bit_writer \<Rightarrow> bytes" where
  "bit_writer_finish w = (if bw_bits_used w > 0 then bw_buf w @ [bw_current w] else bw_buf w)"

record bit_reader =
  br_data :: bytes
  br_byte_pos :: nat
  br_bit_pos :: nat

definition bit_reader_new :: "bytes \<Rightarrow> bit_reader" where
  "bit_reader_new data = \<lparr>br_data = data, br_byte_pos = 0, br_bit_pos = 0\<rparr>"

definition read_bit :: "bit_reader \<Rightarrow> (bool \<times> bit_reader) option" where
  "read_bit r =
     (if length (br_data r) \<le> br_byte_pos r then None
      else
        (let b = bit (br_data r ! br_byte_pos r) (br_bit_pos r);
             bit_pos = br_bit_pos r + 1
         in Some (b, if bit_pos = 8 then r\<lparr>br_byte_pos := br_byte_pos r + 1, br_bit_pos := 0\<rparr>
                  else r\<lparr>br_bit_pos := bit_pos\<rparr>)))"

text \<open>The loop of \<open>read_bits\<close>: \<open>i\<close> is the loop variable, \<open>k\<close> the number of rounds left.\<close>

fun read_bits_loop :: "bit_reader \<Rightarrow> nat \<Rightarrow> nat \<Rightarrow> u32 \<Rightarrow> (u32 \<times> bit_reader) option" where
  "read_bits_loop r i 0 result = Some (result, r)"
| "read_bits_loop r i (Suc k) result =
     (case read_bit r of
        None \<Rightarrow> None
      | Some (b, r') \<Rightarrow> read_bits_loop r' (i + 1) k (result OR push_bit i (of_bool b)))"

definition read_bits :: "bit_reader \<Rightarrow> nat \<Rightarrow> (u32 \<times> bit_reader) option" where
  "read_bits r n_bits = read_bits_loop r 0 n_bits 0"

section \<open>The sequence of bits\<close>

definition byte_bits :: "u8 \<Rightarrow> bool list" where
  "byte_bits b = map (bit b) [0..<8]"

definition bytes_bits :: "bytes \<Rightarrow> bool list" where
  "bytes_bits bs = concat (map byte_bits bs)"

definition writer_bits :: "bit_writer \<Rightarrow> bool list" where
  "writer_bits w = bytes_bits (bw_buf w) @ map (bit (bw_current w)) [0..<bw_bits_used w]"

definition writer_ok :: "bit_writer \<Rightarrow> bool" where
  "writer_ok w \<longleftrightarrow> bw_bits_used w < 8 \<and> (\<forall>i\<ge>bw_bits_used w. \<not> bit (bw_current w) i)"

definition reader_bits :: "bit_reader \<Rightarrow> bool list" where
  "reader_bits r = drop (8 * br_byte_pos r + br_bit_pos r) (bytes_bits (br_data r))"

definition reader_ok :: "bit_reader \<Rightarrow> bool" where
  "reader_ok r \<longleftrightarrow> br_bit_pos r < 8"

definition value_bits :: "nat \<Rightarrow> u32 \<Rightarrow> bool list" where
  "value_bits n v = map (bit v) [0..<n]"

lemma length_byte_bits [simp]: "length (byte_bits b) = 8"
  by (simp add: byte_bits_def)

lemma bytes_bits_simps [simp]:
  "bytes_bits [] = []" "bytes_bits (b # bs) = byte_bits b @ bytes_bits bs"
  "bytes_bits (as @ bs) = bytes_bits as @ bytes_bits bs"
  by (simp_all add: bytes_bits_def)

lemma length_bytes_bits [simp]: "length (bytes_bits bs) = 8 * length bs"
  by (induction bs) simp_all

lemma length_value_bits [simp]: "length (value_bits n v) = n"
  by (simp add: value_bits_def)

lemma nth_bytes_bits:
  "i < length bs \<Longrightarrow> j < 8 \<Longrightarrow> bytes_bits bs ! (8 * i + j) = bit (bs ! i) j"
proof (induction bs arbitrary: i)
  case (Cons b bs)
  then show ?case by (cases i) (simp_all add: nth_append byte_bits_def)
qed simp

subsection \<open>Writing\<close>

lemma bit_or_bool:
  assumes "j < 8" "i < 8"
  shows "bit ((c :: u8) OR push_bit j (of_bool b)) i \<longleftrightarrow> bit c i \<or> (b \<and> i = j)"
  using assms by (auto simp: bit_simps)

lemma write_bit_step:
  assumes "writer_ok w"
  shows "writer_ok (write_bit w b)" "writer_bits (write_bit w b) = writer_bits w @ [b]"
proof -
  define k where "k = bw_bits_used w"
  define c where "c = bw_current w OR push_bit k (of_bool b)"
  have k: "k < 8" and z: "\<And>i. k \<le> i \<Longrightarrow> \<not> bit (bw_current w) i"
    using assms by (auto simp: writer_ok_def k_def)
  have high: "\<not> bit c i" if "Suc k \<le> i" for i
    using that z k by (cases "i < 8") (auto simp: c_def bit_or_bool dest: bit_imp_le_length)
  have bits: "map (bit c) [0..<Suc k] = map (bit (bw_current w)) [0..<k] @ [b]"
    using k z by (auto simp: c_def bit_or_bool)
  have eq: "write_bit w b =
      (if Suc k = 8 then \<lparr>bw_buf = bw_buf w @ [c], bw_current = 0, bw_bits_used = 0\<rparr>
       else w\<lparr>bw_current := c, bw_bits_used := Suc k\<rparr>)"
    by (simp add: write_bit_def k_def c_def Let_def)
  show "writer_ok (write_bit w b)" unfolding eq using k high by (auto simp: writer_ok_def)
  have "byte_bits c = map (bit (bw_current w)) [0..<k] @ [b]" if "Suc k = 8"
    using bits that by (simp add: byte_bits_def)
  then show "writer_bits (write_bit w b) = writer_bits w @ [b]"
    unfolding eq using bits by (simp add: writer_bits_def flip: k_def)
qed

lemma write_bits_step:
  assumes "writer_ok w"
  shows "writer_ok (write_bits w v n) \<and> writer_bits (write_bits w v n) = writer_bits w @ value_bits n v"
  using assms
  by (induction n) (auto simp: write_bits_def value_bits_def write_bit_step)

lemma bit_writer_new_ok [simp]: "writer_ok bit_writer_new" "writer_bits bit_writer_new = []"
  by (simp_all add: bit_writer_new_def writer_ok_def writer_bits_def)

lemma bit_writer_finish_bits:
  assumes "writer_ok w"
  shows "\<exists>pad. bytes_bits (bit_writer_finish w) = writer_bits w @ pad \<and> length pad < 8"
proof (cases "bw_bits_used w = 0")
  case False
  have "[0..<8] = [0..<bw_bits_used w] @ [bw_bits_used w..<8]"
    using assms upt_add_eq_append [of 0 "bw_bits_used w" "8 - bw_bits_used w"]
    by (simp add: writer_ok_def)
  then have "byte_bits (bw_current w) =
      map (bit (bw_current w)) [0..<bw_bits_used w] @ map (bit (bw_current w)) [bw_bits_used w..<8]"
    by (simp add: byte_bits_def)
  then show ?thesis
    using False
    by (intro exI [of _ "map (bit (bw_current w)) [bw_bits_used w..<8]"])
      (simp add: bit_writer_finish_def writer_bits_def)
qed (simp add: bit_writer_finish_def writer_bits_def)

subsection \<open>Reading\<close>

lemma bit_reader_new_ok [simp]:
  "reader_ok (bit_reader_new bs)" "reader_bits (bit_reader_new bs) = bytes_bits bs"
  by (simp_all add: bit_reader_new_def reader_ok_def reader_bits_def)

lemma read_bit_step:
  assumes "reader_ok r"
  shows "case reader_bits r of
      [] \<Rightarrow> read_bit r = None
    | b # rest \<Rightarrow> \<exists>r'. read_bit r = Some (b, r') \<and> reader_ok r' \<and> reader_bits r' = rest"
proof (cases "br_byte_pos r < length (br_data r)")
  case True
  let ?k = "8 * br_byte_pos r + br_bit_pos r"
  have k: "?k < length (bytes_bits (br_data r))" using True assms by (simp add: reader_ok_def)
  have "reader_bits r = bytes_bits (br_data r) ! ?k # drop (Suc ?k) (bytes_bits (br_data r))"
    unfolding reader_bits_def using k by (rule Cons_nth_drop_Suc [symmetric])
  also have "bytes_bits (br_data r) ! ?k = bit (br_data r ! br_byte_pos r) (br_bit_pos r)"
    using True assms by (simp add: nth_bytes_bits reader_ok_def)
  finally have "reader_bits r = bit (br_data r ! br_byte_pos r) (br_bit_pos r) #
      drop (Suc ?k) (bytes_bits (br_data r))" .
  moreover have "8 + 8 * br_byte_pos r = Suc ?k" if "br_bit_pos r = 7" using that by simp
  ultimately show ?thesis
    using True assms by (auto simp: read_bit_def Let_def reader_ok_def reader_bits_def)
next
  case False
  then have "reader_bits r = []" by (simp add: reader_bits_def)
  with False show ?thesis by (simp add: read_bit_def)
qed

lemma read_bits_loop_step:
  assumes "reader_ok r" "reader_bits r = map (bit v) [i..<i + k] @ rest"
    and "\<forall>j<32. bit result j \<longleftrightarrow> j < i \<and> bit v j" "\<forall>j. bit v j \<longrightarrow> j < i + k" "i + k \<le> 32"
  shows "\<exists>r'. read_bits_loop r i k result = Some (v, r') \<and> reader_ok r' \<and> reader_bits r' = rest"
  using assms
proof (induction k arbitrary: r i result)
  case 0
  then have "result = v" by (auto intro!: bit_word_eqI)
  with 0 show ?case by simp
next
  case (Suc k)
  have "map (bit v) [i..<i + Suc k] = bit v i # map (bit v) [Suc i..<Suc i + k]"
    by (simp add: upt_conv_Cons del: upt_Suc)
  with Suc.prems(2) have "reader_bits r = bit v i # map (bit v) [Suc i..<Suc i + k] @ rest" by simp
  with read_bit_step [OF Suc.prems(1)] obtain r' where
    r': "read_bit r = Some (bit v i, r')" "reader_ok r'"
      "reader_bits r' = map (bit v) [Suc i..<Suc i + k] @ rest"
    by auto
  have "\<forall>j<32. bit (result OR push_bit i (of_bool (bit v i))) j \<longleftrightarrow> j < Suc i \<and> bit v j"
    using Suc.prems(3,5) by (auto simp: bit_simps less_Suc_eq)
  from Suc.IH [OF r'(2,3) this] Suc.prems(4,5) r'(1) show ?case by simp
qed

lemma read_bits_step:
  assumes "reader_ok r" "reader_bits r = value_bits n v @ rest" "n \<le> 32" "unat v < 2 ^ n"
  shows "\<exists>r'. read_bits r n = Some (v, r') \<and> reader_ok r' \<and> reader_bits r' = rest"
proof -
  have "take_bit n v = v"
    using assms(4) by (metis take_bit_nat_eq_self unsigned_take_bit_eq unsigned_word_eqI)
  then have "\<forall>j. bit v j \<longrightarrow> j < 0 + n" by (metis add_0 bit_take_bit_iff)
  moreover have "reader_bits r = map (bit v) [0..<0 + n] @ rest"
    using assms(2) by (simp add: value_bits_def)
  ultimately show ?thesis
    unfolding read_bits_def using read_bits_loop_step [of r v 0 n rest 0] assms(1,3) by auto
qed

lemma read_bits_less:
  assumes "read_bits r n = Some (v, r')" "n \<le> 32"
  shows "unat v < 2 ^ n"
proof -
  have "\<forall>j. bit v j \<longrightarrow> j < i + k"
    if "read_bits_loop r i k result = Some (v, r')" "\<forall>j. bit result j \<longrightarrow> j < i" for i k result r
    using that
  proof (induction k arbitrary: r i result)
    case (Suc k)
    obtain b r1 where "read_bit r = Some (b, r1)" and
      step: "read_bits_loop r1 (i + 1) k (result OR push_bit i (of_bool b)) = Some (v, r')"
      using Suc.prems(1) by (auto split: option.splits)
    have "\<forall>j. bit (result OR push_bit i (of_bool b)) j \<longrightarrow> j < i + 1"
      using Suc.prems(2) by (auto simp: bit_simps less_Suc_eq)
    from Suc.IH [OF step this] show ?case by simp
  qed simp
  from this [of r 0 n 0] assms(1) have "\<forall>j. bit v j \<longrightarrow> j < n" by (simp add: read_bits_def)
  then have "take_bit n v = v" by (auto intro!: bit_word_eqI simp: bit_take_bit_iff)
  then have "unat v = take_bit n (unat v)" by (metis unsigned_take_bit_eq)
  then show ?thesis by (metis take_bit_nat_less_exp)
qed

end
