(* ===== verification/Palette.thy ===== *)
theory Palette
  imports Bits
begin

text \<open>
  The palette coders for screen tiles in \<open>core/platform/src/screen_encoder.rs\<close>: the plain coder
  (\<open>PaletteTileEncoder\<close>, \<open>PaletteTileDecoder\<close>) and the context-adaptive one
  (\<open>EntropyPaletteEncoder\<close>, \<open>EntropyPaletteDecoder\<close>). \<open>None\<close> is a panic (\<open>unwrap\<close> of a colour
  that is not in the palette). The interface \<open>tile_codec\<close> states losslessness; it is shown of
  both coders.
\<close>

section \<open>Operations\<close>

definition TILE_SIZE_PX :: nat where "TILE_SIZE_PX = 32"
definition TILE_BYTES :: nat where "TILE_BYTES = 4096"
definition PALETTE_COLOR_LIMIT :: nat where "PALETTE_COLOR_LIMIT = 16"

text \<open>A colour is the triple B, G, R.\<close>

type_synonym colour = "u8 \<times> u8 \<times> u8"

text \<open>\<open>pixels.chunks_exact(4)\<close> without the alpha byte, and \<open>chunks_exact(3)\<close>.\<close>

fun pixel_colours :: "bytes \<Rightarrow> colour list" where
  "pixel_colours (b # g # r # a # rest) = (b, g, r) # pixel_colours rest"
| "pixel_colours _ = []"

fun palette_entries :: "bytes \<Rightarrow> colour list" where
  "palette_entries (b # g # r # rest) = (b, g, r) # palette_entries rest"
| "palette_entries _ = []"

fun colour_bytes :: "colour \<Rightarrow> bytes" where
  "colour_bytes (b, g, r) = [b, g, r]"

text \<open>One decoded pixel: alpha is restored as 255.\<close>

fun opaque_pixel :: "colour \<Rightarrow> bytes" where
  "opaque_pixel (b, g, r) = [b, g, r, 0xFF]"

definition bits_per_index :: "nat \<Rightarrow> nat" where
  "bits_per_index n =
     (if n \<le> 1 then 0 else if n = 2 then 1 else if n \<le> 4 then 2 else if n \<le> 8 then 3 else 4)"

datatype palette_encode_error = TooManyColors nat | InvalidLength nat

datatype palette_decode_error =
    PaletteTruncated
  | InvalidPaletteSize u8
  | IndexOutOfRange nat nat \<comment> \<open>index, palette size\<close>

fun build_palette_loop :: "colour list \<Rightarrow> colour list \<Rightarrow> palette_encode_error + colour list" where
  "build_palette_loop palette [] = Inr palette"
| "build_palette_loop palette (bgr # cs) =
     (if bgr \<in> set palette then build_palette_loop palette cs
      else if length palette = PALETTE_COLOR_LIMIT then Inl (TooManyColors (PALETTE_COLOR_LIMIT + 1))
      else build_palette_loop (palette @ [bgr]) cs)"

definition build_palette :: "bytes \<Rightarrow> palette_encode_error + colour list" where
  "build_palette pixels = build_palette_loop [] (pixel_colours pixels)"

text \<open>\<open>iter().position(|p| p == x)\<close>.\<close>

fun position :: "'a list \<Rightarrow> 'a \<Rightarrow> nat option" where
  "position [] x = None"
| "position (y # ys) x = (if y = x then Some 0 else map_option Suc (position ys x))"

fun write_indices :: "colour list \<Rightarrow> nat \<Rightarrow> bit_writer \<Rightarrow> colour list \<Rightarrow> bit_writer option" where
  "write_indices palette bpi w [] = Some w"
| "write_indices palette bpi w (bgr # cs) =
     (case position palette bgr of
        None \<Rightarrow> None
      | Some idx \<Rightarrow> write_indices palette bpi (write_bits w (of_nat idx) bpi) cs)"

definition palette_header :: "colour list \<Rightarrow> bytes" where
  "palette_header palette = of_nat (length palette) # concat (map colour_bytes palette)"

definition palette_encode :: "bytes \<Rightarrow> (palette_encode_error + bytes) option" where
  "palette_encode pixels =
     (if length pixels \<noteq> TILE_BYTES then Some (Inl (InvalidLength (length pixels)))
      else
        (case build_palette pixels of
           Inl e \<Rightarrow> Some (Inl e)
         | Inr palette \<Rightarrow>
             (let bpi = bits_per_index (length palette) in
              if bpi > 0 then
                (case write_indices palette bpi bit_writer_new (pixel_colours pixels) of
                   None \<Rightarrow> None
                 | Some w \<Rightarrow> Some (Inr (palette_header palette @ bit_writer_finish w)))
              else Some (Inr (palette_header palette)))))"

text \<open>The decoding loop over \<open>k\<close> more pixels.\<close>

fun read_indices :: "colour list \<Rightarrow> nat \<Rightarrow> nat \<Rightarrow> bit_reader \<Rightarrow> palette_decode_error + bytes" where
  "read_indices palette bpi 0 r = Inr []"
| "read_indices palette bpi (Suc k) r =
     (case read_bits r bpi of
        None \<Rightarrow> Inl PaletteTruncated
      | Some (v, r') \<Rightarrow>
          (let idx = unat v in
           if length palette \<le> idx then Inl (IndexOutOfRange idx (length palette))
           else
             (case read_indices palette bpi k r' of
                Inl e \<Rightarrow> Inl e
              | Inr out \<Rightarrow> Inr (opaque_pixel (palette ! idx) @ out))))"

text \<open>The common start of both decoders: the palette and the index stream behind it.\<close>

definition decode_header :: "bytes \<Rightarrow> palette_decode_error + colour list \<times> bytes" where
  "decode_header data =
     (case data of
        [] \<Rightarrow> Inl PaletteTruncated
      | h # rest \<Rightarrow>
          (let n = unat h in
           if n = 0 \<or> n > PALETTE_COLOR_LIMIT then Inl (InvalidPaletteSize h)
           else if length data < 1 + n * 3 then Inl PaletteTruncated
           else Inr (palette_entries (take (n * 3) rest), drop (n * 3) rest)))"

definition TILE_PIXELS :: nat where "TILE_PIXELS = 1024"

definition palette_decode :: "bytes \<Rightarrow> palette_decode_error + bytes" where
  "palette_decode data =
     (case decode_header data of
        Inl e \<Rightarrow> Inl e
      | Inr (palette, stream) \<Rightarrow>
          (let bpi = bits_per_index (length palette) in
           if bpi = 0 then Inr (concat (replicate TILE_PIXELS (opaque_pixel (palette ! 0))))
           else read_indices palette bpi TILE_PIXELS (bit_reader_new stream)))"

subsection \<open>Context-adaptive coding\<close>

definition cco_for_context :: "nat \<Rightarrow> nat \<Rightarrow> nat \<Rightarrow> nat list" where
  "cco_for_context left upper n =
     left # (if upper \<noteq> left then [upper] else []) @ filter (\<lambda>i. i \<noteq> left \<and> i \<noteq> upper) [0..<n]"

definition write_entropy_pos :: "bit_writer \<Rightarrow> nat \<Rightarrow> nat \<Rightarrow> bit_writer" where
  "write_entropy_pos w rank n =
     (if n \<le> 1 then w
      else if rank = 0 then write_bits w 0 1
      else
        (let w1 = write_bits w 1 1; bpi = bits_per_index (n - 1)
         in if bpi > 0 then write_bits w1 (of_nat (rank - 1)) bpi else w1))"

definition read_entropy_pos :: "bit_reader \<Rightarrow> nat \<Rightarrow> (nat \<times> bit_reader) option" where
  "read_entropy_pos r n =
     (if n \<le> 1 then Some (0, r)
      else
        (case read_bits r 1 of
           None \<Rightarrow> None
         | Some (hit, r1) \<Rightarrow>
             if hit = 0 then Some (0, r1)
             else
               (let bpi = bits_per_index (n - 1) in
                if bpi > 0 then
                  (case read_bits r1 bpi of
                     None \<Rightarrow> None
                   | Some (v, r2) \<Rightarrow> Some (unat v + 1, r2))
                else Some (1, r1))))"

text \<open>
  The left and upper neighbours of the next pixel; \<open>stored\<close> holds the indices of the pixels
  before it, so its length is the position of the pixel.
\<close>

definition context_of :: "nat list \<Rightarrow> nat \<times> nat" where
  "context_of stored =
     (let px = length stored in
      (if px mod TILE_SIZE_PX > 0 then stored ! (px - 1) else 0,
       if px div TILE_SIZE_PX > 0 then stored ! (px - TILE_SIZE_PX) else 0))"

fun entropy_write :: "colour list \<Rightarrow> nat list \<Rightarrow> bit_writer \<Rightarrow> colour list \<Rightarrow> bit_writer option" where
  "entropy_write palette stored w [] = Some w"
| "entropy_write palette stored w (bgr # cs) =
     (let n = length palette; (left, upper) = context_of stored in
      case position palette bgr of
        None \<Rightarrow> None
      | Some raw_idx \<Rightarrow>
          (case position (cco_for_context left upper n) raw_idx of
             None \<Rightarrow> None
           | Some rank \<Rightarrow>
               entropy_write palette (stored @ [raw_idx]) (write_entropy_pos w rank n) cs))"

definition entropy_encode :: "bytes \<Rightarrow> (palette_encode_error + bytes) option" where
  "entropy_encode pixels =
     (if length pixels \<noteq> TILE_BYTES then Some (Inl (InvalidLength (length pixels)))
      else
        (case build_palette pixels of
           Inl e \<Rightarrow> Some (Inl e)
         | Inr palette \<Rightarrow>
             if length palette = 1 then Some (Inr (palette_header palette))
             else
               (case entropy_write palette [] bit_writer_new (pixel_colours pixels) of
                  None \<Rightarrow> None
                | Some w \<Rightarrow> Some (Inr (palette_header palette @ bit_writer_finish w)))))"

fun entropy_read ::
  "colour list \<Rightarrow> nat list \<Rightarrow> nat \<Rightarrow> bit_reader \<Rightarrow> palette_decode_error + bytes" where
  "entropy_read palette stored 0 r = Inr []"
| "entropy_read palette stored (Suc k) r =
     (let n = length palette; (left, upper) = context_of stored in
      case read_entropy_pos r n of
        None \<Rightarrow> Inl PaletteTruncated
      | Some (rank, r') \<Rightarrow>
          if n \<le> rank then Inl (IndexOutOfRange rank n)
          else
            (let raw_idx = cco_for_context left upper n ! rank in
             case entropy_read palette (stored @ [raw_idx]) k r' of
               Inl e \<Rightarrow> Inl e
             | Inr out \<Rightarrow> Inr (opaque_pixel (palette ! raw_idx) @ out)))"

definition entropy_decode :: "bytes \<Rightarrow> palette_decode_error + bytes" where
  "entropy_decode data =
     (case decode_header data of
        Inl e \<Rightarrow> Inl e
      | Inr (palette, stream) \<Rightarrow>
          if length palette = 1 then Inr (concat (replicate TILE_PIXELS (opaque_pixel (palette ! 0))))
          else entropy_read palette [] TILE_PIXELS (bit_reader_new stream))"

lemmas palette_consts = TILE_SIZE_PX_def TILE_BYTES_def PALETTE_COLOR_LIMIT_def TILE_PIXELS_def

section \<open>The palette\<close>

lemma length_pixel_colours [simp]: "length (pixel_colours bs) = length bs div 4"
  by (induction bs rule: pixel_colours.induct) simp_all

lemma position_Some: "position xs x = Some i \<Longrightarrow> i < length xs \<and> xs ! i = x"
  by (induction xs arbitrary: i) (auto split: if_splits)

lemma position_None: "position xs x = None \<longleftrightarrow> x \<notin> set xs"
  by (induction xs) auto

lemma position_ex: "x \<in> set xs \<Longrightarrow> \<exists>i. position xs x = Some i \<and> i < length xs \<and> xs ! i = x"
  using position_Some position_None by (metis option.exhaust)

lemma build_palette_loop_sound:
  assumes "build_palette_loop palette cs = Inr p" "distinct palette"
    "length palette \<le> PALETTE_COLOR_LIMIT"
  shows "distinct p \<and> length p \<le> PALETTE_COLOR_LIMIT \<and> set p = set palette \<union> set cs"
  using assms by (induction palette cs rule: build_palette_loop.induct) (auto split: if_splits)

lemma build_palette_loop_iff:
  assumes "distinct palette" "length palette \<le> PALETTE_COLOR_LIMIT"
  shows "(\<exists>p. build_palette_loop palette cs = Inr p) \<longleftrightarrow>
    card (set palette \<union> set cs) \<le> PALETTE_COLOR_LIMIT"
  using assms
proof (induction palette cs rule: build_palette_loop.induct)
  case (1 palette)
  then show ?case by (simp add: distinct_card)
next
  case (2 palette bgr cs)
  consider (old) "bgr \<in> set palette"
    | (full) "bgr \<notin> set palette" "length palette = PALETTE_COLOR_LIMIT"
    | (new) "bgr \<notin> set palette" "length palette \<noteq> PALETTE_COLOR_LIMIT"
    by blast
  then show ?case
  proof cases
    case old
    then show ?thesis using 2 by (simp add: insert_absorb)
  next
    case full
    have "Suc (length palette) = card (insert bgr (set palette))"
      using full 2 by (simp add: distinct_card)
    also have "\<dots> \<le> card (set palette \<union> set (bgr # cs))" by (rule card_mono) auto
    finally show ?thesis using full by simp
  next
    case new
    then show ?thesis using 2 by simp
  qed
qed

lemma build_palette_iff:
  "(\<exists>p. build_palette pixels = Inr p) \<longleftrightarrow> card (set (pixel_colours pixels)) \<le> PALETTE_COLOR_LIMIT"
  unfolding build_palette_def using build_palette_loop_iff [of "[]"] by simp

lemma build_palette_sound:
  assumes "build_palette pixels = Inr p"
  shows "length p \<le> PALETTE_COLOR_LIMIT" "set p = set (pixel_colours pixels)"
  using build_palette_loop_sound [of "[]"] assms by (auto simp: build_palette_def)

lemma palette_entries_concat: "palette_entries (concat (map colour_bytes p)) = p"
  by (induction p) auto

lemma length_palette_bytes [simp]: "length (concat (map colour_bytes p)) = 3 * length p"
  by (induction p) auto

lemma length_palette_header [simp]: "length (palette_header p) = 1 + 3 * length p"
  by (simp add: palette_header_def)

lemma decode_header_of:
  assumes "p \<noteq> []" "length p \<le> PALETTE_COLOR_LIMIT"
  shows "decode_header (palette_header p @ stream) = Inr (p, stream)"
proof -
  have "unat (of_nat (length p) :: u8) = length p"
    using assms by (simp add: palette_consts unsigned_of_nat take_bit_nat_eq_self)
  then show ?thesis
    using assms
    by (simp add: decode_header_def palette_header_def palette_entries_concat mult.commute)
qed

lemma bits_per_index_bound: "n \<le> PALETTE_COLOR_LIMIT \<Longrightarrow> n \<le> 2 ^ bits_per_index n"
  by (auto simp: bits_per_index_def palette_consts)

lemma bits_per_index_le: "bits_per_index n \<le> 4"
  by (simp add: bits_per_index_def)

lemma bits_per_index_0: "bits_per_index n = 0 \<longleftrightarrow> n \<le> 1"
  by (simp add: bits_per_index_def)

lemma unat_index:
  assumes "i < n" "n \<le> PALETTE_COLOR_LIMIT"
  shows "unat (of_nat i :: u32) = i"
  using assms by (simp add: palette_consts unsigned_of_nat take_bit_nat_eq_self)

section \<open>The plain coder\<close>

lemma write_indices_bits:
  assumes "set cs \<subseteq> set p" "length p \<le> PALETTE_COLOR_LIMIT" "writer_ok w"
  shows "\<exists>w' is. write_indices p bpi w cs = Some w' \<and> writer_ok w' \<and>
    writer_bits w' = writer_bits w @ concat (map (\<lambda>i. value_bits bpi (of_nat i)) is) \<and>
    length is = length cs \<and> (\<forall>i\<in>set is. i < length p) \<and> map (\<lambda>i. p ! i) is = cs"
  using assms
proof (induction cs arbitrary: w)
  case (Cons c cs)
  obtain i where i: "position p c = Some i" "i < length p" "p ! i = c"
    using position_ex [of c p] Cons.prems(1) by auto
  let ?w = "write_bits w (of_nat i) bpi"
  have w: "writer_ok ?w" "writer_bits ?w = writer_bits w @ value_bits bpi (of_nat i)"
    using write_bits_step [OF Cons.prems(3)] by auto
  from Cons.IH [OF _ Cons.prems(2) w(1)] Cons.prems(1) obtain w' "is" where
    "write_indices p bpi ?w cs = Some w' \<and> writer_ok w' \<and>
     writer_bits w' = writer_bits ?w @ concat (map (\<lambda>i. value_bits bpi (of_nat i)) is) \<and>
     length is = length cs \<and> (\<forall>i\<in>set is. i < length p) \<and> map (\<lambda>i. p ! i) is = cs" by auto
  with i w show ?case by (intro exI [of _ w'] exI [of _ "i # is"]) simp
qed simp

lemma read_indices_bits:
  assumes "reader_ok r" "reader_bits r = concat (map (\<lambda>i. value_bits bpi (of_nat i)) is) @ rest"
    and "\<forall>i\<in>set is. i < length p" "length p \<le> PALETTE_COLOR_LIMIT" "bpi = bits_per_index (length p)"
  shows "read_indices p bpi (length is) r = Inr (concat (map (\<lambda>i. opaque_pixel (p ! i)) is))"
  using assms(1-3)
proof (induction "is" arbitrary: r)
  case (Cons i "is")
  have i: "unat (of_nat i :: u32) = i" using Cons.prems(3) assms(4) by (intro unat_index) auto
  have "i < 2 ^ bpi"
    using Cons.prems(3) bits_per_index_bound [OF assms(4)] assms(5) by simp
  then obtain r' where
    "read_bits r bpi = Some (of_nat i, r')" "reader_ok r'"
    "reader_bits r' = concat (map (\<lambda>i. value_bits bpi (of_nat i)) is) @ rest"
    using read_bits_step [of r bpi "of_nat i" _] Cons.prems(1,2) i bits_per_index_le [of "length p"]
    by (auto simp: assms(5))
  with Cons i show ?case by simp
qed simp

text \<open>What a coder must reproduce: the same colours with full alpha.\<close>

definition opaque :: "bytes \<Rightarrow> bytes" where
  "opaque pixels = concat (map opaque_pixel (pixel_colours pixels))"

lemma opaque_single:
  assumes "length p = 1" "set p = set (pixel_colours pixels)" "length pixels = TILE_BYTES"
  shows "concat (replicate TILE_PIXELS (opaque_pixel (p ! 0))) = opaque pixels"
proof -
  obtain c where p: "p = [c]" using assms(1) by (auto simp: length_Suc_conv)
  have "length (pixel_colours pixels) = TILE_PIXELS" using assms(3) by (simp add: palette_consts)
  moreover have "\<forall>x\<in>set (pixel_colours pixels). x = c" using assms(2) p by auto
  ultimately have "pixel_colours pixels = replicate TILE_PIXELS c" by (metis replicate_eqI)
  then show ?thesis by (simp add: opaque_def p)
qed

lemma palette_nonempty:
  assumes "set p = set (pixel_colours pixels)" "length pixels = TILE_BYTES"
  shows "p \<noteq> []"
proof -
  have "length (pixel_colours pixels) \<noteq> 0" using assms(2) by (simp add: palette_consts)
  then show ?thesis using assms(1) by (metis length_0_conv set_empty)
qed

text \<open>The finished stream carries the bits written, and its length is their number in bytes.\<close>

lemma finish_stream:
  assumes "writer_ok w"
  obtains pad where "bytes_bits (bit_writer_finish w) = writer_bits w @ pad"
    "length (bit_writer_finish w) \<le> length (writer_bits w) div 8 + 1"
proof -
  obtain pad where pad: "bytes_bits (bit_writer_finish w) = writer_bits w @ pad" "length pad < 8"
    using bit_writer_finish_bits [OF assms] by blast
  from arg_cong [OF pad(1), of length] pad(2)
  have "8 * length (bit_writer_finish w) < length (writer_bits w) + 8" by simp
  then have "length (bit_writer_finish w) \<le> length (writer_bits w) div 8 + 1" by linarith
  with pad(1) that show ?thesis by blast
qed

lemma length_concat_value_bits:
  "length (concat (map (\<lambda>i. value_bits b (f i)) xs)) = b * length xs"
  by (induction xs) simp_all

lemma palette_roundtrip:
  assumes "length pixels = TILE_BYTES" "card (set (pixel_colours pixels)) \<le> PALETTE_COLOR_LIMIT"
  shows "\<exists>bs. palette_encode pixels = Some (Inr bs) \<and> palette_decode bs = Inr (opaque pixels) \<and>
    length bs \<le> 562"
proof -
  obtain p where p: "build_palette pixels = Inr p" using build_palette_iff assms(2) by blast
  note s = build_palette_sound [OF p]
  have ne: "p \<noteq> []" using palette_nonempty [OF s(2) assms(1)] .
  let ?cs = "pixel_colours pixels" and ?b = "bits_per_index (length p)"
  have n: "length ?cs = TILE_PIXELS" using assms(1) by (simp add: palette_consts)
  show ?thesis
  proof (cases "?b = 0")
    case True
    then have "length p = 1" using ne by (cases p) (auto simp: bits_per_index_0)
    then show ?thesis
      using assms(1) p s True opaque_single [of p pixels] decode_header_of [OF ne s(1), of "[]"]
      by (simp add: palette_encode_def palette_decode_def Let_def)
  next
    case False
    obtain w "is" where w: "write_indices p ?b bit_writer_new ?cs = Some w" "writer_ok w"
      "writer_bits w = concat (map (\<lambda>i. value_bits ?b (of_nat i)) is)"
      "length is = length ?cs" "\<forall>i\<in>set is. i < length p" "map (\<lambda>i. p ! i) is = ?cs"
      using write_indices_bits [of ?cs p bit_writer_new ?b] s by auto
    obtain pad where pad: "bytes_bits (bit_writer_finish w) = writer_bits w @ pad"
      "length (bit_writer_finish w) \<le> length (writer_bits w) div 8 + 1"
      using finish_stream [OF w(2)] by blast
    have "length (writer_bits w) \<le> 4 * 1024"
      using w(3,4) n bits_per_index_le [of "length p"]
      by (simp add: length_concat_value_bits palette_consts)
    then have len: "length (palette_header p @ bit_writer_finish w) \<le> 562"
      using pad(2) s(1) by (simp add: palette_consts)
    have "read_indices p ?b (length is) (bit_reader_new (bit_writer_finish w)) =
        Inr (concat (map (\<lambda>i. opaque_pixel (p ! i)) is))"
      by (rule read_indices_bits [where rest = pad]) (use pad w s in simp_all)
    moreover have "concat (map (\<lambda>i. opaque_pixel (p ! i)) is) = opaque pixels"
      unfolding opaque_def w(6) [symmetric] by (simp add: comp_def)
    ultimately have "palette_decode (palette_header p @ bit_writer_finish w) = Inr (opaque pixels)"
      using False w(4) n decode_header_of [OF ne s(1)] by (simp add: palette_decode_def Let_def)
    with len show ?thesis using assms(1) p False w(1) by (simp add: palette_encode_def Let_def)
  qed
qed

section \<open>The context-adaptive coder\<close>

text \<open>The context order is a permutation of the palette indices.\<close>

lemma cco_perm:
  assumes "left < n" "upper < n"
  shows "set (cco_for_context left upper n) = {..<n}" "distinct (cco_for_context left upper n)"
    "length (cco_for_context left upper n) = n"
proof -
  show 1: "set (cco_for_context left upper n) = {..<n}" "distinct (cco_for_context left upper n)"
    using assms by (auto simp: cco_for_context_def)
  from distinct_card [OF 1(2)] 1(1) show "length (cco_for_context left upper n) = n" by simp
qed

lemma context_less:
  assumes "\<forall>i\<in>set stored. i < n" "0 < n"
  shows "fst (context_of stored) < n" "snd (context_of stored) < n"
proof -
  have "length stored \<noteq> 0" if "0 < length stored mod TILE_SIZE_PX \<or> 0 < length stored div TILE_SIZE_PX"
    using that by auto
  then show "fst (context_of stored) < n" "snd (context_of stored) < n"
    using assms by (auto simp: context_of_def Let_def palette_consts)
qed

definition rank_bits :: "nat \<Rightarrow> nat \<Rightarrow> bool list" where
  "rank_bits n rank =
     (if n \<le> 1 then []
      else if rank = 0 then [False]
      else True # value_bits (bits_per_index (n - 1)) (of_nat (rank - 1)))"

lemma length_rank_bits: "length (rank_bits n rank) \<le> 5"
  using bits_per_index_le [of "n - 1"] by (simp add: rank_bits_def)

lemma value_bits_0 [simp]: "value_bits 0 v = []"
  by (simp add: value_bits_def)

lemma value_bits_1: "value_bits (Suc 0) v = [bit v 0]"
  by (simp add: value_bits_def)

lemma write_entropy_pos_bits:
  assumes "writer_ok w"
  shows "writer_ok (write_entropy_pos w rank n)"
    "writer_bits (write_entropy_pos w rank n) = writer_bits w @ rank_bits n rank"
  using assms write_bits_step
  by (auto simp: write_entropy_pos_def rank_bits_def Let_def value_bits_1)

lemma read_entropy_pos_bits:
  assumes "reader_ok r" "reader_bits r = rank_bits n rank @ rest" "rank < n"
    "n \<le> PALETTE_COLOR_LIMIT"
  shows "\<exists>r'. read_entropy_pos r n = Some (rank, r') \<and> reader_ok r' \<and> reader_bits r' = rest"
proof -
  consider (one) "n \<le> 1" | (hit) "1 < n" "rank = 0" | (miss) "1 < n" "0 < rank" by linarith
  then show ?thesis
  proof cases
    case one
    then show ?thesis using assms by (simp add: read_entropy_pos_def rank_bits_def)
  next
    case hit
    then have "reader_bits r = value_bits 1 0 @ rest"
      using assms(2) by (simp add: rank_bits_def value_bits_1)
    with read_bits_step [OF assms(1) this] hit show ?thesis by (auto simp: read_entropy_pos_def)
  next
    case miss
    let ?b = "bits_per_index (n - 1)" and ?v = "of_nat (rank - 1) :: u32"
    have "reader_bits r = value_bits 1 1 @ value_bits ?b ?v @ rest"
      using assms(2) miss by (simp add: rank_bits_def value_bits_1)
    from read_bits_step [OF assms(1) this] obtain r1 where
      r1: "read_bits r 1 = Some (1, r1)" "reader_ok r1" "reader_bits r1 = value_bits ?b ?v @ rest"
      by auto
    have v: "unat ?v = rank - 1" using assms(3,4) by (intro unat_index [of _ n]) simp_all
    show ?thesis
    proof (cases "?b = 0")
      case True
      then have "rank = 1" using miss assms(3) by (simp add: bits_per_index_0)
      with True miss r1 show ?thesis by (simp add: read_entropy_pos_def Let_def)
    next
      case False
      have "n - 1 \<le> 2 ^ ?b" using assms(4) by (intro bits_per_index_bound) simp
      then have "unat ?v < 2 ^ ?b" using v assms(3) miss by linarith
      with read_bits_step [OF r1(2,3)] bits_per_index_le [of "n - 1"] obtain r2 where
        "read_bits r1 ?b = Some (?v, r2)" "reader_ok r2" "reader_bits r2 = rest" by auto
      with False miss r1 v show ?thesis by (simp add: read_entropy_pos_def Let_def)
    qed
  qed
qed

text \<open>
  Writer and reader in step: both derive the same context from the pixels already coded, so
  the reader recovers each colour from its rank.
\<close>

lemma entropy_in_step:
  assumes "set cs \<subseteq> set p" "length p \<le> PALETTE_COLOR_LIMIT" "p \<noteq> []" "writer_ok w"
    and "\<forall>i\<in>set stored. i < length p"
  shows "\<exists>w' bits. entropy_write p stored w cs = Some w' \<and> writer_ok w' \<and>
    writer_bits w' = writer_bits w @ bits \<and> length bits \<le> 5 * length cs \<and>
    (\<forall>r rest. reader_ok r \<longrightarrow> reader_bits r = bits @ rest \<longrightarrow>
       entropy_read p stored (length cs) r = Inr (concat (map opaque_pixel cs)))"
  using assms(1,4,5)
proof (induction cs arbitrary: w stored)
  case (Cons c cs)
  let ?n = "length p"
  obtain left upper where ctx: "context_of stored = (left, upper)" by (metis prod.exhaust)
  then have lu: "left < ?n" "upper < ?n" using context_less [OF Cons.prems(3)] assms(3) by auto
  let ?cco = "cco_for_context left upper ?n"
  obtain i where i: "position p c = Some i" "i < ?n" "p ! i = c"
    using position_ex [of c p] Cons.prems(1) by auto
  obtain k where k: "position ?cco i = Some k" "k < ?n" "?cco ! k = i"
    using position_ex [of i ?cco] cco_perm [OF lu] i(2) by auto
  let ?w = "write_entropy_pos w k ?n"
  note w = write_entropy_pos_bits [OF Cons.prems(2), of k ?n]
  have st: "\<forall>j\<in>set (stored @ [i]). j < ?n" using Cons.prems(3) i(2) by simp
  from Cons.IH [OF _ w(1) st] Cons.prems(1) obtain w' bits where
    IH: "entropy_write p (stored @ [i]) ?w cs = Some w'" "writer_ok w'"
      "writer_bits w' = writer_bits ?w @ bits" "length bits \<le> 5 * length cs"
      "\<forall>r rest. reader_ok r \<longrightarrow> reader_bits r = bits @ rest \<longrightarrow>
         entropy_read p (stored @ [i]) (length cs) r = Inr (concat (map opaque_pixel cs))"
    by auto
  have "entropy_read p stored (length (c # cs)) r = Inr (concat (map opaque_pixel (c # cs)))"
    if r: "reader_ok r" "reader_bits r = (rank_bits ?n k @ bits) @ rest" for r rest
  proof -
    obtain r' where "read_entropy_pos r ?n = Some (k, r')" "reader_ok r'" "reader_bits r' = bits @ rest"
      using read_entropy_pos_bits [OF r(1) _ k(2) assms(2), of "bits @ rest"] r(2) by auto
    with IH(5) ctx k i show ?thesis by (simp add: Let_def)
  qed
  moreover have "entropy_write p stored w (c # cs) = Some w'" using IH(1) ctx i k by simp
  moreover have "length (rank_bits ?n k @ bits) \<le> 5 * length (c # cs)"
    using IH(4) length_rank_bits [of ?n k] by simp
  ultimately show ?case
    using IH(2,3) w(2) by (intro exI [of _ w'] exI [of _ "rank_bits ?n k @ bits"]) simp
qed simp

lemma entropy_roundtrip:
  assumes "length pixels = TILE_BYTES" "card (set (pixel_colours pixels)) \<le> PALETTE_COLOR_LIMIT"
  shows "\<exists>bs. entropy_encode pixels = Some (Inr bs) \<and> entropy_decode bs = Inr (opaque pixels) \<and>
    length bs \<le> 690"
proof -
  obtain p where p: "build_palette pixels = Inr p" using build_palette_iff assms(2) by blast
  note s = build_palette_sound [OF p]
  have ne: "p \<noteq> []" using palette_nonempty [OF s(2) assms(1)] .
  let ?cs = "pixel_colours pixels"
  have n: "length ?cs = TILE_PIXELS" using assms(1) by (simp add: palette_consts)
  show ?thesis
  proof (cases "length p = 1")
    case True
    then show ?thesis
      using assms(1) p s opaque_single [of p pixels] decode_header_of [OF ne s(1), of "[]"]
      by (simp add: entropy_encode_def entropy_decode_def)
  next
    case False
    obtain w bits where w: "entropy_write p [] bit_writer_new ?cs = Some w" "writer_ok w"
      "writer_bits w = bits" "length bits \<le> 5 * length ?cs"
      "\<forall>r rest. reader_ok r \<longrightarrow> reader_bits r = bits @ rest \<longrightarrow>
         entropy_read p [] (length ?cs) r = Inr (concat (map opaque_pixel ?cs))"
      using entropy_in_step [of ?cs p bit_writer_new "[]"] s ne by auto
    obtain pad where pad: "bytes_bits (bit_writer_finish w) = writer_bits w @ pad"
      "length (bit_writer_finish w) \<le> length (writer_bits w) div 8 + 1"
      using finish_stream [OF w(2)] by blast
    have "length (palette_header p @ bit_writer_finish w) \<le> 690"
      using pad(2) w(3,4) n s(1) by (simp add: palette_consts)
    moreover have "entropy_decode (palette_header p @ bit_writer_finish w) = Inr (opaque pixels)"
      using False w(3,5) pad(1) n decode_header_of [OF ne s(1)]
      by (simp add: entropy_decode_def opaque_def)
    ultimately show ?thesis using assms(1) p False w(1) by (simp add: entropy_encode_def)
  qed
qed

section \<open>Losslessness as an interface\<close>

text \<open>
  The outcome of encoding \<open>pixels\<close>: a panic never happens, a result decodes to the same colours,
  and a refusal has its reason in the input.
\<close>

definition tile_outcome ::
  "(bytes \<Rightarrow> (palette_encode_error + bytes) option) \<Rightarrow> (bytes \<Rightarrow> palette_decode_error + bytes) \<Rightarrow>
     bytes \<Rightarrow> bool" where
  "tile_outcome encode decode pixels \<longleftrightarrow>
     (case encode pixels of
        None \<Rightarrow> False
      | Some (Inr bs) \<Rightarrow>
          length pixels = TILE_BYTES \<and> card (set (pixel_colours pixels)) \<le> PALETTE_COLOR_LIMIT \<and>
          decode bs = Inr (opaque pixels) \<and> length bs \<le> 690
      | Some (Inl (TooManyColors _)) \<Rightarrow>
          length pixels = TILE_BYTES \<and> PALETTE_COLOR_LIMIT < card (set (pixel_colours pixels))
      | Some (Inl (InvalidLength n)) \<Rightarrow> n = length pixels \<and> n \<noteq> TILE_BYTES)"

locale tile_codec =
  fixes encode :: "bytes \<Rightarrow> (palette_encode_error + bytes) option"
    and decode :: "bytes \<Rightarrow> palette_decode_error + bytes"
  assumes lossless: "length pixels = TILE_BYTES \<Longrightarrow>
      card (set (pixel_colours pixels)) \<le> PALETTE_COLOR_LIMIT \<Longrightarrow>
      \<exists>bs. encode pixels = Some (Inr bs) \<and> decode bs = Inr (opaque pixels) \<and> length bs \<le> 690"
    and refuses: "length pixels = TILE_BYTES \<Longrightarrow>
      PALETTE_COLOR_LIMIT < card (set (pixel_colours pixels)) \<Longrightarrow>
      encode pixels = Some (Inl (TooManyColors (PALETTE_COLOR_LIMIT + 1)))"
    and wrong_length: "length pixels \<noteq> TILE_BYTES \<Longrightarrow>
      encode pixels = Some (Inl (InvalidLength (length pixels)))"
begin

lemma outcome: "tile_outcome encode decode pixels"
proof -
  consider "length pixels \<noteq> TILE_BYTES"
    | "length pixels = TILE_BYTES" "card (set (pixel_colours pixels)) \<le> PALETTE_COLOR_LIMIT"
    | "length pixels = TILE_BYTES" "PALETTE_COLOR_LIMIT < card (set (pixel_colours pixels))"
    by linarith
  then show ?thesis
  proof cases
    case 2
    from lossless [OF this] 2 show ?thesis by (auto simp: tile_outcome_def)
  qed (auto simp: tile_outcome_def refuses wrong_length)
qed

lemma encoded_decodes:
  assumes "encode pixels = Some (Inr bs)"
  shows "decode bs = Inr (opaque pixels) \<and> length bs \<le> 690"
  using outcome [of pixels] assms by (simp add: tile_outcome_def)

end

lemma build_palette_loop_error:
  "build_palette_loop palette cs = Inl e \<Longrightarrow> e = TooManyColors (PALETTE_COLOR_LIMIT + 1)"
  by (induction palette cs rule: build_palette_loop.induct) (auto split: if_splits)

lemma build_palette_refuses:
  assumes "PALETTE_COLOR_LIMIT < card (set (pixel_colours pixels))"
  shows "build_palette pixels = Inl (TooManyColors (PALETTE_COLOR_LIMIT + 1))"
proof (cases "build_palette pixels")
  case (Inl e)
  then show ?thesis using build_palette_loop_error by (simp add: build_palette_def)
next
  case (Inr p)
  then show ?thesis using build_palette_iff [of pixels] assms by auto
qed

interpretation plain: tile_codec palette_encode palette_decode
proof
  fix pixels
  assume "length pixels = TILE_BYTES" "card (set (pixel_colours pixels)) \<le> PALETTE_COLOR_LIMIT"
  then show "\<exists>bs. palette_encode pixels = Some (Inr bs) \<and> palette_decode bs = Inr (opaque pixels) \<and>
      length bs \<le> 690"
    using palette_roundtrip by fastforce
qed (simp_all add: palette_encode_def build_palette_refuses)

interpretation adaptive: tile_codec entropy_encode entropy_decode
  using entropy_roundtrip by unfold_locales (simp_all add: entropy_encode_def build_palette_refuses)

text \<open>
  Text tiles are transmitted without loss by both palette coders. Neither encoder ever
  panics. A tile of 4096 bytes with at most 16 colours is encoded in at most 690 bytes that
  decode to the same colours in every pixel with full alpha; a tile with more colours and an
  input of another length are refused; and whatever an encoder returns is decoded to exactly
  the colours of its input.
\<close>

lemma palette_coders_lossless:
  "tile_outcome palette_encode palette_decode pixels \<and>
   tile_outcome entropy_encode entropy_decode pixels"
  using plain.outcome adaptive.outcome by simp

end
