(* ===== verification/Screen.thy ===== *)
theory Screen
  imports Palette Codec "HOL-Library.Monad_Syntax"
begin

text \<open>
  Screen transfer: \<open>core/lowbandd/src/screen_transfer.rs\<close> with the tile grid of
  \<open>core/platform/src/screen_encoder.rs\<close>, in the build without the AV1 feature. A frame is cut
  into tiles, each tile is encoded and sent, and the receiver places the decoded tiles into its
  framebuffer. The lossy coder for photographic tiles (\<open>picture.rs\<close>) is the pair of parameters
  \<open>dct_encode\<close>, \<open>dct_decode\<close>.

  The \<open>u32\<close> values are natural numbers with the overflow written out: \<open>u32_mul\<close> and \<open>u32_add\<close>
  panic (\<open>None\<close>) in a build with overflow checks and wrap without. \<open>None\<close> is also an index out of
  range.
\<close>

section \<open>Checked arithmetic and copies\<close>

definition u32_mul :: "bool \<Rightarrow> nat \<Rightarrow> nat \<Rightarrow> nat option" where
  "u32_mul overflow_checks a b =
     (if a * b < 2 ^ 32 then Some (a * b)
      else if overflow_checks then None else Some (a * b mod 2 ^ 32))"

definition u32_add :: "bool \<Rightarrow> nat \<Rightarrow> nat \<Rightarrow> nat option" where
  "u32_add overflow_checks a b =
     (if a + b < 2 ^ 32 then Some (a + b)
      else if overflow_checks then None else Some ((a + b) mod 2 ^ 32))"

text \<open>\<open>dst[d..d + 4].copy_from_slice(&src[s..s + 4])\<close>.\<close>

definition copy4 :: "bytes \<Rightarrow> nat \<Rightarrow> bytes \<Rightarrow> nat \<Rightarrow> bytes option" where
  "copy4 dst d src s =
     (if d + 4 \<le> length dst \<and> s + 4 \<le> length src
      then Some (take d dst @ take 4 (drop s src) @ drop (d + 4) dst) else None)"

section \<open>The tile grid\<close>

record tile_grid =
  tg_cols :: nat
  tg_rows :: nat
  tg_frame_width :: nat
  tg_frame_height :: nat

definition div_ceil :: "nat \<Rightarrow> nat \<Rightarrow> nat" where
  "div_ceil a b = (if a mod b = 0 then a div b else a div b + 1)"

definition tile_grid_new :: "nat \<Rightarrow> nat \<Rightarrow> tile_grid" where
  "tile_grid_new frame_width frame_height =
     \<lparr>tg_cols = div_ceil frame_width TILE_SIZE_PX, tg_rows = div_ceil frame_height TILE_SIZE_PX,
      tg_frame_width = frame_width, tg_frame_height = frame_height\<rparr>"

text \<open>The two loops of \<open>extract_tile\<close>; leaving a loop early is its \<open>break\<close>.\<close>

fun extract_cols ::
  "bool \<Rightarrow> nat \<Rightarrow> bytes \<Rightarrow> nat \<Rightarrow> nat \<Rightarrow> nat \<Rightarrow> nat list \<Rightarrow> bytes \<Rightarrow> bytes option" where
  "extract_cols oc frame_width pixels tile_x src_row dst_row [] tile = Some tile"
| "extract_cols oc frame_width pixels tile_x src_row dst_row (col # cols) tile =
     do {
       src_x \<leftarrow> u32_add oc tile_x col;
       if frame_width \<le> src_x then Some tile
       else do {
         x4 \<leftarrow> u32_mul oc src_x 4;
         c4 \<leftarrow> u32_mul oc col 4;
         tile' \<leftarrow> copy4 tile (dst_row + c4) pixels (src_row + x4);
         extract_cols oc frame_width pixels tile_x src_row dst_row cols tile'
       }
     }"

fun extract_rows ::
  "bool \<Rightarrow> tile_grid \<Rightarrow> bytes \<Rightarrow> nat \<Rightarrow> nat \<Rightarrow> nat \<Rightarrow> nat list \<Rightarrow> bytes \<Rightarrow> bytes option" where
  "extract_rows oc g pixels stride tile_x tile_y [] tile = Some tile"
| "extract_rows oc g pixels stride tile_x tile_y (row # rows) tile =
     do {
       src_y \<leftarrow> u32_add oc tile_y row;
       if tg_frame_height g \<le> src_y then Some tile
       else do {
         src_row \<leftarrow> u32_mul oc src_y stride;
         d \<leftarrow> u32_mul oc row TILE_SIZE_PX;
         dst_row \<leftarrow> u32_mul oc d 4;
         tile' \<leftarrow> extract_cols oc (tg_frame_width g) pixels tile_x src_row dst_row
           [0..<TILE_SIZE_PX] tile;
         extract_rows oc g pixels stride tile_x tile_y rows tile'
       }
     }"

definition extract_tile :: "bool \<Rightarrow> tile_grid \<Rightarrow> bytes \<Rightarrow> nat \<Rightarrow> nat \<Rightarrow> nat \<Rightarrow> bytes option" where
  "extract_tile oc g pixels stride col row =
     do {
       tile_x \<leftarrow> u32_mul oc col TILE_SIZE_PX;
       tile_y \<leftarrow> u32_mul oc row TILE_SIZE_PX;
       extract_rows oc g pixels stride tile_x tile_y [0..<TILE_SIZE_PX] (replicate TILE_BYTES 0)
     }"

section \<open>Frames on the wire\<close>

definition KIND_BEGIN :: u8 where "KIND_BEGIN = 0x20"
definition KIND_TILE :: u8 where "KIND_TILE = 0x21"
definition KIND_END :: u8 where "KIND_END = 0x22"
definition ENC_PALETTE :: u8 where "ENC_PALETTE = 0"
definition ENC_RAW :: u8 where "ENC_RAW = 1"
definition ENC_DCT :: u8 where "ENC_DCT = 2"

datatype screen_frame =
    ScreenBegin nat nat \<comment> \<open>width, height\<close>
  | ScreenTile nat nat u8 bytes \<comment> \<open>col, row, encoding, data\<close>
  | ScreenEnd

datatype screen_error =
    ScreenSession
  | ScreenTruncated
  | ScreenTooLarge
  | ScreenUnknownKind u8
  | ScreenUnknownEncoding u8
  | ScreenShortBuffer
  | ScreenNoBegin
  | ScreenBadTile

definition put_u16 :: "nat \<Rightarrow> bytes" where
  "put_u16 n = to_le_bytes 2 (of_nat n :: u16)"

fun screen_encode :: "screen_frame \<Rightarrow> bytes" where
  "screen_encode (ScreenBegin width height) = KIND_BEGIN # put_u16 width @ put_u16 height"
| "screen_encode (ScreenTile col row encoding data) =
     KIND_TILE # put_u16 col @ put_u16 row @ encoding # put_u16 (length data) @ data"
| "screen_encode ScreenEnd = [KIND_END]"

definition screen_take_u16 :: "(screen_error, u16) reader" where
  "screen_take_u16 = take_word ScreenTruncated 2"

definition screen_decode_begin :: "bytes \<Rightarrow> screen_error + screen_frame" where
  "screen_decode_begin rest =
     (case screen_take_u16 rest of
        Inl e \<Rightarrow> Inl e
      | Inr (width, rest1) \<Rightarrow>
          (case screen_take_u16 rest1 of
             Inl e \<Rightarrow> Inl e
           | Inr (height, _) \<Rightarrow> Inr (ScreenBegin (unat width) (unat height))))"

definition screen_decode_tile :: "bytes \<Rightarrow> screen_error + screen_frame" where
  "screen_decode_tile rest =
     (case screen_take_u16 rest of
        Inl e \<Rightarrow> Inl e
      | Inr (col, rest1) \<Rightarrow>
          (case screen_take_u16 rest1 of
             Inl e \<Rightarrow> Inl e
           | Inr (row, rest2) \<Rightarrow>
               (case rest2 of
                  [] \<Rightarrow> Inl ScreenTruncated
                | encoding # rest3 \<Rightarrow>
                    (case screen_take_u16 rest3 of
                       Inl e \<Rightarrow> Inl e
                     | Inr (len, rest4) \<Rightarrow>
                         if unat len > TILE_BYTES then Inl ScreenTooLarge
                         else
                           (case split_at_checked ScreenTruncated (unat len) rest4 of
                              Inl e \<Rightarrow> Inl e
                            | Inr (data, _) \<Rightarrow>
                                Inr (ScreenTile (unat col) (unat row) encoding data))))))"

definition screen_decode :: "bytes \<Rightarrow> screen_error + screen_frame" where
  "screen_decode buf =
     (case buf of
        [] \<Rightarrow> Inl ScreenTruncated
      | kind # rest \<Rightarrow>
          if kind = KIND_BEGIN then screen_decode_begin rest
          else if kind = KIND_TILE then screen_decode_tile rest
          else if kind = KIND_END then Inr ScreenEnd
          else Inl (ScreenUnknownKind kind))"

section \<open>Sending\<close>

definition encode_tile_frame ::
  "bool \<Rightarrow> (bytes \<Rightarrow> bytes) \<Rightarrow> tile_grid \<Rightarrow> bytes \<Rightarrow> nat \<Rightarrow> nat \<times> nat \<Rightarrow> screen_frame option" where
  "encode_tile_frame oc dct_encode g pixels stride = (\<lambda>(row, col).
     do {
       tile \<leftarrow> extract_tile oc g pixels stride col row;
       encoded \<leftarrow> palette_encode tile;
       Some (case encoded of
         Inr d \<Rightarrow> ScreenTile col row ENC_PALETTE d
       | Inl _ \<Rightarrow> ScreenTile col row ENC_DCT (dct_encode tile))
     })"

text \<open>The raster order of the two loops over the grid.\<close>

definition tile_coords :: "tile_grid \<Rightarrow> (nat \<times> nat) list" where
  "tile_coords g = List.product [0..<tg_rows g] [0..<tg_cols g]"

fun traverse :: "('a \<Rightarrow> 'b option) \<Rightarrow> 'a list \<Rightarrow> 'b list option" where
  "traverse f [] = Some []"
| "traverse f (x # xs) = do { y \<leftarrow> f x; ys \<leftarrow> traverse f xs; Some (y # ys) }"

text \<open>The frames that \<open>send_frame\<close> sends for a picture, in order.\<close>

definition send_frame_frames ::
  "bool \<Rightarrow> (bytes \<Rightarrow> bytes) \<Rightarrow> nat \<Rightarrow> nat \<Rightarrow> bytes \<Rightarrow> (screen_error + screen_frame list) option" where
  "send_frame_frames oc dct_encode width height pixels =
     do {
       stride \<leftarrow> u32_mul oc width 4;
       size \<leftarrow> u32_mul oc stride height;
       if length pixels < size then Some (Inl ScreenShortBuffer)
       else do {
         let g = tile_grid_new width height;
         tiles \<leftarrow> traverse (encode_tile_frame oc dct_encode g pixels stride) (tile_coords g);
         Some (Inr (ScreenBegin width height # tiles @ [ScreenEnd]))
       }
     }"

section \<open>Receiving\<close>

record screen_receiver =
  sr_width :: nat
  sr_height :: nat
  sr_fb :: bytes
  sr_tiles_applied :: nat

definition screen_receiver_new :: screen_receiver where
  "screen_receiver_new = \<lparr>sr_width = 0, sr_height = 0, sr_fb = [], sr_tiles_applied = 0\<rparr>"

fun blit_cols ::
  "bool \<Rightarrow> nat \<Rightarrow> bytes \<Rightarrow> nat \<Rightarrow> nat \<Rightarrow> nat \<Rightarrow> nat list \<Rightarrow> bytes \<Rightarrow> bytes option" where
  "blit_cols oc width tile tx y r [] fb = Some fb"
| "blit_cols oc width tile tx y r (c # cs) fb =
     do {
       x \<leftarrow> u32_add oc tx c;
       if width \<le> x then Some fb
       else do {
         s0 \<leftarrow> u32_mul oc r TILE_SIZE_PX;
         s1 \<leftarrow> u32_add oc s0 c;
         src \<leftarrow> u32_mul oc s1 4;
         d0 \<leftarrow> u32_mul oc y width;
         d1 \<leftarrow> u32_add oc d0 x;
         dst \<leftarrow> u32_mul oc d1 4;
         fb' \<leftarrow> copy4 fb dst tile src;
         blit_cols oc width tile tx y r cs fb'
       }
     }"

fun blit_rows ::
  "bool \<Rightarrow> nat \<Rightarrow> nat \<Rightarrow> bytes \<Rightarrow> nat \<Rightarrow> nat \<Rightarrow> nat list \<Rightarrow> bytes \<Rightarrow> bytes option" where
  "blit_rows oc width height tile tx ty [] fb = Some fb"
| "blit_rows oc width height tile tx ty (r # rs) fb =
     do {
       y \<leftarrow> u32_add oc ty r;
       if height \<le> y then Some fb
       else do {
         fb' \<leftarrow> blit_cols oc width tile tx y r [0..<TILE_SIZE_PX] fb;
         blit_rows oc width height tile tx ty rs fb'
       }
     }"

definition blit :: "bool \<Rightarrow> screen_receiver \<Rightarrow> nat \<Rightarrow> nat \<Rightarrow> bytes \<Rightarrow> screen_receiver option" where
  "blit oc s col row tile =
     do {
       tx \<leftarrow> u32_mul oc col TILE_SIZE_PX;
       ty \<leftarrow> u32_mul oc row TILE_SIZE_PX;
       fb \<leftarrow> blit_rows oc (sr_width s) (sr_height s) tile tx ty [0..<TILE_SIZE_PX] (sr_fb s);
       Some (s\<lparr>sr_fb := fb\<rparr>)
     }"

definition decode_tile ::
  "(bytes \<Rightarrow> bytes option) \<Rightarrow> u8 \<Rightarrow> bytes \<Rightarrow> screen_error + bytes" where
  "decode_tile dct_decode encoding data =
     (if encoding = ENC_PALETTE then
        (case palette_decode data of Inl _ \<Rightarrow> Inl ScreenBadTile | Inr tile \<Rightarrow> Inr tile)
      else if encoding = ENC_RAW then
        (if length data \<noteq> TILE_BYTES then Inl ScreenBadTile else Inr data)
      else if encoding = ENC_DCT then
        (case dct_decode data of None \<Rightarrow> Inl ScreenBadTile | Some tile \<Rightarrow> Inr tile)
      else Inl (ScreenUnknownEncoding encoding))"

fun screen_apply ::
  "bool \<Rightarrow> (bytes \<Rightarrow> bytes option) \<Rightarrow> screen_receiver \<Rightarrow> screen_frame \<Rightarrow>
     ((screen_error + bytes option) \<times> screen_receiver) option" where
  "screen_apply oc dct_decode s (ScreenBegin width height) =
     do {
       n \<leftarrow> u32_mul oc width height;
       n4 \<leftarrow> u32_mul oc n 4;
       Some (Inr None,
         s\<lparr>sr_width := width, sr_height := height, sr_fb := replicate n4 0, sr_tiles_applied := 0\<rparr>)
     }"
| "screen_apply oc dct_decode s (ScreenTile col row encoding data) =
     (if sr_fb s = [] then Some (Inl ScreenNoBegin, s)
      else
        (case decode_tile dct_decode encoding data of
           Inl e \<Rightarrow> Some (Inl e, s)
         | Inr tile \<Rightarrow>
             do {
               s' \<leftarrow> blit oc s col row tile;
               Some (Inr None, s'\<lparr>sr_tiles_applied := sr_tiles_applied s' + 1\<rparr>)
             }))"
| "screen_apply oc dct_decode s ScreenEnd = Some (Inr (Some (sr_fb s)), s\<lparr>sr_fb := []\<rparr>)"

section \<open>Pixels\<close>

text \<open>Pixel \<open>i\<close> of a buffer of four-byte pixels.\<close>

definition pix :: "bytes \<Rightarrow> nat \<Rightarrow> bytes" where
  "pix bs i = take 4 (drop (4 * i) bs)"

lemma u32_mul_ok [simp]: "a * b < 2 ^ 32 \<Longrightarrow> u32_mul oc a b = Some (a * b)"
  by (simp add: u32_mul_def)

lemma u32_add_ok [simp]: "a + b < 2 ^ 32 \<Longrightarrow> u32_add oc a b = Some (a + b)"
  by (simp add: u32_add_def)

lemma copy4_Some:
  assumes "copy4 dst d src s = Some dst'"
  shows "length dst' = length dst" "d + 4 \<le> length dst"
  using assms by (auto simp: copy4_def split: if_splits)

lemma copy4_pix:
  assumes "4 * i + 4 \<le> length dst" "4 * j + 4 \<le> length src"
  shows "\<exists>dst'. copy4 dst (4 * i) src (4 * j) = Some dst' \<and> length dst' = length dst \<and>
    (\<forall>k. pix dst' k = (if k = i then pix src j else pix dst k))"
proof -
  let ?d = "take (4 * i) dst @ take 4 (drop (4 * j) src) @ drop (4 * i + 4) dst"
  have "pix ?d k = (if k = i then pix src j else pix dst k)" for k
  proof -
    consider "k < i" | "k = i" | "i < k" by linarith
    then show ?thesis
    proof cases
      case 1
      then have "4 * k + 4 \<le> 4 * i" by simp
      then show ?thesis using 1 assms by (simp add: pix_def take_drop min_def)
    next
      case 2
      then show ?thesis using assms by (simp add: pix_def)
    next
      case 3
      then have "4 * k = (4 * i + 4) + (4 * k - (4 * i + 4))" by simp
      then have "drop (4 * k) ?d = drop (4 * k) dst" using assms by simp
      then show ?thesis using 3 by (simp add: pix_def)
    qed
  qed
  then show ?thesis using assms by (intro exI [of _ ?d]) (simp add: copy4_def)
qed

lemma pixel_index_less:
  assumes "x < w" "y < (h :: nat)"
  shows "y * w + x < w * h"
proof -
  have "y * w + x < Suc y * w" using assms(1) by simp
  also have "\<dots> \<le> h * w" using assms(2) by (intro mult_le_mono1) simp
  finally show ?thesis by (simp add: mult.commute)
qed

lemma pixel_index_eq_iff:
  assumes "x < w" "x' < (w :: nat)"
  shows "y * w + x = y' * w + x' \<longleftrightarrow> y = y' \<and> x = x'"
proof
  assume eq: "y * w + x = y' * w + x'"
  have "y = (y * w + x) div w" "x = (y * w + x) mod w" using assms by simp_all
  moreover have "y' = (y' * w + x') div w" "x' = (y' * w + x') mod w" using assms by simp_all
  ultimately show "y = y' \<and> x = x'" using eq by metis
qed simp

section \<open>What blit and extract do\<close>

lemma blit_cols_pix:
  assumes "w * h * 4 < 2 ^ 32" "length fb = 4 * (w * h)" "length tile = TILE_BYTES" "y < h"
    "r < 32" "tx + 32 < 2 ^ 32" "c \<le> 32"
  shows "\<exists>fb'. blit_cols oc w tile tx y r [c..<32] fb = Some fb' \<and> length fb' = length fb \<and>
    (\<forall>x y'. x < w \<longrightarrow> pix fb' (y' * w + x) =
       (if y' = y \<and> tx + c \<le> x \<and> x < tx + 32 then pix tile (r * 32 + (x - tx))
        else pix fb (y' * w + x)))"
  using assms(2,7)
proof (induction "32 - c" arbitrary: c fb)
  case 0
  then show ?case by auto
next
  case (Suc n)
  then have c: "c < 32" "[c..<32] = c # [Suc c..<32]" by (simp_all add: upt_conv_Cons)
  show ?case
  proof (cases "w \<le> tx + c")
    case True
    then show ?thesis using c assms(6) Suc.prems by (auto intro!: exI [of _ fb])
  next
    case False
    have d: "y * w + (tx + c) < w * h" using False assms(4) by (intro pixel_index_less) auto
    have "y * w + (tx + c) + 1 \<le> w * h" using d by simp
    then have "4 * (y * w + (tx + c)) + 4 \<le> length fb" using Suc.prems(1) by simp
    moreover have "4 * (r * 32 + c) + 4 \<le> length tile"
      using assms(3,5) c(1) by (simp add: palette_consts)
    ultimately obtain fb1 where fb1:
      "copy4 fb (4 * (y * w + (tx + c))) tile (4 * (r * 32 + c)) = Some fb1"
      "length fb1 = length fb"
      "\<forall>k. pix fb1 k = (if k = y * w + (tx + c) then pix tile (r * 32 + c) else pix fb k)"
      using copy4_pix by blast
    have "(y * w + (tx + c)) * 4 < w * h * 4" using d by simp
    then have ov: "(y * w + (tx + c)) * 4 < 2 ^ 32" using assms(1) by (rule less_trans)
    then have ov': "y * w < 2 ^ 32" "y * w + (tx + c) < 2 ^ 32" by simp_all
    have step: "blit_cols oc w tile tx y r [c..<32] fb = blit_cols oc w tile tx y r [Suc c..<32] fb1"
      using False c assms(5,6) ov ov' fb1(1)
      by (simp add: TILE_SIZE_PX_def mult.commute [of 4] del: upt_Suc)
    have "\<exists>fb'. blit_cols oc w tile tx y r [Suc c..<32] fb1 = Some fb' \<and> length fb' = length fb1 \<and>
        (\<forall>x y'. x < w \<longrightarrow> pix fb' (y' * w + x) =
           (if y' = y \<and> tx + Suc c \<le> x \<and> x < tx + 32 then pix tile (r * 32 + (x - tx))
            else pix fb1 (y' * w + x)))"
      by (rule Suc.hyps(1)) (use Suc c fb1(2) in auto)
    then obtain fb' where fb': "blit_cols oc w tile tx y r [Suc c..<32] fb1 = Some fb'"
      "length fb' = length fb1"
      "\<And>x y'. x < w \<Longrightarrow> pix fb' (y' * w + x) =
         (if y' = y \<and> tx + Suc c \<le> x \<and> x < tx + 32 then pix tile (r * 32 + (x - tx))
          else pix fb1 (y' * w + x))"
      by blast
    have "pix fb' (y' * w + x) =
        (if y' = y \<and> tx + c \<le> x \<and> x < tx + 32 then pix tile (r * 32 + (x - tx))
         else pix fb (y' * w + x))" if "x < w" for x y'
      using fb'(3) [OF that, of y'] fb1(3) c(1) False
        pixel_index_eq_iff [of x w "tx + c" y' y] that by auto
    then show ?thesis using step fb'(1,2) fb1(2) by auto
  qed
qed

lemma blit_rows_pix:
  assumes "w * h * 4 < 2 ^ 32" "length fb = 4 * (w * h)" "length tile = TILE_BYTES"
    "tx + 32 < 2 ^ 32" "ty + 32 < 2 ^ 32" "r \<le> 32"
  shows "\<exists>fb'. blit_rows oc w h tile tx ty [r..<32] fb = Some fb' \<and> length fb' = length fb \<and>
    (\<forall>x y. x < w \<longrightarrow> y < h \<longrightarrow> pix fb' (y * w + x) =
       (if ty + r \<le> y \<and> y < ty + 32 \<and> tx \<le> x \<and> x < tx + 32
        then pix tile ((y - ty) * 32 + (x - tx)) else pix fb (y * w + x)))"
  using assms(2,6)
proof (induction "32 - r" arbitrary: r fb)
  case 0
  then show ?case by auto
next
  case (Suc n)
  then have r: "r < 32" "[r..<32] = r # [Suc r..<32]" by (simp_all add: upt_conv_Cons)
  show ?case
  proof (cases "h \<le> ty + r")
    case True
    then show ?thesis using r assms(5) Suc.prems by (auto intro!: exI [of _ fb])
  next
    case False
    obtain fb1 where fb1: "blit_cols oc w tile tx (ty + r) r [0..<32] fb = Some fb1"
      "length fb1 = length fb"
      "\<And>x y'. x < w \<Longrightarrow> pix fb1 (y' * w + x) =
         (if y' = ty + r \<and> tx \<le> x \<and> x < tx + 32 then pix tile (r * 32 + (x - tx))
          else pix fb (y' * w + x))"
      using blit_cols_pix [OF assms(1) Suc.prems(1) assms(3) _ r(1) assms(4), of "ty + r" 0 oc] False
      by auto
    have step: "blit_rows oc w h tile tx ty [r..<32] fb = blit_rows oc w h tile tx ty [Suc r..<32] fb1"
      using False r assms(5) fb1(1) by (simp add: TILE_SIZE_PX_def del: upt_Suc)
    have "\<exists>fb'. blit_rows oc w h tile tx ty [Suc r..<32] fb1 = Some fb' \<and> length fb' = length fb1 \<and>
        (\<forall>x y. x < w \<longrightarrow> y < h \<longrightarrow> pix fb' (y * w + x) =
           (if ty + Suc r \<le> y \<and> y < ty + 32 \<and> tx \<le> x \<and> x < tx + 32
            then pix tile ((y - ty) * 32 + (x - tx)) else pix fb1 (y * w + x)))"
      by (rule Suc.hyps(1)) (use Suc r fb1(2) in auto)
    then obtain fb' where fb': "blit_rows oc w h tile tx ty [Suc r..<32] fb1 = Some fb'"
      "length fb' = length fb1"
      "\<And>x y. x < w \<Longrightarrow> y < h \<Longrightarrow> pix fb' (y * w + x) =
         (if ty + Suc r \<le> y \<and> y < ty + 32 \<and> tx \<le> x \<and> x < tx + 32
          then pix tile ((y - ty) * 32 + (x - tx)) else pix fb1 (y * w + x))"
      by blast
    have "pix fb' (y * w + x) =
        (if ty + r \<le> y \<and> y < ty + 32 \<and> tx \<le> x \<and> x < tx + 32
         then pix tile ((y - ty) * 32 + (x - tx)) else pix fb (y * w + x))"
      if "x < w" "y < h" for x y
      using fb'(3) [OF that] fb1(3) [OF that(1), of y] r(1) by (cases "y = ty + r") auto
    then show ?thesis using step fb'(1,2) fb1(2) by auto
  qed
qed

lemma extract_cols_pix:
  assumes "w * h * 4 < 2 ^ 32" "4 * (w * h) \<le> length pixels" "length tile = TILE_BYTES" "y < h"
    "r < 32" "tx + 32 < 2 ^ 32" "c \<le> 32"
  shows "\<exists>tile'. extract_cols oc w pixels tx (y * (w * 4)) (r * 32 * 4) [c..<32] tile = Some tile' \<and>
    length tile' = length tile \<and>
    (\<forall>c' r'. c' < 32 \<longrightarrow> pix tile' (r' * 32 + c') =
       (if r' = r \<and> c \<le> c' \<and> tx + c' < w then pix pixels (y * w + (tx + c'))
        else pix tile (r' * 32 + c')))"
  using assms(3,7)
proof (induction "32 - c" arbitrary: c tile)
  case 0
  then show ?case by auto
next
  case (Suc n)
  then have c: "c < 32" "[c..<32] = c # [Suc c..<32]" by (simp_all add: upt_conv_Cons)
  show ?case
  proof (cases "w \<le> tx + c")
    case True
    then show ?thesis using c assms(6) Suc.prems by (auto intro!: exI [of _ tile])
  next
    case False
    have d: "y * w + (tx + c) < w * h" using False assms(4) by (intro pixel_index_less) auto
    then have "4 * (y * w + (tx + c) + 1) \<le> 4 * (w * h)" by (intro mult_le_mono2) simp
    then have "4 * (y * w + (tx + c)) + 4 \<le> length pixels" using assms(2) by simp
    moreover have "4 * (r * 32 + c) + 4 \<le> length tile"
      using Suc.prems(1) assms(5) c(1) by (simp add: palette_consts)
    ultimately obtain tile1 where tile1:
      "copy4 tile (4 * (r * 32 + c)) pixels (4 * (y * w + (tx + c))) = Some tile1"
      "length tile1 = length tile"
      "\<forall>k. pix tile1 k = (if k = r * 32 + c then pix pixels (y * w + (tx + c)) else pix tile k)"
      using copy4_pix by blast
    have "(y * w + (tx + c)) * 4 < w * h * 4" using d by simp
    then have "(y * w + (tx + c)) * 4 < 2 ^ 32" using assms(1) by (rule less_trans)
    then have "(tx + c) * 4 < 2 ^ 32" by simp
    moreover have "r * 32 * 4 + c * 4 = 4 * (r * 32 + c)"
      "y * (w * 4) + (tx + c) * 4 = 4 * (y * w + (tx + c))" by simp_all
    then have "copy4 tile (r * 32 * 4 + c * 4) pixels (y * (w * 4) + (tx + c) * 4) = Some tile1"
      using tile1(1) by (simp only:)
    ultimately have step: "extract_cols oc w pixels tx (y * (w * 4)) (r * 32 * 4) [c..<32] tile =
        extract_cols oc w pixels tx (y * (w * 4)) (r * 32 * 4) [Suc c..<32] tile1"
      using False c assms(6) by simp
    have "\<exists>tile'. extract_cols oc w pixels tx (y * (w * 4)) (r * 32 * 4) [Suc c..<32] tile1 =
          Some tile' \<and> length tile' = length tile1 \<and>
        (\<forall>c' r'. c' < 32 \<longrightarrow> pix tile' (r' * 32 + c') =
           (if r' = r \<and> Suc c \<le> c' \<and> tx + c' < w then pix pixels (y * w + (tx + c'))
            else pix tile1 (r' * 32 + c')))"
      by (rule Suc.hyps(1)) (use Suc c tile1(2) in auto)
    then obtain tile' where tile':
      "extract_cols oc w pixels tx (y * (w * 4)) (r * 32 * 4) [Suc c..<32] tile1 = Some tile'"
      "length tile' = length tile1"
      "\<And>c' r'. c' < 32 \<Longrightarrow> pix tile' (r' * 32 + c') =
         (if r' = r \<and> Suc c \<le> c' \<and> tx + c' < w then pix pixels (y * w + (tx + c'))
          else pix tile1 (r' * 32 + c'))"
      by blast
    have "pix tile' (r' * 32 + c') =
        (if r' = r \<and> c \<le> c' \<and> tx + c' < w then pix pixels (y * w + (tx + c'))
         else pix tile (r' * 32 + c'))" if "c' < 32" for c' r'
      using tile'(3) [OF that, of r'] tile1(3) c(1) False
        pixel_index_eq_iff [of c' 32 c r' r] that by auto
    then show ?thesis using step tile'(1,2) tile1(2) by auto
  qed
qed

lemma extract_rows_pix:
  fixes w h :: nat
  defines "g \<equiv> tile_grid_new w h"
  assumes "w * h * 4 < 2 ^ 32" "4 * (w * h) \<le> length pixels" "length tile = TILE_BYTES"
    "tx + 32 < 2 ^ 32" "ty + 32 < 2 ^ 32" "r \<le> 32"
  shows "\<exists>tile'. extract_rows oc g pixels (w * 4) tx ty [r..<32] tile = Some tile' \<and>
    length tile' = length tile \<and>
    (\<forall>c' r'. c' < 32 \<longrightarrow> r' < 32 \<longrightarrow> pix tile' (r' * 32 + c') =
       (if r \<le> r' \<and> ty + r' < h \<and> tx + c' < w then pix pixels ((ty + r') * w + (tx + c'))
        else pix tile (r' * 32 + c')))"
  using assms(4,7)
proof (induction "32 - r" arbitrary: r tile)
  case 0
  then show ?case by auto
next
  case (Suc n)
  have g: "tg_frame_width g = w" "tg_frame_height g = h" by (simp_all add: g_def tile_grid_new_def)
  from Suc have r: "r < 32" "[r..<32] = r # [Suc r..<32]" by (simp_all add: upt_conv_Cons)
  show ?case
  proof (cases "h \<le> ty + r")
    case True
    then show ?thesis using r assms(6) Suc.prems g by (auto intro!: exI [of _ tile])
  next
    case False
    obtain tile1 where tile1:
      "extract_cols oc w pixels tx ((ty + r) * (w * 4)) (r * 32 * 4) [0..<32] tile = Some tile1"
      "length tile1 = length tile"
      "\<And>c' r'. c' < 32 \<Longrightarrow> pix tile1 (r' * 32 + c') =
         (if r' = r \<and> tx + c' < w then pix pixels ((ty + r) * w + (tx + c'))
          else pix tile (r' * 32 + c'))"
      using extract_cols_pix [OF assms(2,3) Suc.prems(1) _ r(1) assms(5), of "ty + r" 0 oc] False
      by auto
    have "(ty + r) * (w * 4) \<le> h * (w * 4)" using False by (intro mult_le_mono1) simp
    also have "h * (w * 4) = w * h * 4" by simp
    also note assms(2)
    finally have "(ty + r) * (w * 4) < 2 ^ 32" .
    then have step: "extract_rows oc g pixels (w * 4) tx ty [r..<32] tile =
        extract_rows oc g pixels (w * 4) tx ty [Suc r..<32] tile1"
      using False r assms(6) tile1(1) g
      by (simp only: r(2) extract_rows.simps u32_add_ok TILE_SIZE_PX_def) simp
    have "\<exists>tile'. extract_rows oc g pixels (w * 4) tx ty [Suc r..<32] tile1 = Some tile' \<and>
        length tile' = length tile1 \<and>
        (\<forall>c' r'. c' < 32 \<longrightarrow> r' < 32 \<longrightarrow> pix tile' (r' * 32 + c') =
           (if Suc r \<le> r' \<and> ty + r' < h \<and> tx + c' < w then pix pixels ((ty + r') * w + (tx + c'))
            else pix tile1 (r' * 32 + c')))"
      by (rule Suc.hyps(1)) (use Suc r tile1(2) in auto)
    then obtain tile' where tile':
      "extract_rows oc g pixels (w * 4) tx ty [Suc r..<32] tile1 = Some tile'"
      "length tile' = length tile1"
      "\<And>c' r'. c' < 32 \<Longrightarrow> r' < 32 \<Longrightarrow> pix tile' (r' * 32 + c') =
         (if Suc r \<le> r' \<and> ty + r' < h \<and> tx + c' < w then pix pixels ((ty + r') * w + (tx + c'))
          else pix tile1 (r' * 32 + c'))"
      by blast
    have "pix tile' (r' * 32 + c') =
        (if r \<le> r' \<and> ty + r' < h \<and> tx + c' < w then pix pixels ((ty + r') * w + (tx + c'))
         else pix tile (r' * 32 + c'))" if "c' < 32" "r' < 32" for c' r'
      using tile'(3) [OF that] tile1(3) [OF that(1), of r'] False by (cases "r' = r") auto
    then show ?thesis using step tile'(1,2) tile1(2) by auto
  qed
qed

lemma extract_tile_pix:
  assumes "w * h * 4 < 2 ^ 32" "4 * (w * h) \<le> length pixels" "col * 32 < w" "row * 32 < h"
    "w \<le> 65535" "h \<le> 65535"
  shows "\<exists>tile. extract_tile oc (tile_grid_new w h) pixels (w * 4) col row = Some tile \<and>
    length tile = TILE_BYTES \<and>
    (\<forall>c r. c < 32 \<longrightarrow> r < 32 \<longrightarrow> row * 32 + r < h \<longrightarrow> col * 32 + c < w \<longrightarrow>
       pix tile (r * 32 + c) = pix pixels ((row * 32 + r) * w + (col * 32 + c)))"
  using extract_rows_pix [OF assms(1,2), of "replicate TILE_BYTES 0" "col * 32" "row * 32" 0 oc] assms(3-6)
  by (auto simp: extract_tile_def TILE_SIZE_PX_def)

end
