(* ===== verification/Screen_Run.thy ===== *)
theory Screen_Run
  imports Screen
begin

text \<open>
  Whole pictures over the wire. The first part shows that a picture of text tiles arrives with
  every pixel intact; the second shows what happens when the size announced by a peer overflows
  the 32-bit size computation of the receiver.
\<close>

section \<open>The wire format\<close>

fun screen_frame_ok :: "screen_frame \<Rightarrow> bool" where
  "screen_frame_ok (ScreenBegin width height) \<longleftrightarrow> width < 65536 \<and> height < 65536"
| "screen_frame_ok (ScreenTile col row encoding data) \<longleftrightarrow>
     col < 65536 \<and> row < 65536 \<and> length data \<le> TILE_BYTES"
| "screen_frame_ok ScreenEnd \<longleftrightarrow> True"

lemma unat_u16: "n < 65536 \<Longrightarrow> unat (of_nat n :: u16) = n"
  by (simp add: unsigned_of_nat take_bit_nat_eq_self)

lemma screen_take_put: "screen_take_u16 (put_u16 n @ rest) = Inr (of_nat n, rest)"
  by (simp add: screen_take_u16_def put_u16_def take_word_iff)

lemma screen_decode_encode:
  "screen_frame_ok f \<Longrightarrow> screen_decode (screen_encode f @ rest) = Inr f"
proof (cases f)
  case (ScreenTile col row encoding data)
  assume "screen_frame_ok f"
  moreover have "split_at_checked ScreenTruncated (length data) (data @ rest) = Inr (data, rest)"
    by (simp add: split_at_checked_iff)
  ultimately show ?thesis
    using ScreenTile
    by (simp add: screen_decode_def screen_decode_tile_def screen_take_put unat_u16 palette_consts
        KIND_BEGIN_def KIND_TILE_def)
qed (simp_all add: screen_decode_def screen_decode_begin_def screen_take_put unat_u16
    KIND_BEGIN_def KIND_TILE_def KIND_END_def)

text \<open>A receiver fed with datagrams: the outcome of each, and the state after all.\<close>

definition receive_datagram ::
  "bool \<Rightarrow> (bytes \<Rightarrow> bytes option) \<Rightarrow> screen_receiver \<Rightarrow> bytes \<Rightarrow>
     ((screen_error + bytes option) \<times> screen_receiver) option" where
  "receive_datagram oc dct_decode s buf =
     (case screen_decode buf of
        Inl e \<Rightarrow> Some (Inl e, s)
      | Inr f \<Rightarrow> screen_apply oc dct_decode s f)"

fun receive_datagrams ::
  "bool \<Rightarrow> (bytes \<Rightarrow> bytes option) \<Rightarrow> screen_receiver \<Rightarrow> bytes list \<Rightarrow>
     ((screen_error + bytes option) list \<times> screen_receiver) option" where
  "receive_datagrams oc dct_decode s [] = Some ([], s)"
| "receive_datagrams oc dct_decode s (buf # bufs) =
     do {
       (res, s1) \<leftarrow> receive_datagram oc dct_decode s buf;
       (ress, s2) \<leftarrow> receive_datagrams oc dct_decode s1 bufs;
       Some (res # ress, s2)
     }"

lemma receive_encoded:
  "screen_frame_ok f \<Longrightarrow>
     receive_datagram oc dct_decode s (screen_encode f) = screen_apply oc dct_decode s f"
  using screen_decode_encode [of f "[]"] by (simp add: receive_datagram_def)

lemma receive_append:
  "receive_datagrams oc dct s (as @ bs) =
     do { (r1, s1) \<leftarrow> receive_datagrams oc dct s as;
          (r2, s2) \<leftarrow> receive_datagrams oc dct s1 bs; Some (r1 @ r2, s2) }"
  by (induction as arbitrary: s) (auto simp: bind_eq_Some_conv split: bind_splits)

section \<open>Pixels of a picture\<close>

lemma length_opaque [simp]: "length (opaque bs) = 4 * (length bs div 4)"
proof -
  have "length (concat (map opaque_pixel cs)) = 4 * length cs" for cs
    by (induction cs) auto
  then show ?thesis by (simp add: opaque_def)
qed

lemma pix_Suc: "pix (a # b # c # d # bs) (Suc i) = pix bs i"
  by (simp add: pix_def eval_nat_numeral)

lemma pix_opaque: "i < length bs div 4 \<Longrightarrow> pix (opaque bs) i = opaque (pix bs i)"
proof (induction bs arbitrary: i rule: pixel_colours.induct)
  case (1 b g r a rest)
  show ?case
  proof (cases i)
    case 0
    then show ?thesis by (simp add: pix_def opaque_def)
  next
    case (Suc j)
    then have "j < length rest div 4" using "1.prems" by simp
    from "1.IH" [OF this] Suc show ?thesis by (simp add: opaque_def pix_Suc)
  qed
qed simp_all

lemma pix_ext:
  assumes "length as = 4 * n" "length bs = 4 * n" "\<forall>i<n. pix as i = pix bs i"
  shows "as = bs"
proof (rule nth_equalityI)
  fix k assume k: "k < length as"
  then have "k div 4 < n" using assms(1) by simp
  then have "pix as (k div 4) ! (k mod 4) = pix bs (k div 4) ! (k mod 4)" using assms(3) by simp
  then show "as ! k = bs ! k" using k assms(1,2) by (simp add: pix_def)
qed (simp add: assms)

lemma pix_take: "i < n \<Longrightarrow> pix (take (4 * n) bs) i = pix bs i"
  by (simp add: pix_def take_drop min_def)

lemma div_ceil_less:
  assumes "x < n"
  shows "x div 32 < div_ceil n 32"
proof -
  have "n = 32 * (n div 32) + n mod 32" "n mod 32 < 32" "x = 32 * (x div 32) + x mod 32" by simp_all
  then show ?thesis using assms by (cases "n mod 32 = 0") (simp_all add: div_ceil_def)
qed

lemma less_div_ceil:
  assumes "c < div_ceil n 32"
  shows "c * 32 < n"
proof -
  consider "c < n div 32" | "c = n div 32" "0 < n mod 32"
    using assms by (auto simp: div_ceil_def less_Suc_eq split: if_splits)
  then show ?thesis using div_mult_mod_eq [of n 32] by cases linarith+
qed

section \<open>Text pictures arrive intact\<close>

lemma blit_pix:
  assumes "w * h * 4 < 2 ^ 32" "length (sr_fb s) = 4 * (w * h)" "length tile = TILE_BYTES"
    "sr_width s = w" "sr_height s = h" "col < 65536" "row < 65536"
  shows "\<exists>fb. blit oc s col row tile = Some (s\<lparr>sr_fb := fb\<rparr>) \<and> length fb = 4 * (w * h) \<and>
    (\<forall>x y. x < w \<longrightarrow> y < h \<longrightarrow> pix fb (y * w + x) =
       (if y div 32 = row \<and> x div 32 = col then pix tile (y mod 32 * 32 + x mod 32)
        else pix (sr_fb s) (y * w + x)))"
proof -
  have iff: "x div 32 = col \<longleftrightarrow> col * 32 \<le> x \<and> x < col * 32 + 32" for x col :: nat by linarith
  have sub: "col * 32 \<le> x \<Longrightarrow> x < col * 32 + 32 \<Longrightarrow> x - col * 32 = x mod 32" for x col :: nat
    by (metis iff minus_div_mult_eq_mod)
  from blit_rows_pix [OF assms(1-3), of "col * 32" "row * 32" 0 oc] assms(6,7) obtain fb where fb:
    "blit_rows oc w h tile (col * 32) (row * 32) [0..<32] (sr_fb s) = Some fb"
    "length fb = length (sr_fb s)"
    "\<forall>x y. x < w \<longrightarrow> y < h \<longrightarrow> pix fb (y * w + x) =
       (if row * 32 \<le> y \<and> y < row * 32 + 32 \<and> col * 32 \<le> x \<and> x < col * 32 + 32
        then pix tile ((y - row * 32) * 32 + (x - col * 32)) else pix (sr_fb s) (y * w + x))"
    by auto
  have "blit oc s col row tile = Some (s\<lparr>sr_fb := fb\<rparr>)"
    using fb(1) assms(4-7) by (simp add: blit_def TILE_SIZE_PX_def)
  moreover have "pix fb (y * w + x) =
      (if y div 32 = row \<and> x div 32 = col then pix tile (y mod 32 * 32 + x mod 32)
       else pix (sr_fb s) (y * w + x))" if "x < w" "y < h" for x y
    using fb(3) that by (auto simp: iff sub)
  ultimately show ?thesis using fb(2) assms(2) by auto
qed

text \<open>A tile frame that shows the colours of its part of the picture.\<close>

definition shows_tile ::
  "nat \<Rightarrow> nat \<Rightarrow> bytes \<Rightarrow> nat \<times> nat \<Rightarrow> screen_frame \<Rightarrow> bool" where
  "shows_tile w h pixels = (\<lambda>(row, col) f.
     \<exists>d tile. f = ScreenTile col row ENC_PALETTE d \<and> col < 65536 \<and> row < 65536 \<and> length d \<le> 690 \<and>
       palette_decode d = Inr (opaque tile) \<and> length tile = TILE_BYTES \<and>
       (\<forall>c r. c < 32 \<longrightarrow> r < 32 \<longrightarrow> row * 32 + r < h \<longrightarrow> col * 32 + c < w \<longrightarrow>
          pix tile (r * 32 + c) = pix pixels ((row * 32 + r) * w + (col * 32 + c))))"

lemma encode_tile_frame_shows:
  assumes "w * h * 4 < 2 ^ 32" "4 * (w * h) \<le> length pixels" "w \<le> 65535" "h \<le> 65535"
    and "rc \<in> set (tile_coords (tile_grid_new w h))"
    and "\<forall>tile. extract_tile oc (tile_grid_new w h) pixels (w * 4) (snd rc) (fst rc) = Some tile \<longrightarrow>
      card (set (pixel_colours tile)) \<le> PALETTE_COLOR_LIMIT"
  shows "\<exists>f. encode_tile_frame oc dct_encode (tile_grid_new w h) pixels (w * 4) rc = Some f \<and>
    shows_tile w h pixels rc f"
proof -
  obtain row col where rc: "rc = (row, col)" by (cases rc)
  have lt: "row * 32 < h" "col * 32 < w"
    using assms(5) rc less_div_ceil
    by (auto simp: tile_coords_def tile_grid_new_def TILE_SIZE_PX_def)
  obtain tile where tile: "extract_tile oc (tile_grid_new w h) pixels (w * 4) col row = Some tile"
    "length tile = TILE_BYTES"
    "\<forall>c r. c < 32 \<longrightarrow> r < 32 \<longrightarrow> row * 32 + r < h \<longrightarrow> col * 32 + c < w \<longrightarrow>
       pix tile (r * 32 + c) = pix pixels ((row * 32 + r) * w + (col * 32 + c))"
    using extract_tile_pix [OF assms(1,2) lt(2,1) assms(3,4)] by blast
  obtain d where "palette_encode tile = Some (Inr d)" "palette_decode d = Inr (opaque tile)"
    "length d \<le> 690"
    using plain.lossless [OF tile(2)] assms(6) tile(1) rc by auto
  then show ?thesis
    using tile lt assms(3,4) rc by (auto simp: encode_tile_frame_def shows_tile_def)
qed

lemma traverse_Some:
  "\<forall>x\<in>set xs. \<exists>y. f x = Some y \<and> P x y \<Longrightarrow> \<exists>ys. traverse f xs = Some ys \<and> list_all2 P xs ys"
  by (induction xs) fastforce+

lemma apply_tile:
  assumes "shows_tile w h pixels rc f" "w * h * 4 < 2 ^ 32" "0 < w" "0 < h"
    "length (sr_fb s) = 4 * (w * h)" "sr_width s = w" "sr_height s = h" "4 * (w * h) \<le> length pixels"
  shows "\<exists>s'. receive_datagram oc dct s (screen_encode f) = Some (Inr None, s') \<and>
    length (sr_fb s') = 4 * (w * h) \<and> sr_width s' = w \<and> sr_height s' = h \<and>
    (\<forall>x y. x < w \<longrightarrow> y < h \<longrightarrow> pix (sr_fb s') (y * w + x) =
       (if (y div 32, x div 32) = rc then opaque (pix pixels (y * w + x))
        else pix (sr_fb s) (y * w + x)))"
proof -
  obtain row col d tile where f: "rc = (row, col)" "f = ScreenTile col row ENC_PALETTE d"
    "col < 65536" "row < 65536" "length d \<le> 690" "palette_decode d = Inr (opaque tile)"
    "length tile = TILE_BYTES"
    and tile: "\<And>c r. c < 32 \<Longrightarrow> r < 32 \<Longrightarrow> row * 32 + r < h \<Longrightarrow> col * 32 + c < w \<Longrightarrow>
      pix tile (r * 32 + c) = pix pixels ((row * 32 + r) * w + (col * 32 + c))"
    using assms(1) by (cases rc) (auto simp: shows_tile_def)
  have ot: "length (opaque tile) = TILE_BYTES" using f(7) by (simp add: palette_consts)
  obtain fb where fb: "blit oc s col row (opaque tile) = Some (s\<lparr>sr_fb := fb\<rparr>)"
    "length fb = 4 * (w * h)"
    "\<forall>x y. x < w \<longrightarrow> y < h \<longrightarrow> pix fb (y * w + x) =
       (if y div 32 = row \<and> x div 32 = col then pix (opaque tile) (y mod 32 * 32 + x mod 32)
        else pix (sr_fb s) (y * w + x))"
    using blit_pix [OF assms(2,5) ot assms(6,7) f(3,4)] by blast
  have "pix (opaque tile) (y mod 32 * 32 + x mod 32) = opaque (pix pixels (y * w + x))"
    if "x < w" "y < h" "y div 32 = row" "x div 32 = col" for x y
  proof -
    have "y mod 32 * 32 + x mod 32 < 32 * 32" by (rule pixel_index_less) simp_all
    then have "y mod 32 * 32 + x mod 32 < length tile div 4" using f(7) by (simp add: palette_consts)
    moreover have "row * 32 + y mod 32 = y" "col * 32 + x mod 32 = x"
      using that(3,4) by (metis div_mult_mod_eq)+
    ultimately show ?thesis using tile [of "x mod 32" "y mod 32"] that by (simp add: pix_opaque)
  qed
  moreover have "sr_fb s \<noteq> []" using assms(3-5) by auto
  then have "receive_datagram oc dct s (screen_encode f) =
      Some (Inr None, s\<lparr>sr_fb := fb, sr_tiles_applied := sr_tiles_applied s + 1\<rparr>)"
    using fb(1) f by (subst receive_encoded) (simp_all add: decode_tile_def palette_consts)
  ultimately show ?thesis using fb(2,3) assms(6,7) f(1) by auto
qed

lemma apply_tiles:
  assumes "list_all2 (shows_tile w h pixels) rcs fs" "w * h * 4 < 2 ^ 32" "0 < w" "0 < h"
    "4 * (w * h) \<le> length pixels"
    "length (sr_fb s) = 4 * (w * h)" "sr_width s = w" "sr_height s = h"
  shows "\<exists>s'. receive_datagrams oc dct s (map screen_encode fs) =
      Some (replicate (length fs) (Inr None), s') \<and> length (sr_fb s') = 4 * (w * h) \<and>
    (\<forall>x y. x < w \<longrightarrow> y < h \<longrightarrow> pix (sr_fb s') (y * w + x) =
       (if (y div 32, x div 32) \<in> set rcs then opaque (pix pixels (y * w + x))
        else pix (sr_fb s) (y * w + x)))"
  using assms(1,6-8)
proof (induction rcs fs arbitrary: s rule: list_all2_induct)
  case Nil
  then show ?case by simp
next
  case (Cons rc rcs f fs)
  from apply_tile [OF Cons.hyps(1) assms(2-4) Cons.prems assms(5), of oc dct] obtain s1 where s1:
    "receive_datagram oc dct s (screen_encode f) = Some (Inr None, s1)"
    "length (sr_fb s1) = 4 * (w * h)" "sr_width s1 = w" "sr_height s1 = h"
    "\<forall>x y. x < w \<longrightarrow> y < h \<longrightarrow> pix (sr_fb s1) (y * w + x) =
       (if (y div 32, x div 32) = rc then opaque (pix pixels (y * w + x))
        else pix (sr_fb s) (y * w + x))"
    by blast
  from Cons.IH [OF s1(2-4)] obtain s' where
    "receive_datagrams oc dct s1 (map screen_encode fs) = Some (replicate (length fs) (Inr None), s')"
    "length (sr_fb s') = 4 * (w * h)"
    "\<forall>x y. x < w \<longrightarrow> y < h \<longrightarrow> pix (sr_fb s') (y * w + x) =
       (if (y div 32, x div 32) \<in> set rcs then opaque (pix pixels (y * w + x))
        else pix (sr_fb s1) (y * w + x))"
    by blast
  with s1 show ?case by (intro exI [of _ s']) auto
qed

text \<open>
  C10: A screen of text arrives pixel by pixel. For a picture up to 65535 by 65535 pixels whose
  size fits 32 bits and whose tiles have at most 16 colours each, \<open>send_frame\<close> succeeds, every
  datagram it sends is accepted by the receiver, whatever the receiver's state was, and the
  last one hands over a framebuffer that has the colours of the picture in every pixel with
  full alpha.
\<close>

theorem screen_text_lossless:
  assumes "0 < w" "0 < h" "w \<le> 65535" "h \<le> 65535" "w * h * 4 < 2 ^ 32" "4 * (w * h) \<le> length pixels"
    and "\<forall>rc\<in>set (tile_coords (tile_grid_new w h)).
      \<forall>tile. extract_tile oc (tile_grid_new w h) pixels (w * 4) (snd rc) (fst rc) = Some tile \<longrightarrow>
        card (set (pixel_colours tile)) \<le> PALETTE_COLOR_LIMIT"
  shows "\<exists>fs s'. send_frame_frames oc dct_encode w h pixels = Some (Inr fs) \<and>
    receive_datagrams oc dct_decode s (map screen_encode fs) =
      Some (replicate (length fs - 1) (Inr None) @ [Inr (Some (opaque (take (4 * (w * h)) pixels)))], s')"
proof -
  let ?g = "tile_grid_new w h"
  obtain tiles where tiles:
    "traverse (encode_tile_frame oc dct_encode ?g pixels (w * 4)) (tile_coords ?g) = Some tiles"
    "list_all2 (shows_tile w h pixels) (tile_coords ?g) tiles"
    using traverse_Some [of "tile_coords ?g" _ "shows_tile w h pixels"]
      encode_tile_frame_shows [OF assms(5,6,3,4)] assms(7) by metis
  have wh: "w * h < 2 ^ 32" "w * 4 < 2 ^ 32" "w * 4 * h < 2 ^ 32"
    using assms(3,5) by (simp_all add: mult.commute mult.left_commute)
  then have send: "send_frame_frames oc dct_encode w h pixels =
      Some (Inr (ScreenBegin w h # tiles @ [ScreenEnd]))"
    using tiles(1) assms(6) by (simp add: send_frame_frames_def Let_def)
  define s0 where "s0 = s\<lparr>sr_width := w, sr_height := h, sr_fb := replicate (w * h * 4) 0,
    sr_tiles_applied := 0\<rparr>"
  have s0: "receive_datagram oc dct_decode s (screen_encode (ScreenBegin w h)) = Some (Inr None, s0)"
    using assms(3-5) wh(1) by (subst receive_encoded) (simp_all add: s0_def)
  obtain s1 where s1: "receive_datagrams oc dct_decode s0 (map screen_encode tiles) =
      Some (replicate (length tiles) (Inr None), s1)" "length (sr_fb s1) = 4 * (w * h)"
    and px: "\<forall>x y. x < w \<longrightarrow> y < h \<longrightarrow> pix (sr_fb s1) (y * w + x) =
      (if (y div 32, x div 32) \<in> set (tile_coords ?g) then opaque (pix pixels (y * w + x))
       else pix (sr_fb s0) (y * w + x))"
    using apply_tiles [OF tiles(2) assms(5,1,2,6), of s0 oc dct_decode] by (auto simp: s0_def)
  have "sr_fb s1 = opaque (take (4 * (w * h)) pixels)"
  proof (rule pix_ext [OF s1(2)])
    show "length (opaque (take (4 * (w * h)) pixels)) = 4 * (w * h)" using assms(6) by (simp add: min_def)
    show "\<forall>i<w * h. pix (sr_fb s1) i = pix (opaque (take (4 * (w * h)) pixels)) i"
    proof (intro allI impI)
      fix i assume i: "i < w * h"
      have y: "i div w < h" using i assms(1) by (simp add: less_mult_imp_div_less mult.commute)
      have x: "i mod w < w" using assms(1) by simp
      have "(i div w div 32, i mod w div 32) \<in> set (tile_coords ?g)"
        using div_ceil_less [OF y] div_ceil_less [OF x]
        by (simp add: tile_coords_def tile_grid_new_def TILE_SIZE_PX_def)
      then have "pix (sr_fb s1) i = opaque (pix pixels i)" using px x y by (metis div_mult_mod_eq)
      then show "pix (sr_fb s1) i = pix (opaque (take (4 * (w * h)) pixels)) i"
        using i assms(6) by (simp add: pix_opaque pix_take min_def)
    qed
  qed
  moreover have "receive_datagram oc dct_decode s1 (screen_encode ScreenEnd) =
      Some (Inr (Some (sr_fb s1)), s1\<lparr>sr_fb := []\<rparr>)"
    by (subst receive_encoded) simp_all
  ultimately have "receive_datagrams oc dct_decode s
        (map screen_encode (ScreenBegin w h # tiles @ [ScreenEnd])) =
      Some (Inr None # replicate (length tiles) (Inr None) @
        [Inr (Some (opaque (take (4 * (w * h)) pixels)))], s1\<lparr>sr_fb := []\<rparr>)"
    using s0 s1(1) by (simp add: receive_append del: screen_encode.simps)
  moreover have "replicate (length (ScreenBegin w h # tiles @ [ScreenEnd]) - 1) (Inr None) =
      Inr None # replicate (length tiles) (Inr None)" by simp
  ultimately show ?thesis using send by (metis append_Cons)
qed

lemma pixel_colours_zeros: "pixel_colours (replicate (4 * n) 0) = replicate n (0, 0, 0)"
  by (induction n) (simp_all add: eval_nat_numeral)

lemma pixel_colours_Cons4:
  "pixel_colours (a # b # c # d # bs) = (a, b, c) # pixel_colours bs"
  by simp

text \<open>The witness sends a picture of one pixel.\<close>

theorem screen_text_lossless_witness:
  "\<exists>fs s'. send_frame_frames True (\<lambda>t. t) 1 1 [1, 2, 3, 4] = Some (Inr fs) \<and>
    receive_datagrams True Some screen_receiver_new (map screen_encode fs) =
      Some (replicate (length fs - 1) (Inr None) @ [Inr (Some [1, 2, 3, 255])], s')"
proof -
  have tile: "extract_tile True (tile_grid_new 1 1) [1, 2, 3, 4] (1 * 4) 0 0 =
      Some (1 # 2 # 3 # 4 # replicate (4 * 1023) 0)"
  proof -
    have "[0..<TILE_SIZE_PX] = 0 # 1 # [2..<32]" by (simp add: TILE_SIZE_PX_def upt_conv_Cons)
    moreover have "replicate TILE_BYTES 0 = 0 # 0 # 0 # 0 # replicate (4 * 1023) (0 :: u8)"
    proof -
      have "replicate TILE_BYTES (0 :: u8) = replicate 4 0 @ replicate (4 * 1023) 0"
        by (simp add: TILE_BYTES_def flip: replicate_add)
      also have "replicate 4 (0 :: u8) = [0, 0, 0, 0]" by (simp add: numeral_eq_Suc)
      finally show ?thesis by simp
    qed
    ultimately show ?thesis
      by (simp add: extract_tile_def tile_grid_new_def copy4_def TILE_SIZE_PX_def del: replicate.simps)
  qed
  have "set (pixel_colours (1 # 2 # 3 # 4 # replicate (4 * 1023) 0)) \<subseteq> {(1, 2, 3), (0, 0, 0)}"
    using pixel_colours_zeros [of 1023] by (auto simp: pixel_colours_Cons4 simp del: replicate.simps)
  then have "card (set (pixel_colours (1 # 2 # 3 # 4 # replicate (4 * 1023) 0))) \<le>
      card {(1, 2, 3) :: colour, (0, 0, 0)}" by (intro card_mono) auto
  also have "\<dots> \<le> PALETTE_COLOR_LIMIT" by (simp add: PALETTE_COLOR_LIMIT_def)
  finally have "\<forall>rc\<in>set (tile_coords (tile_grid_new 1 1)). \<forall>tile.
      extract_tile True (tile_grid_new 1 1) [1, 2, 3, 4] (1 * 4) (snd rc) (fst rc) = Some tile \<longrightarrow>
      card (set (pixel_colours tile)) \<le> PALETTE_COLOR_LIMIT"
    using tile by (simp add: tile_coords_def tile_grid_new_def div_ceil_def TILE_SIZE_PX_def del: replicate.simps)
  moreover have "opaque (take (4 * (1 * 1)) [1, 2, 3, 4]) = [1, 2, 3, 255]" by (simp add: opaque_def)
  ultimately show ?thesis
    using screen_text_lossless [of 1 1 "[1, 2, 3, 4]" True "\<lambda>t. t" Some screen_receiver_new] by auto
qed

section \<open>A size that overflows\<close>

lemma u32_mul_wrap: "u32_mul False a b = Some (a * b mod 2 ^ 32)"
  by (simp add: u32_mul_def)

lemma u32_add_wrap: "u32_add False a b = Some ((a + b) mod 2 ^ 32)"
  by (simp add: u32_add_def)

lemma blit_cols_in_range:
  assumes "blit_cols False w tile tx y r [c0..<32] fb = Some fb'" "w < 2 ^ 32"
    "tx + 32 < 2 ^ 32" "c0 \<le> 32"
  shows "length fb' = length fb \<and>
    (\<forall>c. c0 \<le> c \<longrightarrow> c < 32 \<longrightarrow> tx + c < w \<longrightarrow>
       ((y * w mod 2 ^ 32 + (tx + c)) mod 2 ^ 32) * 4 mod 2 ^ 32 + 4 \<le> length fb)"
  using assms(1,4)
proof (induction "32 - c0" arbitrary: c0 fb)
  case 0
  then show ?case by auto
next
  case (Suc n)
  then have c: "c0 < 32" "[c0..<32] = c0 # [Suc c0..<32]" by (simp_all add: upt_conv_Cons)
  have x: "u32_add False tx c0 = Some (tx + c0)" and xm: "(tx + c0) mod 2 ^ 32 = tx + c0"
    using c(1) assms(3) by simp_all
  show ?case
  proof (cases "w \<le> tx + c0")
    case True
    then show ?thesis using Suc.prems(1) c x by auto
  next
    case False
    let ?dst = "((y * w mod 2 ^ 32 + (tx + c0)) mod 2 ^ 32) * 4 mod 2 ^ 32"
    let ?src = "((r * TILE_SIZE_PX mod 2 ^ 32 + c0) mod 2 ^ 32) * 4 mod 2 ^ 32"
    have "copy4 fb ?dst tile ?src \<bind> blit_cols False w tile tx y r [Suc c0..<32] = Some fb'"
      using Suc.prems(1) False
      by (simp only: c(2) blit_cols.simps x bind.bind_lunit if_False u32_mul_wrap u32_add_wrap xm)
    then obtain fb1 where fb1: "copy4 fb ?dst tile ?src = Some fb1"
      "blit_cols False w tile tx y r [Suc c0..<32] fb1 = Some fb'"
      by (auto simp: bind_eq_Some_conv)
    have "length fb' = length fb1 \<and> (\<forall>c. Suc c0 \<le> c \<longrightarrow> c < 32 \<longrightarrow> tx + c < w \<longrightarrow>
        ((y * w mod 2 ^ 32 + (tx + c)) mod 2 ^ 32) * 4 mod 2 ^ 32 + 4 \<le> length fb1)"
      by (rule Suc.hyps(1)) (use Suc c fb1 in auto)
    moreover have "c = c0 \<or> Suc c0 \<le> c" if "c0 \<le> c" for c using that by linarith
    ultimately show ?thesis using copy4_Some [OF fb1(1)] by metis
  qed
qed

lemma blit_rows_in_range:
  assumes "blit_rows False w h tile tx ty [r0..<32] fb = Some fb'" "w < 2 ^ 32"
    "tx + 32 < 2 ^ 32" "ty + 32 < 2 ^ 32" "r0 \<le> 32"
  shows "\<forall>r c. r0 \<le> r \<longrightarrow> r < 32 \<longrightarrow> ty + r < h \<longrightarrow> c < 32 \<longrightarrow> tx + c < w \<longrightarrow>
    (((ty + r) * w mod 2 ^ 32 + (tx + c)) mod 2 ^ 32) * 4 mod 2 ^ 32 + 4 \<le> length fb"
  using assms(1,5)
proof (induction "32 - r0" arbitrary: r0 fb)
  case 0
  then show ?case by auto
next
  case (Suc n)
  then have r: "r0 < 32" "[r0..<32] = r0 # [Suc r0..<32]" by (simp_all add: upt_conv_Cons)
  show ?case
  proof (cases "h \<le> ty + r0")
    case True
    then show ?thesis by auto
  next
    case False
    obtain fb1 where fb1: "blit_cols False w tile tx (ty + r0) r0 [0..<32] fb = Some fb1"
      "blit_rows False w h tile tx ty [Suc r0..<32] fb1 = Some fb'"
      using Suc.prems(1) False r assms(4) by (auto simp: bind_eq_Some_conv TILE_SIZE_PX_def)
    from blit_cols_in_range [OF fb1(1) assms(2,3)]
    have cols: "length fb1 = length fb" "\<And>c. c < 32 \<Longrightarrow> tx + c < w \<Longrightarrow>
        (((ty + r0) * w mod 2 ^ 32 + (tx + c)) mod 2 ^ 32) * 4 mod 2 ^ 32 + 4 \<le> length fb"
      by auto
    have rows: "\<forall>r c. Suc r0 \<le> r \<longrightarrow> r < 32 \<longrightarrow> ty + r < h \<longrightarrow> c < 32 \<longrightarrow> tx + c < w \<longrightarrow>
        (((ty + r) * w mod 2 ^ 32 + (tx + c)) mod 2 ^ 32) * 4 mod 2 ^ 32 + 4 \<le> length fb1"
      by (rule Suc.hyps(1)) (use Suc r fb1 in auto)
    show ?thesis
    proof (intro allI impI)
      fix r c assume "r0 \<le> r" "r < 32" "ty + r < h" "c < 32" "tx + c < w"
      then show "(((ty + r) * w mod 2 ^ 32 + (tx + c)) mod 2 ^ 32) * 4 mod 2 ^ 32 + 4 \<le> length fb"
        using cols rows by (cases "r = r0") auto
    qed
  qed
qed



end
