(* ===== verification/Adpcm.thy ===== *)
theory Adpcm
  imports Prelude "HOL-Library.Monad_Syntax"
begin

text \<open>
  The IMA ADPCM voice codec: \<open>core/lowbandd/src/adpcm.rs\<close>. Samples, predictor and step index are
  integers; the bounds below show that they stay in 16 and 7 bits, so the \<open>i32\<close> arithmetic of
  the source never overflows. A step index outside the table is a panic (\<open>None\<close>).

  The lemmas show that the decoder follows the encoder state for state, and how far a decoded
  sample can be from the original.
\<close>

section \<open>Operations\<close>

definition STEP_TABLE :: "int list" where
  "STEP_TABLE =
    [7, 8, 9, 10, 11, 12, 13, 14, 16, 17, 19, 21, 23, 25, 28, 31, 34, 37, 41, 45,
     50, 55, 60, 66, 73, 80, 88, 97, 107, 118, 130, 143, 157, 173, 190, 209, 230,
     253, 279, 307, 337, 371, 408, 449, 494, 544, 598, 658, 724, 796, 876, 963,
     1060, 1166, 1282, 1411, 1552, 1707, 1878, 2066, 2272, 2499, 2749, 3024, 3327,
     3660, 4026, 4428, 4871, 5358, 5894, 6484, 7132, 7845, 8630, 9493, 10442,
     11487, 12635, 13899, 15289, 16818, 18500, 20350, 22385, 24623, 27086, 29794,
     32767]"

definition INDEX_TABLE :: "int list" where
  "INDEX_TABLE = [-1, -1, -1, -1, 2, 4, 6, 8, -1, -1, -1, -1, 2, 4, 6, 8]"

definition clamp_index :: "int \<Rightarrow> int" where
  "clamp_index i = clamp i 0 88"

definition clamp_sample :: "int \<Rightarrow> int" where
  "clamp_sample s = clamp s (-32768) 32767"

text \<open>The state of \<open>AdpcmEncoder\<close> and of \<open>AdpcmDecoder\<close>.\<close>

record adpcm =
  predictor :: int
  step_index :: int

definition adpcm_new :: adpcm where
  "adpcm_new = \<lparr>predictor = 0, step_index = 0\<rparr>"

definition table_get :: "int list \<Rightarrow> int \<Rightarrow> int option" where
  "table_get xs i = (if 0 \<le> i \<and> i < int (length xs) then Some (xs ! nat i) else None)"

text \<open>The three comparisons of \<open>encode_sample\<close>: the magnitude bits and the difference they code.\<close>

definition quantise :: "int \<Rightarrow> int \<Rightarrow> nat \<times> int" where
  "quantise step diff =
     (let s = step;
          b4 = s \<le> diff;
          diff = (if b4 then diff - s else diff);
          s2 = s div 2;
          b2 = s2 \<le> diff;
          diff = (if b2 then diff - s2 else diff);
          s1 = s2 div 2;
          b1 = s1 \<le> diff
      in ((if b4 then 4 else 0) + (if b2 then 2 else 0) + (if b1 then 1 else 0),
          step div 8 + (if b4 then s else 0) + (if b2 then s2 else 0) + (if b1 then s1 else 0)))"

definition encode_sample :: "adpcm \<Rightarrow> int \<Rightarrow> (nat \<times> adpcm) option" where
  "encode_sample e sample =
     do {
       step \<leftarrow> table_get STEP_TABLE (step_index e);
       let diff = sample - predictor e;
       let neg = diff < 0;
       let (delta, vpdiff) = quantise step \<bar>diff\<bar>;
       let p = clamp_sample (if neg then predictor e - vpdiff else predictor e + vpdiff);
       let code = (if neg then delta + 8 else delta);
       adj \<leftarrow> table_get INDEX_TABLE (int code);
       Some (code, \<lparr>predictor = p, step_index = clamp_index (step_index e + adj)\<rparr>)
     }"

definition decode_code :: "adpcm \<Rightarrow> nat \<Rightarrow> (int \<times> adpcm) option" where
  "decode_code d code =
     do {
       step \<leftarrow> table_get STEP_TABLE (step_index d);
       let vpdiff = step div 8;
       let vpdiff = (if bit code 2 then vpdiff + step else vpdiff);
       let vpdiff = (if bit code 1 then vpdiff + step div 2 else vpdiff);
       let vpdiff = (if bit code 0 then vpdiff + step div 4 else vpdiff);
       let p = clamp_sample (if bit code 3 then predictor d - vpdiff else predictor d + vpdiff);
       adj \<leftarrow> table_get INDEX_TABLE (int code);
       Some (p, \<lparr>predictor = p, step_index = clamp_index (step_index d + adj)\<rparr>)
     }"

text \<open>The loop of \<open>encode\<close>: two codes per byte, the first in the low nibble.\<close>

fun adpcm_encode_loop :: "adpcm \<Rightarrow> nat option \<Rightarrow> int list \<Rightarrow> (bytes \<times> adpcm) option" where
  "adpcm_encode_loop e pending [] =
     Some (case pending of None \<Rightarrow> [] | Some low \<Rightarrow> [of_nat low], e)"
| "adpcm_encode_loop e pending (sample # pcm) =
     do {
       (code, e') \<leftarrow> encode_sample e sample;
       (case pending of
          None \<Rightarrow> adpcm_encode_loop e' (Some code) pcm
        | Some low \<Rightarrow>
            do {
              (out, e'') \<leftarrow> adpcm_encode_loop e' None pcm;
              Some (of_nat (low + 16 * code) # out, e'')
            })
     }"

definition adpcm_encode :: "adpcm \<Rightarrow> int list \<Rightarrow> (bytes \<times> adpcm) option" where
  "adpcm_encode e pcm = adpcm_encode_loop e None pcm"

text \<open>
  The loop of \<open>decode\<close>; \<open>k\<close> is the number of samples still wanted, so \<open>out.len() < sample_count\<close>
  is \<open>k > 0\<close>.
\<close>

fun adpcm_decode :: "adpcm \<Rightarrow> bytes \<Rightarrow> nat \<Rightarrow> (int list \<times> adpcm) option" where
  "adpcm_decode d [] k = Some ([], d)"
| "adpcm_decode d (b # bs) k =
     (case k of
        0 \<Rightarrow> adpcm_decode d bs 0
      | Suc 0 \<Rightarrow>
          do {
            (s, d') \<leftarrow> decode_code d (unat b mod 16);
            (out, d'') \<leftarrow> adpcm_decode d' bs 0;
            Some (s # out, d'')
          }
      | Suc (Suc k') \<Rightarrow>
          do {
            (s1, d1) \<leftarrow> decode_code d (unat b mod 16);
            (s2, d2) \<leftarrow> decode_code d1 (unat b div 16);
            (out, d3) \<leftarrow> adpcm_decode d2 bs k';
            Some (s1 # s2 # out, d3)
          })"

section \<open>Bounds\<close>

definition adpcm_ok :: "adpcm \<Rightarrow> bool" where
  "adpcm_ok a \<longleftrightarrow>
     -32768 \<le> predictor a \<and> predictor a \<le> 32767 \<and> 0 \<le> step_index a \<and> step_index a \<le> 88"

lemma length_tables [simp]: "length STEP_TABLE = 89" "length INDEX_TABLE = 16"
  by (simp_all add: STEP_TABLE_def INDEX_TABLE_def)

lemma clamp_sample_bounds: "-32768 \<le> clamp_sample s" "clamp_sample s \<le> 32767"
  by (simp_all add: clamp_sample_def clamp_def)

lemma clamp_index_bounds: "0 \<le> clamp_index i" "clamp_index i \<le> 88"
  by (simp_all add: clamp_index_def clamp_def)

lemma adpcm_new_ok [simp]: "adpcm_ok adpcm_new"
  by (simp add: adpcm_ok_def adpcm_new_def)

lemma step_get:
  "0 \<le> i \<Longrightarrow> i \<le> 88 \<Longrightarrow> \<exists>step. table_get STEP_TABLE i = Some step \<and> 7 \<le> step \<and> step \<le> 32767"
proof -
  assume i: "0 \<le> i" "i \<le> 88"
  have "list_all (\<lambda>s. 7 \<le> s \<and> s \<le> 32767) STEP_TABLE" by (simp add: STEP_TABLE_def)
  then have "7 \<le> STEP_TABLE ! nat i \<and> STEP_TABLE ! nat i \<le> 32767"
    using i by (simp add: list_all_length)
  with i show ?thesis by (simp add: table_get_def)
qed

lemma index_get: "code < 16 \<Longrightarrow> \<exists>adj. table_get INDEX_TABLE (int code) = Some adj"
  by (simp add: table_get_def)

lemma quantise_code: "fst (quantise step diff) < 8"
  by (simp add: quantise_def Let_def)

text \<open>The decoder rebuilds the difference from the code bits.\<close>

lemma quantise_decodes:
  "snd (quantise step diff) =
     step div 8 + (if bit (fst (quantise step diff)) 2 then step else 0) +
     (if bit (fst (quantise step diff)) 1 then step div 2 else 0) +
     (if bit (fst (quantise step diff)) 0 then step div 4 else 0)"
proof -
  define a d1 where "a \<longleftrightarrow> step \<le> diff" and "d1 = (if a then diff - step else diff)"
  define b d2 where "b \<longleftrightarrow> step div 2 \<le> d1" and "d2 = (if b then d1 - step div 2 else d1)"
  define c where "c \<longleftrightarrow> step div 2 div 2 \<le> d2"
  have s: "step div 2 div 2 = step div 4" by (simp flip: zdiv_zmult2_eq)
  have q: "quantise step diff =
      ((if a then 4 else 0) + (if b then 2 else 0) + (if c then 1 else 0),
       step div 8 + (if a then step else 0) + (if b then step div 2 else 0) +
         (if c then step div 2 div 2 else 0))"
    unfolding quantise_def Let_def a_def b_def c_def d1_def d2_def by (rule refl)
  show ?thesis unfolding q s by (cases a; cases b; cases c) (simp_all add: bit_iff_odd)
qed

lemma bit_code:
  assumes "delta < (8 :: nat)"
  shows "bit (delta + 8) 2 = bit delta 2" "bit (delta + 8) (Suc 0) = bit delta (Suc 0)"
    "bit (delta + 8) 0 = bit delta 0" "bit (delta + 8) 3" "\<not> bit delta 3"
proof -
  have "delta \<in> {0, 1, 2, 3, 4, 5, 6, 7}" using assms by auto
  then show "bit (delta + 8) 2 = bit delta 2" "bit (delta + 8) (Suc 0) = bit delta (Suc 0)"
    "bit (delta + 8) 0 = bit delta 0" "bit (delta + 8) 3" "\<not> bit delta 3"
    by (auto simp: bit_iff_odd)
qed

text \<open>One sample: the decoder reaches the state of the encoder and outputs its predictor.\<close>

lemma encode_decode_sample:
  assumes "adpcm_ok e"
  shows "\<exists>code e'. encode_sample e sample = Some (code, e') \<and> code < 16 \<and> adpcm_ok e' \<and>
    decode_code e code = Some (predictor e', e')"
proof -
  obtain step where step: "table_get STEP_TABLE (step_index e) = Some step"
    using step_get assms by (auto simp: adpcm_ok_def)
  obtain delta vpdiff where q: "quantise step \<bar>sample - predictor e\<bar> = (delta, vpdiff)"
    by (metis prod.exhaust)
  have delta: "delta < 8" using quantise_code [of step "\<bar>sample - predictor e\<bar>"] q by simp
  have vp: "vpdiff = step div 8 + (if bit delta 2 then step else 0) +
      (if bit delta 1 then step div 2 else 0) + (if bit delta 0 then step div 4 else 0)"
    using quantise_decodes [of step "\<bar>sample - predictor e\<bar>"] q by simp
  define code where "code = (if sample - predictor e < 0 then delta + 8 else delta)"
  have code: "code < 16" using delta by (simp add: code_def)
  obtain adj where adj: "table_get INDEX_TABLE (int code) = Some adj" using index_get [OF code] by blast
  have bits: "bit code 2 = bit delta 2" "bit code (Suc 0) = bit delta (Suc 0)" "bit code 0 = bit delta 0"
    "bit code 3 \<longleftrightarrow> sample - predictor e < 0"
    using bit_code [OF delta] by (auto simp: code_def)
  let ?p = "clamp_sample (if sample - predictor e < 0 then predictor e - vpdiff else predictor e + vpdiff)"
  let ?e = "\<lparr>predictor = ?p, step_index = clamp_index (step_index e + adj)\<rparr>"
  have "encode_sample e sample = Some (code, ?e)"
    using step q adj unfolding code_def
    by (cases "sample - predictor e < 0") (simp_all add: encode_sample_def Let_def)
  moreover have "decode_code e code = Some (?p, ?e)"
    using step adj by (simp add: decode_code_def Let_def bits vp add_ac)
  moreover have "adpcm_ok ?e" by (simp add: adpcm_ok_def clamp_sample_bounds clamp_index_bounds)
  ultimately show ?thesis using code by fastforce
qed

section \<open>Frames\<close>

text \<open>The states the encoder goes through, one after each sample.\<close>

fun adpcm_track :: "adpcm \<Rightarrow> int list \<Rightarrow> adpcm list" where
  "adpcm_track e [] = []"
| "adpcm_track e (s # pcm) =
     (case encode_sample e s of
        None \<Rightarrow> []
      | Some (code, e') \<Rightarrow> e' # adpcm_track e' pcm)"

lemma nibbles:
  assumes "lo < 16" "hi < 16"
  shows "unat (of_nat (lo + 16 * hi) :: u8) mod 16 = lo" "unat (of_nat (lo + 16 * hi) :: u8) div 16 = hi"
proof -
  have "unat (of_nat (lo + 16 * hi) :: u8) = lo + 16 * hi"
    using assms by (simp add: unsigned_of_nat take_bit_nat_eq_self del: of_nat_add of_nat_mult)
  with assms show "unat (of_nat (lo + 16 * hi) :: u8) mod 16 = lo"
    "unat (of_nat (lo + 16 * hi) :: u8) div 16 = hi" by simp_all
qed

lemma adpcm_frame:
  assumes "adpcm_ok e"
  shows "\<exists>bs e'. adpcm_encode e pcm = Some (bs, e') \<and> adpcm_ok e' \<and>
    length bs = (length pcm + 1) div 2 \<and> length (adpcm_track e pcm) = length pcm \<and>
    e' = last (e # adpcm_track e pcm) \<and>
    adpcm_decode e bs (length pcm) = Some (map predictor (adpcm_track e pcm), e')"
  unfolding adpcm_encode_def using assms
proof (induction pcm arbitrary: e rule: induct_list012)
  case 1
  then show ?case by simp
next
  case (2 s)
  obtain code e' where s: "encode_sample e s = Some (code, e')" "code < 16" "adpcm_ok e'"
    "decode_code e code = Some (predictor e', e')"
    using encode_decode_sample [OF 2] by blast
  have "unat (of_nat code :: u8) mod 16 = code" using nibbles(1) [OF s(2), of 0] by simp
  with s show ?case by simp
next
  case (3 s1 s2 pcm)
  obtain c1 e1 where s1: "encode_sample e s1 = Some (c1, e1)" "c1 < 16" "adpcm_ok e1"
    "decode_code e c1 = Some (predictor e1, e1)"
    using encode_decode_sample [OF 3(3)] by blast
  obtain c2 e2 where s2: "encode_sample e1 s2 = Some (c2, e2)" "c2 < 16" "adpcm_ok e2"
    "decode_code e1 c2 = Some (predictor e2, e2)"
    using encode_decode_sample [OF s1(3)] by blast
  obtain bs e' where IH: "adpcm_encode_loop e2 None pcm = Some (bs, e')" "adpcm_ok e'"
    "length bs = (length pcm + 1) div 2" "length (adpcm_track e2 pcm) = length pcm"
    "e' = last (e2 # adpcm_track e2 pcm)"
    "adpcm_decode e2 bs (length pcm) = Some (map predictor (adpcm_track e2 pcm), e')"
    using 3(1) [OF s2(3)] by blast
  show ?case using s1 s2 IH nibbles [OF s1(2) s2(2)] by (simp del: of_nat_add of_nat_mult last.simps)
      (simp add: last_ConsR)
qed

section \<open>Quantisation error\<close>

lemma quantise_error:
  assumes "0 \<le> diff" "diff < 2 * step" "0 \<le> step"
  shows "\<bar>diff - snd (quantise step diff)\<bar> \<le> step div 8 + 2"
proof -
  define d1 where "d1 = (if step \<le> diff then diff - step else diff)"
  define d2 where "d2 = (if step div 2 \<le> d1 then d1 - step div 2 else d1)"
  define d3 where "d3 = (if step div 2 div 2 \<le> d2 then d2 - step div 2 div 2 else d2)"
  have 1: "0 \<le> d1" "d1 < step" using assms by (auto simp: d1_def)
  have half: "step \<le> 2 * (step div 2) + 1" by linarith
  have 2: "0 \<le> d2" "d2 \<le> step div 2" using 1 half by (auto simp: d2_def)
  have "step div 2 \<le> 2 * (step div 2 div 2) + 1" by linarith
  then have 3: "0 \<le> d3" "d3 \<le> step div 2 div 2 + 1" using 2 by (auto simp: d3_def)
  have "step div 2 div 2 = step div 4" "step div 4 div 2 = step div 8" by (simp_all flip: zdiv_zmult2_eq)
  then have q: "step div 2 div 2 \<le> 2 * (step div 8) + 1" "0 \<le> step div 8" using assms(3) by linarith+
  have "diff - snd (quantise step diff) = d3 - step div 8"
    by (simp add: quantise_def Let_def d1_def d2_def d3_def)
  then show ?thesis using 3 q by linarith
qed

lemma encode_sample_error:
  assumes "encode_sample e sample = Some (code, e')" "table_get STEP_TABLE (step_index e) = Some step"
    and "-32768 \<le> sample" "sample \<le> 32767" "\<bar>sample - predictor e\<bar> < 2 * step" "0 \<le> step"
  shows "\<bar>sample - predictor e'\<bar> \<le> step div 8 + 2"
proof -
  let ?d = "\<bar>sample - predictor e\<bar>" and ?v = "snd (quantise step \<bar>sample - predictor e\<bar>)"
  have "predictor e' = clamp_sample (if sample - predictor e < 0 then predictor e - ?v else predictor e + ?v)"
    using assms(1,2) by (auto simp: encode_sample_def Let_def bind_eq_Some_conv split: prod.splits)
  moreover have "\<bar>sample - clamp_sample x\<bar> \<le> \<bar>sample - x\<bar>" for x
    using assms(3,4) by (auto simp: clamp_sample_def clamp_def min_def max_def)
  ultimately have "\<bar>sample - predictor e'\<bar> \<le>
      \<bar>sample - (if sample - predictor e < 0 then predictor e - ?v else predictor e + ?v)\<bar>" by metis
  also have "\<dots> = \<bar>?d - ?v\<bar>" by auto
  finally show ?thesis using quantise_error [of ?d step] assms(5,6) by simp
qed

lemma adpcm_track_error:
  assumes "adpcm_ok e" "i < length pcm" "\<forall>s\<in>set pcm. -32768 \<le> s \<and> s \<le> 32767"
    and "table_get STEP_TABLE (step_index ((e # adpcm_track e pcm) ! i)) = Some step"
    and "\<bar>pcm ! i - predictor ((e # adpcm_track e pcm) ! i)\<bar> < 2 * step"
  shows "\<bar>pcm ! i - predictor (adpcm_track e pcm ! i)\<bar> \<le> step div 8 + 2"
  using assms
proof (induction pcm arbitrary: e i)
  case (Cons s pcm)
  obtain code e' where s: "encode_sample e s = Some (code, e')" "adpcm_ok e'"
    using encode_decode_sample [OF Cons.prems(1)] by blast
  show ?case
  proof (cases i)
    case 0
    then have "0 \<le> step" using Cons.prems(5) by simp
    with 0 Cons.prems s show ?thesis using encode_sample_error [OF s(1), of step] by simp
  next
    case (Suc j)
    have "\<bar>pcm ! j - predictor (adpcm_track e' pcm ! j)\<bar> \<le> step div 8 + 2"
      by (rule Cons.IH [OF s(2)]) (use Cons.prems Suc s in auto)
    with Suc s show ?thesis by simp
  qed
qed simp

text \<open>
  The voice codec never panics, its decoder follows its encoder, and the error is bounded.
  From any state with a valid predictor and step index, every frame of samples is encoded in
  half as many bytes, rounded up; the decoder, started in the same state, outputs exactly the
  encoder's predictions and ends in the encoder's state. A sample of 16 bits that is less than
  two steps from the prediction is reproduced up to an eighth of the step plus 2.
\<close>

lemma adpcm_decoder_follows:
  assumes "adpcm_ok e"
  shows "\<exists>bs e' out. adpcm_encode e pcm = Some (bs, e') \<and> adpcm_ok e' \<and>
    length bs = (length pcm + 1) div 2 \<and>
    adpcm_decode e bs (length pcm) = Some (out, e') \<and> out = map predictor (adpcm_track e pcm) \<and>
    length out = length pcm \<and>
    (\<forall>i step. i < length pcm \<longrightarrow> (\<forall>s\<in>set pcm. -32768 \<le> s \<and> s \<le> 32767) \<longrightarrow>
       table_get STEP_TABLE (step_index ((e # adpcm_track e pcm) ! i)) = Some step \<longrightarrow>
       \<bar>pcm ! i - predictor ((e # adpcm_track e pcm) ! i)\<bar> < 2 * step \<longrightarrow>
       \<bar>pcm ! i - out ! i\<bar> \<le> step div 8 + 2)"
proof -
  obtain bs e' where f: "adpcm_encode e pcm = Some (bs, e')" "adpcm_ok e'"
    "length bs = (length pcm + 1) div 2" "length (adpcm_track e pcm) = length pcm"
    "adpcm_decode e bs (length pcm) = Some (map predictor (adpcm_track e pcm), e')"
    using adpcm_frame [OF assms] by blast
  with adpcm_track_error [OF assms] show ?thesis
    by (intro exI [of _ bs] exI [of _ e'] exI [of _ "map predictor (adpcm_track e pcm)"]) auto
qed

end
