(* ===== verification/Voice.thy ===== *)
theory Voice
  imports Adpcm Codec Complex_Main
begin

text \<open>
  The voice path: discontinuous transmission in \<open>core/platform/src/dtx.rs\<close> and the voice frames,
  sender and receiver in \<open>core/lowbandd/src/voice.rs\<close>, in the build with the ADPCM codec. The
  root mean square level of a frame is computed in double precision with a square root; it is
  the parameter \<open>rms\<close>, a function of the samples.

  The lemmas give the transmit decision of every frame from the history of the voice detector
  and show that sender and receiver stay in step over any call.
\<close>

section \<open>Discontinuous transmission\<close>

definition DTX_SID_INTERVAL_FRAMES :: nat where "DTX_SID_INTERVAL_FRAMES = 20"
definition DTX_SID_BYTES :: nat where "DTX_SID_BYTES = 5"
definition DTX_SILENCE_BPS :: nat where
  "DTX_SILENCE_BPS = DTX_SID_BYTES * 8 * 1000 div (DTX_SID_INTERVAL_FRAMES * 20)"
definition DTX_HANGOVER_FRAMES :: nat where "DTX_HANGOVER_FRAMES = 8"

datatype dtx_state = DtxStateVoice | DtxStateSilence

datatype dtx_action = DtxVoice | DtxSid | DtxSuppress

record dtx_encoder =
  de_state :: dtx_state
  hangover_remaining :: nat
  silence_frames :: nat

definition dtx_new :: dtx_encoder where
  "dtx_new = \<lparr>de_state = DtxStateVoice, hangover_remaining = DTX_HANGOVER_FRAMES, silence_frames = 0\<rparr>"

definition observe_vad :: "dtx_encoder \<Rightarrow> bool \<Rightarrow> dtx_action \<times> dtx_encoder" where
  "observe_vad d voice_active =
     (if voice_active then
        (DtxVoice, d\<lparr>de_state := DtxStateVoice, hangover_remaining := DTX_HANGOVER_FRAMES,
           silence_frames := 0\<rparr>)
      else if hangover_remaining d > 0 then
        (DtxVoice, d\<lparr>hangover_remaining := hangover_remaining d - 1\<rparr>)
      else
        (let idx = silence_frames d;
             d' = d\<lparr>de_state := DtxStateSilence, silence_frames := silence_frames d + 1\<rparr>
         in (if idx mod DTX_SID_INTERVAL_FRAMES = 0 then DtxSid else DtxSuppress, d')))"

definition is_silence :: "dtx_encoder \<Rightarrow> bool" where
  "is_silence d \<longleftrightarrow> de_state d = DtxStateSilence"

definition effective_audio_bps :: "dtx_encoder \<Rightarrow> nat \<Rightarrow> nat" where
  "effective_audio_bps d voice_bps =
     (case de_state d of DtxStateVoice \<Rightarrow> voice_bps | DtxStateSilence \<Rightarrow> DTX_SILENCE_BPS)"

definition savings_bps :: "dtx_encoder \<Rightarrow> nat \<Rightarrow> nat" where
  "savings_bps d voice_bps = voice_bps - effective_audio_bps d voice_bps"

record dtx_receiver =
  dr_state :: dtx_state

definition dtx_receiver_new :: dtx_receiver where
  "dtx_receiver_new = \<lparr>dr_state = DtxStateVoice\<rparr>"

definition observe_packet :: "dtx_receiver \<Rightarrow> bool \<Rightarrow> dtx_receiver" where
  "observe_packet r is_sid = r\<lparr>dr_state := (if is_sid then DtxStateSilence else DtxStateVoice)\<rparr>"

definition tick_no_packet :: "dtx_receiver \<Rightarrow> bool" where
  "tick_no_packet r \<longleftrightarrow> dr_state r = DtxStateSilence"

section \<open>Voice frames\<close>

definition FRAME_SAMPLES :: nat where "FRAME_SAMPLES = 160"
definition KIND_VOICE :: u8 where "KIND_VOICE = 0x30"
definition KIND_SID :: u8 where "KIND_SID = 0x31"
definition VAD_RMS_THRESHOLD :: rat where "VAD_RMS_THRESHOLD = 350"

datatype voice_frame =
    VoiceData u16 bytes \<comment> \<open>samples, data\<close>
  | VoiceSid u16 \<comment> \<open>noise floor\<close>

fun voice_encode :: "voice_frame \<Rightarrow> bytes" where
  "voice_encode (VoiceData samples data) = KIND_VOICE # to_le_bytes 2 samples @ data"
| "voice_encode (VoiceSid level) = KIND_SID # to_le_bytes 2 level"

definition voice_decode_frame :: "bytes \<Rightarrow> voice_frame option" where
  "voice_decode_frame buf =
     (case buf of
        [] \<Rightarrow> None
      | kind # rest \<Rightarrow>
          if kind = KIND_VOICE then
            (case split_at_checked () 2 rest of
               Inl _ \<Rightarrow> None
             | Inr (n, data) \<Rightarrow> Some (VoiceData (from_le_bytes n) data))
          else if kind = KIND_SID then
            (case split_at_checked () 2 rest of
               Inl _ \<Rightarrow> None
             | Inr (n, _) \<Rightarrow> Some (VoiceSid (from_le_bytes n)))
          else None)"

datatype send_outcome = SentVoice | SentSid | SentSuppressed

record voice_sender =
  vs_dtx :: dtx_encoder
  vs_codec :: adpcm

definition voice_sender_new :: voice_sender where
  "voice_sender_new = \<lparr>vs_dtx = dtx_new, vs_codec = adpcm_new\<rparr>"

definition vad_active :: "(int list \<Rightarrow> rat) \<Rightarrow> int list \<Rightarrow> bool" where
  "vad_active rms pcm \<longleftrightarrow> VAD_RMS_THRESHOLD \<le> rms pcm"

definition voice_process ::
  "(int list \<Rightarrow> rat) \<Rightarrow> voice_sender \<Rightarrow> int list \<Rightarrow>
     ((send_outcome \<times> bytes option) \<times> voice_sender) option" where
  "voice_process rms s pcm =
     (let level = rms pcm;
          (action, dtx) = observe_vad (vs_dtx s) (vad_active rms pcm);
          s = s\<lparr>vs_dtx := dtx\<rparr>
      in case action of
           DtxVoice \<Rightarrow>
             do {
               (data, codec) \<leftarrow> adpcm_encode (vs_codec s) pcm;
               Some ((SentVoice, Some (voice_encode (VoiceData (of_nat (length pcm)) data))),
                 s\<lparr>vs_codec := codec\<rparr>)
             }
         | DtxSid \<Rightarrow>
             Some ((SentSid, Some (voice_encode (VoiceSid (of_nat (nat \<lfloor>min level 65535\<rfloor>))))), s)
         | DtxSuppress \<Rightarrow> Some ((SentSuppressed, None), s))"

definition voice_send_frame ::
  "('s \<Rightarrow> bytes \<Rightarrow> ('se + unit) \<times> 's) \<Rightarrow> (int list \<Rightarrow> rat) \<Rightarrow> voice_sender \<Rightarrow> 's \<Rightarrow> int list \<Rightarrow>
     (('se + send_outcome) \<times> voice_sender \<times> 's) option" where
  "voice_send_frame send rms s session pcm =
     do {
       ((outcome, bytes), s') \<leftarrow> voice_process rms s pcm;
       (case bytes of
          None \<Rightarrow> Some (Inr outcome, s', session)
        | Some b \<Rightarrow>
            (case send session b of
               (Inl err, session') \<Rightarrow> Some (Inl err, s', session')
             | (Inr _, session') \<Rightarrow> Some (Inr outcome, s', session')))
     }"

record voice_receiver =
  vr_codec :: adpcm
  vr_comfort_rms :: u16

definition voice_receiver_new :: voice_receiver where
  "voice_receiver_new = \<lparr>vr_codec = adpcm_new, vr_comfort_rms = 0\<rparr>"

fun voice_receive :: "voice_receiver \<Rightarrow> voice_frame \<Rightarrow> (int list \<times> voice_receiver) option" where
  "voice_receive r (VoiceData samples data) =
     do {
       (pcm, codec) \<leftarrow> adpcm_decode (vr_codec r) data (unat samples);
       Some (pcm, r\<lparr>vr_codec := codec\<rparr>)
     }"
| "voice_receive r (VoiceSid level) = Some (replicate FRAME_SAMPLES 0, r\<lparr>vr_comfort_rms := level\<rparr>)"

section \<open>The transmit decision\<close>

lemmas dtx_consts = DTX_SID_INTERVAL_FRAMES_def DTX_SID_BYTES_def DTX_SILENCE_BPS_def DTX_HANGOVER_FRAMES_def

text \<open>The number of silent frames at the end of a history of the voice detector.\<close>

definition silent_run :: "bool list \<Rightarrow> nat" where
  "silent_run h = length (takeWhile Not (rev h))"

lemma silent_run_simps [simp]:
  "silent_run [] = 0" "silent_run (h @ [True]) = 0" "silent_run (h @ [False]) = Suc (silent_run h)"
  by (simp_all add: silent_run_def)

text \<open>
  The specified action: voice while speaking and for 8 silent frames, then a comfort-noise
  update every 20 frames and nothing in between.
\<close>

definition dtx_expected :: "bool list \<Rightarrow> bool \<Rightarrow> dtx_action" where
  "dtx_expected h v =
     (if v \<or> silent_run h < 8 then DtxVoice
      else if (silent_run h - 8) mod 20 = 0 then DtxSid else DtxSuppress)"

definition dtx_after :: "bool list \<Rightarrow> dtx_encoder" where
  "dtx_after h = foldl (\<lambda>d v. snd (observe_vad d v)) dtx_new h"

lemma dtx_after_history:
  "hangover_remaining (dtx_after h) = 8 - silent_run h \<and>
   silence_frames (dtx_after h) = silent_run h - 8 \<and>
   de_state (dtx_after h) = (if 8 < silent_run h then DtxStateSilence else DtxStateVoice)"
proof (induction h rule: rev_induct)
  case Nil
  then show ?case by (simp add: dtx_after_def dtx_new_def dtx_consts)
next
  case (snoc v h)
  then show ?case
    by (cases v) (auto simp: dtx_after_def observe_vad_def Let_def dtx_consts)
qed

lemma observe_vad_expected: "fst (observe_vad (dtx_after h) v) = dtx_expected h v"
  using dtx_after_history [of h] by (auto simp: observe_vad_def dtx_expected_def Let_def dtx_consts)

lemma dtx_after_snoc: "snd (observe_vad (dtx_after h) v) = dtx_after (h @ [v])"
  by (simp add: dtx_after_def)

section \<open>A call\<close>

lemma voice_decode_encode:
  "voice_decode_frame (voice_encode f) = Some f"
proof (cases f)
  case (VoiceData samples data)
  have "split_at_checked () 2 (to_le_bytes 2 samples @ data) = Inr (to_le_bytes 2 samples, data)"
    by (simp add: split_at_checked_iff)
  then show ?thesis using VoiceData by (simp add: voice_decode_frame_def from_to_le_bytes)
next
  case (VoiceSid level)
  have "split_at_checked () 2 (to_le_bytes 2 level) = Inr (to_le_bytes 2 level, [])"
    by (simp add: split_at_checked_iff)
  then show ?thesis
    using VoiceSid by (simp add: voice_decode_frame_def from_to_le_bytes KIND_SID_def KIND_VOICE_def)
qed

text \<open>
  A call in one direction: each frame goes through the sender, and what it sends through the
  decoder and the receiver. The result lists, per frame, what was sent and what is played.
\<close>

fun voice_call ::
  "(int list \<Rightarrow> rat) \<Rightarrow> voice_sender \<Rightarrow> voice_receiver \<Rightarrow> int list list \<Rightarrow>
     ((send_outcome \<times> int list option) list \<times> voice_sender \<times> voice_receiver) option" where
  "voice_call rms s r [] = Some ([], s, r)"
| "voice_call rms s r (pcm # frames) =
     do {
       ((outcome, datagram), s1) \<leftarrow> voice_process rms s pcm;
       (played, r1) \<leftarrow> (case datagram of
          None \<Rightarrow> Some (None, r)
        | Some buf \<Rightarrow>
            do {
              f \<leftarrow> voice_decode_frame buf;
              (out, r') \<leftarrow> voice_receive r f;
              Some (Some out, r')
            });
       (rest, s2, r2) \<leftarrow> voice_call rms s1 r1 frames;
       Some ((outcome, played) # rest, s2, r2)
     }"

text \<open>The specification of a call, from the history of the voice detector and the encoder state.\<close>

fun voice_spec ::
  "(int list \<Rightarrow> rat) \<Rightarrow> adpcm \<Rightarrow> bool list \<Rightarrow> int list list \<Rightarrow> (send_outcome \<times> int list option) list" where
  "voice_spec rms e h [] = []"
| "voice_spec rms e h (pcm # frames) =
     (let v = vad_active rms pcm in
      case dtx_expected h v of
        DtxVoice \<Rightarrow> (SentVoice, Some (map predictor (adpcm_track e pcm))) #
          voice_spec rms (last (e # adpcm_track e pcm)) (h @ [v]) frames
      | DtxSid \<Rightarrow> (SentSid, Some (replicate FRAME_SAMPLES 0)) # voice_spec rms e (h @ [v]) frames
      | DtxSuppress \<Rightarrow> (SentSuppressed, None) # voice_spec rms e (h @ [v]) frames)"

lemma voice_call_from:
  assumes "\<forall>pcm\<in>set frames. length pcm < 65536" "adpcm_ok (vs_codec s)" "vr_codec r = vs_codec s"
    "vs_dtx s = dtx_after h"
  shows "\<exists>s' r'. voice_call rms s r frames = Some (voice_spec rms (vs_codec s) h frames, s', r') \<and>
    vr_codec r' = vs_codec s' \<and> adpcm_ok (vs_codec s') \<and>
    vs_dtx s' = dtx_after (h @ map (vad_active rms) frames)"
  using assms
proof (induction frames arbitrary: s r h)
  case (Cons pcm frames)
  let ?v = "vad_active rms pcm"
  have dtx: "observe_vad (vs_dtx s) ?v = (dtx_expected h ?v, dtx_after (h @ [?v]))"
    using Cons.prems(4) observe_vad_expected [of h ?v] dtx_after_snoc [of h ?v]
    by (simp add: prod_eq_iff)
  show ?case
  proof (cases "dtx_expected h ?v")
    case DtxVoice
    obtain bs e' where f: "adpcm_encode (vs_codec s) pcm = Some (bs, e')" "adpcm_ok e'"
      "e' = last (vs_codec s # adpcm_track (vs_codec s) pcm)"
      "adpcm_decode (vs_codec s) bs (length pcm) = Some (map predictor (adpcm_track (vs_codec s) pcm), e')"
      using adpcm_frame [OF Cons.prems(2)] by metis
    have n: "unat (of_nat (length pcm) :: u16) = length pcm"
      using Cons.prems(1) by (simp add: unsigned_of_nat take_bit_nat_eq_self)
    let ?s = "s\<lparr>vs_dtx := dtx_after (h @ [?v]), vs_codec := e'\<rparr>" and ?r = "r\<lparr>vr_codec := e'\<rparr>"
    have "\<exists>s' r'. voice_call rms ?s ?r frames =
          Some (voice_spec rms (vs_codec ?s) (h @ [?v]) frames, s', r') \<and>
        vr_codec r' = vs_codec s' \<and> adpcm_ok (vs_codec s') \<and>
        vs_dtx s' = dtx_after ((h @ [?v]) @ map (vad_active rms) frames)"
      by (rule Cons.IH) (use Cons.prems f in simp_all)
    then show ?thesis
      using dtx DtxVoice f n Cons.prems(3)
      by (auto simp: voice_process_def voice_decode_encode Let_def simp del: voice_encode.simps last.simps)
  next
    case DtxSid
    let ?l = "of_nat (nat \<lfloor>min (rms pcm) 65535\<rfloor>) :: u16"
    let ?s = "s\<lparr>vs_dtx := dtx_after (h @ [?v])\<rparr>" and ?r = "r\<lparr>vr_comfort_rms := ?l\<rparr>"
    have "\<exists>s' r'. voice_call rms ?s ?r frames =
          Some (voice_spec rms (vs_codec ?s) (h @ [?v]) frames, s', r') \<and>
        vr_codec r' = vs_codec s' \<and> adpcm_ok (vs_codec s') \<and>
        vs_dtx s' = dtx_after ((h @ [?v]) @ map (vad_active rms) frames)"
      by (rule Cons.IH) (use Cons.prems in simp_all)
    then show ?thesis
      using dtx DtxSid
      by (auto simp: voice_process_def voice_decode_encode Let_def simp del: voice_encode.simps)
  next
    case DtxSuppress
    let ?s = "s\<lparr>vs_dtx := dtx_after (h @ [?v])\<rparr>"
    have "\<exists>s' r'. voice_call rms ?s r frames =
          Some (voice_spec rms (vs_codec ?s) (h @ [?v]) frames, s', r') \<and>
        vr_codec r' = vs_codec s' \<and> adpcm_ok (vs_codec s') \<and>
        vs_dtx s' = dtx_after ((h @ [?v]) @ map (vad_active rms) frames)"
      by (rule Cons.IH) (use Cons.prems in simp_all)
    then show ?thesis using dtx DtxSuppress by (auto simp: voice_process_def Let_def)
  qed
qed simp

text \<open>
  C13: A voice call implements its specification. For every sequence of frames of fewer than
  65536 samples, over a channel that delivers what is sent, no step panics; a frame is sent
  as voice while someone speaks and for the next 8 silent frames, then as a comfort-noise update
  on the first and every 20th further silent frame, and not at all in between; every voice
  frame is played as the encoder predicted it, every update as 160 zero samples; and the two
  codecs are in the same state at the end.
\<close>

theorem voice_call_implements_spec:
  assumes "\<forall>pcm\<in>set frames. length pcm < 65536"
  shows "\<exists>s r. voice_call rms voice_sender_new voice_receiver_new frames =
      Some (voice_spec rms adpcm_new [] frames, s, r) \<and> vr_codec r = vs_codec s"
  using voice_call_from [OF assms, of voice_sender_new voice_receiver_new "[]" rms]
  by (auto simp: voice_sender_new_def voice_receiver_new_def dtx_after_def)

theorem voice_call_implements_spec_witness:
  "\<exists>s r. voice_call (\<lambda>pcm. 0) voice_sender_new voice_receiver_new (replicate 10 [0]) =
      Some (voice_spec (\<lambda>pcm. 0) adpcm_new [] (replicate 10 [0]), s, r) \<and> vr_codec r = vs_codec s"
  by (rule voice_call_implements_spec) simp

end
