(* ===== verification/Inbound.thy ===== *)
theory Inbound
  imports Dataplane Transfer_Run Screen_Run Voice
begin

text \<open>
  The inbound router: \<open>core/lowbandd/src/inbound.rs\<close>. One encrypted session carries messages,
  file transfer, screen and voice; a datagram is routed by its first byte. The lemmas show that
  a datagram touches the state of its own channel only, and under which condition no datagram
  of a peer makes the router panic.
\<close>

section \<open>Operations\<close>

datatype handled =
    HandledMessage delivered
  | HandledFile progress
  | HandledScreen bool \<comment> \<open>complete\<close>
  | HandledVoice nat \<comment> \<open>samples\<close>
  | HandledUnknown u8

record inbound_router =
  ir_clipboard :: clipboard_session
  ir_control :: control_session
  ir_panic :: panic_controller
  ir_panic_rx :: panic_notice_receiver
  ir_files :: file_receiver
  ir_screen :: screen_receiver
  ir_last_screen :: "bytes option"
  ir_voice :: voice_receiver
  ir_last_voice :: "int list option"

definition inbound_new :: "file_receiver \<Rightarrow> inbound_router" where
  "inbound_new files =
     \<lparr>ir_clipboard = clipboard_session_new, ir_control = control_session_new,
      ir_panic = panic_controller_new, ir_panic_rx = panic_receiver_new, ir_files = files,
      ir_screen = screen_receiver_new, ir_last_screen = None, ir_voice = voice_receiver_new,
      ir_last_voice = None\<rparr>"

definition inbound_handle ::
  "bool \<Rightarrow> (bytes \<Rightarrow> chunk_hash) \<Rightarrow> (bytes \<Rightarrow> bytes option) \<Rightarrow> flag_store \<Rightarrow> inbound_router \<Rightarrow> bytes \<Rightarrow>
     ((xfer_error + handled) \<times> inbound_router) option" where
  "inbound_handle overflow_checks hash dct_decode st r buf =
     (case classify buf of
        ChannelMessage \<Rightarrow>
          (case message_decode buf of
             Inr frame \<Rightarrow>
               do {
                 (d, control, panic, panic_rx) \<leftarrow> dispatch overflow_checks st frame (ir_clipboard r)
                   (ir_control r) (ir_panic r) (ir_panic_rx r);
                 Some (Inr (HandledMessage d),
                   r\<lparr>ir_control := control, ir_panic := panic, ir_panic_rx := panic_rx\<rparr>)
               }
           | Inl _ \<Rightarrow> Some (Inr (HandledMessage (DeliveredRejected ''undecodable message'')), r))
      | ChannelFile \<Rightarrow>
          (case xfer_decode buf of
             Inl e \<Rightarrow> Some (Inl e, r)
           | Inr frame \<Rightarrow>
               (let (res, files) = receiver_apply hash (ir_files r) frame;
                    r = r\<lparr>ir_files := files\<rparr>
                in case res of
                     Inl e \<Rightarrow> Some (Inl e, r)
                   | Inr p \<Rightarrow> Some (Inr (HandledFile p), r)))
      | ChannelScreen \<Rightarrow>
          (case screen_decode buf of
             Inl _ \<Rightarrow> Some (Inl XferTruncated, r)
           | Inr frame \<Rightarrow>
               do {
                 (res, screen) \<leftarrow> screen_apply overflow_checks dct_decode (ir_screen r) frame;
                 let r = r\<lparr>ir_screen := screen\<rparr>;
                 (case res of
                    Inl _ \<Rightarrow> Some (Inl XferTruncated, r)
                  | Inr done \<Rightarrow>
                      Some (Inr (HandledScreen (done \<noteq> None)),
                        if done \<noteq> None then r\<lparr>ir_last_screen := done\<rparr> else r))
               })
      | ChannelVoice \<Rightarrow>
          (case voice_decode_frame buf of
             None \<Rightarrow> Some (Inl XferTruncated, r)
           | Some frame \<Rightarrow>
               do {
                 (pcm, voice) \<leftarrow> voice_receive (ir_voice r) frame;
                 Some (Inr (HandledVoice (length pcm)),
                   r\<lparr>ir_voice := voice, ir_last_voice := Some pcm\<rparr>)
               })
      | ChannelUnknown b \<Rightarrow> Some (Inr (HandledUnknown b), r))"

definition recv_and_handle ::
  "('s \<Rightarrow> ('se + bytes) \<times> 's) \<Rightarrow> bool \<Rightarrow> (bytes \<Rightarrow> chunk_hash) \<Rightarrow> (bytes \<Rightarrow> bytes option) \<Rightarrow> flag_store \<Rightarrow>
     inbound_router \<Rightarrow> 's \<Rightarrow> ((xfer_error + handled) \<times> inbound_router \<times> 's) option" where
  "recv_and_handle recv overflow_checks hash dct_decode st r session =
     (case recv session of
        (Inl _, session') \<Rightarrow> Some (Inl XferSession, r, session')
      | (Inr buf, session') \<Rightarrow>
          do {
            (res, r') \<leftarrow> inbound_handle overflow_checks hash dct_decode st r buf;
            Some (res, r', session')
          })"

section \<open>No panic\<close>

text \<open>The lossy tile decoder returns an array of exactly one tile.\<close>

definition dct_ok :: "(bytes \<Rightarrow> bytes option) \<Rightarrow> bool" where
  "dct_ok dct_decode \<longleftrightarrow> (\<forall>d tile. dct_decode d = Some tile \<longrightarrow> length tile = TILE_BYTES)"

text \<open>Either no picture is under way or the framebuffer has the announced size.\<close>

definition screen_ok :: "screen_receiver \<Rightarrow> bool" where
  "screen_ok s \<longleftrightarrow>
     sr_fb s = [] \<or>
     sr_width s * sr_height s * 4 < 2 ^ 32 \<and> length (sr_fb s) = 4 * (sr_width s * sr_height s)"

definition router_ok :: "inbound_router \<Rightarrow> bool" where
  "router_ok r \<longleftrightarrow> screen_ok (ir_screen r) \<and> adpcm_ok (vr_codec (ir_voice r))"

text \<open>The datagram does not announce a picture of \<open>2 ^ 32\<close> bytes or more.\<close>

definition announces_fitting :: "bytes \<Rightarrow> bool" where
  "announces_fitting buf \<longleftrightarrow> (\<forall>w h. screen_decode buf = Inr (ScreenBegin w h) \<longrightarrow> w * h * 4 < 2 ^ 32)"

lemma length_opaque_pixel [simp]: "length (opaque_pixel c) = 4"
  by (cases c) simp

lemma read_indices_length: "read_indices p bpi k r = Inr out \<Longrightarrow> length out = 4 * k"
  by (induction k arbitrary: r out) (auto simp: Let_def split: option.splits sum.splits if_splits)

lemma palette_decode_length: "palette_decode d = Inr tile \<Longrightarrow> length tile = TILE_BYTES"
  by (auto simp: palette_decode_def Let_def palette_consts length_concat sum_list_replicate
      split: sum.splits if_splits) (drule read_indices_length, simp)

lemma decode_tile_length:
  "dct_ok dct_decode \<Longrightarrow> decode_tile dct_decode encoding d = Inr tile \<Longrightarrow> length tile = TILE_BYTES"
  by (auto simp: decode_tile_def dct_ok_def dest: palette_decode_length
      split: if_splits sum.splits option.splits)

lemma screen_decode_tile_bounds:
  "screen_decode buf = Inr (ScreenTile col row encoding d) \<Longrightarrow> col < 65536 \<and> row < 65536"
  using unat_less_exp [where 'a = 16]
  by (auto simp: screen_decode_def screen_decode_begin_def screen_decode_tile_def
      split: list.splits if_splits sum.splits)

lemma decode_code_total:
  assumes "adpcm_ok d" "code < 16"
  shows "\<exists>s d'. decode_code d code = Some (s, d') \<and> adpcm_ok d'"
proof -
  obtain step where "table_get STEP_TABLE (step_index d) = Some step"
    using step_get assms(1) by (auto simp: adpcm_ok_def)
  moreover obtain adj where "table_get INDEX_TABLE (int code) = Some adj"
    using index_get [OF assms(2)] by blast
  ultimately show ?thesis
    by (simp add: decode_code_def Let_def adpcm_ok_def clamp_sample_bounds clamp_index_bounds)
qed

lemma adpcm_decode_total:
  "adpcm_ok d \<Longrightarrow> \<exists>out d'. adpcm_decode d bs k = Some (out, d') \<and> adpcm_ok d'"
proof (induction bs arbitrary: d k)
  case (Cons b bs)
  have n: "unat b mod 16 < 16" "unat b div 16 < 16" using unat_u8_less [of b] by simp_all
  obtain s1 d1 where 1: "decode_code d (unat b mod 16) = Some (s1, d1)" "adpcm_ok d1"
    using decode_code_total [OF Cons.prems n(1)] by blast
  obtain s2 d2 where 2: "decode_code d1 (unat b div 16) = Some (s2, d2)" "adpcm_ok d2"
    using decode_code_total [OF 1(2) n(2)] by blast
  from Cons.IH [OF Cons.prems, of 0] Cons.IH [OF 1(2), of 0] Cons.IH [OF 2(2), of "k - 2"] 1 2
  show ?case by (fastforce split: nat.splits)
qed simp

lemma voice_receive_total:
  "adpcm_ok (vr_codec r) \<Longrightarrow> \<exists>pcm r'. voice_receive r f = Some (pcm, r') \<and> adpcm_ok (vr_codec r')"
proof (cases f)
  case (VoiceData samples d)
  assume "adpcm_ok (vr_codec r)"
  then obtain out c where "adpcm_decode (vr_codec r) d (unat samples) = Some (out, c)" "adpcm_ok c"
    using adpcm_decode_total by blast
  then show ?thesis using VoiceData by simp
qed simp

lemma screen_apply_total:
  assumes "screen_ok s" "dct_ok dct_decode" "screen_decode buf = Inr f" "announces_fitting buf"
  shows "\<exists>res s'. screen_apply oc dct_decode s f = Some (res, s') \<and> screen_ok s'"
proof (cases f)
  case (ScreenBegin w h)
  then have "w * h * 4 < 2 ^ 32" using assms(3,4) unfolding announces_fitting_def by blast
  moreover from this have "w * h < 2 ^ 32" by linarith
  ultimately show ?thesis using ScreenBegin by (simp add: screen_ok_def)
next
  case (ScreenTile col row encoding d)
  then have b: "col < 65536" "row < 65536" using screen_decode_tile_bounds assms(3) by auto
  show ?thesis
  proof (cases "sr_fb s = []")
    case True
    then show ?thesis using ScreenTile assms(1) by simp
  next
    case False
    show ?thesis
    proof (cases "decode_tile dct_decode encoding d")
      case (Inl e)
      then show ?thesis using ScreenTile False assms(1) by simp
    next
      case (Inr tile)
      have "length tile = TILE_BYTES" using decode_tile_length assms(2) Inr by blast
      with blit_pix [of "sr_width s" "sr_height s" s tile col row oc] assms(1) False b
      obtain fb where "blit oc s col row tile = Some (s\<lparr>sr_fb := fb\<rparr>)"
        "length fb = 4 * (sr_width s * sr_height s)"
        by (auto simp: screen_ok_def)
      then show ?thesis using ScreenTile False Inr assms(1) by (simp add: screen_ok_def)
    qed
  qed
next
  case ScreenEnd
  then show ?thesis by (simp add: screen_ok_def)
qed

lemma dispatch_total:
  "\<exists>res. dispatch False st frame clipboard control panic rx = Some res"
  by (auto simp: dispatch_def apply_remote_files_def total_bytes_def sum_u64_unchecked Let_def
      split: message_frame.splits sum.splits option.splits prod.splits)

lemma handle_total:
  assumes "router_ok r" "dct_ok dct_decode" "announces_fitting buf"
  shows "\<exists>res r'. inbound_handle False hash dct_decode st r buf = Some (res, r') \<and> router_ok r'"
proof (cases "classify buf")
  case ChannelMessage
  show ?thesis
  proof (cases "message_decode buf")
    case (Inl e)
    then show ?thesis using ChannelMessage assms(1) by (simp add: inbound_handle_def)
  next
    case (Inr frame)
    obtain d control panic rx where
      "dispatch False st frame (ir_clipboard r) (ir_control r) (ir_panic r) (ir_panic_rx r) =
         Some (d, control, panic, rx)"
      using dispatch_total by (metis prod_cases4)
    then show ?thesis using ChannelMessage Inr assms(1) by (simp add: inbound_handle_def router_ok_def)
  qed
next
  case ChannelFile
  then show ?thesis
    using assms(1)
    by (auto simp: inbound_handle_def router_ok_def Let_def split: sum.splits prod.splits)
next
  case ChannelScreen
  show ?thesis
  proof (cases "screen_decode buf")
    case (Inl e)
    then show ?thesis using ChannelScreen assms(1) by (simp add: inbound_handle_def)
  next
    case (Inr f)
    then obtain res s' where "screen_apply False dct_decode (ir_screen r) f = Some (res, s')" "screen_ok s'"
      using screen_apply_total assms by (metis router_ok_def)
    then show ?thesis
      using ChannelScreen Inr assms(1)
      by (cases res) (simp_all add: inbound_handle_def router_ok_def Let_def)
  qed
next
  case ChannelVoice
  show ?thesis
  proof (cases "voice_decode_frame buf")
    case None
    then show ?thesis using ChannelVoice assms(1) by (simp add: inbound_handle_def)
  next
    case (Some f)
    then obtain pcm v where "voice_receive (ir_voice r) f = Some (pcm, v)" "adpcm_ok (vr_codec v)"
      using voice_receive_total assms(1) by (metis router_ok_def)
    then show ?thesis using ChannelVoice Some assms(1) by (simp add: inbound_handle_def router_ok_def)
  qed
next
  case (ChannelUnknown b)
  then show ?thesis using assms(1) by (simp add: inbound_handle_def)
qed

section \<open>Isolation of the channels\<close>

text \<open>What a datagram may change, by its first byte.\<close>

definition only_own_channel :: "channel \<Rightarrow> inbound_router \<Rightarrow> inbound_router \<Rightarrow> bool" where
  "only_own_channel c r r' \<longleftrightarrow>
     ir_clipboard r' = ir_clipboard r \<and>
     (c \<noteq> ChannelMessage \<longrightarrow> ir_control r' = ir_control r \<and> ir_panic r' = ir_panic r \<and>
        ir_panic_rx r' = ir_panic_rx r) \<and>
     (c \<noteq> ChannelFile \<longrightarrow> ir_files r' = ir_files r) \<and>
     (c \<noteq> ChannelScreen \<longrightarrow> ir_screen r' = ir_screen r \<and> ir_last_screen r' = ir_last_screen r) \<and>
     (c \<noteq> ChannelVoice \<longrightarrow> ir_voice r' = ir_voice r \<and> ir_last_voice r' = ir_last_voice r)"

lemma handle_own_channel:
  assumes "inbound_handle oc hash dct_decode st r buf = Some (res, r')"
  shows "only_own_channel (classify buf) r r'"
proof (cases "classify buf")
  case ChannelScreen
  show ?thesis
  proof (cases "screen_decode buf")
    case (Inl e)
    then show ?thesis using assms ChannelScreen by (simp add: inbound_handle_def only_own_channel_def)
  next
    case (Inr f)
    obtain x s where "screen_apply oc dct_decode (ir_screen r) f = Some (x, s)"
      using assms ChannelScreen Inr by (auto simp: inbound_handle_def bind_eq_Some_conv)
    then show ?thesis
      using assms ChannelScreen Inr
      by (cases x) (auto simp: inbound_handle_def only_own_channel_def Let_def split: if_splits)
  qed
qed (use assms in \<open>auto simp: inbound_handle_def only_own_channel_def Let_def bind_eq_Some_conv
      split: sum.splits option.splits prod.splits\<close>)

lemma handle_control:
  assumes "inbound_handle oc hash dct_decode st r buf = Some (res, r')"
  shows "ir_control r' = ir_control r \<or> cs_grant (ir_control r') = None"
proof (cases "classify buf = ChannelMessage")
  case True
  show ?thesis
  proof (cases "message_decode buf")
    case (Inl e)
    then show ?thesis using assms True by (simp add: inbound_handle_def)
  next
    case (Inr frame)
    obtain d control panic rx where
      "dispatch oc st frame (ir_clipboard r) (ir_control r) (ir_panic r) (ir_panic_rx r) =
         Some (d, control, panic, rx)" "ir_control r' = control"
      using assms True Inr by (auto simp: inbound_handle_def bind_eq_Some_conv)
    with dispatch_control [OF this(1)] show ?thesis by (simp split: if_splits)
  qed
next
  case False
  then show ?thesis using handle_own_channel [OF assms] by (simp add: only_own_channel_def)
qed

fun handle_all ::
  "bool \<Rightarrow> (bytes \<Rightarrow> chunk_hash) \<Rightarrow> (bytes \<Rightarrow> bytes option) \<Rightarrow> flag_store \<Rightarrow> inbound_router \<Rightarrow> bytes list \<Rightarrow>
     ((xfer_error + handled) list \<times> inbound_router) option" where
  "handle_all oc hash dct_decode st r [] = Some ([], r)"
| "handle_all oc hash dct_decode st r (buf # bufs) =
     do {
       (res, r1) \<leftarrow> inbound_handle oc hash dct_decode st r buf;
       (ress, r2) \<leftarrow> handle_all oc hash dct_decode st r1 bufs;
       Some (res # ress, r2)
     }"



end
