(* ===== verification/Audit_Log.thy ===== *)
theory Audit_Log
  imports Codec
begin

text \<open>
  The tamper-evident audit log: \<open>core/messaging/src/audit.rs\<close>. The 256-bit keyed hash is
  SipHash-2-4 on 64-bit words, as in the source. Every entry is signed together with a hash of
  the chain before it.

  The lemmas show what verification guarantees: a list of entries that verifies is the
  beginning of the log, or it contains a valid tag on a message that the log never signed, or
  two chain hashes of the log coincide. They also show what it does not detect.
\<close>

unbundle bit_operations_syntax

section \<open>The keyed hash\<close>

type_synonym sip_state = "u64 \<times> u64 \<times> u64 \<times> u64"

text \<open>\<open>u64::rotate_left\<close> by less than 64 places.\<close>

definition rotate_left :: "nat \<Rightarrow> u64 \<Rightarrow> u64" where
  "rotate_left n w = push_bit n w OR drop_bit (64 - n) w"

definition sip_round :: "sip_state \<Rightarrow> sip_state" where
  "sip_round = (\<lambda>(v0, v1, v2, v3).
     let v0 = v0 + v1; v1 = rotate_left 13 v1; v1 = v1 XOR v0; v0 = rotate_left 32 v0;
         v2 = v2 + v3; v3 = rotate_left 16 v3; v3 = v3 XOR v2;
         v0 = v0 + v3; v3 = rotate_left 21 v3; v3 = v3 XOR v0;
         v2 = v2 + v1; v1 = rotate_left 17 v1; v1 = v1 XOR v2; v2 = rotate_left 32 v2
     in (v0, v1, v2, v3))"

text \<open>Absorbing one word: the body of the block loop, also used for the last word.\<close>

definition sip_absorb :: "u64 \<Rightarrow> sip_state \<Rightarrow> sip_state" where
  "sip_absorb m = (\<lambda>(v0, v1, v2, v3).
     let (v0, v1, v2, v3) = sip_round (sip_round (v0, v1, v2, v3 XOR m))
     in (v0 XOR m, v1, v2, v3))"

text \<open>The loop over full blocks returns the state and the bytes left over.\<close>

function sip_blocks :: "sip_state \<Rightarrow> bytes \<Rightarrow> sip_state \<times> bytes" where
  "sip_blocks v msg =
     (if length msg < 8 then (v, msg)
      else sip_blocks (sip_absorb (from_le_bytes (take 8 msg)) v) (drop 8 msg))"
  by auto

termination
  by (relation "measure (length \<circ> snd)") auto

declare sip_blocks.simps [simp del]

definition siphash24 :: "u64 \<Rightarrow> u64 \<Rightarrow> bytes \<Rightarrow> u64" where
  "siphash24 k0 k1 msg =
     (let v = (k0 XOR 0x736f6d6570736575, k1 XOR 0x646f72616e646f6d,
               k0 XOR 0x6c7967656e657261, k1 XOR 0x7465646279746573);
          (v, rest) = sip_blocks v msg;
          last = foldl (\<lambda>acc i. acc OR push_bit (i * 8) (ucast (rest ! i)))
                   (push_bit 56 (of_nat (length msg))) [0..<length rest];
          (v0, v1, v2, v3) = sip_absorb last v;
          (v0, v1, v2, v3) =
            sip_round (sip_round (sip_round (sip_round (v0, v1, v2 XOR 0xff, v3))))
      in v0 XOR v1 XOR v2 XOR v3)"

definition kh256 :: "bytes \<Rightarrow> bytes \<Rightarrow> bytes" where
  "kh256 key msg =
     (let k0a = from_le_bytes (take 8 key); k0b = from_le_bytes (take 8 (drop 8 key));
          k1a = from_le_bytes (take 8 (drop 16 key)); k1b = from_le_bytes (take 8 (drop 24 key));
          h0 = siphash24 k0a k0b msg; h1 = siphash24 k1a k1b msg;
          h2 = siphash24 (k0a XOR k1b) (k0b XOR k1a) msg;
          h3 = siphash24 (k0a + k1a) (k0b + k1b) msg
      in to_le_bytes 8 h0 @ to_le_bytes 8 h1 @ to_le_bytes 8 h2 @ to_le_bytes 8 h3)"

section \<open>The log\<close>

record audit_entry =
  ae_event_type :: rust_str
  ae_capability :: "rust_str option"
  ae_identity_key :: "bytes option"
  ae_occurred_at_ms :: u64
  ae_signature :: bytes

record audit_log =
  al_key :: bytes
  al_chain_hash :: bytes
  al_entries :: "audit_entry list"

definition audit_new :: "bytes \<Rightarrow> audit_log" where
  "audit_new key = \<lparr>al_key = key, al_chain_hash = replicate 32 0, al_entries = []\<rparr>"

text \<open>The signed bytes, and the tag over them.\<close>

definition entry_message ::
  "bytes \<Rightarrow> rust_str \<Rightarrow> rust_str option \<Rightarrow> bytes option \<Rightarrow> u64 \<Rightarrow> bytes" where
  "entry_message chain_hash event_type capability identity_key occurred_at_ms =
     (let cap = (case capability of None \<Rightarrow> [] | Some c \<Rightarrow> c) in
      chain_hash @ to_le_bytes 4 (of_nat (str_len event_type) :: u32) @ str_as_bytes event_type @
      to_le_bytes 4 (of_nat (str_len cap) :: u32) @ str_as_bytes cap @
      (case identity_key of None \<Rightarrow> [0] | Some k \<Rightarrow> 1 # k) @ to_le_bytes 8 occurred_at_ms)"

definition sign_entry ::
  "bytes \<Rightarrow> bytes \<Rightarrow> rust_str \<Rightarrow> rust_str option \<Rightarrow> bytes option \<Rightarrow> u64 \<Rightarrow> bytes" where
  "sign_entry key chain_hash event_type capability identity_key occurred_at_ms =
     kh256 key (entry_message chain_hash event_type capability identity_key occurred_at_ms)"

definition advance_chain :: "bytes \<Rightarrow> bytes \<Rightarrow> bytes" where
  "advance_chain key sig =
     (let derived = map (\<lambda>(i, b). b XOR (0x5c + of_nat i)) (List.enumerate 0 key)
      in kh256 derived sig)"

definition append_inner ::
  "audit_log \<Rightarrow> rust_str \<Rightarrow> rust_str option \<Rightarrow> bytes option \<Rightarrow> u64 \<Rightarrow> audit_log" where
  "append_inner l event_type capability identity_key occurred_at_ms =
     (let sig = sign_entry (al_key l) (al_chain_hash l) event_type capability identity_key
                  occurred_at_ms
      in l\<lparr>al_chain_hash := advance_chain (al_key l) sig,
           al_entries := al_entries l @
             [\<lparr>ae_event_type = event_type, ae_capability = capability,
               ae_identity_key = identity_key, ae_occurred_at_ms = occurred_at_ms,
               ae_signature = sig\<rparr>]\<rparr>)"

definition audit_append :: "audit_log \<Rightarrow> rust_str \<Rightarrow> rust_str option \<Rightarrow> u64 \<Rightarrow> audit_log" where
  "audit_append l event_type capability occurred_at_ms =
     append_inner l event_type capability None occurred_at_ms"

definition append_with_identity ::
  "audit_log \<Rightarrow> rust_str \<Rightarrow> rust_str option \<Rightarrow> bytes \<Rightarrow> u64 \<Rightarrow> audit_log" where
  "append_with_identity l event_type capability identity_key occurred_at_ms =
     append_inner l event_type capability (Some identity_key) occurred_at_ms"

text \<open>The loop of \<open>verify_entries\<close> from a given chain hash.\<close>

fun verify_from :: "bytes \<Rightarrow> bytes \<Rightarrow> audit_entry list \<Rightarrow> bool" where
  "verify_from key chain_hash [] \<longleftrightarrow> True"
| "verify_from key chain_hash (e # es) \<longleftrightarrow>
     ae_signature e = sign_entry key chain_hash (ae_event_type e) (ae_capability e)
       (ae_identity_key e) (ae_occurred_at_ms e) \<and>
     verify_from key (advance_chain key (ae_signature e)) es"

definition verify_entries :: "audit_entry list \<Rightarrow> bytes \<Rightarrow> bool" where
  "verify_entries entries key = verify_from key (replicate 32 0) entries"

definition audit_verify :: "audit_log \<Rightarrow> bool" where
  "audit_verify l = verify_entries (al_entries l) (al_key l)"

text \<open>
  The hash agrees with the published test vector of SipHash-2-4 (key bytes 0 to 15, message
  bytes 0 to 14).
\<close>

lemmas sip_eval = sip_absorb_def sip_round_def rotate_left_def

lemma siphash24_test_vector:
  "siphash24 0x0706050403020100 0x0f0e0d0c0b0a0908 [0, 1, 2, 3, 4, 5, 6, 7, 8, 9, 10, 11, 12, 13, 14] =
     0xa129ca6149be45e5"
proof -
  have "from_le_bytes [0, 1, 2, 3, 4, 5, 6, 7] = (0x0706050403020100 :: u64)"
    by (simp add: from_le_bytes_def)
  then have blocks: "sip_blocks v [0, 1, 2, 3, 4, 5, 6, 7, 8, 9, 10, 11, 12, 13, 14] =
      (sip_absorb 0x0706050403020100 v, [8, 9, 10, 11, 12, 13, 14])" for v
    by (subst sip_blocks.simps, simp) (subst sip_blocks.simps, simp)
  have block: "sip_absorb 0x0706050403020100
      (0x7469686173716475, 0x6b617f6d656e6665, 0x6b7f62616d677361, 0x7b6b696e727e6c7b) =
      (0x4a017198de0a59e0, 0xd52f6f62a4f59a4, 0x634cb3577b01fd3d, 0xa5224d6f55c7d9c8)"
    by (simp add: sip_eval)
  have absorb: "sip_absorb 0xf0e0d0c0b0a0908
      (0x4a017198de0a59e0, 0xd52f6f62a4f59a4, 0x634cb3577b01fd3d, 0xa5224d6f55c7d9c8) =
      (0x3c85b3ab6f55be51, 0x414fc3fb98efe374, 0xccf13ea527b9f4bd, 0x5293f5da84008f82)"
    by (simp add: sip_eval)
  have finish: "sip_round (sip_round (sip_round (sip_round
      (0x3c85b3ab6f55be51, 0x414fc3fb98efe374, 0xccf13ea527b9f442, 0x5293f5da84008f82)))) =
      (0xf6bcd53893fecff1, 0x54b9964c7ea0d937, 0x1b38329c099bb55a, 0x1814bb89ad7be679)"
    by (simp add: sip_eval)
  have upt: "[0..<7] = [0, 1, 2, 3, 4, 5, 6 :: nat]" by (simp add: upt_conv_Cons)
  show ?thesis by (simp add: siphash24_def blocks upt block absorb finish)
qed

lemma length_kh256 [simp]: "length (kh256 key msg) = 32"
  by (simp add: kh256_def Let_def)

lemma length_advance_chain [simp]: "length (advance_chain key sig) = 32"
  by (simp add: advance_chain_def Let_def)

section \<open>Signed messages and chain hashes\<close>

definition message_of :: "bytes \<Rightarrow> audit_entry \<Rightarrow> bytes" where
  "message_of c e =
     entry_message c (ae_event_type e) (ae_capability e) (ae_identity_key e) (ae_occurred_at_ms e)"

fun messages :: "bytes \<Rightarrow> bytes \<Rightarrow> audit_entry list \<Rightarrow> bytes list" where
  "messages key c [] = []"
| "messages key c (e # es) = message_of c e # messages key (advance_chain key (ae_signature e)) es"

fun chain_hashes :: "bytes \<Rightarrow> bytes \<Rightarrow> audit_entry list \<Rightarrow> bytes list" where
  "chain_hashes key c [] = [c]"
| "chain_hashes key c (e # es) = c # chain_hashes key (advance_chain key (ae_signature e)) es"

text \<open>The type invariant of entries: Unicode strings below 4 GiB, keys of 32 bytes.\<close>

definition entry_ok :: "audit_entry \<Rightarrow> bool" where
  "entry_ok e \<longleftrightarrow>
     valid_str (ae_event_type e) \<and> str_len (ae_event_type e) < 2 ^ 32 \<and>
     (\<forall>c. ae_capability e = Some c \<longrightarrow> valid_str c \<and> str_len c < 2 ^ 32) \<and>
     (\<forall>k. ae_identity_key e = Some k \<longrightarrow> length k = 32)"

definition capability_text :: "audit_entry \<Rightarrow> rust_str" where
  "capability_text e = (case ae_capability e of None \<Rightarrow> [] | Some c \<Rightarrow> c)"

text \<open>Equal in all that is signed: a missing capability counts as an empty one.\<close>

definition same_record :: "audit_entry \<Rightarrow> audit_entry \<Rightarrow> bool" where
  "same_record e g \<longleftrightarrow>
     ae_event_type e = ae_event_type g \<and> capability_text e = capability_text g \<and>
     ae_identity_key e = ae_identity_key g \<and> ae_occurred_at_ms e = ae_occurred_at_ms g \<and>
     ae_signature e = ae_signature g"

lemma length_messages [simp]: "length (messages key c es) = length es"
  by (induction es arbitrary: c) simp_all

lemma length_chain_hashes [simp]: "length (chain_hashes key c es) = Suc (length es)"
  by (induction es arbitrary: c) simp_all

lemma nth_messages:
  "i < length es \<Longrightarrow> messages key c es ! i = message_of (chain_hashes key c es ! i) (es ! i)"
  by (induction es arbitrary: c i) (auto simp: nth_Cons split: nat.splits elim: chain_hashes.elims)

lemma nth_chain_0 [simp]: "chain_hashes key c es ! 0 = c"
  by (cases es) simp_all

lemma nth_chain_Suc:
  "i < length es \<Longrightarrow>
     chain_hashes key c es ! Suc i = advance_chain key (ae_signature (es ! i))"
  by (induction es arbitrary: c i) (auto simp: nth_Cons split: nat.splits)

lemma chain_hash_length: "length c = 32 \<Longrightarrow> h \<in> set (chain_hashes key c es) \<Longrightarrow> length h = 32"
  by (induction es arbitrary: c) (simp, metis chain_hashes.simps(2) length_advance_chain set_ConsD)

lemma verify_from_nth:
  "verify_from key c es \<longleftrightarrow>
     (\<forall>i<length es. ae_signature (es ! i) = kh256 key (messages key c es ! i))"
  by (induction es arbitrary: c)
    (auto simp: All_less_Suc2 sign_entry_def message_of_def)

subsection \<open>The message determines the record\<close>

lemma to_le_bytes_inj:
  assumes "LENGTH('a) = 8 * n" "to_le_bytes n (v :: 'a::len word) = to_le_bytes n w"
  shows "v = w"
  using arg_cong [OF assms(2), of "from_le_bytes :: bytes \<Rightarrow> 'a word"] from_to_le_bytes [OF assms(1)]
  by simp

lemma prefixed_str_inj:
  fixes a b :: rust_str
  assumes "to_le_bytes 4 (of_nat (str_len a) :: u32) @ str_as_bytes a @ r =
      to_le_bytes 4 (of_nat (str_len b) :: u32) @ str_as_bytes b @ r'"
    and "valid_str a" "str_len a < 2 ^ 32" "valid_str b" "str_len b < 2 ^ 32"
  shows "a = b \<and> r = r'"
proof -
  have eq: "to_le_bytes 4 (of_nat (str_len a) :: u32) = to_le_bytes 4 (of_nat (str_len b) :: u32)"
    "str_as_bytes a @ r = str_as_bytes b @ r'"
    using assms(1) by (simp_all add: append_eq_append_conv)
  have "(of_nat (str_len a) :: u32) = of_nat (str_len b)"
    using eq(1) by (rule to_le_bytes_inj [rotated]) simp
  then have "unat (of_nat (str_len a) :: u32) = unat (of_nat (str_len b) :: u32)" by simp
  then have "str_len a = str_len b"
    using assms(3,5) by (simp add: unsigned_of_nat take_bit_nat_eq_self)
  with eq(2) have "str_as_bytes a = str_as_bytes b" "r = r'" by (simp_all add: append_eq_append_conv)
  with assms(2,4) show ?thesis using str_from_utf8_as_bytes by (metis option.inject)
qed

lemma capability_ok:
  "entry_ok e \<Longrightarrow> valid_str (capability_text e) \<and> str_len (capability_text e) < 2 ^ 32"
  by (auto simp: entry_ok_def capability_text_def str_len_def valid_str_def split: option.splits)

lemma message_inj:
  assumes "message_of c e = message_of d g" "length c = 32" "length d = 32" "entry_ok e" "entry_ok g"
  shows "c = d \<and> ae_event_type e = ae_event_type g \<and> capability_text e = capability_text g \<and>
    ae_identity_key e = ae_identity_key g \<and> ae_occurred_at_ms e = ae_occurred_at_ms g"
proof -
  let ?tail = "\<lambda>e. (case ae_identity_key e of None \<Rightarrow> [0] | Some k \<Rightarrow> 1 # k) @
    to_le_bytes 8 (ae_occurred_at_ms e)"
  let ?str = "\<lambda>s. to_le_bytes 4 (of_nat (str_len s) :: u32) @ str_as_bytes s"
  have m: "message_of c e = c @ ?str (ae_event_type e) @ ?str (capability_text e) @ ?tail e" for c e
    by (simp add: message_of_def entry_message_def capability_text_def Let_def)
  have cd: "c = d" and 1: "?str (ae_event_type e) @ ?str (capability_text e) @ ?tail e =
      ?str (ae_event_type g) @ ?str (capability_text g) @ ?tail g"
    using assms(1-3) unfolding m by (simp_all add: append_eq_append_conv)
  have ev: "ae_event_type e = ae_event_type g" and
    2: "?str (capability_text e) @ ?tail e = ?str (capability_text g) @ ?tail g"
    using prefixed_str_inj [OF 1 [unfolded append_assoc]] assms(4,5) unfolding entry_ok_def
    by (simp_all only: append_assoc)
  have cap: "capability_text e = capability_text g" and 3: "?tail e = ?tail g"
    using prefixed_str_inj [OF 2 [unfolded append_assoc]] capability_ok [OF assms(4)]
      capability_ok [OF assms(5)] by (simp_all only:)
  have id: "ae_identity_key e = ae_identity_key g"
    using 3 assms(4,5) by (auto simp: entry_ok_def append_eq_append_conv split: option.splits)
  with 3 have "to_le_bytes 8 (ae_occurred_at_ms e) = to_le_bytes 8 (ae_occurred_at_ms g)" by simp
  then have "ae_occurred_at_ms e = ae_occurred_at_ms g" by (rule to_le_bytes_inj [rotated]) simp
  with cd ev cap id show ?thesis by blast
qed

section \<open>What verification guarantees\<close>

text \<open>
  The genuine entries after \<open>i\<close> steps and a verified continuation from the same chain hash: if
  every message of the continuation was signed and chain hashes never repeat, the continuation
  follows the genuine entries.
\<close>

lemma verified_follows:
  assumes "verify_from key c0 gs" "distinct (chain_hashes key c0 gs)" "length c0 = 32"
    and "\<forall>g\<in>set gs. entry_ok g"
    and "verify_from key (chain_hashes key c0 gs ! i) es" "i \<le> length gs" "\<forall>e\<in>set es. entry_ok e"
    and "set (messages key (chain_hashes key c0 gs ! i) es) \<subseteq> set (messages key c0 gs)"
  shows "length es \<le> length gs - i \<and> list_all2 same_record es (take (length es) (drop i gs))"
  using assms(5-8)
proof (induction es arbitrary: i)
  case (Cons e es)
  let ?ch = "chain_hashes key c0 gs"
  have "message_of (?ch ! i) e \<in> set (messages key c0 gs)" using Cons.prems(4) by simp
  then obtain j where j: "j < length gs" "message_of (?ch ! i) e = message_of (?ch ! j) (gs ! j)"
    by (auto simp: in_set_conv_nth nth_messages)
  have len: "length (?ch ! k) = 32" if "k \<le> length gs" for k
    using that by (intro chain_hash_length [OF assms(3), of _ key gs]) (simp add: less_Suc_eq_le)
  have same: "?ch ! i = ?ch ! j" "ae_event_type e = ae_event_type (gs ! j)"
    "capability_text e = capability_text (gs ! j)" "ae_identity_key e = ae_identity_key (gs ! j)"
    "ae_occurred_at_ms e = ae_occurred_at_ms (gs ! j)"
    using message_inj [OF j(2) len len] j(1) Cons.prems(2,3) assms(4) by auto
  then have ij: "i = j"
    using nth_eq_iff_index_eq [OF assms(2), of i j] j(1) Cons.prems(2) by simp
  have "ae_signature e = kh256 key (message_of (?ch ! i) e)"
    using Cons.prems(1) by (simp add: sign_entry_def message_of_def)
  also have "\<dots> = ae_signature (gs ! i)"
    using assms(1) j ij by (simp add: verify_from_nth nth_messages)
  finally have sig: "ae_signature e = ae_signature (gs ! i)" .
  have nxt: "?ch ! Suc i = advance_chain key (ae_signature e)"
    using nth_chain_Suc j(1) ij sig by simp
  have "length es \<le> length gs - Suc i \<and> list_all2 same_record es (take (length es) (drop (Suc i) gs))"
    by (rule Cons.IH, unfold nxt) (use Cons.prems j(1) ij in auto)
  moreover have "drop i gs = gs ! i # drop (Suc i) gs" using j(1) ij by (simp add: Cons_nth_drop_Suc)
  moreover have "same_record e (gs ! i)" using same ij sig by (simp add: same_record_def)
  ultimately show ?case using j(1) ij by (auto simp: Suc_le_eq)
qed simp

text \<open>The operations on a log, and the logs they lead to.\<close>

datatype audit_op =
    OpAppend rust_str "rust_str option" u64
  | OpAppendIdentity rust_str "rust_str option" bytes u64

fun audit_step :: "audit_log \<Rightarrow> audit_op \<Rightarrow> audit_log" where
  "audit_step l (OpAppend event_type capability t) = audit_append l event_type capability t"
| "audit_step l (OpAppendIdentity event_type capability k t) =
     append_with_identity l event_type capability k t"

fun audit_op_ok :: "audit_op \<Rightarrow> bool" where
  "audit_op_ok (OpAppend event_type capability t) \<longleftrightarrow>
     valid_str event_type \<and> str_len event_type < 2 ^ 32 \<and>
     (\<forall>c. capability = Some c \<longrightarrow> valid_str c \<and> str_len c < 2 ^ 32)"
| "audit_op_ok (OpAppendIdentity event_type capability k t) \<longleftrightarrow>
     valid_str event_type \<and> str_len event_type < 2 ^ 32 \<and>
     (\<forall>c. capability = Some c \<longrightarrow> valid_str c \<and> str_len c < 2 ^ 32) \<and> length k = 32"

definition audit_inv :: "bytes \<Rightarrow> audit_log \<Rightarrow> bool" where
  "audit_inv key l \<longleftrightarrow>
     al_key l = key \<and> verify_from key (replicate 32 0) (al_entries l) \<and>
     al_chain_hash l = last (chain_hashes key (replicate 32 0) (al_entries l)) \<and>
     (\<forall>e\<in>set (al_entries l). entry_ok e)"

lemma chain_hashes_nonempty [simp]: "chain_hashes key c es \<noteq> []"
  by (cases es) simp_all

lemma verify_from_append:
  "verify_from key c (es @ fs) \<longleftrightarrow>
     verify_from key c es \<and> verify_from key (last (chain_hashes key c es)) fs"
  by (induction es arbitrary: c) auto

lemma last_chain_append:
  "last (chain_hashes key c (es @ fs)) =
     last (chain_hashes key (last (chain_hashes key c es)) fs)"
  by (induction es arbitrary: c) auto

lemma audit_inv_step: "audit_inv key l \<Longrightarrow> audit_op_ok op \<Longrightarrow> audit_inv key (audit_step l op)"
  by (cases op)
    (auto simp: audit_inv_def audit_append_def append_with_identity_def append_inner_def Let_def
      verify_from_append last_chain_append entry_ok_def)

lemma audit_inv_run:
  "\<forall>op\<in>set ops. audit_op_ok op \<Longrightarrow> audit_inv key (foldl audit_step (audit_new key) ops)"
  by (induction ops rule: rev_induct) (auto simp: audit_inv_step, simp add: audit_inv_def audit_new_def)

text \<open>
  C11: The audit log is tamper-evident. Let a log be built by any operations, and let any list of
  entries verify under its key. Then the list is the beginning of the log, equal to it in every
  signed field and in the signatures; or it carries a valid tag on a message that the log never
  signed, which is a forgery of the keyed hash; or two chain hashes of the log coincide. In
  particular entries cannot be altered, reordered, repeated or removed from the middle
  otherwise. And every beginning of the log does verify.
\<close>

theorem audit_log_tamper_evident:
  fixes key :: bytes and ops :: "audit_op list"
  defines "zero \<equiv> replicate 32 0 :: bytes"
  defines "log \<equiv> al_entries (foldl audit_step (audit_new key) ops)"
  assumes "\<forall>op\<in>set ops. audit_op_ok op" "\<forall>e\<in>set es. entry_ok e" "verify_entries es key"
  shows "(length es \<le> length log \<and> list_all2 same_record es (take (length es) log) \<or>
      (\<exists>e\<in>set es. \<exists>m\<in>set (messages key zero es).
         ae_signature e = kh256 key m \<and> m \<notin> set (messages key zero log)) \<or>
      (\<exists>i j. i < j \<and> j \<le> length log \<and>
         chain_hashes key zero log ! i = chain_hashes key zero log ! j)) \<and>
    verify_entries (take n log) key"
proof -
  have inv: "verify_from key zero log" "\<forall>g\<in>set log. entry_ok g"
    using audit_inv_run [OF assms(3)] by (simp_all add: audit_inv_def zero_def log_def)
  have es: "verify_from key zero es" using assms(5) by (simp add: verify_entries_def zero_def)
  have "length es \<le> length log \<and> list_all2 same_record es (take (length es) log)"
    if "distinct (chain_hashes key zero log)" "set (messages key zero es) \<subseteq> set (messages key zero log)"
    using verified_follows [OF inv(1) that(1) _ inv(2), of 0 es] es assms(4) that(2)
    by (simp add: zero_def)
  moreover have "\<exists>e\<in>set es. ae_signature e = kh256 key m" if "m \<in> set (messages key zero es)" for m
    using that es by (auto simp: in_set_conv_nth verify_from_nth intro: nth_mem)
  moreover have "\<exists>i j. i < j \<and> j \<le> length log \<and>
      chain_hashes key zero log ! i = chain_hashes key zero log ! j"
    if "\<not> distinct (chain_hashes key zero log)"
    using that by (auto simp: distinct_conv_nth less_Suc_eq_le) (metis linorder_neqE_nat)
  moreover have "verify_entries (take n log) key"
    using inv(1) verify_from_append [of key zero "take n log" "drop n log"]
    by (simp add: verify_entries_def zero_def)
  ultimately show ?thesis by blast
qed

theorem audit_log_tamper_evident_witness:
  "verify_entries (take 1 (al_entries (audit_append (audit_new (replicate 32 7)) [97] None 5)))
     (replicate 32 7)"
  using audit_log_tamper_evident [of "[OpAppend [97] None 5]" "[]" "replicate 32 7" 1]
  by (simp add: verify_entries_def valid_str_def valid_char_def str_len_def char_len_utf8_def)

text \<open>
  Two changes of a log go undetected. Cutting off entries at the end leaves a list that
  verifies, and so does replacing a missing capability by an empty one or an empty one by a
  missing one, since both are signed as the empty string.
\<close>

lemma audit_undetected_changes:
  fixes key :: bytes and ops :: "audit_op list"
  defines "log \<equiv> al_entries (foldl audit_step (audit_new key) ops)"
  assumes "\<forall>op\<in>set ops. audit_op_ok op" "i < length log" "capability_text (log ! i) = []"
  shows "verify_entries (take n log) key \<and>
    verify_entries (log[i := (log ! i)\<lparr>ae_capability := Some []\<rparr>]) key \<and>
    verify_entries (log[i := (log ! i)\<lparr>ae_capability := None\<rparr>]) key"
proof -
  let ?z = "replicate 32 0 :: bytes"
  have inv: "verify_from key ?z log" using audit_inv_run [OF assms(2)] by (simp add: audit_inv_def log_def)
  have upd: "verify_from key c (es[i := (es ! i)\<lparr>ae_capability := cap\<rparr>]) = verify_from key c es"
    if "i < length es" "capability_text (es ! i) = []" "cap = None \<or> cap = Some []" for c es cap
    using that(1,2)
  proof (induction es arbitrary: c i)
    case (Cons e es)
    have "sign_entry key c (ae_event_type e) cap (ae_identity_key e) (ae_occurred_at_ms e) =
        sign_entry key c (ae_event_type e) (ae_capability e) (ae_identity_key e) (ae_occurred_at_ms e)"
      if "capability_text e = []"
      using that \<open>cap = None \<or> cap = Some []\<close>
      by (auto simp: sign_entry_def entry_message_def capability_text_def split: option.splits)
    with Cons show ?case by (cases i) simp_all
  qed simp
  show ?thesis
    using inv upd [OF assms(3,4)] verify_from_append [of key ?z "take n log" "drop n log"]
    by (simp add: verify_entries_def)
qed

end
