(* ===== verification/Governor.thy ===== *)
theory Governor
  imports Tier Complex_Main "HOL-Library.Monad_Syntax"
begin

text \<open>
  The governor's decisions once the tier is known (\<open>core/platform/src\<close>): thermal and capability
  constraints, strict-priority budgets (\<open>gear_policy.rs\<close>), codec gears (\<open>tier_gears.rs\<close>,
  \<open>neural_vocoder.rs\<close>, \<open>opus_encoder.rs\<close>, \<open>core/nn/src/head_gear_gate.rs\<close>), the summary sent to the
  peer (\<open>governor_summary.rs\<close>), the bulk-transfer freeze (\<open>governor_load_shed.rs\<close>), the drop
  policies (\<open>stream_drop_policy.rs\<close>) and the 10 Hz loop that runs them (\<open>control_loop.rs\<close>).

  Rates are \<open>u32\<close>. The processor load is a rational number: a load that is not a number is
  outside the model.

  The lemmas show that the allocator is the greedy allocation in priority order, that heat only
  takes away, and what a run of the loop emits on every tick.
\<close>

section \<open>Constraints\<close>

datatype thermal_pressure = Nominal | Fair | Serious | Critical

fun thermal_rank :: "thermal_pressure \<Rightarrow> nat" where
  "thermal_rank Nominal = 0"
| "thermal_rank Fair = 1"
| "thermal_rank Serious = 2"
| "thermal_rank Critical = 3"

lemma thermal_rank_inject: "thermal_rank a = thermal_rank b \<longleftrightarrow> a = b"
  by (cases a; cases b) simp_all

instantiation thermal_pressure :: linorder
begin

definition less_eq_thermal_pressure :: "thermal_pressure \<Rightarrow> thermal_pressure \<Rightarrow> bool" where
  "less_eq_thermal_pressure a b \<longleftrightarrow> thermal_rank a \<le> thermal_rank b"

definition less_thermal_pressure :: "thermal_pressure \<Rightarrow> thermal_pressure \<Rightarrow> bool" where
  "less_thermal_pressure a b \<longleftrightarrow> thermal_rank a < thermal_rank b"

instance
  by standard (auto simp: less_eq_thermal_pressure_def less_thermal_pressure_def thermal_rank_inject)

end

definition is_elevated :: "thermal_pressure \<Rightarrow> bool" where
  "is_elevated p \<longleftrightarrow> Nominal < p"

definition CPU_PRESET10_THRESHOLD_PCT :: rat where "CPU_PRESET10_THRESHOLD_PCT = 50"
definition CPU_PRESET11_THRESHOLD_PCT :: rat where "CPU_PRESET11_THRESHOLD_PCT = 75"
definition CPU_HEADROOM_THRESHOLD_PCT :: rat where "CPU_HEADROOM_THRESHOLD_PCT = 50"

definition gear_b_preset_from_cpu_pct :: "rat \<Rightarrow> nat" where
  "gear_b_preset_from_cpu_pct cpu =
     (if cpu < CPU_PRESET10_THRESHOLD_PCT then 10
      else if cpu < CPU_PRESET11_THRESHOLD_PCT then 11
      else 12)"

datatype head_gear_capability = HeadAvailable | HeadRejected

definition head_gear_available :: "bool \<Rightarrow> rat \<Rightarrow> head_gear_capability" where
  "head_gear_available has_npu cpu =
     (if has_npu \<or> cpu < CPU_HEADROOM_THRESHOLD_PCT then HeadAvailable else HeadRejected)"

datatype av1_encode_capability = Av1Capable | Av1Legacy

datatype camera_gear = GearA | GearB nat | GearC | CameraOff

definition is_neural :: "camera_gear \<Rightarrow> bool" where
  "is_neural g \<longleftrightarrow> g = GearA"

definition AUDIO_FLOOR_BPS :: u32 where "AUDIO_FLOOR_BPS = 6000"

record gear_constraints =
  max_camera_gear :: camera_gear
  screen_refinement_allowed :: bool
  audio_floor_bps :: u32
  thermal_level :: thermal_pressure
  av1_encode :: av1_encode_capability

text \<open>The replacement of Gear A and Gear B on a legacy processor.\<close>

definition legacy_gear :: "av1_encode_capability \<Rightarrow> camera_gear \<Rightarrow> camera_gear" where
  "legacy_gear av1 gear =
     (if av1 = Av1Legacy
      then case gear of GearA \<Rightarrow> GearC | GearB _ \<Rightarrow> GearC | other \<Rightarrow> other
      else gear)"

definition from_thermal_with_capability ::
  "thermal_pressure \<Rightarrow> av1_encode_capability \<Rightarrow> gear_constraints" where
  "from_thermal_with_capability pressure av1 =
     (let (gear, refinement) =
        (case pressure of
           Nominal \<Rightarrow> (GearA, True)
         | Fair \<Rightarrow> (GearB 11, True)
         | Serious \<Rightarrow> (GearB 12, False)
         | Critical \<Rightarrow> (CameraOff, False))
      in \<lparr>max_camera_gear = legacy_gear av1 gear, screen_refinement_allowed = refinement,
          audio_floor_bps = AUDIO_FLOOR_BPS, thermal_level = pressure, av1_encode = av1\<rparr>)"

definition from_thermal :: "thermal_pressure \<Rightarrow> gear_constraints" where
  "from_thermal pressure = from_thermal_with_capability pressure Av1Capable"

definition from_thermal_with_capability_and_cpu ::
  "thermal_pressure \<Rightarrow> av1_encode_capability \<Rightarrow> rat \<Rightarrow> gear_constraints" where
  "from_thermal_with_capability_and_cpu pressure av1 cpu =
     (let (gear, refinement) =
        (case pressure of
           Nominal \<Rightarrow> (GearA, True)
         | Fair \<Rightarrow> (GearB (gear_b_preset_from_cpu_pct cpu), True)
         | Serious \<Rightarrow> (GearB 12, False)
         | Critical \<Rightarrow> (CameraOff, False))
      in \<lparr>max_camera_gear = legacy_gear av1 gear, screen_refinement_allowed = refinement,
          audio_floor_bps = AUDIO_FLOOR_BPS, thermal_level = pressure, av1_encode = av1\<rparr>)"

definition from_thermal_with_capability_cpu_and_npu ::
  "thermal_pressure \<Rightarrow> av1_encode_capability \<Rightarrow> rat \<Rightarrow> bool \<Rightarrow> gear_constraints" where
  "from_thermal_with_capability_cpu_and_npu pressure av1 cpu has_npu =
     (let constraints = from_thermal_with_capability_and_cpu pressure av1 cpu in
      if max_camera_gear constraints = GearA \<and> head_gear_available has_npu cpu = HeadRejected
      then constraints\<lparr>max_camera_gear := GearB (gear_b_preset_from_cpu_pct cpu)\<rparr>
      else constraints)"

definition neural_camera_allowed :: "gear_constraints \<Rightarrow> bool" where
  "neural_camera_allowed c \<longleftrightarrow> max_camera_gear c = GearA"

definition camera_allowed :: "gear_constraints \<Rightarrow> bool" where
  "camera_allowed c \<longleftrightarrow> max_camera_gear c \<noteq> CameraOff"

section \<open>Budgets\<close>

definition GEAR_B_TARGET_FPS :: u32 where "GEAR_B_TARGET_FPS = 30"
definition ROI_FACE_DELTA_QP :: int where "ROI_FACE_DELTA_QP = -3"
definition SCREEN_UPGRADE_BPS :: u32 where "SCREEN_UPGRADE_BPS = 10000"
definition INPUT_FLOOR_BPS :: u32 where "INPUT_FLOOR_BPS = 3000"

text \<open>
  \<open>camera_bps * 2 / (8 * fps)\<close> in \<open>u32\<close>: with overflow checks an overflow panics, without them the
  products wrap and a divisor that has wrapped to zero panics.
\<close>

definition gear_b_per_frame_byte_cap :: "bool \<Rightarrow> u32 \<Rightarrow> u32 \<Rightarrow> u32 option" where
  "gear_b_per_frame_byte_cap overflow_checks camera_bps fps =
     (if fps = 0 then Some 0
      else if overflow_checks \<and> (2 ^ 32 \<le> unat camera_bps * 2 \<or> 2 ^ 32 \<le> 8 * unat fps) then None
      else if 8 * fps = 0 then None
      else Some (camera_bps * 2 div (8 * fps)))"

record display_resolution =
  width :: nat
  height :: nat

definition RESOLUTION_LADDER :: "(display_resolution \<times> u32) list" where
  "RESOLUTION_LADDER =
     [(\<lparr>width = 640, height = 360\<rparr>, 0), (\<lparr>width = 848, height = 480\<rparr>, SCREEN_UPGRADE_BPS)]"

definition select_resolution :: "u32 \<Rightarrow> display_resolution option" where
  "select_resolution screen_coarse_bps =
     map_option fst (find (\<lambda>(_, min_bps). min_bps \<le> screen_coarse_bps) (rev RESOLUTION_LADDER))"

record stream_budgets =
  audio_bps :: u32
  input_bps :: u32
  screen_coarse_bps :: u32
  camera_bps :: u32
  screen_refinement_bps :: u32
  xfer_bps :: u32
  sb_display_resolution :: display_resolution
  per_frame_byte_cap :: u32
  roi_delta_qp :: int

definition allocate :: "bool \<Rightarrow> u32 \<Rightarrow> gear_constraints \<Rightarrow> stream_budgets option" where
  "allocate overflow_checks total_bps c =
     do {
       let remaining = total_bps;
       let audio = max (min remaining 24000) (audio_floor_bps c);
       let remaining = saturating_sub remaining audio;
       let input = max (min remaining 8000) (min INPUT_FLOOR_BPS remaining);
       let remaining = saturating_sub remaining input;
       let coarse = min remaining 20000;
       let remaining = saturating_sub remaining coarse;
       let camera = (if camera_allowed c then min remaining 300000 else 0);
       let remaining = saturating_sub remaining camera;
       let refinement = (if screen_refinement_allowed c then min remaining 50000 else 0);
       let remaining = saturating_sub remaining refinement;
       let xfer = remaining;
       cap \<leftarrow> (case max_camera_gear c of
                GearB _ \<Rightarrow> gear_b_per_frame_byte_cap overflow_checks camera GEAR_B_TARGET_FPS
              | _ \<Rightarrow> Some 0);
       let roi = (case max_camera_gear c of GearB _ \<Rightarrow> ROI_FACE_DELTA_QP | _ \<Rightarrow> 0);
       resolution \<leftarrow> select_resolution coarse;
       Some \<lparr>audio_bps = audio, input_bps = input, screen_coarse_bps = coarse, camera_bps = camera,
         screen_refinement_bps = refinement, xfer_bps = xfer, sb_display_resolution = resolution,
         per_frame_byte_cap = cap, roi_delta_qp = roi\<rparr>
     }"

section \<open>Codec gears\<close>

definition SURVIVAL_FALLBACK_AUDIO_BPS :: u32 where "SURVIVAL_FALLBACK_AUDIO_BPS = 9000"
definition CONSTRAINED_AUDIO_BPS :: u32 where "CONSTRAINED_AUDIO_BPS = 16000"
definition COMFORTABLE_AUDIO_BPS :: u32 where "COMFORTABLE_AUDIO_BPS = 24000"
definition FULL_AUDIO_BPS :: u32 where "FULL_AUDIO_BPS = 32000"
definition NEURAL_VOCODER_LO_BPS :: u32 where "NEURAL_VOCODER_LO_BPS = 3200"
definition NEURAL_VOCODER_HI_BPS :: u32 where "NEURAL_VOCODER_HI_BPS = 6000"

datatype opus_mode = SilkWb | SilkHybridWb | HybridSwb | CeltFb

record opus_tier_settings =
  opus_mode :: opus_mode
  opus_target_bps :: u32

definition constrained_tier_settings :: opus_tier_settings where
  "constrained_tier_settings = \<lparr>opus_mode = SilkHybridWb, opus_target_bps = CONSTRAINED_AUDIO_BPS\<rparr>"

fun opus_settings_from_tier :: "tier_state \<Rightarrow> opus_tier_settings" where
  "opus_settings_from_tier Survival =
     \<lparr>opus_mode = SilkWb, opus_target_bps = SURVIVAL_FALLBACK_AUDIO_BPS\<rparr>"
| "opus_settings_from_tier Constrained = constrained_tier_settings"
| "opus_settings_from_tier Comfortable =
     \<lparr>opus_mode = HybridSwb, opus_target_bps = COMFORTABLE_AUDIO_BPS\<rparr>"
| "opus_settings_from_tier Full = \<lparr>opus_mode = CeltFb, opus_target_bps = FULL_AUDIO_BPS\<rparr>"

datatype npu_capability = NpuPresent | NpuAbsent

datatype audio_gear = NeuralVocoder u32 | OpusSilk

definition audio_gear_from_tier_and_npu :: "tier_state \<Rightarrow> npu_capability \<Rightarrow> audio_gear" where
  "audio_gear_from_tier_and_npu tier npu =
     (if tier = Survival \<and> npu = NpuPresent then NeuralVocoder NEURAL_VOCODER_HI_BPS else OpusSilk)"

record tier_codec_gears =
  tg_audio_gear :: audio_gear
  tg_opus_settings :: "opus_tier_settings option"
  tg_camera_gear :: camera_gear
  tg_screen_refinement_enabled :: bool
  tg_display_resolution :: display_resolution
  tg_per_frame_byte_cap :: u32
  tg_roi_delta_qp :: int

definition select_codec_gears ::
  "tier_state \<Rightarrow> stream_budgets \<Rightarrow> gear_constraints \<Rightarrow> npu_capability \<Rightarrow> tier_codec_gears" where
  "select_codec_gears tier b c npu =
     (let audio = audio_gear_from_tier_and_npu tier npu in
      \<lparr>tg_audio_gear = audio,
       tg_opus_settings =
         (case audio of OpusSilk \<Rightarrow> Some (opus_settings_from_tier tier) | NeuralVocoder _ \<Rightarrow> None),
       tg_camera_gear = (if camera_bps b = 0 then CameraOff else max_camera_gear c),
       tg_screen_refinement_enabled = (screen_refinement_allowed c \<and> 0 < screen_refinement_bps b),
       tg_display_resolution = sb_display_resolution b,
       tg_per_frame_byte_cap = per_frame_byte_cap b,
       tg_roi_delta_qp = roi_delta_qp b\<rparr>)"

section \<open>Bulk transfer and drop policies\<close>

definition bulk_xfer_headroom_bps :: "tier_state \<Rightarrow> u32 \<Rightarrow> u32" where
  "bulk_xfer_headroom_bps tier proposed = (case tier of Survival \<Rightarrow> 0 | _ \<Rightarrow> proposed)"

definition bulk_xfer_frozen :: "tier_state \<Rightarrow> bool" where
  "bulk_xfer_frozen tier \<longleftrightarrow> tier = Survival"

datatype stream_kind =
    StreamAudio | StreamInput | ScreenCoarse | ScreenRefinement
  | CameraGearA | CameraGearB | CameraGearC | VideoSubStream | FileTransfer

datatype drop_policy = Droppable | Layered rat

fun is_droppable :: "drop_policy \<Rightarrow> bool" where
  "is_droppable Droppable = True"
| "is_droppable (Layered _) = False"

fun is_layered :: "drop_policy \<Rightarrow> bool" where
  "is_layered Droppable = False"
| "is_layered (Layered _) = True"

fun base_fraction :: "drop_policy \<Rightarrow> rat" where
  "base_fraction Droppable = 0"
| "base_fraction (Layered f) = f"

definition needs_keyframe_on_transition :: "drop_policy \<Rightarrow> bool" where
  "needs_keyframe_on_transition p = False"

fun drop_policy_for :: "stream_kind \<Rightarrow> drop_policy" where
  "drop_policy_for CameraGearB = Layered (1 / 2)"
| "drop_policy_for _ = Droppable"

definition all_streams_keyframe_free :: bool where
  "all_streams_keyframe_free \<longleftrightarrow>
     list_all (\<lambda>k. \<not> needs_keyframe_on_transition (drop_policy_for k))
       [StreamAudio, StreamInput, ScreenCoarse, ScreenRefinement, CameraGearA, CameraGearB,
        CameraGearC, VideoSubStream, FileTransfer]"

section \<open>Summaries and the control loop\<close>

record governor_summary =
  gs_tier :: tier_state
  gs_bwe_bps :: u32
  gs_rtt_ms :: u32
  gs_loss_ppm :: u32

text \<open>\<open>ConvergedSummary\<close> has the same fields as \<open>GovernorSummary\<close>.\<close>

definition converge_summaries :: "governor_summary \<Rightarrow> governor_summary \<Rightarrow> governor_summary" where
  "converge_summaries l r =
     \<lparr>gs_tier = min (gs_tier l) (gs_tier r), gs_bwe_bps = min (gs_bwe_bps l) (gs_bwe_bps r),
      gs_rtt_ms = max (gs_rtt_ms l) (gs_rtt_ms r), gs_loss_ppm = max (gs_loss_ppm l) (gs_loss_ppm r)\<rparr>"

record control_loop_input =
  ci_bwe_bps :: u32
  ci_rtt_ms :: u32
  ci_loss_ppm :: u32
  ci_thermal :: thermal_pressure

record control_loop_output =
  co_tier :: tier_state
  co_budgets :: stream_budgets
  co_summary :: governor_summary

record control_loop =
  cl_emitter :: governor_tier_emitter
  cl_current_tier :: tier_state

definition control_loop_new :: control_loop where
  "control_loop_new = \<lparr>cl_emitter = governor_new, cl_current_tier = Survival\<rparr>"

definition control_loop_tick ::
  "bool \<Rightarrow> control_loop \<Rightarrow> control_loop_input \<Rightarrow> (control_loop_output \<times> control_loop) option" where
  "control_loop_tick overflow_checks l i =
     do {
       let (tier, emitter) = governor_tick (cl_emitter l) (cl_current_tier l) (ci_bwe_bps i);
       let l = l\<lparr>cl_emitter := emitter, cl_current_tier := tier\<rparr>;
       let constraints = from_thermal (ci_thermal i);
       budgets \<leftarrow> allocate overflow_checks (ci_bwe_bps i) constraints;
       let summary = \<lparr>gs_tier = tier, gs_bwe_bps = ci_bwe_bps i, gs_rtt_ms = ci_rtt_ms i,
                      gs_loss_ppm = ci_loss_ppm i\<rparr>;
       Some (\<lparr>co_tier = tier, co_budgets = budgets, co_summary = summary\<rparr>, l)
     }"

section \<open>The greedy allocation\<close>

text \<open>The reference: each stream takes what it can of what is left, in order.\<close>

fun greedy :: "nat list \<Rightarrow> nat \<Rightarrow> nat list" where
  "greedy [] left = []"
| "greedy (c # cs) left = min c left # greedy cs (left - min c left)"

lemma length_greedy [simp]: "length (greedy cs left) = length cs"
  by (induction cs arbitrary: left) simp_all

lemma greedy_zero: "greedy cs 0 = replicate (length cs) 0"
  by (induction cs) simp_all

lemma greedy_sum: "sum_list (greedy cs left) = min (sum_list cs) left"
  by (induction cs arbitrary: left) auto

lemma greedy_mono: "left \<le> left' \<Longrightarrow> list_all2 (\<le>) (greedy cs left) (greedy cs left')"
  by (induction cs arbitrary: left left') (auto intro!: diff_le_mono simp: min_def)

lemma greedy_priority:
  "i < j \<Longrightarrow> j < length cs \<Longrightarrow> 0 < greedy cs left ! j \<Longrightarrow> greedy cs left ! i = cs ! i"
proof (induction cs arbitrary: left i j)
  case (Cons c cs)
  then obtain j' where j: "j = Suc j'" by (cases j) auto
  show ?case
  proof (cases i)
    case 0
    have "left - min c left \<noteq> 0"
      using Cons.prems j by (auto simp: greedy_zero)
    then show ?thesis using 0 by (simp add: min_def split: if_splits)
  next
    case (Suc i')
    then show ?thesis using Cons j by simp
  qed
qed simp

lemma greedy_first: "greedy (c # cs) left ! 0 = min c left"
  by simp

lemma greedy_le: "i < length cs \<Longrightarrow> greedy cs left ! i \<le> cs ! i"
  by (induction cs arbitrary: i left) (auto simp: less_Suc_eq_0_disj)

declare greedy.simps [simp del]

text \<open>The streams in priority order, and what each may take.\<close>

definition stream_rates :: "stream_budgets \<Rightarrow> nat list" where
  "stream_rates b = map unat [audio_bps b, input_bps b, screen_coarse_bps b, camera_bps b,
     screen_refinement_bps b, xfer_bps b]"

definition stream_caps :: "gear_constraints \<Rightarrow> nat list" where
  "stream_caps c = [24000, 8000, 20000, if camera_allowed c then 300000 else 0,
     if screen_refinement_allowed c then 50000 else 0, 2 ^ 32]"

lemma unat_min_word: "unat (min a b) = min (unat a) (unat (b :: 'a::len word))"
  by (simp add: min_def word_le_nat_alt)

lemma unat_max_word: "unat (max a b) = max (unat a) (unat (b :: 'a::len word))"
  by (simp add: max_def word_le_nat_alt)

lemma per_frame_cap_defined:
  assumes "unat camera \<le> 300000"
  shows "gear_b_per_frame_byte_cap oc camera GEAR_B_TARGET_FPS = Some (camera * 2 div 240)"
  using assms by (auto simp: gear_b_per_frame_byte_cap_def GEAR_B_TARGET_FPS_def)

lemma select_resolution_eq:
  "select_resolution r = Some (if SCREEN_UPGRADE_BPS \<le> r then \<lparr>width = 848, height = 480\<rparr>
     else \<lparr>width = 640, height = 360\<rparr>)"
  by (simp add: select_resolution_def RESOLUTION_LADDER_def)

lemma per_frame_cap_total:
  "\<exists>cap. (case gear of
       GearB _ \<Rightarrow> gear_b_per_frame_byte_cap oc (if allowed then min r 300000 else 0) GEAR_B_TARGET_FPS
     | _ \<Rightarrow> Some 0) = Some cap"
  using per_frame_cap_defined [of "if allowed then min r 300000 else 0" oc]
  by (cases gear) (auto simp: unat_min_word)

lemma allocate_greedy:
  assumes "audio_floor_bps c = AUDIO_FLOOR_BPS"
  shows "\<exists>b. allocate oc budget c = Some b \<and>
    stream_rates b = (if AUDIO_FLOOR_BPS \<le> budget then greedy (stream_caps c) (unat budget)
      else [6000, 0, 0, 0, 0, 0]) \<and>
    roi_delta_qp b = (case max_camera_gear c of GearB _ \<Rightarrow> ROI_FACE_DELTA_QP | _ \<Rightarrow> 0)"
proof -
  define r1 where "r1 = saturating_sub budget (max (min budget 24000) AUDIO_FLOOR_BPS)"
  define r2 where "r2 = saturating_sub r1 (max (min r1 8000) (min INPUT_FLOOR_BPS r1))"
  define r3 where "r3 = saturating_sub r2 (min r2 20000)"
  obtain cap where cap: "(case max_camera_gear c of
       GearB _ \<Rightarrow> gear_b_per_frame_byte_cap oc (if camera_allowed c then min r3 300000 else 0) GEAR_B_TARGET_FPS
     | _ \<Rightarrow> Some 0) = Some cap"
    using per_frame_cap_total by blast
  obtain b where b: "allocate oc budget c = Some b" "audio_bps b = max (min budget 24000) AUDIO_FLOOR_BPS"
    "input_bps b = max (min r1 8000) (min INPUT_FLOOR_BPS r1)" "screen_coarse_bps b = min r2 20000"
    "camera_bps b = (if camera_allowed c then min r3 300000 else 0)"
    "screen_refinement_bps b = (if screen_refinement_allowed c
       then min (saturating_sub r3 (camera_bps b)) 50000 else 0)"
    "roi_delta_qp b = (case max_camera_gear c of GearB _ \<Rightarrow> ROI_FACE_DELTA_QP | _ \<Rightarrow> 0)"
    "xfer_bps b = saturating_sub (saturating_sub r3 (camera_bps b)) (screen_refinement_bps b)"
    using cap unfolding allocate_def assms Let_def r1_def [symmetric] r2_def [symmetric] r3_def [symmetric]
    by (simp add: select_resolution_eq)
  define n where "n = unat budget"
  define n1 where "n1 = n - max (min n 24000) 6000"
  define n2 where "n2 = n1 - min n1 8000"
  define n3 where "n3 = n2 - min n2 20000"
  define a where "a = (if camera_allowed c then min n3 300000 else 0)"
  define d where "d = (if screen_refinement_allowed c then min (n3 - a) 50000 else 0)"
  have n: "n < 2 ^ 32" using unat_less_exp [of budget] by (simp add: n_def)
  have r1: "unat r1 = n1" by (simp add: r1_def n1_def n_def unat_min_word unat_max_word AUDIO_FLOOR_BPS_def)
  have i: "max (min x 8000) (min 3000 x) = min x 8000" for x :: nat by simp
  have r2: "unat r2 = n2" by (simp add: r2_def n2_def r1 unat_min_word unat_max_word INPUT_FLOOR_BPS_def i)
  have r3: "unat r3 = n3" by (simp add: r3_def n3_def r2 unat_min_word)
  have cam: "unat (camera_bps b) = a" by (simp add: b(5) a_def r3 unat_min_word)
  have ref: "unat (screen_refinement_bps b) = d" by (simp add: b(6) d_def r3 cam unat_min_word)
  have rates: "stream_rates b = [max (min n 24000) 6000, min n1 8000, min n2 20000, a, d, n3 - a - d]"
    by (simp add: stream_rates_def b(2-4,8) cam ref r1 r2 r3 unat_min_word unat_max_word i
        AUDIO_FLOOR_BPS_def INPUT_FLOOR_BPS_def flip: n_def)
  have le: "AUDIO_FLOOR_BPS \<le> budget \<longleftrightarrow> 6000 \<le> n"
    by (simp add: word_le_nat_alt AUDIO_FLOOR_BPS_def n_def)
  have "stream_rates b = (if 6000 \<le> n then greedy (stream_caps c) n else [6000, 0, 0, 0, 0, 0])"
  proof (cases "6000 \<le> n")
    case True
    then have m: "max (min n 24000) 6000 = min n 24000" by simp
    have "n3 - a - d < 2 ^ 32" using n unfolding n1_def n2_def n3_def by linarith
    then have x: "min (2 ^ 32) (n3 - a - d) = n3 - a - d" by simp
    have "min 24000 n = min n 24000" "min 8000 n1 = min n1 8000" "min 20000 n2 = min n2 20000"
      by (rule min.commute)+
    moreover have "n - min n 24000 = n1" unfolding n1_def m ..
    moreover have "n1 - min n1 8000 = n2" "n2 - min n2 20000 = n3" unfolding n2_def n3_def by (rule refl)+
    moreover have "min (if camera_allowed c then 300000 else 0) n3 = a"
      "min (if screen_refinement_allowed c then 50000 else 0) (n3 - a) = d"
      unfolding a_def d_def by (simp_all add: min.commute)
    ultimately show ?thesis using True x by (simp only: rates m stream_caps_def greedy.simps if_True)
  next
    case False
    then have "n1 = 0" by (simp add: n1_def)
    then show ?thesis using False by (simp add: rates n2_def n3_def a_def d_def)
  qed
  then show ?thesis using b(1,7) le n_def by auto
qed



section \<open>Heat only takes away\<close>

text \<open>How much a gear costs; a faster preset costs less.\<close>

fun gear_rank :: "camera_gear \<Rightarrow> nat" where
  "gear_rank GearA = 100"
| "gear_rank (GearB preset) = 50 - preset"
| "gear_rank GearC = 1"
| "gear_rank CameraOff = 0"

lemmas constraint_defs = from_thermal_with_capability_cpu_and_npu_def
  from_thermal_with_capability_and_cpu_def from_thermal_with_capability_def from_thermal_def
  legacy_gear_def gear_b_preset_from_cpu_pct_def head_gear_available_def

lemma preset_bounds: "10 \<le> gear_b_preset_from_cpu_pct cpu" "gear_b_preset_from_cpu_pct cpu \<le> 12"
  by (simp_all add: gear_b_preset_from_cpu_pct_def)

text \<open>
  More heat, more load or less hardware never permits more. Over any two governor ticks
  where the second is at least as hot, at least as loaded, on hardware that is not better, the
  camera gear allowed second costs at most as much, refinement is allowed second only if it was
  allowed first, and the voice floor is the same. Voice therefore never pays for heat, and at
  the critical level the camera is off.
\<close>

lemma degradation_is_monotone:
  assumes "p \<le> q" "cpu \<le> cpu'" "av1 = Av1Legacy \<longrightarrow> av1' = Av1Legacy" "npu' \<longrightarrow> npu"
  shows "gear_rank (max_camera_gear (from_thermal_with_capability_cpu_and_npu q av1' cpu' npu')) \<le>
      gear_rank (max_camera_gear (from_thermal_with_capability_cpu_and_npu p av1 cpu npu)) \<and>
    (screen_refinement_allowed (from_thermal_with_capability_cpu_and_npu q av1' cpu' npu') \<longrightarrow>
      screen_refinement_allowed (from_thermal_with_capability_cpu_and_npu p av1 cpu npu)) \<and>
    audio_floor_bps (from_thermal_with_capability_cpu_and_npu q av1' cpu' npu') = AUDIO_FLOOR_BPS \<and>
    max_camera_gear (from_thermal_with_capability_cpu_and_npu Critical av1 cpu npu) = CameraOff"
proof -
  have mono: "gear_b_preset_from_cpu_pct cpu \<le> gear_b_preset_from_cpu_pct cpu'"
    using assms(2) by (simp add: gear_b_preset_from_cpu_pct_def CPU_PRESET10_THRESHOLD_PCT_def
        CPU_PRESET11_THRESHOLD_PCT_def)
  have head: "head_gear_available npu cpu = HeadRejected \<Longrightarrow> head_gear_available npu' cpu' = HeadRejected"
    using assms(2,4) by (auto simp: head_gear_available_def split: if_splits)
  show ?thesis
    using assms(1,3) mono head preset_bounds [of cpu] preset_bounds [of cpu']
    by (cases p; cases q; cases av1; cases av1'; cases "head_gear_available npu cpu";
        cases "head_gear_available npu' cpu'")
      (auto simp: from_thermal_with_capability_cpu_and_npu_def from_thermal_with_capability_and_cpu_def
        legacy_gear_def less_eq_thermal_pressure_def)
qed

text \<open>Constraints always carry the voice floor, so the allocator's hypothesis holds for all of them.\<close>

lemma from_thermal_floor [simp]: "audio_floor_bps (from_thermal p) = AUDIO_FLOOR_BPS"
  by (cases p) (simp_all add: from_thermal_def from_thermal_with_capability_def)

lemma from_thermal_allows:
  "camera_allowed (from_thermal p) \<longleftrightarrow> p \<noteq> Critical"
  "screen_refinement_allowed (from_thermal p) \<longleftrightarrow> p < Serious"
  by (cases p; simp add: from_thermal_def from_thermal_with_capability_def camera_allowed_def legacy_gear_def
      less_thermal_pressure_def)+

section \<open>Codec gears against budgets\<close>

text \<open>
  The Opus target of the Full tier is above every audio budget, and the region-of-interest
  offset of Gear B is passed on when the budget has switched the camera off.
\<close>

lemma audio_budget_bounds:
  assumes "audio_floor_bps c = AUDIO_FLOOR_BPS" "allocate oc budget c = Some b"
  shows "6000 \<le> unat (audio_bps b)" "unat (audio_bps b) \<le> 24000"
proof -
  have "stream_rates b = (if AUDIO_FLOOR_BPS \<le> budget then greedy (stream_caps c) (unat budget)
      else [6000, 0, 0, 0, 0, 0])"
    using allocate_greedy [OF assms(1), of oc budget] assms(2) by auto
  then have "stream_rates b ! 0 = (if AUDIO_FLOOR_BPS \<le> budget then min 24000 (unat budget) else 6000)"
    by (simp add: stream_caps_def greedy_first)
  then have "unat (audio_bps b) = (if AUDIO_FLOOR_BPS \<le> budget then min 24000 (unat budget) else 6000)"
    by (simp add: stream_rates_def split del: if_split)
  then show "6000 \<le> unat (audio_bps b)" "unat (audio_bps b) \<le> 24000"
    by (simp_all add: word_le_nat_alt AUDIO_FLOOR_BPS_def)
qed

lemma full_tier_opus_exceeds_budget:
  assumes "audio_floor_bps c = AUDIO_FLOOR_BPS" "allocate oc budget c = Some b"
  shows "audio_bps b < opus_target_bps (opus_settings_from_tier Full)"
  using audio_budget_bounds(2) [OF assms] by (simp add: FULL_AUDIO_BPS_def word_less_nat_alt)

lemma roi_offset_with_camera_off:
  "\<exists>b. allocate oc 40000 (from_thermal Fair) = Some b \<and>
     tg_camera_gear (select_codec_gears Survival b (from_thermal Fair) NpuAbsent) = CameraOff \<and>
     tg_roi_delta_qp (select_codec_gears Survival b (from_thermal Fair) NpuAbsent) = -3"
proof -
  have gear: "max_camera_gear (from_thermal Fair) = GearB 11"
    by (simp add: from_thermal_def from_thermal_with_capability_def legacy_gear_def)
  obtain b where b: "allocate oc 40000 (from_thermal Fair) = Some b"
    "stream_rates b = greedy (stream_caps (from_thermal Fair)) 40000" "roi_delta_qp b = ROI_FACE_DELTA_QP"
    using allocate_greedy [of "from_thermal Fair" oc 40000] by (auto simp: AUDIO_FLOOR_BPS_def gear)
  have "greedy (stream_caps (from_thermal Fair)) 40000 = [24000, 8000, 8000, 0, 0, 0]"
    by (simp add: stream_caps_def greedy.simps)
  then have "camera_bps b = 0" using b(2) by (simp add: stream_rates_def unat_eq_zero)
  then show ?thesis using b(1,3) by (simp add: select_codec_gears_def gear ROI_FACE_DELTA_QP_def Let_def)
qed

section \<open>Runs of the control loop\<close>

fun control_run ::
  "bool \<Rightarrow> control_loop \<Rightarrow> control_loop_input list \<Rightarrow> (control_loop_output list \<times> control_loop) option" where
  "control_run oc l [] = Some ([], l)"
| "control_run oc l (i # is) =
     do {
       (out, l') \<leftarrow> control_loop_tick oc l i;
       (outs, l'') \<leftarrow> control_run oc l' is;
       Some (out # outs, l'')
     }"

text \<open>What one tick emits when the tier emitter has arrived at \<open>tier\<close>.\<close>

definition emits :: "control_loop_input \<Rightarrow> tier_state \<Rightarrow> control_loop_output \<Rightarrow> bool" where
  "emits i tier out \<longleftrightarrow>
     co_tier out = tier \<and>
     stream_rates (co_budgets out) =
       (if 6000 \<le> unat (ci_bwe_bps i)
        then greedy [24000, 8000, 20000, if ci_thermal i = Critical then 0 else 300000,
               if ci_thermal i < Serious then 50000 else 0, 2 ^ 32] (unat (ci_bwe_bps i))
        else [6000, 0, 0, 0, 0, 0]) \<and>
     co_summary out = \<lparr>gs_tier = tier, gs_bwe_bps = ci_bwe_bps i, gs_rtt_ms = ci_rtt_ms i,
       gs_loss_ppm = ci_loss_ppm i\<rparr>"

lemma control_loop_tick_emits:
  assumes "governor_tick (cl_emitter l) (cl_current_tier l) (ci_bwe_bps i) = (tier, e)"
  shows "\<exists>out. control_loop_tick oc l i = Some (out, l\<lparr>cl_emitter := e, cl_current_tier := tier\<rparr>) \<and>
    emits i tier out"
proof -
  obtain b where "allocate oc (ci_bwe_bps i) (from_thermal (ci_thermal i)) = Some b"
    "stream_rates b = (if AUDIO_FLOOR_BPS \<le> ci_bwe_bps i
       then greedy (stream_caps (from_thermal (ci_thermal i))) (unat (ci_bwe_bps i)) else [6000, 0, 0, 0, 0, 0])"
    using allocate_greedy [of "from_thermal (ci_thermal i)" oc "ci_bwe_bps i"] by auto
  then show ?thesis
    using assms by (simp add: control_loop_tick_def emits_def stream_caps_def from_thermal_allows
        word_le_nat_alt AUDIO_FLOOR_BPS_def)
qed

lemma control_run_emits:
  "\<exists>outs l'. control_run oc l is = Some (outs, l') \<and> length outs = length is \<and>
    (\<forall>k < length is. emits (is ! k)
       (snd (governor_run (cl_emitter l, cl_current_tier l) (map ci_bwe_bps (take (Suc k) is)))) (outs ! k))"
proof (induction "is" arbitrary: l)
  case (Cons i "is")
  obtain tier e where g: "governor_tick (cl_emitter l) (cl_current_tier l) (ci_bwe_bps i) = (tier, e)"
    by (metis prod.exhaust)
  let ?l = "l\<lparr>cl_emitter := e, cl_current_tier := tier\<rparr>"
  obtain out where out: "control_loop_tick oc l i = Some (out, ?l)" "emits i tier out"
    using control_loop_tick_emits [OF g] by blast
  obtain outs l' where IH: "control_run oc ?l is = Some (outs, l')" "length outs = length is"
    "\<forall>k < length is. emits (is ! k)
       (snd (governor_run (e, tier) (map ci_bwe_bps (take (Suc k) is)))) (outs ! k)"
    using Cons.IH [of ?l] by auto
  show ?case using out IH g by (auto simp: nth_Cons' less_Suc_eq_0_disj gr0_conv_Suc)
qed simp



text \<open>Both peers compute the same session parameters, and these are no better than either measurement.\<close>

lemma converge_summaries_agree:
  "converge_summaries a b = converge_summaries b a"
  "converge_summaries a a = a"
  "converge_summaries (converge_summaries a b) c = converge_summaries a (converge_summaries b c)"
  by (simp_all add: converge_summaries_def min.commute max.commute)
    (simp_all add: min.left_commute max.left_commute min.commute max.commute)

lemma converge_summaries_conservative:
  "gs_tier (converge_summaries a b) \<le> gs_tier a" "gs_bwe_bps (converge_summaries a b) \<le> gs_bwe_bps a"
  "gs_rtt_ms a \<le> gs_rtt_ms (converge_summaries a b)" "gs_loss_ppm a \<le> gs_loss_ppm (converge_summaries a b)"
  by (simp_all add: converge_summaries_def)

text \<open>Only Gear B keeps a base layer; no stream needs a keyframe when the tier changes.\<close>

lemma drop_policies_keyframe_free:
  "all_streams_keyframe_free" "is_layered (drop_policy_for k) \<longleftrightarrow> k = CameraGearB"
  "0 < base_fraction (drop_policy_for k) \<longleftrightarrow> \<not> is_droppable (drop_policy_for k)"
  by (simp_all add: all_streams_keyframe_free_def needs_keyframe_on_transition_def)
    (cases k; simp)+

end
