(* ===== verification/Bulk_Scheduler.thy ===== *)
theory Bulk_Scheduler
  imports Paced_Queue
begin

text \<open>
  The bulk-transfer scheduler: \<open>core/xfer/src/scheduler.rs\<close>. File frames wait in one queue behind
  two gates, the demand of voice and input and the governor's byte headroom, and leave coalesced in
  datagrams. Sizes are \<open>usize\<close> values as natural numbers: a sum of lengths of frames in memory
  does not overflow, and the headroom is never decreased below zero (\<open>coalesce_headroom\<close>).

  The scheduler is an instance of the interface \<open>paced_queue\<close>, which gives FIFO delivery without
  loss; the lemmas here add the gates, the size limit and the headroom accounting.
\<close>

section \<open>Operations\<close>

definition XFER_DATAGRAM_OVERHEAD :: nat where "XFER_DATAGRAM_OVERHEAD = 19"
definition XFER_FRAME_HEADER_OVERHEAD :: nat where "XFER_FRAME_HEADER_OVERHEAD = 2"
definition MAX_DATAGRAM_XFER_BYTES :: nat where
  "MAX_DATAGRAM_XFER_BYTES = 1200 - XFER_DATAGRAM_OVERHEAD"

record pacer_demand =
  voice_pending :: nat
  input_pending :: nat

definition blocks_bulk :: "pacer_demand \<Rightarrow> bool" where
  "blocks_bulk d \<longleftrightarrow> 0 < voice_pending d \<or> 0 < input_pending d"

record bulk_frame =
  bf_data :: bytes
  bf_object_id :: u64
  bf_esi :: u32

text \<open>The debug assertion of \<open>XferFrame::new\<close>.\<close>

definition bulk_frame_new :: "bool \<Rightarrow> bytes \<Rightarrow> u64 \<Rightarrow> u32 \<Rightarrow> bulk_frame option" where
  "bulk_frame_new debug_assertions data object_id esi =
     (if debug_assertions \<and> 1200 < length data then None
      else Some \<lparr>bf_data = data, bf_object_id = object_id, bf_esi = esi\<rparr>)"

definition bulk_data_bytes :: "bulk_frame list \<Rightarrow> nat" where
  "bulk_data_bytes frames = sum_list (map (\<lambda>f. length (bf_data f)) frames)"

datatype tick_result = SendAggregated "bulk_frame list" | HeldForPriority | HeldForHeadroom | BulkIdle

record bulk_scheduler =
  bs_queue :: "bulk_frame list"
  headroom_remaining :: nat

definition bulk_new :: bulk_scheduler where
  "bulk_new = \<lparr>bs_queue = [], headroom_remaining = 0\<rparr>"

definition set_headroom :: "bulk_scheduler \<Rightarrow> nat \<Rightarrow> bulk_scheduler" where
  "set_headroom s bytes = s\<lparr>headroom_remaining := bytes\<rparr>"

definition bulk_enqueue :: "bulk_scheduler \<Rightarrow> bulk_frame \<Rightarrow> bulk_scheduler" where
  "bulk_enqueue s f = s\<lparr>bs_queue := bs_queue s @ [f]\<rparr>"

definition bulk_queued_frames :: "bulk_scheduler \<Rightarrow> nat" where
  "bulk_queued_frames s = length (bs_queue s)"

text \<open>The packing loop of \<open>tick\<close>: the frames taken, the headroom they use and the queue left.\<close>

fun coalesce ::
  "nat \<Rightarrow> bulk_frame list \<Rightarrow> nat \<Rightarrow> nat \<Rightarrow> bulk_frame list \<Rightarrow> bulk_frame list \<times> nat \<times> bulk_frame list" where
  "coalesce headroom frames datagram_used headroom_used [] = (frames, headroom_used, [])"
| "coalesce headroom frames datagram_used headroom_used (f # queue) =
     (let slot = XFER_FRAME_HEADER_OVERHEAD + length (bf_data f) in
      if frames \<noteq> [] \<and> MAX_DATAGRAM_XFER_BYTES < datagram_used + slot
      then (frames, headroom_used, f # queue)
      else if headroom < headroom_used + length (bf_data f)
      then (frames, headroom_used, f # queue)
      else coalesce headroom (frames @ [f]) (datagram_used + slot)
             (headroom_used + length (bf_data f)) queue)"

definition bulk_tick :: "bulk_scheduler \<Rightarrow> pacer_demand \<Rightarrow> tick_result \<times> bulk_scheduler" where
  "bulk_tick s demand =
     (if blocks_bulk demand then (HeldForPriority, s)
      else if headroom_remaining s = 0 then (HeldForHeadroom, s)
      else
        case bs_queue s of
          [] \<Rightarrow> (BulkIdle, s)
        | f # _ \<Rightarrow>
            if headroom_remaining s < length (bf_data f) then (HeldForHeadroom, s)
            else
              (let (frames, used, queue) = coalesce (headroom_remaining s) [] 0 0 (bs_queue s)
               in (SendAggregated frames,
                   s\<lparr>bs_queue := queue, headroom_remaining := headroom_remaining s - used\<rparr>)))"

section \<open>The packing loop\<close>

text \<open>The size of a datagram on the wire, without the fixed overhead.\<close>

definition wire_bytes :: "bulk_frame list \<Rightarrow> nat" where
  "wire_bytes frames = sum_list (map (\<lambda>f. XFER_FRAME_HEADER_OVERHEAD + length (bf_data f)) frames)"

lemma bulk_sizes_append [simp]:
  "bulk_data_bytes (xs @ ys) = bulk_data_bytes xs + bulk_data_bytes ys"
  "wire_bytes (xs @ ys) = wire_bytes xs + wire_bytes ys"
  "bulk_data_bytes [] = 0" "wire_bytes [] = 0"
  "bulk_data_bytes [f] = length (bf_data f)"
  "wire_bytes [f] = XFER_FRAME_HEADER_OVERHEAD + length (bf_data f)"
  by (simp_all add: bulk_data_bytes_def wire_bytes_def)

lemma coalesce_split:
  "coalesce h frames (wire_bytes frames) (bulk_data_bytes frames) queue = (out, used, rest) \<Longrightarrow>
     \<exists>taken. out = frames @ taken \<and> queue = taken @ rest \<and> used = bulk_data_bytes out"
proof (induction queue arbitrary: frames)
  case (Cons f queue)
  show ?case
  proof (cases "coalesce h (frames @ [f]) (wire_bytes (frames @ [f])) (bulk_data_bytes (frames @ [f])) queue
      = (out, used, rest)")
    case True
    from Cons.IH [OF this] show ?thesis by auto
  next
    case False
    with Cons.prems show ?thesis by (auto simp: Let_def split: if_splits)
  qed
qed auto

lemma coalesce_headroom:
  "coalesce h frames (wire_bytes frames) (bulk_data_bytes frames) queue = (out, used, rest) \<Longrightarrow>
     bulk_data_bytes frames \<le> h \<Longrightarrow> used \<le> h"
proof (induction queue arbitrary: frames)
  case (Cons f queue)
  have "coalesce h (frames @ [f]) (wire_bytes (frames @ [f])) (bulk_data_bytes (frames @ [f])) queue
      = (out, used, rest) \<Longrightarrow> bulk_data_bytes (frames @ [f]) \<le> h \<Longrightarrow> used \<le> h"
    by (rule Cons.IH)
  with Cons.prems show ?case by (auto simp: Let_def split: if_splits)
qed auto

lemma coalesce_fits:
  "coalesce h frames (wire_bytes frames) (bulk_data_bytes frames) queue = (out, used, rest) \<Longrightarrow>
     length frames = 1 \<or> wire_bytes frames \<le> MAX_DATAGRAM_XFER_BYTES \<Longrightarrow>
     length out = 1 \<or> wire_bytes out \<le> MAX_DATAGRAM_XFER_BYTES"
proof (induction queue arbitrary: frames)
  case (Cons f queue)
  have "coalesce h (frames @ [f]) (wire_bytes (frames @ [f])) (bulk_data_bytes (frames @ [f])) queue
      = (out, used, rest) \<Longrightarrow>
     length (frames @ [f]) = 1 \<or> wire_bytes (frames @ [f]) \<le> MAX_DATAGRAM_XFER_BYTES \<Longrightarrow>
     length out = 1 \<or> wire_bytes out \<le> MAX_DATAGRAM_XFER_BYTES"
    by (rule Cons.IH)
  with Cons.prems show ?case by (cases "frames = []") (auto simp: Let_def split: if_splits)
qed auto

text \<open>One tick, on every branch.\<close>

lemma bulk_tick_cases:
  obtains
    (held) "fst (bulk_tick s d) \<in> {HeldForPriority, HeldForHeadroom, BulkIdle}" "snd (bulk_tick s d) = s"
      "blocks_bulk d \<or> headroom_remaining s = 0 \<or> bs_queue s = [] \<or>
         headroom_remaining s < length (bf_data (hd (bs_queue s)))"
  | (sent) frames rest where "fst (bulk_tick s d) = SendAggregated frames" "\<not> blocks_bulk d"
      "bs_queue s = frames @ rest" "frames \<noteq> []"
      "snd (bulk_tick s d) = s\<lparr>bs_queue := rest, headroom_remaining := headroom_remaining s - bulk_data_bytes frames\<rparr>"
      "bulk_data_bytes frames \<le> headroom_remaining s"
      "length frames = 1 \<or> wire_bytes frames \<le> MAX_DATAGRAM_XFER_BYTES"
proof (cases "blocks_bulk d \<or> headroom_remaining s = 0 \<or> bs_queue s = [] \<or>
         headroom_remaining s < length (bf_data (hd (bs_queue s)))")
  case True
  then have "fst (bulk_tick s d) \<in> {HeldForPriority, HeldForHeadroom, BulkIdle}" "snd (bulk_tick s d) = s"
    by (cases "bs_queue s"; auto simp: bulk_tick_def)+
  with True show ?thesis by (rule held [rotated 2])
next
  case False
  then obtain f queue where q: "bs_queue s = f # queue" "length (bf_data f) \<le> headroom_remaining s"
    by (cases "bs_queue s") auto
  obtain frames used rest where c: "coalesce (headroom_remaining s) [] 0 0 (bs_queue s) = (frames, used, rest)"
    by (metis prod_cases3)
  have c': "coalesce (headroom_remaining s) [] (wire_bytes []) (bulk_data_bytes []) (bs_queue s) = (frames, used, rest)"
    using c by simp
  have s: "bs_queue s = frames @ rest" "used = bulk_data_bytes frames" using coalesce_split [OF c'] by auto
  have "coalesce (headroom_remaining s) [f] (wire_bytes [f]) (bulk_data_bytes [f]) queue = (frames, used, rest)"
    using c q by (simp add: Let_def)
  from coalesce_split [OF this] have "frames \<noteq> []" by auto
  moreover have "bulk_tick s d = (SendAggregated frames,
      s\<lparr>bs_queue := rest, headroom_remaining := headroom_remaining s - bulk_data_bytes frames\<rparr>)"
    using False q c s(2) by (simp add: bulk_tick_def)
  ultimately show ?thesis
    using False s coalesce_headroom [OF c'] coalesce_fits [OF c'] by (intro sent) auto
qed

section \<open>Runs\<close>

text \<open>
  The caller sees the scheduler together with the demand it reports on the next tick; it grants
  headroom, changes the demand, enqueues frames and ticks.
\<close>

datatype bulk_adjustment = Headroom nat | Demand pacer_demand

fun bulk_enq :: "bulk_scheduler \<times> pacer_demand \<Rightarrow> bulk_frame \<Rightarrow> (bool \<times> bulk_scheduler \<times> pacer_demand) option" where
  "bulk_enq (s, d) f = Some (True, bulk_enqueue s f, d)"

fun sent_frames :: "tick_result \<Rightarrow> bulk_frame list option" where
  "sent_frames (SendAggregated frames) = Some frames"
| "sent_frames _ = None"

fun bulk_drain :: "bulk_scheduler \<times> pacer_demand \<Rightarrow> bulk_frame list option \<times> bulk_scheduler \<times> pacer_demand" where
  "bulk_drain (s, d) = (sent_frames (fst (bulk_tick s d)), snd (bulk_tick s d), d)"

fun bulk_adjust :: "bulk_scheduler \<times> pacer_demand \<Rightarrow> bulk_adjustment \<Rightarrow> bulk_scheduler \<times> pacer_demand" where
  "bulk_adjust (s, d) (Headroom n) = (set_headroom s n, d)"
| "bulk_adjust (s, d) (Demand d') = (s, d')"

definition bulk_pending :: "bulk_scheduler \<times> pacer_demand \<Rightarrow> nat \<Rightarrow> bulk_frame list" where
  "bulk_pending sd c = (if c = 0 then bs_queue (fst sd) else [])"

lemma bulk_drain_pending:
  "(case fst (bulk_drain (s, d)) of None \<Rightarrow> [] | Some fs \<Rightarrow> fs) @ bs_queue (snd (bulk_tick s d)) = bs_queue s"
  by (cases rule: bulk_tick_cases [of s d]) auto

interpretation bulk_queue: paced_queue bulk_enq bulk_drain bulk_adjust "\<lambda>f. 0" bulk_pending "\<lambda>_. True" 1
proof unfold_locales
  fix sd f sd' c
  assume "bulk_enq sd f = Some (True, sd')"
  then show "bulk_pending sd' c = bulk_pending sd c @ (if c = 0 then [f] else [])"
    by (cases sd) (auto simp: bulk_pending_def bulk_enqueue_def)
next
  fix sd out sd' c
  assume "bulk_drain sd = (out, sd')"
  then show "filter (\<lambda>f. 0 = c) (case out of None \<Rightarrow> [] | Some fs \<Rightarrow> fs) @ bulk_pending sd' c = bulk_pending sd c"
    using bulk_drain_pending by (cases sd) (auto simp: bulk_pending_def)
next
  fix sd a c
  show "bulk_pending (bulk_adjust sd a) c = bulk_pending sd c"
    by (cases sd; cases a) (simp_all add: bulk_pending_def set_headroom_def)
qed (auto simp: bulk_pending_def)

text \<open>Between two grants the bytes sent and the headroom left add up to the headroom granted.\<close>

definition grants :: "(bulk_frame, bulk_adjustment) paced_op list \<Rightarrow> nat set" where
  "grants ops = {n. PAdjust (Headroom n) \<in> set ops}"

lemma bulk_run_headroom:
  "paced_run bulk_enq bulk_drain bulk_adjust (s, d) ops = Some (acc, sent, t, d') \<Longrightarrow> grants ops = {} \<Longrightarrow>
     bulk_data_bytes sent + headroom_remaining t = headroom_remaining s"
proof (induction ops arbitrary: s d acc sent)
  case (Cons op ops)
  have g: "grants ops = {}" using Cons.prems(2) by (auto simp: grants_def)
  show ?case
  proof (cases op)
    case (PEnqueue f)
    then show ?thesis
      using Cons.prems(1) Cons.IH [OF _ g, of "bulk_enqueue s f"] by (auto simp: bulk_enqueue_def)
  next
    case PDrain
    let ?fs = "case fst (bulk_drain (s, d)) of None \<Rightarrow> [] | Some fs \<Rightarrow> fs"
    obtain sent' where r: "paced_run bulk_enq bulk_drain bulk_adjust (snd (bulk_tick s d), d) ops =
        Some (acc, sent', t, d')" "sent = ?fs @ sent'"
      using Cons.prems(1) PDrain by auto
    have "bulk_data_bytes ?fs + headroom_remaining (snd (bulk_tick s d)) = headroom_remaining s"
      by (cases rule: bulk_tick_cases [of s d]) auto
    then show ?thesis using Cons.IH [OF r(1) g] r(2) by simp
  next
    case (PAdjust a)
    then show ?thesis using Cons.prems Cons.IH [OF _ g] by (cases a) (auto simp: grants_def)
  qed
qed simp

definition enqueued :: "(bulk_frame, bulk_adjustment) paced_op list \<Rightarrow> bulk_frame list" where
  "enqueued ops = concat (map (\<lambda>op. case op of PEnqueue f \<Rightarrow> [f] | _ \<Rightarrow> []) ops)"

lemma enqueued_simps [simp]:
  "enqueued [] = []" "enqueued (PEnqueue f # ops) = f # enqueued ops" "enqueued (PDrain # ops) = enqueued ops"
  "enqueued (PAdjust a # ops) = enqueued ops"
  by (simp_all add: enqueued_def)

lemma bulk_run_accepts_all:
  "paced_run bulk_enq bulk_drain bulk_adjust sd ops = Some (acc, sent, t) \<Longrightarrow>
     acc = enqueued ops"
proof (induction ops arbitrary: sd acc sent t)
  case (Cons op ops)
  obtain s d where sd: "sd = (s, d)" by (cases sd)
  show ?case using Cons.prems unfolding sd
    by (cases op) (auto dest: Cons.IH)
qed simp

text \<open>
  Bulk transfer is a gated FIFO. Whatever the order of grants, demand changes, enqueues and
  ticks, no step panics and the frames sent, followed by the frames still queued, are exactly the
  frames that were queued at the start and enqueued since, in order. Without a new grant the bytes
  sent and the headroom left add up to the headroom at the start. Nothing is sent while voice or
  input waits. A datagram holds one frame or fits into 1181 bytes, and a tick with no demand and
  headroom for the first frame sends at least that frame.
\<close>

lemma bulk_transfer_gated:
  shows "\<exists>sent t d'. paced_run bulk_enq bulk_drain bulk_adjust (s, d) ops =
      Some (enqueued ops, sent, t, d') \<and>
    sent @ bs_queue t = bs_queue s @ enqueued ops \<and>
    (grants ops = {} \<longrightarrow> bulk_data_bytes sent + headroom_remaining t = headroom_remaining s) \<and>
    (blocks_bulk d \<longrightarrow> fst (bulk_tick s d) = HeldForPriority) \<and>
    (\<forall>frames. fst (bulk_tick s d) = SendAggregated frames \<longrightarrow>
       frames \<noteq> [] \<and> (length frames = 1 \<or> wire_bytes frames \<le> 1181)) \<and>
    (\<not> blocks_bulk d \<longrightarrow> bs_queue s \<noteq> [] \<longrightarrow> 0 < headroom_remaining s \<longrightarrow>
       length (bf_data (hd (bs_queue s))) \<le> headroom_remaining s \<longrightarrow>
       (\<exists>frames. fst (bulk_tick s d) = SendAggregated frames \<and> hd frames = hd (bs_queue s)))"
proof -
  obtain acc sent td where r: "paced_run bulk_enq bulk_drain bulk_adjust (s, d) ops = Some (acc, sent, td)"
    using bulk_queue.run_total [of ops "(s, d)"] by auto
  obtain t d' where td: "td = (t, d')" by (cases td)
  have acc: "acc = enqueued ops"
    by (rule bulk_run_accepts_all [OF r])
  have "filter (\<lambda>f. 0 = (0 :: nat)) sent @ bulk_pending td 0 = bulk_pending (s, d) 0 @ filter (\<lambda>f. 0 = (0 :: nat)) acc"
    using bulk_queue.run_conserves [OF _ r, of 0] by simp
  then have fifo: "sent @ bs_queue t = bs_queue s @ acc" by (simp add: bulk_pending_def td)
  have gate: "blocks_bulk d \<Longrightarrow> fst (bulk_tick s d) = HeldForPriority" by (simp add: bulk_tick_def)
  have fits: "frames \<noteq> [] \<and> (length frames = 1 \<or> wire_bytes frames \<le> 1181)"
    if "fst (bulk_tick s d) = SendAggregated frames" for frames
    using that by (cases rule: bulk_tick_cases [of s d])
      (auto simp: MAX_DATAGRAM_XFER_BYTES_def XFER_DATAGRAM_OVERHEAD_def)
  have progress: "\<exists>frames. fst (bulk_tick s d) = SendAggregated frames \<and> hd frames = hd (bs_queue s)"
    if "\<not> blocks_bulk d" "bs_queue s \<noteq> []" "0 < headroom_remaining s"
      "length (bf_data (hd (bs_queue s))) \<le> headroom_remaining s"
    using that by (cases rule: bulk_tick_cases [of s d]) auto
  have run: "paced_run bulk_enq bulk_drain bulk_adjust (s, d) ops = Some (enqueued ops, sent, t, d')"
    using r acc td by simp
  show ?thesis
    by (rule exI [of _ sent], rule exI [of _ t], rule exI [of _ d'])
      (use run fifo gate fits progress bulk_run_headroom [OF run] in \<open>simp add: acc\<close>)
qed

end
