(* ===== verification/Temporal.thy ===== *)
theory Temporal
  imports Prelude Complex_Main
begin

text \<open>
  Frame-level control of the camera encoder (\<open>core/platform/src\<close>): temporal layers and their drop
  controller (\<open>temporal_svc.rs\<close>) and the rolling intra refresh (\<open>intra_refresh.rs\<close>). The frame
  counter is a \<open>u64\<close> that wraps; the tick counters are reset before they exceed 30.

  The lemmas show that the base layer is never dropped, that the announced share of frames is
  forwarded exactly, and that every column is refreshed in every round.
\<close>

section \<open>Temporal layers\<close>

definition OVERUSE_ESCALATE_TICKS :: nat where "OVERUSE_ESCALATE_TICKS = 3"
definition UNDERUSE_RELAX_TICKS :: nat where "UNDERUSE_RELAX_TICKS = 30"

datatype temporal_svc_mode = L1T2 | L1T3

definition T0 :: u8 where "T0 = 0"
definition T1 :: u8 where "T1 = 1"
definition T2 :: u8 where "T2 = 2"
definition NO_DROP :: u8 where "NO_DROP = 255"

record temporal_layer_assigner =
  tla_mode :: temporal_svc_mode
  tla_frame_count :: u64

definition layer_assigner_new :: "temporal_svc_mode \<Rightarrow> temporal_layer_assigner" where
  "layer_assigner_new mode = \<lparr>tla_mode = mode, tla_frame_count = 0\<rparr>"

definition layer_for :: "temporal_svc_mode \<Rightarrow> u64 \<Rightarrow> u8" where
  "layer_for mode n =
     (case mode of
        L1T2 \<Rightarrow> if n mod 2 = 0 then T0 else T1
      | L1T3 \<Rightarrow> if n mod 4 = 0 then T0 else if n mod 4 = 2 then T1 else T2)"

definition next_layer :: "temporal_layer_assigner \<Rightarrow> u8 \<times> temporal_layer_assigner" where
  "next_layer a =
     (layer_for (tla_mode a) (tla_frame_count a), a\<lparr>tla_frame_count := tla_frame_count a + 1\<rparr>)"

record temporal_svc_controller =
  svc_assigner :: temporal_layer_assigner
  svc_drop_floor :: u8
  svc_overuse_ticks :: nat
  svc_underuse_ticks :: nat

definition svc_new :: "temporal_svc_mode \<Rightarrow> temporal_svc_controller" where
  "svc_new mode = \<lparr>svc_assigner = layer_assigner_new mode, svc_drop_floor = NO_DROP,
     svc_overuse_ticks = 0, svc_underuse_ticks = 0\<rparr>"

definition svc_mode :: "temporal_svc_controller \<Rightarrow> temporal_svc_mode" where
  "svc_mode c = tla_mode (svc_assigner c)"

definition svc_escalate :: "temporal_svc_controller \<Rightarrow> temporal_svc_controller" where
  "svc_escalate c = c\<lparr>svc_drop_floor :=
     (case svc_mode c of
        L1T2 \<Rightarrow> T1
      | L1T3 \<Rightarrow> if svc_drop_floor c = NO_DROP then T2 else T1)\<rparr>"

definition svc_relax :: "temporal_svc_controller \<Rightarrow> temporal_svc_controller" where
  "svc_relax c = c\<lparr>svc_drop_floor :=
     (case svc_mode c of
        L1T2 \<Rightarrow> NO_DROP
      | L1T3 \<Rightarrow> if svc_drop_floor c \<le> T1 then T2 else NO_DROP)\<rparr>"

definition svc_update :: "temporal_svc_controller \<Rightarrow> bool \<Rightarrow> temporal_svc_controller" where
  "svc_update c overuse =
     (if overuse then
        (let c = c\<lparr>svc_overuse_ticks := svc_overuse_ticks c + 1, svc_underuse_ticks := 0\<rparr> in
         if OVERUSE_ESCALATE_TICKS \<le> svc_overuse_ticks c
         then (svc_escalate c)\<lparr>svc_overuse_ticks := 0\<rparr> else c)
      else
        (let c = c\<lparr>svc_underuse_ticks := svc_underuse_ticks c + 1, svc_overuse_ticks := 0\<rparr> in
         if UNDERUSE_RELAX_TICKS \<le> svc_underuse_ticks c
         then (svc_relax c)\<lparr>svc_underuse_ticks := 0\<rparr> else c))"

definition next_frame :: "temporal_svc_controller \<Rightarrow> (u8 \<times> bool) \<times> temporal_svc_controller" where
  "next_frame c =
     (let (layer, assigner) = next_layer (svc_assigner c)
      in ((layer, svc_drop_floor c \<le> layer), c\<lparr>svc_assigner := assigner\<rparr>))"

definition active_frame_fraction :: "temporal_svc_controller \<Rightarrow> rat" where
  "active_frame_fraction c =
     (case svc_mode c of
        L1T2 \<Rightarrow> if svc_drop_floor c \<le> T1 then 1 / 2 else 1
      | L1T3 \<Rightarrow> if svc_drop_floor c \<le> T1 then 1 / 4 else if svc_drop_floor c \<le> T2 then 1 / 2 else 1)"

section \<open>Intra refresh\<close>

datatype intra_refresh_frame = Keyframe | ColumnSweep u32

record intra_refresh_state =
  irs_columns :: u32
  irs_next_col :: u32
  irs_started :: bool

definition intra_refresh_new :: "u32 \<Rightarrow> intra_refresh_state option" where
  "intra_refresh_new columns =
     (if columns = 0 then None
      else Some \<lparr>irs_columns = columns, irs_next_col = 0, irs_started = False\<rparr>)"

text \<open>The addition panics on overflow when \<open>overflow_checks\<close> is set; the remainder by zero always.\<close>

definition intra_refresh_advance ::
  "bool \<Rightarrow> intra_refresh_state \<Rightarrow> (intra_refresh_frame \<times> intra_refresh_state) option" where
  "intra_refresh_advance overflow_checks s =
     (if \<not> irs_started s then Some (Keyframe, s\<lparr>irs_started := True\<rparr>)
      else if overflow_checks \<and> irs_next_col s = -1 \<or> irs_columns s = 0 then None
      else Some (ColumnSweep (irs_next_col s),
             s\<lparr>irs_next_col := (irs_next_col s + 1) mod irs_columns s\<rparr>))"

section \<open>The drop controller\<close>

lemmas layer_consts = T0_def T1_def T2_def NO_DROP_def
lemmas svc_consts = OVERUSE_ESCALATE_TICKS_def UNDERUSE_RELAX_TICKS_def

text \<open>The levels the floor can have, per mode.\<close>

definition svc_ok :: "temporal_svc_controller \<Rightarrow> bool" where
  "svc_ok c \<longleftrightarrow>
     svc_drop_floor c \<in> (case svc_mode c of L1T2 \<Rightarrow> {T1, NO_DROP} | L1T3 \<Rightarrow> {T1, T2, NO_DROP}) \<and>
     svc_overuse_ticks c < 3 \<and> svc_underuse_ticks c < 30 \<and>
     (svc_overuse_ticks c = 0 \<or> svc_underuse_ticks c = 0)"

datatype svc_op = SvcUpdate bool | SvcFrame

fun svc_step :: "temporal_svc_controller \<Rightarrow> svc_op \<Rightarrow> temporal_svc_controller" where
  "svc_step c (SvcUpdate overuse) = svc_update c overuse"
| "svc_step c SvcFrame = snd (next_frame c)"

lemma svc_mode_ops [simp]:
  "svc_mode (svc_update c o') = svc_mode c" "svc_mode (snd (next_frame c)) = svc_mode c"
  "svc_mode (svc_new m) = m"
  by (simp_all add: svc_mode_def svc_update_def svc_escalate_def svc_relax_def next_frame_def next_layer_def
      svc_new_def layer_assigner_new_def Let_def)

lemma svc_ok_new: "svc_ok (svc_new mode)"
  by (cases mode) (simp_all add: svc_ok_def svc_mode_def svc_new_def layer_assigner_new_def)

lemma svc_ok_update: "svc_ok c \<Longrightarrow> svc_ok (svc_update c o')"
  unfolding svc_ok_def svc_mode_ops
  by (cases "svc_mode c") (auto simp: svc_update_def svc_escalate_def svc_relax_def svc_mode_def Let_def svc_consts)

lemma svc_ok_frame: "svc_ok c \<Longrightarrow> svc_ok (snd (next_frame c))"
  unfolding svc_ok_def svc_mode_ops by (simp add: next_frame_def next_layer_def)

interpretation svc_machine: invariant_machine "svc_new mode" svc_step "\<lambda>c. svc_ok c \<and> svc_mode c = mode" for mode
proof unfold_locales
  fix c a
  assume "svc_ok c \<and> svc_mode c = mode"
  then show "svc_ok (svc_step c a) \<and> svc_mode (svc_step c a) = mode"
    by (cases a) (simp_all add: svc_ok_update svc_ok_frame)
qed (simp add: svc_ok_new)

text \<open>The next frames of a controller.\<close>

fun svc_frames :: "nat \<Rightarrow> temporal_svc_controller \<Rightarrow> (u8 \<times> bool) list" where
  "svc_frames 0 c = []"
| "svc_frames (Suc k) c = fst (next_frame c) # svc_frames k (snd (next_frame c))"

definition base_kept :: "(u8 \<times> bool) list \<Rightarrow> bool" where
  "base_kept fs \<longleftrightarrow> (\<forall>(layer, drop)\<in>set fs. layer = T0 \<longrightarrow> \<not> drop)"

lemma unat_mod_small: "unat (n mod 2) = unat n mod 2" "unat (n mod 4) = unat n mod 4" for n :: u64
  by (simp_all add: unat_mod)

lemma unat_Suc_mod4: "unat (n + 1) mod 4 = Suc (unat n) mod 4" for n :: u64
proof -
  have "unat (n + 1) = (unat n + 1) mod 2 ^ 64" by (simp add: unat_word_ariths)
  moreover have "(4 :: nat) dvd 2 ^ 64" by simp
  ultimately show ?thesis by (simp only: mod_mod_cancel Suc_eq_plus1)
qed

text \<open>The layer of a frame, from its number modulo 4.\<close>

fun layer_at :: "temporal_svc_mode \<Rightarrow> nat \<Rightarrow> u8" where
  "layer_at L1T2 k = (if even k then T0 else T1)"
| "layer_at L1T3 k = (if k = 0 then T0 else if k = 2 then T1 else T2)"

lemma layer_for_at: "layer_for mode n = layer_at mode (unat n mod 4)"
proof -
  have "n mod 2 = 0 \<longleftrightarrow> even (unat n mod 4)" for n :: u64
    by (simp flip: unat_eq_zero add: unat_mod_small even_iff_mod_2_eq_zero mod_mod_cancel)
  moreover have "n mod 4 = k \<longleftrightarrow> unat n mod 4 = unat k" for n k :: u64
    by (simp flip: unat_mod_small(2) add: word_unat_eq_iff)
  ultimately show ?thesis by (cases mode) (simp_all add: layer_for_def)
qed

lemma next_frame_eq:
  "next_frame c = ((layer_at (svc_mode c) (unat (tla_frame_count (svc_assigner c)) mod 4),
       svc_drop_floor c \<le> layer_at (svc_mode c) (unat (tla_frame_count (svc_assigner c)) mod 4)),
     c\<lparr>svc_assigner := (svc_assigner c)\<lparr>tla_frame_count := tla_frame_count (svc_assigner c) + 1\<rparr>\<rparr>)"
  by (simp add: next_frame_def next_layer_def svc_mode_def layer_for_at)

lemma svc_frames_layers:
  "svc_frames k c = map (\<lambda>i. (layer_at (svc_mode c) ((unat (tla_frame_count (svc_assigner c)) + i) mod 4),
       svc_drop_floor c \<le> layer_at (svc_mode c) ((unat (tla_frame_count (svc_assigner c)) + i) mod 4))) [0..<k]"
proof (induction k arbitrary: c)
  case (Suc k)
  have "(unat (n + 1) + i) mod 4 = (unat n + Suc i) mod 4" for n :: u64 and i
    using unat_Suc_mod4 [of n] by (metis add_Suc_shift mod_add_left_eq)
  then show ?case
    by (simp add: Suc next_frame_eq svc_mode_def map_upt_Suc del: upt_Suc)
qed simp

text \<open>Escalation and recovery: the floor after a steady signal.\<close>

lemma foldl_replicate_Suc: "foldl f c (replicate (Suc k) x) = f (foldl f c (replicate k x)) x"
  by (metis foldl_Cons foldl_Nil foldl_append replicate_append_same replicate_Suc)

lemma svc_hold:
  "svc_overuse_ticks c + k < 3 \<Longrightarrow> foldl svc_update c (replicate k True) =
     c\<lparr>svc_overuse_ticks := svc_overuse_ticks c + k, svc_underuse_ticks := if k = 0 then svc_underuse_ticks c else 0\<rparr>"
  "svc_underuse_ticks c + k < 30 \<Longrightarrow> foldl svc_update c (replicate k False) =
     c\<lparr>svc_underuse_ticks := svc_underuse_ticks c + k, svc_overuse_ticks := if k = 0 then svc_overuse_ticks c else 0\<rparr>"
  by (induction k) (auto simp: foldl_replicate_Suc svc_update_def svc_consts Let_def simp del: replicate.simps(2))

lemma svc_turn:
  assumes "svc_overuse_ticks c < 3"
  shows "foldl svc_update c (replicate (3 - svc_overuse_ticks c) True) =
    (svc_escalate c)\<lparr>svc_overuse_ticks := 0, svc_underuse_ticks := 0\<rparr>"
proof -
  define k where "k = 2 - svc_overuse_ticks c"
  have "3 - svc_overuse_ticks c = Suc k" "svc_overuse_ticks c + k = 2" using assms by (auto simp: k_def)
  then show ?thesis
    using svc_hold(1) [of c k]
    by (simp add: foldl_replicate_Suc svc_update_def svc_consts Let_def svc_escalate_def svc_mode_def
        del: replicate.simps(2))
qed

lemma svc_turn_back:
  assumes "svc_underuse_ticks c < 30"
  shows "foldl svc_update c (replicate (30 - svc_underuse_ticks c) False) =
    (svc_relax c)\<lparr>svc_underuse_ticks := 0, svc_overuse_ticks := 0\<rparr>"
proof -
  define k where "k = 29 - svc_underuse_ticks c"
  have "30 - svc_underuse_ticks c = Suc k" "svc_underuse_ticks c + k = 29" using assms by (auto simp: k_def)
  then show ?thesis
    using svc_hold(2) [of c k]
    by (simp add: foldl_replicate_Suc svc_update_def svc_consts Let_def svc_relax_def svc_mode_def
        del: replicate.simps(2))
qed

lemma svc_update_run:
  assumes "svc_ok c"
  shows "svc_drop_floor (foldl svc_update c (replicate 6 True)) = T1"
    "svc_drop_floor (foldl svc_update c (replicate 60 False)) = NO_DROP"
proof -
  let ?e = "(svc_escalate c)\<lparr>svc_overuse_ticks := 0, svc_underuse_ticks := 0\<rparr>"
  let ?e2 = "(svc_escalate ?e)\<lparr>svc_overuse_ticks := 0, svc_underuse_ticks := 0\<rparr>"
  have o3: "svc_overuse_ticks c < 3" and u30: "svc_underuse_ticks c < 30" using assms by (simp_all add: svc_ok_def)
  have "(6 :: nat) = (3 - svc_overuse_ticks c) + (3 + svc_overuse_ticks c)" using o3 by simp
  then have "replicate 6 True = replicate (3 - svc_overuse_ticks c) True @ replicate 3 True @
      replicate (svc_overuse_ticks c) True"
    by (metis replicate_add)
  then have "foldl svc_update c (replicate 6 True) = foldl svc_update ?e2 (replicate (svc_overuse_ticks c) True)"
    using svc_turn [OF o3] svc_turn [of ?e] by simp
  also have "svc_drop_floor \<dots> = T1"
    using svc_hold(1) [of ?e2 "svc_overuse_ticks c"] o3 assms
    by (cases "svc_mode c") (auto simp: svc_ok_def svc_escalate_def svc_mode_def layer_consts word_le_nat_alt)
  finally show "svc_drop_floor (foldl svc_update c (replicate 6 True)) = T1" .
  let ?r = "(svc_relax c)\<lparr>svc_underuse_ticks := 0, svc_overuse_ticks := 0\<rparr>"
  let ?r2 = "(svc_relax ?r)\<lparr>svc_underuse_ticks := 0, svc_overuse_ticks := 0\<rparr>"
  have "(60 :: nat) = (30 - svc_underuse_ticks c) + (30 + svc_underuse_ticks c)" using u30 by simp
  then have "replicate 60 False = replicate (30 - svc_underuse_ticks c) False @ replicate 30 False @
      replicate (svc_underuse_ticks c) False"
    by (metis replicate_add)
  then have "foldl svc_update c (replicate 60 False) = foldl svc_update ?r2 (replicate (svc_underuse_ticks c) False)"
    using svc_turn_back [OF u30] svc_turn_back [of ?r] by simp
  also have "svc_drop_floor \<dots> = NO_DROP"
    using svc_hold(2) [of ?r2 "svc_underuse_ticks c"] u30 assms
    by (cases "svc_mode c") (auto simp: svc_ok_def svc_relax_def svc_mode_def layer_consts word_le_nat_alt)
  finally show "svc_drop_floor (foldl svc_update c (replicate 60 False)) = NO_DROP" .
qed

text \<open>
  Dropping layers never touches the base layer and forwards exactly the announced share of
  frames. After any sequence of congestion updates and frames, also across a wrap of the frame
  counter: of any four successive frames exactly four times the active fraction are forwarded, and
  every base-layer frame is. Six updates under overuse bring the controller to the base layer
  alone, sixty without bring all layers back.
\<close>

lemma svc_forwards_fraction:
  "let c = foldl svc_step (svc_new mode) ops in
    base_kept (svc_frames k c) \<and>
    of_nat (length (filter (\<lambda>(layer, drop). \<not> drop) (svc_frames 4 c))) = 4 * active_frame_fraction c \<and>
    svc_drop_floor (foldl svc_update c (replicate 6 True)) = T1 \<and>
    svc_drop_floor (foldl svc_update c (replicate 60 False)) = NO_DROP"
proof -
  define c where "c = foldl svc_step (svc_new mode) ops"
  have c: "svc_ok c" "svc_mode c = mode" unfolding c_def using svc_machine.inv_run [of mode ops] by auto
  have floor: "svc_drop_floor c \<in> {T1, T2, NO_DROP}" using c(1) by (auto simp: svc_ok_def split: temporal_svc_mode.splits)
  then have "base_kept (svc_frames k c)"
    by (auto simp: base_kept_def svc_frames_layers layer_consts word_le_nat_alt)
  moreover define n where "n = unat (tla_frame_count (svc_assigner c)) mod 4"
  have "n \<in> {0, 1, 2, 3}" by (auto simp: n_def)
  have four: "[0..<4] = [0, 1, 2, 3 :: nat]" by (simp add: upt_rec)
  have frames: "svc_frames 4 c = map (\<lambda>i. (layer_at mode ((n + i) mod 4),
      svc_drop_floor c \<le> layer_at mode ((n + i) mod 4))) [0, 1, 2, 3]"
    unfolding svc_frames_layers four c(2) n_def by (simp only: mod_add_left_eq)
  have "of_nat (length (filter (\<lambda>(layer, drop). \<not> drop) (svc_frames 4 c))) = 4 * active_frame_fraction c"
  proof (cases mode)
    case L1T2
    then have "svc_drop_floor c = T1 \<or> svc_drop_floor c = NO_DROP" using c by (auto simp: svc_ok_def)
    then show ?thesis using \<open>n \<in> {0, 1, 2, 3}\<close> L1T2
      by (elim disjE insertE emptyE) (simp_all add: frames active_frame_fraction_def c(2) layer_consts word_le_nat_alt)
  next
    case L1T3
    show ?thesis using floor \<open>n \<in> {0, 1, 2, 3}\<close> L1T3
      by (elim insertE emptyE) (simp_all add: frames active_frame_fraction_def c(2) layer_consts word_le_nat_alt)
  qed
  ultimately show ?thesis using svc_update_run [OF c(1)] unfolding Let_def c_def by simp
qed

section \<open>Columns\<close>

fun refresh_run :: "bool \<Rightarrow> nat \<Rightarrow> intra_refresh_state \<Rightarrow> (intra_refresh_frame list \<times> intra_refresh_state) option" where
  "refresh_run oc 0 s = Some ([], s)"
| "refresh_run oc (Suc k) s =
     (case intra_refresh_advance oc s of
        None \<Rightarrow> None
      | Some (f, s') \<Rightarrow> map_option (\<lambda>(fs, t). (f # fs, t)) (refresh_run oc k s'))"

lemma refresh_sweep:
  assumes "irs_started s" "irs_next_col s < irs_columns s"
  shows "\<exists>t. refresh_run oc k s = Some (map (\<lambda>i. ColumnSweep (of_nat ((unat (irs_next_col s) + i) mod
      unat (irs_columns s)))) [0..<k], t)"
  using assms
proof (induction k arbitrary: s)
  case (Suc k)
  let ?n = "unat (irs_columns s)" and ?c = "unat (irs_next_col s)"
  have lt: "?c < ?n" using Suc.prems(2) by (simp add: word_less_nat_alt)
  have n: "?n < 2 ^ 32" using unat_less_exp [of "irs_columns s"] by simp
  have u: "unat (irs_next_col s + 1) = ?c + 1" using lt n by (simp add: unat_word_ariths)
  have ok: "irs_next_col s \<noteq> -1" "irs_columns s \<noteq> 0" using u lt by auto
  let ?s = "s\<lparr>irs_next_col := (irs_next_col s + 1) mod irs_columns s\<rparr>"
  have nxt: "unat (irs_next_col ?s) = (?c + 1) mod ?n" by (simp add: unat_mod u)
  have "\<exists>t. refresh_run oc k ?s = Some (map (\<lambda>i. ColumnSweep (of_nat ((unat (irs_next_col ?s) + i) mod
      unat (irs_columns ?s)))) [0..<k], t)"
    by (rule Suc.IH) (use Suc.prems(1) lt in \<open>simp_all add: word_less_nat_alt unat_mod\<close>)
  then obtain t where "refresh_run oc k ?s = Some (map (\<lambda>i. ColumnSweep (of_nat ((?c + 1 + i) mod ?n))) [0..<k], t)"
    unfolding nxt by (auto simp: mod_add_left_eq)
  then show ?case using Suc.prems(1) ok lt
    by (simp add: intra_refresh_advance_def map_upt_Suc del: upt_Suc)
qed simp

text \<open>
  A camera stream starts with the only keyframe it ever sends, and from then on every column is
  refreshed exactly once in every round of as many frames as there are columns.
\<close>

lemma intra_refresh_covers:
  assumes "columns \<noteq> 0"
  shows "\<exists>s t. intra_refresh_new columns = Some s \<and>
    refresh_run oc (Suc k) s = Some (Keyframe # map (\<lambda>i. ColumnSweep (of_nat (i mod unat columns))) [0..<k], t)"
proof -
  let ?s = "\<lparr>irs_columns = columns, irs_next_col = 0, irs_started = True\<rparr>"
  have "0 < columns" using assms by (simp add: word_gt_0)
  then obtain t where "refresh_run oc k ?s = Some (map (\<lambda>i. ColumnSweep (of_nat (i mod unat columns))) [0..<k], t)"
    using refresh_sweep [of ?s oc k] by auto
  then show ?thesis using assms by (simp add: intra_refresh_new_def intra_refresh_advance_def)
qed

end
