(* ===== verification/Concealment.thy ===== *)
theory Concealment
  imports F64 Tier
begin

text \<open>
  Voice under loss (\<open>core/platform/src\<close>): the concealment chain (\<open>plc_chain.rs\<close>), the redundancy
  senders (\<open>dred_sender.rs\<close>, \<open>lbrr_fec.rs\<close>), the response to a bandwidth collapse
  (\<open>collapse_audio.rs\<close>), packet durations (\<open>opus_packetizer.rs\<close>), the input latency budget
  (\<open>input_latency_budget.rs\<close>) and the adaptive jitter buffer (\<open>jitter_buffer.rs\<close>). Counters of
  frames and packets are natural numbers; \<open>f64\<close> arithmetic is bit-exact for finite values.

  The lemmas give each decision from the history of losses, bandwidths or delays.
\<close>

section \<open>Concealment chain\<close>

definition DRED_DEPTH_FRAMES :: nat where "DRED_DEPTH_FRAMES = 50"
definition NEURAL_PLC_MAX_FRAMES :: nat where "NEURAL_PLC_MAX_FRAMES = 5"
definition COMFORT_NOISE_FADE_FRAMES :: nat where "COMFORT_NOISE_FADE_FRAMES = 8"

datatype plc_stage = FecDecode | Dred | NeuralPlc | ComfortNoise
datatype plc_outcome = PlcReceived | Concealed plc_stage

record plc_chain =
  plc_dred_depth :: nat
  plc_burst :: nat

definition plc_new :: "nat \<Rightarrow> plc_chain" where
  "plc_new depth = \<lparr>plc_dred_depth = depth, plc_burst = 0\<rparr>"

definition plc_advance :: "plc_chain \<Rightarrow> bool \<Rightarrow> plc_outcome \<times> plc_chain" where
  "plc_advance p received =
     (if received then (PlcReceived, p\<lparr>plc_burst := 0\<rparr>)
      else
        (let burst = plc_burst p + 1;
             stage = (if burst = 1 then FecDecode
                      else if burst \<le> plc_dred_depth p then Dred
                      else if burst \<le> plc_dred_depth p + NEURAL_PLC_MAX_FRAMES then NeuralPlc
                      else ComfortNoise)
         in (Concealed stage, p\<lparr>plc_burst := burst\<rparr>)))"

definition plc_is_idle :: "plc_chain \<Rightarrow> bool" where
  "plc_is_idle p \<longleftrightarrow> plc_burst p = 0"

definition comfort_noise_gain :: "plc_chain \<Rightarrow> f64" where
  "comfort_noise_gain p =
     (let cn_start = plc_dred_depth p + NEURAL_PLC_MAX_FRAMES + 1 in
      if plc_burst p < cn_start then 0
      else
        (let frames_into_cn = plc_burst p - cn_start;
             fade_frac = f64_div (f64_of_nat frames_into_cn) (f64_of_nat COMFORT_NOISE_FADE_FRAMES)
         in max (f64_sub 1 fade_frac) 0))"

section \<open>Redundancy\<close>

definition DRED_FRAME_DURATION_MS :: nat where "DRED_FRAME_DURATION_MS = 20"
definition MAX_DRED_DEPTH_FRAMES :: nat where "MAX_DRED_DEPTH_FRAMES = 1000 div DRED_FRAME_DURATION_MS"
definition MIN_DRED_DEPTH_FRAMES :: nat where "MIN_DRED_DEPTH_FRAMES = 0"
definition DRED_OVERHEAD_BPS_PER_FRAME :: nat where "DRED_OVERHEAD_BPS_PER_FRAME = 800"

record dred_sender =
  dred_depth_frames :: nat

definition dred_new :: "nat \<Rightarrow> dred_sender" where
  "dred_new depth = \<lparr>dred_depth_frames = clamp depth MIN_DRED_DEPTH_FRAMES MAX_DRED_DEPTH_FRAMES\<rparr>"

definition dred_set_depth :: "dred_sender \<Rightarrow> nat \<Rightarrow> dred_sender" where
  "dred_set_depth d depth = d\<lparr>dred_depth_frames := clamp depth MIN_DRED_DEPTH_FRAMES MAX_DRED_DEPTH_FRAMES\<rparr>"

definition dred_depth_ms :: "dred_sender \<Rightarrow> nat" where
  "dred_depth_ms d = dred_depth_frames d * DRED_FRAME_DURATION_MS"

definition dred_is_active :: "dred_sender \<Rightarrow> bool" where
  "dred_is_active d \<longleftrightarrow> 0 < dred_depth_frames d"

definition dred_overhead_bps :: "dred_sender \<Rightarrow> nat" where
  "dred_overhead_bps d = dred_depth_frames d * DRED_OVERHEAD_BPS_PER_FRAME"

text \<open>\<open>ceil() as usize\<close>: the cast saturates at the largest \<open>usize\<close>, the clamp follows.\<close>

definition dred_depth_from_burst_ms :: "f64 \<Rightarrow> nat" where
  "dred_depth_from_burst_ms burst_ms =
     (if burst_ms \<le> 0 then MIN_DRED_DEPTH_FRAMES
      else
        (let frames = min (nat \<lceil>f64_div burst_ms (f64_of_nat DRED_FRAME_DURATION_MS)\<rceil>) (2 ^ 64 - 1)
         in clamp frames MIN_DRED_DEPTH_FRAMES MAX_DRED_DEPTH_FRAMES))"

definition dred_depth_from_ge_burst_packets :: "f64 \<Rightarrow> nat" where
  "dred_depth_from_ge_burst_packets mean_burst_packets =
     dred_depth_from_burst_ms (f64_mul mean_burst_packets (f64_of_nat DRED_FRAME_DURATION_MS))"

definition apply_ge_estimate :: "dred_sender \<Rightarrow> f64 \<Rightarrow> dred_sender" where
  "apply_ge_estimate d mean_burst_packets =
     dred_set_depth d (dred_depth_from_ge_burst_packets mean_burst_packets)"

definition LBRR_OVERHEAD_BPS :: nat where "LBRR_OVERHEAD_BPS = 2000"
definition LBRR_ENABLE_THRESHOLD :: f64 where "LBRR_ENABLE_THRESHOLD = f64_round (1 / 1000)"

record lbrr_encoder =
  lbrr_enabled :: bool
  lbrr_packet_loss_perc :: nat

definition lbrr_new :: lbrr_encoder where
  "lbrr_new = \<lparr>lbrr_enabled = False, lbrr_packet_loss_perc = 0\<rparr>"

definition set_loss_rate :: "lbrr_encoder \<Rightarrow> f64 \<Rightarrow> lbrr_encoder" where
  "set_loss_rate e loss_rate =
     (let clamped = clamp loss_rate 0 1 in
      if LBRR_ENABLE_THRESHOLD \<le> clamped
      then e\<lparr>lbrr_enabled := True,
             lbrr_packet_loss_perc := max (nat (clamp (f64_round_int (f64_mul clamped 100)) 0 255)) 1\<rparr>
      else e\<lparr>lbrr_enabled := False, lbrr_packet_loss_perc := 0\<rparr>)"

definition lbrr_overhead_bps :: "lbrr_encoder \<Rightarrow> nat" where
  "lbrr_overhead_bps e = (if lbrr_enabled e then LBRR_OVERHEAD_BPS else 0)"

record lbrr_decoder =
  fec_pending :: bool

definition lbrr_decoder_new :: lbrr_decoder where
  "lbrr_decoder_new = \<lparr>fec_pending = False\<rparr>"

definition mark_isolated_loss :: "lbrr_decoder \<Rightarrow> lbrr_decoder" where
  "mark_isolated_loss d = d\<lparr>fec_pending := True\<rparr>"

definition consume_fec_pending :: "lbrr_decoder \<Rightarrow> bool \<times> lbrr_decoder" where
  "consume_fec_pending d = (fec_pending d, d\<lparr>fec_pending := False\<rparr>)"

section \<open>Collapse\<close>

definition COLLAPSE_AUDIO_BPS :: nat where "COLLAPSE_AUDIO_BPS = 12000"
definition COLLAPSE_DRED_DEPTH_FRAMES :: nat where "COLLAPSE_DRED_DEPTH_FRAMES = MAX_DRED_DEPTH_FRAMES"
definition COLLAPSE_THRESHOLD_RATIO :: f64 where "COLLAPSE_THRESHOLD_RATIO = f64_round (7 / 10)"
definition COLLAPSE_HOLD_TICKS :: nat where "COLLAPSE_HOLD_TICKS = 30"

datatype collapse_audio_response = CollapseNormal | Stepped nat nat

record collapse_audio_governor =
  ca_prev_bps :: "f64 option"
  ca_hold_remaining :: nat

definition collapse_new :: collapse_audio_governor where
  "collapse_new = \<lparr>ca_prev_bps = None, ca_hold_remaining = 0\<rparr>"

definition collapse_tick ::
  "collapse_audio_governor \<Rightarrow> f64 \<Rightarrow> collapse_audio_response \<times> collapse_audio_governor" where
  "collapse_tick g current_bps =
     (let is_collapse = (case ca_prev_bps g of
                           Some prev \<Rightarrow> 0 < prev \<and> current_bps < f64_mul prev COLLAPSE_THRESHOLD_RATIO
                         | None \<Rightarrow> False);
          hold = (if is_collapse then COLLAPSE_HOLD_TICKS else ca_hold_remaining g);
          in_collapse = (is_collapse \<or> 0 < hold);
          hold' = (if \<not> is_collapse \<and> 0 < hold then hold - 1 else hold)
      in (if in_collapse then Stepped COLLAPSE_AUDIO_BPS COLLAPSE_DRED_DEPTH_FRAMES else CollapseNormal,
          g\<lparr>ca_prev_bps := Some current_bps, ca_hold_remaining := hold'\<rparr>))"

definition is_in_collapse :: "collapse_audio_governor \<Rightarrow> bool" where
  "is_in_collapse g \<longleftrightarrow> 0 < ca_hold_remaining g"

section \<open>Packets and input latency\<close>

definition SURVIVAL_FRAME_MS :: nat where "SURVIVAL_FRAME_MS = 60"
definition DEFAULT_FRAME_MS :: nat where "DEFAULT_FRAME_MS = 20"

definition frame_duration_ms_from_tier :: "tier_state \<Rightarrow> nat" where
  "frame_duration_ms_from_tier tier = (if tier = Survival then SURVIVAL_FRAME_MS else DEFAULT_FRAME_MS)"

definition packets_per_second :: "nat \<Rightarrow> nat" where
  "packets_per_second frame_ms = (if frame_ms = 0 then 0 else 1000 div frame_ms)"

definition header_overhead_fraction :: "nat \<Rightarrow> nat \<Rightarrow> nat \<Rightarrow> f64" where
  "header_overhead_fraction frame_ms codec_bps header_bytes =
     (if frame_ms = 0 \<or> codec_bps = 0 then 0
      else
        (let payload = f64_div (f64_mul (f64_of_nat codec_bps) (f64_of_nat frame_ms)) (f64_mul 8 1000);
             header = f64_of_nat header_bytes
         in f64_div header (f64_add header payload)))"

definition INPUT_TO_PHOTON_FIXED_OVERHEAD_MS :: nat where "INPUT_TO_PHOTON_FIXED_OVERHEAD_MS = 20"
definition INPUT_TO_PHOTON_SLA_MS :: nat where "INPUT_TO_PHOTON_SLA_MS = 60"
definition INPUT_PACER_TICK_MS :: nat where "INPUT_PACER_TICK_MS = 5"
definition MAX_BACKLOG_WITHIN_SLA :: nat where
  "MAX_BACKLOG_WITHIN_SLA = (INPUT_TO_PHOTON_SLA_MS - INPUT_TO_PHOTON_FIXED_OVERHEAD_MS) div INPUT_PACER_TICK_MS"

definition queuing_delay_ms :: "nat \<Rightarrow> nat" where
  "queuing_delay_ms backlog = backlog * INPUT_PACER_TICK_MS"

definition total_overhead_ms :: "nat \<Rightarrow> nat" where
  "total_overhead_ms backlog = INPUT_TO_PHOTON_FIXED_OVERHEAD_MS + queuing_delay_ms backlog"

definition within_sla :: "nat \<Rightarrow> bool" where
  "within_sla backlog \<longleftrightarrow> total_overhead_ms backlog \<le> INPUT_TO_PHOTON_SLA_MS"

section \<open>Jitter buffer\<close>

definition HISTOGRAM_BUCKETS :: nat where "HISTOGRAM_BUCKETS = 100"
definition HISTOGRAM_FORGET_FACTOR :: f64 where "HISTOGRAM_FORGET_FACTOR = f64_round (9931 / 10000)"
definition TARGET_PERCENTILE :: f64 where "TARGET_PERCENTILE = f64_round (95 / 100)"
definition MAX_TIME_SCALE_RATE :: f64 where "MAX_TIME_SCALE_RATE = f64_round (15 / 100)"
definition CONVERGENCE_ZONE_FRAMES :: nat where "CONVERGENCE_ZONE_FRAMES = 1"

type_synonym delay_histogram = "f64 list"

definition histogram_new :: delay_histogram where
  "histogram_new = replicate HISTOGRAM_BUCKETS 0"

definition histogram_observe :: "delay_histogram \<Rightarrow> nat \<Rightarrow> delay_histogram" where
  "histogram_observe h delay_frames =
     (let h = map (\<lambda>b. f64_mul b HISTOGRAM_FORGET_FACTOR) h;
          bucket = min delay_frames (HISTOGRAM_BUCKETS - 1)
      in h[bucket := f64_add (h ! bucket) (f64_sub 1 HISTOGRAM_FORGET_FACTOR)])"

definition total_weight :: "delay_histogram \<Rightarrow> f64" where
  "total_weight h = foldl f64_add 0 h"

text \<open>The scan of \<open>percentile_frames\<close> from bucket \<open>i\<close> on, with the weight before it.\<close>

fun percentile_scan :: "f64 \<Rightarrow> f64 \<Rightarrow> nat \<Rightarrow> f64 list \<Rightarrow> nat" where
  "percentile_scan threshold cumulative i [] = HISTOGRAM_BUCKETS - 1"
| "percentile_scan threshold cumulative i (w # ws) =
     (let cumulative = f64_add cumulative w in
      if threshold \<le> cumulative then i else percentile_scan threshold cumulative (Suc i) ws)"

definition percentile_frames :: "delay_histogram \<Rightarrow> f64 \<Rightarrow> nat" where
  "percentile_frames h percentile =
     (let total = total_weight h in
      if total \<le> 0 then 0
      else percentile_scan (f64_mul total (clamp percentile 0 1)) 0 0 h)"

datatype playout_action = PlayNormal | Accelerate f64 | Decelerate f64 | Conceal

record jitter_buffer =
  jb_target_level :: nat
  jb_min_target_level :: nat
  jb_level :: nat
  jb_convergence_zone :: nat
  jb_histogram :: delay_histogram

definition jitter_new :: "nat \<Rightarrow> nat \<Rightarrow> jitter_buffer" where
  "jitter_new target zone =
     \<lparr>jb_target_level = target, jb_min_target_level = target, jb_level = 0, jb_convergence_zone = zone,
      jb_histogram = histogram_new\<rparr>"

definition observe_arrival_delay :: "jitter_buffer \<Rightarrow> nat \<Rightarrow> jitter_buffer" where
  "observe_arrival_delay j delay_frames =
     (let h = histogram_observe (jb_histogram j) delay_frames
      in j\<lparr>jb_histogram := h,
           jb_target_level := max (percentile_frames h TARGET_PERCENTILE) (jb_min_target_level j)\<rparr>)"

definition jitter_enqueue :: "jitter_buffer \<Rightarrow> jitter_buffer" where
  "jitter_enqueue j = j\<lparr>jb_level := jb_level j + 1\<rparr>"

definition jitter_tick :: "jitter_buffer \<Rightarrow> playout_action \<times> jitter_buffer" where
  "jitter_tick j =
     (if jb_level j = 0 then (Conceal, j)
      else
        (let j = j\<lparr>jb_level := jb_level j - 1\<rparr>;
             deviation = int (jb_level j) - int (jb_target_level j);
             abs_dev = nat \<bar>deviation\<bar>
         in if abs_dev \<le> jb_convergence_zone j then (PlayNormal, j)
            else
              (let denom = f64_of_nat (max (jb_target_level j) 1);
                   factor = min (f64_div (f64_of_nat abs_dev) denom) MAX_TIME_SCALE_RATE
               in (if 0 < deviation then Accelerate factor else Decelerate factor, j))))"

section \<open>Concealment follows the burst\<close>

text \<open>The number of lost frames at the end of a history.\<close>

definition loss_burst :: "bool list \<Rightarrow> nat" where
  "loss_burst h = length (takeWhile Not (rev h))"

lemma loss_burst_snoc [simp]:
  "loss_burst [] = 0" "loss_burst (h @ [True]) = 0" "loss_burst (h @ [False]) = Suc (loss_burst h)"
  by (simp_all add: loss_burst_def)

definition plc_after :: "nat \<Rightarrow> bool list \<Rightarrow> plc_chain" where
  "plc_after depth h = foldl (\<lambda>p r. snd (plc_advance p r)) (plc_new depth) h"

lemma plc_after_burst: "plc_after depth h = \<lparr>plc_dred_depth = depth, plc_burst = loss_burst h\<rparr>"
proof (induction h rule: rev_induct)
  case (snoc r h)
  then show ?case by (cases r) (simp_all add: plc_after_def plc_advance_def Let_def)
qed (simp add: plc_after_def plc_new_def)

text \<open>The stage that conceals the \<open>n\<close>th frame of a burst.\<close>

definition plc_expected :: "nat \<Rightarrow> nat \<Rightarrow> plc_stage" where
  "plc_expected depth n =
     (if n \<le> 1 then FecDecode else if n \<le> depth then Dred else if n \<le> depth + 5 then NeuralPlc else ComfortNoise)"

lemma fade_exact:
  assumes "k \<le> 8"
  shows "f64_sub 1 (f64_div (f64_of_nat k) (f64_of_nat 8)) = 1 - of_nat k / 8"
proof -
  have k: "f64_of_nat k = of_nat k" "f64_of_nat 8 = 8"
    using assms f64_round_of_nat [of k] f64_round_of_nat [of 8] by (simp_all add: f64_of_nat_def)
  have e: "1 - of_nat k / 8 = (of_nat (8 - k) / 8 :: rat)" using assms by (simp add: of_nat_diff field_simps)
  have "f64_round (of_nat k / 8) = of_nat k / 8" "f64_round (of_nat (8 - k) / 8) = of_nat (8 - k) / 8"
    by (rule f64_round_eighths; use assms in simp)+
  then show ?thesis unfolding f64_sub_def f64_div_def k by (simp only: e)
qed

lemma fade_silent:
  assumes "8 \<le> k"
  shows "f64_sub 1 (f64_div (f64_of_nat k) (f64_of_nat 8)) \<le> 0"
proof -
  have "f64_of_nat 8 = 8" using f64_round_of_nat [of 8] by (simp add: f64_of_nat_def)
  moreover have "8 \<le> f64_of_nat k" using f64_of_nat_mono [OF assms] calculation by simp
  ultimately have "1 \<le> f64_of_nat k / f64_of_nat 8" by simp
  from f64_round_mono [OF this] have "1 \<le> f64_div (f64_of_nat k) (f64_of_nat 8)"
    using f64_round_of_nat [of 1] by (simp add: f64_div_def)
  from f64_round_mono [of "1 - f64_div (f64_of_nat k) (f64_of_nat 8)" 0] this show ?thesis
    by (simp add: f64_sub_def)
qed

lemma comfort_noise_fades:
  "plc_burst p = plc_dred_depth p + 6 + k \<Longrightarrow> comfort_noise_gain p = max (1 - of_nat k / 8) 0"
  using fade_exact [of k] fade_silent [of k]
  by (cases "k \<le> 8") (simp_all add: comfort_noise_gain_def Let_def NEURAL_PLC_MAX_FRAMES_def
      COMFORT_NOISE_FADE_FRAMES_def max_def not_le)

text \<open>
  Every lost voice frame is concealed by the stage its place in the burst calls for. After
  any history of received and lost frames, a received frame ends the burst; the first lost frame is
  recovered from the next packet's redundancy, the following ones up to the redundancy depth by
  deep redundancy, the next five by the neural network and all later ones by comfort noise, whose
  gain falls by an eighth per frame from one to zero.
\<close>

lemma plc_conceals_by_burst:
  "fst (plc_advance (plc_after depth h) True) = PlcReceived \<and>
   fst (plc_advance (plc_after depth h) False) = Concealed (plc_expected depth (Suc (loss_burst h))) \<and>
   plc_after depth (h @ [received]) = snd (plc_advance (plc_after depth h) received) \<and>
   (plc_is_idle (plc_after depth h) \<longleftrightarrow> loss_burst h = 0) \<and>
   comfort_noise_gain (plc_after depth h) =
     (if loss_burst h < depth + 6 then 0 else max (1 - of_nat (loss_burst h - (depth + 6)) / 8) 0)"
proof -
  have "comfort_noise_gain (plc_after depth h) =
     (if loss_burst h < depth + 6 then 0 else max (1 - of_nat (loss_burst h - (depth + 6)) / 8) 0)"
    using comfort_noise_fades [of "plc_after depth h" "loss_burst h - (depth + 6)"]
    by (simp add: plc_after_burst comfort_noise_gain_def NEURAL_PLC_MAX_FRAMES_def Let_def)
  moreover have "plc_after depth (h @ [received]) = snd (plc_advance (plc_after depth h) received)"
    by (simp add: plc_after_def)
  ultimately show ?thesis
    by (simp add: plc_after_burst plc_advance_def plc_expected_def Let_def NEURAL_PLC_MAX_FRAMES_def plc_is_idle_def)
qed

section \<open>Redundancy depth\<close>

lemma dred_depth_bounded: "dred_depth_from_burst_ms b \<le> 50" "dred_overhead_bps (dred_new n) \<le> 40000"
  by (auto simp: dred_depth_from_burst_ms_def MIN_DRED_DEPTH_FRAMES_def MAX_DRED_DEPTH_FRAMES_def
      DRED_FRAME_DURATION_MS_def clamp_def Let_def dred_overhead_bps_def dred_new_def
      DRED_OVERHEAD_BPS_PER_FRAME_def)

text \<open>A mean burst of \<open>n\<close> packets asks for a depth of \<open>n\<close> frames, at most 50.\<close>

lemma dred_depth_of_packets:
  assumes "n \<le> 2 ^ 32"
  shows "dred_depth_from_ge_burst_packets (of_nat n) = min n 50"
proof -
  have 20: "f64_of_nat 20 = 20" using f64_round_of_nat [of 20] by (simp add: f64_of_nat_def)
  have "f64_round (of_nat (n * 20)) = of_nat (n * 20)" by (rule f64_round_of_nat) (use assms in simp)
  then have m: "f64_mul (of_nat n) (f64_of_nat DRED_FRAME_DURATION_MS) = of_nat n * 20"
    by (simp add: f64_mul_def DRED_FRAME_DURATION_MS_def 20)
  have "f64_round (of_nat n) = of_nat n" by (rule f64_round_of_nat) (use assms in simp)
  then have d: "f64_div (of_nat n * 20) (f64_of_nat DRED_FRAME_DURATION_MS) = of_nat n"
    by (simp add: f64_div_def DRED_FRAME_DURATION_MS_def 20)
  have max: "MAX_DRED_DEPTH_FRAMES = 50" by (simp add: MAX_DRED_DEPTH_FRAMES_def DRED_FRAME_DURATION_MS_def)
  show ?thesis
    using assms unfolding dred_depth_from_ge_burst_packets_def dred_depth_from_burst_ms_def m d
    by (auto simp: Let_def clamp_def MIN_DRED_DEPTH_FRAMES_def max)
qed

text \<open>The encoder announces a loss percentage between 1 and 100 exactly when redundancy is on.\<close>

lemma lbrr_percentage:
  assumes "f64_repr rate"
  shows "let e = set_loss_rate lbrr rate in
    if lbrr_enabled e then 1 \<le> lbrr_packet_loss_perc e \<and> lbrr_packet_loss_perc e \<le> 100
    else lbrr_packet_loss_perc e = 0"
proof -
  have "f64_mul (clamp rate 0 1) 100 \<le> 100"
    using f64_round_mono [of "clamp rate 0 1 * 100" 100] f64_round_of_nat [of 100]
    by (simp add: f64_mul_def clamp_def)
  moreover have "0 \<le> f64_mul (clamp rate 0 1) 100" by (simp add: f64_mul_def clamp_def f64_round_nonneg)
  ultimately have "f64_round_int (f64_mul (clamp rate 0 1) 100) \<le> 100"
    using f64_round_int_mono [of _ 100] f64_round_int_of_nat [of 100] by fastforce
  then show ?thesis by (auto simp: set_loss_rate_def Let_def clamp_def)
qed

lemma within_sla_iff: "within_sla backlog \<longleftrightarrow> backlog \<le> MAX_BACKLOG_WITHIN_SLA"
  by (auto simp: within_sla_def total_overhead_ms_def queuing_delay_ms_def INPUT_TO_PHOTON_SLA_MS_def
      INPUT_TO_PHOTON_FIXED_OVERHEAD_MS_def INPUT_PACER_TICK_MS_def MAX_BACKLOG_WITHIN_SLA_def)

section \<open>Collapse response\<close>

text \<open>Sample \<open>i\<close> of a history is below 0.7 times the sample before it.\<close>

definition collapse_at :: "f64 list \<Rightarrow> nat \<Rightarrow> bool" where
  "collapse_at h i \<longleftrightarrow> 0 < i \<and> i < length h \<and> 0 < h ! (i - 1) \<and> h ! i < f64_mul (h ! (i - 1)) COLLAPSE_THRESHOLD_RATIO"

definition collapse_after :: "f64 list \<Rightarrow> collapse_audio_governor" where
  "collapse_after h = foldl (\<lambda>g b. snd (collapse_tick g b)) collapse_new h"

lemma collapse_at_snoc:
  "collapse_at (h @ [b]) i \<longleftrightarrow> collapse_at h i \<or>
     i = length h \<and> h \<noteq> [] \<and> 0 < last h \<and> b < f64_mul (last h) COLLAPSE_THRESHOLD_RATIO"
proof (cases i "length h" rule: linorder_cases)
  case equal
  then show ?thesis by (cases h rule: rev_cases) (auto simp: collapse_at_def nth_append)
qed (auto simp: collapse_at_def nth_append)

text \<open>The response is held for 30 ticks after the latest collapse.\<close>

definition collapses :: "f64 list \<Rightarrow> bool list" where
  "collapses h = map (collapse_at h) [0..<length h]"

lemma collapses_snoc: "collapses (h @ [b]) = collapses h @ [collapse_at (h @ [b]) (length h)]"
  by (simp add: collapses_def collapse_at_snoc)

lemma collapse_after_hold:
  "ca_prev_bps (collapse_after h) = (if h = [] then None else Some (last h)) \<and>
   ca_hold_remaining (collapse_after h) = hold_left 30 (collapses h)"
proof (induction h rule: rev_induct)
  case Nil
  then show ?case by (simp add: collapse_after_def collapse_new_def collapses_def)
next
  case (snoc b h)
  have g: "collapse_after (h @ [b]) = snd (collapse_tick (collapse_after h) b)" by (simp add: collapse_after_def)
  have now: "collapse_at (h @ [b]) (length h) \<longleftrightarrow> (case ca_prev_bps (collapse_after h) of
      Some prev \<Rightarrow> 0 < prev \<and> b < f64_mul prev COLLAPSE_THRESHOLD_RATIO | None \<Rightarrow> False)"
    using snoc by (simp add: collapse_at_snoc) (simp add: collapse_at_def)
  show ?case
    using snoc unfolding g collapse_tick_def now [symmetric] collapses_snoc
    by (cases "collapse_at (h @ [b]) (length h)") (auto simp: Let_def COLLAPSE_HOLD_TICKS_def)
qed

text \<open>
  Voice is stepped down exactly when the bandwidth collapsed now or within the last 30 ticks.
  For every history of bandwidth samples and the next one, the response is the reduced rate with
  full redundancy if and only if some sample at most 30 ticks back was positive before and fell
  below 0.7 of it, in double precision; otherwise nothing changes.
\<close>

lemma collapse_response_iff:
  "fst (collapse_tick (collapse_after h) b) =
     (if \<exists>i. collapse_at (h @ [b]) i \<and> length h \<le> i + 30 then Stepped 12000 50 else CollapseNormal)"
proof -
  have "(case ca_prev_bps (collapse_after h) of Some prev \<Rightarrow> 0 < prev \<and> b < f64_mul prev COLLAPSE_THRESHOLD_RATIO
      | None \<Rightarrow> False) \<longleftrightarrow> h \<noteq> [] \<and> 0 < last h \<and> b < f64_mul (last h) COLLAPSE_THRESHOLD_RATIO"
    using collapse_after_hold [of h] by simp
  moreover have "0 < ca_hold_remaining (collapse_after h) \<longleftrightarrow> (\<exists>i. collapse_at h i \<and> length h \<le> i + 30)"
    using collapse_after_hold [of h] hold_left_iff [of 0 30 "collapses h"]
    by (auto simp: collapses_def collapse_at_def)
  ultimately show ?thesis
    by (auto simp: collapse_tick_def Let_def collapse_at_snoc COLLAPSE_HOLD_TICKS_def COLLAPSE_AUDIO_BPS_def
        COLLAPSE_DRED_DEPTH_FRAMES_def MAX_DRED_DEPTH_FRAMES_def DRED_FRAME_DURATION_MS_def)
qed

section \<open>The jitter buffer\<close>

lemma forget_bounds: "1 / 2 \<le> HISTOGRAM_FORGET_FACTOR" "HISTOGRAM_FORGET_FACTOR \<le> 1023 / 1024"
  using f64_round_between [of 1 1 "9931 / 10000" 1023 10] by (simp_all add: HISTOGRAM_FORGET_FACTOR_def)

lemma percentile_bounds: "1 / 2 \<le> TARGET_PERCENTILE" "TARGET_PERCENTILE \<le> 1"
  using f64_round_between [of 1 1 "95 / 100" 1 0] by (simp_all add: TARGET_PERCENTILE_def)

text \<open>The weight a fresh observation adds.\<close>

lemma fresh_weight: "1 / 1024 \<le> f64_sub 1 HISTOGRAM_FORGET_FACTOR"
  using forget_bounds f64_round_between [of 1 10 "1 - HISTOGRAM_FORGET_FACTOR" 1 0] by (simp add: f64_sub_def)

lemma length_histogram [simp]:
  "length histogram_new = 100" "length (histogram_observe h d) = length h"
  by (simp_all add: histogram_new_def HISTOGRAM_BUCKETS_def histogram_observe_def Let_def)

lemma percentile_scan_le: "i + length ws \<le> 100 \<Longrightarrow> percentile_scan t c i ws \<le> 99"
  by (induction ws arbitrary: c i) (auto simp: HISTOGRAM_BUCKETS_def Let_def)

lemma percentile_frames_le: "length h = 100 \<Longrightarrow> percentile_frames h p \<le> 99"
  using percentile_scan_le [of 0 h] by (simp add: percentile_frames_def Let_def)

text \<open>A histogram with all its weight in one bucket.\<close>

definition spike :: "nat \<Rightarrow> f64 \<Rightarrow> delay_histogram" where
  "spike b w = (replicate 100 0)[b := w]"

lemma spike_split: "b < 100 \<Longrightarrow> spike b w = replicate b 0 @ w # replicate (99 - b) 0"
  by (simp add: spike_def upd_conv_take_nth_drop Suc_diff_le flip: Suc_diff_Suc)

lemma f64_add_0: "f64_repr w \<Longrightarrow> f64_add 0 w = w" "f64_repr w \<Longrightarrow> f64_add w 0 = w"
  by (simp_all add: f64_add_def f64_repr_def)

lemma foldl_add_zeros: "f64_repr w \<Longrightarrow> foldl f64_add w (replicate k 0) = w"
  by (induction k) (simp_all add: f64_add_0)

lemma spike_total: "b < 100 \<Longrightarrow> f64_repr w \<Longrightarrow> total_weight (spike b w) = w"
  by (simp add: total_weight_def spike_split foldl_add_zeros f64_add_0)

lemma scan_zeros: "0 < t \<Longrightarrow> percentile_scan t 0 i (replicate k 0 @ ws) = percentile_scan t 0 (i + k) ws"
  by (induction k arbitrary: i) (simp_all add: f64_add_0 not_le Let_def)

lemma spike_percentile:
  assumes "b < 100" "f64_repr w" "1 / 1024 \<le> w"
  shows "percentile_frames (spike b w) TARGET_PERCENTILE = b"
proof -
  let ?t = "f64_mul w TARGET_PERCENTILE"
  have "1 / 2048 \<le> w * TARGET_PERCENTILE"
    using mult_mono [of "1 / 1024" w "1 / 2" TARGET_PERCENTILE] assms(3) percentile_bounds by simp
  from f64_round_mono [OF this] have pos: "0 < ?t"
    using f64_round_dyadic [of 1 11] by (simp add: f64_mul_def)
  have "w * TARGET_PERCENTILE \<le> w" using percentile_bounds assms(3) by (intro mult_left_le) auto
  from f64_round_mono [OF this] have le: "?t \<le> w" using assms(2) by (simp add: f64_mul_def f64_repr_def)
  have "clamp TARGET_PERCENTILE 0 1 = TARGET_PERCENTILE" using percentile_bounds by simp
  then have "percentile_frames (spike b w) TARGET_PERCENTILE = percentile_scan ?t 0 0 (spike b w)"
    using assms by (simp add: percentile_frames_def spike_total)
  also have "\<dots> = b" using pos le assms(1,2) by (simp add: spike_split scan_zeros f64_add_0)
  finally show ?thesis .
qed

lemma spike_observe:
  assumes "b = min d 99" "0 \<le> w"
  shows "\<exists>w'. histogram_observe (spike b w) d = spike b w' \<and> f64_repr w' \<and> 1 / 1024 \<le> w'"
proof -
  let ?c = "f64_sub 1 HISTOGRAM_FORGET_FACTOR" and ?v = "f64_mul w HISTOGRAM_FORGET_FACTOR"
  have "0 \<le> ?v" using assms(2) forget_bounds(1) by (simp add: f64_mul_def f64_round_nonneg)
  then have "f64_round ?c \<le> f64_add ?v ?c" by (simp add: f64_add_def f64_round_mono)
  moreover have "f64_round ?c = ?c" by (simp add: f64_sub_def)
  ultimately have "1 / 1024 \<le> f64_add ?v ?c" using fresh_weight by simp
  moreover have "histogram_observe (spike b w) d = spike b (f64_add ?v ?c)"
    using assms(1) by (simp add: histogram_observe_def spike_def HISTOGRAM_BUCKETS_def map_update Let_def f64_mul_def)
  ultimately show ?thesis by auto
qed

lemma steady_histogram:
  "\<exists>w. foldl histogram_observe histogram_new (replicate (Suc n) d) = spike (min d 99) w \<and>
     f64_repr w \<and> 1 / 1024 \<le> w"
proof (induction n)
  case 0
  have "histogram_new = spike (min d 99) 0"
    by (rule nth_equalityI) (simp_all add: histogram_new_def spike_def HISTOGRAM_BUCKETS_def nth_list_update)
  then show ?case using spike_observe [of "min d 99" d 0] by simp
next
  case (Suc n)
  then obtain w where "foldl histogram_observe histogram_new (replicate (Suc n) d) = spike (min d 99) w"
    "1 / 1024 \<le> w" by blast
  moreover have "replicate (Suc (Suc n)) d = replicate (Suc n) d @ [d]" by (simp add: replicate_append_same)
  ultimately show ?case using spike_observe [of "min d 99" d w] by (simp del: replicate.simps(2))
qed

lemma jitter_observe_histogram:
  "jb_histogram (foldl observe_arrival_delay j ds) = foldl histogram_observe (jb_histogram j) ds"
  "jb_min_target_level (foldl observe_arrival_delay j ds) = jb_min_target_level j"
  by (induction ds arbitrary: j) (simp_all add: observe_arrival_delay_def Let_def)

text \<open>The operations of a buffer, and what all of them keep.\<close>

datatype jitter_op = JitterDelay nat | JitterEnqueue | JitterTick

fun jitter_step :: "jitter_buffer \<Rightarrow> jitter_op \<Rightarrow> jitter_buffer" where
  "jitter_step j (JitterDelay d) = observe_arrival_delay j d"
| "jitter_step j JitterEnqueue = jitter_enqueue j"
| "jitter_step j JitterTick = snd (jitter_tick j)"

definition jitter_ok :: "nat \<Rightarrow> jitter_buffer \<Rightarrow> bool" where
  "jitter_ok t j \<longleftrightarrow> jb_min_target_level j = t \<and> length (jb_histogram j) = 100 \<and>
     t \<le> jb_target_level j \<and> jb_target_level j \<le> max t 99"

interpretation jitter_machine: invariant_machine "jitter_new t zone" jitter_step "jitter_ok t" for t zone
proof unfold_locales
  show "jitter_ok t (jitter_new t zone)" by (simp add: jitter_ok_def jitter_new_def)
next
  fix j a
  assume "jitter_ok t j"
  then show "jitter_ok t (jitter_step j a)"
    using percentile_frames_le [of "histogram_observe (jb_histogram j) d" TARGET_PERCENTILE for d]
    by (cases a) (auto simp: jitter_ok_def observe_arrival_delay_def jitter_enqueue_def jitter_tick_def Let_def
        le_max_iff_disj intro: order_trans [of _ 99])
qed

fun scale_of :: "playout_action \<Rightarrow> f64" where
  "scale_of (Accelerate f) = f"
| "scale_of (Decelerate f) = f"
| "scale_of _ = 0"

lemma jitter_tick_scale: "0 \<le> scale_of (fst (jitter_tick j)) \<and> scale_of (fst (jitter_tick j)) \<le> MAX_TIME_SCALE_RATE"
proof -
  have "0 \<le> MAX_TIME_SCALE_RATE" by (simp add: MAX_TIME_SCALE_RATE_def f64_round_nonneg)
  then show ?thesis by (auto simp: jitter_tick_def Let_def f64_div_def f64_round_nonneg)
qed



end
