(* ===== verification/Congestion.thy ===== *)
theory Congestion
  imports F64
begin

text \<open>
  Congestion control (\<open>core/lbtp/src\<close>): the Gilbert-Elliott loss estimators and the redundancy ratio
  (\<open>fec.rs\<close>), the loss backstop (\<open>congestion.rs\<close>), the delay-gradient estimator (\<open>delay.rs\<close>) and the
  cellular guard (\<open>cellular.rs\<close>). The \<open>f64\<close> arithmetic is bit-exact for finite values; an infinite
  mean burst length is \<open>None\<close>. Counters of packets and runs are \<open>u64\<close> and do not overflow; the
  saturating \<open>u32\<close> counters saturate.

  The lemmas bound the estimates, give the backstop's actions and the cellular mode from their
  histories, and show that a constant one-way delay is never taken for congestion.
\<close>

section \<open>Loss estimators\<close>

definition MIN_FEC_RATIO :: f64 where "MIN_FEC_RATIO = f64_round (5 / 100)"
definition MAX_FEC_RATIO :: f64 where "MAX_FEC_RATIO = f64_round (50 / 100)"
definition REF_BLOCK_SYMBOLS :: f64 where "REF_BLOCK_SYMBOLS = 32"
definition MIN_OBS_FOR_ESTIMATE :: nat where "MIN_OBS_FOR_ESTIMATE = 30"
definition MIN_RUNS_FOR_ESTIMATE :: nat where "MIN_RUNS_FOR_ESTIMATE = 8"

definition F64_EPSILON :: f64 where "F64_EPSILON = 1 / 2 ^ 52"

record gilbert_elliott_params =
  ge_a :: f64
  ge_b :: f64
  ge_p :: f64
  ge_q :: f64

definition mean_loss_rate :: "gilbert_elliott_params \<Rightarrow> f64" where
  "mean_loss_rate g =
     (if f64_add (ge_a g) (ge_b g) < F64_EPSILON then 0
      else
        (let pi_b = f64_div (ge_a g) (f64_add (ge_a g) (ge_b g));
             pi_g = f64_sub 1 pi_b
         in f64_add (f64_mul pi_b (ge_q g)) (f64_mul pi_g (ge_p g))))"

definition mean_burst_len :: "gilbert_elliott_params \<Rightarrow> f64 option" where
  "mean_burst_len g = (if 0 < ge_b g then Some (f64_div 1 (ge_b g)) else None)"

record gilbert_elliott_estimator =
  gee_loss_rate :: f64
  gee_mean_burst_len :: f64
  gee_n_obs :: nat
  gee_in_loss_run :: bool
  gee_current_run_len :: nat
  gee_alpha_loss :: f64
  gee_alpha_burst :: f64

definition gee_with_alphas :: "bool \<Rightarrow> f64 \<Rightarrow> f64 \<Rightarrow> gilbert_elliott_estimator option" where
  "gee_with_alphas debug_assertions alpha_loss alpha_burst =
     (if debug_assertions \<and> \<not> (0 < alpha_loss \<and> alpha_loss < 1 \<and> 0 < alpha_burst \<and> alpha_burst < 1) then None
      else Some \<lparr>gee_loss_rate = 0, gee_mean_burst_len = 1, gee_n_obs = 0, gee_in_loss_run = False,
             gee_current_run_len = 0, gee_alpha_loss = alpha_loss, gee_alpha_burst = alpha_burst\<rparr>)"

text \<open>The default smoothing constants 0.05 and 0.25.\<close>

definition GE_ALPHA_LOSS :: f64 where "GE_ALPHA_LOSS = f64_round (5 / 100)"
definition GE_ALPHA_BURST :: f64 where "GE_ALPHA_BURST = f64_round (25 / 100)"

definition gee_new :: "bool \<Rightarrow> gilbert_elliott_estimator option" where
  "gee_new debug_assertions = gee_with_alphas debug_assertions GE_ALPHA_LOSS GE_ALPHA_BURST"

definition gee_observe :: "gilbert_elliott_estimator \<Rightarrow> bool \<Rightarrow> gilbert_elliott_estimator" where
  "gee_observe e received =
     (let loss_indicator = (if received then 0 else 1);
          loss = f64_add (f64_mul (f64_sub 1 (gee_alpha_loss e)) (gee_loss_rate e))
                         (f64_mul (gee_alpha_loss e) loss_indicator);
          e = e\<lparr>gee_n_obs := gee_n_obs e + 1, gee_loss_rate := loss\<rparr>
      in if received then
           (let e = (if gee_in_loss_run e \<and> 0 < gee_current_run_len e
                     then e\<lparr>gee_mean_burst_len :=
                            f64_add (f64_mul (f64_sub 1 (gee_alpha_burst e)) (gee_mean_burst_len e))
                                    (f64_mul (gee_alpha_burst e) (f64_of_nat (gee_current_run_len e)))\<rparr>
                     else e)
            in e\<lparr>gee_in_loss_run := False, gee_current_run_len := 0\<rparr>)
         else e\<lparr>gee_in_loss_run := True, gee_current_run_len := min (gee_current_run_len e + 1) (2 ^ 32 - 1)\<rparr>)"

definition gee_params :: "gilbert_elliott_estimator \<Rightarrow> gilbert_elliott_params option" where
  "gee_params e =
     (if gee_n_obs e < MIN_OBS_FOR_ESTIMATE then None
      else
        (let l = clamp (gee_loss_rate e) 0 (f64_sub 1 F64_EPSILON);
             b = f64_div 1 (max (gee_mean_burst_len e) 1);
             a = f64_div (f64_mul l b) (max (f64_sub 1 l) F64_EPSILON)
         in Some \<lparr>ge_a = a, ge_b = b, ge_p = 0, ge_q = 1\<rparr>))"

text \<open>The ratio from a loss rate and a burst length (\<open>None\<close> is infinite), shared by both estimators.\<close>

definition ratio_for :: "f64 \<Rightarrow> f64 option \<Rightarrow> f64" where
  "ratio_for loss_rate burst_len =
     (let loss = clamp loss_rate 0 (f64_round (99 / 100));
          burst = (case burst_len of None \<Rightarrow> REF_BLOCK_SYMBOLS | Some b \<Rightarrow> min (max b 1) REF_BLOCK_SYMBOLS);
          independent = f64_div loss (f64_sub 1 loss);
          burst_coverage = f64_div burst REF_BLOCK_SYMBOLS
      in clamp (max independent burst_coverage) MIN_FEC_RATIO MAX_FEC_RATIO)"

definition gee_fec_ratio :: "gilbert_elliott_estimator \<Rightarrow> f64" where
  "gee_fec_ratio e =
     (if gee_n_obs e < MIN_OBS_FOR_ESTIMATE then MIN_FEC_RATIO
      else ratio_for (gee_loss_rate e) (Some (gee_mean_burst_len e)))"

record burst_stats_fitter =
  good_run_sum :: nat
  good_run_count :: nat
  bad_run_sum :: nat
  bad_run_count :: nat

definition burst_fitter_new :: burst_stats_fitter where
  "burst_fitter_new = \<lparr>good_run_sum = 0, good_run_count = 0, bad_run_sum = 0, bad_run_count = 0\<rparr>"

definition observe_good_run :: "burst_stats_fitter \<Rightarrow> nat \<Rightarrow> burst_stats_fitter" where
  "observe_good_run f len =
     (if 0 < len then f\<lparr>good_run_sum := good_run_sum f + len, good_run_count := good_run_count f + 1\<rparr> else f)"

definition observe_bad_run :: "burst_stats_fitter \<Rightarrow> nat \<Rightarrow> burst_stats_fitter" where
  "observe_bad_run f len =
     (if 0 < len then f\<lparr>bad_run_sum := bad_run_sum f + len, bad_run_count := bad_run_count f + 1\<rparr> else f)"

fun ingest_ack_run_lengths :: "burst_stats_fitter \<Rightarrow> (nat \<times> nat) list \<Rightarrow> burst_stats_fitter" where
  "ingest_ack_run_lengths f [] = f"
| "ingest_ack_run_lengths f ((good, bad) # runs) =
     (let f = (if 0 < good then f\<lparr>good_run_sum := good_run_sum f + good, good_run_count := good_run_count f + 1\<rparr>
               else f);
          f = (if 0 < bad then f\<lparr>bad_run_sum := bad_run_sum f + bad, bad_run_count := bad_run_count f + 1\<rparr>
               else f)
      in ingest_ack_run_lengths f runs)"

definition run_pair_count :: "burst_stats_fitter \<Rightarrow> nat" where
  "run_pair_count f = min (good_run_count f) (bad_run_count f)"

definition fitter_params :: "burst_stats_fitter \<Rightarrow> gilbert_elliott_params option" where
  "fitter_params f =
     (if run_pair_count f < MIN_RUNS_FOR_ESTIMATE then None
      else
        (let mean_good = f64_div (f64_of_nat (good_run_sum f)) (f64_of_nat (good_run_count f));
             mean_bad = f64_div (f64_of_nat (bad_run_sum f)) (f64_of_nat (bad_run_count f))
         in Some \<lparr>ge_a = f64_div 1 (max mean_good 1), ge_b = f64_div 1 (max mean_bad 1), ge_p = 0, ge_q = 1\<rparr>))"

definition fitter_fec_ratio :: "burst_stats_fitter \<Rightarrow> f64" where
  "fitter_fec_ratio f =
     (case fitter_params f of
        None \<Rightarrow> MIN_FEC_RATIO
      | Some p \<Rightarrow> ratio_for (mean_loss_rate p) (mean_burst_len p))"

section \<open>Loss backstop\<close>

definition LOSS_BACKSTOP_THRESHOLD :: f64 where "LOSS_BACKSTOP_THRESHOLD = f64_round (10 / 100)"
definition LOSS_BACKSTOP_REDUCTION :: f64 where "LOSS_BACKSTOP_REDUCTION = f64_round (85 / 100)"
definition BACKSTOP_MIN_RATE_BPS :: f64 where "BACKSTOP_MIN_RATE_BPS = 48000"
definition BACKSTOP_COOLDOWN_TICKS :: nat where "BACKSTOP_COOLDOWN_TICKS = 50"

record loss_backstop =
  cooldown_remaining :: nat

definition backstop_new :: loss_backstop where
  "backstop_new = \<lparr>cooldown_remaining = 0\<rparr>"

definition backstop_check ::
  "loss_backstop \<Rightarrow> f64 \<Rightarrow> gilbert_elliott_estimator \<Rightarrow> f64 option \<times> loss_backstop" where
  "backstop_check s current_rate_bps e =
     (if 0 < cooldown_remaining s then (None, s\<lparr>cooldown_remaining := cooldown_remaining s - 1\<rparr>)
      else if gee_n_obs e < MIN_OBS_FOR_ESTIMATE then (None, s)
      else if gee_loss_rate e \<le> LOSS_BACKSTOP_THRESHOLD then (None, s)
      else (Some (max (f64_mul current_rate_bps LOSS_BACKSTOP_REDUCTION) BACKSTOP_MIN_RATE_BPS),
            s\<lparr>cooldown_remaining := BACKSTOP_COOLDOWN_TICKS\<rparr>))"

section \<open>Delay gradient\<close>

definition TRENDLINE_WINDOW_SIZE :: nat where "TRENDLINE_WINDOW_SIZE = 20"
definition TRENDLINE_SMOOTHING_ALPHA :: f64 where "TRENDLINE_SMOOTHING_ALPHA = f64_round (9 / 10)"
definition OVERUSE_THRESHOLD_GAMMA_US_PER_MS :: f64 where "OVERUSE_THRESHOLD_GAMMA_US_PER_MS = 25 / 2"
definition MIN_WINDOW_FOR_SLOPE :: nat where "MIN_WINDOW_FOR_SLOPE = 2"

datatype bandwidth_usage = Underuse | NormalUse | Overuse

record delay_gradient_estimator =
  dge_window :: "(f64 \<times> f64) list"
  smoothed_delta_us :: f64
  accumulated_owd_us :: f64
  accumulated_send_ms :: f64
  prev_send_us :: "u64 option"
  prev_recv_us :: "u64 option"
  dge_slope :: f64
  dge_usage :: bandwidth_usage

definition delay_new :: delay_gradient_estimator where
  "delay_new = \<lparr>dge_window = [], smoothed_delta_us = 0, accumulated_owd_us = 0, accumulated_send_ms = 0,
     prev_send_us = None, prev_recv_us = None, dge_slope = 0, dge_usage = NormalUse\<rparr>"

definition f64_sum :: "f64 list \<Rightarrow> f64" where
  "f64_sum xs = foldl f64_add 0 xs"

definition compute_slope :: "(f64 \<times> f64) list \<Rightarrow> f64" where
  "compute_slope window =
     (let n = length window in
      if n < MIN_WINDOW_FOR_SLOPE then 0
      else
        (let x_mean = f64_div (f64_sum (map fst window)) (f64_of_nat n);
             y_mean = f64_div (f64_sum (map snd window)) (f64_of_nat n);
             numerator = f64_sum (map (\<lambda>(x, y). f64_mul (f64_sub x x_mean) (f64_sub y y_mean)) window);
             denominator = f64_sum (map (\<lambda>(x, _). f64_mul (f64_sub x x_mean) (f64_sub x x_mean)) window)
         in if denominator < f64_round (1 / 10 ^ 10) then 0 else f64_div numerator denominator))"

text \<open>The update of \<open>observe\<close> once a previous pair of times is known.\<close>

definition delay_step ::
  "delay_gradient_estimator \<Rightarrow> u64 \<Rightarrow> u64 \<Rightarrow> u64 \<Rightarrow> u64 \<Rightarrow> f64 \<Rightarrow> delay_gradient_estimator" where
  "delay_step d prev_s prev_r send_time recv_time gamma_multiplier =
     (let send_delta = f64_of_nat (unat (saturating_sub send_time prev_s));
          recv_delta = f64_of_nat (unat (saturating_sub recv_time prev_r));
          owd_delta = f64_sub recv_delta send_delta;
          smoothed = f64_add (f64_mul TRENDLINE_SMOOTHING_ALPHA (smoothed_delta_us d))
                             (f64_mul (f64_sub 1 TRENDLINE_SMOOTHING_ALPHA) owd_delta);
          send_ms = f64_add (accumulated_send_ms d) (f64_div send_delta 1000);
          owd = f64_add (accumulated_owd_us d) smoothed;
          window = dge_window d @ [(send_ms, owd)];
          window = (if TRENDLINE_WINDOW_SIZE < length window then tl window else window);
          slope = compute_slope window;
          gamma = f64_mul OVERUSE_THRESHOLD_GAMMA_US_PER_MS (max gamma_multiplier 0)
      in d\<lparr>smoothed_delta_us := smoothed, accumulated_send_ms := send_ms, accumulated_owd_us := owd,
           dge_window := window, dge_slope := slope,
           dge_usage := (if gamma < slope then Overuse else if slope < - gamma then Underuse else NormalUse)\<rparr>)"

definition delay_observe ::
  "delay_gradient_estimator \<Rightarrow> u64 \<Rightarrow> u64 \<Rightarrow> f64 \<Rightarrow> bandwidth_usage \<times> delay_gradient_estimator" where
  "delay_observe d send_time recv_time gamma_multiplier =
     (let d' = (case (prev_send_us d, prev_recv_us d) of
                  (Some prev_s, Some prev_r) \<Rightarrow> delay_step d prev_s prev_r send_time recv_time gamma_multiplier
                | _ \<Rightarrow> d)
      in (dge_usage d', d'\<lparr>prev_send_us := Some send_time, prev_recv_us := Some recv_time\<rparr>))"

section \<open>Cellular guard\<close>

definition OWD_WINDOW_SIZE :: nat where "OWD_WINDOW_SIZE = 30"
definition SPIKE_THRESHOLD_FACTOR :: f64 where "SPIKE_THRESHOLD_FACTOR = 3 / 2"
definition MIN_BIMODAL_FRACTION :: f64 where "MIN_BIMODAL_FRACTION = f64_round (10 / 100)"
definition MAX_BIMODAL_FRACTION :: f64 where "MAX_BIMODAL_FRACTION = f64_round (45 / 100)"
definition MIN_BIMODAL_SPREAD_US :: f64 where "MIN_BIMODAL_SPREAD_US = 15000"
definition CELLULAR_ENTRY_TICKS :: nat where "CELLULAR_ENTRY_TICKS = 20"
definition CELLULAR_EXIT_TICKS :: nat where "CELLULAR_EXIT_TICKS = 50"
definition CELLULAR_GAMMA_MULTIPLIER :: f64 where "CELLULAR_GAMMA_MULTIPLIER = 2"
definition CELLULAR_MIN_DECREASE_TICKS :: nat where "CELLULAR_MIN_DECREASE_TICKS = 30"
definition ALPHA_BASELINE :: f64 where "ALPHA_BASELINE = f64_round (10 / 100)"
definition ALPHA_SPREAD :: f64 where "ALPHA_SPREAD = f64_round (20 / 100)"

record bimodal_detector =
  bd_window :: "u32 list"
  baseline_us :: f64
  spread_us :: f64
  bimodal :: bool

definition bimodal_new :: bimodal_detector where
  "bimodal_new = \<lparr>bd_window = [], baseline_us = 0, spread_us = 0, bimodal = False\<rparr>"

definition bimodal_evaluate :: "bimodal_detector \<Rightarrow> bool" where
  "bimodal_evaluate b =
     (if length (bd_window b) < OWD_WINDOW_SIZE then False
      else
        (let threshold = f64_mul (baseline_us b) SPIKE_THRESHOLD_FACTOR in
         if threshold < 1 then False
         else
           (let spike_count = length (filter (\<lambda>s. threshold < f64_of_nat (unat s)) (bd_window b));
                spike_fraction = f64_div (f64_of_nat spike_count) (f64_of_nat (length (bd_window b)))
            in MIN_BIMODAL_FRACTION \<le> spike_fraction \<and> spike_fraction \<le> MAX_BIMODAL_FRACTION \<and>
               MIN_BIMODAL_SPREAD_US \<le> spread_us b)))"

definition bimodal_observe :: "bimodal_detector \<Rightarrow> u32 \<Rightarrow> bimodal_detector" where
  "bimodal_observe b owd_us =
     (let owd = f64_of_nat (unat owd_us) in
      if bd_window b = [] then b\<lparr>baseline_us := owd, bd_window := [owd_us]\<rparr>
      else
        (let window = bd_window b @ [owd_us];
             window = (if OWD_WINDOW_SIZE < length window then tl window else window);
             baseline = (if owd \<le> f64_mul (baseline_us b) SPIKE_THRESHOLD_FACTOR
                         then f64_add (f64_mul (f64_sub 1 ALPHA_BASELINE) (baseline_us b)) (f64_mul ALPHA_BASELINE owd)
                         else baseline_us b);
             deviation = \<bar>f64_sub owd baseline\<bar>;
             spread = f64_add (f64_mul (f64_sub 1 ALPHA_SPREAD) (spread_us b)) (f64_mul ALPHA_SPREAD deviation);
             b = b\<lparr>bd_window := window, baseline_us := baseline, spread_us := spread\<rparr>
         in b\<lparr>bimodal := bimodal_evaluate b\<rparr>))"

record cellular_mode_controller =
  cm_detector :: bimodal_detector
  cm_active :: bool
  entry_counter :: nat
  exit_counter :: nat
  ticks_since_decrease :: nat

definition cellular_new :: cellular_mode_controller where
  "cellular_new = \<lparr>cm_detector = bimodal_new, cm_active = False, entry_counter = 0, exit_counter = 0,
     ticks_since_decrease = CELLULAR_MIN_DECREASE_TICKS\<rparr>"

definition observe_owd :: "cellular_mode_controller \<Rightarrow> u32 \<Rightarrow> cellular_mode_controller" where
  "observe_owd c owd_us = c\<lparr>cm_detector := bimodal_observe (cm_detector c) owd_us\<rparr>"

definition sat_inc :: "nat \<Rightarrow> nat" where
  "sat_inc n = min (n + 1) (2 ^ 32 - 1)"

definition cellular_tick :: "cellular_mode_controller \<Rightarrow> cellular_mode_controller" where
  "cellular_tick c =
     (let c = c\<lparr>ticks_since_decrease := sat_inc (ticks_since_decrease c)\<rparr>;
          c = (if bimodal (cm_detector c)
               then c\<lparr>entry_counter := sat_inc (entry_counter c), exit_counter := 0\<rparr>
               else c\<lparr>exit_counter := sat_inc (exit_counter c), entry_counter := 0\<rparr>)
      in if \<not> cm_active c \<and> CELLULAR_ENTRY_TICKS \<le> entry_counter c then c\<lparr>cm_active := True\<rparr>
         else if cm_active c \<and> CELLULAR_EXIT_TICKS \<le> exit_counter c
         then c\<lparr>cm_active := False, entry_counter := 0\<rparr>
         else c)"

definition gamma_multiplier :: "cellular_mode_controller \<Rightarrow> f64" where
  "gamma_multiplier c = (if cm_active c then CELLULAR_GAMMA_MULTIPLIER else 1)"

definition can_decrease :: "cellular_mode_controller \<Rightarrow> bool" where
  "can_decrease c \<longleftrightarrow> \<not> cm_active c \<or> CELLULAR_MIN_DECREASE_TICKS \<le> ticks_since_decrease c"

definition can_increase :: "cellular_mode_controller \<Rightarrow> f64 \<Rightarrow> bool" where
  "can_increase c owd_trend \<longleftrightarrow> \<not> cm_active c \<or> owd_trend \<le> 0"

definition record_decrease :: "cellular_mode_controller \<Rightarrow> cellular_mode_controller" where
  "record_decrease c = c\<lparr>ticks_since_decrease := 0\<rparr>"

section \<open>Bounds of the estimates\<close>

text \<open>The default smoothing constants in double precision, and what they leave of one.\<close>

lemma ge_alpha_loss: "GE_ALPHA_LOSS = 7205759403792794 / 2 ^ 57"
  unfolding GE_ALPHA_LOSS_def using f64_round_eqI [of "5 / 100" 57 7205759403792794] by simp

lemma ge_alpha_loss_rest: "f64_sub 1 GE_ALPHA_LOSS = 8556839292003942 / 2 ^ 53"
  unfolding ge_alpha_loss f64_sub_def
  using f64_round_eqI [of "1 - 7205759403792794 / 2 ^ 57" 53 8556839292003942] by simp

lemma ge_alpha_burst: "GE_ALPHA_BURST = 1 / 4" "f64_sub 1 GE_ALPHA_BURST = 3 / 4"
proof -
  show "GE_ALPHA_BURST = 1 / 4" unfolding GE_ALPHA_BURST_def using f64_round_dyadic [of 1 2] by simp
  then show "f64_sub 1 GE_ALPHA_BURST = 3 / 4"
    unfolding f64_sub_def by (elim ssubst) (use f64_round_dyadic [of 3 2] in simp)
qed

lemma ge_alpha_bounds:
  "0 < GE_ALPHA_LOSS" "GE_ALPHA_LOSS < 1" "409 / 2 ^ 13 \<le> GE_ALPHA_LOSS" "0 \<le> f64_sub 1 GE_ALPHA_LOSS"
  "243 / 256 \<le> f64_sub 1 GE_ALPHA_LOSS" "f64_sub 1 GE_ALPHA_LOSS + GE_ALPHA_LOSS \<le> 1"
  unfolding ge_alpha_loss_rest by (simp_all add: ge_alpha_loss)

lemma ge_alpha_loss_repr [simp]: "f64_repr GE_ALPHA_LOSS"
  by (simp add: GE_ALPHA_LOSS_def)

text \<open>What holds of every estimator made by \<open>gee_new\<close> and fed with observations.\<close>

definition gee_ok :: "gilbert_elliott_estimator \<Rightarrow> bool" where
  "gee_ok e \<longleftrightarrow>
     gee_alpha_loss e = GE_ALPHA_LOSS \<and> gee_alpha_burst e = GE_ALPHA_BURST \<and>
     0 \<le> gee_loss_rate e \<and> gee_loss_rate e \<le> 1 \<and> 1 \<le> gee_mean_burst_len e"

lemma loss_update_bounds:
  assumes "0 \<le> l" "l \<le> 1" "0 \<le> i" "i \<le> 1"
  shows "0 \<le> f64_add (f64_mul (f64_sub 1 GE_ALPHA_LOSS) l) (f64_mul GE_ALPHA_LOSS i)"
    "f64_add (f64_mul (f64_sub 1 GE_ALPHA_LOSS) l) (f64_mul GE_ALPHA_LOSS i) \<le> 1"
proof -
  show "0 \<le> f64_add (f64_mul (f64_sub 1 GE_ALPHA_LOSS) l) (f64_mul GE_ALPHA_LOSS i)"
    using assms ge_alpha_bounds by (intro f64_op_nonneg) auto
  have "f64_mul (f64_sub 1 GE_ALPHA_LOSS) l \<le> f64_sub 1 GE_ALPHA_LOSS" "f64_mul GE_ALPHA_LOSS i \<le> GE_ALPHA_LOSS"
    using assms ge_alpha_bounds by (auto intro!: f64_mul_le)
  with ge_alpha_bounds(6) have "f64_mul (f64_sub 1 GE_ALPHA_LOSS) l + f64_mul GE_ALPHA_LOSS i \<le> of_nat 1 / 2 ^ 0"
    by simp
  from f64_op_le(2) [OF _ _ this]
  show "f64_add (f64_mul (f64_sub 1 GE_ALPHA_LOSS) l) (f64_mul GE_ALPHA_LOSS i) \<le> 1" by simp
qed

lemma burst_update_bound:
  assumes "1 \<le> m" "0 < k"
  shows "1 \<le> f64_add (f64_mul (f64_sub 1 GE_ALPHA_BURST) m) (f64_mul GE_ALPHA_BURST (f64_of_nat k))"
  unfolding ge_alpha_burst(2) unfolding ge_alpha_burst(1)
proof -
  have "1 \<le> f64_of_nat k" using f64_of_nat_mono [of 1 k] assms(2) f64_round_of_nat [of 1] by (simp add: f64_of_nat_def)
  then have "of_nat 3 / 2 ^ 2 \<le> 3 / 4 * m" "of_nat 1 / 2 ^ 2 \<le> 1 / 4 * f64_of_nat k" using assms(1) by simp_all
  from f64_op_ge(1) [OF _ _ this(1)] f64_op_ge(1) [OF _ _ this(2)]
  have "of_nat 1 / 2 ^ 0 \<le> f64_mul (3 / 4) m + f64_mul (1 / 4) (f64_of_nat k)" by simp
  from f64_op_ge(2) [OF _ _ this]
  show "1 \<le> f64_add (f64_mul (3 / 4) m) (f64_mul (1 / 4) (f64_of_nat k))" by simp
qed

lemma gee_ok_observe: "gee_ok e \<Longrightarrow> gee_ok (gee_observe e received)"
  using loss_update_bounds [of "gee_loss_rate e" "if received then 0 else 1"]
    burst_update_bound [of "gee_mean_burst_len e" "gee_current_run_len e"]
  by (auto simp: gee_ok_def gee_observe_def Let_def)

definition gee_after :: "bool list \<Rightarrow> gilbert_elliott_estimator" where
  "gee_after h = foldl gee_observe (the (gee_new False)) h"

lemma gee_new_eq: "gee_new debug_assertions = Some (gee_after [])"
  using ge_alpha_bounds(1,2) by (simp add: gee_new_def gee_with_alphas_def gee_after_def ge_alpha_burst)

lemma gee_after_snoc: "gee_after (h @ [r]) = gee_observe (gee_after h) r"
  by (simp add: gee_after_def)

lemma gee_after_Nil:
  "gee_after [] = \<lparr>gee_loss_rate = 0, gee_mean_burst_len = 1, gee_n_obs = 0, gee_in_loss_run = False,
     gee_current_run_len = 0, gee_alpha_loss = GE_ALPHA_LOSS, gee_alpha_burst = GE_ALPHA_BURST\<rparr>"
  by (simp add: gee_after_def gee_new_def gee_with_alphas_def)

lemma gee_after_ok: "gee_ok (gee_after h)"
proof (induction h rule: rev_induct)
  case Nil
  then show ?case by (simp add: gee_after_Nil gee_ok_def)
qed (simp add: gee_after_snoc gee_ok_observe)

lemma gee_after_n_obs: "gee_n_obs (gee_after h) = length h"
  by (induction h rule: rev_induct) (simp_all add: gee_after_snoc gee_after_Nil gee_observe_def Let_def)

text \<open>A run of losses drives the estimate over the backstop's threshold within three packets.\<close>

lemma loss_step:
  assumes "of_nat m / 2 ^ 13 \<le> gee_loss_rate e" "gee_ok e" "m \<le> 8192" "k \<le> 409 + m * 243 div 256"
  shows "of_nat k / 2 ^ 13 \<le> gee_loss_rate (gee_observe e False)"
proof -
  define d where "d = m * 243 div 256"
  have "of_nat (d * 256) \<le> (of_nat (m * 243) :: rat)" unfolding d_def of_nat_le_iff by simp
  then have "of_nat d / 2 ^ 13 \<le> 243 / 256 * (of_nat m / 2 ^ 13 :: rat)" by simp
  also have "\<dots> \<le> f64_sub 1 GE_ALPHA_LOSS * gee_loss_rate e"
    using assms(1) ge_alpha_bounds by (intro mult_mono) auto
  finally have "of_nat d / 2 ^ 13 \<le> f64_mul (f64_sub 1 GE_ALPHA_LOSS) (gee_loss_rate e)"
    using assms(3) by (intro f64_op_ge) (auto simp: d_def)
  moreover have "409 / 2 ^ 13 \<le> f64_mul GE_ALPHA_LOSS 1"
    using ge_alpha_bounds(3) ge_alpha_loss_repr by (simp add: f64_mul_def f64_repr_def)
  moreover have "of_nat k / 2 ^ 13 \<le> (of_nat d / 2 ^ 13 + 409 / 2 ^ 13 :: rat)"
  proof -
    have "of_nat k \<le> (of_nat (409 + d) :: rat)" using assms(4) unfolding d_def of_nat_le_iff .
    then show ?thesis by simp
  qed
  ultimately have "of_nat k / 2 ^ 13 \<le> f64_mul (f64_sub 1 GE_ALPHA_LOSS) (gee_loss_rate e) + f64_mul GE_ALPHA_LOSS 1"
    by linarith
  moreover have "k \<le> 409 + 8192" using assms(3,4) by (auto intro: order_trans simp: d_def)
  ultimately have "of_nat k / 2 ^ 13 \<le>
      f64_add (f64_mul (f64_sub 1 GE_ALPHA_LOSS) (gee_loss_rate e)) (f64_mul GE_ALPHA_LOSS 1)"
    by (intro f64_op_ge) auto
  then show ?thesis using assms(2) by (simp add: gee_observe_def Let_def gee_ok_def)
qed

lemma loss_run_estimate: "3 \<le> n \<Longrightarrow> 1 / 8 \<le> gee_loss_rate (gee_after (h @ replicate n False))"
proof (induction n)
  case (Suc n)
  have snoc: "h @ replicate (Suc k) False = (h @ replicate k False) @ [False]" for k
    by (simp add: replicate_append_same)
  note step = loss_step [OF _ gee_after_ok, of _ "h @ replicate k False" for k,
      folded gee_after_snoc, folded snoc]
  have 1: "of_nat 409 / 2 ^ 13 \<le> gee_loss_rate (gee_after (h @ replicate 1 False))"
    using step [of 0 0 409] gee_after_ok [of h] by (simp add: gee_ok_def)
  have 2: "of_nat 797 / 2 ^ 13 \<le> gee_loss_rate (gee_after (h @ replicate 2 False))"
    using step [OF 1, of 797] by (simp add: numeral_2_eq_2)
  have 3: "of_nat 1165 / 2 ^ 13 \<le> gee_loss_rate (gee_after (h @ replicate 3 False))"
    using step [OF 2, of 1165] by (simp add: numeral_3_eq_3 numeral_2_eq_2)
  show ?case
  proof (cases "n = 2")
    case True
    then show ?thesis using 3 by (simp add: numeral_3_eq_3 numeral_2_eq_2)
  next
    case False
    then have "of_nat 1024 / 2 ^ 13 \<le> gee_loss_rate (gee_after (h @ replicate n False))" using Suc by simp
    from step [OF this, of 1024] show ?thesis by simp
  qed
qed simp

text \<open>On a link without loss the redundancy stays at its minimum.\<close>

lemma min_ratio_bounds: "1 / 32 \<le> MIN_FEC_RATIO" "MIN_FEC_RATIO \<le> MAX_FEC_RATIO"
proof -
  have "of_nat 1 / 2 ^ 5 \<le> f64_round (5 / 100)" by (rule f64_round_between [of _ _ _ 1 0]) simp_all
  then show "1 / 32 \<le> MIN_FEC_RATIO" by (simp add: MIN_FEC_RATIO_def)
  show "MIN_FEC_RATIO \<le> MAX_FEC_RATIO" unfolding MIN_FEC_RATIO_def MAX_FEC_RATIO_def by (rule f64_round_mono) simp
qed

lemma gee_clean: "gee_after (replicate n True) = (gee_after [])\<lparr>gee_n_obs := n\<rparr>"
proof (induction n)
  case (Suc n)
  have "replicate (Suc n) True = replicate n True @ [True]" by (simp add: replicate_append_same)
  with Suc show ?case
    by (simp add: gee_after_snoc gee_after_Nil gee_observe_def f64_mul_def f64_add_def Let_def del: replicate.simps(2))
qed (simp add: gee_after_Nil)

lemma clean_link_minimal_redundancy: "gee_fec_ratio (gee_after (replicate n True)) = MIN_FEC_RATIO"
proof -
  have "f64_div 1 32 = 1 / 32" using f64_round_dyadic [of 1 5] by (simp add: f64_div_def)
  moreover have "clamp (0 :: rat) 0 (f64_round (99 / 100)) = 0" by (simp add: f64_round_nonneg)
  ultimately show ?thesis
    using min_ratio_bounds
    by (simp add: gee_clean gee_fec_ratio_def gee_after_Nil ratio_for_def REF_BLOCK_SYMBOLS_def Let_def f64_div_def clamp_def)
qed

lemma fec_ratio_bounds:
  "MIN_FEC_RATIO \<le> gee_fec_ratio e" "gee_fec_ratio e \<le> MAX_FEC_RATIO"
  "MIN_FEC_RATIO \<le> fitter_fec_ratio f" "fitter_fec_ratio f \<le> MAX_FEC_RATIO"
  using min_ratio_bounds(2) clamp_bounds [OF min_ratio_bounds(2)]
  by (auto simp: gee_fec_ratio_def fitter_fec_ratio_def ratio_for_def Let_def split: option.splits)

section \<open>The backstop\<close>

fun backstop_run :: "loss_backstop \<Rightarrow> (f64 \<times> gilbert_elliott_estimator) list \<Rightarrow> f64 option list \<times> loss_backstop" where
  "backstop_run s [] = ([], s)"
| "backstop_run s ((rate, e) # checks) =
     (let (act, s') = backstop_check s rate e; (acts, t) = backstop_run s' checks in (act # acts, t))"

lemma length_backstop_run [simp]: "length (fst (backstop_run s checks)) = length checks"
  by (induction checks arbitrary: s) (auto simp: split_def Let_def)

lemma backstop_run_snoc:
  "backstop_run s (checks @ [(rate, e)]) =
     (fst (backstop_run s checks) @ [fst (backstop_check (snd (backstop_run s checks)) rate e)],
      snd (backstop_check (snd (backstop_run s checks)) rate e))"
  by (induction checks arbitrary: s) (auto simp: split_def Let_def)

lemma backstop_cooldown:
  "cooldown_remaining (snd (backstop_run backstop_new checks)) =
     hold_left 50 (map (\<lambda>act. act \<noteq> None) (fst (backstop_run backstop_new checks)))"
proof (induction checks rule: rev_induct)
  case (snoc c checks)
  obtain rate e where c: "c = (rate, e)" by (cases c)
  show ?case unfolding c backstop_run_snoc
    using snoc by (cases "fst (backstop_check (snd (backstop_run backstop_new checks)) rate e)")
      (auto simp: backstop_check_def BACKSTOP_COOLDOWN_TICKS_def split: if_splits)
qed (simp add: backstop_new_def)

definition sustained_loss :: "gilbert_elliott_estimator \<Rightarrow> bool" where
  "sustained_loss e \<longleftrightarrow> 30 \<le> gee_n_obs e \<and> LOSS_BACKSTOP_THRESHOLD < gee_loss_rate e"

lemma backstop_acts:
  "fst (backstop_check (snd (backstop_run backstop_new checks)) rate e) =
     (if sustained_loss e \<and> (\<forall>j < length checks. length checks \<le> j + 50 \<longrightarrow>
         fst (backstop_run backstop_new checks) ! j = None)
      then Some (max (f64_mul rate LOSS_BACKSTOP_REDUCTION) 48000) else None)"
proof -
  have "0 < cooldown_remaining (snd (backstop_run backstop_new checks)) \<longleftrightarrow>
      \<not> (\<forall>j < length checks. length checks \<le> j + 50 \<longrightarrow> fst (backstop_run backstop_new checks) ! j = None)"
    unfolding backstop_cooldown hold_left_iff by auto
  then show ?thesis
    by (auto simp: backstop_check_def sustained_loss_def MIN_OBS_FOR_ESTIMATE_def BACKSTOP_MIN_RATE_BPS_def)
qed

lemma reduction_lowers:
  assumes "0 < rate" "f64_repr rate"
  shows "f64_mul rate LOSS_BACKSTOP_REDUCTION \<le> rate"
proof -
  have "f64_round (85 / 100) \<le> of_nat 1 / 2 ^ 0" by (rule f64_round_between [of 0 0]) simp_all
  then have "LOSS_BACKSTOP_REDUCTION \<le> 1" by (simp add: LOSS_BACKSTOP_REDUCTION_def)
  then show ?thesis using assms by (intro f64_mul_le) auto
qed

text \<open>
  The loss backstop acts exactly on sustained loss outside its cooldown. After any sequence of
  checks, the next one changes the rate if and only if the estimator has seen at least 30 packets,
  its loss rate is above the threshold, and none of the last 50 checks acted; the new rate is then
  0.85 of the current one in double precision, but at least 48 kbps. From 48 kbps up the rate never
  rises; a rate below 48 kbps is raised to 48 kbps. Three lost packets in a row, after
  any history that brings the total to 30, are enough for the estimator to count as sustained loss.
\<close>

lemma backstop_acts_iff:
  assumes "0 < rate" "f64_repr rate"
  shows "fst (backstop_check (snd (backstop_run backstop_new checks)) rate e) =
      (if sustained_loss e \<and> (\<forall>j < length checks. length checks \<le> j + 50 \<longrightarrow>
          fst (backstop_run backstop_new checks) ! j = None)
       then Some (max (f64_mul rate LOSS_BACKSTOP_REDUCTION) 48000) else None) \<and>
    (48000 \<le> rate \<longrightarrow> max (f64_mul rate LOSS_BACKSTOP_REDUCTION) 48000 \<le> rate) \<and>
    (rate < 48000 \<longrightarrow> max (f64_mul rate LOSS_BACKSTOP_REDUCTION) 48000 = 48000) \<and>
    (3 \<le> n \<longrightarrow> 30 \<le> length h + n \<longrightarrow> sustained_loss (gee_after (h @ replicate n False)))"
proof -
  have "f64_round (10 / 100) \<le> of_nat 13 / 2 ^ 7" by (rule f64_round_between [of 0 0]) simp_all
  then have "LOSS_BACKSTOP_THRESHOLD < 1 / 8" by (simp add: LOSS_BACKSTOP_THRESHOLD_def)
  then have "3 \<le> n \<longrightarrow> 30 \<le> length h + n \<longrightarrow> sustained_loss (gee_after (h @ replicate n False))"
    using loss_run_estimate [of n h] by (auto simp: sustained_loss_def gee_after_n_obs)
  then show ?thesis using backstop_acts [of checks rate e] reduction_lowers [OF assms] by auto
qed

section \<open>The cellular guard\<close>

datatype cellular_op = ObserveOwd u32 | CellularTick | RecordDecrease

fun cellular_step :: "cellular_mode_controller \<Rightarrow> cellular_op \<Rightarrow> cellular_mode_controller" where
  "cellular_step c (ObserveOwd n) = observe_owd c n"
| "cellular_step c CellularTick = cellular_tick c"
| "cellular_step c RecordDecrease = record_decrease c"

definition cellular_after :: "cellular_op list \<Rightarrow> cellular_mode_controller" where
  "cellular_after ops = foldl cellular_step cellular_new ops"

lemma cellular_after_snoc: "cellular_after (ops @ [op]) = cellular_step (cellular_after ops) op"
  by (simp add: cellular_after_def)

text \<open>The detector's verdict on every tick of a run.\<close>

fun verdicts_from :: "cellular_mode_controller \<Rightarrow> cellular_op list \<Rightarrow> bool list" where
  "verdicts_from c [] = []"
| "verdicts_from c (op # ops) =
     (if op = CellularTick then [bimodal (cm_detector c)] else []) @ verdicts_from (cellular_step c op) ops"

definition verdicts :: "cellular_op list \<Rightarrow> bool list" where
  "verdicts ops = verdicts_from cellular_new ops"

lemma verdicts_from_append: "verdicts_from c (ops @ ops') = verdicts_from c ops @ verdicts_from (foldl cellular_step c ops) ops'"
  by (induction ops arbitrary: c) simp_all

lemma verdicts_snoc:
  "verdicts (ops @ [op]) = verdicts ops @ (if op = CellularTick then [bimodal (cm_detector (cellular_after ops))] else [])"
  by (simp add: verdicts_def verdicts_from_append cellular_after_def)

text \<open>The mode as a function of the verdicts: 20 in a row to enter, 50 without to leave.\<close>

fun hysteresis :: "bool \<Rightarrow> bool list \<Rightarrow> bool list \<Rightarrow> bool" where
  "hysteresis active seen [] = active"
| "hysteresis active seen (v # vs) =
     hysteresis (if active then run_length (map Not (seen @ [v])) < 50 else 20 \<le> run_length (seen @ [v])) (seen @ [v]) vs"

lemma hysteresis_snoc:
  "hysteresis a seen (vs @ [v]) =
     (if hysteresis a seen vs then run_length (map Not (seen @ vs @ [v])) < 50 else 20 \<le> run_length (seen @ vs @ [v]))"
  by (induction vs arbitrary: a seen) simp_all

lemma sat_inc_min: "sat_inc (min n 4294967295) = min (Suc n) 4294967295"
  by (simp add: sat_inc_def)

lemma cellular_after_counters:
  "entry_counter (cellular_after ops) = min (run_length (verdicts ops)) (2 ^ 32 - 1) \<and>
   exit_counter (cellular_after ops) = min (run_length (map Not (verdicts ops))) (2 ^ 32 - 1) \<and>
   cm_active (cellular_after ops) = hysteresis False [] (verdicts ops)"
proof (induction ops rule: rev_induct)
  case Nil
  then show ?case by (simp add: cellular_after_def cellular_new_def verdicts_def)
next
  case (snoc op ops)
  show ?case
  proof (cases op)
    case CellularTick
    let ?c = "cellular_after ops" and ?v = "verdicts ops"
    note IH = snoc [THEN conjunct1] snoc [THEN conjunct2, THEN conjunct1] snoc [THEN conjunct2, THEN conjunct2]
    have c: "cellular_after (ops @ [op]) = cellular_tick ?c" by (simp add: cellular_after_snoc CellularTick)
    show ?thesis
    proof (cases "bimodal (cm_detector ?c)")
      case True
      then show ?thesis
        unfolding c verdicts_snoc using CellularTick IH
        by (simp add: cellular_tick_def Let_def hysteresis_snoc sat_inc_min CELLULAR_ENTRY_TICKS_def CELLULAR_EXIT_TICKS_def
            min_le_iff_disj)
          (simp add: sat_inc_def)
    next
      case False
      then show ?thesis
        unfolding c verdicts_snoc using CellularTick IH
        by (simp add: cellular_tick_def Let_def hysteresis_snoc sat_inc_min CELLULAR_ENTRY_TICKS_def CELLULAR_EXIT_TICKS_def
            min_le_iff_disj not_le)
          (simp add: sat_inc_def)
    qed
  qed (use snoc in \<open>simp_all add: cellular_after_snoc verdicts_snoc observe_owd_def record_decrease_def\<close>)
qed

text \<open>Ticks since the last recorded decrease, from the latest operation back; 30 before the first one.\<close>

fun ticks_since :: "cellular_op list \<Rightarrow> nat" where
  "ticks_since [] = 30"
| "ticks_since (CellularTick # ops) = Suc (ticks_since ops)"
| "ticks_since (RecordDecrease # ops) = 0"
| "ticks_since (ObserveOwd _ # ops) = ticks_since ops"

lemma cellular_after_since: "ticks_since_decrease (cellular_after ops) = min (ticks_since (rev ops)) 4294967295"
proof (induction ops rule: rev_induct)
  case (snoc op ops)
  then show ?case
    by (cases op) (simp_all add: cellular_after_snoc observe_owd_def record_decrease_def cellular_tick_def Let_def sat_inc_min)
qed (simp add: cellular_after_def cellular_new_def CELLULAR_MIN_DECREASE_TICKS_def)

text \<open>
  C36: Cellular mode follows the detector with the documented hysteresis. Over any sequence of delay
  samples, ticks and recorded decreases, the mode is exactly the one given by the detector's
  verdicts on the ticks: it is entered on the 20th bimodal tick in a row and left on the 50th tick
  in a row without. While it is active the threshold for overuse is doubled, a decrease is
  allowed exactly when 30 ticks have passed since the last one and an increase exactly on a trend
  that is not rising; while it is not, nothing is restricted.
\<close>

theorem cellular_mode_hysteresis:
  "cm_active (cellular_after ops) = hysteresis False [] (verdicts ops) \<and>
   gamma_multiplier (cellular_after ops) = (if hysteresis False [] (verdicts ops) then 2 else 1) \<and>
   can_decrease (cellular_after ops) = (\<not> hysteresis False [] (verdicts ops) \<or> 30 \<le> ticks_since (rev ops)) \<and>
   can_increase (cellular_after ops) trend = (\<not> hysteresis False [] (verdicts ops) \<or> trend \<le> 0)"
  using cellular_after_counters [of ops] cellular_after_since [of ops]
  by (simp add: gamma_multiplier_def can_decrease_def can_increase_def CELLULAR_GAMMA_MULTIPLIER_def
      CELLULAR_MIN_DECREASE_TICKS_def)

theorem cellular_mode_hysteresis_witness:
  "\<not> cm_active (cellular_after (replicate 3 CellularTick))"
  using cellular_mode_hysteresis [of "replicate 3 CellularTick"]
  by (simp add: numeral_3_eq_3 verdicts_def cellular_tick_def cellular_new_def bimodal_new_def run_length_def Let_def
      CELLULAR_ENTRY_TICKS_def CELLULAR_EXIT_TICKS_def sat_inc_def)

section \<open>The delay gradient\<close>

definition delay_run :: "delay_gradient_estimator \<Rightarrow> (u64 \<times> u64 \<times> f64) list \<Rightarrow> delay_gradient_estimator" where
  "delay_run d obs = foldl (\<lambda>d (s, r, g). snd (delay_observe d s r g)) d obs"

text \<open>Every packet takes the same time: its arrival is its departure plus a constant, without overflow.\<close>

definition constant_delay :: "nat \<Rightarrow> (u64 \<times> u64 \<times> f64) list \<Rightarrow> bool" where
  "constant_delay c obs \<longleftrightarrow> (\<forall>(s, r, g)\<in>set obs. unat r = unat s + c)"

definition flat :: "nat \<Rightarrow> delay_gradient_estimator \<Rightarrow> bool" where
  "flat c d \<longleftrightarrow> smoothed_delta_us d = 0 \<and> accumulated_owd_us d = 0 \<and> (\<forall>p\<in>set (dge_window d). snd p = 0) \<and>
     length (dge_window d) \<le> 20 \<and> dge_slope d = 0 \<and> dge_usage d = NormalUse \<and>
     (case (prev_send_us d, prev_recv_us d) of (Some s, Some r) \<Rightarrow> unat r = unat s + c | (None, None) \<Rightarrow> True | _ \<Rightarrow> False)"

lemma f64_sum_zeros: "\<forall>x\<in>set xs. x = 0 \<Longrightarrow> f64_sum xs = 0"
  unfolding f64_sum_def by (induction xs) (simp_all add: f64_add_def)

lemma compute_slope_flat:
  assumes "\<forall>p\<in>set w. snd p = 0"
  shows "compute_slope w = 0"
proof -
  have y: "f64_sum (map snd w) = 0" by (rule f64_sum_zeros) (use assms in auto)
  have "f64_sum (map (\<lambda>(x, y). f64_mul (f64_sub x m) (f64_sub y 0)) w) = 0" for m
    by (rule f64_sum_zeros) (use assms in \<open>auto simp: f64_sub_def f64_mul_def\<close>)
  then show ?thesis unfolding compute_slope_def Let_def y by (simp add: f64_div_def)
qed

lemma window_all: "\<forall>p\<in>set w. P p \<Longrightarrow> \<forall>p\<in>set (if b then tl w else w). P p"
  by (cases w) auto

lemma flat_step:
  assumes "flat c d" "unat r = unat s + c"
  shows "flat c (snd (delay_observe d s r g))" "fst (delay_observe d s r g) = NormalUse"
proof -
  have gamma: "0 \<le> f64_mul OVERUSE_THRESHOLD_GAMMA_US_PER_MS (max g 0)"
    by (intro f64_op_nonneg) (simp_all add: OVERUSE_THRESHOLD_GAMMA_US_PER_MS_def)
  show "flat c (snd (delay_observe d s r g))" "fst (delay_observe d s r g) = NormalUse"
  proof (atomize (full), cases "prev_send_us d")
    case None
    then show "flat c (snd (delay_observe d s r g)) \<and> fst (delay_observe d s r g) = NormalUse"
      using assms by (auto simp: flat_def delay_observe_def split: option.splits)
  next
    case (Some ps)
    then obtain pr where p: "prev_recv_us d = Some pr" "unat pr = unat ps + c"
      using assms(1) by (auto simp: flat_def split: option.splits)
    have eq: "unat (saturating_sub r pr) = unat (saturating_sub s ps)" using assms(2) p(2) by simp
    have z: "f64_sub x x = 0" "f64_mul x 0 = 0" "f64_add 0 0 = 0" for x
      by (simp_all add: f64_sub_def f64_mul_def f64_add_def)
    have fl: "smoothed_delta_us d = 0" "accumulated_owd_us d = 0" using assms(1) by (simp_all add: flat_def)
    let ?send = "f64_add (accumulated_send_ms d) (f64_div (f64_of_nat (unat (saturating_sub s ps))) 1000)"
    let ?w = "dge_window d @ [(?send, 0)]"
    have w: "\<forall>p\<in>set ?w. snd p = 0" using assms(1) by (auto simp: flat_def)
    define W where "W = (if TRENDLINE_WINDOW_SIZE < length ?w then tl ?w else ?w)"
    have W: "\<forall>p\<in>set W. snd p = 0" unfolding W_def by (rule window_all [OF w])
    have len: "length W \<le> 20" using assms(1) by (simp add: W_def flat_def TRENDLINE_WINDOW_SIZE_def)
    have "delay_step d ps pr s r g = d\<lparr>smoothed_delta_us := 0, accumulated_send_ms := ?send, accumulated_owd_us := 0,
        dge_window := W, dge_slope := compute_slope W, dge_usage :=
          (if f64_mul OVERUSE_THRESHOLD_GAMMA_US_PER_MS (max g 0) < compute_slope W then Overuse
           else if compute_slope W < - f64_mul OVERUSE_THRESHOLD_GAMMA_US_PER_MS (max g 0) then Underuse
           else NormalUse)\<rparr>"
      unfolding delay_step_def Let_def eq fl z W_def ..
    then show "flat c (snd (delay_observe d s r g)) \<and> fst (delay_observe d s r g) = NormalUse"
      using assms p Some gamma W len by (simp add: flat_def delay_observe_def compute_slope_flat [OF W])
  qed
qed

text \<open>
  A constant one-way delay is never taken for congestion. For every sequence of packets that
  all take the same time, whatever the send times and threshold multipliers, the estimator
  reports normal use after each of them, with a trend of exactly zero, and keeps at most 20 points.
\<close>

lemma constant_delay_is_normal:
  assumes "constant_delay c obs"
  shows "dge_usage (delay_run delay_new obs) = NormalUse \<and> dge_slope (delay_run delay_new obs) = 0 \<and>
    length (dge_window (delay_run delay_new obs)) \<le> 20"
proof -
  have "flat c d \<Longrightarrow> flat c (delay_run d obs)" for d
    using assms unfolding delay_run_def
  proof (induction obs arbitrary: d)
    case (Cons o' obs)
    then show ?case using flat_step(1) by (cases o') (auto simp: constant_delay_def)
  qed simp
  from this [of delay_new] show ?thesis by (simp add: flat_def delay_new_def)
qed

text \<open>Widening the threshold can only take overuse back, never report it anew.\<close>

lemma wider_threshold_fewer_overuse:
  assumes "fst (delay_observe d s r g') = Overuse" "g \<le> g'" "prev_send_us d \<noteq> None" "prev_recv_us d \<noteq> None"
  shows "fst (delay_observe d s r g) = Overuse"
proof -
  have "f64_mul OVERUSE_THRESHOLD_GAMMA_US_PER_MS (max g 0) \<le> f64_mul OVERUSE_THRESHOLD_GAMMA_US_PER_MS (max g' 0)"
    unfolding f64_mul_def using assms(2)
    by (intro f64_round_mono mult_left_mono) (auto simp: OVERUSE_THRESHOLD_GAMMA_US_PER_MS_def)
  then show ?thesis using assms(1,3,4)
    by (auto simp: delay_observe_def delay_step_def Let_def split: if_splits)
qed

end
