(* ===== verification/Input_Channel.thy ===== *)
theory Input_Channel
  imports F64 Grants Codec
begin

text \<open>
  The input path: the event encoder and decoder of channel 3 with its mouse coalescer
  (\<open>input_channel_sender.rs\<close>), the cursor channel (\<open>cursor_sender.rs\<close>) with the pointer overlay
  that shows it (\<open>pointer_overlay.rs\<close>), and the capability check of the injection broker
  (\<open>input_injection.rs\<close>).

  Signed integers are words read with \<open>sint\<close>. The variable-length integers are shown to be
  lossless, minimal and bounded; over whole sessions the decoder returns the events of the
  sender exactly as long as successive key codes differ by a signed 32-bit number, coalesced
  mouse motion is conserved, and the overlay follows the cursor.
\<close>

unbundle bit_operations_syntax

type_synonym i32 = "32 word"
type_synonym i16 = "16 word"

section \<open>Events\<close>

datatype mouse_button = LeftButton | RightButton | MiddleButton

datatype input_event =
    KeyPress u32
  | KeyRelease u32
  | MouseMove f64 f64
  | MouseButtonPress mouse_button
  | MouseButtonRelease mouse_button

definition MAX_INPUT_FRAME_BYTES :: nat where "MAX_INPUT_FRAME_BYTES = 1179"

definition DISC_KEY_PRESS :: u8 where "DISC_KEY_PRESS = 0x01"
definition DISC_KEY_RELEASE :: u8 where "DISC_KEY_RELEASE = 0x02"
definition DISC_MOUSE_MOVE :: u8 where "DISC_MOUSE_MOVE = 0x10"
definition DISC_BUTTON_PRESS :: u8 where "DISC_BUTTON_PRESS = 0x20"
definition DISC_BUTTON_RELEASE :: u8 where "DISC_BUTTON_RELEASE = 0x21"

lemmas disc_defs = DISC_KEY_PRESS_def DISC_KEY_RELEASE_def DISC_MOUSE_MOVE_def DISC_BUTTON_PRESS_def
  DISC_BUTTON_RELEASE_def

fun button_to_wire :: "mouse_button \<Rightarrow> u8" where
  "button_to_wire LeftButton = 0"
| "button_to_wire RightButton = 1"
| "button_to_wire MiddleButton = 2"

definition wire_to_button :: "u8 \<Rightarrow> mouse_button option" where
  "wire_to_button b =
     (if b = 0 then Some LeftButton else if b = 1 then Some RightButton
      else if b = 2 then Some MiddleButton else None)"

section \<open>Variable-length integers\<close>

text \<open>The last group: the rest of the value is the sign extension of the group.\<close>

definition varint_finished :: "i32 \<Rightarrow> u8 \<Rightarrow> bool" where
  "varint_finished value byte \<longleftrightarrow>
     (value = 0 \<and> byte AND 0x40 = 0) \<or> (value = - 1 \<and> byte AND 0x40 \<noteq> 0)"

function encode_varint_i32 :: "i32 \<Rightarrow> bytes" where
  "encode_varint_i32 value =
     (let byte = ucast (value AND 0x7F) :: u8; value' = signed_drop_bit 7 value
      in if varint_finished value' byte then [byte]
         else (byte OR 0x80) # encode_varint_i32 value')"
  by pat_completeness auto

lemma sint_shift: "sint (signed_drop_bit n (w :: i32)) = sint w div 2 ^ n"
  by (simp add: sint_signed_drop_bit_eq drop_bit_eq_div)

lemma low_group_sign: "(ucast ((w :: i32) AND 0x7F) :: u8) AND 0x40 = 0 \<longleftrightarrow> \<not> bit w 6"
proof -
  have "(ucast (w AND 0x7F) :: u8) AND 0x40 = (if bit w 6 then 0x40 else 0)"
    by (rule bit_word_eqI)
      (auto simp: bit_simps bit_numeral_rec less_Suc_eq numeral_eq_Suc split: if_splits)
  then show ?thesis by simp
qed

lemma sint_bit_6: "bit (w :: i32) 6 \<longleftrightarrow> odd (sint w div 64)"
proof -
  have "bit w 6 = bit (sint w) 6" by (simp add: bit_sint_iff)
  then show ?thesis by (simp add: bit_iff_odd)
qed

lemma sint_eq_iff: "w = (v :: 'a::len word) \<longleftrightarrow> sint w = sint v"
  using signed_word_eqI by auto

lemma varint_finished_iff:
  "varint_finished (signed_drop_bit 7 w) (ucast (w AND 0x7F)) \<longleftrightarrow> - 64 \<le> sint w \<and> sint w < 64"
proof -
  have 1: "signed_drop_bit 7 w = 0 \<longleftrightarrow> sint w div 128 = 0"
    and 2: "signed_drop_bit 7 w = - 1 \<longleftrightarrow> sint w div 128 = - 1"
    using sint_shift [of 7 w] by (auto simp: sint_eq_iff)
  have 3: "sint w div 128 = (sint w div 64) div 2" by (simp flip: zdiv_zmult2_eq)
  have q: "(q div 2 = 0 \<and> even q) \<or> (q div 2 = - 1 \<and> odd q) \<longleftrightarrow> q = 0 \<or> q = - 1" for q :: int
    by presburger
  have "i div 64 = 0 \<or> i div 64 = - 1 \<longleftrightarrow> - 64 \<le> i \<and> i < 64" for i :: int by linarith
  then show ?thesis
    unfolding varint_finished_def low_group_sign 1 2 3 sint_bit_6 using q [of "sint w div 64"] by auto
qed

termination encode_varint_i32
proof (relation "measure (\<lambda>w. nat \<bar>sint w\<bar>)", goal_cases)
  case (2 w byte w')
  then have "\<not> (- 64 \<le> sint w \<and> sint w < 64)" by (simp add: varint_finished_iff)
  moreover have "sint w' = sint w div 128" using 2 by (simp add: sint_shift)
  moreover have "\<bar>i div 128\<bar> < \<bar>i\<bar>" if "\<not> (- 64 \<le> i \<and> i < 64)" for i :: int using that by linarith
  ultimately have "\<bar>sint w'\<bar> < \<bar>sint w\<bar>" by simp
  then show ?case by simp
qed simp

declare encode_varint_i32.simps [simp del]

lemma encode_varint_step:
  "encode_varint_i32 w =
     (if - 64 \<le> sint w \<and> sint w < 64 then [ucast (w AND 0x7F)]
      else (ucast (w AND 0x7F) OR 0x80) # encode_varint_i32 (signed_drop_bit 7 w))"
  using encode_varint_i32.simps [of w] by (simp add: Let_def varint_finished_iff)

fun decode_varint_loop :: "bytes \<Rightarrow> i32 \<Rightarrow> nat \<Rightarrow> nat \<Rightarrow> (i32 \<times> nat) option" where
  "decode_varint_loop [] result shift i = None"
| "decode_varint_loop (byte # bytes) result shift i =
     (let bits = ucast (byte AND 0x7F);
          result = result OR push_bit shift bits;
          shift = shift + 7
      in if byte AND 0x80 = 0
         then Some (if shift < 32 \<and> byte AND 0x40 \<noteq> 0 then result OR - push_bit shift 1 else result, i + 1)
         else if 35 \<le> shift then None
         else decode_varint_loop bytes result shift (i + 1))"

definition decode_varint_i32 :: "bytes \<Rightarrow> (i32 \<times> nat) option" where
  "decode_varint_i32 bytes = decode_varint_loop bytes 0 0 0"

subsection \<open>Round trip and size\<close>

text \<open>A value is its lowest group and the shifted rest.\<close>

lemma split_low_group: "(w :: i32) = take_bit 7 w OR push_bit 7 (signed_drop_bit 7 w)"
proof (rule bit_word_eqI)
  fix n assume "n < LENGTH(32)"
  then show "bit w n = bit (take_bit 7 w OR push_bit 7 (signed_drop_bit 7 w)) n"
    by (cases "n < 7") (auto simp: bit_simps)
qed

lemma push_low_group:
  "push_bit n (w :: i32) = push_bit n (take_bit 7 w) OR push_bit (n + 7) (signed_drop_bit 7 w)"
  by (subst split_low_group) (simp add: push_bit_or push_bit_push_bit)

lemma group_bits [simp]:
  "(ucast (ucast ((w :: i32) AND 0x7F) AND (0x7F :: u8)) :: i32) = take_bit 7 w"
  "(ucast ((ucast (w AND 0x7F) OR 0x80) AND (0x7F :: u8)) :: i32) = take_bit 7 w"
  "(ucast (w AND 0x7F) :: u8) AND 0x80 = 0"
  "((ucast (w AND 0x7F) :: u8) OR 0x80) AND 0x80 = 0x80"
  by (rule bit_word_eqI, auto simp: bit_simps bit_numeral_rec less_Suc_eq numeral_eq_Suc)+

lemma negative_group: "signed_drop_bit 7 (w :: i32) = (if bit w 6 then - 1 else 0)"
  if "- 64 \<le> sint w" "sint w < 64"
proof -
  have "i div 128 = (if odd (i div 64) then - 1 else 0)" if "- 64 \<le> i" "i < 64" for i :: int
  proof (cases "0 \<le> i")
    case False
    then have "i div 64 = - 1" "i div 128 = - 1" using that by linarith+
    then show ?thesis by simp
  qed (use that in simp)
  from this [OF that] have "sint w div 128 = (if odd (sint w div 64) then - 1 else 0)" .
  moreover have "sint (signed_drop_bit 7 w) = sint w div 128" by (simp add: sint_shift)
  ultimately show ?thesis by (simp add: sint_eq_iff sint_bit_6)
qed

lemma decode_loop_encode:
  assumes "- (2 ^ (31 - n)) \<le> sint w" "sint w < 2 ^ (31 - n)" "n \<in> {0, 7, 14, 21, 28}"
  shows "decode_varint_loop (encode_varint_i32 w @ rest) r n i =
           Some (r OR push_bit n w, i + length (encode_varint_i32 w))"
  using assms
proof (induction w arbitrary: r n i rule: encode_varint_i32.induct)
  case (1 w)
  show ?case
  proof (cases "- 64 \<le> sint w \<and> sint w < 64")
    case True
    then have "push_bit n w = push_bit n (take_bit 7 w) OR (if bit w 6 then - push_bit (n + 7) 1 else 0)"
      using push_low_group [of n w] by (simp add: negative_group push_bit_minus)
    moreover have z: "(34359738368 :: i32) = 0" by simp
    ultimately show ?thesis using True 1(4)
      by (subst encode_varint_step) (auto simp: encode_varint_step [of w] Let_def low_group_sign or.assoc z)
  next
    case False
    have small: "n \<noteq> 28" using False 1(2,3) by auto
    have "- (2 ^ (31 - (n + 7))) \<le> sint w div 128" "sint w div 128 < 2 ^ (31 - (n + 7))"
      using 1(2-4) small by auto
    then have "decode_varint_loop (encode_varint_i32 (signed_drop_bit 7 w) @ rest)
        (r OR push_bit n (take_bit 7 w)) (n + 7) (i + 1) =
      Some (r OR push_bit n (take_bit 7 w) OR push_bit (n + 7) (signed_drop_bit 7 w),
        i + 1 + length (encode_varint_i32 (signed_drop_bit 7 w)))"
      using 1(1) [OF refl refl] False 1(4) small by (auto simp: varint_finished_iff sint_shift or.assoc)
    then show ?thesis using False small 1(4)
      by (subst encode_varint_step)
        (auto simp: encode_varint_step [of w] Let_def or.assoc push_low_group [of n w])
  qed
qed

theorem varint_roundtrip:
  "decode_varint_i32 (encode_varint_i32 w @ rest) = Some (w, length (encode_varint_i32 w))"
  using decode_loop_encode [of 0 w rest 0 0] sint_range_size [of w]
  by (simp add: decode_varint_i32_def word_size)

text \<open>The encoding of a value has \<open>k\<close> groups exactly when \<open>7 * k\<close> bits are needed.\<close>

lemma varint_length_iff:
  "length (encode_varint_i32 w) \<le> Suc k \<longleftrightarrow>
     - (2 ^ (7 * k + 6)) \<le> sint w \<and> sint w < 2 ^ (7 * k + 6)"
proof (induction k arbitrary: w)
  case 0
  show ?case by (subst encode_varint_step) (auto simp: encode_varint_step [of "signed_drop_bit 7 w"])
next
  case (Suc k)
  have step: "- (2 ^ (7 * k + 6)) \<le> sint w div 128 \<and> sint w div 128 < 2 ^ (7 * k + 6) \<longleftrightarrow>
    - (2 ^ (7 * Suc k + 6)) \<le> sint w \<and> sint w < 2 ^ (7 * Suc k + 6)"
    by (simp add: power_add algebra_simps) linarith
  show ?case
  proof (cases "- 64 \<le> sint w \<and> sint w < 64")
    case True
    have "(64 :: int) \<le> 2 ^ (7 * Suc k + 6)" using power_increasing [of 6 "7 * Suc k + 6" "2 :: int"] by simp
    with True have "- (2 ^ (7 * Suc k + 6)) \<le> sint w \<and> sint w < 2 ^ (7 * Suc k + 6)" by linarith
    with True show ?thesis by (subst encode_varint_step) simp
  next
    case False
    then have "length (encode_varint_i32 w) = Suc (length (encode_varint_i32 (signed_drop_bit 7 w)))"
      by (subst encode_varint_step) auto
    with step show ?thesis by (simp add: Suc sint_shift)
  qed
qed

corollary varint_length_le: "length (encode_varint_i32 w) \<le> 5" "0 < length (encode_varint_i32 w)"
proof -
  show "length (encode_varint_i32 w) \<le> 5"
    using varint_length_iff [of w 4] sint_range_size [of w] by (simp add: word_size eval_nat_numeral)
  show "0 < length (encode_varint_i32 w)" by (subst encode_varint_step) simp
qed

text \<open>The decoder fails exactly when none of the first five bytes ends the number.\<close>

lemma decode_loop_None_iff:
  "decode_varint_loop bs r n i = None \<longleftrightarrow>
     (\<forall>b\<in>set (take ((35 - n) div 7) bs). b AND 0x80 \<noteq> 0)" if "n \<in> {0, 7, 14, 21, 28}"
  using that
proof (induction bs arbitrary: r n i)
  case (Cons b bs)
  then show ?case by (cases "n = 28") (auto simp: Let_def)
qed simp

lemma decode_varint_None_iff:
  "decode_varint_i32 bs = None \<longleftrightarrow> (\<forall>b\<in>set (take 5 bs). b AND 0x80 \<noteq> 0)"
  using decode_loop_None_iff [of 0 bs 0 0] by (simp add: decode_varint_i32_def)

section \<open>Sender and decoder\<close>

text \<open>The cast of a rounded double to \<open>i32\<close> saturates; the one back is exact.\<close>

definition i32_of_f64 :: "int \<Rightarrow> i32" where
  "i32_of_f64 i = word_of_int (clamp i (- (2 ^ 31)) (2 ^ 31 - 1))"

definition f64_of_i32 :: "i32 \<Rightarrow> f64" where
  "f64_of_i32 w = of_int (sint w)"

definition in_i32 :: "int \<Rightarrow> bool" where
  "in_i32 i \<longleftrightarrow> - (2 ^ 31) \<le> i \<and> i < 2 ^ 31"

text \<open>
  A key event: the difference of the codes as signed integers. Subtraction panics on overflow
  in checked builds and wraps in others.
\<close>

definition encode_key :: "bool \<Rightarrow> u8 \<Rightarrow> u32 \<Rightarrow> u32 \<Rightarrow> bytes option" where
  "encode_key overflow_checks disc last_keycode keycode =
     (if overflow_checks \<and> \<not> in_i32 (sint keycode - sint last_keycode) then None
      else Some (disc # encode_varint_i32 (keycode - last_keycode)))"

text \<open>\<open>encode\<close>: the inner \<open>None\<close> is the frame that would be too long, the outer one the panic.\<close>

definition input_encode :: "bool \<Rightarrow> u32 \<Rightarrow> input_event \<Rightarrow> (bytes option \<times> u32) option" where
  "input_encode overflow_checks last_keycode event =
     map_option (\<lambda>(buf, last). (if length buf \<le> MAX_INPUT_FRAME_BYTES then Some buf else None, last))
       (case event of
          KeyPress keycode \<Rightarrow>
            map_option (\<lambda>buf. (buf, keycode)) (encode_key overflow_checks DISC_KEY_PRESS last_keycode keycode)
        | KeyRelease keycode \<Rightarrow>
            map_option (\<lambda>buf. (buf, keycode)) (encode_key overflow_checks DISC_KEY_RELEASE last_keycode keycode)
        | MouseMove dx dy \<Rightarrow>
            Some (DISC_MOUSE_MOVE # encode_varint_i32 (i32_of_f64 (f64_round_int dx)) @
                  encode_varint_i32 (i32_of_f64 (f64_round_int dy)), last_keycode)
        | MouseButtonPress button \<Rightarrow> Some ([DISC_BUTTON_PRESS, button_to_wire button], last_keycode)
        | MouseButtonRelease button \<Rightarrow> Some ([DISC_BUTTON_RELEASE, button_to_wire button], last_keycode))"

definition decode_key :: "u32 \<Rightarrow> bytes \<Rightarrow> u32 option" where
  "decode_key last_keycode rest =
     (case decode_varint_i32 rest of
        None \<Rightarrow> None
      | Some (delta, _) \<Rightarrow>
          if in_i32 (sint last_keycode + sint delta) then Some (last_keycode + delta) else None)"

definition decode_move :: "bytes \<Rightarrow> input_event option" where
  "decode_move rest =
     (case decode_varint_i32 rest of
        None \<Rightarrow> None
      | Some (dx, consumed) \<Rightarrow>
          (case decode_varint_i32 (drop consumed rest) of
             None \<Rightarrow> None
           | Some (dy, _) \<Rightarrow> Some (MouseMove (f64_of_i32 dx) (f64_of_i32 dy))))"

definition decode_button :: "bytes \<Rightarrow> mouse_button option" where
  "decode_button rest = (case rest of [] \<Rightarrow> None | b # _ \<Rightarrow> wire_to_button b)"

definition input_decode :: "u32 \<Rightarrow> bytes \<Rightarrow> input_event option \<times> u32" where
  "input_decode last_keycode bytes =
     (case bytes of
        [] \<Rightarrow> (None, last_keycode)
      | disc # rest \<Rightarrow>
          if disc = DISC_KEY_PRESS then
            (case decode_key last_keycode rest of
               None \<Rightarrow> (None, last_keycode) | Some keycode \<Rightarrow> (Some (KeyPress keycode), keycode))
          else if disc = DISC_KEY_RELEASE then
            (case decode_key last_keycode rest of
               None \<Rightarrow> (None, last_keycode) | Some keycode \<Rightarrow> (Some (KeyRelease keycode), keycode))
          else if disc = DISC_MOUSE_MOVE then (decode_move rest, last_keycode)
          else if disc = DISC_BUTTON_PRESS then
            (map_option MouseButtonPress (decode_button rest), last_keycode)
          else if disc = DISC_BUTTON_RELEASE then
            (map_option MouseButtonRelease (decode_button rest), last_keycode)
          else (None, last_keycode))"

section \<open>Mouse coalescing\<close>

record mouse_move_coalescer =
  pending_dx :: f64
  pending_dy :: f64
  has_pending :: bool

definition coalescer_new :: mouse_move_coalescer where
  "coalescer_new = \<lparr>pending_dx = 0, pending_dy = 0, has_pending = False\<rparr>"

definition accumulate :: "mouse_move_coalescer \<Rightarrow> f64 \<Rightarrow> f64 \<Rightarrow> mouse_move_coalescer" where
  "accumulate c dx dy =
     c\<lparr>pending_dx := f64_add (pending_dx c) dx, pending_dy := f64_add (pending_dy c) dy, has_pending := True\<rparr>"

text \<open>\<open>flush\<close>: the event handed to the sender, if any.\<close>

definition coalescer_take :: "mouse_move_coalescer \<Rightarrow> input_event option \<times> mouse_move_coalescer" where
  "coalescer_take c =
     (if \<not> has_pending c then (None, c)
      else let int_dx = of_int (f64_round_int (pending_dx c)); int_dy = of_int (f64_round_int (pending_dy c))
           in (Some (MouseMove int_dx int_dy),
               c\<lparr>pending_dx := f64_sub (pending_dx c) int_dx, pending_dy := f64_sub (pending_dy c) int_dy,
                 has_pending := False\<rparr>))"

definition coalescer_flush ::
  "bool \<Rightarrow> mouse_move_coalescer \<Rightarrow> u32 \<Rightarrow> (bytes option \<times> mouse_move_coalescer \<times> u32) option" where
  "coalescer_flush overflow_checks c last_keycode =
     (case coalescer_take c of
        (None, c') \<Rightarrow> Some (None, c', last_keycode)
      | (Some event, c') \<Rightarrow>
          map_option (\<lambda>(frame, last). (frame, c', last)) (input_encode overflow_checks last_keycode event))"

section \<open>Cursor channel and pointer overlay\<close>

record cursor_sampler =
  last_x :: i32
  last_y :: i32

definition cursor_new :: cursor_sampler where
  "cursor_new = \<lparr>last_x = 0, last_y = 0\<rparr>"

definition encode_delta :: "i16 \<Rightarrow> i16 \<Rightarrow> bytes" where
  "encode_delta dx dy = to_le_bytes 2 dx @ to_le_bytes 2 dy"

definition decode_delta :: "bytes \<Rightarrow> i16 \<times> i16" where
  "decode_delta frame = (from_le_bytes (take 2 frame), from_le_bytes (take 2 (drop 2 frame)))"

definition clamp_i16 :: "int \<Rightarrow> i16" where
  "clamp_i16 i = word_of_int (clamp i (- (2 ^ 15)) (2 ^ 15 - 1))"

definition cursor_diff :: "bool \<Rightarrow> i32 \<Rightarrow> i32 \<Rightarrow> i16 option" where
  "cursor_diff overflow_checks x prev =
     (if overflow_checks \<and> \<not> in_i32 (sint x - sint prev) then None
      else Some (clamp_i16 (sint (x - prev))))"

definition cursor_advance :: "bool \<Rightarrow> cursor_sampler \<Rightarrow> i32 \<Rightarrow> i32 \<Rightarrow> (bytes \<times> cursor_sampler) option" where
  "cursor_advance overflow_checks s x y =
     (case cursor_diff overflow_checks x (last_x s) of
        None \<Rightarrow> None
      | Some dx \<Rightarrow>
          (case cursor_diff overflow_checks y (last_y s) of
             None \<Rightarrow> None
           | Some dy \<Rightarrow> Some (encode_delta dx dy, \<lparr>last_x = x, last_y = y\<rparr>)))"

datatype overlay_state = OverlayHidden | OverlayVisible f64 f64

record pointer_overlay =
  ov_session_active :: bool
  ov_view_only :: bool
  ov_x :: f64
  ov_y :: f64

definition overlay_new :: pointer_overlay where
  "overlay_new = \<lparr>ov_session_active = False, ov_view_only = False, ov_x = 0, ov_y = 0\<rparr>"

definition overlay_set_session_active :: "pointer_overlay \<Rightarrow> bool \<Rightarrow> pointer_overlay" where
  "overlay_set_session_active ov active =
     (if active then ov\<lparr>ov_session_active := True\<rparr>
      else ov\<lparr>ov_session_active := False, ov_view_only := False, ov_x := 0, ov_y := 0\<rparr>)"

definition overlay_set_view_only :: "pointer_overlay \<Rightarrow> bool \<Rightarrow> pointer_overlay" where
  "overlay_set_view_only ov view_only =
     (if ov_session_active ov then ov\<lparr>ov_view_only := view_only\<rparr> else ov)"

definition overlay_apply_delta :: "pointer_overlay \<Rightarrow> f64 \<Rightarrow> f64 \<Rightarrow> pointer_overlay" where
  "overlay_apply_delta ov dx dy =
     (if ov_session_active ov then ov\<lparr>ov_x := f64_add (ov_x ov) dx, ov_y := f64_add (ov_y ov) dy\<rparr> else ov)"

definition overlay_view :: "pointer_overlay \<Rightarrow> overlay_state" where
  "overlay_view ov =
     (if ov_session_active ov \<and> ov_view_only ov then OverlayVisible (ov_x ov) (ov_y ov) else OverlayHidden)"

section \<open>Injection\<close>

datatype injection_error = NotGranted | OsRejected | InjectionUnavailable | CapabilityDenied capability_error

text \<open>The platform backend is a parameter: the answer of the operating system to an event.\<close>

definition broker_inject ::
  "('b \<Rightarrow> input_event \<Rightarrow> (injection_error + unit) \<times> 'b) \<Rightarrow> flag_store \<Rightarrow> instant \<Rightarrow> control_session \<Rightarrow> 'b
    \<Rightarrow> input_event \<Rightarrow> (injection_error + unit) \<times> 'b" where
  "broker_inject backend st now session b event =
     (case apply_event st now session of
        Inl e \<Rightarrow> (Inl (CapabilityDenied e), b)
      | Inr _ \<Rightarrow> backend b event)"

section \<open>Sessions of events\<close>

fun input_send_all :: "bool \<Rightarrow> u32 \<Rightarrow> input_event list \<Rightarrow> bytes option list option" where
  "input_send_all chk l [] = Some []"
| "input_send_all chk l (e # es) =
     (case input_encode chk l e of
        None \<Rightarrow> None
      | Some (f, l') \<Rightarrow> map_option ((#) f) (input_send_all chk l' es))"

fun input_receive_all :: "u32 \<Rightarrow> bytes list \<Rightarrow> input_event option list" where
  "input_receive_all l [] = []"
| "input_receive_all l (f # fs) =
     fst (input_decode l f) # input_receive_all (snd (input_decode l f)) fs"

fun key_of :: "input_event \<Rightarrow> u32 option" where
  "key_of (KeyPress k) = Some k"
| "key_of (KeyRelease k) = Some k"
| "key_of _ = None"

text \<open>Successive key codes, as signed integers, differ by a 32-bit number.\<close>

fun keys_fit :: "u32 \<Rightarrow> input_event list \<Rightarrow> bool" where
  "keys_fit l [] = True"
| "keys_fit l (e # es) =
     (case key_of e of
        None \<Rightarrow> keys_fit l es
      | Some k \<Rightarrow> in_i32 (sint k - sint l) \<and> keys_fit k es)"

text \<open>An event as the wire carries it: motion rounded to whole pixels.\<close>

fun wire_event :: "input_event \<Rightarrow> input_event" where
  "wire_event (MouseMove dx dy) =
     MouseMove (f64_of_i32 (i32_of_f64 (f64_round_int dx))) (f64_of_i32 (i32_of_f64 (f64_round_int dy)))"
| "wire_event e = e"

lemma sint_add_in: "in_i32 (sint (a :: i32) + sint b) \<Longrightarrow> sint (a + b) = sint a + sint b"
  by (simp add: in_i32_def sint_word_ariths signed_take_bit_int_eq_self)

lemma sint_diff_in: "in_i32 (sint (a :: i32) - sint b) \<Longrightarrow> sint (a - b) = sint a - sint b"
  by (simp add: in_i32_def sint_word_ariths signed_take_bit_int_eq_self)

lemma in_i32_sint [simp]: "in_i32 (sint (w :: i32))"
  using sint_range_size [of w] by (simp add: in_i32_def word_size)

lemma delta_fits_iff: "in_i32 (sint l + sint (k - l)) \<longleftrightarrow> in_i32 (sint (k :: i32) - sint l)"
proof
  assume "in_i32 (sint l + sint (k - l))"
  then have "sint k = sint l + sint (k - l)" using sint_add_in [of l "k - l"] by simp
  then have "sint k - sint l = sint (k - l)" by simp
  then show "in_i32 (sint k - sint l)" by simp
next
  assume "in_i32 (sint k - sint l)"
  then show "in_i32 (sint l + sint (k - l))" by (simp add: sint_diff_in)
qed

lemma decode_key_encode:
  "decode_key l (encode_varint_i32 (k - l)) = (if in_i32 (sint k - sint l) then Some k else None)"
  using varint_roundtrip [of "k - l" "[]"] by (simp add: decode_key_def delta_fits_iff)

lemma decode_move_encode:
  "decode_move (encode_varint_i32 a @ encode_varint_i32 b) = Some (MouseMove (f64_of_i32 a) (f64_of_i32 b))"
  using varint_roundtrip [of b "[]"] by (simp add: decode_move_def varint_roundtrip)

lemma decode_button_encode: "decode_button [button_to_wire b] = Some b"
  by (cases b) (simp_all add: decode_button_def wire_to_button_def)

text \<open>One event: what is sent, when it panics, and what the decoder makes of it.\<close>

definition event_fits :: "u32 \<Rightarrow> input_event \<Rightarrow> bool" where
  "event_fits l e \<longleftrightarrow> (case key_of e of None \<Rightarrow> True | Some k \<Rightarrow> in_i32 (sint k - sint l))"

definition key_after :: "u32 \<Rightarrow> input_event \<Rightarrow> u32" where
  "key_after l e = (case key_of e of None \<Rightarrow> l | Some k \<Rightarrow> k)"

lemma keys_fit_Cons: "keys_fit l (e # es) \<longleftrightarrow> event_fits l e \<and> keys_fit (key_after l e) es"
  by (simp add: event_fits_def key_after_def split: option.split)

lemma input_encode_event:
  obtains f where "input_encode False l e = Some (Some f, key_after l e)" "length f \<le> 11"
    "input_encode True l e = (if event_fits l e then Some (Some f, key_after l e) else None)"
    "input_decode l f = (if event_fits l e then (Some (wire_event e), key_after l e) else (None, l))"
proof (cases "\<exists>dx dy. e = MouseMove dx dy")
  case True
  then obtain dx dy where e: "e = MouseMove dx dy" by auto
  define a where "a = i32_of_f64 (f64_round_int dx)"
  define b where "b = i32_of_f64 (f64_round_int dy)"
  show ?thesis
    by (rule that [of "DISC_MOUSE_MOVE # encode_varint_i32 a @ encode_varint_i32 b"])
      (use varint_length_le(1) [of a] varint_length_le(1) [of b] in
        \<open>auto simp: e a_def b_def input_encode_def input_decode_def event_fits_def key_after_def
          MAX_INPUT_FRAME_BYTES_def disc_defs decode_move_encode\<close>)
next
  case False
  have len: "length (encode_varint_i32 (k - l)) \<le> 10" for k
    using varint_length_le(1) [of "k - l"] by simp
  have len': "length (encode_varint_i32 (k - l)) \<le> 1178" for k using len [of k] by linarith
  show ?thesis
  proof (cases e)
    case (KeyPress k)
    show ?thesis
      by (rule that [of "DISC_KEY_PRESS # encode_varint_i32 (k - l)"])
        (auto simp: KeyPress len len' input_encode_def encode_key_def input_decode_def event_fits_def key_after_def
          MAX_INPUT_FRAME_BYTES_def disc_defs decode_key_encode)
  next
    case (KeyRelease k)
    show ?thesis
      by (rule that [of "DISC_KEY_RELEASE # encode_varint_i32 (k - l)"])
        (auto simp: KeyRelease len len' input_encode_def encode_key_def input_decode_def event_fits_def key_after_def
          MAX_INPUT_FRAME_BYTES_def disc_defs decode_key_encode)
  next
    case (MouseButtonPress b)
    show ?thesis
      by (rule that [of "[DISC_BUTTON_PRESS, button_to_wire b]"])
        (auto simp: MouseButtonPress input_encode_def input_decode_def event_fits_def key_after_def
          MAX_INPUT_FRAME_BYTES_def disc_defs decode_button_encode)
  next
    case (MouseButtonRelease b)
    show ?thesis
      by (rule that [of "[DISC_BUTTON_RELEASE, button_to_wire b]"])
        (auto simp: MouseButtonRelease input_encode_def input_decode_def event_fits_def key_after_def
          MAX_INPUT_FRAME_BYTES_def disc_defs decode_button_encode)
  qed (use False in auto)
qed

lemma input_session:
  obtains fs where "input_send_all False l es = Some (map Some fs)" "\<forall>f\<in>set fs. length f \<le> 11"
    "input_send_all True l es = (if keys_fit l es then Some (map Some fs) else None)"
    "input_receive_all l fs = map (\<lambda>e. Some (wire_event e)) es \<longleftrightarrow> keys_fit l es"
proof (induction es arbitrary: l thesis)
  case Nil
  show ?case by (rule Nil [of "[]"]) simp_all
next
  case (Cons e es)
  obtain f where f: "input_encode False l e = Some (Some f, key_after l e)" "length f \<le> 11"
    "input_encode True l e = (if event_fits l e then Some (Some f, key_after l e) else None)"
    "input_decode l f = (if event_fits l e then (Some (wire_event e), key_after l e) else (None, l))"
    by (rule input_encode_event)
  obtain fs where fs: "input_send_all False (key_after l e) es = Some (map Some fs)" "\<forall>f\<in>set fs. length f \<le> 11"
    "input_send_all True (key_after l e) es = (if keys_fit (key_after l e) es then Some (map Some fs) else None)"
    "input_receive_all (key_after l e) fs = map (\<lambda>e. Some (wire_event e)) es \<longleftrightarrow> keys_fit (key_after l e) es"
    by (rule Cons.IH)
  show ?case
    by (rule Cons.prems [of "f # fs"]) (use f fs in \<open>auto simp: keys_fit_Cons simp del: keys_fit.simps(2)\<close>)
qed

lemma keys_fit_small:
  "sint l \<ge> 0 \<Longrightarrow> \<forall>e\<in>set es. \<forall>k. key_of e = Some k \<longrightarrow> 0 \<le> sint k \<Longrightarrow> keys_fit l es"
proof (induction es arbitrary: l)
  case (Cons e es)
  show ?case
  proof (cases "key_of e")
    case (Some k)
    then have "0 \<le> sint k" using Cons.prems by simp
    moreover have "in_i32 (sint k)" "in_i32 (sint l)" by simp_all
    ultimately have "in_i32 (sint k - sint l)" using Cons.prems(1) by (simp add: in_i32_def)
    then show ?thesis using Some Cons \<open>0 \<le> sint k\<close> by simp
  qed (use Cons in simp)
qed simp

text \<open>
  Input events survive the channel. In either build the sender turns any sequence of events
  into frames of at most 11 bytes, unless it panics; a checked build panics exactly when two
  successive key codes differ, as signed integers, by more than 32 bits can hold. The decoder
  returns the events in order, motion rounded to whole pixels, if and only if no two successive
  key codes differ that much, which holds whenever all key codes are below 2 to the 31. Each
  integer takes the least number of 7-bit groups that holds it.
\<close>

lemma input_session_roundtrip:
  "(\<exists>frames. input_send_all False l events = Some (map Some frames) \<and>
     (\<forall>f\<in>set frames. length f \<le> 11) \<and>
     input_send_all True l events = (if keys_fit l events then Some (map Some frames) else None) \<and>
     (input_receive_all l frames = map (\<lambda>e. Some (wire_event e)) events \<longleftrightarrow> keys_fit l events)) \<and>
   (0 \<le> sint l \<and> (\<forall>e\<in>set events. \<forall>k. key_of e = Some k \<longrightarrow> 0 \<le> sint k) \<longrightarrow> keys_fit l events) \<and>
   decode_varint_i32 (encode_varint_i32 v @ rest) = Some (v, length (encode_varint_i32 v)) \<and>
   (length (encode_varint_i32 v) \<le> Suc n \<longleftrightarrow> - (2 ^ (7 * n + 6)) \<le> sint v \<and> sint v < 2 ^ (7 * n + 6))"
  using keys_fit_small [of l events] input_session [of l events]
  by (simp add: varint_roundtrip varint_length_iff) metis

section \<open>Coalesced motion\<close>

datatype mouse_op = Accumulate f64 f64 | FlushTick

fun mouse_run :: "bool \<Rightarrow> u32 \<Rightarrow> mouse_move_coalescer \<Rightarrow> mouse_op list \<Rightarrow> (bytes list \<times> mouse_move_coalescer) option" where
  "mouse_run chk l c [] = Some ([], c)"
| "mouse_run chk l c (Accumulate dx dy # ops) = mouse_run chk l (accumulate c dx dy) ops"
| "mouse_run chk l c (FlushTick # ops) =
     (case coalescer_flush chk c l of
        None \<Rightarrow> None
      | Some (frame, c', l') \<Rightarrow>
          map_option (\<lambda>(fs, c''). ((case frame of None \<Rightarrow> fs | Some f \<Rightarrow> f # fs), c'')) (mouse_run chk l' c' ops))"

fun op_dx :: "mouse_op \<Rightarrow> f64" where
  "op_dx (Accumulate dx dy) = dx"
| "op_dx FlushTick = 0"

fun op_dy :: "mouse_op \<Rightarrow> f64" where
  "op_dy (Accumulate dx dy) = dy"
| "op_dy FlushTick = 0"

fun move_dx :: "input_event option \<Rightarrow> f64" where
  "move_dx (Some (MouseMove dx dy)) = dx"
| "move_dx _ = 0"

fun move_dy :: "input_event option \<Rightarrow> f64" where
  "move_dy (Some (MouseMove dx dy)) = dy"
| "move_dy _ = 0"

text \<open>Motion in steps of 2 to the -20 pixels; sums of it below 2 to the 31 pixels are exact.\<close>

definition on_grid :: "rat \<Rightarrow> bool" where
  "on_grid x \<longleftrightarrow> of_int \<lfloor>x * 2 ^ 20\<rfloor> = x * 2 ^ 20"

lemma on_grid_iff: "on_grid x \<longleftrightarrow> (\<exists>i :: int. x = of_int i / 2 ^ 20)"
proof
  assume "on_grid x"
  then have "x * 2 ^ 20 = of_int \<lfloor>x * 2 ^ 20\<rfloor>" unfolding on_grid_def by (rule sym)
  then have "x = of_int \<lfloor>x * 2 ^ 20\<rfloor> / 2 ^ 20" by (rule eq_divide_imp [rotated]) simp
  then show "\<exists>i :: int. x = of_int i / 2 ^ 20" by blast
next
  assume "\<exists>i :: int. x = of_int i / 2 ^ 20"
  then obtain i :: int where h: "x * 2 ^ 20 = of_int i" by auto
  show "on_grid x" by (simp only: on_grid_def h floor_of_int)
qed

lemma on_grid_ops: "on_grid x \<Longrightarrow> on_grid y \<Longrightarrow> on_grid (x + y)" "on_grid x \<Longrightarrow> on_grid (x - of_int i)" "on_grid 0"
proof -
  show "on_grid (x + y)" if "on_grid x" "on_grid y"
    using that unfolding on_grid_iff by (metis add_divide_distrib of_int_add)
  show "on_grid (x - of_int i)" if grid: "on_grid x"
  proof -
    from grid obtain j where "x = of_int j / 2 ^ 20" by (auto simp: on_grid_iff)
    then have "x - of_int i = of_int (j - i * 2 ^ 20) / 2 ^ 20" by (simp add: field_simps)
    then show ?thesis unfolding on_grid_iff by blast
  qed
qed (simp add: on_grid_def)

lemma f64_round_grid:
  assumes "on_grid x" "\<bar>x\<bar> \<le> 2 ^ 31"
  shows "f64_round x = x"
proof -
  obtain i where i: "x = of_int i / 2 ^ 20" using assms(1) by (auto simp: on_grid_iff)
  have "\<bar>of_int i :: rat\<bar> \<le> of_int (2 ^ 51)" using assms(2) by (simp add: i)
  then have "\<bar>i\<bar> \<le> 2 ^ 51" by (metis of_int_abs of_int_le_iff)
  then have "nat \<bar>i\<bar> \<le> 2 ^ 53" by simp
  then have "f64_round (of_nat (nat \<bar>i\<bar>) / 2 ^ 20) = of_nat (nat \<bar>i\<bar>) / 2 ^ 20"
    by (rule f64_round_dyadic) simp
  then have abs: "f64_round \<bar>x\<bar> = \<bar>x\<bar>" by (simp add: i)
  then show ?thesis by (cases "0 \<le> x") (use f64_round_minus [of "\<bar>x\<bar>"] in auto)
qed

lemma f64_round_int_of_int [simp]: "f64_round_int (of_int i) = i"
  by (simp add: f64_round_int_def floor_eq_iff)

lemma f64_round_int_near: "\<bar>x - of_int (f64_round_int x)\<bar> \<le> 1 / 2"
  using floor_correct [of "x + 1 / 2"] floor_correct [of "- x + 1 / 2"]
  by (cases "0 \<le> x"; simp only: f64_round_int_def if_True if_False of_int_minus; linarith)

lemma f64_round_int_small: "\<bar>x\<bar> < 1 / 2 \<Longrightarrow> f64_round_int x = 0"
  unfolding f64_round_int_def by (auto simp: abs_if floor_eq_iff split: if_splits)

lemma f64_round_int_carry: "\<bar>x - of_int (f64_round_int x)\<bar> \<le> \<bar>x\<bar>"
  using f64_round_int_near [of x] f64_round_int_small [of x] by (cases "\<bar>x\<bar> < 1 / 2") auto

lemma wire_whole_pixels:
  assumes "\<bar>x\<bar> \<le> 2 ^ 31 - 1"
  shows "f64_of_i32 (i32_of_f64 (f64_round_int x)) = of_int (f64_round_int x)"
proof -
  define i where "i = f64_round_int x"
  have "\<bar>of_int i\<bar> \<le> \<bar>x\<bar> + 1 / 2" using f64_round_int_near [of x] by (simp add: i_def abs_if split: if_splits)
  then have "\<bar>of_int i :: rat\<bar> < of_int (2 ^ 31)" using assms by simp
  then have "\<bar>i\<bar> < 2 ^ 31" by (metis of_int_abs of_int_less_iff)
  then have "sint (word_of_int i :: i32) = i" "clamp i (- (2 ^ 31)) (2 ^ 31 - 1) = i"
    by (auto simp: sint_sbintrunc' signed_take_bit_int_eq_self abs_if split: if_splits)
  then show ?thesis by (simp add: f64_of_i32_def i32_of_f64_def i_def)
qed

text \<open>The state between operations: motion on the grid, the carry of a flush at most half a pixel.\<close>

definition coalescer_ok :: "mouse_move_coalescer \<Rightarrow> bool" where
  "coalescer_ok c \<longleftrightarrow> on_grid (pending_dx c) \<and> on_grid (pending_dy c) \<and>
     (\<not> has_pending c \<longrightarrow> \<bar>pending_dx c\<bar> \<le> 1 / 2 \<and> \<bar>pending_dy c\<bar> \<le> 1 / 2)"

definition bounded_motion :: "mouse_move_coalescer \<Rightarrow> mouse_op list \<Rightarrow> bool" where
  "bounded_motion c ops \<longleftrightarrow>
     (\<forall>op\<in>set ops. on_grid (op_dx op) \<and> on_grid (op_dy op)) \<and>
     \<bar>pending_dx c\<bar> + sum_list (map (\<lambda>op. \<bar>op_dx op\<bar>) ops) \<le> 2 ^ 31 - 1 \<and>
     \<bar>pending_dy c\<bar> + sum_list (map (\<lambda>op. \<bar>op_dy op\<bar>) ops) \<le> 2 ^ 31 - 1"

lemma sum_abs_nonneg [simp]: "0 \<le> sum_list (map (\<lambda>x. \<bar>f x :: rat\<bar>) xs)"
  by (rule sum_list_nonneg) auto

lemma accumulate_exact:
  assumes "coalescer_ok c" "bounded_motion c (Accumulate dx dy # ops)"
  shows "pending_dx (accumulate c dx dy) = pending_dx c + dx" "pending_dy (accumulate c dx dy) = pending_dy c + dy"
    "coalescer_ok (accumulate c dx dy)" "bounded_motion (accumulate c dx dy) ops"
proof -
  have x: "\<bar>pending_dx c\<bar> + \<bar>dx\<bar> \<le> 2 ^ 31 - 1 - sum_list (map (\<lambda>op. \<bar>op_dx op\<bar>) ops)"
    and y: "\<bar>pending_dy c\<bar> + \<bar>dy\<bar> \<le> 2 ^ 31 - 1 - sum_list (map (\<lambda>op. \<bar>op_dy op\<bar>) ops)"
    and g: "on_grid (pending_dx c + dx)" "on_grid (pending_dy c + dy)"
    using assms by (auto simp: bounded_motion_def coalescer_ok_def intro: on_grid_ops)
  have "\<bar>pending_dx c + dx\<bar> \<le> 2 ^ 31" "\<bar>pending_dy c + dy\<bar> \<le> 2 ^ 31"
    using x y abs_triangle_ineq [of "pending_dx c" dx] abs_triangle_ineq [of "pending_dy c" dy]
      sum_abs_nonneg [of op_dx ops] sum_abs_nonneg [of op_dy ops] by linarith+
  then show e: "pending_dx (accumulate c dx dy) = pending_dx c + dx"
      "pending_dy (accumulate c dx dy) = pending_dy c + dy"
    using g by (simp_all add: accumulate_def f64_add_def f64_round_grid)
  then show "coalescer_ok (accumulate c dx dy)" using g by (simp add: coalescer_ok_def accumulate_def [of c])
  show "bounded_motion (accumulate c dx dy) ops"
    using assms(2) e x y abs_triangle_ineq [of "pending_dx c" dx] abs_triangle_ineq [of "pending_dy c" dy]
    unfolding bounded_motion_def e by (auto simp del: abs_triangle_ineq)
qed

lemma flush_exact:
  assumes "coalescer_ok c" "bounded_motion c (FlushTick # ops)" "has_pending c"
  obtains f c' where "coalescer_flush chk c l = Some (Some f, c', l)"
    "input_decode l f = (Some (MouseMove (pending_dx c - pending_dx c') (pending_dy c - pending_dy c')), l)"
    "coalescer_ok c'" "bounded_motion c' ops" "\<not> has_pending c'"
proof -
  define i where "i = f64_round_int (pending_dx c)"
  define j where "j = f64_round_int (pending_dy c)"
  define c' where "c' = snd (coalescer_take c)"
  have small: "\<bar>pending_dx c\<bar> \<le> 2 ^ 31 - 1" "\<bar>pending_dy c\<bar> \<le> 2 ^ 31 - 1"
    using assms(2) sum_abs_nonneg [of op_dx ops] sum_abs_nonneg [of op_dy ops]
    unfolding bounded_motion_def by (simp_all, linarith+)
  have carry: "\<bar>pending_dx c - of_int i\<bar> \<le> \<bar>pending_dx c\<bar>" "\<bar>pending_dy c - of_int j\<bar> \<le> \<bar>pending_dy c\<bar>"
    and half: "\<bar>pending_dx c - of_int i\<bar> \<le> 1 / 2" "\<bar>pending_dy c - of_int j\<bar> \<le> 1 / 2"
    by (simp_all only: i_def j_def f64_round_int_near f64_round_int_carry)
  have grid: "on_grid (pending_dx c - of_int i)" "on_grid (pending_dy c - of_int j)"
    using assms(1) by (simp_all add: coalescer_ok_def on_grid_ops)
  have "\<bar>pending_dx c - of_int i\<bar> \<le> 2 ^ 31" "\<bar>pending_dy c - of_int j\<bar> \<le> 2 ^ 31"
    using carry small by linarith+
  then have c': "coalescer_take c = (Some (MouseMove (of_int i) (of_int j)), c')"
    "pending_dx c' = pending_dx c - of_int i" "pending_dy c' = pending_dy c - of_int j" "\<not> has_pending c'"
    using assms(3) grid by (simp_all add: c'_def coalescer_take_def Let_def f64_sub_def f64_round_grid i_def j_def)
  let ?e = "MouseMove (of_int i) (of_int j)"
  have ok: "coalescer_ok c'" "bounded_motion c' ops"
    using assms(2) c' grid half carry by (auto simp: coalescer_ok_def bounded_motion_def)
  have fits: "event_fits l ?e" "key_after l ?e = l" by (simp_all add: event_fits_def key_after_def)
  have wire: "wire_event ?e = ?e"
    using wire_whole_pixels [OF small(1)] wire_whole_pixels [OF small(2)] by (simp add: i_def j_def)
  obtain f where "input_encode chk l ?e = Some (Some f, l)" "input_decode l f = (Some ?e, l)"
    by (rule input_encode_event [of l ?e]) (use fits wire in \<open>cases chk; simp\<close>)
  then show thesis
    using c' ok by (intro that [of f c']) (simp_all add: coalescer_flush_def)
qed

lemma mouse_run_conserves:
  assumes "coalescer_ok c" "bounded_motion c ops"
  obtains fs c' where "mouse_run chk l c ops = Some (fs, c')" "coalescer_ok c'"
    "sum_list (map move_dx (input_receive_all l fs)) + pending_dx c' = pending_dx c + sum_list (map op_dx ops)"
    "sum_list (map move_dy (input_receive_all l fs)) + pending_dy c' = pending_dy c + sum_list (map op_dy ops)"
    "length fs \<le> length (filter ((=) FlushTick) ops)"
    "ops \<noteq> [] \<and> last ops = FlushTick \<longrightarrow> \<not> has_pending c'"
  using assms
proof (induction ops arbitrary: c thesis)
  case Nil
  show ?case by (rule Nil(1)) (use Nil in simp_all)
next
  case (Cons op ops)
  show ?case
  proof (cases op)
    case (Accumulate dx dy)
    note exact = accumulate_exact [OF Cons.prems(2) Cons.prems(3) [unfolded Accumulate]]
    show ?thesis
      by (rule Cons.IH [OF _ exact(3,4)], rule Cons.prems(1)) (auto simp: Accumulate exact(1,2))
  next
    case FlushTick
    show ?thesis
    proof (cases "has_pending c")
      case True
      obtain f c' where f: "coalescer_flush chk c l = Some (Some f, c', l)"
        "input_decode l f = (Some (MouseMove (pending_dx c - pending_dx c') (pending_dy c - pending_dy c')), l)"
        "coalescer_ok c'" "bounded_motion c' ops" "\<not> has_pending c'"
        by (rule flush_exact [OF Cons.prems(2) Cons.prems(3) [unfolded FlushTick] True])
      show ?thesis
        by (rule Cons.IH [OF _ f(3,4)], rule Cons.prems(1)) (use f in \<open>auto simp: FlushTick algebra_simps\<close>)
    next
      case False
      have bounded: "bounded_motion c ops" using Cons.prems(3) by (simp add: bounded_motion_def FlushTick)
      have flush: "coalescer_flush chk c l = Some (None, c, l)"
        using False by (simp add: coalescer_flush_def coalescer_take_def)
      show ?thesis
        by (rule Cons.IH [OF _ Cons.prems(2) bounded], rule Cons.prems(1))
          (use False flush in \<open>auto simp: FlushTick\<close>)
    qed
  qed
qed

text \<open>
  Coalescing conserves mouse motion from end to end. For any mouse motion in steps of 2 to the
  -20 pixels and below 2 to the 31 pixels in total, interleaved with flushes in any way, nothing
  panics, at most one frame is sent per flush, and the sum of the moves that the receiver decodes plus
  the carry is exactly the sum of the moves made. After a flush the receiver is
  within half a pixel of the pointer on both axes.
\<close>

lemma coalesced_motion_conserved:
  assumes "\<forall>op\<in>set ops. on_grid (op_dx op) \<and> on_grid (op_dy op)"
    and "sum_list (map (\<lambda>op. \<bar>op_dx op\<bar>) ops) \<le> 2 ^ 31 - 1" "sum_list (map (\<lambda>op. \<bar>op_dy op\<bar>) ops) \<le> 2 ^ 31 - 1"
  shows "\<exists>frames c. mouse_run chk l coalescer_new ops = Some (frames, c) \<and>
    length frames \<le> length (filter ((=) FlushTick) ops) \<and>
    sum_list (map move_dx (input_receive_all l frames)) + pending_dx c = sum_list (map op_dx ops) \<and>
    sum_list (map move_dy (input_receive_all l frames)) + pending_dy c = sum_list (map op_dy ops) \<and>
    (ops \<noteq> [] \<and> last ops = FlushTick \<longrightarrow> \<bar>pending_dx c\<bar> \<le> 1 / 2 \<and> \<bar>pending_dy c\<bar> \<le> 1 / 2)"
proof -
  have ok: "coalescer_ok coalescer_new" by (simp add: coalescer_ok_def coalescer_new_def on_grid_ops)
  have "bounded_motion coalescer_new ops" using assms by (simp add: bounded_motion_def coalescer_new_def)
  from mouse_run_conserves [OF ok this, of chk l] show ?thesis
    by (simp add: coalescer_new_def coalescer_ok_def) metis
qed

text \<open>
  A key code that cannot be reached by a signed difference is lost in an unchecked build, and the
  key events after it are decoded to other keys.
\<close>

lemma input_key_desync:
  assumes "\<not> in_i32 (sint k - sint l)" "in_i32 (sint k' - sint k)" "in_i32 (sint l + (sint k' - sint k))"
  shows "\<exists>f f'. input_send_all False l [KeyPress k, KeyPress k'] = Some [Some f, Some f'] \<and>
    input_receive_all l [f, f'] = [None, Some (KeyPress (l + (k' - k)))] \<and> l + (k' - k) \<noteq> k'"
proof -
  have "l \<noteq> k" using assms(1) by (auto simp: in_i32_def)
  then have "l + (k' - k) \<noteq> k'" by (simp add: algebra_simps)
  obtain f where f: "input_encode False l (KeyPress k) = Some (Some f, k)" "input_decode l f = (None, l)"
    by (rule input_encode_event [of l "KeyPress k"]) (use assms in \<open>simp add: event_fits_def key_after_def\<close>)
  define d where "d = encode_varint_i32 (k' - k)"
  have len: "length d \<le> 1178" using varint_length_le(1) [of "k' - k"] by (simp add: d_def)
  have "input_encode False k (KeyPress k') = Some (Some (DISC_KEY_PRESS # d), k')"
    using len by (simp add: input_encode_def encode_key_def d_def MAX_INPUT_FRAME_BYTES_def)
  moreover have "decode_key l d = Some (l + (k' - k))"
    using varint_roundtrip [of "k' - k" "[]"] assms(2,3) by (simp add: decode_key_def d_def sint_diff_in)
  ultimately show ?thesis
    using f \<open>l + (k' - k) \<noteq> k'\<close> by (intro exI [of _ f] exI [of _ "DISC_KEY_PRESS # d"]) (simp add: input_decode_def)
qed

section \<open>The pointer follows the cursor\<close>

text \<open>Sampler, channel and overlay together: every frame is decoded and applied.\<close>

fun cursor_session ::
  "bool \<Rightarrow> cursor_sampler \<Rightarrow> pointer_overlay \<Rightarrow> (i32 \<times> i32) list \<Rightarrow> (cursor_sampler \<times> pointer_overlay) option" where
  "cursor_session chk s ov [] = Some (s, ov)"
| "cursor_session chk s ov ((x, y) # ps) =
     (case cursor_advance chk s x y of
        None \<Rightarrow> None
      | Some (frame, s') \<Rightarrow>
          (let (dx, dy) = decode_delta frame
           in cursor_session chk s' (overlay_apply_delta ov (of_int (sint dx)) (of_int (sint dy))) ps))"

lemma delta_roundtrip: "decode_delta (encode_delta dx dy) = (dx, dy)"
  by (simp add: decode_delta_def encode_delta_def from_to_le_bytes)

text \<open>Positions of one display: no two of them are further apart than 16 bits can hold.\<close>

definition on_display :: "i32 \<Rightarrow> bool" where
  "on_display w \<longleftrightarrow> - (2 ^ 14) \<le> sint w \<and> sint w < 2 ^ 14"

lemma cursor_diff_on_display:
  assumes "on_display x" "on_display prev"
  shows "\<exists>d. cursor_diff chk x prev = Some d \<and> sint d = sint x - sint prev"
proof -
  have fits: "in_i32 (sint x - sint prev)" using assms by (simp add: on_display_def in_i32_def)
  have "sint (clamp_i16 i) = i" if "- (2 ^ 15) \<le> i" "i \<le> 2 ^ 15 - 1" for i
    using that by (simp add: clamp_i16_def sint_sbintrunc' signed_take_bit_int_eq_self)
  then have "sint (clamp_i16 (sint x - sint prev)) = sint x - sint prev"
    using assms by (simp add: on_display_def)
  with fits show ?thesis by (simp add: cursor_diff_def sint_diff_in)
qed

text \<open>A coordinate of the overlay that is an integer stays one; the sum is exact.\<close>

lemma overlay_add_exact:
  "\<bar>i\<bar> \<le> 2 ^ 40 \<Longrightarrow> \<bar>j\<bar> \<le> 2 ^ 40 \<Longrightarrow> f64_add (of_int i) (of_int j) = of_int (i + j)"
  unfolding f64_add_def of_int_add [symmetric] by (rule f64_round_of_int) simp

lemma overlay_coordinate:
  assumes "on_display x" "on_display prev" "\<bar>off\<bar> \<le> 2 ^ 32"
  shows "f64_add (of_int (sint prev + off)) (of_int (sint x - sint prev)) = of_int (sint x + off)"
proof -
  have "\<bar>sint prev + off\<bar> \<le> 2 ^ 40" "\<bar>sint x - sint prev\<bar> \<le> 2 ^ 40"
    using assms by (simp_all add: on_display_def abs_if split: if_splits)
  from overlay_add_exact [OF this] show ?thesis by (simp add: algebra_simps)
qed

lemma cursor_advance_on_display:
  assumes "on_display x" "on_display y" "on_display (last_x s)" "on_display (last_y s)"
  obtains f dx dy where "cursor_advance chk s x y = Some (f, \<lparr>last_x = x, last_y = y\<rparr>)" "decode_delta f = (dx, dy)"
    "sint dx = sint x - sint (last_x s)" "sint dy = sint y - sint (last_y s)"
proof -
  obtain dx dy where d: "cursor_diff chk x (last_x s) = Some dx" "cursor_diff chk y (last_y s) = Some dy"
    "sint dx = sint x - sint (last_x s)" "sint dy = sint y - sint (last_y s)"
    using cursor_diff_on_display assms by meson
  show thesis by (rule that [of "encode_delta dx dy" dx dy]) (simp_all add: d cursor_advance_def delta_roundtrip)
qed

lemma cursor_session_follows:
  assumes "\<forall>(x, y)\<in>set ps. on_display x \<and> on_display y" "on_display (last_x s)" "on_display (last_y s)"
    and "\<bar>offx\<bar> \<le> 2 ^ 32" "\<bar>offy\<bar> \<le> 2 ^ 32" "ov_session_active ov"
    and "ov_x ov = of_int (sint (last_x s) + offx)" "ov_y ov = of_int (sint (last_y s) + offy)"
  shows "\<exists>s' ov'. cursor_session chk s ov ps = Some (s', ov') \<and>
    (last_x s', last_y s') = last ((last_x s, last_y s) # ps) \<and>
    ov' = ov\<lparr>ov_x := of_int (sint (last_x s') + offx), ov_y := of_int (sint (last_y s') + offy)\<rparr>"
  using assms
proof (induction ps arbitrary: s ov)
  case (Cons p ps)
  obtain x y where p: "p = (x, y)" by (cases p)
  have xy: "on_display x" "on_display y" using Cons.prems(1) by (auto simp: p)
  obtain f dx dy where adv: "cursor_advance chk s x y = Some (f, \<lparr>last_x = x, last_y = y\<rparr>)" "decode_delta f = (dx, dy)"
    "sint dx = sint x - sint (last_x s)" "sint dy = sint y - sint (last_y s)"
    by (rule cursor_advance_on_display [OF xy Cons.prems(2,3)])
  let ?ov = "ov\<lparr>ov_x := of_int (sint x + offx), ov_y := of_int (sint y + offy)\<rparr>"
  have "overlay_apply_delta ov (of_int (sint dx)) (of_int (sint dy)) = ?ov"
    using overlay_coordinate [OF xy(1) Cons.prems(2,4)] overlay_coordinate [OF xy(2) Cons.prems(3,5)]
    by (simp add: overlay_apply_delta_def adv(3,4) Cons.prems(6-8) del: of_int_add of_int_diff)
  then have "cursor_session chk s ov (p # ps) = cursor_session chk \<lparr>last_x = x, last_y = y\<rparr> ?ov ps"
    by (simp add: p adv(1,2))
  then show ?case
    using Cons.IH [of "\<lparr>last_x = x, last_y = y\<rparr>" ?ov] Cons.prems xy by (auto simp: p)
qed auto

text \<open>
  The pointer overlay follows the technician's cursor. For every sequence of cursor positions
  on a display of 32768 by 32768 pixels around the origin, in either build, sampling, encoding,
  decoding and applying each delta never panics, and the overlay of a session that
  has just become active and is view only stands exactly at the last position. An overlay that was
  off by some offset, as after a jump too large for a frame, stays off by that offset for good.
\<close>

lemma overlay_follows_cursor:
  assumes "\<forall>(x, y)\<in>set ps. on_display x \<and> on_display y" "ps \<noteq> []"
  shows "\<exists>s ov. cursor_session chk cursor_new
        (overlay_set_view_only (overlay_set_session_active overlay_new True) view_only) ps = Some (s, ov) \<and>
      overlay_view ov = (if view_only then OverlayVisible (of_int (sint (fst (last ps)))) (of_int (sint (snd (last ps))))
                          else OverlayHidden) \<and>
      (\<forall>ps' ov0 offx offy. (\<forall>(x, y)\<in>set ps'. on_display x \<and> on_display y) \<and>
         \<bar>offx\<bar> \<le> 2 ^ 32 \<and> \<bar>offy\<bar> \<le> 2 ^ 32 \<and> ov0 = ov\<lparr>ov_x := ov_x ov + of_int offx, ov_y := ov_y ov + of_int offy\<rparr> \<longrightarrow>
         (\<exists>s' ov'. cursor_session chk s ov0 ps' = Some (s', ov') \<and>
            ov_x ov' = of_int (sint (last_x s') + offx) \<and> ov_y ov' = of_int (sint (last_y s') + offy)))"
proof -
  let ?ov = "overlay_set_view_only (overlay_set_session_active overlay_new True) view_only"
  have zero: "on_display 0" by (simp add: on_display_def)
  have ov: "ov_session_active ?ov" "ov_x ?ov = 0" "ov_y ?ov = 0" "ov_view_only ?ov = view_only"
    by (simp_all add: overlay_set_view_only_def overlay_set_session_active_def overlay_new_def)
  obtain s ov where run: "cursor_session chk cursor_new ?ov ps = Some (s, ov)"
    "(last_x s, last_y s) = last ps" "ov = ?ov\<lparr>ov_x := of_int (sint (last_x s)), ov_y := of_int (sint (last_y s))\<rparr>"
    using cursor_session_follows [OF assms(1), of cursor_new 0 0 ?ov chk] assms(2) ov zero
    by (auto simp: cursor_new_def)
  have "last ps \<in> set ps" using assms(2) by simp
  then have disp: "on_display (last_x s)" "on_display (last_y s)" using assms(1) run(2) [symmetric] by auto
  have "\<exists>s' ov'. cursor_session chk s ov0 ps' = Some (s', ov') \<and>
      ov_x ov' = of_int (sint (last_x s') + offx) \<and> ov_y ov' = of_int (sint (last_y s') + offy)"
    if "\<forall>(x, y)\<in>set ps'. on_display x \<and> on_display y" "\<bar>offx\<bar> \<le> 2 ^ 32" "\<bar>offy\<bar> \<le> 2 ^ 32"
      "ov0 = ov\<lparr>ov_x := ov_x ov + of_int offx, ov_y := ov_y ov + of_int offy\<rparr>" for ps' ov0 offx offy
    using cursor_session_follows [OF that(1) disp that(2,3), of ov0 chk] run(3) ov(1) that(4) by auto
  moreover have "overlay_view ov = (if view_only then OverlayVisible (of_int (sint (fst (last ps)))) (of_int (sint (snd (last ps))))
      else OverlayHidden)"
    using ov run(2,3) [symmetric] by (auto simp: overlay_view_def)
  ultimately show ?thesis using run(1) by blast
qed

section \<open>Injection is gated\<close>

text \<open>
  An event changes the backend only under a live control grant. Once the consent behind the grant
  is withdrawn every event is refused.
\<close>

lemma broker_gated:
  "snd (broker_inject backend st now session b event) \<noteq> b \<Longrightarrow> control_is_granted st now session"
  "handle_is_withdrawn st h \<Longrightarrow> cs_grant session = Some g \<Longrightarrow> cg_revocation g = Some h \<Longrightarrow>
     broker_inject backend st now session b event = (Inl (CapabilityDenied ConsentWithdrawn), b)"
  by (auto simp: broker_inject_def control_is_granted_def apply_event_def revocation_withdrawn_def
      split: option.splits if_splits sum.splits)

end
