(* ===== verification/Kv_Tree.thy ===== *)
theory Kv_Tree
  imports Codec "HOL-Library.List_Lexorder" "HOL-Library.Sublist"
begin

text \<open>
  The ordered byte store behind the signaling service. The store is a library of its own: its
  operations are a parameter, and \<open>kv_ok\<close> states what its documentation promises (a map
  from keys to values, prefix scans in the order of the keys). Calls are taken to succeed. The last
  section gives one store that keeps the promise, for the examples.

  The theory also has the fixed-width decimal and hexadecimal numbers of the keys: they have a
  fixed length, distinct numbers have distinct texts, and the texts are ordered as the numbers.
\<close>

record 't kv_ops =
  kv_get :: "'t \<Rightarrow> bytes \<Rightarrow> bytes option"
  kv_insert :: "'t \<Rightarrow> bytes \<Rightarrow> bytes \<Rightarrow> 't"
  kv_remove :: "'t \<Rightarrow> bytes \<Rightarrow> 't"
  kv_scan_prefix :: "'t \<Rightarrow> bytes \<Rightarrow> (bytes \<times> bytes) list"

text \<open>A scan lists the entries whose key starts with the prefix, by increasing key.\<close>

definition scans :: "(bytes \<Rightarrow> bytes option) \<Rightarrow> bytes \<Rightarrow> (bytes \<times> bytes) list \<Rightarrow> bool" where
  "scans m p kvs \<longleftrightarrow> sorted_wrt (\<lambda>a b. fst a < fst b) kvs \<and> set kvs = {(k, v). m k = Some v \<and> prefix p k}"

definition kv_ok :: "'t kv_ops \<Rightarrow> bool" where
  "kv_ok kv \<longleftrightarrow>
     (\<forall>t k v. kv_get kv (kv_insert kv t k v) = (kv_get kv t)(k \<mapsto> v)) \<and>
     (\<forall>t k. kv_get kv (kv_remove kv t k) = (kv_get kv t)(k := None)) \<and>
     (\<forall>t p. scans (kv_get kv t) p (kv_scan_prefix kv t p))"

lemma kv_ok_laws:
  assumes "kv_ok kv"
  shows "kv_get kv (kv_insert kv t k v) = (kv_get kv t)(k \<mapsto> v)"
    and "kv_get kv (kv_remove kv t k) = (kv_get kv t)(k := None)"
    and "scans (kv_get kv t) p (kv_scan_prefix kv t p)"
  using assms by (simp_all add: kv_ok_def)

text \<open>What a scan lists is determined.\<close>

lemma sorted_wrt_unique:
  fixes f :: "'a \<Rightarrow> 'b::linorder"
  assumes "sorted_wrt (\<lambda>a b. f a < f b) xs" "sorted_wrt (\<lambda>a b. f a < f b) ys" "set xs = set ys"
  shows "xs = ys"
  using assms
proof (induction xs arbitrary: ys)
  case (Cons x xs)
  obtain y ys' where ys: "ys = y # ys'" using Cons.prems(3) by (cases ys) auto
  have "x = y"
  proof (rule ccontr)
    assume "x \<noteq> y"
    then have "x \<in> set ys'" "y \<in> set xs" using Cons.prems(3) by (auto simp: ys)
    then have "f y < f x" "f x < f y" using Cons.prems(1,2) by (auto simp: ys)
    then show False by simp
  qed
  moreover have "x \<notin> set xs" "y \<notin> set ys'" using Cons.prems(1,2) by (auto simp: ys)
  ultimately have "set xs = set ys'" using Cons.prems(3) by (auto simp: ys)
  then show ?case using Cons.IH Cons.prems(1,2) \<open>x = y\<close> by (simp add: ys)
qed simp

lemma sorted_wrt_distinct: "sorted_wrt (\<lambda>a b. f a < (f b :: 'b::order)) xs \<Longrightarrow> distinct xs"
  by (induction xs) auto

lemma scans_unique: "scans m p xs \<Longrightarrow> scans m p ys \<Longrightarrow> xs = ys"
  by (auto simp: scans_def intro: sorted_wrt_unique [of fst])

lemma scans_Nil: "(\<And>k. prefix p k \<Longrightarrow> m k = None) \<Longrightarrow> scans m p []"
  by (auto simp: scans_def)

lemma scans_length: "scans m p kvs \<Longrightarrow> length kvs = card {k. m k \<noteq> None \<and> prefix p k}"
proof -
  assume scan: "scans m p kvs"
  then have "sorted_wrt (<) (map fst kvs)" by (simp add: scans_def sorted_wrt_map)
  then have "distinct (map fst kvs)" by (simp add: strict_sorted_iff)
  then have "length kvs = card (set (map fst kvs))" using distinct_card [of "map fst kvs"] by simp
  moreover have "set (map fst kvs) = {k. m k \<noteq> None \<and> prefix p k}"
    using scan by (force simp: scans_def)
  ultimately show ?thesis by simp
qed

text \<open>A new entry behind all others of its prefix goes to the end; one of another prefix is not seen.\<close>

lemma scans_snoc:
  assumes "scans m p kvs" "prefix p k" "\<forall>(k', _)\<in>set kvs. k' < k"
  shows "scans (m(k \<mapsto> v)) p (kvs @ [(k, v)])"
proof -
  have "m k = None"
  proof (rule ccontr)
    assume "m k \<noteq> None"
    then obtain v' where "(k, v') \<in> set kvs" using assms(1,2) by (auto simp: scans_def)
    then show False using assms(3) by auto
  qed
  then show ?thesis using assms by (auto simp: scans_def sorted_wrt_append split: if_splits)
qed

lemma scans_other: "scans m p kvs \<Longrightarrow> \<not> prefix p k \<Longrightarrow> scans (m(k := v)) p kvs"
  by (auto simp: scans_def split: if_splits)

section \<open>Numbers of fixed width\<close>

text \<open>\<open>format!("{:09}")\<close> and \<open>format!("{:016x}")\<close> for numbers that fit the width.\<close>

definition digit_char :: "nat \<Rightarrow> rust_char" where
  "digit_char d = (if d < 10 then 48 + d else 87 + d)"

fun fixed_digits :: "nat \<Rightarrow> nat \<Rightarrow> nat \<Rightarrow> rust_str" where
  "fixed_digits base 0 v = []"
| "fixed_digits base (Suc n) v = fixed_digits base n (v div base) @ [digit_char (v mod base)]"

lemma digit_char_mono: "c < d \<Longrightarrow> d < 16 \<Longrightarrow> digit_char c < digit_char d"
  by (auto simp: digit_char_def)

lemma digit_char_inj: "c < 16 \<Longrightarrow> d < 16 \<Longrightarrow> digit_char c = digit_char d \<longleftrightarrow> c = d"
  using digit_char_mono [of c d] digit_char_mono [of d c] by (metis less_irrefl linorder_neq_iff)

lemma length_fixed_digits [simp]: "length (fixed_digits base n v) = n"
  by (induction n arbitrary: v) simp_all

lemma fixed_digits_ascii: "base \<le> 16 \<Longrightarrow> 0 < base \<Longrightarrow> c \<in> set (fixed_digits base n v) \<Longrightarrow> 48 \<le> c \<and> c < 128 \<and> c \<noteq> 58"
proof (induction n arbitrary: v)
  case (Suc n)
  have "v mod base < 16" using Suc.prems(1,2) by (meson mod_less_divisor order_less_le_trans)
  then have "48 \<le> digit_char (v mod base) \<and> digit_char (v mod base) < 128 \<and> digit_char (v mod base) \<noteq> 58"
    by (auto simp: digit_char_def)
  with Suc show ?case by auto
qed simp

lemma fixed_digits_mono:
  assumes "u < v" "v < base ^ n" "1 < base" "base \<le> 16"
  shows "fixed_digits base n u < fixed_digits base n v"
  using assms(1,2)
proof (induction n arbitrary: u v)
  case (Suc n)
  have lt16: "x mod base < 16" for x using assms(3,4) by (meson mod_less_divisor order_less_le_trans less_trans zero_less_one)
  show ?case
  proof (cases "u div base = v div base")
    case True
    then have "u mod base < v mod base"
      using Suc.prems(1) by (metis add_less_cancel_left div_mult_mod_eq)
    then have "[digit_char (u mod base)] < [digit_char (v mod base)]" using digit_char_mono lt16 by simp
    then show ?thesis using True by (simp add: list_less_def lexord_append_leftI)
  next
    case False
    then have "u div base < v div base" using Suc.prems(1) by (simp add: div_le_mono order_le_neq_trans)
    moreover have "v div base < base ^ n" using Suc.prems(2) by (simp add: less_mult_imp_div_less mult.commute)
    ultimately have "fixed_digits base n (u div base) < fixed_digits base n (v div base)" by (rule Suc.IH)
    then show ?thesis
      by (simp add: list_less_def lexord_sufI)
  qed
qed simp

text \<open>The texts as keys: their bytes are ordered in the same way.\<close>

lemma str_as_bytes_append: "str_as_bytes (s @ t) = str_as_bytes s @ str_as_bytes t"
  by (simp add: str_as_bytes_def)

lemma str_as_bytes_ascii: "(\<And>c. c \<in> set s \<Longrightarrow> c < 128) \<Longrightarrow> str_as_bytes s = map byte_of s"
  by (induction s) (auto simp: str_as_bytes_def char_encode_utf8_def)

lemma valid_str_ascii: "(\<And>c. c \<in> set s \<Longrightarrow> c < 128) \<Longrightarrow> valid_str s"
  by (force simp: valid_str_def list_all_iff valid_char_def)

lemma str_as_bytes_inj: "valid_str s \<Longrightarrow> valid_str t \<Longrightarrow> str_as_bytes s = str_as_bytes t \<longleftrightarrow> s = t"
  by (metis option.inject str_from_utf8_as_bytes)

lemma byte_of_mono: "c < d \<Longrightarrow> d < 256 \<Longrightarrow> byte_of c < byte_of d"
  by (simp add: word_less_nat_alt)

lemma map_byte_of_mono:
  assumes "s < t" "\<And>c. c \<in> set s \<union> set t \<Longrightarrow> c < 256"
  shows "map byte_of s < map byte_of t"
proof -
  from assms(1) have "(s, t) \<in> lexord {(u, v). u < v}" by (simp add: list_less_def)
  then show ?thesis
    using assms(2) unfolding list_less_def lexord_def by (fastforce intro: byte_of_mono simp: Cons_eq_map_conv append_eq_map_conv)
qed

lemma list_less_append_left: "xs < ys \<Longrightarrow> zs @ xs < zs @ (ys :: 'a::order list)"
  by (simp add: list_less_def lexord_append_leftI)

lemma list_less_append_cancel: "zs @ xs < zs @ ys \<Longrightarrow> xs < (ys :: 'a::order list)"
  by (auto simp: list_less_def intro: lexord_append_leftD)

section \<open>A store that keeps the promise\<close>

definition alist_kv :: "(bytes \<times> bytes) list kv_ops" where
  "alist_kv = \<lparr>kv_get = map_of, kv_insert = (\<lambda>t k v. (k, v) # t), kv_remove = (\<lambda>t k. filter (\<lambda>e. fst e \<noteq> k) t),
     kv_scan_prefix = (\<lambda>t p. sort_key fst (map (\<lambda>k. (k, the (map_of t k))) (remdups (filter (prefix p) (map fst t)))))\<rparr>"

lemma alist_kv_ok: "kv_ok alist_kv"
proof -
  have scan: "scans (map_of t) p (kv_scan_prefix alist_kv t p)" for t p
  proof -
    let ?kvs = "map (\<lambda>k. (k, the (map_of t k))) (remdups (filter (prefix p) (map fst t)))"
    have "distinct (map fst (sort_key fst ?kvs))" by (auto simp: distinct_map inj_on_def)
    then have "sorted_wrt (<) (map fst (sort_key fst ?kvs))" by (simp add: strict_sorted_iff)
    then have "sorted_wrt (\<lambda>a b. fst a < fst b) (sort_key fst ?kvs)" by (simp only: sorted_wrt_map)
    moreover have "set ?kvs = {(k, v). map_of t k = Some v \<and> prefix p k}"
    proof -
      have "map_of t k = Some v \<longleftrightarrow> k \<in> fst ` set t \<and> v = the (map_of t k)" for k v
        by (cases "map_of t k") (auto simp: map_of_eq_None_iff dest: map_of_SomeD intro: rev_image_eqI)
      then show ?thesis by (simp only: split_def) (auto intro: rev_image_eqI)
    qed
    ultimately show ?thesis by (simp add: scans_def alist_kv_def)
  qed
  have "map_of (filter (\<lambda>e. fst e \<noteq> k) t) = (map_of t)(k := None)" for t :: "(bytes \<times> bytes) list" and k
    by (induction t) auto
  then show ?thesis using scan by (auto simp: kv_ok_def alist_kv_def)
qed

end
