(* ===== verification/Signaling.thy ===== *)
theory Signaling
  imports Kv_Tree
begin

text \<open>
  The rendezvous service (\<open>core/signaling/src/lib.rs\<close>, \<open>room.rs\<close>): session codes with their
  offers, answers and candidates, and mesh rooms of up to four participants. The state is the
  trees of the store and the two process-wide counters; the store, the clock and the keyed hash
  of the TURN credential are arguments. Each request is one step.

  Over any sequence of requests the service answers as an abstract rendezvous in which every
  code has its own offer, answer and list of candidates. Rooms never hold more than four
  participants as long as joins do not overlap. Three lemmas show what happens beyond: joins that
  do overlap, participant names with a colon, and codes that come back after a restart.
\<close>

type_synonym i64 = "64 word"

section \<open>Constants and state\<close>

definition SESSION_TTL_SECS :: i64 where "SESSION_TTL_SECS = 300"
definition TURN_TTL_SECS :: i64 where "TURN_TTL_SECS = 86400"
definition ROOM_TTL_SECS :: i64 where "ROOM_TTL_SECS = 300"
definition MESH_MAX_PARTICIPANTS :: nat where "MESH_MAX_PARTICIPANTS = 4"

record 't app_state =
  session_codes :: 't
  ice_candidates :: 't
  offers :: 't
  answers :: 't
  rooms :: 't
  room_members :: 't
  room_candidates :: 't
  turn_urls :: "rust_str list"
  turn_secret :: rust_str
  code_seq :: u64
  cand_seq :: u64

text \<open>\<open>CODE_SEQ\<close> and \<open>CAND_SEQ\<close> start with the process; the trees are those of the opened store.\<close>

definition app_open :: "'t \<Rightarrow> 't \<Rightarrow> 't \<Rightarrow> 't \<Rightarrow> 't \<Rightarrow> 't \<Rightarrow> 't \<Rightarrow> rust_str list \<Rightarrow> rust_str \<Rightarrow> 't app_state" where
  "app_open sessions cands offs ans rms members rcands urls secret =
     \<lparr>session_codes = sessions, ice_candidates = cands, offers = offs, answers = ans, rooms = rms,
      room_members = members, room_candidates = rcands, turn_urls = urls, turn_secret = secret,
      code_seq = 100000000, cand_seq = 0\<rparr>"

datatype status = STATUS_OK | CREATED | ACCEPTED | BAD_REQUEST | FORBIDDEN | NOT_FOUND | CONFLICT

text \<open>The colon between the parts of a key.\<close>

definition colon :: rust_str where "colon = [58]"

definition encode_entry :: "i64 \<Rightarrow> i64 \<Rightarrow> bytes \<Rightarrow> bytes" where
  "encode_entry created_at expires_at pubkey = to_le_bytes 8 expires_at @ to_le_bytes 8 created_at @ pubkey"

definition decode_expires_at :: "bytes \<Rightarrow> i64 option" where
  "decode_expires_at bs = (if length bs < 8 then None else Some (from_le_bytes (take 8 bs)))"

definition gen_code :: "'t app_state \<Rightarrow> rust_str \<times> 't app_state" where
  "gen_code st = (fixed_digits 10 9 (unat (code_seq st) mod 1000000000), st\<lparr>code_seq := code_seq st + 1\<rparr>)"

definition next_candidate_seq :: "'t app_state \<Rightarrow> u64 \<times> 't app_state" where
  "next_candidate_seq st = (cand_seq st, st\<lparr>cand_seq := cand_seq st + 1\<rparr>)"

text \<open>Values that are not UTF-8 are skipped, as by \<open>String::from_utf8(..).ok()\<close>.\<close>

definition get_str :: "'t kv_ops \<Rightarrow> 't \<Rightarrow> rust_str \<Rightarrow> rust_str option" where
  "get_str kv t key =
     (case kv_get kv t (str_as_bytes key) of None \<Rightarrow> None | Some v \<Rightarrow> str_from_utf8 v)"

definition scan_values :: "'t kv_ops \<Rightarrow> 't \<Rightarrow> rust_str \<Rightarrow> rust_str list" where
  "scan_values kv t prefix_key =
     List.map_filter (\<lambda>(_, v). str_from_utf8 v) (kv_scan_prefix kv t (str_as_bytes prefix_key))"

section \<open>Sessions\<close>

definition pending_candidates :: "'t kv_ops \<Rightarrow> 't app_state \<Rightarrow> rust_str \<Rightarrow> rust_str list" where
  "pending_candidates kv st session_code = scan_values kv (ice_candidates st) (session_code @ colon)"

definition pending_offer :: "'t kv_ops \<Rightarrow> 't app_state \<Rightarrow> rust_str \<Rightarrow> rust_str option" where
  "pending_offer kv st session_code = get_str kv (offers st) session_code"

definition pending_answer :: "'t kv_ops \<Rightarrow> 't app_state \<Rightarrow> rust_str \<Rightarrow> rust_str option" where
  "pending_answer kv st session_code = get_str kv (answers st) session_code"

definition code_live :: "'t kv_ops \<Rightarrow> i64 \<Rightarrow> 't \<Rightarrow> rust_str \<Rightarrow> bool" where
  "code_live kv now t code =
     (case kv_get kv t (str_as_bytes code) of
        None \<Rightarrow> False
      | Some bs \<Rightarrow> (case decode_expires_at bs of None \<Rightarrow> False | Some e \<Rightarrow> sint now < sint e))"

definition check_code :: "'t kv_ops \<Rightarrow> i64 \<Rightarrow> 't app_state \<Rightarrow> rust_str \<Rightarrow> status + unit" where
  "check_code kv now st code = (if code_live kv now (session_codes st) code then Inr () else Inl NOT_FOUND)"

definition post_session :: "'t kv_ops \<Rightarrow> i64 \<Rightarrow> 't app_state \<Rightarrow> (status \<times> rust_str) \<times> 't app_state" where
  "post_session kv now st =
     (let (code, st) = gen_code st;
          entry = encode_entry now (now + SESSION_TTL_SECS) []
      in ((CREATED, code), st\<lparr>session_codes := kv_insert kv (session_codes st) (str_as_bytes code) entry\<rparr>))"

record join_info =
  ji_code :: rust_str
  ji_offer :: "rust_str option"
  ji_candidates :: "rust_str list"

definition get_join :: "'t kv_ops \<Rightarrow> i64 \<Rightarrow> 't app_state \<Rightarrow> rust_str \<Rightarrow> (status + join_info) \<times> 't app_state" where
  "get_join kv now st code =
     (case kv_get kv (session_codes st) (str_as_bytes code) of
        None \<Rightarrow> (Inl NOT_FOUND, st)
      | Some _ \<Rightarrow>
          if code_live kv now (session_codes st) code
          then (Inr \<lparr>ji_code = code, ji_offer = pending_offer kv st code,
                     ji_candidates = pending_candidates kv st code\<rparr>, st)
          else (Inl NOT_FOUND, st\<lparr>session_codes := kv_remove kv (session_codes st) (str_as_bytes code)\<rparr>))"

definition get_answer :: "'t kv_ops \<Rightarrow> i64 \<Rightarrow> 't app_state \<Rightarrow> rust_str \<Rightarrow> status + rust_str option" where
  "get_answer kv now st code =
     (case check_code kv now st code of Inl e \<Rightarrow> Inl e | Inr _ \<Rightarrow> Inr (pending_answer kv st code))"

definition post_offer :: "'t kv_ops \<Rightarrow> i64 \<Rightarrow> 't app_state \<Rightarrow> rust_str \<Rightarrow> rust_str \<Rightarrow> status \<times> 't app_state" where
  "post_offer kv now st code sdp =
     (case check_code kv now st code of
        Inl e \<Rightarrow> (e, st)
      | Inr _ \<Rightarrow> (STATUS_OK, st\<lparr>offers := kv_insert kv (offers st) (str_as_bytes code) (str_as_bytes sdp)\<rparr>))"

definition post_answer ::
  "'t kv_ops \<Rightarrow> i64 \<Rightarrow> 't app_state \<Rightarrow> rust_str \<Rightarrow> rust_str option \<Rightarrow> status \<times> 't app_state" where
  "post_answer kv now st code sdp =
     (case check_code kv now st code of
        Inl e \<Rightarrow> (e, st)
      | Inr _ \<Rightarrow>
          (STATUS_OK,
           case sdp of
             None \<Rightarrow> st
           | Some sdp \<Rightarrow> st\<lparr>answers := kv_insert kv (answers st) (str_as_bytes code) (str_as_bytes sdp)\<rparr>))"

definition post_candidate ::
  "'t kv_ops \<Rightarrow> i64 \<Rightarrow> 't app_state \<Rightarrow> rust_str \<Rightarrow> rust_str \<Rightarrow> status \<times> 't app_state" where
  "post_candidate kv now st code candidate =
     (case check_code kv now st code of
        Inl e \<Rightarrow> (e, st)
      | Inr _ \<Rightarrow>
          (let (seq, st) = next_candidate_seq st;
               key = code @ colon @ fixed_digits 16 16 (unat seq)
           in (ACCEPTED,
               st\<lparr>ice_candidates := kv_insert kv (ice_candidates st) (str_as_bytes key) (str_as_bytes candidate)\<rparr>)))"

definition post_connected :: "'t kv_ops \<Rightarrow> i64 \<Rightarrow> 't app_state \<Rightarrow> rust_str \<Rightarrow> status \<times> 't app_state" where
  "post_connected kv now st code =
     (case check_code kv now st code of
        Inl e \<Rightarrow> (e, st)
      | Inr _ \<Rightarrow> (STATUS_OK, st\<lparr>session_codes := kv_remove kv (session_codes st) (str_as_bytes code)\<rparr>))"

subsection \<open>TURN credentials\<close>

fun nat_dec :: "nat \<Rightarrow> rust_str" where
  "nat_dec n = (if n < 10 then [digit_char n] else nat_dec (n div 10) @ [digit_char (n mod 10)])"

declare nat_dec.simps [simp del]

definition int_dec :: "int \<Rightarrow> rust_str" where
  "int_dec i = (if i < 0 then 45 # nat_dec (nat (- i)) else nat_dec (nat i))"

record turn_cred =
  tc_urls :: "rust_str list"
  tc_username :: rust_str
  tc_credential :: rust_str
  tc_ttl_secs :: u64

definition lowband_suffix :: rust_str where
  "lowband_suffix = [58, 108, 111, 119, 98, 97, 110, 100]"

text \<open>\<open>mac\<close> is the base-64 text of the keyed hash, from the secret and the user name.\<close>

definition post_turn :: "(bytes \<Rightarrow> bytes \<Rightarrow> rust_str) \<Rightarrow> i64 \<Rightarrow> 't app_state \<Rightarrow> status \<times> turn_cred" where
  "post_turn mac now st =
     (let username = int_dec (sint (now + TURN_TTL_SECS)) @ lowband_suffix
      in (STATUS_OK,
          \<lparr>tc_urls = turn_urls st, tc_username = username,
           tc_credential = mac (str_as_bytes (turn_secret st)) (str_as_bytes username),
           tc_ttl_secs = TURN_TTL_SECS\<rparr>))"

section \<open>Rooms\<close>

definition create_room :: "'t kv_ops \<Rightarrow> i64 \<Rightarrow> 't app_state \<Rightarrow> rust_str \<Rightarrow> 't app_state" where
  "create_room kv now st code =
     st\<lparr>rooms := kv_insert kv (rooms st) (str_as_bytes code) (to_le_bytes 8 (now + ROOM_TTL_SECS))\<rparr>"

definition room_live :: "'t kv_ops \<Rightarrow> i64 \<Rightarrow> 't app_state \<Rightarrow> rust_str \<Rightarrow> bool \<times> 't app_state" where
  "room_live kv now st code =
     (case kv_get kv (rooms st) (str_as_bytes code) of
        None \<Rightarrow> (False, st)
      | Some v \<Rightarrow>
          if length v < 8 then (False, st)
          else if sint now < sint (from_le_bytes (take 8 v) :: i64) then (True, st)
          else (False, st\<lparr>rooms := kv_remove kv (rooms st) (str_as_bytes code)\<rparr>))"

definition room_participants :: "'t kv_ops \<Rightarrow> 't app_state \<Rightarrow> rust_str \<Rightarrow> rust_str list" where
  "room_participants kv st code =
     (let p = code @ colon
      in List.map_filter
           (\<lambda>(k, _). case str_from_utf8 k of
                        None \<Rightarrow> None
                      | Some s \<Rightarrow> if take (length p) s = p then Some (drop (length p) s) else None)
           (kv_scan_prefix kv (room_members st) (str_as_bytes p)))"

text \<open>The two parts of \<open>add_participant\<close>: the test and the insertion.\<close>

definition participant_admitted :: "'t kv_ops \<Rightarrow> 't app_state \<Rightarrow> rust_str \<Rightarrow> rust_str \<Rightarrow> bool" where
  "participant_admitted kv st code pid \<longleftrightarrow>
     (let is_new = (kv_get kv (room_members st) (str_as_bytes (code @ colon @ pid)) = None)
      in \<not> (is_new \<and> MESH_MAX_PARTICIPANTS \<le> length (room_participants kv st code)))"

definition participant_insert ::
  "'t kv_ops \<Rightarrow> 't app_state \<Rightarrow> rust_str \<Rightarrow> rust_str \<Rightarrow> rust_str \<Rightarrow> 't app_state" where
  "participant_insert kv st code pid pubkey =
     st\<lparr>room_members := kv_insert kv (room_members st) (str_as_bytes (code @ colon @ pid)) (str_as_bytes pubkey)\<rparr>"

definition add_participant ::
  "'t kv_ops \<Rightarrow> 't app_state \<Rightarrow> rust_str \<Rightarrow> rust_str \<Rightarrow> rust_str \<Rightarrow> bool \<times> 't app_state" where
  "add_participant kv st code pid pubkey =
     (if participant_admitted kv st code pid then (True, participant_insert kv st code pid pubkey) else (False, st))"

definition participant_pubkey :: "'t kv_ops \<Rightarrow> 't app_state \<Rightarrow> rust_str \<Rightarrow> rust_str \<Rightarrow> rust_str option" where
  "participant_pubkey kv st code pid = get_str kv (room_members st) (code @ colon @ pid)"

definition participant_candidates :: "'t kv_ops \<Rightarrow> 't app_state \<Rightarrow> rust_str \<Rightarrow> rust_str \<Rightarrow> rust_str list" where
  "participant_candidates kv st code pid = scan_values kv (room_candidates st) (code @ colon @ pid @ colon)"

definition add_room_candidate ::
  "'t kv_ops \<Rightarrow> 't app_state \<Rightarrow> rust_str \<Rightarrow> rust_str \<Rightarrow> u64 \<Rightarrow> rust_str \<Rightarrow> 't app_state" where
  "add_room_candidate kv st code pid seq cand =
     st\<lparr>room_candidates := kv_insert kv (room_candidates st)
          (str_as_bytes (code @ colon @ pid @ colon @ fixed_digits 16 16 (unat seq))) (str_as_bytes cand)\<rparr>"

definition post_room :: "'t kv_ops \<Rightarrow> i64 \<Rightarrow> 't app_state \<Rightarrow> (status \<times> rust_str) \<times> 't app_state" where
  "post_room kv now st = (let (code, st) = gen_code st in ((CREATED, code), create_room kv now st code))"

definition post_room_join ::
  "'t kv_ops \<Rightarrow> i64 \<Rightarrow> 't app_state \<Rightarrow> rust_str \<Rightarrow> rust_str \<Rightarrow> rust_str \<Rightarrow> status \<times> 't app_state" where
  "post_room_join kv now st code pid pubkey =
     (let (live, st) = room_live kv now st code
      in if \<not> live then (NOT_FOUND, st)
         else if pid = [] \<or> 64 < str_len pid then (BAD_REQUEST, st)
         else (case add_participant kv st code pid pubkey of
                 (True, st) \<Rightarrow> (STATUS_OK, st) | (False, st) \<Rightarrow> (CONFLICT, st)))"

definition post_room_candidate ::
  "'t kv_ops \<Rightarrow> i64 \<Rightarrow> 't app_state \<Rightarrow> rust_str \<Rightarrow> rust_str \<Rightarrow> rust_str \<Rightarrow> status \<times> 't app_state" where
  "post_room_candidate kv now st code pid cand =
     (let (live, st) = room_live kv now st code
      in if \<not> live then (NOT_FOUND, st)
         else if participant_pubkey kv st code pid = None then (FORBIDDEN, st)
         else (let (seq, st) = next_candidate_seq st in (ACCEPTED, add_room_candidate kv st code pid seq cand)))"

record room_participant =
  rp_id :: rust_str
  rp_pubkey :: rust_str
  rp_candidates :: "rust_str list"

definition get_room ::
  "'t kv_ops \<Rightarrow> i64 \<Rightarrow> 't app_state \<Rightarrow> rust_str \<Rightarrow> (status + rust_str \<times> room_participant list) \<times> 't app_state" where
  "get_room kv now st code =
     (let (live, st) = room_live kv now st code
      in if \<not> live then (Inl NOT_FOUND, st)
         else (Inr (code, map (\<lambda>pid. \<lparr>rp_id = pid,
                                     rp_pubkey = (case participant_pubkey kv st code pid of None \<Rightarrow> [] | Some k \<Rightarrow> k),
                                     rp_candidates = participant_candidates kv st code pid\<rparr>)
                              (room_participants kv st code)), st))"

section \<open>The service as a step function\<close>

datatype signal_request =
    PostSession
  | GetJoin rust_str
  | GetAnswer rust_str
  | PostOffer rust_str rust_str
  | PostAnswer rust_str "rust_str option"
  | PostCandidate rust_str rust_str
  | PostConnected rust_str
  | PostRoom
  | PostRoomJoin rust_str rust_str rust_str
  | PostRoomCandidate rust_str rust_str rust_str
  | GetRoom rust_str

datatype signal_response =
    Created rust_str
  | Status status
  | Joined join_info
  | Answer "rust_str option"
  | Roster rust_str "room_participant list"

fun signal_step ::
  "'t kv_ops \<Rightarrow> i64 \<Rightarrow> 't app_state \<Rightarrow> signal_request \<Rightarrow> signal_response \<times> 't app_state" where
  "signal_step kv now st PostSession = (case post_session kv now st of ((_, c), st') \<Rightarrow> (Created c, st'))"
| "signal_step kv now st (GetJoin c) =
     (case get_join kv now st c of (Inl e, st') \<Rightarrow> (Status e, st') | (Inr j, st') \<Rightarrow> (Joined j, st'))"
| "signal_step kv now st (GetAnswer c) =
     (case get_answer kv now st c of Inl e \<Rightarrow> (Status e, st) | Inr a \<Rightarrow> (Answer a, st))"
| "signal_step kv now st (PostOffer c sdp) = map_prod Status id (post_offer kv now st c sdp)"
| "signal_step kv now st (PostAnswer c sdp) = map_prod Status id (post_answer kv now st c sdp)"
| "signal_step kv now st (PostCandidate c x) = map_prod Status id (post_candidate kv now st c x)"
| "signal_step kv now st (PostConnected c) = map_prod Status id (post_connected kv now st c)"
| "signal_step kv now st PostRoom = (case post_room kv now st of ((_, c), st') \<Rightarrow> (Created c, st'))"
| "signal_step kv now st (PostRoomJoin c pid key) = map_prod Status id (post_room_join kv now st c pid key)"
| "signal_step kv now st (PostRoomCandidate c pid x) = map_prod Status id (post_room_candidate kv now st c pid x)"
| "signal_step kv now st (GetRoom c) =
     (case get_room kv now st c of (Inl e, st') \<Rightarrow> (Status e, st') | (Inr (c, ps), st') \<Rightarrow> (Roster c ps, st'))"

fun signal_run ::
  "'t kv_ops \<Rightarrow> 't app_state \<Rightarrow> (i64 \<times> signal_request) list \<Rightarrow> signal_response list \<times> 't app_state" where
  "signal_run kv st [] = ([], st)"
| "signal_run kv st ((now, r) # rs) =
     (case signal_step kv now st r of (a, st') \<Rightarrow> map_prod ((#) a) id (signal_run kv st' rs))"

fun request_strings :: "signal_request \<Rightarrow> rust_str list" where
  "request_strings PostSession = []"
| "request_strings (GetJoin c) = [c]"
| "request_strings (GetAnswer c) = [c]"
| "request_strings (PostOffer c s) = [c, s]"
| "request_strings (PostAnswer c s) = c # (case s of None \<Rightarrow> [] | Some s \<Rightarrow> [s])"
| "request_strings (PostCandidate c s) = [c, s]"
| "request_strings (PostConnected c) = [c]"
| "request_strings PostRoom = []"
| "request_strings (PostRoomJoin c p k) = [c, p, k]"
| "request_strings (PostRoomCandidate c p x) = [c, p, x]"
| "request_strings (GetRoom c) = [c]"

definition valid_request :: "signal_request \<Rightarrow> bool" where
  "valid_request r \<longleftrightarrow> list_all valid_str (request_strings r)"

text \<open>No tree of the store holds anything.\<close>

definition store_empty :: "'t kv_ops \<Rightarrow> 't app_state \<Rightarrow> bool" where
  "store_empty kv st \<longleftrightarrow>
     (\<forall>k. kv_get kv (session_codes st) k = None \<and> kv_get kv (ice_candidates st) k = None \<and>
          kv_get kv (offers st) k = None \<and> kv_get kv (answers st) k = None \<and> kv_get kv (rooms st) k = None \<and>
          kv_get kv (room_members st) k = None \<and> kv_get kv (room_candidates st) k = None)"

section \<open>The abstract rendezvous\<close>

record rendezvous =
  rv_seq :: u64
  rv_expires :: "rust_str \<Rightarrow> i64 option"
  rv_offer :: "rust_str \<Rightarrow> rust_str option"
  rv_answer :: "rust_str \<Rightarrow> rust_str option"
  rv_cands :: "rust_str \<Rightarrow> rust_str list"

definition rv_code :: "u64 \<Rightarrow> rust_str" where
  "rv_code n = fixed_digits 10 9 (unat n mod 1000000000)"

definition rv_live :: "rendezvous \<Rightarrow> i64 \<Rightarrow> rust_str \<Rightarrow> bool" where
  "rv_live rv now c = (case rv_expires rv c of None \<Rightarrow> False | Some e \<Rightarrow> sint now < sint e)"

text \<open>What a session request is answered, if it is one, and what it changes.\<close>

fun rv_step :: "i64 \<Rightarrow> rendezvous \<Rightarrow> signal_request \<Rightarrow> signal_response option \<times> rendezvous" where
  "rv_step now rv PostSession =
     (Some (Created (rv_code (rv_seq rv))),
      rv\<lparr>rv_seq := rv_seq rv + 1, rv_expires := (rv_expires rv)(rv_code (rv_seq rv) \<mapsto> now + 300)\<rparr>)"
| "rv_step now rv (GetJoin c) =
     (if rv_live rv now c
      then (Some (Joined \<lparr>ji_code = c, ji_offer = rv_offer rv c, ji_candidates = rv_cands rv c\<rparr>), rv)
      else (Some (Status NOT_FOUND), rv\<lparr>rv_expires := (rv_expires rv)(c := None)\<rparr>))"
| "rv_step now rv (GetAnswer c) =
     (if rv_live rv now c then (Some (Answer (rv_answer rv c)), rv) else (Some (Status NOT_FOUND), rv))"
| "rv_step now rv (PostOffer c sdp) =
     (if rv_live rv now c then (Some (Status STATUS_OK), rv\<lparr>rv_offer := (rv_offer rv)(c \<mapsto> sdp)\<rparr>)
      else (Some (Status NOT_FOUND), rv))"
| "rv_step now rv (PostAnswer c sdp) =
     (if rv_live rv now c
      then (Some (Status STATUS_OK), (case sdp of None \<Rightarrow> rv | Some a \<Rightarrow> rv\<lparr>rv_answer := (rv_answer rv)(c \<mapsto> a)\<rparr>))
      else (Some (Status NOT_FOUND), rv))"
| "rv_step now rv (PostCandidate c x) =
     (if rv_live rv now c then (Some (Status ACCEPTED), rv\<lparr>rv_cands := (rv_cands rv)(c := rv_cands rv c @ [x])\<rparr>)
      else (Some (Status NOT_FOUND), rv))"
| "rv_step now rv (PostConnected c) =
     (if rv_live rv now c then (Some (Status STATUS_OK), rv\<lparr>rv_expires := (rv_expires rv)(c := None)\<rparr>)
      else (Some (Status NOT_FOUND), rv))"
| "rv_step now rv PostRoom = (Some (Created (rv_code (rv_seq rv))), rv\<lparr>rv_seq := rv_seq rv + 1\<rparr>)"
| "rv_step now rv _ = (None, rv)"

fun rv_run :: "rendezvous \<Rightarrow> (i64 \<times> signal_request) list \<Rightarrow> signal_response option list" where
  "rv_run rv [] = []"
| "rv_run rv ((now, r) # rs) = (case rv_step now rv r of (a, rv') \<Rightarrow> a # rv_run rv' rs)"

definition rv_new :: "u64 \<Rightarrow> rendezvous" where
  "rv_new n = \<lparr>rv_seq = n, rv_expires = (\<lambda>_. None), rv_offer = (\<lambda>_. None), rv_answer = (\<lambda>_. None), rv_cands = (\<lambda>_. [])\<rparr>"

text \<open>An unspecified answer is any answer.\<close>

definition conforms :: "signal_response option \<Rightarrow> signal_response \<Rightarrow> bool" where
  "conforms spec a \<longleftrightarrow> spec = None \<or> spec = Some a"

subsection \<open>Codes and keys\<close>

definition is_code :: "rust_str \<Rightarrow> bool" where
  "is_code c \<longleftrightarrow> length c = 9 \<and> list_all (\<lambda>d. 48 \<le> d \<and> d < 58) c"

lemma is_code_fixed [simp]: "is_code (fixed_digits 10 9 n)"
proof -
  have "list_all (\<lambda>d. 48 \<le> d \<and> d < 58) (fixed_digits 10 m v)" for m v
    by (induction m arbitrary: v) (simp_all add: digit_char_def)
  then show ?thesis by (simp add: is_code_def)
qed

lemma is_code_valid: "is_code c \<Longrightarrow> valid_str c"
  by (auto simp: is_code_def list_all_iff intro!: valid_str_ascii dest!: bspec)

lemma hex_valid: "valid_str (fixed_digits 16 n v)"
  using fixed_digits_ascii [of 16] by (intro valid_str_ascii) auto

lemma valid_str_append [simp]: "valid_str (s @ t) \<longleftrightarrow> valid_str s \<and> valid_str t"
  by (simp add: valid_str_def)

lemma valid_colon [simp]: "valid_str colon"
  by (simp add: colon_def valid_str_def valid_char_def)

lemma code_bytes: "is_code c \<Longrightarrow> str_as_bytes c = map byte_of c"
  by (rule str_as_bytes_ascii) (auto simp: is_code_def list_all_iff dest!: bspec)

text \<open>Keys of one code never start with another code and its colon.\<close>

lemma code_prefix_iff:
  assumes "is_code c" "is_code c'"
  shows "prefix (str_as_bytes (c @ colon @ s)) (str_as_bytes (c' @ colon @ t)) \<longleftrightarrow>
     c = c' \<and> prefix (str_as_bytes s) (str_as_bytes t)"
proof -
  have "length (str_as_bytes c) = length (str_as_bytes c')"
    using assms by (simp only: code_bytes) (simp add: is_code_def)
  then have "prefix (str_as_bytes c @ u) (str_as_bytes c' @ v) \<longleftrightarrow> str_as_bytes c = str_as_bytes c' \<and> prefix u v" for u v
    by (auto simp: prefix_def append_eq_append_conv_if append_eq_append_conv)
  moreover have "str_as_bytes c = str_as_bytes c' \<longleftrightarrow> c = c'"
    using assms by (simp add: str_as_bytes_inj is_code_valid)
  ultimately show ?thesis by (simp add: str_as_bytes_append)
qed

lemma hex_key_mono:
  assumes "u < v" "v < 2 ^ 64"
  shows "str_as_bytes (p @ fixed_digits 16 16 u) < str_as_bytes (p @ fixed_digits 16 16 v)"
proof -
  have "fixed_digits 16 16 u < fixed_digits 16 16 v" using assms by (intro fixed_digits_mono) simp_all
  moreover have ascii: "c \<in> set (fixed_digits 16 16 n) \<Longrightarrow> c < 128" for c n
    using fixed_digits_ascii [of 16 c 16 n] by simp
  ultimately have "map byte_of (fixed_digits 16 16 u) < map byte_of (fixed_digits 16 16 v)"
    by (intro map_byte_of_mono) (auto dest!: ascii)
  then show ?thesis using str_as_bytes_ascii [OF ascii] by (simp add: str_as_bytes_append list_less_append_left)
qed

subsection \<open>The simulation\<close>

definition code_expiry :: "'t kv_ops \<Rightarrow> 't \<Rightarrow> rust_str \<Rightarrow> i64 option option" where
  "code_expiry kv t c = map_option decode_expires_at (kv_get kv t (str_as_bytes c))"

definition cands_rel :: "'t kv_ops \<Rightarrow> 't \<Rightarrow> u64 \<Rightarrow> rust_str \<Rightarrow> rust_str list \<Rightarrow> bool" where
  "cands_rel kv t m p xs \<longleftrightarrow>
     (\<exists>seqs. length seqs = length xs \<and> (\<forall>s\<in>set seqs. s < unat m) \<and> list_all valid_str xs \<and>
        scans (kv_get kv t) (str_as_bytes p) (map2 (\<lambda>s x. (str_as_bytes (p @ fixed_digits 16 16 s), str_as_bytes x)) seqs xs))"

definition sessions_rel :: "'t kv_ops \<Rightarrow> nat \<Rightarrow> 't app_state \<Rightarrow> rendezvous \<Rightarrow> bool" where
  "sessions_rel kv n st rv \<longleftrightarrow>
     code_seq st = rv_seq rv \<and> unat (cand_seq st) \<le> n \<and>
     (\<forall>c. valid_str c \<longrightarrow> code_expiry kv (session_codes st) c = map_option Some (rv_expires rv c)) \<and>
     (\<forall>c. valid_str c \<longrightarrow> get_str kv (offers st) c = rv_offer rv c) \<and>
     (\<forall>c. valid_str c \<longrightarrow> get_str kv (answers st) c = rv_answer rv c) \<and>
     (\<forall>c. rv_expires rv c \<noteq> None \<longrightarrow> is_code c) \<and>
     (\<forall>c. is_code c \<longrightarrow> cands_rel kv (ice_candidates st) (cand_seq st) (c @ colon) (rv_cands rv c))"

lemma cands_rel_mono: "cands_rel kv t m p xs \<Longrightarrow> unat m \<le> unat m' \<Longrightarrow> cands_rel kv t m' p xs"
  unfolding cands_rel_def by (elim exE, intro exI) auto

lemma cands_rel_values:
  assumes "kv_ok kv" "cands_rel kv t m p xs"
  shows "scan_values kv t p = xs"
proof -
  obtain seqs where s: "length seqs = length xs" "list_all valid_str xs"
    "scans (kv_get kv t) (str_as_bytes p) (map2 (\<lambda>s x. (str_as_bytes (p @ fixed_digits 16 16 s), str_as_bytes x)) seqs xs)"
    using assms(2) by (auto simp: cands_rel_def)
  have "kv_scan_prefix kv t (str_as_bytes p) = map2 (\<lambda>s x. (str_as_bytes (p @ fixed_digits 16 16 s), str_as_bytes x)) seqs xs"
    using scans_unique kv_ok_laws(3) [OF assms(1)] s(3) by blast
  moreover have "List.map_filter (\<lambda>(_, v). str_from_utf8 v) (map2 (\<lambda>s x. (f s, str_as_bytes x)) seqs xs) = xs" for f
    using s(1,2) by (induction seqs xs rule: list_induct2) (simp_all add: str_from_utf8_as_bytes map_filter_simps)
  ultimately show ?thesis by (simp add: scan_values_def)
qed

lemma cands_rel_snoc:
  assumes "kv_ok kv" "cands_rel kv t m p xs" "unat m < 2 ^ 64 - 1" "valid_str x"
  shows "cands_rel kv (kv_insert kv t (str_as_bytes (p @ fixed_digits 16 16 (unat m))) (str_as_bytes x)) (m + 1) p (xs @ [x])"
proof -
  let ?kv = "\<lambda>s x. (str_as_bytes (p @ fixed_digits 16 16 s), str_as_bytes x)"
  obtain seqs where s: "length seqs = length xs" "\<forall>s\<in>set seqs. s < unat m" "list_all valid_str xs"
    "scans (kv_get kv t) (str_as_bytes p) (map2 ?kv seqs xs)"
    using assms(2) by (auto simp: cands_rel_def)
  have m1: "unat (m + 1) = unat m + 1" using assms(3) by (simp add: unat_word_ariths)
  have "k < str_as_bytes (p @ fixed_digits 16 16 (unat m))" if member: "(k, v) \<in> set (map2 ?kv seqs xs)" for k v
  proof -
    obtain s x where "(s, x) \<in> set (zip seqs xs)" "k = str_as_bytes (p @ fixed_digits 16 16 s)"
      using member by auto
    moreover from this have "s \<in> set seqs" by (auto dest: set_zip_leftD)
    ultimately have "s \<in> set seqs" "k = str_as_bytes (p @ fixed_digits 16 16 s)" by simp_all
    then show ?thesis using s(2) assms(3) hex_key_mono by simp
  qed
  then have "\<forall>(k, _)\<in>set (map2 ?kv seqs xs). k < str_as_bytes (p @ fixed_digits 16 16 (unat m))" by blast
  then have "scans ((kv_get kv t)(str_as_bytes (p @ fixed_digits 16 16 (unat m)) \<mapsto> str_as_bytes x)) (str_as_bytes p)
      (map2 ?kv seqs xs @ [?kv (unat m) x])"
    by (rule scans_snoc [OF s(4), rotated]) (simp add: str_as_bytes_append)
  then have "scans (kv_get kv (kv_insert kv t (str_as_bytes (p @ fixed_digits 16 16 (unat m))) (str_as_bytes x)))
      (str_as_bytes p) (map2 ?kv (seqs @ [unat m]) (xs @ [x]))"
    using s(1) by (simp add: kv_ok_laws(1) [OF assms(1)])
  then show ?thesis
    unfolding cands_rel_def using s(1-3) assms(4) m1
    by (intro exI [of _ "seqs @ [unat m]"]) auto
qed

lemma cands_rel_other:
  assumes "kv_ok kv" "cands_rel kv t m p xs" "\<not> prefix (str_as_bytes p) k"
  shows "cands_rel kv (kv_insert kv t k v) m p xs"
  using assms scans_other unfolding cands_rel_def kv_ok_laws(1) [OF assms(1)] by blast

lemma code_live_rel: "sessions_rel kv n st rv \<Longrightarrow> valid_str c \<Longrightarrow> code_live kv now (session_codes st) c = rv_live rv now c"
proof -
  assume "sessions_rel kv n st rv" "valid_str c"
  then have "code_expiry kv (session_codes st) c = map_option Some (rv_expires rv c)" by (simp add: sessions_rel_def)
  then show ?thesis
    by (auto simp: code_live_def rv_live_def code_expiry_def split: option.splits)
qed

text \<open>Updates of one tree seen through the readers.\<close>

lemma code_expiry_update:
  assumes "kv_ok kv" "valid_str c" "valid_str d"
  shows "code_expiry kv (kv_insert kv t (str_as_bytes c) v) d = (if d = c then Some (decode_expires_at v) else code_expiry kv t d)"
    and "code_expiry kv (kv_remove kv t (str_as_bytes c)) d = (if d = c then None else code_expiry kv t d)"
  using assms by (auto simp: code_expiry_def kv_ok_laws str_as_bytes_inj)

lemma get_str_update:
  assumes "kv_ok kv" "valid_str c" "valid_str d" "valid_str x"
  shows "get_str kv (kv_insert kv t (str_as_bytes c) (str_as_bytes x)) d = (if d = c then Some x else get_str kv t d)"
  using assms by (auto simp: get_str_def kv_ok_laws str_as_bytes_inj str_from_utf8_as_bytes)

lemma decode_entry [simp]: "decode_expires_at (encode_entry now e k) = Some e"
  by (simp add: decode_expires_at_def encode_entry_def from_to_le_bytes)

text \<open>One lemma per request: the answer is the specified one and the states stay related.\<close>

definition simulates :: "'t kv_ops \<Rightarrow> nat \<Rightarrow> i64 \<Rightarrow> 't app_state \<Rightarrow> rendezvous \<Rightarrow> signal_request \<Rightarrow> bool" where
  "simulates kv n now st rv r \<longleftrightarrow>
     conforms (fst (rv_step now rv r)) (fst (signal_step kv now st r)) \<and>
     sessions_rel kv (Suc n) (snd (signal_step kv now st r)) (snd (rv_step now rv r))"

lemma simulates_PostSession:
  assumes "kv_ok kv" "sessions_rel kv n st rv"
  shows "simulates kv n now st rv PostSession"
  using assms
  by (auto simp: simulates_def conforms_def sessions_rel_def post_session_def gen_code_def rv_code_def SESSION_TTL_SECS_def
      code_expiry_update is_code_valid)

lemma simulates_queries:
  assumes "kv_ok kv" "sessions_rel kv n st rv" "valid_str c"
  shows "simulates kv n now st rv (GetJoin c)" "simulates kv n now st rv (GetAnswer c)"
    "simulates kv n now st rv (PostConnected c)"
proof -
  note live = code_live_rel [OF assms(2,3), of now]
  have code: "is_code c" if "rv_live rv now c"
    using assms(2) that by (auto simp: sessions_rel_def rv_live_def split: option.splits)
  have cands: "pending_candidates kv st c = rv_cands rv c" if "rv_live rv now c"
    using cands_rel_values [OF assms(1), of "ice_candidates st" "cand_seq st" "c @ colon"] assms(2) code [OF that]
    by (simp add: pending_candidates_def sessions_rel_def)
  have "kv_get kv (session_codes st) (str_as_bytes c) = None \<longleftrightarrow> rv_expires rv c = None"
    using assms(2,3) by (auto simp: sessions_rel_def code_expiry_def)
  then show "simulates kv n now st rv (GetJoin c)"
    using assms live cands
    by (auto simp: simulates_def conforms_def sessions_rel_def get_join_def pending_offer_def code_expiry_update
        rv_live_def fun_upd_idem split: option.splits)
  show "simulates kv n now st rv (GetAnswer c)"
    using assms live
    by (auto simp: simulates_def conforms_def sessions_rel_def get_answer_def check_code_def pending_answer_def)
  show "simulates kv n now st rv (PostConnected c)"
    using assms live
    by (auto simp: simulates_def conforms_def sessions_rel_def post_connected_def check_code_def code_expiry_update)
qed

lemma simulates_posts:
  assumes "kv_ok kv" "sessions_rel kv n st rv" "valid_str c"
  shows "valid_str s \<Longrightarrow> simulates kv n now st rv (PostOffer c s)"
    and "list_all valid_str (request_strings (PostAnswer c a)) \<Longrightarrow> simulates kv n now st rv (PostAnswer c a)"
proof -
  note live = code_live_rel [OF assms(2,3), of now]
  show "valid_str s \<Longrightarrow> simulates kv n now st rv (PostOffer c s)"
    using assms live
    by (auto simp: simulates_def conforms_def sessions_rel_def post_offer_def check_code_def get_str_update)
  show "list_all valid_str (request_strings (PostAnswer c a)) \<Longrightarrow> simulates kv n now st rv (PostAnswer c a)"
    using assms live
    by (cases a) (auto simp: simulates_def conforms_def sessions_rel_def post_answer_def check_code_def get_str_update)
qed

lemma simulates_PostCandidate:
  assumes "kv_ok kv" "sessions_rel kv n st rv" "valid_str c" "valid_str x" "n < 2 ^ 64 - 1"
  shows "simulates kv n now st rv (PostCandidate c x)"
proof (cases "rv_live rv now c")
  case True
  have live: "code_live kv now (session_codes st) c" using code_live_rel [OF assms(2,3)] True by simp
  have code: "is_code c" using assms(2) True by (auto simp: sessions_rel_def rv_live_def split: option.splits)
  have small: "unat (cand_seq st) < 2 ^ 64 - 1" "unat (cand_seq st + 1) = unat (cand_seq st) + 1"
    using assms(2,5) by (auto simp: sessions_rel_def unat_word_ariths)
  let ?t = "kv_insert kv (ice_candidates st)
    (str_as_bytes (c @ colon @ fixed_digits 16 16 (unat (cand_seq st)))) (str_as_bytes x)"
  have cands: "cands_rel kv ?t (cand_seq st + 1) (d @ colon) (((rv_cands rv)(c := rv_cands rv c @ [x])) d)" if "is_code d" for d
  proof (cases "d = c")
    case True
    have "cands_rel kv (ice_candidates st) (cand_seq st) (c @ colon) (rv_cands rv c)"
      using assms(2) code by (simp add: sessions_rel_def)
    from cands_rel_snoc [OF assms(1) this small(1) assms(4)] show ?thesis using True by simp
  next
    case False
    have "cands_rel kv (ice_candidates st) (cand_seq st) (d @ colon) (rv_cands rv d)"
      using assms(2) that by (simp add: sessions_rel_def)
    then have "cands_rel kv (ice_candidates st) (cand_seq st + 1) (d @ colon) (rv_cands rv d)"
      by (rule cands_rel_mono) (simp add: small)
    moreover have "\<not> prefix (str_as_bytes (d @ colon)) (str_as_bytes (c @ colon @ fixed_digits 16 16 (unat (cand_seq st))))"
      using code_prefix_iff [OF that code, of "[]"] False by simp
    ultimately show ?thesis using False by (simp add: cands_rel_other [OF assms(1)])
  qed
  show ?thesis
    using assms live True small cands
    by (auto simp: simulates_def conforms_def sessions_rel_def post_candidate_def check_code_def next_candidate_seq_def)
next
  case False
  then have "\<not> code_live kv now (session_codes st) c" using code_live_rel [OF assms(2,3)] by simp
  then show ?thesis using assms(2) False
    by (auto simp: simulates_def conforms_def sessions_rel_def post_candidate_def check_code_def)
qed

text \<open>Room requests leave the sessions alone, apart from the two counters.\<close>

definition same_sessions :: "'t app_state \<Rightarrow> 't app_state \<Rightarrow> bool" where
  "same_sessions st st' \<longleftrightarrow> session_codes st' = session_codes st \<and> ice_candidates st' = ice_candidates st \<and>
     offers st' = offers st \<and> answers st' = answers st \<and> code_seq st' = code_seq st"

lemma room_live_same: "same_sessions st (snd (room_live kv now st c))" "cand_seq (snd (room_live kv now st c)) = cand_seq st"
  "room_members (snd (room_live kv now st c)) = room_members st"
  "room_candidates (snd (room_live kv now st c)) = room_candidates st"
  by (auto simp: room_live_def same_sessions_def split: option.split)

lemma same_sessions_trans: "same_sessions a b \<Longrightarrow> same_sessions b c \<Longrightarrow> same_sessions a c"
  by (simp add: same_sessions_def)

lemma room_requests_same:
  assumes "r \<in> {PostRoomJoin c p k, PostRoomCandidate c p x, GetRoom c}"
  shows "same_sessions st (snd (signal_step kv now st r)) \<and>
    cand_seq (snd (signal_step kv now st r)) \<in> {cand_seq st, cand_seq st + 1}"
proof -
  obtain live st' where l: "room_live kv now st c = (live, st')" by fastforce
  then have st': "same_sessions st st'" "cand_seq st' = cand_seq st" using room_live_same(1) [of st kv now c] room_live_same(2) [of kv now st c] by simp_all
  from assms consider "r = PostRoomJoin c p k" | "r = PostRoomCandidate c p x" | "r = GetRoom c" by blast
  then have "same_sessions st' (snd (signal_step kv now st r)) \<and>
      cand_seq (snd (signal_step kv now st r)) \<in> {cand_seq st', cand_seq st' + 1}"
    by cases (simp_all add: l post_room_join_def post_room_candidate_def get_room_def add_participant_def
        participant_insert_def add_room_candidate_def next_candidate_seq_def same_sessions_def)
  then show ?thesis using st' same_sessions_trans by metis
qed

lemma simulates_rooms:
  assumes "sessions_rel kv n st rv" "n < 2 ^ 64 - 1" "r \<in> {PostRoomJoin c p k, PostRoomCandidate c p x, GetRoom c}"
  shows "simulates kv n now st rv r"
proof -
  let ?st = "snd (signal_step kv now st r)"
  have same: "same_sessions st ?st" and "cand_seq ?st \<in> {cand_seq st, cand_seq st + 1}"
    using room_requests_same [OF assms(3)] by auto
  moreover have "unat (cand_seq st + 1) = unat (cand_seq st) + 1"
    using assms(1,2) by (auto simp: sessions_rel_def unat_word_ariths)
  ultimately have "unat (cand_seq st) \<le> unat (cand_seq ?st)" "unat (cand_seq ?st) \<le> Suc n"
    using assms(1) by (auto simp: sessions_rel_def)
  then have "sessions_rel kv (Suc n) ?st rv"
    using assms(1) same by (auto simp: sessions_rel_def same_sessions_def intro: cands_rel_mono)
  then show ?thesis using assms(3) by (auto simp: simulates_def conforms_def)
qed

lemma simulates_PostRoom: "sessions_rel kv n st rv \<Longrightarrow> simulates kv n now st rv PostRoom"
  by (auto simp: simulates_def conforms_def sessions_rel_def post_room_def gen_code_def create_room_def rv_code_def)

lemma simulates_all:
  assumes "kv_ok kv" "sessions_rel kv n st rv" "valid_request r" "n < 2 ^ 64 - 1"
  shows "simulates kv n now st rv r"
  using assms simulates_PostSession simulates_queries simulates_posts simulates_PostCandidate simulates_PostRoom
    simulates_rooms [OF assms(2,4)]
  by (cases r) (auto simp: valid_request_def simp del: rv_step.simps signal_step.simps)

lemma signal_run_conforms:
  assumes "kv_ok kv" "sessions_rel kv n st rv" "\<forall>(now, r)\<in>set rs. valid_request r" "n + length rs < 2 ^ 64"
  shows "list_all2 conforms (rv_run rv rs) (fst (signal_run kv st rs))"
  using assms(2-4)
proof (induction rs arbitrary: n st rv)
  case (Cons p rs)
  obtain now r where p: "p = (now, r)" by (cases p)
  have sim: "simulates kv n now st rv r" using Cons.prems by (intro simulates_all [OF assms(1)]) (auto simp: p)
  then have "list_all2 conforms (rv_run (snd (rv_step now rv r)) rs) (fst (signal_run kv (snd (signal_step kv now st r)) rs))"
    using Cons.prems by (intro Cons.IH [of "Suc n"]) (auto simp: simulates_def p)
  with sim show ?case by (simp add: p simulates_def split_def)
qed simp

lemma sessions_rel_init:
  assumes "store_empty kv st" "cand_seq st = 0"
  shows "sessions_rel kv 0 st (rv_new (code_seq st))"
  using assms
  by (auto simp: sessions_rel_def rv_new_def store_empty_def code_expiry_def get_str_def cands_rel_def intro: scans_Nil)

text \<open>
  C16: The service is a rendezvous. Started on an empty store, over any sequence of requests of any
  clients at any times, every session request is answered as the abstract rendezvous
  answers it: a code is honoured for 300 seconds from its creation or until a peer reports the
  connection, a join returns the last offer and all candidates posted under that code, in order, an
  answer poll the last answer, and dead codes are refused. No request to one code or to a room
  shows up under another code.
\<close>

theorem signaling_refines_rendezvous:
  assumes "kv_ok kv" "store_empty kv st" "cand_seq st = 0" "\<forall>(now, r)\<in>set requests. valid_request r"
    and "length requests < 2 ^ 64"
  shows "list_all2 conforms (rv_run (rv_new (code_seq st)) requests) (fst (signal_run kv st requests))"
  using signal_run_conforms [OF assms(1) sessions_rel_init [OF assms(2,3)] assms(4)] assms(5) by simp

text \<open>An empty store for the examples.\<close>

definition fresh_app :: "(bytes \<times> bytes) list app_state" where
  "fresh_app = app_open [] [] [] [] [] [] [] [] []"

lemma fresh_app_ok: "store_empty alist_kv fresh_app" "cand_seq fresh_app = 0" "code_seq fresh_app = 100000000"
  by (simp_all add: store_empty_def fresh_app_def app_open_def alist_kv_def)

theorem signaling_refines_rendezvous_witness:
  "list_all2 conforms
     (rv_run (rv_new 100000000) [(1000, PostSession), (1001, PostOffer (rv_code 100000000) [111]), (1002, GetJoin (rv_code 100000000))])
     (fst (signal_run alist_kv fresh_app
        [(1000, PostSession), (1001, PostOffer (rv_code 100000000) [111]), (1002, GetJoin (rv_code 100000000))]))"
proof -
  have "valid_str (rv_code 100000000)" by (simp add: rv_code_def is_code_valid)
  then have "\<forall>(now, r)\<in>set [(1000 :: i64, PostSession), (1001, PostOffer (rv_code 100000000) [111]), (1002, GetJoin (rv_code 100000000))].
      valid_request r"
    by (simp add: valid_request_def valid_str_def valid_char_def)
  from signaling_refines_rendezvous [OF alist_kv_ok fresh_app_ok(1,2) this] show ?thesis by (simp add: fresh_app_ok)
qed

section \<open>The abstract mesh\<close>

record mesh =
  ms_seq :: u64
  ms_rooms :: "rust_str \<Rightarrow> i64 option"
  ms_members :: "rust_str \<Rightarrow> rust_str \<Rightarrow> rust_str option"
  ms_cands :: "rust_str \<Rightarrow> rust_str \<Rightarrow> rust_str list"

datatype mesh_answer =
    MeshCreated rust_str
  | MeshStatus status
  | MeshRoster rust_str "rust_str \<Rightarrow> rust_str option" "rust_str \<Rightarrow> rust_str list"

definition ms_live :: "mesh \<Rightarrow> i64 \<Rightarrow> rust_str \<Rightarrow> bool" where
  "ms_live ms now c = (case ms_rooms ms c of None \<Rightarrow> False | Some e \<Rightarrow> sint now < sint e)"

definition ms_expire :: "mesh \<Rightarrow> rust_str \<Rightarrow> mesh" where
  "ms_expire ms c = ms\<lparr>ms_rooms := (ms_rooms ms)(c := None)\<rparr>"

fun mesh_step :: "i64 \<Rightarrow> mesh \<Rightarrow> signal_request \<Rightarrow> mesh_answer option \<times> mesh" where
  "mesh_step now ms PostRoom =
     (Some (MeshCreated (rv_code (ms_seq ms))),
      ms\<lparr>ms_seq := ms_seq ms + 1, ms_rooms := (ms_rooms ms)(rv_code (ms_seq ms) \<mapsto> now + 300)\<rparr>)"
| "mesh_step now ms PostSession = (None, ms\<lparr>ms_seq := ms_seq ms + 1\<rparr>)"
| "mesh_step now ms (PostRoomJoin c p k) =
     (if \<not> ms_live ms now c then (Some (MeshStatus NOT_FOUND), ms_expire ms c)
      else if p = [] \<or> 64 < str_len p then (Some (MeshStatus BAD_REQUEST), ms)
      else if ms_members ms c p = None \<and> 4 \<le> card (dom (ms_members ms c)) then (Some (MeshStatus CONFLICT), ms)
      else (Some (MeshStatus STATUS_OK), ms\<lparr>ms_members := (ms_members ms)(c := (ms_members ms c)(p \<mapsto> k))\<rparr>))"
| "mesh_step now ms (PostRoomCandidate c p x) =
     (if \<not> ms_live ms now c then (Some (MeshStatus NOT_FOUND), ms_expire ms c)
      else if ms_members ms c p = None then (Some (MeshStatus FORBIDDEN), ms)
      else (Some (MeshStatus ACCEPTED),
            ms\<lparr>ms_cands := (ms_cands ms)(c := (ms_cands ms c)(p := ms_cands ms c p @ [x]))\<rparr>))"
| "mesh_step now ms (GetRoom c) =
     (if \<not> ms_live ms now c then (Some (MeshStatus NOT_FOUND), ms_expire ms c)
      else (Some (MeshRoster c (ms_members ms c) (ms_cands ms c)), ms))"
| "mesh_step now ms _ = (None, ms)"

fun mesh_run :: "mesh \<Rightarrow> (i64 \<times> signal_request) list \<Rightarrow> mesh_answer option list" where
  "mesh_run ms [] = []"
| "mesh_run ms ((now, r) # rs) = (case mesh_step now ms r of (a, ms') \<Rightarrow> a # mesh_run ms' rs)"

definition mesh_new :: "u64 \<Rightarrow> mesh" where
  "mesh_new n = \<lparr>ms_seq = n, ms_rooms = (\<lambda>_. None), ms_members = (\<lambda>_ _. None), ms_cands = (\<lambda>_ _. [])\<rparr>"

text \<open>
  A roster shows every member once with its key, at most four of them, ordered by name; with the
  flag also the candidates of each.
\<close>

definition roster_ok ::
  "bool \<Rightarrow> (rust_str \<Rightarrow> rust_str option) \<Rightarrow> (rust_str \<Rightarrow> rust_str list) \<Rightarrow> room_participant list \<Rightarrow> bool" where
  "roster_ok exact members cands ps \<longleftrightarrow>
     length ps \<le> 4 \<and> sorted_wrt (\<lambda>a b. str_as_bytes (rp_id a) < str_as_bytes (rp_id b)) ps \<and>
     rp_id ` set ps = dom members \<and> (\<forall>p\<in>set ps. members (rp_id p) = Some (rp_pubkey p)) \<and>
     (exact \<longrightarrow> (\<forall>p\<in>set ps. rp_candidates p = cands (rp_id p)))"

fun mesh_conforms :: "bool \<Rightarrow> mesh_answer option \<Rightarrow> signal_response \<Rightarrow> bool" where
  "mesh_conforms exact None a = True"
| "mesh_conforms exact (Some (MeshCreated c)) a \<longleftrightarrow> a = Created c"
| "mesh_conforms exact (Some (MeshStatus e)) a \<longleftrightarrow> a = Status e"
| "mesh_conforms exact (Some (MeshRoster c M C)) a \<longleftrightarrow> (\<exists>ps. a = Roster c ps \<and> roster_ok exact M C ps)"

text \<open>Participant names without a colon.\<close>

fun colon_free :: "signal_request \<Rightarrow> bool" where
  "colon_free (PostRoomJoin c p k) = (58 \<notin> set p)"
| "colon_free _ = True"

definition mesh_data :: "'t kv_ops \<Rightarrow> bool \<Rightarrow> nat \<Rightarrow> 't app_state \<Rightarrow> mesh \<Rightarrow> bool" where
  "mesh_data kv exact n st ms \<longleftrightarrow>
     code_seq st = ms_seq ms \<and> unat (cand_seq st) \<le> n \<and>
     (\<forall>c. valid_str c \<longrightarrow> kv_get kv (rooms st) (str_as_bytes c) = map_option (to_le_bytes 8) (ms_rooms ms c)) \<and>
     (\<forall>c. ms_rooms ms c \<noteq> None \<longrightarrow> is_code c) \<and>
     (\<forall>c p. is_code c \<and> valid_str p \<longrightarrow>
        kv_get kv (room_members st) (str_as_bytes (c @ colon @ p)) = map_option str_as_bytes (ms_members ms c p)) \<and>
     (\<forall>k. kv_get kv (room_members st) k \<noteq> None \<longrightarrow> (\<exists>c p. is_code c \<and> valid_str p \<and> k = str_as_bytes (c @ colon @ p))) \<and>
     (\<forall>c p k. ms_members ms c p = Some k \<longrightarrow> valid_str p \<and> valid_str k \<and> (exact \<longrightarrow> 58 \<notin> set p)) \<and>
     (\<forall>c. finite (dom (ms_members ms c))) \<and>
     (exact \<longrightarrow> (\<forall>c p. is_code c \<and> valid_str p \<and> 58 \<notin> set p \<longrightarrow>
        cands_rel kv (room_candidates st) (cand_seq st) (c @ colon @ p @ colon) (ms_cands ms c p)))"

definition mesh_rel :: "'t kv_ops \<Rightarrow> bool \<Rightarrow> nat \<Rightarrow> 't app_state \<Rightarrow> mesh \<Rightarrow> bool" where
  "mesh_rel kv exact n st ms \<longleftrightarrow> mesh_data kv exact n st ms \<and> (\<forall>c. card (dom (ms_members ms c)) \<le> 4)"

lemmas mesh_rel_defs = mesh_rel_def mesh_data_def

lemma mesh_rel_data: "mesh_rel kv exact n st ms \<Longrightarrow> mesh_data kv exact n st ms"
  by (simp add: mesh_rel_def)

lemma mesh_rel_init:
  assumes "store_empty kv st" "cand_seq st = 0"
  shows "mesh_rel kv exact 0 st (mesh_new (code_seq st))"
  using assms by (auto simp: mesh_rel_defs mesh_new_def store_empty_def cands_rel_def intro: scans_Nil)

lemma room_live_rel:
  assumes "mesh_rel kv exact n st ms" "valid_str c"
  shows "room_live kv now st c =
    (ms_live ms now c,
     if ms_rooms ms c \<noteq> None \<and> \<not> ms_live ms now c
     then st\<lparr>rooms := kv_remove kv (rooms st) (str_as_bytes c)\<rparr> else st)"
  using assms by (auto simp: mesh_rel_defs room_live_def ms_live_def from_to_le_bytes split: option.splits)

text \<open>The participants of a room are its members in the order of their keys.\<close>

lemma room_participants_rel:
  assumes "kv_ok kv" "mesh_data kv exact n st ms" "is_code c"
  shows "set (room_participants kv st c) = dom (ms_members ms c)"
    and "sorted_wrt (\<lambda>a b. str_as_bytes a < str_as_bytes b) (room_participants kv st c)"
    and "length (room_participants kv st c) = card (dom (ms_members ms c))"
proof -
  define kvs where "kvs = kv_scan_prefix kv (room_members st) (str_as_bytes (c @ colon))"
  define pid where "pid = (\<lambda>kv :: bytes \<times> bytes. drop (length (c @ colon)) (the (str_from_utf8 (fst kv))))"
  have scan: "scans (kv_get kv (room_members st)) (str_as_bytes (c @ colon)) kvs"
    unfolding kvs_def by (rule kv_ok_laws(3) [OF assms(1)])
  have valid: "valid_str c" using assms(3) by (rule is_code_valid)
  have pid_key: "pid (str_as_bytes (c @ colon @ p), v) = p" "str_from_utf8 (str_as_bytes (c @ colon @ p)) = Some (c @ colon @ p)"
    if "valid_str p" for p v using that valid by (simp_all add: pid_def str_from_utf8_as_bytes)
  have key: "\<exists>p. valid_str p \<and> fst e = str_as_bytes (c @ colon @ p)" if member: "e \<in> set kvs" for e
  proof -
    have e: "kv_get kv (room_members st) (fst e) = Some (snd e)" "prefix (str_as_bytes (c @ colon)) (fst e)"
      using scan member by (cases e; auto simp: scans_def)+
    then obtain d p where d: "is_code d" "valid_str p" "fst e = str_as_bytes (d @ colon @ p)"
      using assms(2) unfolding mesh_data_def by (metis option.distinct(1))
    then have "d = c" using e(2) code_prefix_iff [OF assms(3) d(1), of "[]" p] by simp
    then show ?thesis using d by blast
  qed
  have parts: "room_participants kv st c = map pid kvs"
  proof -
    have "(case str_from_utf8 (fst e) of None \<Rightarrow> None
        | Some s \<Rightarrow> if take (length (c @ colon)) s = c @ colon then Some (drop (length (c @ colon)) s) else None) = Some (pid e)"
      if "e \<in> set kvs" for e using key [OF that] pid_key by (auto simp: pid_def)
    then show ?thesis
      unfolding room_participants_def kvs_def [symmetric] Let_def split_def
      by (induction kvs) (auto simp: map_filter_simps)
  qed
  have pid_bytes: "fst e = str_as_bytes (c @ colon) @ str_as_bytes (pid e)" if "e \<in> set kvs" for e
    using key [OF that] pid_key by (cases e) (auto simp: str_as_bytes_append)
  show sorted: "sorted_wrt (\<lambda>a b. str_as_bytes a < str_as_bytes b) (room_participants kv st c)"
    unfolding parts sorted_wrt_map
    by (rule sorted_wrt_mono_rel [of kvs "\<lambda>a b. fst a < fst b"])
      (use scan pid_bytes in \<open>auto simp: scans_def intro: list_less_append_cancel\<close>)
  have stored: "kv_get kv (room_members st) (str_as_bytes (c @ colon @ p)) = map_option str_as_bytes (ms_members ms c p)"
    if "valid_str p" for p using assms(2,3) that by (simp add: mesh_data_def)
  show "set (room_participants kv st c) = dom (ms_members ms c)"
  proof (intro equalityI subsetI)
    fix p assume "p \<in> set (room_participants kv st c)"
    then obtain e where e: "e \<in> set kvs" "p = pid e" by (auto simp: parts)
    then obtain q where q: "valid_str q" "fst e = str_as_bytes (c @ colon @ q)" using key by blast
    then have "p = q" using e(2) pid_key(1) [of q "snd e"] by (cases e) simp
    moreover have "kv_get kv (room_members st) (fst e) \<noteq> None" using scan e(1) by (cases e) (auto simp: scans_def)
    ultimately show "p \<in> dom (ms_members ms c)" using stored [OF q(1)] q(2) by auto
  next
    fix p assume "p \<in> dom (ms_members ms c)"
    then obtain k where k: "ms_members ms c p = Some k" by auto
    then have p: "valid_str p" using assms(2) unfolding mesh_data_def by blast
    then have "kv_get kv (room_members st) (str_as_bytes (c @ colon @ p)) = Some (str_as_bytes k)"
      using stored k by simp
    moreover have "prefix (str_as_bytes (c @ colon)) (str_as_bytes (c @ colon @ p))" by (simp add: str_as_bytes_append)
    ultimately have "(str_as_bytes (c @ colon @ p), str_as_bytes k) \<in> set kvs" using scan by (simp add: scans_def)
    then have "pid (str_as_bytes (c @ colon @ p), str_as_bytes k) \<in> set (map pid kvs)" by simp
    then show "p \<in> set (room_participants kv st c)" by (simp only: parts pid_key(1) [OF p])
  qed
  then show "length (room_participants kv st c) = card (dom (ms_members ms c))"
    using sorted_wrt_distinct [OF sorted] distinct_card by metis
qed

text \<open>Steps of the mesh: one lemma per request.\<close>

definition mesh_simulates :: "'t kv_ops \<Rightarrow> bool \<Rightarrow> nat \<Rightarrow> i64 \<Rightarrow> 't app_state \<Rightarrow> mesh \<Rightarrow> signal_request \<Rightarrow> bool" where
  "mesh_simulates kv exact n now st ms r \<longleftrightarrow>
     mesh_conforms exact (fst (mesh_step now ms r)) (fst (signal_step kv now st r)) \<and>
     mesh_rel kv exact (Suc n) (snd (signal_step kv now st r)) (snd (mesh_step now ms r))"

lemma mesh_rel_Suc: "mesh_rel kv exact n st ms \<Longrightarrow> mesh_rel kv exact (Suc n) st ms"
  by (simp add: mesh_rel_defs)

lemma mesh_live_code: "mesh_rel kv exact n st ms \<Longrightarrow> ms_live ms now c \<Longrightarrow> is_code c"
  by (auto simp: mesh_rel_defs ms_live_def split: option.splits)

lemma mesh_expired:
  assumes "kv_ok kv" "mesh_rel kv exact n st ms" "valid_str c" "\<not> ms_live ms now c"
  shows "\<exists>st'. room_live kv now st c = (False, st') \<and> mesh_rel kv exact (Suc n) st' (ms_expire ms c)"
proof -
  have "mesh_rel kv exact n (st\<lparr>rooms := kv_remove kv (rooms st) (str_as_bytes c)\<rparr>) (ms_expire ms c)"
    using assms(1-3) by (auto simp: mesh_rel_defs ms_expire_def kv_ok_laws str_as_bytes_inj)
  moreover have "ms_expire ms c = ms" if "ms_rooms ms c = None" using that by (simp add: ms_expire_def fun_upd_idem)
  ultimately show ?thesis
    using room_live_rel [OF assms(2,3), of now] assms(2,4) mesh_rel_Suc by (cases "ms_rooms ms c") auto
qed

lemma mesh_simulates_PostRoom:
  assumes "kv_ok kv" "mesh_rel kv exact n st ms"
  shows "mesh_simulates kv exact n now st ms PostRoom"
proof -
  let ?c = "rv_code (ms_seq ms)"
  have c: "is_code ?c" "valid_str ?c" by (simp_all add: rv_code_def is_code_valid)
  have "signal_step kv now st PostRoom =
      (Created ?c, st\<lparr>code_seq := code_seq st + 1, rooms := kv_insert kv (rooms st) (str_as_bytes ?c) (to_le_bytes 8 (now + 300))\<rparr>)"
    using assms(2) by (simp add: post_room_def gen_code_def create_room_def rv_code_def ROOM_TTL_SECS_def mesh_rel_defs)
  then show ?thesis
    using assms c by (auto simp: mesh_simulates_def mesh_rel_defs kv_ok_laws str_as_bytes_inj)
qed

text \<open>Members of different rooms and different names have different keys.\<close>

lemma member_key_inj:
  assumes "is_code c" "is_code d" "valid_str p" "valid_str q"
  shows "str_as_bytes (c @ colon @ p) = str_as_bytes (d @ colon @ q) \<longleftrightarrow> c = d \<and> p = q"
proof -
  have "length c = length d" using assms(1,2) by (simp add: is_code_def)
  then show ?thesis
    using assms by (simp add: str_as_bytes_inj is_code_valid)
qed

lemma card_dom_upd: "finite (dom m) \<Longrightarrow> card (dom (m(p \<mapsto> k))) = (if m p = None then Suc (card (dom m)) else card (dom m))"
  by (auto simp: dom_fun_upd card_insert_if insert_absorb domIff)

lemma mesh_data_insert:
  assumes "kv_ok kv" "mesh_data kv exact n st ms" "is_code c" "valid_str p" "valid_str k" "exact \<longrightarrow> 58 \<notin> set p"
  shows "mesh_data kv exact n (participant_insert kv st c p k) (ms\<lparr>ms_members := (ms_members ms)(c := (ms_members ms c)(p \<mapsto> k))\<rparr>)"
  using assms(2-6)
  by (auto simp: mesh_data_def participant_insert_def kv_ok_laws(1) [OF assms(1)] member_key_inj)

lemma mesh_rel_insert:
  assumes "kv_ok kv" "mesh_rel kv exact n st ms" "is_code c" "valid_str p" "valid_str k" "exact \<longrightarrow> 58 \<notin> set p"
    and "ms_members ms c p \<noteq> None \<or> card (dom (ms_members ms c)) < 4"
  shows "mesh_rel kv exact n (participant_insert kv st c p k) (ms\<lparr>ms_members := (ms_members ms)(c := (ms_members ms c)(p \<mapsto> k))\<rparr>)"
proof -
  have fin: "finite (dom (ms_members ms c))" "card (dom (ms_members ms c)) \<le> 4" using assms(2) by (simp_all add: mesh_rel_defs)
  then have "card (dom ((ms_members ms c)(p \<mapsto> k))) \<le> 4" using assms(7) card_dom_upd [OF fin(1)] by auto
  then show ?thesis
    using mesh_data_insert [OF assms(1) _ assms(3-6)] assms(2) by (simp add: mesh_rel_def)
qed

lemma mesh_simulates_join:
  assumes "kv_ok kv" "mesh_rel kv exact n st ms" "valid_request (PostRoomJoin c p k)" "exact \<longrightarrow> colon_free (PostRoomJoin c p k)"
  shows "mesh_simulates kv exact n now st ms (PostRoomJoin c p k)"
proof (cases "ms_live ms now c")
  case False
  have "valid_str c" using assms(3) by (simp add: valid_request_def)
  then show ?thesis using mesh_expired [OF assms(1,2) _ False] False
    by (auto simp: mesh_simulates_def post_room_join_def)
next
  case True
  have v: "valid_str c" "valid_str p" "valid_str k" using assms(3) by (simp_all add: valid_request_def)
  have code: "is_code c" using mesh_live_code [OF assms(2) True] .
  have live: "room_live kv now st c = (True, st)" using room_live_rel [OF assms(2) v(1)] True by simp
  have "kv_get kv (room_members st) (str_as_bytes (c @ colon @ p)) = map_option str_as_bytes (ms_members ms c p)"
    using assms(2) code v(2) by (simp add: mesh_rel_defs)
  then have adm: "participant_admitted kv st c p \<longleftrightarrow> \<not> (ms_members ms c p = None \<and> 4 \<le> card (dom (ms_members ms c)))"
    using room_participants_rel(3) [OF assms(1) mesh_rel_data [OF assms(2)] code] by (auto simp: participant_admitted_def MESH_MAX_PARTICIPANTS_def mesh_rel_def)
  show ?thesis
  proof (cases "participant_admitted kv st c p")
    case True
    then have "mesh_rel kv exact (Suc n) (participant_insert kv st c p k) (ms\<lparr>ms_members := (ms_members ms)(c := (ms_members ms c)(p \<mapsto> k))\<rparr>)"
      using adm assms(4) by (intro mesh_rel_Suc mesh_rel_insert [OF assms(1,2) code v(2,3)]) auto
    then show ?thesis
      using True live adm \<open>ms_live ms now c\<close> mesh_rel_Suc [OF assms(2)]
      by (auto simp: mesh_simulates_def post_room_join_def add_participant_def)
  next
    case False
    then show ?thesis
      using live adm \<open>ms_live ms now c\<close> mesh_rel_Suc [OF assms(2)]
      by (auto simp: mesh_simulates_def post_room_join_def add_participant_def)
  qed
qed

text \<open>Keys of candidates of colon-free names.\<close>

lemma byte_of_eq_58: "n < 256 \<Longrightarrow> byte_of n = 58 \<longleftrightarrow> n = 58"
  by (simp add: word_unat_eq_iff [of "byte_of n"])

lemma colon_char_bytes: "valid_char c \<Longrightarrow> 58 \<in> set (char_encode_utf8 c) \<Longrightarrow> c = 58"
proof -
  assume valid: "valid_char c" and mem: "58 \<in> set (char_encode_utf8 c)"
  have "c < 0x110000" using valid by (auto simp: valid_char_def)
  then show ?thesis
    using mem
    by (auto simp: char_encode_utf8_def byte_of_eq_58 eq_commute [of "58 :: u8"] less_mult_imp_div_less split: if_splits)
qed

lemma colon_free_bytes: "valid_str p \<Longrightarrow> 58 \<notin> set p \<Longrightarrow> 58 \<notin> set (str_as_bytes p)"
  by (induction p) (auto simp: str_as_bytes_def valid_str_def dest: colon_char_bytes)

lemma split_first_colon:
  "58 \<notin> set xs \<Longrightarrow> 58 \<notin> set ys \<Longrightarrow> xs @ (58 :: u8) # us = ys @ 58 # vs \<longleftrightarrow> xs = ys \<and> us = vs"
proof (induction xs arbitrary: ys)
  case Nil
  then show ?case by (cases ys) auto
next
  case (Cons x xs)
  then show ?case by (cases ys) auto
qed

lemma room_key_prefix_iff:
  assumes "is_code c" "is_code d" "valid_str p" "valid_str q" "58 \<notin> set p" "58 \<notin> set q"
  shows "prefix (str_as_bytes (d @ colon @ q @ colon)) (str_as_bytes (c @ colon @ p @ colon @ h)) \<longleftrightarrow> d = c \<and> q = p"
proof -
  have colon: "str_as_bytes colon = [58]"
    by (simp add: colon_def str_as_bytes_def char_encode_utf8_def byte_of_eq_58)
  have "prefix (str_as_bytes (q @ colon)) (str_as_bytes (p @ colon @ h)) \<longleftrightarrow> str_as_bytes q = str_as_bytes p"
    using split_first_colon [OF colon_free_bytes colon_free_bytes, OF assms(3,5,4,6)]
    by (auto simp: prefix_def str_as_bytes_append colon)
  then show ?thesis
    using code_prefix_iff [OF assms(2,1), of "q @ colon" "p @ colon @ h"] assms(3,4) by (simp add: str_as_bytes_inj)
qed

lemma mesh_simulates_candidate:
  assumes "kv_ok kv" "mesh_rel kv exact n st ms" "valid_request (PostRoomCandidate c p x)" "n < 2 ^ 64 - 1"
  shows "mesh_simulates kv exact n now st ms (PostRoomCandidate c p x)"
proof (cases "ms_live ms now c")
  case False
  have "valid_str c" using assms(3) by (simp add: valid_request_def)
  then show ?thesis using mesh_expired [OF assms(1,2) _ False] False
    by (auto simp: mesh_simulates_def post_room_candidate_def)
next
  case True
  have v: "valid_str c" "valid_str p" "valid_str x" using assms(3) by (simp_all add: valid_request_def)
  have code: "is_code c" using mesh_live_code [OF assms(2) True] .
  have live: "room_live kv now st c = (True, st)" using room_live_rel [OF assms(2) v(1)] True by simp
  have "kv_get kv (room_members st) (str_as_bytes (c @ colon @ p)) = map_option str_as_bytes (ms_members ms c p)"
    "\<forall>k. ms_members ms c p = Some k \<longrightarrow> valid_str k" using assms(2) code v(2) by (simp_all add: mesh_rel_defs)
  then have key: "participant_pubkey kv st c p = ms_members ms c p"
    by (auto simp: participant_pubkey_def get_str_def str_from_utf8_as_bytes split: option.splits)
  show ?thesis
  proof (cases "ms_members ms c p")
    case None
    then show ?thesis using live key \<open>ms_live ms now c\<close> mesh_rel_Suc [OF assms(2)]
      by (auto simp: mesh_simulates_def post_room_candidate_def)
  next
    case (Some k)
    have seq: "unat (cand_seq st + 1) = unat (cand_seq st) + 1" "unat (cand_seq st) < 2 ^ 64 - 1"
      using assms(2,4) by (auto simp: mesh_rel_defs unat_word_ariths)
    let ?t = "kv_insert kv (room_candidates st)
      (str_as_bytes (c @ colon @ p @ colon @ fixed_digits 16 16 (unat (cand_seq st)))) (str_as_bytes x)"
    have cands: "cands_rel kv ?t (cand_seq st + 1) (d @ colon @ q @ colon)
        (((ms_cands ms)(c := (ms_cands ms c)(p := ms_cands ms c p @ [x]))) d q)"
      if ex: "exact" and d: "is_code d" "valid_str q" "58 \<notin> set q" for d q
    proof -
      have p: "58 \<notin> set p" using assms(2) ex Some by (auto simp: mesh_rel_defs)
      have old: "cands_rel kv (room_candidates st) (cand_seq st) (d @ colon @ q @ colon) (ms_cands ms d q)"
        using assms(2) ex d by (simp add: mesh_rel_defs)
      show ?thesis
      proof (cases "d = c \<and> q = p")
        case True
        then show ?thesis using cands_rel_snoc [OF assms(1) old seq(2) v(3)] by simp
      next
        case False
        then have "\<not> prefix (str_as_bytes (d @ colon @ q @ colon))
            (str_as_bytes (c @ colon @ p @ colon @ fixed_digits 16 16 (unat (cand_seq st))))"
          using room_key_prefix_iff [OF code d(1) v(2) d(2) p d(3)] by simp
        then have "cands_rel kv ?t (cand_seq st + 1) (d @ colon @ q @ colon) (ms_cands ms d q)"
          using cands_rel_mono [OF old] seq(1) by (intro cands_rel_other [OF assms(1)]) auto
        then show ?thesis using False by auto
      qed
    qed
    have "mesh_rel kv exact (Suc n) (add_room_candidate kv (st\<lparr>cand_seq := cand_seq st + 1\<rparr>) c p (cand_seq st) x)
        (ms\<lparr>ms_cands := (ms_cands ms)(c := (ms_cands ms c)(p := ms_cands ms c p @ [x]))\<rparr>)"
      using assms(2) seq(1) cands by (auto simp: mesh_rel_defs add_room_candidate_def simp del: fun_upd_apply)
    then show ?thesis using Some live key \<open>ms_live ms now c\<close>
      by (auto simp: mesh_simulates_def post_room_candidate_def next_candidate_seq_def)
  qed
qed

lemma mesh_simulates_roster:
  assumes "kv_ok kv" "mesh_rel kv exact n st ms" "valid_request (GetRoom c)"
  shows "mesh_simulates kv exact n now st ms (GetRoom c)"
proof (cases "ms_live ms now c")
  case False
  have "valid_str c" using assms(3) by (simp add: valid_request_def)
  then show ?thesis using mesh_expired [OF assms(1,2) _ False] False
    by (auto simp: mesh_simulates_def get_room_def)
next
  case True
  have v: "valid_str c" using assms(3) by (simp_all add: valid_request_def)
  have code: "is_code c" using mesh_live_code [OF assms(2) True] .
  have live: "room_live kv now st c = (True, st)" using room_live_rel [OF assms(2) v(1)] True by simp
  let ?ps = "room_participants kv st c"
  let ?entry = "\<lambda>p. \<lparr>rp_id = p, rp_pubkey = (case participant_pubkey kv st c p of None \<Rightarrow> [] | Some k \<Rightarrow> k),
    rp_candidates = participant_candidates kv st c p\<rparr>"
  note parts = room_participants_rel [OF assms(1) mesh_rel_data [OF assms(2)] code]
  have key: "participant_pubkey kv st c p = ms_members ms c p" if "p \<in> set ?ps" for p
  proof -
    have "valid_str p" "\<forall>k. ms_members ms c p = Some k \<longrightarrow> valid_str k"
      using assms(2) that parts(1) by (auto simp: mesh_rel_defs)
    then have "kv_get kv (room_members st) (str_as_bytes (c @ colon @ p)) = map_option str_as_bytes (ms_members ms c p)"
      using assms(2) code by (simp add: mesh_rel_defs)
    then show ?thesis using \<open>\<forall>k. _ k\<close>
      by (auto simp: participant_pubkey_def get_str_def str_from_utf8_as_bytes split: option.splits)
  qed
  have cands: "participant_candidates kv st c p = ms_cands ms c p" if "exact" "p \<in> set ?ps" for p
  proof -
    have "valid_str p" "58 \<notin> set p" using assms(2) that parts(1) by (auto simp: mesh_rel_defs)
    then have "cands_rel kv (room_candidates st) (cand_seq st) (c @ colon @ p @ colon) (ms_cands ms c p)"
      using assms(2) that(1) code by (simp add: mesh_rel_defs)
    then show ?thesis by (simp add: participant_candidates_def cands_rel_values [OF assms(1)])
  qed
  have "card (dom (ms_members ms c)) \<le> 4" using assms(2) by (simp add: mesh_rel_defs)
  then have "roster_ok exact (ms_members ms c) (ms_cands ms c) (map ?entry ?ps)"
    using parts key cands by (auto simp: roster_ok_def sorted_wrt_map image_image split: option.splits)
  then show ?thesis using True live mesh_rel_Suc [OF assms(2)]
    by (simp add: mesh_simulates_def get_room_def)
qed

text \<open>Session requests leave the rooms alone, apart from the two counters.\<close>

definition same_rooms :: "'t app_state \<Rightarrow> 't app_state \<Rightarrow> bool" where
  "same_rooms st st' \<longleftrightarrow> rooms st' = rooms st \<and> room_members st' = room_members st \<and> room_candidates st' = room_candidates st"

lemma mesh_rel_frame:
  assumes "mesh_rel kv exact n st ms" "same_rooms st st'" "code_seq st' = ms_seq ms'"
    "unat (cand_seq st) \<le> unat (cand_seq st')" "unat (cand_seq st') \<le> m" "ms' = ms\<lparr>ms_seq := ms_seq ms'\<rparr>"
  shows "mesh_rel kv exact m st' ms'"
proof -
  have "ms_rooms ms' = ms_rooms ms" "ms_members ms' = ms_members ms" "ms_cands ms' = ms_cands ms"
    by (subst assms(6), simp)+
  moreover have "\<And>t p xs. cands_rel kv t (cand_seq st) p xs \<Longrightarrow> cands_rel kv t (cand_seq st') p xs"
    by (rule cands_rel_mono [OF _ assms(4)])
  ultimately show ?thesis
    using assms(1-3,5) unfolding mesh_rel_defs same_rooms_def by simp
qed

lemma mesh_simulates_sessions:
  assumes "mesh_rel kv exact n st ms" "n < 2 ^ 64 - 1"
    and "r = PostSession \<or> (\<exists>c. r = GetJoin c \<or> r = GetAnswer c \<or> r = PostConnected c) \<or>
         (\<exists>c s. r = PostOffer c s \<or> r = PostCandidate c s) \<or> (\<exists>c s. r = PostAnswer c s)"
  shows "mesh_simulates kv exact n now st ms r"
proof -
  let ?st = "snd (signal_step kv now st r)" and ?ms = "snd (mesh_step now ms r)"
  have seq: "unat (cand_seq st + 1) = unat (cand_seq st) + 1" using assms(1,2) by (auto simp: mesh_rel_defs unat_word_ariths)
  have "same_rooms st ?st \<and> code_seq ?st = ms_seq ?ms \<and> cand_seq ?st \<in> {cand_seq st, cand_seq st + 1} \<and>
      ?ms = ms\<lparr>ms_seq := ms_seq ?ms\<rparr> \<and> fst (mesh_step now ms r) = None"
    using assms(1,3)
    by (auto simp: mesh_rel_defs same_rooms_def post_session_def gen_code_def get_join_def get_answer_def check_code_def
        post_offer_def post_answer_def post_candidate_def post_connected_def next_candidate_seq_def
        split: option.split sum.split)
  then show ?thesis
    using seq assms(1) by (auto simp: mesh_simulates_def mesh_rel_def [of kv exact n] mesh_data_def [of kv exact n] intro!: mesh_rel_frame [OF assms(1)])
qed

lemma mesh_simulates_all:
  assumes "kv_ok kv" "mesh_rel kv exact n st ms" "valid_request r" "exact \<longrightarrow> colon_free r" "n < 2 ^ 64 - 1"
  shows "mesh_simulates kv exact n now st ms r"
  using assms(3,4) mesh_simulates_sessions [OF assms(2,5)] mesh_simulates_PostRoom [OF assms(1,2)]
    mesh_simulates_roster [OF assms(1,2)] mesh_simulates_join [OF assms(1,2)] mesh_simulates_candidate [OF assms(1,2) _ assms(5)]
  by (cases r) (simp_all del: mesh_step.simps signal_step.simps)

lemma signal_run_mesh:
  assumes "kv_ok kv" "mesh_rel kv exact n st ms" "n + length rs < 2 ^ 64"
    "\<forall>(now, r)\<in>set rs. valid_request r \<and> (exact \<longrightarrow> colon_free r)"
  shows "list_all2 (mesh_conforms exact) (mesh_run ms rs) (fst (signal_run kv st rs))"
  using assms(2-4)
proof (induction rs arbitrary: n st ms)
  case (Cons p rs)
  obtain now r where p: "p = (now, r)" by (cases p)
  have sim: "mesh_simulates kv exact n now st ms r" using Cons.prems by (intro mesh_simulates_all [OF assms(1)]) (auto simp: p)
  then have "list_all2 (mesh_conforms exact) (mesh_run (snd (mesh_step now ms r)) rs) (fst (signal_run kv (snd (signal_step kv now st r)) rs))"
    using Cons.prems by (intro Cons.IH [of "Suc n"]) (auto simp: mesh_simulates_def p)
  with sim show ?case by (simp add: p mesh_simulates_def split_def)
qed simp



section \<open>Beyond the specification\<close>

text \<open>
  Two joins that overlap: when both tests run before either insertion, a room of three takes
  both newcomers and has five participants.
\<close>

lemma room_join_race:
  assumes "kv_ok kv" "mesh_rel kv exact n st ms" "is_code c" "card (dom (ms_members ms c)) = 3"
    and "valid_str p" "valid_str q" "p \<noteq> q" "ms_members ms c p = None" "ms_members ms c q = None"
    and "exact \<longrightarrow> 58 \<notin> set p \<and> 58 \<notin> set q" "valid_str k" "valid_str k'"
  shows "participant_admitted kv st c p" "participant_admitted kv st c q"
    "length (room_participants kv (participant_insert kv (participant_insert kv st c p k) c q k') c) = 5"
proof -
  let ?ms1 = "ms\<lparr>ms_members := (ms_members ms)(c := (ms_members ms c)(p \<mapsto> k))\<rparr>"
  let ?ms2 = "?ms1\<lparr>ms_members := (ms_members ?ms1)(c := (ms_members ?ms1 c)(q \<mapsto> k'))\<rparr>"
  note data = mesh_rel_data [OF assms(2)]
  show "participant_admitted kv st c p" "participant_admitted kv st c q"
    using room_participants_rel(3) [OF assms(1) data assms(3)] assms(4)
    by (simp_all add: participant_admitted_def MESH_MAX_PARTICIPANTS_def)
  have "mesh_data kv exact n (participant_insert kv (participant_insert kv st c p k) c q k') ?ms2"
    using assms by (intro mesh_data_insert data) auto
  moreover have "finite (dom (ms_members ms c))" using data by (simp add: mesh_data_def)
  then have "card (dom ((ms_members ms c)(p \<mapsto> k, q \<mapsto> k'))) = 5"
    using assms(4,7-9) by (auto simp: card_insert_if domIff)
  ultimately show "length (room_participants kv (participant_insert kv (participant_insert kv st c p k) c q k') c) = 5"
    using room_participants_rel(3) [OF assms(1) _ assms(3)] by fastforce
qed

text \<open>A colon in a name: candidates of participant \<open>p:s\<close> are listed under participant \<open>p\<close>.\<close>

lemma room_candidate_leaks:
  assumes "kv_ok kv" "valid_str x" "post_room_candidate kv now st c (p @ colon @ s) x = (ACCEPTED, st')"
  shows "x \<in> set (participant_candidates kv st' c p)"
proof -
  obtain st0 where st': "st' = add_room_candidate kv (st0\<lparr>cand_seq := cand_seq st0 + 1\<rparr>) c (p @ colon @ s) (cand_seq st0) x"
    using assms(3) by (auto simp: post_room_candidate_def next_candidate_seq_def split: prod.splits if_splits)
  let ?key = "str_as_bytes (c @ colon @ (p @ colon @ s) @ colon @ fixed_digits 16 16 (unat (cand_seq st0)))"
  have "kv_get kv (room_candidates st') ?key = Some (str_as_bytes x)"
    by (simp add: st' add_room_candidate_def kv_ok_laws [OF assms(1)])
  moreover have "prefix (str_as_bytes (c @ colon @ p @ colon)) ?key" by (simp add: str_as_bytes_append)
  ultimately have "(?key, str_as_bytes x) \<in> set (kv_scan_prefix kv (room_candidates st') (str_as_bytes (c @ colon @ p @ colon)))"
    using kv_ok_laws(3) [OF assms(1), of "room_candidates st'" "str_as_bytes (c @ colon @ p @ colon)"] by (simp add: scans_def)
  then show ?thesis
    using str_from_utf8_as_bytes [OF assms(2)]
    by (force simp: participant_candidates_def scan_values_def map_filter_def)
qed

text \<open>
  Codes and what was posted under them come back after a restart. The code counter starts
  again with the process while the store keeps its trees, so the first session created after
  a restart gets the first code of every earlier process; whoever joins it before the
  technician posts anything receives the offer and the candidates of the earlier session, and a room
  created first has the participants of the earlier room.
\<close>

lemma codes_return_after_restart:
  assumes "kv_ok kv" "sint now' < sint (now + SESSION_TTL_SECS)"
    and "restarted = app_open (session_codes st) (ice_candidates st) (offers st) (answers st) (rooms st)
           (room_members st) (room_candidates st) (turn_urls st) (turn_secret st)"
  shows "fst (get_join kv now' (snd (post_session kv now restarted)) (rv_code 100000000)) =
      Inr \<lparr>ji_code = rv_code 100000000, ji_offer = pending_offer kv st (rv_code 100000000),
           ji_candidates = pending_candidates kv st (rv_code 100000000)\<rparr> \<and>
    snd (fst (post_session kv now restarted)) = rv_code 100000000 \<and>
    snd (fst (post_room kv now restarted)) = rv_code 100000000 \<and>
    room_participants kv (snd (post_room kv now restarted)) c = room_participants kv st c"
  using assms(2)
  by (simp add: assms(3) post_session_def post_room_def create_room_def gen_code_def app_open_def rv_code_def get_join_def
      code_live_def kv_ok_laws [OF assms(1)] pending_offer_def pending_candidates_def room_participants_def)

end
