(* ===== verification/Noise.thy ===== *)
theory Noise
  imports Codec
begin

text \<open>
  The Noise-IK handshake (\<open>core/crypto/src/noise_ik.rs\<close>) and the ephemeral key exchange
  (\<open>key_exchange.rs\<close>). The primitives come from libraries and are a parameter \<open>prim\<close>: the
  curve function, the hash, the key derivation and the authenticated cipher; \<open>prim_ok\<close> states
  their documented algebra (commuting exchanges, output lengths, opening as the exact
  inverse of sealing). Secrets, which the code draws at random, are arguments.

  An undisturbed handshake ends with the same keys and transcript on both sides and each side
  knows the other's static key. A responder accepts exactly the messages of the right shape, and a
  message made for another session code or another responder only if the hash collides or
  the cipher is forged at values named in the statement.
\<close>

section \<open>Primitives\<close>

record primitives =
  x25519 :: "bytes \<Rightarrow> bytes \<Rightarrow> bytes"
  basepoint :: bytes
  sha256 :: "bytes \<Rightarrow> bytes"
  hkdf :: "bytes option \<Rightarrow> bytes \<Rightarrow> bytes \<Rightarrow> nat \<Rightarrow> bytes"
  aead_seal :: "bytes \<Rightarrow> bytes \<Rightarrow> bytes \<Rightarrow> bytes \<Rightarrow> bytes"
  aead_open :: "bytes \<Rightarrow> bytes \<Rightarrow> bytes \<Rightarrow> bytes \<Rightarrow> bytes option"

definition prim_ok :: "primitives \<Rightarrow> bool" where
  "prim_ok P \<longleftrightarrow>
     (\<forall>a b. x25519 P a (x25519 P b (basepoint P)) = x25519 P b (x25519 P a (basepoint P))) \<and>
     (\<forall>a b. length (x25519 P a b) = 32) \<and>
     (\<forall>x. length (sha256 P x) = 32) \<and>
     (\<forall>salt ikm info n. n \<le> 8160 \<longrightarrow> length (hkdf P salt ikm info n) = n) \<and>
     (\<forall>k n ad p. length (aead_seal P k n ad p) = length p + 16) \<and>
     (\<forall>k n ad c p. aead_open P k n ad c = Some p \<longleftrightarrow> c = aead_seal P k n ad p)"

lemma prim_laws:
  assumes "prim_ok P"
  shows "x25519 P a (x25519 P b (basepoint P)) = x25519 P b (x25519 P a (basepoint P))"
    and "length (x25519 P a y) = 32" "length (sha256 P x) = 32" "n \<le> 8160 \<Longrightarrow> length (hkdf P salt ikm info n) = n"
    and "length (aead_seal P k nc ad p) = length p + 16"
    and "aead_open P k nc ad c = Some p \<longleftrightarrow> c = aead_seal P k nc ad p"
  using assms by (simp_all add: prim_ok_def)

section \<open>Handshake state\<close>

text \<open>\<open>b"Noise_IK_25519_ChaChaPoly_SHA256"\<close>.\<close>

definition PROTOCOL_NAME :: bytes where
  "PROTOCOL_NAME =
     [78, 111, 105, 115, 101, 95, 73, 75, 95, 50, 53, 53, 49, 57, 95, 67,
      104, 97, 67, 104, 97, 80, 111, 108, 121, 95, 83, 72, 65, 50, 53, 54]"

definition MSG1_LEN :: nat where "MSG1_LEN = 96"
definition MSG2_LEN :: nat where "MSG2_LEN = 48"

definition pub_from_priv :: "primitives \<Rightarrow> bytes \<Rightarrow> bytes" where
  "pub_from_priv P priv = x25519 P priv (basepoint P)"

definition dh :: "primitives \<Rightarrow> bytes \<Rightarrow> bytes \<Rightarrow> bytes" where
  "dh P my_priv their_pub = x25519 P my_priv their_pub"

record static_keypair =
  sk_secret :: bytes
  sk_public :: bytes

text \<open>\<open>generate\<close>, with the random secret as an argument.\<close>

definition keypair_generate :: "primitives \<Rightarrow> bytes \<Rightarrow> static_keypair" where
  "keypair_generate P secret = \<lparr>sk_secret = secret, sk_public = pub_from_priv P secret\<rparr>"

definition keypair_dh :: "primitives \<Rightarrow> static_keypair \<Rightarrow> bytes \<Rightarrow> bytes" where
  "keypair_dh P kp peer_pub = dh P (sk_secret kp) peer_pub"

datatype handshake_error = DecryptionFailed | BadMessageLength nat nat

record traffic_keys =
  initiator_to_responder :: bytes
  responder_to_initiator :: bytes

definition send_key :: "traffic_keys \<Rightarrow> bool \<Rightarrow> bytes" where
  "send_key ks is_initiator = (if is_initiator then initiator_to_responder ks else responder_to_initiator ks)"

definition recv_key :: "traffic_keys \<Rightarrow> bool \<Rightarrow> bytes" where
  "recv_key ks is_initiator = (if is_initiator then responder_to_initiator ks else initiator_to_responder ks)"

record handshake_result =
  hr_traffic_keys :: traffic_keys
  hr_transcript_hash :: bytes
  hr_remote_static_pubkey :: bytes
  hr_is_initiator :: bool

record symmetric_state =
  ss_h :: bytes
  ss_ck :: bytes
  ss_k :: "bytes option"
  ss_n :: u64

definition symmetric_new :: symmetric_state where
  "symmetric_new = \<lparr>ss_h = PROTOCOL_NAME, ss_ck = PROTOCOL_NAME, ss_k = None, ss_n = 0\<rparr>"

definition mix_hash :: "primitives \<Rightarrow> symmetric_state \<Rightarrow> bytes \<Rightarrow> symmetric_state" where
  "mix_hash P s data = s\<lparr>ss_h := sha256 P (ss_h s @ data)\<rparr>"

definition mix_key :: "primitives \<Rightarrow> symmetric_state \<Rightarrow> bytes \<Rightarrow> symmetric_state" where
  "mix_key P s ikm =
     (let okm = hkdf P (Some (ss_ck s)) ikm [] 64
      in s\<lparr>ss_ck := take 32 okm, ss_k := Some (drop 32 okm), ss_n := 0\<rparr>)"

definition nonce_from_counter :: "u64 \<Rightarrow> bytes" where
  "nonce_from_counter n = [0, 0, 0, 0] @ to_le_bytes 8 n"

definition encrypt_and_hash :: "primitives \<Rightarrow> symmetric_state \<Rightarrow> bytes \<Rightarrow> bytes \<times> symmetric_state" where
  "encrypt_and_hash P s plaintext =
     (case ss_k s of
        Some k \<Rightarrow>
          (let c = aead_seal P k (nonce_from_counter (ss_n s)) (ss_h s) plaintext
           in (c, mix_hash P (s\<lparr>ss_n := ss_n s + 1\<rparr>) c))
      | None \<Rightarrow> (plaintext, mix_hash P s plaintext))"

definition decrypt_and_hash :: "primitives \<Rightarrow> symmetric_state \<Rightarrow> bytes \<Rightarrow> handshake_error + bytes \<times> symmetric_state" where
  "decrypt_and_hash P s ciphertext =
     (case ss_k s of
        Some k \<Rightarrow>
          (case aead_open P k (nonce_from_counter (ss_n s)) (ss_h s) ciphertext of
             None \<Rightarrow> Inl DecryptionFailed
           | Some p \<Rightarrow> Inr (p, mix_hash P (s\<lparr>ss_n := ss_n s + 1\<rparr>) ciphertext))
      | None \<Rightarrow> Inr (ciphertext, mix_hash P s ciphertext))"

definition symmetric_split :: "primitives \<Rightarrow> symmetric_state \<Rightarrow> bytes \<times> bytes" where
  "symmetric_split P s = (let okm = hkdf P (Some (ss_ck s)) [] [] 64 in (take 32 okm, drop 32 okm))"

section \<open>Initiator and responder\<close>

record noise_ik_initiator =
  ni_state :: symmetric_state
  ni_e_secret :: bytes
  ni_remote_s_pub :: bytes

definition initiator_new ::
  "primitives \<Rightarrow> bytes \<Rightarrow> static_keypair \<Rightarrow> bytes \<Rightarrow> rust_str \<Rightarrow> noise_ik_initiator \<times> bytes" where
  "initiator_new P e_secret local_static remote_static_pubkey session_code =
     (let s = mix_hash P symmetric_new (str_as_bytes session_code);
          s = mix_hash P s remote_static_pubkey;
          e_pub = pub_from_priv P e_secret;
          s = mix_hash P s e_pub;
          s = mix_key P s (dh P e_secret remote_static_pubkey);
          (enc_s, s) = encrypt_and_hash P s (sk_public local_static);
          s = mix_key P s (keypair_dh P local_static remote_static_pubkey);
          (enc_payload, s) = encrypt_and_hash P s []
      in (\<lparr>ni_state = s, ni_e_secret = e_secret, ni_remote_s_pub = remote_static_pubkey\<rparr>, e_pub @ enc_s @ enc_payload))"

definition receive_message2 ::
  "primitives \<Rightarrow> noise_ik_initiator \<Rightarrow> static_keypair \<Rightarrow> bytes \<Rightarrow> handshake_error + handshake_result" where
  "receive_message2 P i local_static msg2 =
     (if length msg2 \<noteq> MSG2_LEN then Inl (BadMessageLength MSG2_LEN (length msg2))
      else let resp_e_pub = take 32 msg2;
               s = mix_hash P (ni_state i) resp_e_pub;
               s = mix_key P s (dh P (ni_e_secret i) resp_e_pub);
               s = mix_key P s (keypair_dh P local_static resp_e_pub)
           in (case decrypt_and_hash P s (drop 32 msg2) of
                 Inl e \<Rightarrow> Inl e
               | Inr (_, s) \<Rightarrow>
                   (let (k1, k2) = symmetric_split P s
                    in Inr \<lparr>hr_traffic_keys = \<lparr>initiator_to_responder = k1, responder_to_initiator = k2\<rparr>,
                            hr_transcript_hash = ss_h s, hr_remote_static_pubkey = ni_remote_s_pub i, hr_is_initiator = True\<rparr>)))"

record noise_ik_responder =
  nr_state :: symmetric_state
  nr_init_e_pub :: bytes
  nr_init_s_pub :: bytes

definition receive_message1 ::
  "primitives \<Rightarrow> static_keypair \<Rightarrow> rust_str \<Rightarrow> bytes \<Rightarrow> handshake_error + noise_ik_responder" where
  "receive_message1 P local_static session_code msg1 =
     (if length msg1 \<noteq> MSG1_LEN then Inl (BadMessageLength MSG1_LEN (length msg1))
      else let s = mix_hash P symmetric_new (str_as_bytes session_code);
               s = mix_hash P s (sk_public local_static);
               init_e_pub = take 32 msg1;
               s = mix_hash P s init_e_pub;
               s = mix_key P s (keypair_dh P local_static init_e_pub)
           in (case decrypt_and_hash P s (take 48 (drop 32 msg1)) of
                 Inl e \<Rightarrow> Inl e
               | Inr (init_s_pub, s) \<Rightarrow>
                   if length init_s_pub \<noteq> 32 then Inl DecryptionFailed
                   else let s = mix_key P s (keypair_dh P local_static init_s_pub)
                        in (case decrypt_and_hash P s (drop 80 msg1) of
                              Inl e \<Rightarrow> Inl e
                            | Inr (_, s) \<Rightarrow>
                                Inr \<lparr>nr_state = s, nr_init_e_pub = init_e_pub, nr_init_s_pub = init_s_pub\<rparr>)))"

definition send_message2 :: "primitives \<Rightarrow> bytes \<Rightarrow> noise_ik_responder \<Rightarrow> handshake_result \<times> bytes" where
  "send_message2 P e_secret r =
     (let e_pub = pub_from_priv P e_secret;
          s = mix_hash P (nr_state r) e_pub;
          s = mix_key P s (dh P e_secret (nr_init_e_pub r));
          s = mix_key P s (dh P e_secret (nr_init_s_pub r));
          (enc_payload, s) = encrypt_and_hash P s [];
          (k1, k2) = symmetric_split P s
      in (\<lparr>hr_traffic_keys = \<lparr>initiator_to_responder = k1, responder_to_initiator = k2\<rparr>,
           hr_transcript_hash = ss_h s, hr_remote_static_pubkey = nr_init_s_pub r, hr_is_initiator = False\<rparr>,
          e_pub @ enc_payload))"

lemmas symmetric_defs = mix_hash_def mix_key_def encrypt_and_hash_def decrypt_and_hash_def symmetric_split_def Let_def

section \<open>Ephemeral key exchange\<close>

definition HKDF_INFO :: bytes where
  "HKDF_INFO = [108, 111, 119, 98, 97, 110, 100, 32, 118, 49, 32, 116, 114, 97, 102, 102, 105, 99, 32, 107, 101, 121, 115]"

record session_state =
  st_traffic_keys :: traffic_keys
  st_local_public_key :: bytes
  st_peer_public_key :: bytes
  st_is_initiator :: bool

text \<open>Arrays of bytes are compared lexicographically.\<close>

fun bytes_less :: "bytes \<Rightarrow> bytes \<Rightarrow> bool" where
  "bytes_less [] [] = False"
| "bytes_less [] (b # bs) = True"
| "bytes_less (a # as) [] = False"
| "bytes_less (a # as) (b # bs) = (a < b \<or> a = b \<and> bytes_less as bs)"

definition derive_session_state :: "primitives \<Rightarrow> bytes \<Rightarrow> bytes \<Rightarrow> session_state" where
  "derive_session_state P secret peer_pub =
     (let local_pub = pub_from_priv P secret;
          okm = hkdf P None (x25519 P secret peer_pub) HKDF_INFO 64
      in \<lparr>st_traffic_keys = \<lparr>initiator_to_responder = take 32 okm, responder_to_initiator = drop 32 okm\<rparr>,
          st_local_public_key = local_pub, st_peer_public_key = peer_pub, st_is_initiator = bytes_less local_pub peer_pub\<rparr>)"

section \<open>Agreement\<close>

lemma aead_open_seal: "prim_ok P \<Longrightarrow> aead_open P k n ad (aead_seal P k n ad p) = Some p"
  by (simp add: prim_laws(6))

lemma aead_open_SomeD: "prim_ok P \<Longrightarrow> aead_open P k n ad c = Some p \<Longrightarrow> c = aead_seal P k n ad p"
  by (simp add: prim_laws(6))

lemma decrypt_encrypt:
  "prim_ok P \<Longrightarrow> encrypt_and_hash P s p = (c, s') \<Longrightarrow> decrypt_and_hash P s c = Inr (p, s')"
  by (auto simp: encrypt_and_hash_def decrypt_and_hash_def aead_open_seal Let_def split: option.splits)

lemma decrypt_iff:
  "prim_ok P \<Longrightarrow> ss_k s \<noteq> None \<Longrightarrow> decrypt_and_hash P s c = Inr (p, s') \<longleftrightarrow> encrypt_and_hash P s p = (c, s')"
  using decrypt_encrypt [of P s p c s']
  by (auto simp: encrypt_and_hash_def decrypt_and_hash_def Let_def dest: aead_open_SomeD split: option.splits)

lemma encrypt_length: "prim_ok P \<Longrightarrow> ss_k s \<noteq> None \<Longrightarrow> encrypt_and_hash P s p = (c, s') \<Longrightarrow> length c = length p + 16"
  by (auto simp: encrypt_and_hash_def prim_laws Let_def split: option.splits)

lemma mix_key_keyed [simp]: "ss_k (mix_key P s x) \<noteq> None"
  by (simp add: mix_key_def Let_def)

text \<open>
  The first message as it depends on the two exchanges, the state before the second exchange
  and the one at its end; both sides compute it, each from its own secrets.
\<close>

definition msg1_state :: "primitives \<Rightarrow> rust_str \<Rightarrow> bytes \<Rightarrow> bytes \<Rightarrow> bytes \<Rightarrow> symmetric_state" where
  "msg1_state P code resp_pub e_pub es =
     mix_key P (mix_hash P (mix_hash P (mix_hash P symmetric_new (str_as_bytes code)) resp_pub) e_pub) es"

definition msg1_body :: "primitives \<Rightarrow> symmetric_state \<Rightarrow> bytes \<Rightarrow> bytes \<Rightarrow> bytes \<times> bytes \<times> symmetric_state" where
  "msg1_body P s s_pub ss =
     (case encrypt_and_hash P s s_pub of
        (c1, s) \<Rightarrow> (case encrypt_and_hash P (mix_key P s ss) [] of (c2, s) \<Rightarrow> (c1, c2, s)))"

lemma initiator_msg1:
  "initiator_new P e kp resp_pub code =
     (case msg1_body P (msg1_state P code resp_pub (pub_from_priv P e) (dh P e resp_pub)) (sk_public kp) (keypair_dh P kp resp_pub) of
        (c1, c2, s) \<Rightarrow> (\<lparr>ni_state = s, ni_e_secret = e, ni_remote_s_pub = resp_pub\<rparr>, pub_from_priv P e @ c1 @ c2))"
  by (simp add: initiator_new_def msg1_body_def msg1_state_def Let_def split_def)

text \<open>A responder accepts exactly the messages of that shape, and learns the static key inside.\<close>

lemma receive_message1_iff:
  assumes "prim_ok P"
  shows "receive_message1 P kp code msg = Inr r \<longleftrightarrow>
    (\<exists>e_pub s_pub c1 c2 s. length e_pub = 32 \<and> length s_pub = 32 \<and> msg = e_pub @ c1 @ c2 \<and>
       msg1_body P (msg1_state P code (sk_public kp) e_pub (keypair_dh P kp e_pub)) s_pub (keypair_dh P kp s_pub) = (c1, c2, s) \<and>
       r = \<lparr>nr_state = s, nr_init_e_pub = e_pub, nr_init_s_pub = s_pub\<rparr>)" (is "?L \<longleftrightarrow> ?R")
proof
  assume ?L
  let ?s = "msg1_state P code (sk_public kp) (take 32 msg) (keypair_dh P kp (take 32 msg))"
  have len: "length msg = 96" using \<open>?L\<close> by (simp add: receive_message1_def MSG1_LEN_def split: if_splits)
  obtain s_pub s1 where d1: "decrypt_and_hash P ?s (take 48 (drop 32 msg)) = Inr (s_pub, s1)" "length s_pub = 32"
    and "\<exists>p s. decrypt_and_hash P (mix_key P s1 (keypair_dh P kp s_pub)) (drop 80 msg) = Inr (p, s) \<and>
      r = \<lparr>nr_state = s, nr_init_e_pub = take 32 msg, nr_init_s_pub = s_pub\<rparr>"
    using \<open>?L\<close> by (auto simp: receive_message1_def msg1_state_def Let_def split: if_splits sum.splits prod.splits)
  then obtain p s where d2: "decrypt_and_hash P (mix_key P s1 (keypair_dh P kp s_pub)) (drop 80 msg) = Inr (p, s)"
      "r = \<lparr>nr_state = s, nr_init_e_pub = take 32 msg, nr_init_s_pub = s_pub\<rparr>" by blast
  have e1: "encrypt_and_hash P ?s s_pub = (take 48 (drop 32 msg), s1)"
    using d1(1) decrypt_iff [OF assms] by (simp add: msg1_state_def)
  have e2: "encrypt_and_hash P (mix_key P s1 (keypair_dh P kp s_pub)) p = (drop 80 msg, s)"
    using d2(1) decrypt_iff [OF assms] by simp
  from encrypt_length [OF assms _ e2] len have "p = []" by simp
  then have "msg1_body P ?s s_pub (keypair_dh P kp s_pub) = (take 48 (drop 32 msg), drop 80 msg, s)"
    using e1 e2 by (simp add: msg1_body_def)
  moreover have "msg = take 32 msg @ take 48 (drop 32 msg) @ drop 80 msg"
  proof -
    have "drop 80 msg = drop 48 (drop 32 msg)" by simp
    then show ?thesis by (simp only: append_take_drop_id)
  qed
  ultimately show ?R using len d1(2) d2(2) by (intro exI [of _ "take 32 msg"] exI [of _ s_pub] exI) auto
next
  assume ?R
  then obtain e_pub s_pub c1 c2 s where r: "length e_pub = 32" "length s_pub = 32" "msg = e_pub @ c1 @ c2"
    "msg1_body P (msg1_state P code (sk_public kp) e_pub (keypair_dh P kp e_pub)) s_pub (keypair_dh P kp s_pub) = (c1, c2, s)"
    "r = \<lparr>nr_state = s, nr_init_e_pub = e_pub, nr_init_s_pub = s_pub\<rparr>" by blast
  let ?s = "msg1_state P code (sk_public kp) e_pub (keypair_dh P kp e_pub)"
  obtain s1 where e1: "encrypt_and_hash P ?s s_pub = (c1, s1)"
    and e2: "encrypt_and_hash P (mix_key P s1 (keypair_dh P kp s_pub)) [] = (c2, s)"
    using r(4) by (auto simp: msg1_body_def split: prod.splits)
  have len: "length c1 = 48" "length c2 = 16"
    using encrypt_length [OF assms _ e1] encrypt_length [OF assms _ e2] r(2) by (simp_all add: msg1_state_def)
  have "take 32 msg = e_pub" "take 48 (drop 32 msg) = c1" "drop 80 msg = c2" "length msg = 96"
    using r(1,3) len by simp_all
  then show ?L
    using decrypt_encrypt [OF assms e1] decrypt_encrypt [OF assms e2] r(2,5)
    by (simp add: receive_message1_def MSG1_LEN_def Let_def msg1_state_def)
qed

lemma shared_secret: "prim_ok P \<Longrightarrow> dh P a (pub_from_priv P b) = dh P b (pub_from_priv P a)"
  by (simp add: dh_def pub_from_priv_def prim_laws(1))

text \<open>
  The handshake completes and agrees. Between an initiator and a responder with any static
  and ephemeral secrets and the same session code, the responder accepts the first message and
  the initiator the second; both end with the same two traffic keys and the same transcript hash,
  each holds the other's static public key, and what one side sends with is what the other
  receives with. The messages have 96 and 48 bytes.
\<close>

lemma handshake_agrees:
  assumes "prim_ok P" "kp_i = keypair_generate P a" "kp_r = keypair_generate P b"
    and "initiator_new P e kp_i (sk_public kp_r) code = (ini, msg1)"
  shows "\<exists>r. receive_message1 P kp_r code msg1 = Inr r \<and>
    (\<forall>res_r msg2. send_message2 P f r = (res_r, msg2) \<longrightarrow>
      (\<exists>res_i. receive_message2 P ini kp_i msg2 = Inr res_i \<and>
         hr_traffic_keys res_i = hr_traffic_keys res_r \<and> hr_transcript_hash res_i = hr_transcript_hash res_r \<and>
         hr_remote_static_pubkey res_i = sk_public kp_r \<and> hr_remote_static_pubkey res_r = sk_public kp_i \<and>
         send_key (hr_traffic_keys res_i) (hr_is_initiator res_i) = recv_key (hr_traffic_keys res_r) (hr_is_initiator res_r) \<and>
         send_key (hr_traffic_keys res_r) (hr_is_initiator res_r) = recv_key (hr_traffic_keys res_i) (hr_is_initiator res_i) \<and>
         length msg1 = 96 \<and> length msg2 = 48))"
proof -
  have pub: "sk_public kp_i = pub_from_priv P a" "sk_public kp_r = pub_from_priv P b"
    "sk_secret kp_i = a" "sk_secret kp_r = b" using assms(2,3) by (simp_all add: keypair_generate_def)
  have pl: "length (pub_from_priv P x) = 32" for x by (simp add: pub_from_priv_def prim_laws(2) [OF assms(1)])
  obtain c1 c2 s where body: "msg1_body P (msg1_state P code (sk_public kp_r) (pub_from_priv P e) (dh P e (sk_public kp_r)))
      (sk_public kp_i) (keypair_dh P kp_i (sk_public kp_r)) = (c1, c2, s)" by (metis prod_cases3)
  have ini: "ini = \<lparr>ni_state = s, ni_e_secret = e, ni_remote_s_pub = sk_public kp_r\<rparr>" "msg1 = pub_from_priv P e @ c1 @ c2"
    using assms(4) body by (auto simp: initiator_msg1)
  have dhs: "dh P e (sk_public kp_r) = keypair_dh P kp_r (pub_from_priv P e)"
    "keypair_dh P kp_i (sk_public kp_r) = keypair_dh P kp_r (sk_public kp_i)"
    using shared_secret [OF assms(1)] by (simp_all add: keypair_dh_def pub)
  let ?r = "\<lparr>nr_state = s, nr_init_e_pub = pub_from_priv P e, nr_init_s_pub = sk_public kp_i\<rparr>"
  have acc: "receive_message1 P kp_r code msg1 = Inr ?r"
    unfolding receive_message1_iff [OF assms(1)] using body ini(2) pl pub(1) dhs by metis
  then have len1: "length msg1 = 96" by (simp add: receive_message1_def MSG1_LEN_def split: if_splits)
  let ?s = "mix_key P (mix_key P (mix_hash P s (pub_from_priv P f)) (dh P f (pub_from_priv P e))) (dh P f (sk_public kp_i))"
  obtain c3 s3 where enc: "encrypt_and_hash P ?s [] = (c3, s3)" by fastforce
  have len3: "length c3 = 16" using encrypt_length [OF assms(1) _ enc] by simp
  have states: "mix_key P (mix_key P (mix_hash P s (pub_from_priv P f)) (dh P e (pub_from_priv P f))) (keypair_dh P kp_i (pub_from_priv P f)) = ?s"
    using shared_secret [OF assms(1)] by (simp add: keypair_dh_def pub)
  have send: "send_message2 P f ?r = (res_r, msg2) \<Longrightarrow> msg2 = pub_from_priv P f @ c3 \<and>
      res_r = \<lparr>hr_traffic_keys = \<lparr>initiator_to_responder = fst (symmetric_split P s3), responder_to_initiator = snd (symmetric_split P s3)\<rparr>,
        hr_transcript_hash = ss_h s3, hr_remote_static_pubkey = sk_public kp_i, hr_is_initiator = False\<rparr>" for res_r msg2
    by (simp add: send_message2_def enc Let_def split_def)
  have recv: "receive_message2 P ini kp_i (pub_from_priv P f @ c3) =
      Inr \<lparr>hr_traffic_keys = \<lparr>initiator_to_responder = fst (symmetric_split P s3), responder_to_initiator = snd (symmetric_split P s3)\<rparr>,
        hr_transcript_hash = ss_h s3, hr_remote_static_pubkey = sk_public kp_r, hr_is_initiator = True\<rparr>"
    using decrypt_encrypt [OF assms(1) enc]
    by (simp add: receive_message2_def MSG2_LEN_def Let_def split_def pl len3 ini(1) states)
  show ?thesis
    using acc recv send len1 len3 pl by (intro exI [of _ ?r]) (auto simp: send_key_def recv_key_def)
qed

text \<open>Primitives with the required algebra, for the examples only: sums of bytes and a constant tag.\<close>

definition pad32 :: "bytes \<Rightarrow> bytes" where
  "pad32 xs = take 32 (xs @ replicate 32 0)"

definition sample_prim :: primitives where
  "sample_prim =
     \<lparr>x25519 = (\<lambda>a y. map2 (+) (pad32 a) (pad32 y)), basepoint = replicate 32 0,
      sha256 = pad32, hkdf = (\<lambda>_ ikm _ n. take n (ikm @ replicate n 0)),
      aead_seal = (\<lambda>k n ad p. p @ replicate 16 0),
      aead_open = (\<lambda>k n ad c. if 16 \<le> length c \<and> drop (length c - 16) c = replicate 16 0
                                then Some (take (length c - 16) c) else None)\<rparr>"

lemma length_pad32 [simp]: "length (pad32 xs) = 32"
  by (simp add: pad32_def)

lemma map2_add_assoc: "map2 (+) xs (map2 (+) ys zs) = map2 (+) ys (map2 (+) xs (zs :: bytes))"
  if "length xs = length zs" "length ys = length zs"
proof (rule nth_equalityI)
  show "length (map2 (+) xs (map2 (+) ys zs)) = length (map2 (+) ys (map2 (+) xs zs))" using that by simp
next
  fix i assume "i < length (map2 (+) xs (map2 (+) ys zs))"
  then show "map2 (+) xs (map2 (+) ys zs) ! i = map2 (+) ys (map2 (+) xs zs) ! i" using that by (simp add: add.left_commute)
qed

lemma sample_prim_ok: "prim_ok sample_prim"
proof -
  have pad: "pad32 xs = xs" if "length xs = 32" for xs using that by (simp add: pad32_def)
  have "(if 16 \<le> length c \<and> drop (length c - 16) c = replicate 16 0 then Some (take (length c - 16) c) else None) = Some p
      \<longleftrightarrow> c = p @ replicate 16 (0 :: u8)" for c p
    by (auto simp: append_eq_conv_conj) (metis append_take_drop_id)
  then show ?thesis
    by (auto simp: prim_ok_def sample_prim_def pad map2_add_assoc min_def)
qed

text \<open>
  Two peers that exchange ephemeral keys derive the same traffic keys; exactly one is the
  initiator, unless the two public keys are equal: then neither is, both would send with the same key.
\<close>

lemma bytes_less_total: "length xs = length ys \<Longrightarrow> xs \<noteq> ys \<Longrightarrow> bytes_less xs ys \<longleftrightarrow> \<not> bytes_less ys xs"
  by (induction xs ys rule: list_induct2) auto

lemma bytes_less_irrefl [simp]: "\<not> bytes_less xs xs"
  by (induction xs) auto

lemma derive_session_state_agrees:
  assumes "prim_ok P" "sa = derive_session_state P a (pub_from_priv P b)" "sb = derive_session_state P b (pub_from_priv P a)"
  shows "st_traffic_keys sa = st_traffic_keys sb"
    and "st_local_public_key sa = st_peer_public_key sb \<and> st_local_public_key sb = st_peer_public_key sa"
    and "pub_from_priv P a \<noteq> pub_from_priv P b \<Longrightarrow>
      send_key (st_traffic_keys sa) (st_is_initiator sa) = recv_key (st_traffic_keys sb) (st_is_initiator sb)"
    and "pub_from_priv P a = pub_from_priv P b \<Longrightarrow> \<not> st_is_initiator sa \<and> \<not> st_is_initiator sb"
proof -
  have x: "x25519 P a (pub_from_priv P b) = x25519 P b (pub_from_priv P a)"
    by (simp add: pub_from_priv_def prim_laws(1) [OF assms(1)])
  then show k: "st_traffic_keys sa = st_traffic_keys sb" by (simp add: assms(2,3) derive_session_state_def Let_def)
  show "st_local_public_key sa = st_peer_public_key sb \<and> st_local_public_key sb = st_peer_public_key sa"
    by (simp add: assms(2,3) derive_session_state_def Let_def)
  show "pub_from_priv P a \<noteq> pub_from_priv P b \<Longrightarrow>
      send_key (st_traffic_keys sa) (st_is_initiator sa) = recv_key (st_traffic_keys sb) (st_is_initiator sb)"
    using bytes_less_total [of "pub_from_priv P a" "pub_from_priv P b"]
    by (simp add: k send_key_def recv_key_def)
      (simp add: assms(2,3) derive_session_state_def Let_def pub_from_priv_def prim_laws(2) [OF assms(1)])
  show "pub_from_priv P a = pub_from_priv P b \<Longrightarrow> \<not> st_is_initiator sa \<and> \<not> st_is_initiator sb"
    by (simp add: assms(2,3) derive_session_state_def Let_def)
qed

section \<open>What a message is bound to\<close>

definition sha_collision :: "primitives \<Rightarrow> bytes \<Rightarrow> bytes \<Rightarrow> bool" where
  "sha_collision P x y \<longleftrightarrow> x \<noteq> y \<and> sha256 P x = sha256 P y"

text \<open>The transcript before the first key: code, responder key and ephemeral key.\<close>

definition transcript1 :: "primitives \<Rightarrow> rust_str \<Rightarrow> bytes" where
  "transcript1 P code = sha256 P (PROTOCOL_NAME @ str_as_bytes code)"

definition transcript2 :: "primitives \<Rightarrow> rust_str \<Rightarrow> bytes \<Rightarrow> bytes" where
  "transcript2 P code resp_pub = sha256 P (transcript1 P code @ resp_pub)"

definition transcript3 :: "primitives \<Rightarrow> rust_str \<Rightarrow> bytes \<Rightarrow> bytes \<Rightarrow> bytes" where
  "transcript3 P code resp_pub e_pub = sha256 P (transcript2 P code resp_pub @ e_pub)"

text \<open>The first key of a message, from the exchange of the ephemeral key.\<close>

definition first_key :: "primitives \<Rightarrow> bytes \<Rightarrow> bytes" where
  "first_key P es = drop 32 (hkdf P (Some PROTOCOL_NAME) es [] 64)"

lemma transcript_binds:
  assumes "prim_ok P" "valid_str code" "valid_str code'" "transcript3 P code pub e = transcript3 P code' pub' e"
  shows "code = code' \<and> pub = pub' \<or>
    sha_collision P (PROTOCOL_NAME @ str_as_bytes code) (PROTOCOL_NAME @ str_as_bytes code') \<or>
    sha_collision P (transcript1 P code @ pub) (transcript1 P code' @ pub') \<or>
    sha_collision P (transcript2 P code pub @ e) (transcript2 P code' pub' @ e)"
proof -
  have "str_as_bytes code = str_as_bytes code' \<Longrightarrow> code = code'"
    using assms(2,3) by (metis option.inject str_from_utf8_as_bytes)
  moreover have "length (transcript1 P c) = 32" for c by (simp add: transcript1_def prim_laws [OF assms(1)])
  ultimately show ?thesis
    using assms(4) unfolding sha_collision_def transcript1_def transcript2_def transcript3_def
    by (metis append_eq_append_conv same_append_eq)
qed

lemma msg1_body_lengths:
  assumes "prim_ok P" "msg1_body P (msg1_state P code pub e es) s_pub ss = (c1, c2, s)"
  shows "length c2 = 16"
  using assms(2) by (auto simp: msg1_body_def split: prod.splits dest!: encrypt_length [OF assms(1) mix_key_keyed])

lemma msg1_sealed_key:
  "fst (msg1_body P (msg1_state P code pub e es) s_pub ss) =
     aead_seal P (first_key P es) (nonce_from_counter 0) (transcript3 P code pub e) s_pub"
  by (simp add: msg1_body_def msg1_state_def symmetric_defs symmetric_new_def first_key_def transcript1_def
      transcript2_def transcript3_def split_def)

text \<open>
  C20: The first message is bound to the session code and the responder. If a responder accepts
  the first message that some initiator made for a session code and a responder key, then code
  and key are its own, or the hash collides at one of three pairs of transcripts, or
  the cipher gives the same sealed text for two different associated data: the initiator's transcript
  under its key and the responder's under its own.
\<close>

theorem message1_bound_to_session:
  assumes "prim_ok P" "valid_str code" "valid_str code'"
    and "initiator_new P e kp_i resp_pub code = (ini, msg1)" "receive_message1 P kp_r code' msg1 = Inr r"
  shows "code = code' \<and> resp_pub = sk_public kp_r \<or>
    sha_collision P (PROTOCOL_NAME @ str_as_bytes code) (PROTOCOL_NAME @ str_as_bytes code') \<or>
    sha_collision P (transcript1 P code @ resp_pub) (transcript1 P code' @ sk_public kp_r) \<or>
    sha_collision P (transcript2 P code resp_pub @ pub_from_priv P e) (transcript2 P code' (sk_public kp_r) @ pub_from_priv P e) \<or>
    transcript3 P code resp_pub (pub_from_priv P e) \<noteq> transcript3 P code' (sk_public kp_r) (pub_from_priv P e) \<and>
    aead_seal P (first_key P (dh P e resp_pub)) (nonce_from_counter 0)
        (transcript3 P code resp_pub (pub_from_priv P e)) (sk_public kp_i) =
      aead_seal P (first_key P (keypair_dh P kp_r (pub_from_priv P e))) (nonce_from_counter 0)
        (transcript3 P code' (sk_public kp_r) (pub_from_priv P e)) (nr_init_s_pub r)"
proof -
  let ?e = "pub_from_priv P e"
  have pl: "length ?e = 32" by (simp add: pub_from_priv_def prim_laws(2) [OF assms(1)])
  obtain e_pub s_pub c1 c2 s where r: "length e_pub = 32" "length s_pub = 32" "msg1 = e_pub @ c1 @ c2"
    "msg1_body P (msg1_state P code' (sk_public kp_r) e_pub (keypair_dh P kp_r e_pub)) s_pub (keypair_dh P kp_r s_pub) = (c1, c2, s)"
    "r = \<lparr>nr_state = s, nr_init_e_pub = e_pub, nr_init_s_pub = s_pub\<rparr>"
    using assms(5) unfolding receive_message1_iff [OF assms(1)] by blast
  obtain d1 d2 t where i: "msg1 = ?e @ d1 @ d2"
    "msg1_body P (msg1_state P code resp_pub ?e (dh P e resp_pub)) (sk_public kp_i) (keypair_dh P kp_i resp_pub) = (d1, d2, t)"
    using assms(4) by (auto simp: initiator_msg1 split: prod.splits)
  have e: "e_pub = ?e" "c1 @ c2 = d1 @ d2" using r(1,3) i(1) pl by simp_all
  have "length c2 = length d2"
    using msg1_body_lengths [OF assms(1)] r(4) i(2) by metis
  then have "c1 = d1" using e(2) by simp
  then have "aead_seal P (first_key P (dh P e resp_pub)) (nonce_from_counter 0) (transcript3 P code resp_pub ?e) (sk_public kp_i) =
      aead_seal P (first_key P (keypair_dh P kp_r ?e)) (nonce_from_counter 0) (transcript3 P code' (sk_public kp_r) ?e) (nr_init_s_pub r)"
    using msg1_sealed_key [of P code' "sk_public kp_r" e_pub "keypair_dh P kp_r e_pub" s_pub "keypair_dh P kp_r s_pub"]
      msg1_sealed_key [of P code resp_pub ?e "dh P e resp_pub" "sk_public kp_i" "keypair_dh P kp_i resp_pub"] r(4,5) i(2) e(1)
    by simp
  then show ?thesis using transcript_binds [OF assms(1-3)] by metis
qed

text \<open>With the sample primitives, whose cipher ignores the associated data, a message for another code is accepted.\<close>

theorem message1_bound_to_session_witness:
  "\<exists>r. receive_message1 sample_prim (keypair_generate sample_prim [2]) [50]
        (snd (initiator_new sample_prim [3] (keypair_generate sample_prim [1]) (sk_public (keypair_generate sample_prim [2])) [49])) = Inr r \<and>
     (sha_collision sample_prim (PROTOCOL_NAME @ str_as_bytes [49]) (PROTOCOL_NAME @ str_as_bytes [50]) \<or>
      sha_collision sample_prim (transcript1 sample_prim [49] @ sk_public (keypair_generate sample_prim [2]))
        (transcript1 sample_prim [50] @ sk_public (keypair_generate sample_prim [2])) \<or>
      sha_collision sample_prim (transcript2 sample_prim [49] (sk_public (keypair_generate sample_prim [2])) @ pub_from_priv sample_prim [3])
        (transcript2 sample_prim [50] (sk_public (keypair_generate sample_prim [2])) @ pub_from_priv sample_prim [3]) \<or>
      transcript3 sample_prim [49] (sk_public (keypair_generate sample_prim [2])) (pub_from_priv sample_prim [3]) \<noteq>
        transcript3 sample_prim [50] (sk_public (keypair_generate sample_prim [2])) (pub_from_priv sample_prim [3]))"
proof -
  let ?kr = "keypair_generate sample_prim [2]"
  let ?im = "initiator_new sample_prim [3] (keypair_generate sample_prim [1]) (sk_public ?kr) [49]"
  have "\<not> isl (receive_message1 sample_prim ?kr [50] (snd ?im))" by code_simp
  then obtain r where r: "receive_message1 sample_prim ?kr [50] (snd ?im) = Inr r" by (cases "receive_message1 sample_prim ?kr [50] (snd ?im)") auto
  have v: "valid_str [49]" "valid_str [50]" by (simp_all add: valid_str_def valid_char_def)
  have "?im = (fst ?im, snd ?im)" by simp
  from message1_bound_to_session [OF sample_prim_ok v this r] r show ?thesis by auto
qed

end
