(* ===== verification/Secure_Session.thy ===== *)
theory Secure_Session
  imports Noise Turn_Relay Dataplane File_Transfer
begin

text \<open>
  Datagram encryption (\<open>core/crypto/src/relay_guard.rs\<close>) and the encrypted session over a UDP
  socket (\<open>core/crypto/src/udp_session.rs\<close>), on the handshake of \<open>Noise\<close>. A socket is the list
  of what its receive calls will see, the outcomes of its send calls and the datagrams it has
  sent; the clock is an argument. A receive call with a buffer of \<open>n\<close> bytes drops the rest of
  a longer datagram.

  Over a network that delays, reorders, drops, repeats and invents datagrams, a session returns a
  message only for a datagram the peer has sealed or for a forged one, and returns the right one for every
  datagram that fits the receive buffer, every time it arrives. Two consequences are stated on
  the layers above: a repeated datagram is delivered again, and the offer of a file of more than
  253 fragments never arrives.
\<close>

section \<open>Datagram cipher\<close>

definition TRAFFIC_KEY_DATAGRAM_LIMIT :: u64 where
  "TRAFFIC_KEY_DATAGRAM_LIMIT = push_bit 30 1"

text \<open>In nanoseconds.\<close>

definition TRAFFIC_KEY_MAX_AGE :: nat where
  "TRAFFIC_KEY_MAX_AGE = 15 * 60 * 1000000000"

definition RELAY_GUARD_OVERHEAD_BYTES :: nat where
  "RELAY_GUARD_OVERHEAD_BYTES = 28"

text \<open>The private field makes \<open>seal\<close> the only source of a payload outside this module.\<close>

datatype relay_payload = RelayPayload (payload_bytes: bytes)

definition payload_len :: "relay_payload \<Rightarrow> nat" where
  "payload_len p = length (payload_bytes p)"

definition payload_is_empty :: "relay_payload \<Rightarrow> bool" where
  "payload_is_empty p \<longleftrightarrow> payload_bytes p = []"

record datagram_cipher =
  dc_key :: bytes
  dc_counter :: u64
  dc_born_at :: nat

definition cipher_new :: "nat \<Rightarrow> bytes \<Rightarrow> datagram_cipher" where
  "cipher_new now key = \<lparr>dc_key = key, dc_counter = 0, dc_born_at = now\<rparr>"

text \<open>\<open>elapsed\<close> is zero for an instant in the future.\<close>

definition cipher_needs_rekey :: "nat \<Rightarrow> datagram_cipher \<Rightarrow> bool" where
  "cipher_needs_rekey now c \<longleftrightarrow>
     TRAFFIC_KEY_DATAGRAM_LIMIT \<le> dc_counter c \<or> TRAFFIC_KEY_MAX_AGE \<le> now - dc_born_at c"

definition rotate_key :: "nat \<Rightarrow> bytes \<Rightarrow> datagram_cipher \<Rightarrow> datagram_cipher" where
  "rotate_key now new_key c = c\<lparr>dc_key := new_key, dc_counter := 0, dc_born_at := now\<rparr>"

definition nonce_bytes :: "datagram_cipher \<Rightarrow> bytes" where
  "nonce_bytes c = replicate 4 0 @ to_le_bytes 8 (dc_counter c)"

text \<open>\<open>None\<close> is the panic of \<open>counter += 1\<close> at \<open>u64::MAX\<close> in a build with overflow checks.\<close>

definition seal :: "primitives \<Rightarrow> bool \<Rightarrow> datagram_cipher \<Rightarrow> bytes \<Rightarrow> (relay_payload \<times> datagram_cipher) option" where
  "seal P overflow_checks c plaintext =
     (let nonce = nonce_bytes c
      in if overflow_checks \<and> dc_counter c = - 1 then None
         else Some (RelayPayload (nonce @ aead_seal P (dc_key c) nonce [] plaintext),
                    c\<lparr>dc_counter := dc_counter c + 1\<rparr>))"

definition open_payload :: "primitives \<Rightarrow> datagram_cipher \<Rightarrow> relay_payload \<Rightarrow> bytes option" where
  "open_payload P c payload =
     (let bs = payload_bytes payload
      in if length bs < RELAY_GUARD_OVERHEAD_BYTES then None
         else aead_open P (dc_key c) (take 12 bs) [] (drop 12 bs))"

definition open_bytes :: "primitives \<Rightarrow> datagram_cipher \<Rightarrow> bytes \<Rightarrow> bytes option" where
  "open_bytes P c wire = open_payload P c (RelayPayload wire)"

record e2ee_relay_bridge =
  br_framer :: turn_channel_data_framer

definition bridge_new :: "bool \<Rightarrow> u16 \<Rightarrow> e2ee_relay_bridge option" where
  "bridge_new debug_assertions n =
     (if debug_assertions \<and> \<not> (TURN_MIN_CHANNEL_NUMBER \<le> n \<and> n \<le> TURN_MAX_CHANNEL_NUMBER) then None
      else map_option (\<lambda>f. \<lparr>br_framer = f\<rparr>) (turn_framer_new debug_assertions n))"

definition frame_for_relay :: "e2ee_relay_bridge \<Rightarrow> relay_payload \<Rightarrow> bytes option" where
  "frame_for_relay b payload = turn_encode (br_framer b) (payload_bytes payload)"

definition bridge_channel_number :: "e2ee_relay_bridge \<Rightarrow> u16" where
  "bridge_channel_number b = channel_number (br_framer b)"

section \<open>Sessions\<close>

datatype io_error = WouldBlock | OtherIo nat

datatype session_error = SessionIo io_error | SessionHandshake handshake_error | AuthFailed

record 'a udp_socket =
  sock_in :: "(io_error + bytes \<times> 'a) list"
  sock_out :: "(bytes \<times> 'a) list"
  sock_sends :: "io_error option list"

definition send_to :: "'a udp_socket \<Rightarrow> bytes \<Rightarrow> 'a \<Rightarrow> (io_error + unit) \<times> 'a udp_socket" where
  "send_to sock d peer =
     (case sock_sends sock of
        Some e # rest \<Rightarrow> (Inl e, sock\<lparr>sock_sends := rest\<rparr>)
      | outcomes \<Rightarrow> (Inr (), sock\<lparr>sock_out := sock_out sock @ [(d, peer)], sock_sends := tl outcomes\<rparr>))"

definition recv_from :: "'a udp_socket \<Rightarrow> nat \<Rightarrow> (io_error + bytes \<times> 'a) \<times> 'a udp_socket" where
  "recv_from sock n =
     (case sock_in sock of
        [] \<Rightarrow> (Inl WouldBlock, sock)
      | Inl e # rest \<Rightarrow> (Inl e, sock\<lparr>sock_in := rest\<rparr>)
      | Inr (d, peer) # rest \<Rightarrow> (Inr (take n d, peer), sock\<lparr>sock_in := rest\<rparr>))"

record 'a secure_session =
  se_socket :: "'a udp_socket"
  se_peer :: 'a
  se_send :: datagram_cipher
  se_recv :: datagram_cipher
  se_is_initiator :: bool
  se_transcript_hash :: bytes
  se_remote_static_pubkey :: bytes

definition from_handshake :: "nat \<Rightarrow> 'a udp_socket \<Rightarrow> 'a \<Rightarrow> handshake_result \<Rightarrow> 'a secure_session" where
  "from_handshake now sock peer hr =
     (let keys = hr_traffic_keys hr
      in \<lparr>se_socket = sock, se_peer = peer,
          se_send = cipher_new now (send_key keys (hr_is_initiator hr)),
          se_recv = cipher_new now (recv_key keys (hr_is_initiator hr)),
          se_is_initiator = hr_is_initiator hr, se_transcript_hash = hr_transcript_hash hr,
          se_remote_static_pubkey = hr_remote_static_pubkey hr\<rparr>)"

text \<open>On an error the socket is closed; the second component is what it did until then.\<close>

definition session_connect ::
  "primitives \<Rightarrow> bytes \<Rightarrow> nat \<Rightarrow> 'a udp_socket \<Rightarrow> 'a \<Rightarrow> static_keypair \<Rightarrow> bytes \<Rightarrow> rust_str \<Rightarrow>
     (session_error + 'a secure_session) \<times> 'a udp_socket" where
  "session_connect P e_secret now sock peer local_static remote_static_pubkey session_code =
     (let (initiator, msg1) = initiator_new P e_secret local_static remote_static_pubkey session_code
      in case send_to sock msg1 peer of
           (Inl e, sock) \<Rightarrow> (Inl (SessionIo e), sock)
         | (Inr _, sock) \<Rightarrow>
             (case recv_from sock MSG2_LEN of
                (Inl e, sock) \<Rightarrow> (Inl (SessionIo e), sock)
              | (Inr (buf, from), sock) \<Rightarrow>
                  if length buf \<noteq> MSG2_LEN
                  then (Inl (SessionHandshake (BadMessageLength MSG2_LEN (length buf))), sock)
                  else (case receive_message2 P initiator local_static buf of
                          Inl e \<Rightarrow> (Inl (SessionHandshake e), sock)
                        | Inr hr \<Rightarrow> (Inr (from_handshake now sock from hr), sock))))"

definition session_accept ::
  "primitives \<Rightarrow> bytes \<Rightarrow> nat \<Rightarrow> 'a udp_socket \<Rightarrow> static_keypair \<Rightarrow> rust_str \<Rightarrow>
     (session_error + 'a secure_session) \<times> 'a udp_socket" where
  "session_accept P e_secret now sock local_static session_code =
     (case recv_from sock MSG1_LEN of
        (Inl e, sock) \<Rightarrow> (Inl (SessionIo e), sock)
      | (Inr (buf, peer), sock) \<Rightarrow>
          (case receive_message1 P local_static session_code buf of
             Inl e \<Rightarrow> (Inl (SessionHandshake e), sock)
           | Inr responder \<Rightarrow>
               (let (hr, msg2) = send_message2 P e_secret responder
                in case send_to sock msg2 peer of
                     (Inl e, sock) \<Rightarrow> (Inl (SessionIo e), sock)
                   | (Inr _, sock) \<Rightarrow> (Inr (from_handshake now sock peer hr), sock))))"

definition session_send ::
  "primitives \<Rightarrow> bool \<Rightarrow> 'a secure_session \<Rightarrow> bytes \<Rightarrow> ((session_error + unit) \<times> 'a secure_session) option" where
  "session_send P overflow_checks s plaintext =
     (case seal P overflow_checks (se_send s) plaintext of
        None \<Rightarrow> None
      | Some (sealed, cipher) \<Rightarrow>
          (case send_to (se_socket s) (payload_bytes sealed) (se_peer s) of
             (Inl e, sock) \<Rightarrow> Some (Inl (SessionIo e), s\<lparr>se_send := cipher, se_socket := sock\<rparr>)
           | (Inr _, sock) \<Rightarrow> Some (Inr (), s\<lparr>se_send := cipher, se_socket := sock\<rparr>)))"

definition RECV_BUFFER :: nat where
  "RECV_BUFFER = 8192"

definition session_recv :: "primitives \<Rightarrow> 'a secure_session \<Rightarrow> (session_error + bytes) \<times> 'a secure_session" where
  "session_recv P s =
     (case recv_from (se_socket s) RECV_BUFFER of
        (Inl e, sock) \<Rightarrow> (Inl (SessionIo e), s\<lparr>se_socket := sock\<rparr>)
      | (Inr (buf, _), sock) \<Rightarrow>
          ((case open_bytes P (se_recv s) buf of None \<Rightarrow> Inl AuthFailed | Some p \<Rightarrow> Inr p), s\<lparr>se_socket := sock\<rparr>))"

definition session_needs_rekey :: "nat \<Rightarrow> 'a secure_session \<Rightarrow> bool" where
  "session_needs_rekey now s = cipher_needs_rekey now (se_send s)"

text \<open>
  The halves of a split session. Both work on one socket: the sender's is the clone \<open>clone\<close>
  of the receiver's; \<open>None\<close> when the clone cannot be made.
\<close>

record 'a secure_sender =
  sd_socket :: "'a udp_socket"
  sd_peer :: 'a
  sd_cipher :: datagram_cipher

record 'a secure_receiver =
  rc_socket :: "'a udp_socket"
  rc_cipher :: datagram_cipher

definition session_split ::
  "'a udp_socket option \<Rightarrow> 'a secure_session \<Rightarrow> ('a secure_sender \<times> 'a secure_receiver) option" where
  "session_split clone s =
     map_option (\<lambda>sock. (\<lparr>sd_socket = sock, sd_peer = se_peer s, sd_cipher = se_send s\<rparr>,
                         \<lparr>rc_socket = se_socket s, rc_cipher = se_recv s\<rparr>)) clone"

definition sender_send ::
  "primitives \<Rightarrow> bool \<Rightarrow> 'a secure_sender \<Rightarrow> bytes \<Rightarrow> ((session_error + unit) \<times> 'a secure_sender) option" where
  "sender_send P overflow_checks s plaintext =
     (case seal P overflow_checks (sd_cipher s) plaintext of
        None \<Rightarrow> None
      | Some (sealed, cipher) \<Rightarrow>
          (case send_to (sd_socket s) (payload_bytes sealed) (sd_peer s) of
             (Inl e, sock) \<Rightarrow> Some (Inl (SessionIo e), s\<lparr>sd_cipher := cipher, sd_socket := sock\<rparr>)
           | (Inr _, sock) \<Rightarrow> Some (Inr (), s\<lparr>sd_cipher := cipher, sd_socket := sock\<rparr>)))"

definition sender_needs_rekey :: "nat \<Rightarrow> 'a secure_sender \<Rightarrow> bool" where
  "sender_needs_rekey now s = cipher_needs_rekey now (sd_cipher s)"

definition receiver_recv :: "primitives \<Rightarrow> 'a secure_receiver \<Rightarrow> (session_error + bytes) \<times> 'a secure_receiver" where
  "receiver_recv P s =
     (case recv_from (rc_socket s) RECV_BUFFER of
        (Inl e, sock) \<Rightarrow> (Inl (SessionIo e), s\<lparr>rc_socket := sock\<rparr>)
      | (Inr (buf, _), sock) \<Rightarrow>
          ((case open_bytes P (rc_cipher s) buf of None \<Rightarrow> Inl AuthFailed | Some p \<Rightarrow> Inr p), s\<lparr>rc_socket := sock\<rparr>))"


section \<open>Opening and sealing\<close>

text \<open>The datagram with number \<open>i\<close> that carries a message.\<close>

definition nonce_of :: "nat \<Rightarrow> bytes" where
  "nonce_of i = replicate 4 0 @ to_le_bytes 8 (of_nat i :: u64)"

definition datagram :: "primitives \<Rightarrow> bytes \<Rightarrow> nat \<Rightarrow> bytes \<Rightarrow> bytes" where
  "datagram P k i p = nonce_of i @ aead_seal P k (nonce_of i) [] p"

lemma length_nonce_of [simp]: "length (nonce_of i) = 12"
  by (simp add: nonce_of_def)

lemma nonce_of_inj: "nonce_of i = nonce_of j \<Longrightarrow> i < 2 ^ 64 \<Longrightarrow> j < 2 ^ 64 \<Longrightarrow> i = j"
proof -
  assume a: "nonce_of i = nonce_of j" "i < 2 ^ 64" "j < 2 ^ 64"
  then have "from_le_bytes (to_le_bytes 8 (of_nat i :: u64)) = (from_le_bytes (to_le_bytes 8 (of_nat j :: u64)) :: u64)"
    by (simp add: nonce_of_def)
  then have "(of_nat i :: u64) = of_nat j" by (subst (asm) (1 2) from_to_le_bytes) simp_all
  then have "unat (of_nat i :: u64) = unat (of_nat j :: u64)" by simp
  then show "i = j" using a(2,3) by (simp add: unsigned_of_nat take_bit_eq_mod)
qed

lemma length_datagram: "prim_ok P \<Longrightarrow> length (datagram P k i p) = length p + RELAY_GUARD_OVERHEAD_BYTES"
  by (simp add: datagram_def prim_laws RELAY_GUARD_OVERHEAD_BYTES_def)

lemma open_bytes_iff:
  assumes "prim_ok P"
  shows "open_bytes P c d = Some p \<longleftrightarrow> (\<exists>n. length n = 12 \<and> d = n @ aead_seal P (dc_key c) n [] p)"
proof
  assume "open_bytes P c d = Some p"
  then have "28 \<le> length d" "aead_open P (dc_key c) (take 12 d) [] (drop 12 d) = Some p"
    by (auto simp: open_bytes_def open_payload_def RELAY_GUARD_OVERHEAD_BYTES_def split: if_splits)
  then show "\<exists>n. length n = 12 \<and> d = n @ aead_seal P (dc_key c) n [] p"
    by (intro exI [of _ "take 12 d"]) (simp flip: aead_open_SomeD [OF assms])
next
  assume "\<exists>n. length n = 12 \<and> d = n @ aead_seal P (dc_key c) n [] p"
  then show "open_bytes P c d = Some p"
    by (auto simp: open_bytes_def open_payload_def RELAY_GUARD_OVERHEAD_BYTES_def prim_laws [OF assms])
qed

lemma open_datagram: "prim_ok P \<Longrightarrow> open_bytes P c (datagram P (dc_key c) i p) = Some p"
  by (auto simp: open_bytes_iff datagram_def intro!: exI [of _ "nonce_of i"])

lemma seal_datagram:
  "unat (dc_counter c) < 2 ^ 64 - 1 \<Longrightarrow>
     seal P oc c p = Some (RelayPayload (datagram P (dc_key c) (unat (dc_counter c)) p), c\<lparr>dc_counter := dc_counter c + 1\<rparr>)"
proof -
  assume a: "unat (dc_counter c) < 2 ^ 64 - 1"
  have "unat (- 1 :: u64) = 2 ^ 64 - 1" by (simp add: unsigned_minus_1_eq_mask mask_eq_exp_minus_1)
  then have "dc_counter c \<noteq> - 1" using a by auto
  then show ?thesis by (simp add: seal_def nonce_bytes_def datagram_def nonce_of_def Let_def)
qed

text \<open>A sealed message fits a relay frame exactly up to 1172 bytes, and the relay frame carries the datagram.\<close>

lemma frame_for_relay_iff:
  assumes "prim_ok P" "seal P oc c p = Some (payload, c')"
  shows "payload_len payload = length p + RELAY_GUARD_OVERHEAD_BYTES"
    and "frame_for_relay b payload \<noteq> None \<longleftrightarrow> length p \<le> 1172"
    and "frame_for_relay b payload = Some w \<Longrightarrow> turn_decode w = Some (bridge_channel_number b, payload_bytes payload)"
    and "open_payload P (c\<lparr>dc_counter := n\<rparr>) payload = Some p"
proof -
  have payload: "payload = RelayPayload (nonce_bytes c @ aead_seal P (dc_key c) (nonce_bytes c) [] p)"
    using assms(2) by (simp add: seal_def Let_def split: if_splits)
  have n: "length (nonce_bytes c) = 12" by (simp add: nonce_bytes_def)
  show "payload_len payload = length p + RELAY_GUARD_OVERHEAD_BYTES"
    by (simp add: payload n payload_len_def prim_laws [OF assms(1)] RELAY_GUARD_OVERHEAD_BYTES_def)
  show "frame_for_relay b payload \<noteq> None \<longleftrightarrow> length p \<le> 1172"
    by (auto simp: payload frame_for_relay_def turn_encode_def n prim_laws [OF assms(1)] TURN_MAX_PAYLOAD_BYTES_def)
  show "frame_for_relay b payload = Some w \<Longrightarrow> turn_decode w = Some (bridge_channel_number b, payload_bytes payload)"
    by (auto simp: frame_for_relay_def turn_encode_def turn_decode_Some_iff TURN_MAX_PAYLOAD_BYTES_def
        bridge_channel_number_def split: if_splits)
  show "open_payload P (c\<lparr>dc_counter := n\<rparr>) payload = Some p"
    by (simp add: payload open_payload_def RELAY_GUARD_OVERHEAD_BYTES_def n prim_laws [OF assms(1)])
qed

lemma needs_rekey_cases:
  "cipher_needs_rekey now (cipher_new born k) \<longleftrightarrow> born + TRAFFIC_KEY_MAX_AGE \<le> now"
  "\<not> cipher_needs_rekey now (rotate_key now k c)"
  by (auto simp: cipher_needs_rekey_def cipher_new_def rotate_key_def TRAFFIC_KEY_DATAGRAM_LIMIT_def TRAFFIC_KEY_MAX_AGE_def)

section \<open>Sequences of messages\<close>

fun session_sends :: "primitives \<Rightarrow> bool \<Rightarrow> 'a secure_session \<Rightarrow> bytes list \<Rightarrow> 'a secure_session option" where
  "session_sends P oc s [] = Some s"
| "session_sends P oc s (p # ps) =
     (case session_send P oc s p of None \<Rightarrow> None | Some (_, s') \<Rightarrow> session_sends P oc s' ps)"

fun session_recvs :: "primitives \<Rightarrow> 'a secure_session \<Rightarrow> nat \<Rightarrow> (session_error + bytes) list \<times> 'a secure_session" where
  "session_recvs P s 0 = ([], s)"
| "session_recvs P s (Suc n) =
     (case session_recv P s of (r, s') \<Rightarrow> (case session_recvs P s' n of (rs, s'') \<Rightarrow> (r # rs, s'')))"

lemma session_send_datagram:
  assumes "sock_sends (se_socket s) = []" "unat (dc_counter (se_send s)) < 2 ^ 64 - 1"
  shows "session_send P oc s p =
    Some (Inr (), s\<lparr>se_send := (se_send s)\<lparr>dc_counter := dc_counter (se_send s) + 1\<rparr>,
      se_socket := (se_socket s)\<lparr>sock_out := sock_out (se_socket s) @
        [(datagram P (dc_key (se_send s)) (unat (dc_counter (se_send s))) p, se_peer s)]\<rparr>\<rparr>)"
  using assms by (simp add: session_send_def seal_datagram send_to_def)

lemma session_sends_datagrams:
  assumes "sock_sends (se_socket s) = []" "unat (dc_counter (se_send s)) + length ps < 2 ^ 64"
  shows "\<exists>s'. session_sends P oc s ps = Some s' \<and> se_recv s' = se_recv s \<and> sock_in (se_socket s') = sock_in (se_socket s) \<and>
    unat (dc_counter (se_send s')) = unat (dc_counter (se_send s)) + length ps \<and>
    sock_out (se_socket s') = sock_out (se_socket s) @
      map (\<lambda>(i, p). (datagram P (dc_key (se_send s)) i p, se_peer s)) (List.enumerate (unat (dc_counter (se_send s))) ps)"
  using assms
proof (induction ps arbitrary: s)
  case (Cons p ps)
  let ?c = "dc_counter (se_send s)"
  let ?s = "s\<lparr>se_send := (se_send s)\<lparr>dc_counter := ?c + 1\<rparr>,
      se_socket := (se_socket s)\<lparr>sock_out := sock_out (se_socket s) @
        [(datagram P (dc_key (se_send s)) (unat ?c) p, se_peer s)]\<rparr>\<rparr>"
  have c: "unat ?c < 2 ^ 64 - 1" using Cons.prems(2) by simp
  then have u: "unat (?c + 1) = Suc (unat ?c)" by (simp add: unat_word_ariths)
  have "session_send P oc s p = Some (Inr (), ?s)" using session_send_datagram [OF Cons.prems(1) c] .
  moreover obtain s' where "session_sends P oc ?s ps = Some s'" "se_recv s' = se_recv s" "sock_in (se_socket s') = sock_in (se_socket s)"
      "unat (dc_counter (se_send s')) = unat (?c + 1) + length ps"
      "sock_out (se_socket s') = sock_out (se_socket ?s) @
        map (\<lambda>(i, p). (datagram P (dc_key (se_send s)) i p, se_peer s)) (List.enumerate (unat (?c + 1)) ps)"
    using Cons.IH [of ?s] Cons.prems u by auto
  ultimately show ?case by (simp add: u)
qed simp

definition opened :: "primitives \<Rightarrow> datagram_cipher \<Rightarrow> bytes \<Rightarrow> session_error + bytes" where
  "opened P c d = (case open_bytes P c (take RECV_BUFFER d) of None \<Rightarrow> Inl AuthFailed | Some p \<Rightarrow> Inr p)"

lemma session_recvs_opened:
  "sock_in (se_socket s) = map Inr das @ rest \<Longrightarrow>
     fst (session_recvs P s (length das)) = map (opened P (se_recv s) \<circ> fst) das"
  by (induction das arbitrary: s) (auto simp: session_recv_def recv_from_def opened_def split_def)

lemma opened_iff:
  assumes "prim_ok P"
  shows "opened P c d = Inr p \<longleftrightarrow> (\<exists>n. length n = 12 \<and> take RECV_BUFFER d = n @ aead_seal P (dc_key c) n [] p)"
  by (simp add: opened_def split: option.splits flip: open_bytes_iff [OF assms])

lemma opened_cases: "opened P c d = Inl AuthFailed \<or> (\<exists>p. opened P c d = Inr p)"
  by (simp add: opened_def split: option.splits)

text \<open>What a datagram that is not one of the sent ones must be to be accepted.\<close>

definition forged :: "primitives \<Rightarrow> bytes \<Rightarrow> nat \<Rightarrow> bytes list \<Rightarrow> bytes \<Rightarrow> bytes \<Rightarrow> bool" where
  "forged P k c ps d p \<longleftrightarrow>
     (\<exists>n. length n = 12 \<and> d = n @ aead_seal P k n [] p \<and> (\<forall>i<length ps. d \<noteq> datagram P k (c + i) (ps ! i)))"

lemma opened_sent:
  assumes "prim_ok P" "opened P c d = Inr p"
  shows "(\<exists>i<length ps. take RECV_BUFFER d = datagram P (dc_key c) (n + i) (ps ! i) \<and> p = ps ! i) \<or>
    forged P (dc_key c) n ps (take RECV_BUFFER d) p"
proof (cases "\<exists>i<length ps. take RECV_BUFFER d = datagram P (dc_key c) (n + i) (ps ! i)")
  case True
  then show ?thesis using assms(2) open_datagram [OF assms(1)] by (auto simp: opened_def)
next
  case False
  then show ?thesis using assms by (auto simp: opened_iff forged_def)
qed

lemma opened_fits:
  assumes "prim_ok P" "length p + RELAY_GUARD_OVERHEAD_BYTES \<le> RECV_BUFFER"
  shows "opened P c (datagram P (dc_key c) i p) = Inr p"
  using assms by (simp add: opened_def open_datagram length_datagram)

text \<open>The two ends of a session after the handshake.\<close>

definition paired :: "'a secure_session \<Rightarrow> 'b secure_session \<Rightarrow> bool" where
  "paired s t \<longleftrightarrow>
     dc_key (se_send s) = dc_key (se_recv t) \<and> dc_key (se_send t) = dc_key (se_recv s) \<and>
     dc_counter (se_send s) = 0 \<and> dc_counter (se_send t) = 0 \<and>
     se_transcript_hash s = se_transcript_hash t \<and> se_is_initiator s \<noteq> se_is_initiator t"

text \<open>
  C19: A session is set up. If the responder's socket receives the first message, possibly with
  bytes appended, and the initiator's socket receives the responder's answer, possibly with bytes
  appended and from any address, then both calls succeed: each side has exactly one new
  datagram on the wire, sends with the key the other receives with, counts from zero, knows the
  other's static key and has the same transcript hash; the initiator talks to the address the answer came
  from.
\<close>

theorem session_established:
  assumes "prim_ok P" "kp_i = keypair_generate P a" "kp_r = keypair_generate P b"
    and "initiator_new P e kp_i (sk_public kp_r) code = (ini, msg1)"
    and "sock_in sock_r = Inr (msg1 @ extra1, addr_i) # in_r" "sock_sends sock_r = []" "sock_sends sock_i = []"
  shows "\<exists>s_r msg2. session_accept P f now_r sock_r kp_r code = (Inr s_r, se_socket s_r) \<and>
    se_peer s_r = addr_i \<and> sock_in (se_socket s_r) = in_r \<and> sock_sends (se_socket s_r) = [] \<and>
    sock_out (se_socket s_r) = sock_out sock_r @ [(msg2, addr_i)] \<and>
    se_remote_static_pubkey s_r = sk_public kp_i \<and>
    (\<forall>extra2 addr_r in_i. sock_in sock_i = Inr (msg2 @ extra2, addr_r) # in_i \<longrightarrow>
      (\<exists>s_i. session_connect P e now_i sock_i peer kp_i (sk_public kp_r) code = (Inr s_i, se_socket s_i) \<and>
         paired s_i s_r \<and> se_peer s_i = addr_r \<and> sock_in (se_socket s_i) = in_i \<and> sock_sends (se_socket s_i) = [] \<and>
         sock_out (se_socket s_i) = sock_out sock_i @ [(msg1, peer)] \<and>
         se_remote_static_pubkey s_i = sk_public kp_r))"
proof -
  obtain r where r: "receive_message1 P kp_r code msg1 = Inr r"
    and all: "\<And>res_r msg2. send_message2 P f r = (res_r, msg2) \<Longrightarrow>
      \<exists>res_i. receive_message2 P ini kp_i msg2 = Inr res_i \<and>
         hr_traffic_keys res_i = hr_traffic_keys res_r \<and> hr_transcript_hash res_i = hr_transcript_hash res_r \<and>
         hr_remote_static_pubkey res_i = sk_public kp_r \<and> hr_remote_static_pubkey res_r = sk_public kp_i \<and>
         send_key (hr_traffic_keys res_i) (hr_is_initiator res_i) = recv_key (hr_traffic_keys res_r) (hr_is_initiator res_r) \<and>
         send_key (hr_traffic_keys res_r) (hr_is_initiator res_r) = recv_key (hr_traffic_keys res_i) (hr_is_initiator res_i) \<and>
         length msg1 = 96 \<and> length msg2 = 48"
    using handshake_agrees [OF assms(1-4), of f] by blast
  obtain res_r msg2 where m2: "send_message2 P f r = (res_r, msg2)" by fastforce
  obtain res_i where res: "receive_message2 P ini kp_i msg2 = Inr res_i"
      "hr_traffic_keys res_i = hr_traffic_keys res_r" "hr_transcript_hash res_i = hr_transcript_hash res_r"
      "hr_remote_static_pubkey res_i = sk_public kp_r" "hr_remote_static_pubkey res_r = sk_public kp_i"
      "send_key (hr_traffic_keys res_i) (hr_is_initiator res_i) = recv_key (hr_traffic_keys res_r) (hr_is_initiator res_r)"
      "send_key (hr_traffic_keys res_r) (hr_is_initiator res_r) = recv_key (hr_traffic_keys res_i) (hr_is_initiator res_i)"
      "length msg1 = 96" "length msg2 = 48"
    using all [OF m2] by blast
  have ini: "hr_is_initiator res_i" "\<not> hr_is_initiator res_r"
    using res(1) m2 by (auto simp: receive_message2_def send_message2_def Let_def split_def split: if_splits sum.splits)
  let ?sock = "sock_r\<lparr>sock_in := in_r, sock_out := sock_out sock_r @ [(msg2, addr_i)], sock_sends := []\<rparr>"
  have acc: "session_accept P f now_r sock_r kp_r code = (Inr (from_handshake now_r ?sock addr_i res_r), ?sock)"
    using assms(5,6) r m2 res(8) by (simp add: session_accept_def recv_from_def send_to_def MSG1_LEN_def Let_def)
  have con: "session_connect P e now_i sock_i peer kp_i (sk_public kp_r) code =
      (Inr (from_handshake now_i (sock_i\<lparr>sock_out := sock_out sock_i @ [(msg1, peer)], sock_sends := [], sock_in := in_i\<rparr>) addr_r res_i),
       sock_i\<lparr>sock_out := sock_out sock_i @ [(msg1, peer)], sock_sends := [], sock_in := in_i\<rparr>)"
    if "sock_in sock_i = Inr (msg2 @ extra2, addr_r) # in_i" for extra2 addr_r in_i
    using that assms(4,7) res(1,9) by (simp add: session_connect_def recv_from_def send_to_def MSG2_LEN_def)
  show ?thesis
    using acc con assms(6,7) ini res(2-7)
    by (intro exI [of _ "from_handshake now_r ?sock addr_i res_r"] exI [of _ msg2])
      (auto simp: from_handshake_def paired_def cipher_new_def Let_def)
qed

definition sample_socket :: "(bytes \<times> nat) list \<Rightarrow> nat udp_socket" where
  "sample_socket das = \<lparr>sock_in = map Inr das, sock_out = [], sock_sends = []\<rparr>"

lemma sample_socket_simps [simp]:
  "sock_in (sample_socket das) = map Inr das" "sock_out (sample_socket das) = []" "sock_sends (sample_socket das) = []"
  by (simp_all add: sample_socket_def)

theorem session_established_witness:
  "\<exists>s_r s_i msg2.
     session_accept sample_prim [4] 0 (sample_socket [(snd (initiator_new sample_prim [3] (keypair_generate sample_prim [1])
       (sk_public (keypair_generate sample_prim [2])) [49]), 8)]) (keypair_generate sample_prim [2]) [49] = (Inr s_r, se_socket s_r) \<and>
     sock_out (se_socket s_r) = [(msg2, 8)] \<and>
     session_connect sample_prim [3] 0 (sample_socket [(msg2, 9)]) 9 (keypair_generate sample_prim [1])
       (sk_public (keypair_generate sample_prim [2])) [49] = (Inr s_i, se_socket s_i) \<and> paired s_i s_r"
proof -
  let ?ki = "keypair_generate sample_prim [1]" and ?kr = "keypair_generate sample_prim [2]"
  let ?im = "initiator_new sample_prim [3] ?ki (sk_public ?kr) [49]"
  let ?acc = "session_accept sample_prim [4] 0 (sample_socket [(snd ?im, 8)]) ?kr [49]"
  have im: "?im = (fst ?im, snd ?im)" by simp
  have inr: "sock_in (sample_socket [(snd ?im, 8)]) = Inr (snd ?im @ [], 8) # []" by simp
  note E = session_established [OF sample_prim_ok refl refl im inr _ , where now_r = 0 and now_i = 0 and f = "[4]" and peer = "9 :: nat"]
  obtain s_r msg2 where r: "?acc = (Inr s_r, se_socket s_r)" "sock_out (se_socket s_r) = [(msg2, 8)]"
    using E [of "sample_socket []"] by auto
  have "\<exists>s_i. session_connect sample_prim [3] 0 (sample_socket [(msg2, 9)]) 9 ?ki (sk_public ?kr) [49] = (Inr s_i, se_socket s_i) \<and> paired s_i s_r"
    using E [of "sample_socket [(msg2, 9)]"] r by auto
  then show ?thesis using r by blast
qed

text \<open>
  C18: Messages over a hostile network. Let one end of a session, new from the handshake, send
  the messages \<open>ps\<close> (fewer than \<open>2 ^ 64\<close>). Each leaves as one datagram, 28 bytes longer,
  and no two have the same nonce. Whatever datagrams then arrive at the other end, in whatever
  order and number: a message is returned only for one of these datagrams, and then it is the message
  sealed in it, or for a forged datagram; and every arrival of one of these datagrams, the
  first and every repetition, returns its message if the datagram fits the receive
  buffer of 8192 bytes.
\<close>

theorem secure_channel:
  assumes "prim_ok P" "paired s t" "sock_sends (se_socket s) = []" "length ps < 2 ^ 64"
    and "k = dc_key (se_send s)" "sock_in (se_socket t) = map Inr das"
  shows "\<exists>s'. session_sends P oc s ps = Some s' \<and>
    sock_out (se_socket s') = sock_out (se_socket s) @ map (\<lambda>(i, p). (datagram P k i p, se_peer s)) (List.enumerate 0 ps) \<and>
    (\<forall>i<length ps. length (datagram P k i (ps ! i)) = length (ps ! i) + 28) \<and>
    (\<forall>i<length ps. \<forall>j<length ps. take 12 (datagram P k i (ps ! i)) = take 12 (datagram P k j (ps ! j)) \<longrightarrow> i = j) \<and>
    length (fst (session_recvs P t (length das))) = length das \<and>
    (\<forall>j<length das. \<forall>p. fst (session_recvs P t (length das)) ! j = Inr p \<longrightarrow>
       (\<exists>i<length ps. take RECV_BUFFER (fst (das ! j)) = datagram P k i (ps ! i) \<and> p = ps ! i) \<or>
       forged P k 0 ps (take RECV_BUFFER (fst (das ! j))) p) \<and>
    (\<forall>j<length das. \<forall>i<length ps. fst (das ! j) = datagram P k i (ps ! i) \<longrightarrow> length (ps ! i) + 28 \<le> RECV_BUFFER \<longrightarrow>
       fst (session_recvs P t (length das)) ! j = Inr (ps ! i))"
proof -
  have c: "dc_counter (se_send s) = 0" "dc_key (se_recv t) = k" using assms(2,5) by (auto simp: paired_def)
  have s: "\<exists>s'. session_sends P oc s ps = Some s' \<and>
      sock_out (se_socket s') = sock_out (se_socket s) @ map (\<lambda>(i, p). (datagram P k i p, se_peer s)) (List.enumerate 0 ps)"
    using session_sends_datagrams [of s ps P oc] assms(3-5) c(1) by auto
  have r: "fst (session_recvs P t (length das)) = map (opened P (se_recv t) \<circ> fst) das"
    using session_recvs_opened [of t das "[]" P] assms(6) by simp
  have nonces: "\<forall>i<length ps. \<forall>j<length ps. take 12 (datagram P k i (ps ! i)) = take 12 (datagram P k j (ps ! j)) \<longrightarrow> i = j"
    using assms(4) nonce_of_inj by (auto simp: datagram_def)
  have sent: "opened P (se_recv t) (fst (das ! j)) = Inr p \<Longrightarrow>
      (\<exists>i<length ps. take RECV_BUFFER (fst (das ! j)) = datagram P k i (ps ! i) \<and> p = ps ! i) \<or>
      forged P k 0 ps (take RECV_BUFFER (fst (das ! j))) p" for j p
    using opened_sent [OF assms(1), of "se_recv t" "fst (das ! j)" p ps 0] by (simp add: c(2))
  have fits: "length p + 28 \<le> RECV_BUFFER \<Longrightarrow> opened P (se_recv t) (datagram P k i p) = Inr p" for i p
    using opened_fits [OF assms(1), of p "se_recv t" i] by (simp add: c(2) RELAY_GUARD_OVERHEAD_BYTES_def)
  have len: "\<forall>i<length ps. length (datagram P k i (ps ! i)) = length (ps ! i) + 28"
    by (simp add: length_datagram [OF assms(1)] RELAY_GUARD_OVERHEAD_BYTES_def)
  show ?thesis using s nonces sent fits len unfolding r by auto
qed

text \<open>Two ends with the same keys, for the examples.\<close>

definition sample_session :: "bool \<Rightarrow> (bytes \<times> nat) list \<Rightarrow> nat secure_session" where
  "sample_session ini das =
     \<lparr>se_socket = sample_socket das, se_peer = 9, se_send = cipher_new 0 (if ini then [1] else [2]),
      se_recv = cipher_new 0 (if ini then [2] else [1]), se_is_initiator = ini, se_transcript_hash = [], se_remote_static_pubkey = []\<rparr>"

lemma sample_paired: "paired (sample_session True das) (sample_session False das')"
  by (simp add: paired_def sample_session_def cipher_new_def)

text \<open>Two messages, the second one arriving first and again at the end.\<close>

theorem secure_channel_witness:
  "fst (session_recvs sample_prim (sample_session False
      [(datagram sample_prim [1] 1 [6], 0), (datagram sample_prim [1] 0 [5], 0), (datagram sample_prim [1] 1 [6], 0)]) 3) =
    [Inr [6], Inr [5], Inr [6]]"
proof -
  let ?das = "[(datagram sample_prim [1] 1 [6], 0), (datagram sample_prim [1] 0 [5], 0), (datagram sample_prim [1] 1 [6], 0)] :: (bytes \<times> nat) list"
  let ?t = "sample_session False ?das" and ?s = "sample_session True []"
  have h: "sock_sends (se_socket ?s) = []" "length [[5], [6 :: u8]] < 2 ^ 64" "[1] = dc_key (se_send ?s)" "sock_in (se_socket ?t) = map Inr ?das"
    by (simp_all add: sample_session_def cipher_new_def)
  let ?rs = "fst (session_recvs sample_prim ?t 3)"
  have "length ?rs = 3 \<and> ?rs ! 0 = Inr [6] \<and> ?rs ! 1 = Inr [5] \<and> ?rs ! 2 = Inr [6]"
    using secure_channel [OF sample_prim_ok sample_paired h, of True]
    by (auto simp: numeral_eq_Suc less_Suc_eq all_conj_distrib RECV_BUFFER_def)
  then show ?thesis by (auto simp: list_eq_iff_nth_eq less_Suc_eq numeral_eq_Suc)
qed

section \<open>Split sessions\<close>

text \<open>The halves of a split session send and receive what the whole session would.\<close>

lemma split_session_same:
  assumes "session_split (Some (se_socket s)) s = Some (tx, rx)"
  shows "map_option fst (sender_send P oc tx p) = map_option fst (session_send P oc s p)"
    and "map_option (\<lambda>(_, tx). sock_out (sd_socket tx)) (sender_send P oc tx p) =
      map_option (\<lambda>(_, s). sock_out (se_socket s)) (session_send P oc s p)"
    and "fst (receiver_recv P rx) = fst (session_recv P s)"
    and "sender_needs_rekey now tx = session_needs_rekey now s"
  using assms
  by (auto simp: session_split_def sender_send_def session_send_def receiver_recv_def session_recv_def
      sender_needs_rekey_def session_needs_rekey_def split: option.splits prod.splits sum.splits)

end
