(* ===== verification/Session_Run.thy ===== *)
theory Session_Run
  imports Secure_Session Inbound
begin

text \<open>
  The encrypted session and the layers above it together: \<open>send_file\<close> over
  \<open>SecureSession::send\<close>, and \<open>InboundRouter::recv_and_handle\<close> over \<open>SecureSession::recv\<close>. A file is
  received when its offer fits one datagram of the receive buffer, and only then.
\<close>

section \<open>The router on a session\<close>

fun session_route ::
  "primitives \<Rightarrow> bool \<Rightarrow> (bytes \<Rightarrow> chunk_hash) \<Rightarrow> (bytes \<Rightarrow> bytes option) \<Rightarrow> flag_store \<Rightarrow> inbound_router \<Rightarrow>
     'a secure_session \<Rightarrow> nat \<Rightarrow> ((xfer_error + handled) list \<times> inbound_router \<times> 'a secure_session) option" where
  "session_route P oc hash dct st r t 0 = Some ([], r, t)"
| "session_route P oc hash dct st r t (Suc n) =
     do {
       (res, r, t) \<leftarrow> recv_and_handle (session_recv P) oc hash dct st r t;
       (rest, r, t) \<leftarrow> session_route P oc hash dct st r t n;
       Some (res # rest, r, t)
     }"

text \<open>The answers of the file receiver to a list of frames, as the router reports them.\<close>

fun file_answers :: "(bytes \<Rightarrow> chunk_hash) \<Rightarrow> file_receiver \<Rightarrow> xfer_frame list \<Rightarrow> (xfer_error + handled) list" where
  "file_answers hash r [] = []"
| "file_answers hash r (f # fs) =
     (case fst (receiver_apply hash r f) of Inl e \<Rightarrow> Inl e | Inr p \<Rightarrow> Inr (HandledFile p)) #
     file_answers hash (snd (receiver_apply hash r f)) fs"

lemma length_file_answers [simp]: "length (file_answers hash r fs) = length fs"
  by (induction fs arbitrary: r) auto

lemma file_answers_append:
  "file_answers hash r (fs @ gs) = file_answers hash r fs @ file_answers hash (foldl (receiver_step hash) r (map Arrive fs)) gs"
  by (induction fs arbitrary: r) auto

lemma classify_xfer: "classify (xfer_encode f) = ChannelFile"
  by (cases f) (auto simp: classify_def KIND_OFFER_def KIND_FRAGMENT_def KIND_COMPLETE_def)

lemma inbound_handle_file:
  assumes "xfer_ok f"
  shows "inbound_handle oc hash dct st r (xfer_encode f) =
    Some (case fst (receiver_apply hash (ir_files r) f) of Inl e \<Rightarrow> Inl e | Inr p \<Rightarrow> Inr (HandledFile p),
      r\<lparr>ir_files := snd (receiver_apply hash (ir_files r) f)\<rparr>)"
proof -
  have "xfer_decode (xfer_encode f) = Inr f" using assms by (auto simp: xfer_decode_iff)
  then show ?thesis by (simp add: inbound_handle_def classify_xfer split_def Let_def split: sum.splits)
qed

lemma recv_and_handle_cons:
  assumes "sock_in (se_socket t) = Inr da # rest" "t' = t\<lparr>se_socket := (se_socket t)\<lparr>sock_in := rest\<rparr>\<rparr>"
  shows "opened P (se_recv t) (fst da) = Inl e \<Longrightarrow>
      recv_and_handle (session_recv P) oc hash dct st r t = Some (Inl XferSession, r, t')"
    and "opened P (se_recv t) (fst da) = Inr (xfer_encode f) \<Longrightarrow> xfer_ok f \<Longrightarrow>
      recv_and_handle (session_recv P) oc hash dct st r t =
        Some (case fst (receiver_apply hash (ir_files r) f) of Inl e \<Rightarrow> Inl e | Inr p \<Rightarrow> Inr (HandledFile p),
          r\<lparr>ir_files := snd (receiver_apply hash (ir_files r) f)\<rparr>, t')"
  using assms
  by (auto simp: recv_and_handle_def session_recv_def recv_from_def opened_def inbound_handle_file split_def
      split: option.splits)

lemma session_route_files:
  assumes "list_all2 (\<lambda>da f. opened P c (fst da) = Inr (xfer_encode f) \<and> xfer_ok f) das fs"
    and "se_recv t = c" "sock_in (se_socket t) = map Inr das @ rest"
  shows "\<exists>t'. session_route P oc hash dct st r t (length das) =
    Some (file_answers hash (ir_files r) fs, r\<lparr>ir_files := foldl (receiver_step hash) (ir_files r) (map Arrive fs)\<rparr>, t') \<and>
    se_recv t' = c"
  using assms
proof (induction das fs arbitrary: r t rule: list_all2_induct)
  case (Cons da das f fs)
  let ?t = "t\<lparr>se_socket := (se_socket t)\<lparr>sock_in := map Inr das @ rest\<rparr>\<rparr>"
  have "recv_and_handle (session_recv P) oc hash dct st r t =
      Some (case fst (receiver_apply hash (ir_files r) f) of Inl e \<Rightarrow> Inl e | Inr p \<Rightarrow> Inr (HandledFile p),
        r\<lparr>ir_files := snd (receiver_apply hash (ir_files r) f)\<rparr>, ?t)"
    using recv_and_handle_cons(2) [of t da "map Inr das @ rest" ?t P f] Cons.hyps Cons.prems by simp
  with Cons.IH [of ?t "r\<lparr>ir_files := snd (receiver_apply hash (ir_files r) f)\<rparr>"] show ?case
    by (auto simp: Cons.prems)
qed simp

section \<open>Sending a file\<close>

definition offer_len :: "rust_str \<Rightarrow> bytes \<Rightarrow> nat" where
  "offer_len name data = 47 + str_len name + 32 * length (chunks FRAGMENT_LEN data)"

lemma length_offer:
  assumes "\<forall>x. length (hash x) = 32"
  shows "length (xfer_encode (file_offer hash name data)) = offer_len name data"
proof -
  have "length (concat (map hash cs)) = 32 * length cs" for cs using assms by (induction cs) auto
  then show ?thesis using assms by (simp add: file_offer_def offer_len_def)
qed

lemma send_file_frames_eq:
  "send_file_frames hash name data = file_offer hash name data #
     map (\<lambda>(i, c). XferFragment (of_nat i) c) (List.enumerate 0 (chunks FRAGMENT_LEN data)) @ [XferComplete]"
  by (simp add: send_file_frames_def file_offer_def)

lemma chunk_in: "c \<in> set (chunks n data) \<Longrightarrow> length c \<le> n"
  by (induction n data rule: chunks.induct) (subst (asm) (2) chunks.simps, auto split: if_splits)

lemma in_set_fragments:
  "f \<in> set (map (\<lambda>(i, c). g i c) (List.enumerate 0 xs)) \<longleftrightarrow> (\<exists>i<length xs. f = g i (xs ! i))"
  unfolding in_set_conv_nth by (auto simp: nth_enumerate_eq)

lemma in_send_file_frames:
  "f \<in> set (tl (send_file_frames hash name data)) \<longleftrightarrow>
     f = XferComplete \<or> (\<exists>i<length (chunks FRAGMENT_LEN data). f = XferFragment (of_nat i) (chunks FRAGMENT_LEN data ! i))"
  by (auto simp: send_file_frames_eq in_set_fragments simp del: set_map)

lemma send_file_frames_ok:
  assumes "hash_ok hash data" "valid_str name" "str_len name < 65536" "length data \<le> 2 ^ 30" "f \<in> set (send_file_frames hash name data)"
  shows "xfer_ok f"
proof -
  have n: "length (chunks FRAGMENT_LEN data) \<le> MAX_FRAGMENTS"
    using length_chunks_le [of FRAGMENT_LEN data] assms(4) by (simp add: FRAGMENT_LEN_def MAX_FRAGMENTS_def)
  have "f = file_offer hash name data \<or> f \<in> set (tl (send_file_frames hash name data))"
    using assms(5) by (auto simp: send_file_frames_eq)
  then show ?thesis
    using assms(1-3) n chunk_in [OF nth_mem] by (auto simp: in_send_file_frames file_offer_def hash_ok_def list_all_iff)
qed

lemma frame_lengths:
  assumes "\<forall>x. length (hash x) = 32" "f \<in> set (tl (send_file_frames hash name data))"
  shows "length (xfer_encode f) \<le> 7 + FRAGMENT_LEN"
  using assms(2) chunk_in [OF nth_mem] by (auto simp: in_send_file_frames)

definition file_datagrams ::
  "primitives \<Rightarrow> bytes \<Rightarrow> (bytes \<Rightarrow> chunk_hash) \<Rightarrow> rust_str \<Rightarrow> bytes \<Rightarrow> 'a \<Rightarrow> (bytes \<times> 'a) list" where
  "file_datagrams P k hash name data addr =
     map (\<lambda>(i, p). (datagram P k i p, addr)) (List.enumerate 0 (map xfer_encode (send_file_frames hash name data)))"

text \<open>From a receiver without an offer, frames other than offers change nothing.\<close>

lemma no_offer_no_effect:
  assumes "fr_state r = None" "\<forall>f\<in>set fs. \<forall>n t hs w. f \<noteq> XferOffer n t hs w"
  shows "foldl (receiver_step hash) r (map Arrive fs) = r" "set (file_answers hash r fs) \<subseteq> {Inl XferNoOffer}"
proof -
  have "receiver_apply hash r f = (Inl XferNoOffer, r)" if "f \<in> set fs" for f
    using assms that by (cases f) (auto simp: receive_fragment_def receive_complete_def)
  then show "foldl (receiver_step hash) r (map Arrive fs) = r" "set (file_answers hash r fs) \<subseteq> {Inl XferNoOffer}"
    by (induction fs) auto
qed

lemma enumerate_list_all2:
  "(\<And>i f. i < length fs \<Longrightarrow> Q (g (n + i) (h (fs ! i))) (fs ! i)) \<Longrightarrow>
     list_all2 Q (map (\<lambda>(i, p). g i p) (List.enumerate n (map h fs))) fs"
  by (auto simp: list_all2_conv_all_nth nth_enumerate_eq)

lemma fits_list_all2:
  assumes "prim_ok P" "dc_key c = k" "\<forall>f\<in>set fs. xfer_ok f \<and> length (xfer_encode f) + 28 \<le> RECV_BUFFER"
  shows "list_all2 (\<lambda>da f. opened P c (fst da) = Inr (xfer_encode f) \<and> xfer_ok f)
    (map (\<lambda>(i, p). (datagram P k i p, addr)) (List.enumerate n (map xfer_encode fs))) fs"
  using assms opened_fits [OF assms(1), of _ c]
  by (intro enumerate_list_all2) (auto simp: RELAY_GUARD_OVERHEAD_BYTES_def)

lemma frames_complete:
  assumes "hash_ok hash data" "length data \<le> 2 ^ 30" "transfer_inv hash data r"
  shows "last (file_answers hash r (send_file_frames hash name data)) = Inr (HandledFile CompleteProgress)"
    and "fr_dst (foldl (receiver_step hash) r (map Arrive (send_file_frames hash name data))) = Some data"
proof -
  let ?fs = "map (\<lambda>(i, c). XferFragment (of_nat i) c) (List.enumerate 0 (chunks FRAGMENT_LEN data))"
  have own: "\<forall>f\<in>set ?fs. f \<noteq> XferComplete \<and> own_event hash name data (Arrive f)" by (auto simp: own_event_def)
  have all: "\<forall>i<length (chunks FRAGMENT_LEN data). XferFragment (of_nat i) (slice i data) \<in> set ?fs"
    by (auto simp: in_set_fragments nth_chunks simp del: set_map)
  note fin = transfer_finishes [OF assms(3,1,2) own all]
  have eq: "send_file_frames hash name data = (file_offer hash name data # ?fs) @ [XferComplete]"
    by (simp add: send_file_frames_eq)
  show "last (file_answers hash r (send_file_frames hash name data)) = Inr (HandledFile CompleteProgress)"
    unfolding eq file_answers_append using fin by simp
  show "fr_dst (foldl (receiver_step hash) r (map Arrive (send_file_frames hash name data))) = Some data"
    unfolding eq using fin by simp
qed

text \<open>A file whose offer fits is received.\<close>

lemma file_fits_received:
  assumes "prim_ok P" "dc_key (se_recv t) = k" "hash_ok hash data" "length data \<le> 2 ^ 30" "valid_str name" "str_len name < 65536"
    and "transfer_inv hash data (ir_files r)" "offer_len name data \<le> 8164"
    and "sock_in (se_socket t) = map Inr (file_datagrams P k hash name data addr)"
  shows "\<exists>as r' t'. session_route P oc hash dct st r t (length (send_file_frames hash name data)) = Some (as, r', t') \<and>
    last as = Inr (HandledFile CompleteProgress) \<and> fr_dst (ir_files r') = Some data"
proof -
  let ?fs = "send_file_frames hash name data"
  have h32: "\<forall>x. length (hash x) = 32" using assms(3) by (simp add: hash_ok_def)
  have "length (xfer_encode f) + 28 \<le> RECV_BUFFER" if "f \<in> set ?fs" for f
  proof (cases "f = file_offer hash name data")
    case True
    then show ?thesis using length_offer [OF h32, of name data] assms(8) by (simp add: RECV_BUFFER_def)
  next
    case False
    then have "f \<in> set (tl ?fs)" using that by (auto simp: send_file_frames_eq)
    from frame_lengths [OF h32 this] show ?thesis by (simp add: RECV_BUFFER_def FRAGMENT_LEN_def)
  qed
  then have "\<forall>f\<in>set ?fs. xfer_ok f \<and> length (xfer_encode f) + 28 \<le> RECV_BUFFER"
    using send_file_frames_ok [OF assms(3,5,6,4)] by simp
  from fits_list_all2 [OF assms(1,2) this]
  have "list_all2 (\<lambda>da f. opened P (se_recv t) (fst da) = Inr (xfer_encode f) \<and> xfer_ok f)
      (file_datagrams P k hash name data addr) ?fs" by (simp add: file_datagrams_def)
  from session_route_files [OF this refl, where rest = "[]" and oc = oc and hash = hash and dct = dct and st = st and r = r] assms(9)
  obtain t' where "session_route P oc hash dct st r t (length ?fs) =
      Some (file_answers hash (ir_files r) ?fs, r\<lparr>ir_files := foldl (receiver_step hash) (ir_files r) (map Arrive ?fs)\<rparr>, t')"
    by (auto simp: file_datagrams_def)
  then show ?thesis using frames_complete [OF assms(3,4,7), of name] by simp
qed

text \<open>The datagram of an offer that is too long is cut, and what is left is not one that was sent.\<close>

lemma cut_offer_forged:
  assumes "prim_ok P" "dc_key c = k" "fs \<noteq> []" "8164 < length (hd fs)" "length fs < 2 ^ 64"
    and "opened P c (datagram P k 0 (hd fs)) = Inr p"
  shows "forged P k 0 fs (take RECV_BUFFER (datagram P k 0 (hd fs))) p"
proof -
  let ?d = "take RECV_BUFFER (datagram P k 0 (hd fs))"
  have len: "length ?d = 8192" using assms(4) by (simp add: length_datagram [OF assms(1)] RECV_BUFFER_def RELAY_GUARD_OVERHEAD_BYTES_def)
  have "?d \<noteq> datagram P k i (fs ! i)" if "i < length fs" for i
  proof
    assume eq: "?d = datagram P k i (fs ! i)"
    have "take 12 ?d = nonce_of 0" by (simp add: datagram_def RECV_BUFFER_def)
    then have "nonce_of 0 = nonce_of i" unfolding eq by (simp add: datagram_def)
    then have "i = 0" using nonce_of_inj [of 0 i] that assms(5) by simp
    then show False using eq len assms(3,4) by (simp add: length_datagram [OF assms(1)] RELAY_GUARD_OVERHEAD_BYTES_def hd_conv_nth)
  qed
  then show ?thesis using assms(2,6) by (auto simp: forged_def opened_iff [OF assms(1)])
qed

lemma file_too_long_lost:
  assumes "prim_ok P" "dc_key (se_recv t) = k" "hash_ok hash data" "length data \<le> 2 ^ 30" "valid_str name" "str_len name < 65536"
    and "fr_state (ir_files r) = None" "8164 < offer_len name data"
    and "sock_in (se_socket t) = map Inr (file_datagrams P k hash name data addr)"
  defines "fs \<equiv> send_file_frames hash name data"
  shows "(\<exists>as t'. session_route P oc hash dct st r t (length fs) = Some (as, r, t') \<and>
         hd as = Inl XferSession \<and> set (tl as) \<subseteq> {Inl XferNoOffer}) \<or>
      (\<exists>p. forged P k 0 (map xfer_encode fs) (take RECV_BUFFER (datagram P k 0 (xfer_encode (hd fs)))) p)"
proof -
  have h32: "\<forall>x. length (hash x) = 32" using assms(3) by (simp add: hash_ok_def)
  let ?d = "datagram P k 0 (xfer_encode (hd fs))"
  let ?das = "map (\<lambda>(i, p). (datagram P k i p, addr)) (List.enumerate 1 (map xfer_encode (tl fs)))"
  have fs: "fs = file_offer hash name data # tl fs" by (simp add: fs_def send_file_frames_eq)
  have inbox: "sock_in (se_socket t) = Inr (?d, addr) # map Inr ?das"
    using assms(9) fs unfolding file_datagrams_def fs_def [symmetric] by (metis (no_types, lifting) One_nat_def case_prod_conv enumerate_simps(2) list.map(2) list.sel(1))
  have long: "8164 < length (xfer_encode (hd fs))" using length_offer [OF h32, of name data] assms(8) fs by (metis list.sel(1))
  have "length (chunks FRAGMENT_LEN data) \<le> 2 ^ 20"
    using length_chunks_le [of FRAGMENT_LEN data] assms(4) by (simp add: FRAGMENT_LEN_def)
  then have lenf: "length fs < 2 ^ 64" by (simp add: fs_def send_file_frames_eq)
  show ?thesis
  proof (cases "opened P (se_recv t) ?d")
    case (Inl e)
    let ?t = "t\<lparr>se_socket := (se_socket t)\<lparr>sock_in := map Inr ?das\<rparr>\<rparr>"
    have first: "recv_and_handle (session_recv P) oc hash dct st r t = Some (Inl XferSession, r, ?t)"
      by (rule recv_and_handle_cons(1) [OF inbox refl]) (simp add: Inl)
    have "\<forall>f\<in>set (tl fs). xfer_ok f \<and> length (xfer_encode f) + 28 \<le> RECV_BUFFER"
      using frame_lengths [OF h32, of _ name data] send_file_frames_ok [OF assms(3,5,6,4)] list.set_sel(2) [of fs]
      by (fastforce simp: fs_def RECV_BUFFER_def FRAGMENT_LEN_def)
    from fits_list_all2 [OF assms(1,2) this, of addr 1]
    have rest: "list_all2 (\<lambda>da f. opened P (se_recv t) (fst da) = Inr (xfer_encode f) \<and> xfer_ok f) ?das (tl fs)" .
    have no_offer: "\<forall>f\<in>set (tl fs). \<forall>n t hs w. f \<noteq> XferOffer n t hs w" by (auto simp: fs_def in_send_file_frames)
    have "\<exists>t'. session_route P oc hash dct st r ?t (length ?das) =
        Some (file_answers hash (ir_files r) (tl fs), r\<lparr>ir_files := foldl (receiver_step hash) (ir_files r) (map Arrive (tl fs))\<rparr>, t') \<and>
        se_recv t' = se_recv t"
      by (rule session_route_files [OF rest, where rest = "[]"]) simp_all
    then obtain t' where "session_route P oc hash dct st r ?t (length ?das) =
        Some (file_answers hash (ir_files r) (tl fs), r\<lparr>ir_files := foldl (receiver_step hash) (ir_files r) (map Arrive (tl fs))\<rparr>, t')"
      by blast
    moreover have len: "length fs = Suc (length ?das)" by (simp add: fs_def send_file_frames_eq)
    ultimately have "session_route P oc hash dct st r t (length fs) =
        Some (Inl XferSession # file_answers hash (ir_files r) (tl fs), r, t')"
      unfolding len session_route.simps first by (simp add: no_offer_no_effect(1) [OF assms(7) no_offer])
    with no_offer_no_effect(2) [OF assms(7) no_offer, of hash] show ?thesis
      by (intro disjI1 exI [of _ "Inl XferSession # file_answers hash (ir_files r) (tl fs)"] exI [of _ t']) simp
  next
    case (Inr p)
    have "map xfer_encode fs \<noteq> []" "hd (map xfer_encode fs) = xfer_encode (hd fs)" by (subst fs, simp)+
    with cut_offer_forged [OF assms(1,2), of "map xfer_encode fs" p] long lenf Inr show ?thesis by auto
  qed
qed

text \<open>
  C21: A file over a session. Between the two ends of a new session a file of at most
  \<open>2 ^ 30\<close> bytes is sent and all its datagrams arrive in order, at a receiver with any
  destination and no matching sidecar. If the offer, 47 bytes plus the name and
  32 bytes for each fragment of 1024 bytes, has at most 8164 bytes, the last answer of the router
  is the completion and the destination is the file. If it is longer, which every file of more than
  253 fragments is, the offer fails authentication because its datagram is cut to the receive buffer,
  every fragment and the completion are refused and neither destination nor sidecar are touched,
  unless the cut datagram happens to be a valid sealing of something else.
\<close>

theorem file_over_session:
  assumes "prim_ok P" "paired s t" "sock_sends (se_socket s) = []" "k = dc_key (se_send s)"
    and "hash_ok hash data" "length data \<le> 2 ^ 30" "valid_str name" "str_len name < 65536"
    and "snd (resume_open sidecar (file_manifest hash data)) = OpenFresh"
    and "sock_in (se_socket t) = map Inr (file_datagrams P k hash name data addr)"
    and "ir_files r = file_receiver_new dst sidecar"
  defines "frames \<equiv> send_file_frames hash name data"
  shows "(\<exists>s'. session_sends P oc s (map xfer_encode frames) = Some s' \<and>
      map fst (sock_out (se_socket s')) = map fst (sock_out (se_socket s)) @ map fst (file_datagrams P k hash name data addr)) \<and>
    (if offer_len name data \<le> 8164
     then \<exists>as r' t'. session_route P oc hash dct st r t (length frames) = Some (as, r', t') \<and>
        last as = Inr (HandledFile CompleteProgress) \<and> fr_dst (ir_files r') = Some data
     else (\<exists>as t'. session_route P oc hash dct st r t (length frames) = Some (as, r, t') \<and>
         hd as = Inl XferSession \<and> set (tl as) \<subseteq> {Inl XferNoOffer}) \<or>
      (\<exists>p. forged P k 0 (map xfer_encode frames) (take RECV_BUFFER (datagram P k 0 (xfer_encode (hd frames)))) p)) \<and>
    (253 < length (chunks FRAGMENT_LEN data) \<longrightarrow> 8164 < offer_len name data)"
proof -
  have key: "dc_key (se_recv t) = k" "dc_counter (se_send s) = 0" using assms(2,4) by (auto simp: paired_def)
  have "length (chunks FRAGMENT_LEN data) \<le> 2 ^ 20"
    using length_chunks_le [of FRAGMENT_LEN data] assms(6) by (simp add: FRAGMENT_LEN_def)
  then have "length frames < 2 ^ 64" by (simp add: frames_def send_file_frames_eq)
  then have "\<exists>s'. session_sends P oc s (map xfer_encode frames) = Some s' \<and>
      sock_out (se_socket s') = sock_out (se_socket s) @
        map (\<lambda>(i, p). (datagram P k i p, se_peer s)) (List.enumerate 0 (map xfer_encode frames))"
    using session_sends_datagrams [OF assms(3), of "map xfer_encode frames" P oc] key(2) assms(4) by auto
  moreover have "fr_state (ir_files r) = None" by (simp add: assms(11) file_receiver_new_def)
  ultimately show ?thesis
    using file_fits_received [OF assms(1) key(1) assms(5-8) _ _ assms(10), of r oc dct st]
      file_too_long_lost [OF assms(1) key(1) assms(5-8) _ _ assms(10), of r oc dct st] transfer_inv_new [OF assms(9), of dst]
    by (auto simp: frames_def file_datagrams_def assms(11) offer_len_def split_def)
qed

text \<open>The witness sends a file of three bytes with a hash that recognises exactly it.\<close>

definition sample_hash :: "bytes \<Rightarrow> chunk_hash" where
  "sample_hash x = replicate 32 (if x = [1, 2, 3] then 1 else 0)"

theorem file_over_session_witness:
  "\<exists>as r' t'. session_route sample_prim True sample_hash (\<lambda>_. None) [] (inbound_new (file_receiver_new None None))
      (sample_session False (file_datagrams sample_prim [1] sample_hash [65] [1, 2, 3] 7))
      (length (send_file_frames sample_hash [65] [1, 2, 3])) = Some (as, r', t') \<and>
    last as = Inr (HandledFile CompleteProgress) \<and> fr_dst (ir_files r') = Some [1, 2, 3]"
proof -
  let ?das = "file_datagrams sample_prim [1] sample_hash [65] [1, 2, 3] 7 :: (bytes \<times> nat) list"
  have c: "chunks FRAGMENT_LEN [1, 2, 3] = [[1, 2, 3]]"
    by (subst chunks.simps) (simp add: FRAGMENT_LEN_def)
  have h: "hash_ok sample_hash [1, 2, 3]" by (auto simp: hash_ok_def sample_hash_def c numeral_eq_Suc)
  have v: "valid_str [65]" "str_len [65] < 65536" by (simp_all add: valid_str_def valid_char_def str_len_def char_len_utf8_def)
  have fresh: "snd (resume_open None (file_manifest sample_hash [1, 2, 3])) = OpenFresh"
    by (simp add: resume_open_def resume_load_def)
  have fits: "offer_len [65] [1, 2, 3] \<le> 8164" by (simp add: offer_len_def c str_len_def char_len_utf8_def)
  have files: "ir_files (inbound_new (file_receiver_new None None)) = file_receiver_new None None" by (simp add: inbound_new_def)
  have s: "sock_sends (se_socket (sample_session True [])) = []" "[1] = dc_key (se_send (sample_session True []))"
    "sock_in (se_socket (sample_session False ?das)) = map Inr ?das" "length [1, 2, 3 :: u8] \<le> 2 ^ 30"
    by (simp_all add: sample_session_def cipher_new_def)
  from file_over_session [OF sample_prim_ok sample_paired s(1,2) h s(4) v fresh s(3) files, of True "\<lambda>_. None"] fits
  show ?thesis by (simp only: if_True)
qed

end
