(* ===== verification/Peers.thy ===== *)
theory Peers
  imports Kv_Tree
begin

unbundle bit_operations_syntax

text \<open>
  Identity of the peer: the short authentication string
  (\<open>core/crypto/src/short_auth_string.rs\<close>) and the store of known peers
  (\<open>core/crypto/src/known_peers.rs\<close>). The Unicode lower-case mapping of the standard library is a parameter.

  Two phrases are equal exactly when the folded bytes are, and a phrase depends on 12 of the 32
  bytes only. The store is an abstract map from keys to first and last contact, label and number;
  labels are the longest beginnings of whole characters within 120 bytes.
\<close>

section \<open>Short authentication string\<close>

definition lit :: "string \<Rightarrow> rust_str" where
  "lit s = map of_char s"

definition WORD_LIST :: "rust_str list" where
  "WORD_LIST = map lit
     [''acid'', ''acre'', ''aged'', ''ajar'', ''aloe'', ''alto'', ''amen'', ''amok'', ''anew'', ''apex'',
      ''arch'', ''area'', ''aria'', ''army'', ''aura'', ''avid'', ''axle'', ''back'', ''bale'', ''ball'',
      ''balm'', ''band'', ''bank'', ''barn'', ''base'', ''bath'', ''bead'', ''beam'', ''bean'', ''bear'',
      ''belt'', ''bend'', ''bird'', ''bite'', ''blue'', ''bold'', ''bone'', ''book'', ''boom'', ''boot'',
      ''born'', ''bowl'', ''brew'', ''brim'', ''buck'', ''bulb'', ''bulk'', ''bull'', ''bump'', ''burn'',
      ''buzz'', ''cage'', ''cake'', ''calm'', ''camp'', ''cape'', ''card'', ''care'', ''cart'', ''cash'',
      ''cave'', ''cell'', ''cent'', ''chef'', ''chin'', ''chip'', ''chop'', ''clam'', ''clay'', ''clip'',
      ''club'', ''coal'', ''coat'', ''coil'', ''cold'', ''comb'', ''cone'', ''cord'', ''core'', ''corn'',
      ''cost'', ''crab'', ''crew'', ''crop'', ''crow'', ''cube'', ''curb'', ''curl'', ''damp'', ''dark'',
      ''dawn'', ''daze'', ''deft'', ''desk'', ''dial'', ''diet'', ''dire'', ''dish'', ''disk'', ''dock'',
      ''dome'', ''door'', ''dorm'', ''dove'', ''down'', ''drag'', ''drip'', ''drop'', ''drum'', ''dune'',
      ''dusk'', ''dust'', ''earl'', ''earn'', ''echo'', ''edge'', ''emit'', ''epic'', ''exit'', ''face'',
      ''fact'', ''fail'', ''fair'', ''fall'', ''fame'', ''farm'', ''fast'', ''fate'', ''fawn'', ''feat'',
      ''feel'', ''fern'', ''fill'', ''film'', ''fine'', ''fire'', ''fish'', ''fist'', ''flag'', ''flaw'',
      ''flex'', ''flip'', ''flow'', ''foam'', ''fold'', ''folk'', ''fond'', ''fork'', ''form'', ''fort'',
      ''fray'', ''free'', ''fuel'', ''full'', ''fume'', ''fund'', ''fuse'', ''gale'', ''gaze'', ''gear'',
      ''glad'', ''glen'', ''glow'', ''glue'', ''goal'', ''gold'', ''golf'', ''gong'', ''gown'', ''grab'',
      ''grin'', ''grip'', ''grit'', ''gust'', ''hail'', ''half'', ''hall'', ''halt'', ''harm'', ''harp'',
      ''hash'', ''haul'', ''hawk'', ''haze'', ''heal'', ''heap'', ''heat'', ''heel'', ''helm'', ''help'',
      ''herb'', ''hike'', ''hill'', ''hint'', ''hold'', ''hole'', ''hook'', ''horn'', ''hull'', ''hump'',
      ''hurl'', ''idle'', ''inch'', ''iris'', ''isle'', ''itch'', ''item'', ''jade'', ''jail'', ''jolt'',
      ''jury'', ''keen'', ''keel'', ''kelp'', ''knob'', ''knot'', ''lake'', ''lame'', ''lamp'', ''land'',
      ''lane'', ''lark'', ''lava'', ''lawn'', ''leaf'', ''lean'', ''leap'', ''lens'', ''lime'', ''link'',
      ''lint'', ''lion'', ''loft'', ''loom'', ''loop'', ''lord'', ''lore'', ''lull'', ''lump'', ''lung'',
      ''lure'', ''mace'', ''main'', ''mane'', ''mark'', ''mast'', ''maze'', ''mild'', ''mill'', ''mint'',
      ''mist'', ''moan'', ''moat'', ''mode'', ''mold'', ''musk'']"

type_synonym short_auth_string = "u8 \<times> u8 \<times> u8"

definition sas_fold :: "bytes \<Rightarrow> nat \<Rightarrow> u8" where
  "sas_fold m i = m ! i XOR m ! (i + 8) XOR m ! (i + 16) XOR m ! (i + 24)"

definition sas_derive :: "bytes \<Rightarrow> short_auth_string" where
  "sas_derive m = (sas_fold m 0, sas_fold m 1, sas_fold m 2)"

definition word_of :: "u8 \<Rightarrow> rust_str" where
  "word_of b = WORD_LIST ! unat b"

definition sas_words :: "short_auth_string \<Rightarrow> rust_str \<times> rust_str \<times> rust_str" where
  "sas_words sas = (case sas of (a, b, c) \<Rightarrow> (word_of a, word_of b, word_of c))"

definition sas_to_string :: "short_auth_string \<Rightarrow> rust_str" where
  "sas_to_string sas = (case sas_words sas of (a, b, c) \<Rightarrow> a @ lit ''-'' @ b @ lit ''-'' @ c)"

fun fold_diff :: "u8 \<Rightarrow> bytes \<Rightarrow> bytes \<Rightarrow> u8" where
  "fold_diff diff (x # xs) (y # ys) = fold_diff (diff OR (x XOR y)) xs ys"
| "fold_diff diff _ _ = diff"

definition constant_time_eq :: "bytes \<Rightarrow> bytes \<Rightarrow> bool" where
  "constant_time_eq a b = (if length a \<noteq> length b then False else fold_diff 0 a b = 0)"

definition verify_str :: "(rust_str \<Rightarrow> rust_str) \<Rightarrow> short_auth_string \<Rightarrow> rust_str \<Rightarrow> bool" where
  "verify_str to_lowercase sas candidate =
     constant_time_eq (str_as_bytes (sas_to_string sas)) (str_as_bytes (to_lowercase (str_trim candidate)))"

lemma or_eq_0_iff: "(a :: u8) OR b = 0 \<longleftrightarrow> a = 0 \<and> b = 0"
  by (auto simp: bit_eq_iff bit_simps)

lemma xor_eq_0_iff: "(a :: u8) XOR b = 0 \<longleftrightarrow> a = b"
  by (auto simp: bit_eq_iff bit_simps)

lemma fold_diff_0_iff: "length xs = length ys \<Longrightarrow> fold_diff d xs ys = 0 \<longleftrightarrow> d = 0 \<and> xs = ys"
  by (induction xs ys arbitrary: d rule: list_induct2) (auto simp: or_eq_0_iff xor_eq_0_iff)

lemma constant_time_eq_iff: "constant_time_eq a b \<longleftrightarrow> a = b"
  by (auto simp: constant_time_eq_def fold_diff_0_iff)

section \<open>The word list\<close>

definition word_code :: "rust_str \<Rightarrow> nat" where
  "word_code w = foldl (\<lambda>a c. a * 128 + c) 0 w"

lemma length_WORD_LIST: "length WORD_LIST = 256"
  by (simp add: WORD_LIST_def)

lemma words_lower: "list_all (\<lambda>w. w \<noteq> [] \<and> list_all (\<lambda>c. 97 \<le> c \<and> c \<le> 122) w) WORD_LIST"
  by (simp add: WORD_LIST_def lit_def)

definition ascending_except :: "nat list \<Rightarrow> bool" where
  "ascending_except xs \<longleftrightarrow> successively (<) (take 211 xs @ [xs ! 212, xs ! 211] @ drop 213 xs)"

lemma word_codes_ascending: "ascending_except (map word_code WORD_LIST)"
  by (simp add: WORD_LIST_def lit_def word_code_def ascending_except_def)

lemma swap_middle:
  assumes "213 \<le> length xs"
  shows "xs = take 211 xs @ [xs ! 211, xs ! 212] @ drop 213 xs"
proof -
  have "take 213 xs = take 211 xs @ [xs ! 211, xs ! 212]"
    using take_Suc_conv_app_nth [of 211 xs] take_Suc_conv_app_nth [of 212 xs] assms by simp
  then show ?thesis using append_take_drop_id [of 213 xs] by (metis append_assoc)
qed

lemma distinct_WORD_LIST: "distinct WORD_LIST"
proof -
  let ?xs = "map word_code WORD_LIST"
  let ?ys = "take 211 ?xs @ [?xs ! 212, ?xs ! 211] @ drop 213 ?xs"
  have "sorted_wrt (<) ?ys"
    using word_codes_ascending unfolding ascending_except_def by (subst (asm) successively_conv_sorted_wrt) auto
  then have "distinct ?ys" by (simp only: strict_sorted_iff)
  then have "distinct ?xs" by (subst swap_middle) (auto simp: length_WORD_LIST)
  then show ?thesis by (simp add: distinct_map)
qed

lemma word_of_chars: "c \<in> set (word_of b) \<Longrightarrow> 97 \<le> c \<and> c \<le> 122" and word_of_nonempty: "word_of b \<noteq> []"
proof -
  have "unat b < 256" using unat_less_exp [of b] by simp
  then have "word_of b \<in> set WORD_LIST" by (simp add: word_of_def length_WORD_LIST)
  then show "c \<in> set (word_of b) \<Longrightarrow> 97 \<le> c \<and> c \<le> 122" "word_of b \<noteq> []"
    using words_lower by (auto simp: list_all_iff)
qed

lemma word_of_inj: "word_of a = word_of b \<longleftrightarrow> a = b"
proof -
  have "unat a < 256" "unat b < 256" using unat_less_exp [of a] unat_less_exp [of b] by simp_all
  then show ?thesis using distinct_WORD_LIST by (auto simp: word_of_def nth_eq_iff_index_eq length_WORD_LIST simp flip: word_unat_eq_iff)
qed

lemma append_dash_inj: "45 \<notin> set a \<Longrightarrow> 45 \<notin> set b \<Longrightarrow> a @ 45 # x = b @ 45 # y \<longleftrightarrow> a = b \<and> x = (y :: rust_str)"
proof (induction a arbitrary: b)
  case (Cons c a)
  then show ?case by (cases b) auto
qed (metis append_Nil append_eq_Cons_conv list.set_intros(1) list.inject)

lemma word_no_dash: "45 \<notin> set (word_of b)"
  using word_of_chars [of 45 b] by auto

lemma sas_to_string_eq: "sas_to_string (a, b, c) = word_of a @ 45 # word_of b @ 45 # word_of c"
  by (simp add: sas_to_string_def sas_words_def lit_def)

lemma sas_to_string_inj: "sas_to_string s = sas_to_string t \<longleftrightarrow> s = t"
  by (cases s; cases t) (auto simp: sas_to_string_eq append_dash_inj word_no_dash word_of_inj)

lemma sas_chars: "c \<in> set (sas_to_string s) \<Longrightarrow> c = 45 \<or> 97 \<le> c \<and> c \<le> 122"
  by (cases s) (auto simp: sas_to_string_eq dest: word_of_chars)

text \<open>What the standard library documents of \<open>to_lowercase\<close> on ASCII text.\<close>

definition ascii_lower :: "rust_char \<Rightarrow> rust_char" where
  "ascii_lower c = (if 65 \<le> c \<and> c \<le> 90 then c + 32 else c)"

definition lower_ok :: "(rust_str \<Rightarrow> rust_str) \<Rightarrow> bool" where
  "lower_ok to_lowercase \<longleftrightarrow>
     (\<forall>s. valid_str s \<longrightarrow> valid_str (to_lowercase s)) \<and>
     (\<forall>s. (\<forall>c\<in>set s. c < 128) \<longrightarrow> to_lowercase s = map ascii_lower s)"

lemma str_trim_subset: "set (str_trim s) \<subseteq> set s"
  by (auto simp: str_trim_def dest!: set_dropWhileD)

lemma verify_str_iff:
  assumes "lower_ok to_lowercase" "valid_str cand"
  shows "verify_str to_lowercase sas cand \<longleftrightarrow> to_lowercase (str_trim cand) = sas_to_string sas"
proof -
  have "valid_str (str_trim cand)" using assms(2) str_trim_subset [of cand] by (auto simp: valid_str_def list_all_iff)
  moreover have "c < 128" if "c \<in> set (sas_to_string sas)" for c using sas_chars [OF that] by auto
  ultimately show ?thesis
    using assms(1) str_as_bytes_inj [OF valid_str_ascii] by (auto simp: verify_str_def constant_time_eq_iff lower_ok_def)
qed

lemma str_trim_visible:
  assumes "\<forall>c\<in>set s. \<not> char_is_whitespace c" "\<forall>c\<in>set u \<union> set v. char_is_whitespace c" "s \<noteq> []"
  shows "str_trim (u @ s @ v) = s"
proof -
  have "dropWhile char_is_whitespace (u @ s @ v) = s @ v" using assms by (cases s) (auto simp: dropWhile_append)
  moreover have "dropWhile char_is_whitespace (rev v @ rev s) = rev s"
    using assms by (cases "rev s") (auto simp: dropWhile_append simp flip: set_rev [of s])
  ultimately show ?thesis by (simp add: str_trim_def)
qed

lemma sas_fold_cong:
  "m ! i = m' ! i \<Longrightarrow> m ! (i + 8) = m' ! (i + 8) \<Longrightarrow> m ! (i + 16) = m' ! (i + 16) \<Longrightarrow> m ! (i + 24) = m' ! (i + 24) \<Longrightarrow>
     sas_fold m i = sas_fold m' i"
  by (simp add: sas_fold_def)

lemma all_less_3: "(\<forall>i<3. P i) \<longleftrightarrow> P 0 \<and> P 1 \<and> P (2 :: nat)"
  by (auto simp: less_Suc_eq numeral_eq_Suc)

lemma phrase_char_visible: "c = 45 \<or> 65 \<le> c \<and> c \<le> 90 \<or> 97 \<le> c \<and> c \<le> 122 \<Longrightarrow> \<not> char_is_whitespace c \<and> c < 128"
  by (auto simp: char_is_whitespace_def)

text \<open>
  What a spoken phrase shows. A peer's phrase, typed in any case and with white space
  around it, is accepted exactly if both sides fold their transcript hashes to the same three
  bytes. Only the bytes 0 to 2, 8 to 10, 16 to 18 and 24 to 26 of the hash enter: hashes that
  differ elsewhere, 20 of the 32 bytes, have the same phrase.
\<close>

lemma sas_verifies_fold:
  assumes "lower_ok to_lowercase" "length m = 32" "length m' = 32"
    and "map ascii_lower typed = sas_to_string (sas_derive m')" "\<forall>c\<in>set u \<union> set v. char_is_whitespace c" "valid_str (u @ v)"
  shows "(verify_str to_lowercase (sas_derive m) (u @ typed @ v) \<longleftrightarrow> (\<forall>i<3. sas_fold m i = sas_fold m' i)) \<and>
    ((\<forall>i\<in>{0, 1, 2, 8, 9, 10, 16, 17, 18, 24, 25, 26}. m ! i = m' ! i) \<longrightarrow>
       verify_str to_lowercase (sas_derive m) (u @ typed @ v))"
proof -
  have typed: "c = 45 \<or> 65 \<le> c \<and> c \<le> 90 \<or> 97 \<le> c \<and> c \<le> 122" if "c \<in> set typed" for c
  proof -
    have "ascii_lower c \<in> set (sas_to_string (sas_derive m'))" using that by (simp flip: assms(4))
    from sas_chars [OF this] show ?thesis by (auto simp: ascii_lower_def split: if_splits)
  qed
  have vis: "\<forall>c\<in>set typed. \<not> char_is_whitespace c" using typed phrase_char_visible by blast
  have ne: "typed \<noteq> []" using assms(4) by (cases "sas_derive m'") (auto simp: sas_to_string_eq)
  have asc: "\<forall>c\<in>set typed. c < 128" using typed phrase_char_visible by blast
  have "valid_str (u @ typed @ v)" using assms(6) valid_str_ascii [of typed] asc by (auto simp: valid_str_def)
  then have "verify_str to_lowercase (sas_derive m) (u @ typed @ v) \<longleftrightarrow> to_lowercase typed = sas_to_string (sas_derive m)"
    using verify_str_iff [OF assms(1)] str_trim_visible [OF vis assms(5) ne] by simp
  then have v: "verify_str to_lowercase (sas_derive m) (u @ typed @ v) \<longleftrightarrow> sas_derive m' = sas_derive m"
    using assms(1,4) asc by (simp add: lower_ok_def sas_to_string_inj)
  have "sas_derive m' = sas_derive m \<longleftrightarrow> (\<forall>i<3. sas_fold m i = sas_fold m' i)"
    by (auto simp: sas_derive_def all_less_3)
  moreover have "sas_derive m' = sas_derive m" if "\<forall>i\<in>{0, 1, 2, 8, 9, 10, 16, 17, 18, 24, 25, 26}. m ! i = m' ! i"
    using that sas_fold_cong [of m 0 m'] sas_fold_cong [of m 1 m'] sas_fold_cong [of m 2 m'] by (simp add: sas_derive_def)
  ultimately show ?thesis using v by blast
qed

section \<open>Known peers\<close>

record known_peer =
  kp_id :: u64
  kp_static_pubkey :: bytes
  kp_display_label :: "rust_str option"
  kp_first_seen_at_ms :: u64
  kp_last_seen_at_ms :: u64

record known_peer_store =
  ks_peers :: "known_peer list"
  ks_next_id :: u64

definition peer_store_new :: known_peer_store where
  "peer_store_new = \<lparr>ks_peers = [], ks_next_id = 1\<rparr>"

text \<open>\<open>position\<close>.\<close>

fun position_by :: "('a \<Rightarrow> bool) \<Rightarrow> 'a list \<Rightarrow> nat option" where
  "position_by P [] = None"
| "position_by P (x # xs) = (if P x then Some 0 else map_option Suc (position_by P xs))"

definition find_index :: "known_peer_store \<Rightarrow> bytes \<Rightarrow> nat option" where
  "find_index s key = position_by (\<lambda>p. kp_static_pubkey p = key) (ks_peers s)"

text \<open>\<open>None\<close> is the panic of \<open>next_id += 1\<close> at \<open>u64::MAX\<close> in a build with overflow checks.\<close>

definition peer_upsert :: "bool \<Rightarrow> known_peer_store \<Rightarrow> bytes \<Rightarrow> u64 \<Rightarrow> (u64 \<times> known_peer_store) option" where
  "peer_upsert overflow_checks s key now_ms =
     (case find_index s key of
        Some i \<Rightarrow>
          (let p = ks_peers s ! i;
               p' = (if kp_last_seen_at_ms p < now_ms then p\<lparr>kp_last_seen_at_ms := now_ms\<rparr> else p)
           in Some (kp_id p, s\<lparr>ks_peers := (ks_peers s)[i := p']\<rparr>))
      | None \<Rightarrow>
          (let pid = ks_next_id s
           in if overflow_checks \<and> pid = - 1 then None
              else Some (pid, \<lparr>ks_peers = ks_peers s @
                [\<lparr>kp_id = pid, kp_static_pubkey = key, kp_display_label = None, kp_first_seen_at_ms = now_ms, kp_last_seen_at_ms = now_ms\<rparr>],
                ks_next_id = pid + 1\<rparr>)))"

definition peer_get :: "known_peer_store \<Rightarrow> u64 \<Rightarrow> known_peer option" where
  "peer_get s pid = find (\<lambda>p. kp_id p = pid) (ks_peers s)"

definition find_by_key :: "known_peer_store \<Rightarrow> bytes \<Rightarrow> known_peer option" where
  "find_by_key s key = find (\<lambda>p. kp_static_pubkey p = key) (ks_peers s)"

text \<open>\<open>is_char_boundary\<close> and the slice of a string up to a boundary.\<close>

fun is_char_boundary :: "rust_str \<Rightarrow> nat \<Rightarrow> bool" where
  "is_char_boundary s 0 = True"
| "is_char_boundary [] (Suc n) = False"
| "is_char_boundary (c # s) n = (char_len_utf8 c \<le> n \<and> is_char_boundary s (n - char_len_utf8 c))"

fun str_slice_to :: "rust_str \<Rightarrow> nat \<Rightarrow> rust_str" where
  "str_slice_to s 0 = []"
| "str_slice_to [] (Suc n) = []"
| "str_slice_to (c # s) n = c # str_slice_to s (n - char_len_utf8 c)"

fun walk_back :: "rust_str \<Rightarrow> nat \<Rightarrow> nat" where
  "walk_back s 0 = 0"
| "walk_back s (Suc n) = (if is_char_boundary s (Suc n) then Suc n else walk_back s n)"

definition truncate_to_120_bytes :: "rust_str \<Rightarrow> rust_str" where
  "truncate_to_120_bytes s = (if str_len s \<le> 120 then s else str_slice_to s (walk_back s 120))"

definition set_label :: "known_peer_store \<Rightarrow> u64 \<Rightarrow> rust_str \<Rightarrow> bool \<times> known_peer_store" where
  "set_label s pid label =
     (case position_by (\<lambda>p. kp_id p = pid) (ks_peers s) of
        None \<Rightarrow> (False, s)
      | Some i \<Rightarrow>
          (True, s\<lparr>ks_peers := (ks_peers s)[i := (ks_peers s ! i)\<lparr>kp_display_label := Some (truncate_to_120_bytes label)\<rparr>]\<rparr>))"

section \<open>Export\<close>

fun dec_str :: "nat \<Rightarrow> rust_str" where
  "dec_str n = (if n < 10 then [48 + n] else dec_str (n div 10) @ [48 + n mod 10])"

declare dec_str.simps [simp del]

definition hex_bytes :: "bytes \<Rightarrow> rust_str" where
  "hex_bytes bs = concat (map (\<lambda>b. fixed_digits 16 2 (unat b)) bs)"

definition escape_quotes :: "rust_str \<Rightarrow> rust_str" where
  "escape_quotes s = concat (map (\<lambda>c. if c = 34 then [92, 34] else [c]) s)"

definition peer_to_json :: "known_peer \<Rightarrow> rust_str" where \<open>
  peer_to_json p =
     lit ''{"id":'' @ dec_str (unat (kp_id p)) @ lit '',"static_pubkey":"'' @ hex_bytes (kp_static_pubkey p) @
     lit ''","display_label":'' @
     (case kp_display_label p of Some l \<Rightarrow> [34] @ escape_quotes l @ [34] | None \<Rightarrow> lit ''null'') @
     lit '',"first_seen_at_ms":'' @ dec_str (unat (kp_first_seen_at_ms p)) @
     lit '',"last_seen_at_ms":'' @ dec_str (unat (kp_last_seen_at_ms p)) @ lit ''}''\<close>

definition peers_export_json :: "known_peer_store \<Rightarrow> rust_str" where \<open>
  peers_export_json s =
     lit ''{"known_peers":['' @
     concat (map (\<lambda>(i, p). (if 0 < i then lit '','' else []) @ peer_to_json p) (List.enumerate 0 (ks_peers s))) @
     lit '']}''\<close>

section \<open>Labels\<close>

lemma boundary_slice:
  "is_char_boundary s n \<Longrightarrow> str_len (str_slice_to s n) = n \<and> (\<exists>t. s = str_slice_to s n @ t)"
  by (induction s n rule: is_char_boundary.induct) (auto simp: str_len_def char_len_utf8_def split: if_splits)

lemma prefix_boundary: "is_char_boundary (s @ t) (str_len s)"
proof (induction s)
  case (Cons c s)
  have "0 < char_len_utf8 c" by (simp add: char_len_utf8_def)
  then obtain n where n: "str_len (c # s) = Suc n" "Suc n - char_len_utf8 c = str_len s" "char_len_utf8 c \<le> Suc n"
    by (cases "str_len (c # s)") (auto simp: str_len_def)
  then show ?case using Cons by simp
qed (simp add: str_len_def)

lemma walk_back_boundary: "is_char_boundary s (walk_back s n) \<and> walk_back s n \<le> n"
  by (induction n) auto

lemma walk_back_greatest: "is_char_boundary s k \<Longrightarrow> k \<le> n \<Longrightarrow> k \<le> walk_back s n"
  by (induction n) (auto simp: le_Suc_eq)

lemma truncate_longest:
  "str_len (truncate_to_120_bytes s) \<le> 120" "\<exists>t. s = truncate_to_120_bytes s @ t"
  "s = u @ v \<Longrightarrow> str_len u \<le> 120 \<Longrightarrow> str_len u \<le> str_len (truncate_to_120_bytes s)"
proof -
  note b = walk_back_boundary [of s 120]
  show "str_len (truncate_to_120_bytes s) \<le> 120" "\<exists>t. s = truncate_to_120_bytes s @ t"
    using b boundary_slice [of s "walk_back s 120"] by (auto simp: truncate_to_120_bytes_def)
  show "str_len u \<le> str_len (truncate_to_120_bytes s)" if "s = u @ v" "str_len u \<le> 120"
    using that b boundary_slice [of s "walk_back s 120"] walk_back_greatest [of s "str_len u" 120] prefix_boundary [of u v]
    by (auto simp: truncate_to_120_bytes_def str_len_append)
qed

section \<open>Reading a label back\<close>

text \<open>The characters of a JSON string up to its closing quote, and what follows; \<open>\u\<close> is never written.\<close>

definition json_escape_char :: "rust_char \<Rightarrow> rust_char option" where
  "json_escape_char e = map_of [(34, 34), (92, 92), (47, 47), (98, 8), (102, 12), (110, 10), (114, 13), (116, 9)] e"

fun json_string_body :: "rust_str \<Rightarrow> (rust_str \<times> rust_str) option" where
  "json_string_body [] = None"
| "json_string_body (c # s) =
     (if c = 34 then Some ([], s)
      else if c = 92 then
        (case s of
           [] \<Rightarrow> None
         | e # s' \<Rightarrow>
             (case json_escape_char e of
                None \<Rightarrow> None
              | Some d \<Rightarrow> map_option (\<lambda>(t, rest). (d # t, rest)) (json_string_body s')))
      else if c < 32 then None
      else map_option (\<lambda>(t, rest). (c # t, rest)) (json_string_body s))"

text \<open>A label without backslashes and control characters is read back.\<close>

lemma label_read_back:
  "\<forall>c\<in>set l. c \<noteq> 92 \<and> 32 \<le> c \<Longrightarrow> json_string_body (escape_quotes l @ 34 # rest) = Some (l, rest)"
  by (induction l) (auto simp: escape_quotes_def json_escape_char_def)

text \<open>
  Backslashes are not escaped: a label that ends in one makes the string run on to the next
  quote, and a backslash before an \<open>n\<close> is read as a line break.
\<close>

lemma label_backslash_misread:
  "json_string_body (escape_quotes [65, 92] @ 34 # lit '',x'' @ 34 # rest) = Some ([65, 34, 44, 120], rest)"
  "json_string_body (escape_quotes [92, 110] @ 34 # rest) = Some ([10], rest)"
  by (simp_all add: escape_quotes_def json_escape_char_def lit_def)

section \<open>The store against its history\<close>

datatype peer_op = OpUpsert bytes u64 | OpSetLabel u64 rust_str

fun peer_step :: "bool \<Rightarrow> known_peer_store \<Rightarrow> peer_op \<Rightarrow> known_peer_store option" where
  "peer_step oc s (OpUpsert key now) = map_option snd (peer_upsert oc s key now)"
| "peer_step oc s (OpSetLabel pid label) = Some (snd (set_label s pid label))"

fun peer_run :: "bool \<Rightarrow> known_peer_store \<Rightarrow> peer_op list \<Rightarrow> known_peer_store option" where
  "peer_run oc s [] = Some s"
| "peer_run oc s (op # ops) = (case peer_step oc s op of None \<Rightarrow> None | Some s' \<Rightarrow> peer_run oc s' ops)"

lemma peer_run_snoc:
  "peer_run oc s (ops @ [op]) = (case peer_run oc s ops of None \<Rightarrow> None | Some s' \<Rightarrow> peer_step oc s' op)"
  by (induction ops arbitrary: s) (auto split: option.splits)

text \<open>The keys in the order of first contact and the times of contact with a key.\<close>

fun op_contact :: "peer_op \<Rightarrow> (bytes \<times> u64) list" where
  "op_contact (OpUpsert key now) = [(key, now)]"
| "op_contact (OpSetLabel pid label) = []"

definition contacts :: "peer_op list \<Rightarrow> (bytes \<times> u64) list" where
  "contacts ops = concat (map op_contact ops)"

definition contact_times :: "peer_op list \<Rightarrow> bytes \<Rightarrow> u64 list" where
  "contact_times ops key = map snd (filter (\<lambda>kt. fst kt = key) (contacts ops))"

definition keys_seen :: "peer_op list \<Rightarrow> bytes list" where
  "keys_seen ops = rev (remdups (rev (map fst (contacts ops))))"

lemma contacts_snoc [simp]: "contacts (ops @ [op]) = contacts ops @ op_contact op" "contacts [] = []"
  by (simp_all add: contacts_def)

lemma keys_seen_upsert:
  "keys_seen (ops @ [OpUpsert key now]) = (if key \<in> set (keys_seen ops) then keys_seen ops else keys_seen ops @ [key])"
  by (simp add: keys_seen_def)

lemma keys_seen_label [simp]: "keys_seen (ops @ [OpSetLabel pid l]) = keys_seen ops" "contact_times (ops @ [OpSetLabel pid l]) = contact_times ops"
  by (simp_all add: keys_seen_def contact_times_def fun_eq_iff)

lemma distinct_keys_seen: "distinct (keys_seen ops)"
  by (simp add: keys_seen_def)

lemma contact_times_upsert:
  "contact_times (ops @ [OpUpsert key now]) k = contact_times ops k @ (if k = key then [now] else [])"
  by (simp add: contact_times_def)

lemma contact_times_Nil_iff: "contact_times ops key = [] \<longleftrightarrow> key \<notin> set (keys_seen ops)"
  by (force simp: contact_times_def keys_seen_def filter_empty_conv)

text \<open>The entry of a key that was seen.\<close>

definition entry_ok :: "peer_op list \<Rightarrow> nat \<Rightarrow> known_peer \<Rightarrow> bool" where
  "entry_ok ops i p \<longleftrightarrow>
     kp_id p = of_nat (Suc i) \<and> kp_static_pubkey p = keys_seen ops ! i \<and>
     kp_first_seen_at_ms p = hd (contact_times ops (keys_seen ops ! i)) \<and>
     kp_last_seen_at_ms p = Max (set (contact_times ops (keys_seen ops ! i))) \<and>
     (\<forall>l. kp_display_label p = Some l \<longrightarrow> str_len l \<le> 120)"

definition store_ok :: "peer_op list \<Rightarrow> known_peer_store \<Rightarrow> bool" where
  "store_ok ops s \<longleftrightarrow>
     length (ks_peers s) = length (keys_seen ops) \<and> ks_next_id s = of_nat (Suc (length (keys_seen ops))) \<and>
     (\<forall>i<length (keys_seen ops). entry_ok ops i (ks_peers s ! i))"

lemma position_by_Some: "position_by P xs = Some i \<Longrightarrow> i < length xs \<and> P (xs ! i)"
  by (induction xs arbitrary: i) (auto split: if_splits)

lemma position_by_None_iff: "position_by P xs = None \<longleftrightarrow> (\<forall>x\<in>set xs. \<not> P x)"
  by (induction xs) auto

lemma store_keys: "store_ok ops s \<Longrightarrow> map kp_static_pubkey (ks_peers s) = keys_seen ops"
  by (auto simp: store_ok_def entry_ok_def intro: nth_equalityI)

lemma store_ok_new: "store_ok [] peer_store_new"
  by (simp add: store_ok_def peer_store_new_def keys_seen_def)

lemma store_ok_label: "store_ok ops s \<Longrightarrow> store_ok (ops @ [OpSetLabel pid l]) (snd (set_label s pid l))"
proof (cases "position_by (\<lambda>p. kp_id p = pid) (ks_peers s)")
  case (Some i)
  assume a: "store_ok ops s"
  have "i < length (ks_peers s)" using position_by_Some [OF Some] by simp
  then show ?thesis
    using a by (auto simp: store_ok_def entry_ok_def set_label_def Some nth_list_update truncate_longest(1))
qed (simp add: store_ok_def entry_ok_def set_label_def)

lemma store_ok_repeat:
  assumes "store_ok ops s" "find_index s key = Some i"
  shows "\<exists>s'. peer_upsert oc s key now = Some (of_nat (Suc i), s') \<and> store_ok (ops @ [OpUpsert key now]) s'"
proof -
  have i: "i < length (keys_seen ops)" "keys_seen ops ! i = key"
    using assms by (auto simp: find_index_def store_ok_def entry_ok_def dest!: position_by_Some)
  then have seen: "key \<in> set (keys_seen ops)" by (metis nth_mem)
  then have ne: "contact_times ops key \<noteq> []" by (simp add: contact_times_Nil_iff)
  have other: "keys_seen ops ! j = key \<longleftrightarrow> j = i" if "j < length (keys_seen ops)" for j
    using that i distinct_keys_seen [of ops] by (metis nth_eq_iff_index_eq)
  let ?p = "ks_peers s ! i" and ?ops = "ops @ [OpUpsert key now]"
  let ?p' = "if kp_last_seen_at_ms ?p < now then ?p\<lparr>kp_last_seen_at_ms := now\<rparr> else ?p"
  have keys: "keys_seen ?ops = keys_seen ops" using seen by (simp add: keys_seen_upsert)
  have p: "entry_ok ops i ?p" using assms(1) i(1) by (simp add: store_ok_def)
  have "Max (set (contact_times ?ops key)) = max now (Max (set (contact_times ops key)))"
    using ne by (simp add: contact_times_upsert)
  then have "entry_ok ?ops i ?p'"
    using p i(2) ne unfolding entry_ok_def keys by (auto simp: contact_times_upsert max_def simp del: Max_less_iff)
  moreover have "entry_ok ?ops j (ks_peers s ! j)" if "j < length (keys_seen ops)" "j \<noteq> i" for j
    using assms(1) that other [OF that(1)] unfolding store_ok_def entry_ok_def keys by (simp add: contact_times_upsert)
  ultimately have "store_ok ?ops (s\<lparr>ks_peers := (ks_peers s)[i := ?p']\<rparr>)"
    using assms(1) i(1) unfolding store_ok_def keys by (auto simp: nth_list_update split: if_splits)
  then show ?thesis
    using assms(2) p by (simp add: peer_upsert_def Let_def entry_ok_def)
qed

lemma store_ok_first:
  assumes "store_ok ops s" "find_index s key = None" "length (keys_seen ops) < 2 ^ 64 - 2"
  shows "\<exists>s'. peer_upsert oc s key now = Some (of_nat (Suc (length (keys_seen ops))), s') \<and> store_ok (ops @ [OpUpsert key now]) s'"
proof -
  have new: "key \<notin> set (keys_seen ops)"
    using assms(2) by (auto simp: find_index_def position_by_None_iff simp flip: store_keys [OF assms(1)])
  then have t: "contact_times ops key = []" by (simp add: contact_times_Nil_iff)
  have "unat (of_nat (Suc (length (keys_seen ops))) :: u64) = Suc (length (keys_seen ops))"
    using assms(3) by (simp add: unsigned_of_nat take_bit_eq_mod del: of_nat_Suc)
  moreover have "unat (- 1 :: u64) = 2 ^ 64 - 1" by (simp add: unsigned_minus_1_eq_mask mask_eq_exp_minus_1)
  ultimately have nid: "ks_next_id s \<noteq> - 1" using assms(1,3) by (auto simp: store_ok_def simp del: of_nat_Suc)
  have old: "keys_seen ops ! i \<noteq> key" if "i < length (keys_seen ops)" for i using new that by (metis nth_mem)
  show ?thesis
    using assms(1,2) nid new t old
    by (auto simp: peer_upsert_def Let_def store_ok_def entry_ok_def keys_seen_upsert contact_times_upsert nth_append less_Suc_eq)
qed

lemma length_keys_seen: "length (keys_seen ops) \<le> length ops"
proof -
  have "length (contacts ops) \<le> length ops"
    unfolding contacts_def
  proof (induction ops)
    case (Cons op ops)
    then show ?case by (cases op) auto
  qed simp
  then show ?thesis by (simp add: keys_seen_def) (metis length_map length_remdups_leq length_rev order_trans)
qed

lemma peer_run_ok: "length ops < 2 ^ 64 - 2 \<Longrightarrow> \<exists>s. peer_run oc peer_store_new ops = Some s \<and> store_ok ops s"
proof (induction ops rule: rev_induct)
  case (snoc op ops)
  then obtain s where s: "peer_run oc peer_store_new ops = Some s" "store_ok ops s" by auto
  show ?case
  proof (cases op)
    case (OpUpsert key now)
    have "length (keys_seen ops) < 2 ^ 64 - 2" using length_keys_seen [of ops] snoc.prems by simp
    then show ?thesis
      using store_ok_first [OF s(2), of key oc now] store_ok_repeat [OF s(2), of key _ oc now] s(1) OpUpsert
      by (cases "find_index s key") (fastforce simp: peer_run_snoc)+
  next
    case (OpSetLabel pid label)
    then show ?thesis using s store_ok_label by (simp add: peer_run_snoc)
  qed
qed (simp add: store_ok_new)

lemma find_nth_unique:
  "i < length xs \<Longrightarrow> P (xs ! i) \<Longrightarrow> (\<And>j. j < length xs \<Longrightarrow> P (xs ! j) \<Longrightarrow> j = i) \<Longrightarrow> find P xs = Some (xs ! i)"
  by (metis find_Some_iff nat_neq_iff order_less_trans)

text \<open>
  C22: The store of known peers is its history. After any sequence of contacts and labels (fewer
  than \<open>2 ^ 64 - 2\<close>), none of which panics, the store has one entry for each key seen, in the
  order of first contact; the entries are numbered from one, are found by key and by number, hold the
  time of the first contact and the latest of all times given, in whatever order the times
  came, and a label of at most 120 bytes; no other key is found.
\<close>

theorem known_peers_refine:
  assumes "length ops < 2 ^ 64 - 2"
  shows "\<exists>s. peer_run oc peer_store_new ops = Some s \<and> map kp_static_pubkey (ks_peers s) = keys_seen ops \<and>
    (\<forall>i<length (keys_seen ops). \<exists>p. find_by_key s (keys_seen ops ! i) = Some p \<and> peer_get s (of_nat (Suc i)) = Some p \<and>
       kp_id p = of_nat (Suc i) \<and>
       kp_first_seen_at_ms p = hd (contact_times ops (keys_seen ops ! i)) \<and>
       kp_last_seen_at_ms p = Max (set (contact_times ops (keys_seen ops ! i))) \<and>
       (\<forall>l. kp_display_label p = Some l \<longrightarrow> str_len l \<le> 120)) \<and>
    (\<forall>key. key \<notin> set (keys_seen ops) \<longrightarrow> find_by_key s key = None)"
proof -
  obtain s where s: "peer_run oc peer_store_new ops = Some s" "store_ok ops s" using peer_run_ok [OF assms] by blast
  note keys = store_keys [OF s(2)]
  have len: "length (keys_seen ops) < 2 ^ 64 - 2" using length_keys_seen [of ops] assms by simp
  have num: "of_nat (Suc i) = (of_nat (Suc j) :: u64) \<longleftrightarrow> i = j" if "i < length (keys_seen ops)" "j < length (keys_seen ops)" for i j
  proof
    assume "of_nat (Suc i) = (of_nat (Suc j) :: u64)"
    then have "unat (of_nat (Suc i) :: u64) = unat (of_nat (Suc j) :: u64)" by simp
    then show "i = j" using that len by (simp add: unsigned_of_nat take_bit_eq_mod del: of_nat_Suc)
  qed simp
  have entry: "entry_ok ops i (ks_peers s ! i)" if "i < length (keys_seen ops)" for i using s(2) that by (simp add: store_ok_def)
  have lens: "length (ks_peers s) = length (keys_seen ops)" using s(2) by (simp add: store_ok_def)
  have by_key: "find_by_key s (keys_seen ops ! i) = Some (ks_peers s ! i)" if "i < length (keys_seen ops)" for i
    unfolding find_by_key_def using that entry lens distinct_keys_seen [of ops]
    by (intro find_nth_unique) (auto simp: entry_ok_def nth_eq_iff_index_eq)
  have by_id: "peer_get s (of_nat (Suc i)) = Some (ks_peers s ! i)" if "i < length (keys_seen ops)" for i
    unfolding peer_get_def using that entry lens num by (intro find_nth_unique) (auto simp: entry_ok_def simp del: of_nat_Suc)
  have none: "find_by_key s key = None" if "key \<notin> set (keys_seen ops)" for key
    using that by (auto simp: find_by_key_def find_None_iff simp flip: keys)
  show ?thesis
    using s(1) keys by_key by_id none entry by (intro exI [of _ s]) (auto simp: entry_ok_def simp del: of_nat_Suc)
qed

theorem known_peers_refine_witness:
  "\<exists>s p. peer_run True peer_store_new [OpUpsert [7] 5000, OpUpsert [8] 6000, OpSetLabel 1 [65], OpUpsert [7] 1000] = Some s \<and>
     map kp_static_pubkey (ks_peers s) = [[7], [8]] \<and> find_by_key s [7] = Some p \<and> kp_last_seen_at_ms p = 5000 \<and> kp_first_seen_at_ms p = 5000"
proof -
  let ?ops = "[OpUpsert [7] 5000, OpUpsert [8] 6000, OpSetLabel 1 [65], OpUpsert [7] 1000]"
  have k: "keys_seen ?ops = [[7], [8]]" by (simp add: keys_seen_def contacts_def)
  have t: "contact_times ?ops [7] = [5000, 1000]" by (simp add: contact_times_def contacts_def)
  have "length ?ops < 2 ^ 64 - 2" by simp
  from known_peers_refine [OF this, of True] k t show ?thesis by (fastforce simp: max_def)
qed

end
