(* ===== verification/Ipc.thy ===== *)
theory Ipc
  imports Governor Codec "HOL-Library.Sublist"
begin

text \<open>
  The socket between the daemon and its user-interface shells (\<open>core/platform/src/ipc.rs\<close>, with the
  requests of \<open>core/platform/src/elevation.rs\<close> that travel over it).

  The FlatBuffers builder is third-party code and a parameter: a function from the slots of a
  table to the bytes of the buffer, of which the theorems ask that the buffer has the documented
  layout (\<open>fb_holds\<close>). The reader is the hand-written one of the source, with its panics as
  \<open>None\<close>. A value of type \<open>f32\<close> is its bit pattern.

  What is sent is what arrives, frame by frame, up to the fields that are not carried; every shell gets
  the events in order and misses only those that were broadcast while its queue was full; and a crafted
  frame makes the reader panic.
\<close>

section \<open>Elevation requests\<close>

datatype escalation_reason = ScreenCapture | InputInjection | ServiceInstall | ProtectedWrite

datatype elevation_kind = WindowsUac | MacosTcc | LinuxPolkit | DaemonDrop

datatype elevation_outcome = Granted | Denied | Unavailable

record elevation_request =
  er_reason :: escalation_reason
  er_kind :: elevation_kind

definition is_granted :: "elevation_outcome \<Rightarrow> bool" where
  "is_granted out \<longleftrightarrow> out = Granted"

text \<open>
  On Windows the answer comes over a bridge: \<open>None\<close> when none is registered, otherwise whether the
  request could be sent and the answer, if the channel is still open. Elsewhere there is none.
\<close>

definition platform_execute :: "bool \<Rightarrow> (bool \<times> elevation_outcome option) option \<Rightarrow> elevation_outcome" where
  "platform_execute windows bridge =
     (if windows then
        (case bridge of
           None \<Rightarrow> Unavailable
         | Some (sent, answer) \<Rightarrow> if \<not> sent then Unavailable else (case answer of Some out \<Rightarrow> out | None \<Rightarrow> Unavailable))
      else Unavailable)"

section \<open>Events\<close>

type_synonym f32_bits = u32

definition IPC_KIND_TIER :: u8 where "IPC_KIND_TIER = 0"
definition IPC_KIND_BUDGET :: u8 where "IPC_KIND_BUDGET = 1"
definition IPC_KIND_GEAR :: u8 where "IPC_KIND_GEAR = 2"
definition IPC_KIND_ELEV_REQ :: u8 where "IPC_KIND_ELEV_REQ = 3"
definition IPC_KIND_ELEV_RESP :: u8 where "IPC_KIND_ELEV_RESP = 4"
definition IPC_KIND_PANIC :: u8 where "IPC_KIND_PANIC = 5"

datatype ipc_event =
  TierUpdate tier_state f32_bits thermal_pressure
| StreamBudget stream_budgets u32 f32_bits
| GearUpdate gear_constraints
| ElevationRequested escalation_reason
| ElevationResponse escalation_reason elevation_outcome
| PanicFired u32

fun tier_to_u8 :: "tier_state \<Rightarrow> u8" where
  "tier_to_u8 Survival = 0"
| "tier_to_u8 Constrained = 1"
| "tier_to_u8 Comfortable = 2"
| "tier_to_u8 Full = 3"

definition tier_from_u8 :: "u8 \<Rightarrow> tier_state" where
  "tier_from_u8 v = (if v = 1 then Constrained else if v = 2 then Comfortable else if v = 3 then Full else Survival)"

fun thermal_to_u8 :: "thermal_pressure \<Rightarrow> u8" where
  "thermal_to_u8 Nominal = 0"
| "thermal_to_u8 Fair = 1"
| "thermal_to_u8 Serious = 2"
| "thermal_to_u8 Critical = 3"

definition thermal_from_u8 :: "u8 \<Rightarrow> thermal_pressure" where
  "thermal_from_u8 v = (if v = 1 then Fair else if v = 2 then Serious else if v = 3 then Critical else Nominal)"

fun camera_gear_to_pair :: "camera_gear \<Rightarrow> u8 \<times> u8" where
  "camera_gear_to_pair GearA = (0, 0)"
| "camera_gear_to_pair (GearB svt_preset) = (1, of_nat svt_preset)"
| "camera_gear_to_pair CameraOff = (2, 0)"
| "camera_gear_to_pair GearC = (3, 0)"

definition camera_gear_from_pair :: "u8 \<Rightarrow> u8 \<Rightarrow> camera_gear" where
  "camera_gear_from_pair kind preset =
     (if kind = 0 then GearA else if kind = 1 then GearB (unat preset) else if kind = 3 then GearC else CameraOff)"

fun av1_cap_to_u8 :: "av1_encode_capability \<Rightarrow> u8" where
  "av1_cap_to_u8 Av1Capable = 0"
| "av1_cap_to_u8 Av1Legacy = 1"

definition av1_cap_from_u8 :: "u8 \<Rightarrow> av1_encode_capability" where
  "av1_cap_from_u8 v = (if v = 1 then Av1Legacy else Av1Capable)"

fun reason_to_u8 :: "escalation_reason \<Rightarrow> u8" where
  "reason_to_u8 ScreenCapture = 0"
| "reason_to_u8 InputInjection = 1"
| "reason_to_u8 ServiceInstall = 2"
| "reason_to_u8 ProtectedWrite = 3"

definition reason_from_u8 :: "u8 \<Rightarrow> escalation_reason" where
  "reason_from_u8 v = (if v = 1 then InputInjection else if v = 2 then ServiceInstall else if v = 3 then ProtectedWrite else ScreenCapture)"

fun outcome_to_u8 :: "elevation_outcome \<Rightarrow> u8" where
  "outcome_to_u8 Granted = 0"
| "outcome_to_u8 Denied = 1"
| "outcome_to_u8 Unavailable = 2"

definition outcome_from_u8 :: "u8 \<Rightarrow> elevation_outcome" where
  "outcome_from_u8 v = (if v = 0 then Granted else if v = 1 then Denied else Unavailable)"

section \<open>Encoding\<close>

text \<open>
  The argument of one \<open>push_slot\<close>: a value that equals the default (zero) is not stored. For
  an \<open>f32\<close> both zeros equal the default.
\<close>

datatype slot = Slot8 u8 | SlotBool bool | Slot32 u32 | SlotF32 f32_bits

fun slot_bytes :: "slot \<Rightarrow> bytes" where
  "slot_bytes (Slot8 v) = [v]"
| "slot_bytes (SlotBool b) = [if b then 1 else 0]"
| "slot_bytes (Slot32 v) = to_le_bytes 4 v"
| "slot_bytes (SlotF32 v) = to_le_bytes 4 v"

fun slot_default :: "slot \<Rightarrow> bool" where
  "slot_default (Slot8 v) \<longleftrightarrow> v = 0"
| "slot_default (SlotBool b) \<longleftrightarrow> \<not> b"
| "slot_default (Slot32 v) \<longleftrightarrow> v = 0"
| "slot_default (SlotF32 v) \<longleftrightarrow> v = 0 \<or> v = 0x80000000"

definition encode_tier :: "(slot list \<Rightarrow> bytes) \<Rightarrow> tier_state \<Rightarrow> f32_bits \<Rightarrow> thermal_pressure \<Rightarrow> bytes" where
  "encode_tier build tier cpu thermal = build [Slot8 (tier_to_u8 tier), SlotF32 cpu, Slot8 (thermal_to_u8 thermal)]"

definition encode_budget :: "(slot list \<Rightarrow> bytes) \<Rightarrow> stream_budgets \<Rightarrow> u32 \<Rightarrow> f32_bits \<Rightarrow> bytes" where
  "encode_budget build b rtt_ms loss_pct =
     build [Slot32 (audio_bps b), Slot32 (input_bps b), Slot32 (screen_coarse_bps b), Slot32 (camera_bps b),
            Slot32 (screen_refinement_bps b), Slot32 (xfer_bps b), Slot32 rtt_ms, SlotF32 loss_pct]"

definition encode_gear :: "(slot list \<Rightarrow> bytes) \<Rightarrow> gear_constraints \<Rightarrow> bytes" where
  "encode_gear build c =
     (let (cam_kind, svt_preset) = camera_gear_to_pair (max_camera_gear c)
      in build [Slot8 cam_kind, Slot8 svt_preset, SlotBool (screen_refinement_allowed c),
                Slot8 (thermal_to_u8 (thermal_level c)), Slot8 (av1_cap_to_u8 (av1_encode c))])"

definition encode_panic :: "(slot list \<Rightarrow> bytes) \<Rightarrow> u32 \<Rightarrow> bytes" where
  "encode_panic build seq = build [Slot32 seq]"

definition encode_elev_req :: "(slot list \<Rightarrow> bytes) \<Rightarrow> escalation_reason \<Rightarrow> bytes" where
  "encode_elev_req build reason = build [Slot8 (reason_to_u8 reason)]"

definition encode_elev_resp :: "(slot list \<Rightarrow> bytes) \<Rightarrow> escalation_reason \<Rightarrow> elevation_outcome \<Rightarrow> bytes" where
  "encode_elev_resp build reason out = build [Slot8 (reason_to_u8 reason), Slot8 (outcome_to_u8 out)]"

fun event_body :: "(slot list \<Rightarrow> bytes) \<Rightarrow> ipc_event \<Rightarrow> u8 \<times> bytes" where
  "event_body build (TierUpdate tier cpu thermal) = (IPC_KIND_TIER, encode_tier build tier cpu thermal)"
| "event_body build (StreamBudget b rtt_ms loss_pct) = (IPC_KIND_BUDGET, encode_budget build b rtt_ms loss_pct)"
| "event_body build (GearUpdate c) = (IPC_KIND_GEAR, encode_gear build c)"
| "event_body build (ElevationRequested reason) = (IPC_KIND_ELEV_REQ, encode_elev_req build reason)"
| "event_body build (ElevationResponse reason out) = (IPC_KIND_ELEV_RESP, encode_elev_resp build reason out)"
| "event_body build (PanicFired seq) = (IPC_KIND_PANIC, encode_panic build seq)"

definition encode_event :: "(slot list \<Rightarrow> bytes) \<Rightarrow> ipc_event \<Rightarrow> bytes" where
  "encode_event build event =
     (let (kind, fb) = event_body build event
      in to_le_bytes 4 (1 + of_nat (length fb) :: u32) @ [kind] @ fb)"

section \<open>Decoding\<close>

record fb_table =
  fb_buf :: bytes
  fb_obj :: nat
  fb_vtab :: nat

definition le16 :: "bytes \<Rightarrow> nat \<Rightarrow> nat" where
  "le16 buf i = unat (from_le_bytes (take 2 (drop i buf)) :: u16)"

definition le32 :: "bytes \<Rightarrow> nat \<Rightarrow> u32" where
  "le32 buf i = from_le_bytes (take 4 (drop i buf))"

text \<open>
  \<open>from_bytes\<close>; the outer \<open>None\<close> is a panic. The position of the vtable is computed in \<open>i64\<close> and
  cast to \<open>usize\<close>, so a negative one is a huge number and adding 4 to it may overflow.
\<close>

definition fb_from_bytes :: "bool \<Rightarrow> bytes \<Rightarrow> fb_table option option" where
  "fb_from_bytes overflow_checks buf =
     (if length buf < 8 then Some None
      else let obj = unat (le32 buf 0)
           in if length buf < obj + 4 then Some None
              else let vtab = nat ((int obj - sint (le32 buf obj)) mod 2 ^ 64)
                   in if 2 ^ 64 \<le> vtab + 4 \<and> overflow_checks then None
                      else if length buf < (vtab + 4) mod 2 ^ 64 then Some None
                      else Some (Some \<lparr>fb_buf = buf, fb_obj = obj, fb_vtab = vtab\<rparr>))"

text \<open>A slice beyond the buffer panics, whether or not its end wraps.\<close>

definition field_pos :: "fb_table \<Rightarrow> nat \<Rightarrow> nat option option" where
  "field_pos t idx =
     (if length (fb_buf t) < fb_vtab t + 2 then None
      else let vt_size = le16 (fb_buf t) (fb_vtab t); slot = 4 + idx * 2
           in if vt_size < slot + 2 then Some None
              else if length (fb_buf t) < fb_vtab t + slot + 2 then None
              else let off = le16 (fb_buf t) (fb_vtab t + slot)
                   in Some (if off = 0 then None else Some (fb_obj t + off)))"

definition u8_at :: "fb_table \<Rightarrow> nat \<Rightarrow> u8 option" where
  "u8_at t idx =
     (case field_pos t idx of
        None \<Rightarrow> None
      | Some None \<Rightarrow> Some 0
      | Some (Some p) \<Rightarrow> Some (if p < length (fb_buf t) then fb_buf t ! p else 0))"

definition u32_at :: "fb_table \<Rightarrow> nat \<Rightarrow> u32 option" where
  "u32_at t idx =
     (case field_pos t idx of
        None \<Rightarrow> None
      | Some None \<Rightarrow> Some 0
      | Some (Some p) \<Rightarrow> Some (if p + 4 \<le> length (fb_buf t) then le32 (fb_buf t) p else 0))"

definition f32_at :: "fb_table \<Rightarrow> nat \<Rightarrow> f32_bits option" where
  "f32_at t idx =
     (case field_pos t idx of
        None \<Rightarrow> None
      | Some None \<Rightarrow> Some 0
      | Some (Some p) \<Rightarrow> Some (if p + 4 \<le> length (fb_buf t) then le32 (fb_buf t) p else 0))"

definition bool_at :: "fb_table \<Rightarrow> nat \<Rightarrow> bool option" where
  "bool_at t idx = map_option (\<lambda>v. v \<noteq> 0) (u8_at t idx)"

definition decode_budget :: "fb_table \<Rightarrow> ipc_event option" where
  "decode_budget t =
     do {
       screen_coarse \<leftarrow> u32_at t 2;
       audio \<leftarrow> u32_at t 0;
       input \<leftarrow> u32_at t 1;
       camera \<leftarrow> u32_at t 3;
       refinement \<leftarrow> u32_at t 4;
       xfer \<leftarrow> u32_at t 5;
       resolution \<leftarrow> select_resolution screen_coarse;
       rtt \<leftarrow> u32_at t 6;
       loss \<leftarrow> f32_at t 7;
       Some (StreamBudget
         \<lparr>audio_bps = audio, input_bps = input, screen_coarse_bps = screen_coarse, camera_bps = camera,
          screen_refinement_bps = refinement, xfer_bps = xfer, sb_display_resolution = resolution,
          per_frame_byte_cap = 0, roi_delta_qp = 0\<rparr> rtt loss)
     }"

definition decode_gear :: "fb_table \<Rightarrow> ipc_event option" where
  "decode_gear t =
     do {
       kind \<leftarrow> u8_at t 0;
       preset \<leftarrow> u8_at t 1;
       refinement \<leftarrow> bool_at t 2;
       thermal \<leftarrow> u8_at t 3;
       av1 \<leftarrow> u8_at t 4;
       Some (GearUpdate
         \<lparr>max_camera_gear = camera_gear_from_pair kind preset, screen_refinement_allowed = refinement,
          audio_floor_bps = AUDIO_FLOOR_BPS, thermal_level = thermal_from_u8 thermal, av1_encode = av1_cap_from_u8 av1\<rparr>)
     }"

definition decode_table :: "u8 \<Rightarrow> fb_table \<Rightarrow> ipc_event option option" where
  "decode_table kind t =
     (if kind = IPC_KIND_TIER then
        do { tier \<leftarrow> u8_at t 0; cpu \<leftarrow> f32_at t 1; thermal \<leftarrow> u8_at t 2;
             Some (Some (TierUpdate (tier_from_u8 tier) cpu (thermal_from_u8 thermal))) }
      else if kind = IPC_KIND_BUDGET then map_option Some (decode_budget t)
      else if kind = IPC_KIND_GEAR then map_option Some (decode_gear t)
      else if kind = IPC_KIND_ELEV_REQ then map_option (\<lambda>r. Some (ElevationRequested (reason_from_u8 r))) (u8_at t 0)
      else if kind = IPC_KIND_ELEV_RESP then
        do { r \<leftarrow> u8_at t 0; out \<leftarrow> u8_at t 1; Some (Some (ElevationResponse (reason_from_u8 r) (outcome_from_u8 out))) }
      else if kind = IPC_KIND_PANIC then map_option (\<lambda>s. Some (PanicFired s)) (u32_at t 0)
      else Some None)"

definition decode_fb :: "bool \<Rightarrow> u8 \<Rightarrow> bytes \<Rightarrow> ipc_event option option" where
  "decode_fb overflow_checks kind fb =
     (case fb_from_bytes overflow_checks fb of
        None \<Rightarrow> None
      | Some None \<Rightarrow> Some None
      | Some (Some t) \<Rightarrow> decode_table kind t)"

definition decode_frame :: "bool \<Rightarrow> bytes \<Rightarrow> ipc_event option option" where
  "decode_frame overflow_checks body =
     (case body of [] \<Rightarrow> Some None | kind # fb \<Rightarrow> decode_fb overflow_checks kind fb)"

section \<open>Streams\<close>

text \<open>\<open>read_frame\<close> on the bytes still to come: \<open>None\<close> is an error of the stream.\<close>

definition ipc_read_frame :: "bytes \<Rightarrow> (bytes \<times> bytes) option" where
  "ipc_read_frame s =
     (if length s < 4 then None
      else let body_len = unat (le32 s 0); rest = drop 4 s
           in if body_len = 0 \<or> length rest < body_len then None
              else Some (take body_len rest, drop body_len rest))"

lemma ipc_read_frame_shorter: "ipc_read_frame s = Some (body, rest) \<Longrightarrow> length rest < length s"
  by (auto simp: ipc_read_frame_def Let_def split: if_splits)

text \<open>
  \<open>read_loop\<close>: the events passed on until the stream ends; \<open>None\<close> when the thread panics. The receiver
  stays alive.
\<close>

function read_loop :: "bool \<Rightarrow> bytes \<Rightarrow> ipc_event list option" where
  "read_loop overflow_checks s =
     (case ipc_read_frame s of
        None \<Rightarrow> Some []
      | Some (body, rest) \<Rightarrow>
          (case decode_frame overflow_checks body of
             None \<Rightarrow> None
           | Some r \<Rightarrow> map_option (\<lambda>es. (case r of Some e \<Rightarrow> [e] | None \<Rightarrow> []) @ es) (read_loop overflow_checks rest)))"
  by pat_completeness auto

termination
  by (relation "measure (\<lambda>(oc, s). length s)") (auto dest: ipc_read_frame_shorter)

declare read_loop.simps [simp del]

section \<open>The server\<close>

text \<open>
  A connected shell: its bounded queue of 32 frames, whether its writer still runs, and
  the frames that the writer has written to the socket.
\<close>

definition IPC_QUEUE :: nat where "IPC_QUEUE = 32"

record ipc_channel =
  ch_id :: nat
  ch_queue :: "bytes list"
  ch_open :: bool
  ch_written :: "bytes list"

text \<open>\<open>try_send\<close>: \<open>None\<close> when the other end is gone; a full queue keeps the channel as it is.\<close>

definition ipc_try_send :: "bytes \<Rightarrow> ipc_channel \<Rightarrow> ipc_channel option" where
  "ipc_try_send frame c =
     (if \<not> ch_open c then None
      else if length (ch_queue c) < IPC_QUEUE then Some (c\<lparr>ch_queue := ch_queue c @ [frame]\<rparr>)
      else Some c)"

definition broadcast :: "(slot list \<Rightarrow> bytes) \<Rightarrow> ipc_event \<Rightarrow> ipc_channel list \<Rightarrow> ipc_channel list" where
  "broadcast build event clients =
     (let frame = encode_event build event in List.map_filter (ipc_try_send frame) clients)"

definition client_count :: "ipc_channel list \<Rightarrow> nat" where
  "client_count clients = length clients"

text \<open>One turn of \<open>write_loop\<close>; \<open>ok\<close> is whether the write succeeds. A failed write ends the writer.\<close>

definition write_turn :: "bool \<Rightarrow> ipc_channel \<Rightarrow> ipc_channel" where
  "write_turn ok c =
     (case ch_queue c of
        frame # rest \<Rightarrow>
          if \<not> ch_open c then c
          else if ok then c\<lparr>ch_queue := rest, ch_written := ch_written c @ [frame]\<rparr>
          else c\<lparr>ch_queue := rest, ch_open := False\<rparr>
      | [] \<Rightarrow> c)"

datatype ipc_op = IpcAccept nat | IpcBroadcast ipc_event | IpcWrite nat bool

fun ipc_step :: "(slot list \<Rightarrow> bytes) \<Rightarrow> ipc_channel list \<Rightarrow> ipc_op \<Rightarrow> ipc_channel list" where
  "ipc_step build cs (IpcAccept i) = cs @ [\<lparr>ch_id = i, ch_queue = [], ch_open = True, ch_written = []\<rparr>]"
| "ipc_step build cs (IpcBroadcast e) = broadcast build e cs"
| "ipc_step build cs (IpcWrite i ok) = map (\<lambda>c. if ch_id c = i then write_turn ok c else c) cs"

section \<open>The layout of a buffer\<close>

text \<open>
  The documented layout of a finished table: the root offset, the distance back to the vtable, the
  vtable inside the buffer, and for each slot either a default value that is not stored or the
  little-endian bytes at the offset of the field.
\<close>

definition slot_offset :: "bytes \<Rightarrow> nat \<Rightarrow> nat \<Rightarrow> nat" where
  "slot_offset buf vtab i = (if 4 + 2 * i + 2 \<le> le16 buf vtab then le16 buf (vtab + (4 + 2 * i)) else 0)"

definition slot_stored :: "bytes \<Rightarrow> nat \<Rightarrow> nat \<Rightarrow> slot \<Rightarrow> bool" where
  "slot_stored buf obj off v \<longleftrightarrow>
     (if off = 0 then slot_default v
      else \<not> slot_default v \<and> obj + off + length (slot_bytes v) \<le> length buf \<and>
        take (length (slot_bytes v)) (drop (obj + off) buf) = slot_bytes v)"

definition fb_holds :: "bytes \<Rightarrow> slot list \<Rightarrow> bool" where
  "fb_holds buf slots \<longleftrightarrow>
     8 \<le> length buf \<and> int (length buf) < 4294967295 \<and>
     (let obj = unat (le32 buf 0); vt = int obj - sint (le32 buf obj); vtab = nat vt
      in obj + 4 \<le> length buf \<and> 0 \<le> vt \<and> vtab + 4 \<le> length buf \<and> vtab + le16 buf vtab \<le> length buf \<and>
         list_all (\<lambda>(i, v). slot_stored buf obj (slot_offset buf vtab i) v) (enumerate 0 slots))"

text \<open>The slots of an event.\<close>

fun event_slots :: "ipc_event \<Rightarrow> slot list" where
  "event_slots (TierUpdate tier cpu thermal) = [Slot8 (tier_to_u8 tier), SlotF32 cpu, Slot8 (thermal_to_u8 thermal)]"
| "event_slots (StreamBudget b rtt_ms loss_pct) =
     [Slot32 (audio_bps b), Slot32 (input_bps b), Slot32 (screen_coarse_bps b), Slot32 (camera_bps b),
      Slot32 (screen_refinement_bps b), Slot32 (xfer_bps b), Slot32 rtt_ms, SlotF32 loss_pct]"
| "event_slots (GearUpdate c) =
     [Slot8 (fst (camera_gear_to_pair (max_camera_gear c))), Slot8 (snd (camera_gear_to_pair (max_camera_gear c))),
      SlotBool (screen_refinement_allowed c), Slot8 (thermal_to_u8 (thermal_level c)), Slot8 (av1_cap_to_u8 (av1_encode c))]"
| "event_slots (ElevationRequested reason) = [Slot8 (reason_to_u8 reason)]"
| "event_slots (ElevationResponse reason out) = [Slot8 (reason_to_u8 reason), Slot8 (outcome_to_u8 out)]"
| "event_slots (PanicFired seq) = [Slot32 seq]"

lemma event_body_slots: "snd (event_body build e) = build (event_slots e)"
  by (cases e) (simp_all add: encode_tier_def encode_budget_def encode_gear_def encode_panic_def encode_elev_req_def
      encode_elev_resp_def split: prod.splits)

text \<open>
  What a shell gets of an event: the derived fields of a budget are recomputed or zero, the audio floor is
  the constant, a negative zero is a zero.
\<close>

definition f32_carried :: "f32_bits \<Rightarrow> f32_bits" where
  "f32_carried v = (if v = 0x80000000 then 0 else v)"

fun gear_carried :: "camera_gear \<Rightarrow> camera_gear" where
  "gear_carried (GearB n) = GearB (n mod 256)"
| "gear_carried g = g"

fun carried :: "ipc_event \<Rightarrow> ipc_event" where
  "carried (TierUpdate tier cpu thermal) = TierUpdate tier (f32_carried cpu) thermal"
| "carried (StreamBudget b rtt_ms loss_pct) =
     StreamBudget (b\<lparr>sb_display_resolution := the (select_resolution (screen_coarse_bps b)), per_frame_byte_cap := 0, roi_delta_qp := 0\<rparr>)
       rtt_ms (f32_carried loss_pct)"
| "carried (GearUpdate c) = GearUpdate (c\<lparr>max_camera_gear := gear_carried (max_camera_gear c), audio_floor_bps := AUDIO_FLOOR_BPS\<rparr>)"
| "carried e = e"

section \<open>The reader reads the layout\<close>

lemma fb_holds_table:
  assumes "fb_holds buf slots"
  shows "\<exists>t. fb_from_bytes oc buf = Some (Some t) \<and> fb_buf t = buf \<and> fb_vtab t + 4 \<le> length buf \<and>
    fb_vtab t + le16 buf (fb_vtab t) \<le> length buf \<and>
    (\<forall>i<length slots. slot_stored buf (fb_obj t) (slot_offset buf (fb_vtab t) i) (slots ! i))"
proof -
  let ?obj = "unat (le32 buf 0)"
  let ?vt = "int ?obj - sint (le32 buf ?obj)"
  have h: "8 \<le> length buf" "int (length buf) < 4294967295" "?obj + 4 \<le> length buf" "0 \<le> ?vt" "nat ?vt + 4 \<le> length buf"
      "nat ?vt + le16 buf (nat ?vt) \<le> length buf"
      "list_all (\<lambda>(i, v). slot_stored buf ?obj (slot_offset buf (nat ?vt) i) v) (enumerate 0 slots)"
    using assms unfolding fb_holds_def Let_def by blast+
  have "nat ?vt < 2 ^ 32" using h(2,5) by simp
  then have "?vt < 2 ^ 32" using h(4) by (simp add: nat_less_iff)
  then have "?vt mod 2 ^ 64 = ?vt" using h(4) by (simp add: mod_pos_pos_trivial)
  moreover have "nat ?vt + 4 < 2 ^ 64" using \<open>nat ?vt < 2 ^ 32\<close> by simp
  ultimately have "fb_from_bytes oc buf = Some (Some \<lparr>fb_buf = buf, fb_obj = ?obj, fb_vtab = nat ?vt\<rparr>)"
    using h(1,3,5) by (simp add: fb_from_bytes_def Let_def)
  moreover have "\<forall>i<length slots. slot_stored buf ?obj (slot_offset buf (nat ?vt) i) (slots ! i)"
    using h(7) by (auto simp: list_all_iff in_set_enumerate_eq)
  ultimately show ?thesis using h(5,6) by simp
qed

lemma field_pos_offset:
  assumes "fb_vtab t + 4 \<le> length (fb_buf t)" "fb_vtab t + le16 (fb_buf t) (fb_vtab t) \<le> length (fb_buf t)"
  shows "field_pos t i = Some (let off = slot_offset (fb_buf t) (fb_vtab t) i in if off = 0 then None else Some (fb_obj t + off))"
  using assms by (auto simp: field_pos_def slot_offset_def Let_def mult.commute)

lemma reads_slot:
  assumes t: "fb_vtab t + 4 \<le> length (fb_buf t)" "fb_vtab t + le16 (fb_buf t) (fb_vtab t) \<le> length (fb_buf t)"
    and st: "slot_stored (fb_buf t) (fb_obj t) (slot_offset (fb_buf t) (fb_vtab t) i) v"
  shows "v = Slot8 a \<Longrightarrow> u8_at t i = Some a"
    "v = SlotBool b \<Longrightarrow> bool_at t i = Some b"
    "v = Slot32 c \<Longrightarrow> u32_at t i = Some c"
    "v = SlotF32 c \<Longrightarrow> f32_at t i = Some (f32_carried c)"
proof -
  let ?off = "slot_offset (fb_buf t) (fb_vtab t) i"
  note fp = field_pos_offset [OF t, of i]
  have byte: "fb_buf t ! (fb_obj t + ?off) = x" if "take 1 (drop (fb_obj t + ?off) (fb_buf t)) = [x]" for x
    using that by (metis nth_drop nth_take add_0_right less_numeral_extra(1) nth_Cons_0 nat_le_linear drop_all take_Nil list.distinct(1))
  have word: "le32 (fb_buf t) (fb_obj t + ?off) = x" if "take 4 (drop (fb_obj t + ?off) (fb_buf t)) = to_le_bytes 4 x" for x
    using that from_to_le_bytes [where w = x and n = 4] by (simp add: le32_def)
  show "u8_at t i = Some a" if "v = Slot8 a"
    using st that byte fp by (auto simp: u8_at_def slot_stored_def Let_def split: if_splits)
  show "bool_at t i = Some b" if "v = SlotBool b"
    using st that byte fp by (auto simp: bool_at_def u8_at_def slot_stored_def Let_def split: if_splits)
  show "u32_at t i = Some c" if "v = Slot32 c"
    using st that word fp by (auto simp: u32_at_def slot_stored_def Let_def split: if_splits)
  show "f32_at t i = Some (f32_carried c)" if "v = SlotF32 c"
    using st that word fp by (auto simp: f32_at_def f32_carried_def slot_stored_def Let_def split: if_splits)
qed

lemma from_to_u8 [simp]:
  "tier_from_u8 (tier_to_u8 tier) = tier" "thermal_from_u8 (thermal_to_u8 thermal) = thermal"
  "av1_cap_from_u8 (av1_cap_to_u8 cap) = cap" "reason_from_u8 (reason_to_u8 reason) = reason"
  "outcome_from_u8 (outcome_to_u8 out) = out"
  "camera_gear_from_pair (fst (camera_gear_to_pair g)) (snd (camera_gear_to_pair g)) = gear_carried g"
proof -
  show "tier_from_u8 (tier_to_u8 tier) = tier" by (cases tier) (simp_all add: tier_from_u8_def)
  show "thermal_from_u8 (thermal_to_u8 thermal) = thermal" by (cases thermal) (simp_all add: thermal_from_u8_def)
  show "av1_cap_from_u8 (av1_cap_to_u8 cap) = cap" by (cases cap) (simp_all add: av1_cap_from_u8_def)
  show "reason_from_u8 (reason_to_u8 reason) = reason" by (cases reason) (simp_all add: reason_from_u8_def)
  show "outcome_from_u8 (outcome_to_u8 out) = out" by (cases out) (simp_all add: outcome_from_u8_def)
  show "camera_gear_from_pair (fst (camera_gear_to_pair g)) (snd (camera_gear_to_pair g)) = gear_carried g"
    by (cases g) (simp_all add: camera_gear_from_pair_def unsigned_of_nat take_bit_eq_mod)
qed

lemma select_resolution_total: "\<exists>r. select_resolution b = Some r"
  by (simp add: select_resolution_def RESOLUTION_LADDER_def)

lemmas ipc_kind_defs = IPC_KIND_TIER_def IPC_KIND_BUDGET_def IPC_KIND_GEAR_def IPC_KIND_ELEV_REQ_def IPC_KIND_ELEV_RESP_def IPC_KIND_PANIC_def

lemma decode_table_event:
  assumes t: "fb_vtab t + 4 \<le> length (fb_buf t)" "fb_vtab t + le16 (fb_buf t) (fb_vtab t) \<le> length (fb_buf t)"
    and st: "\<forall>i<length (event_slots e). slot_stored (fb_buf t) (fb_obj t) (slot_offset (fb_buf t) (fb_vtab t) i) (event_slots e ! i)"
  shows "decode_table (fst (event_body build e)) t = Some (Some (carried e))"
proof -
  have r8: "u8_at t i = Some a" if "i < length (event_slots e)" "event_slots e ! i = Slot8 a" for i a
    using reads_slot(1) [OF t] st that by metis
  have rb: "bool_at t i = Some a" if "i < length (event_slots e)" "event_slots e ! i = SlotBool a" for i a
    using reads_slot(2) [OF t] st that by metis
  have r32: "u32_at t i = Some a" if "i < length (event_slots e)" "event_slots e ! i = Slot32 a" for i a
    using reads_slot(3) [OF t] st that by metis
  have rf: "f32_at t i = Some (f32_carried a)" if "i < length (event_slots e)" "event_slots e ! i = SlotF32 a" for i a
    using reads_slot(4) [OF t] st that by metis
  show ?thesis
  proof (cases e)
    case (TierUpdate tier cpu thermal)
    with r8 [of 0] r8 [of 2] rf [of 1] show ?thesis by (simp add: decode_table_def ipc_kind_defs)
  next
    case (StreamBudget b rtt loss)
    obtain res where "select_resolution (screen_coarse_bps b) = Some res" using select_resolution_total by blast
    with StreamBudget r32 [of 0] r32 [of 1] r32 [of 2] r32 [of 3] r32 [of 4] r32 [of 5] r32 [of 6] rf [of 7]
    show ?thesis by (simp add: decode_table_def decode_budget_def ipc_kind_defs)
  next
    case (GearUpdate c)
    with r8 [of 0] r8 [of 1] rb [of 2] r8 [of 3] r8 [of 4] show ?thesis by (simp add: decode_table_def decode_gear_def ipc_kind_defs)
  next
    case (ElevationRequested reason)
    with r8 [of 0] show ?thesis by (simp add: decode_table_def ipc_kind_defs)
  next
    case (ElevationResponse reason out)
    with r8 [of 0] r8 [of 1] show ?thesis by (simp add: decode_table_def ipc_kind_defs)
  next
    case (PanicFired seq)
    with r32 [of 0] show ?thesis by (simp add: decode_table_def ipc_kind_defs)
  qed
qed

lemma decode_frame_event:
  assumes "fb_holds (build (event_slots e)) (event_slots e)"
  shows "decode_frame oc (fst (event_body build e) # build (event_slots e)) = Some (Some (carried e))"
proof -
  obtain t where t: "fb_from_bytes oc (build (event_slots e)) = Some (Some t)" "fb_buf t = build (event_slots e)"
      "fb_vtab t + 4 \<le> length (build (event_slots e))"
      "fb_vtab t + le16 (build (event_slots e)) (fb_vtab t) \<le> length (build (event_slots e))"
      "\<forall>i<length (event_slots e). slot_stored (build (event_slots e)) (fb_obj t) (slot_offset (build (event_slots e)) (fb_vtab t) i) (event_slots e ! i)"
    using fb_holds_table [OF assms] by blast
  from decode_table_event [of t e build] t show ?thesis by (simp add: decode_frame_def decode_fb_def)
qed

lemma read_frame_event:
  assumes "fb_holds (build (event_slots e)) (event_slots e)"
  shows "ipc_read_frame (encode_event build e @ rest) = Some (fst (event_body build e) # build (event_slots e), rest)"
proof -
  let ?fb = "build (event_slots e)"
  have "length ?fb < 2 ^ 32 - 1" using assms by (simp add: fb_holds_def)
  then have n: "unat (1 + of_nat (length ?fb) :: u32) = 1 + length ?fb"
    by (simp add: unat_word_ariths unsigned_of_nat take_bit_eq_mod)
  have e: "encode_event build e @ rest = to_le_bytes 4 (1 + of_nat (length ?fb) :: u32) @ fst (event_body build e) # ?fb @ rest"
    using event_body_slots [of build e] by (cases "event_body build e") (simp add: encode_event_def)
  have "le32 (encode_event build e @ rest) 0 = 1 + of_nat (length ?fb)"
    unfolding e le32_def using from_to_le_bytes [where w = "1 + of_nat (length ?fb) :: u32" and n = 4] by simp
  then show ?thesis unfolding ipc_read_frame_def Let_def using n by (simp add: e)
qed

text \<open>
  C29: What the daemon sends is what a shell gets. If the builder lays out each table as
  documented, the reader turns a stream of frames into the same events in the same order, up to the
  fields that are not carried, and a frame cut off at the end adds nothing.
\<close>

theorem ipc_stream_roundtrip:
  assumes "\<forall>e\<in>set es. fb_holds (build (event_slots e)) (event_slots e)" "ipc_read_frame tail = None"
  shows "read_loop oc (concat (map (encode_event build) es) @ tail) = Some (map carried es)"
  using assms(1)
proof (induction es)
  case Nil
  then show ?case using assms(2) by (subst read_loop.simps) simp
next
  case (Cons e es)
  then have e: "fb_holds (build (event_slots e)) (event_slots e)" by simp
  from Cons show ?case
    using read_frame_event [of build e "concat (map (encode_event build) es) @ tail", OF e] decode_frame_event [of build e oc, OF e]
    by (subst read_loop.simps) simp
qed

text \<open>A builder with this layout: the vtable first, then a table with one cell of four bytes for each slot.\<close>

definition sample_build :: "slot list \<Rightarrow> bytes" where
  "sample_build slots =
     (let n = length slots; vt_size = 4 + 2 * n
      in to_le_bytes 4 (of_nat (4 + vt_size) :: u32) @ to_le_bytes 2 (of_nat vt_size :: u16) @ to_le_bytes 2 (of_nat (4 + 4 * n) :: u16) @
         concat (map (\<lambda>(i, v). to_le_bytes 2 (if slot_default v then 0 else of_nat (4 + 4 * i) :: u16)) (enumerate 0 slots)) @
         to_le_bytes 4 (of_nat vt_size :: u32) @
         concat (map (\<lambda>v. take 4 (slot_bytes v @ [0, 0, 0])) slots))"

lemma to_le_bytes_small:
  "to_le_bytes 2 w = [byte_of (unat w mod 256), byte_of (unat w div 256 mod 256)]"
  "to_le_bytes 4 w = [byte_of (unat w mod 256), byte_of (unat w div 256 mod 256),
     byte_of (unat w div 256 div 256 mod 256), byte_of (unat w div 256 div 256 div 256 mod 256)]"
proof -
  have "le_digits (Suc (Suc 0)) v = [byte_of (v mod 256), byte_of (v div 256 mod 256)]" for v
    by (simp only: le_digits.simps)
  moreover have "le_digits (Suc (Suc (Suc (Suc 0)))) v = [byte_of (v mod 256), byte_of (v div 256 mod 256), byte_of (v div 256 div 256 mod 256), byte_of (v div 256 div 256 div 256 mod 256)]" for v
    by (simp only: le_digits.simps)
  moreover have "2 = Suc (Suc 0)" "4 = Suc (Suc (Suc (Suc 0)))" by simp_all
  ultimately show "to_le_bytes 2 w = [byte_of (unat w mod 256), byte_of (unat w div 256 mod 256)]"
    "to_le_bytes 4 w = [byte_of (unat w mod 256), byte_of (unat w div 256 mod 256), byte_of (unat w div 256 div 256 mod 256), byte_of (unat w div 256 div 256 div 256 mod 256)]"
    by (simp_all only: to_le_bytes_def)
qed

lemma sample_panic_bytes: "sample_build [Slot32 7] = [10, 0, 0, 0, 6, 0, 8, 0, 4, 0, 6, 0, 0, 0, 7, 0, 0, 0]"
  by (simp add: sample_build_def to_le_bytes_small byte_of_def)

lemma sample_panic_holds: "fb_holds (sample_build (event_slots (PanicFired 7))) (event_slots (PanicFired 7))"
  by (simp add: sample_panic_bytes fb_holds_def Let_def le32_def from_le_bytes_def le16_def slot_stored_def slot_offset_def
      to_le_bytes_small byte_of_def)

theorem ipc_stream_roundtrip_witness:
  "read_loop True (concat (map (encode_event sample_build) [PanicFired 7, PanicFired 7]) @ [9, 0]) = Some [PanicFired 7, PanicFired 7]"
proof -
  have "\<forall>e\<in>set [PanicFired 7, PanicFired 7]. fb_holds (sample_build (event_slots e)) (event_slots e)"
    using sample_panic_holds by simp
  moreover have "ipc_read_frame [9, 0] = None" by (simp add: ipc_read_frame_def)
  ultimately show ?thesis by (rule ipc_stream_roundtrip [THEN trans]) simp
qed

section \<open>A crafted frame\<close>

text \<open>A tier update of twelve bytes whose vtable claims to be 65535 bytes long.\<close>

definition crafted_frame :: bytes where
  "crafted_frame = [0, 8, 0, 0, 0, 255, 255, 0, 0, 4, 0, 0, 0]"

lemma field_pos_inside:
  "fb_vtab t + 2 \<le> length (fb_buf t) \<Longrightarrow> fb_vtab t + le16 (fb_buf t) (fb_vtab t) \<le> length (fb_buf t) \<Longrightarrow> field_pos t i \<noteq> None"
  by (auto simp: field_pos_def Let_def)

lemma reads_inside:
  assumes "fb_vtab t + 2 \<le> length (fb_buf t)" "fb_vtab t + le16 (fb_buf t) (fb_vtab t) \<le> length (fb_buf t)"
  shows "\<exists>v. u8_at t i = Some v" "\<exists>v. u32_at t i = Some v" "\<exists>v. f32_at t i = Some v" "\<exists>v. bool_at t i = Some v"
  using field_pos_inside [OF assms, of i] by (auto simp: u8_at_def u32_at_def f32_at_def bool_at_def split: option.splits)

lemma decode_table_inside:
  assumes "fb_vtab t + 2 \<le> length (fb_buf t)" "fb_vtab t + le16 (fb_buf t) (fb_vtab t) \<le> length (fb_buf t)"
  shows "decode_table kind t \<noteq> None"
proof -
  note r = reads_inside [OF assms]
  have res: "select_resolution b \<noteq> None" for b using select_resolution_total [of b] by auto
  have "decode_budget t \<noteq> None"
    using r(2) [of 0] r(2) [of 1] r(2) [of 2] r(2) [of 3] r(2) [of 4] r(2) [of 5] r(2) [of 6] r(3) [of 7]
    by (elim exE) (simp add: decode_budget_def Option.bind_eq_None_conv res)
  moreover have "decode_gear t \<noteq> None"
    using r(1) [of 0] r(1) [of 1] r(4) [of 2] r(1) [of 3] r(1) [of 4] by (elim exE) (simp add: decode_gear_def)
  ultimately show ?thesis
    using r(1) [of 0] r(1) [of 1] r(1) [of 2] r(3) [of 1] r(2) [of 0] by (elim exE) (simp add: decode_table_def)
qed

text \<open>
  C31: A shell can crash the reader thread of the daemon. The vtable may announce a size beyond the end of the
  buffer, which is not checked: a frame of thirteen bytes makes the reader panic in every
  build. A table whose vtable lies inside the buffer never does.
\<close>

theorem ipc_reader_panics:
  "decode_frame overflow_checks crafted_frame = None \<and>
   (fb_from_bytes overflow_checks fb = Some (Some t) \<and> fb_vtab t + 2 \<le> length (fb_buf t) \<and>
      fb_vtab t + le16 (fb_buf t) (fb_vtab t) \<le> length (fb_buf t) \<longrightarrow> decode_fb overflow_checks kind fb \<noteq> None)"
proof -
  let ?fb = "[8, 0, 0, 0, 255, 255, 0, 0, 4, 0, 0, 0] :: bytes"
  have "fb_from_bytes overflow_checks ?fb = Some (Some \<lparr>fb_buf = ?fb, fb_obj = 8, fb_vtab = 4\<rparr>)"
    by (simp add: fb_from_bytes_def Let_def le32_def from_le_bytes_def)
  moreover have "u8_at \<lparr>fb_buf = ?fb, fb_obj = 8, fb_vtab = 4\<rparr> 2 = None"
    by (simp add: u8_at_def field_pos_def Let_def le16_def from_le_bytes_def)
  then have "decode_table 0 \<lparr>fb_buf = ?fb, fb_obj = 8, fb_vtab = 4\<rparr> = None"
    by (simp add: decode_table_def ipc_kind_defs Option.bind_eq_None_conv)
  ultimately have "decode_frame overflow_checks crafted_frame = None"
    by (simp add: crafted_frame_def decode_frame_def decode_fb_def)
  then show ?thesis using decode_table_inside by (auto simp: decode_fb_def)
qed

theorem ipc_reader_panics_witness:
  "decode_frame False crafted_frame = None \<and> decode_fb True IPC_KIND_PANIC (sample_build [Slot32 7]) \<noteq> None"
proof -
  let ?fb = "[10, 0, 0, 0, 6, 0, 8, 0, 4, 0, 6, 0, 0, 0, 7, 0, 0, 0] :: bytes"
  have "fb_from_bytes True ?fb = Some (Some \<lparr>fb_buf = ?fb, fb_obj = 10, fb_vtab = 4\<rparr>)"
    by (simp add: fb_from_bytes_def Let_def le32_def from_le_bytes_def)
  then show ?thesis
    using ipc_reader_panics [of False "[]" undefined 0]
      ipc_reader_panics [of True ?fb "\<lparr>fb_buf = ?fb, fb_obj = 10, fb_vtab = 4\<rparr>" IPC_KIND_PANIC]
    by (simp add: sample_panic_bytes le16_def from_le_bytes_def)
qed

section \<open>What a shell receives\<close>

fun broadcast_frames :: "(slot list \<Rightarrow> bytes) \<Rightarrow> ipc_op list \<Rightarrow> bytes list" where
  "broadcast_frames build [] = []"
| "broadcast_frames build (IpcBroadcast e # ops) = encode_event build e # broadcast_frames build ops"
| "broadcast_frames build (_ # ops) = broadcast_frames build ops"

text \<open>The frames broadcast since the shell \<open>i\<close> was accepted.\<close>

definition frames_since :: "(slot list \<Rightarrow> bytes) \<Rightarrow> nat \<Rightarrow> ipc_op list \<Rightarrow> bytes list" where
  "frames_since build i ops = broadcast_frames build (rev (takeWhile (\<lambda>op. op \<noteq> IpcAccept i) (rev ops)))"

fun accepted_ids :: "ipc_op list \<Rightarrow> nat list" where
  "accepted_ids [] = []"
| "accepted_ids (IpcAccept i # ops) = i # accepted_ids ops"
| "accepted_ids (_ # ops) = accepted_ids ops"

definition ipc_run :: "(slot list \<Rightarrow> bytes) \<Rightarrow> ipc_op list \<Rightarrow> ipc_channel list" where
  "ipc_run build ops = foldl (ipc_step build) [] ops"

lemma ipc_run_snoc: "ipc_run build (ops @ [op]) = ipc_step build (ipc_run build ops) op"
  by (simp add: ipc_run_def)

lemma broadcast_frames_append: "broadcast_frames build (xs @ ys) = broadcast_frames build xs @ broadcast_frames build ys"
  by (induction build xs rule: broadcast_frames.induct) auto

lemma accepted_ids_append: "accepted_ids (xs @ ys) = accepted_ids xs @ accepted_ids ys"
  by (induction xs rule: accepted_ids.induct) auto

lemma frames_since_snoc:
  "frames_since build i (ops @ [op]) = (if op = IpcAccept i then [] else frames_since build i ops @ broadcast_frames build [op])"
  by (simp add: frames_since_def broadcast_frames_append)

definition channel_ok :: "bytes list \<Rightarrow> ipc_channel \<Rightarrow> bool" where
  "channel_ok frames c \<longleftrightarrow>
     subseq (ch_written c @ ch_queue c) frames \<and> length (ch_queue c) \<le> IPC_QUEUE \<and>
     (ch_open c \<and> length frames \<le> IPC_QUEUE \<longrightarrow> ch_written c @ ch_queue c = frames)"

lemma try_send_ok: "channel_ok frames c \<Longrightarrow> ipc_try_send f c = Some c' \<Longrightarrow> ch_id c' = ch_id c \<and> channel_ok (frames @ [f]) c'"
proof -
  assume ok: "channel_ok frames c" and s: "ipc_try_send f c = Some c'"
  have "subseq (ch_written c @ ch_queue c @ [f]) (frames @ [f])"
    using ok list_emb_append_mono [of "(=)" "ch_written c @ ch_queue c" frames "[f]" "[f]"] by (simp add: channel_ok_def)
  moreover have "subseq (ch_written c @ ch_queue c) (frames @ [f])"
    using ok list_emb_append_mono [of "(=)" "ch_written c @ ch_queue c" frames "[]" "[f]"] by (simp add: channel_ok_def)
  moreover have "length (ch_queue c) < IPC_QUEUE" if "ch_open c" "length frames < IPC_QUEUE"
  proof -
    have "ch_written c @ ch_queue c = frames" using ok that by (simp add: channel_ok_def)
    then have "length (ch_queue c) \<le> length frames" by auto
    then show ?thesis using that(2) by simp
  qed
  ultimately show ?thesis using ok s by (auto simp: channel_ok_def ipc_try_send_def split: if_splits)
qed

lemma write_turn_ok: "channel_ok frames c \<Longrightarrow> ch_id (write_turn ok c) = ch_id c \<and> channel_ok frames (write_turn ok c)"
proof -
  assume c: "channel_ok frames c"
  have "subseq (ch_written c @ rest) frames" if "ch_queue c = f # rest" for f rest
  proof -
    have "subseq (ch_written c @ rest) (ch_written c @ f # rest)" by (simp add: list_emb_append_mono list_emb_Cons)
    then show ?thesis using c that subseq_order.trans [of "ch_written c @ rest" "ch_written c @ f # rest" frames] by (simp add: channel_ok_def)
  qed
  then show ?thesis using c by (auto simp: channel_ok_def write_turn_def split: list.splits)
qed

lemma set_map_filter: "y \<in> set (List.map_filter f xs) \<longleftrightarrow> (\<exists>x\<in>set xs. f x = Some y)"
  by (induction xs) (auto simp: List.map_filter_simps split: option.splits)

lemma ipc_run_ok:
  "distinct (accepted_ids ops) \<Longrightarrow> c \<in> set (ipc_run build ops) \<Longrightarrow>
     ch_id c \<in> set (accepted_ids ops) \<and> channel_ok (frames_since build (ch_id c) ops) c"
proof (induction ops arbitrary: c rule: rev_induct)
  case Nil
  then show ?case by (simp add: ipc_run_def)
next
  case (snoc op ops)
  have d: "distinct (accepted_ids ops)" using snoc.prems(1) by (simp add: accepted_ids_append)
  note IH = snoc.IH [OF d]
  show ?case
  proof (cases op)
    case (IpcAccept i)
    then have "i \<notin> set (accepted_ids ops)" using snoc.prems(1) by (simp add: accepted_ids_append)
    then show ?thesis
      using snoc.prems(2) IH IpcAccept by (auto simp: ipc_run_snoc accepted_ids_append frames_since_snoc channel_ok_def)
  next
    case (IpcBroadcast e)
    then obtain c0 where c0: "c0 \<in> set (ipc_run build ops)" "ipc_try_send (encode_event build e) c0 = Some c"
      using snoc.prems(2) by (auto simp: ipc_run_snoc broadcast_def set_map_filter)
    from IH [OF c0(1)] try_send_ok [OF conjunct2 [OF IH [OF c0(1)]] c0(2)] show ?thesis by (simp add: IpcBroadcast frames_since_snoc accepted_ids_append)
  next
    case (IpcWrite i ok)
    then obtain c0 where c0: "c0 \<in> set (ipc_run build ops)" "c = (if ch_id c0 = i then write_turn ok c0 else c0)"
      using snoc.prems(2) by (auto simp: ipc_run_snoc)
    from IH [OF c0(1)] write_turn_ok [OF conjunct2 [OF IH [OF c0(1)]], of ok] c0(2) show ?thesis
      by (cases "ch_id c0 = i") (simp_all add: IpcWrite frames_since_snoc accepted_ids_append)
  qed
qed

text \<open>
  C30: What a shell receives of the broadcasts. Over any sequence of connections, broadcasts and writes,
  what a shell was written and has waiting is a selection, in order, of the frames broadcast since it
  connected, with at most 32 waiting; it is all of them while no more than 32 were broadcast. A
  broadcast to a full queue leaves the shell connected and loses the event, a panic notice included.
\<close>

theorem shells_receive_in_order:
  assumes "distinct (accepted_ids ops)" "c \<in> set (ipc_run build ops)"
  shows "subseq (ch_written c @ ch_queue c) (frames_since build (ch_id c) ops) \<and> length (ch_queue c) \<le> 32 \<and>
    (ch_open c \<and> length (frames_since build (ch_id c) ops) \<le> 32 \<longrightarrow>
       ch_written c @ ch_queue c = frames_since build (ch_id c) ops) \<and>
    (ch_open c \<and> length (ch_queue c) = 32 \<longrightarrow> c \<in> set (ipc_run build (ops @ [IpcBroadcast (PanicFired seq)])))"
proof -
  have "c \<in> set (ipc_run build (ops @ [IpcBroadcast (PanicFired seq)]))" if "ch_open c" "length (ch_queue c) = 32"
  proof -
    have "ipc_try_send (encode_event build (PanicFired seq)) c = Some c" using that by (simp add: ipc_try_send_def IPC_QUEUE_def)
    then show ?thesis using assms(2) by (auto simp: ipc_run_snoc broadcast_def set_map_filter)
  qed
  then show ?thesis using ipc_run_ok [OF assms] by (simp add: channel_ok_def IPC_QUEUE_def)
qed

theorem shells_receive_in_order_witness:
  "\<exists>c. c \<in> set (ipc_run sample_build [IpcAccept 0, IpcBroadcast (PanicFired 7), IpcWrite 0 True, IpcBroadcast (PanicFired 8)]) \<and>
     ch_written c @ ch_queue c = map (encode_event sample_build) [PanicFired 7, PanicFired 8]"
proof -
  let ?ops = "[IpcAccept 0, IpcBroadcast (PanicFired 7), IpcWrite 0 True, IpcBroadcast (PanicFired 8)]"
  let ?c = "\<lparr>ch_id = 0, ch_queue = [encode_event sample_build (PanicFired 8)], ch_open = True,
      ch_written = [encode_event sample_build (PanicFired 7)]\<rparr>"
  have c: "?c \<in> set (ipc_run sample_build ?ops)"
    by (simp add: ipc_run_def broadcast_def List.map_filter_simps ipc_try_send_def write_turn_def IPC_QUEUE_def)
  have "distinct (accepted_ids ?ops)" by simp
  from shells_receive_in_order [OF this c, of 0] c show ?thesis by (auto simp: frames_since_def)
qed

end
