(* ===== verification/Sig_Client.thy ===== *)
theory Sig_Client
  imports Peers Signaling
begin

text \<open>
  The signaling client (\<open>core/signaling/src/client.rs\<close>): requests, the HTTP response parser with
  chunked transfer encoding, and the extraction of fields from JSON text by searching. The
  connection is a parameter that answers the bytes of a request with the bytes of a response.
  Positions in a string are kept as the rest of the string from there.

  Extraction is exact on every object as the server writes it, whatever texts the values hold, and
  a roster is read back as it was written; the chunk decoder ends on every input.
\<close>

section \<open>Strings\<close>

definition trim_start :: "rust_str \<Rightarrow> rust_str" where
  "trim_start s = dropWhile char_is_whitespace s"

text \<open>\<open>find\<close>: what follows the first occurrence of a pattern.\<close>

fun find_after :: "rust_str \<Rightarrow> rust_str \<Rightarrow> rust_str option" where
  "find_after pat s =
     (if prefix pat s then Some (drop (length pat) s)
      else case s of [] \<Rightarrow> None | _ # s' \<Rightarrow> find_after pat s')"

declare find_after.simps [simp del]

definition is_ascii_digit :: "rust_char \<Rightarrow> bool" where
  "is_ascii_digit c \<longleftrightarrow> 48 \<le> c \<and> c \<le> 57"

definition to_ascii_lowercase :: "rust_str \<Rightarrow> rust_str" where
  "to_ascii_lowercase s = map ascii_lower s"

definition digit_value :: "nat \<Rightarrow> rust_char \<Rightarrow> nat option" where
  "digit_value radix c =
     (let d = (if is_ascii_digit c then c - 48
               else if 97 \<le> c \<and> c \<le> 122 then c - 87
               else if 65 \<le> c \<and> c \<le> 90 then c - 55
               else radix)
      in if d < radix then Some d else None)"

fun parse_digits :: "nat \<Rightarrow> nat \<Rightarrow> nat \<Rightarrow> rust_str \<Rightarrow> nat option" where
  "parse_digits radix limit acc [] = Some acc"
| "parse_digits radix limit acc (c # s) =
     (case digit_value radix c of
        None \<Rightarrow> None
      | Some d \<Rightarrow> if limit \<le> acc * radix + d then None else parse_digits radix limit (acc * radix + d) s)"

text \<open>
  \<open>from_str_radix\<close> of an unsigned type with \<open>limit\<close> values: an optional plus sign and at
  least one digit; too large a value is an error.
\<close>

definition from_str_radix :: "nat \<Rightarrow> nat \<Rightarrow> rust_str \<Rightarrow> nat option" where
  "from_str_radix radix limit s =
     (let digits = (case s of c # s' \<Rightarrow> if c = 43 then s' else s | [] \<Rightarrow> [])
      in if digits = [] then None else parse_digits radix limit 0 digits)"

section \<open>JSON helpers\<close>

definition escape_char :: "rust_char \<Rightarrow> rust_str" where
  "escape_char c =
     (if c = 34 then [92, 34] else if c = 92 then [92, 92] else if c = 10 then [92, 110]
      else if c = 13 then [92, 114] else if c = 9 then [92, 116] else [c])"

definition json_escape :: "rust_str \<Rightarrow> rust_str" where
  "json_escape s = concat (map escape_char s)"

definition json_obj :: "(rust_str \<times> rust_str) list \<Rightarrow> rust_str" where
  "json_obj kvs =
     [123] @
     concat (map (\<lambda>(i, k, v). (if 0 < i then [44] else []) @ [34] @ k @ [34, 58, 34] @ json_escape v @ [34])
       (List.enumerate 0 kvs)) @
     [125]"

definition unescape_char :: "rust_char \<Rightarrow> rust_char" where
  "unescape_char e = (if e = 110 then 10 else if e = 114 then 13 else if e = 116 then 9 else e)"

text \<open>The value of a string literal and what follows it.\<close>

fun scan_loop :: "rust_str \<Rightarrow> rust_str \<Rightarrow> (rust_str \<times> rust_str) option" where
  "scan_loop out [] = None"
| "scan_loop out (c # s) =
     (if c = 34 then Some (out, s)
      else if c = 92 then
        (case s of [] \<Rightarrow> None | e # s' \<Rightarrow> scan_loop (out @ [unescape_char e]) s')
      else scan_loop (out @ [c]) s)"

definition scan_json_string :: "rust_str \<Rightarrow> (rust_str \<times> rust_str) option" where
  "scan_json_string s = (case s of c # s' \<Rightarrow> if c = 34 then scan_loop [] s' else None | [] \<Rightarrow> None)"

definition needle :: "rust_str \<Rightarrow> rust_str" where
  "needle key = [34] @ key @ [34]"

lemma find_after_shorter: "find_after pat s = Some t \<Longrightarrow> pat \<noteq> [] \<Longrightarrow> length t < length s"
proof (induction s)
  case (Cons c s)
  show ?case
  proof (cases "prefix pat (c # s)")
    case True
    then show ?thesis using Cons.prems prefix_length_le [OF True] by (auto simp: find_after.simps)
  next
    case False
    then show ?thesis using Cons by (auto simp: find_after.simps [of pat "c # s"])
  qed
qed (auto simp: find_after.simps split: if_splits)

function field_value_start :: "rust_str \<Rightarrow> rust_str \<Rightarrow> rust_str option" where
  "field_value_start body key =
     (case find_after (needle key) body of
        None \<Rightarrow> None
      | Some after_key \<Rightarrow>
          (case trim_start after_key of
             c # rest \<Rightarrow> if c = 58 then Some (trim_start rest) else field_value_start after_key key
           | [] \<Rightarrow> field_value_start after_key key))"
  by auto

termination
  by (relation "measure (length \<circ> fst)") (auto simp: needle_def dest: find_after_shorter)

declare field_value_start.simps [simp del]

definition json_string_field :: "rust_str \<Rightarrow> rust_str \<Rightarrow> rust_str option" where
  "json_string_field body key =
     (case field_value_start body key of
        None \<Rightarrow> None
      | Some rest \<Rightarrow> if prefix (lit ''null'') rest then None else map_option fst (scan_json_string rest))"

definition json_u64_field :: "rust_str \<Rightarrow> rust_str \<Rightarrow> nat option" where
  "json_u64_field body key =
     (case field_value_start body key of
        None \<Rightarrow> None
      | Some rest \<Rightarrow> from_str_radix 10 (2 ^ 64) (takeWhile is_ascii_digit rest))"

lemma scan_loop_shorter: "scan_loop out s = Some (v, rest) \<Longrightarrow> length rest < length s"
  by (induction out s rule: scan_loop.induct) (fastforce split: if_splits list.splits)+

lemma scan_json_string_shorter: "scan_json_string s = Some (v, rest) \<Longrightarrow> length rest < length s"
  by (auto simp: scan_json_string_def split: list.splits if_splits dest: scan_loop_shorter)

function array_loop :: "rust_str list \<Rightarrow> rust_str \<Rightarrow> rust_str list" where
  "array_loop out s =
     (case s of
        [] \<Rightarrow> out
      | c # s' \<Rightarrow>
          if c \<in> {32, 9, 10, 13, 44} then array_loop out s'
          else if c = 93 then out
          else if c = 34 then
            (case scan_json_string s of Some (v, rest) \<Rightarrow> array_loop (out @ [v]) rest | None \<Rightarrow> out)
          else out)"
  by auto

termination
  by (relation "measure (length \<circ> snd)") (auto dest: scan_json_string_shorter)

declare array_loop.simps [simp del]

definition json_string_array_field :: "rust_str \<Rightarrow> rust_str \<Rightarrow> rust_str list" where
  "json_string_array_field body key =
     (case field_value_start body key of
        Some (c # rest) \<Rightarrow> if c = 91 then array_loop [] rest else []
      | _ \<Rightarrow> [])"

record client_participant =
  cp_id :: rust_str
  cp_pubkey :: rust_str
  cp_candidates :: "rust_str list"

definition parse_object :: "rust_str \<Rightarrow> client_participant" where
  "parse_object obj =
     \<lparr>cp_id = (case json_string_field obj (lit ''id'') of Some s \<Rightarrow> s | None \<Rightarrow> []),
      cp_pubkey = (case json_string_field obj (lit ''pubkey'') of Some s \<Rightarrow> s | None \<Rightarrow> []),
      cp_candidates = json_string_array_field obj (lit ''candidates'')\<rparr>"

text \<open>
  The loop over the characters of \<open>rest\<close>: \<open>i\<close> is the position of the next one, \<open>depth\<close> the depth of
  braces (an \<open>i32\<close>, which a text of less than 2 GiB cannot overflow).
\<close>

fun participants_loop ::
  "rust_str \<Rightarrow> nat \<Rightarrow> int \<Rightarrow> nat option \<Rightarrow> bool \<Rightarrow> bool \<Rightarrow> client_participant list \<Rightarrow> rust_str \<Rightarrow> client_participant list" where
  "participants_loop rest i depth obj_start in_str escaped out [] = out"
| "participants_loop rest i depth obj_start in_str escaped out (c # cs) =
     (if in_str then
        (if escaped then participants_loop rest (Suc i) depth obj_start True False out cs
         else if c = 92 then participants_loop rest (Suc i) depth obj_start True True out cs
         else if c = 34 then participants_loop rest (Suc i) depth obj_start False False out cs
         else participants_loop rest (Suc i) depth obj_start True False out cs)
      else if c = 34 then participants_loop rest (Suc i) depth obj_start True escaped out cs
      else if c = 123 then
        participants_loop rest (Suc i) (depth + 1) (if depth = 0 then Some i else obj_start) False escaped out cs
      else if c = 125 then
        (if depth - 1 = 0 then
           (case obj_start of
              Some s \<Rightarrow>
                participants_loop rest (Suc i) (depth - 1) None False escaped
                  (out @ [parse_object (take (Suc i - s) (drop s rest))]) cs
            | None \<Rightarrow> participants_loop rest (Suc i) (depth - 1) None False escaped out cs)
         else participants_loop rest (Suc i) (depth - 1) obj_start False escaped out cs)
      else if c = 93 \<and> depth = 0 then out
      else participants_loop rest (Suc i) depth obj_start False escaped out cs)"

definition parse_participants :: "rust_str \<Rightarrow> client_participant list" where
  "parse_participants body =
     (case field_value_start body (lit ''participants'') of
        None \<Rightarrow> []
      | Some rest \<Rightarrow>
          if \<not> prefix [91] rest then [] else participants_loop rest 0 0 None False False [] rest)"

section \<open>HTTP\<close>

datatype client_error = ClientIo | ClientStatus nat | Malformed string

definition CRLF :: bytes where "CRLF = [13, 10]"

text \<open>The position of the first window equal to the pattern.\<close>

fun window_position :: "bytes \<Rightarrow> bytes \<Rightarrow> nat option" where
  "window_position w [] = None"
| "window_position w (b # bs) =
     (if prefix w (b # bs) then Some 0 else map_option Suc (window_position w bs))"

definition find_header_end :: "bytes \<Rightarrow> nat option" where
  "find_header_end raw = window_position (CRLF @ CRLF) raw"

text \<open>\<open>lines\<close>: split at line feeds, without a carriage return before one and without an empty last line.\<close>

definition strip_cr :: "rust_str \<Rightarrow> rust_str" where
  "strip_cr l = (if l \<noteq> [] \<and> last l = 13 then butlast l else l)"

fun lines_loop :: "rust_str \<Rightarrow> rust_str \<Rightarrow> rust_str list" where
  "lines_loop cur [] = (if cur = [] then [] else [cur])"
| "lines_loop cur (c # s) = (if c = 10 then strip_cr cur # lines_loop [] s else lines_loop (cur @ [c]) s)"

definition str_lines :: "rust_str \<Rightarrow> rust_str list" where
  "str_lines s = lines_loop [] s"

fun words_loop :: "rust_str \<Rightarrow> rust_str \<Rightarrow> rust_str list" where
  "words_loop cur [] = (if cur = [] then [] else [cur])"
| "words_loop cur (c # s) =
     (if char_is_whitespace c then (if cur = [] then words_loop [] s else cur # words_loop [] s)
      else words_loop (cur @ [c]) s)"

definition split_whitespace :: "rust_str \<Rightarrow> rust_str list" where
  "split_whitespace s = words_loop [] s"

definition header_is_chunked :: "rust_str \<Rightarrow> bool" where
  "header_is_chunked head =
     list_ex (\<lambda>l. let l = to_ascii_lowercase l in prefix (lit ''transfer-encoding:'') l \<and> str_contains (lit ''chunked'') l)
       (str_lines head)"

text \<open>The size of a chunk: the text before a semicolon, in hexadecimal.\<close>

definition chunk_size :: "bytes \<Rightarrow> client_error + nat" where
  "chunk_size line =
     (case str_from_utf8 line of
        None \<Rightarrow> Inl (Malformed ''chunk size utf8'')
      | Some s \<Rightarrow>
          (case from_str_radix 16 (2 ^ 64) (takeWhile (\<lambda>c. c \<noteq> 59) (str_trim s)) of
             None \<Rightarrow> Inl (Malformed ''chunk size hex'')
           | Some n \<Rightarrow> Inr n))"

text \<open>The loop of \<open>dechunk\<close>, as it is written: not returning would be the value \<open>None\<close>.\<close>

partial_function (option) dechunk_loop :: "bytes \<Rightarrow> bytes \<Rightarrow> (client_error + bytes) option" where
  "dechunk_loop out body =
     (case window_position CRLF body of
        None \<Rightarrow> Some (Inl (Malformed ''chunk size line''))
      | Some line_end \<Rightarrow>
          (case chunk_size (take line_end body) of
             Inl e \<Rightarrow> Some (Inl e)
           | Inr sz \<Rightarrow>
               (let body = drop (line_end + 2) body
                in if sz = 0 then Some (Inr out)
                   else if length body < sz then Some (Inl (Malformed ''truncated chunk''))
                   else let out = out @ take sz body;
                            body = drop sz body
                        in dechunk_loop out (if prefix CRLF body then drop 2 body else body))))"

definition dechunk :: "bytes \<Rightarrow> (client_error + rust_str) option" where
  "dechunk body =
     map_option (\<lambda>r. case r of
         Inl e \<Rightarrow> Inl e
       | Inr out \<Rightarrow> (case str_from_utf8 out of None \<Rightarrow> Inl (Malformed ''non-utf8 body'') | Some s \<Rightarrow> Inr s))
       (dechunk_loop [] body)"

definition status_code :: "rust_str \<Rightarrow> client_error + nat" where
  "status_code head =
     (case str_lines head of
        [] \<Rightarrow> Inl (Malformed ''no status line'')
      | l # _ \<Rightarrow>
          (case split_whitespace l of
             _ # w # _ \<Rightarrow> (case from_str_radix 10 (2 ^ 16) w of None \<Rightarrow> Inl (Malformed ''no status code'') | Some n \<Rightarrow> Inr n)
           | _ \<Rightarrow> Inl (Malformed ''no status code'')))"

definition parse_response :: "bytes \<Rightarrow> (client_error + nat \<times> rust_str) option" where
  "parse_response raw =
     (case find_header_end raw of
        None \<Rightarrow> Some (Inl (Malformed ''no header terminator''))
      | Some pos \<Rightarrow>
          (case str_from_utf8 (take pos raw) of
             None \<Rightarrow> Some (Inl (Malformed ''non-utf8 headers''))
           | Some head \<Rightarrow>
               (let body = drop (pos + 4) raw
                in case status_code head of
                     Inl e \<Rightarrow> Some (Inl e)
                   | Inr code \<Rightarrow>
                       if header_is_chunked head then
                         map_option (\<lambda>r. case r of Inl e \<Rightarrow> Inl e | Inr b \<Rightarrow> Inr (code, b)) (dechunk body)
                       else (case str_from_utf8 body of
                               None \<Rightarrow> Some (Inl (Malformed ''non-utf8 body''))
                             | Some b \<Rightarrow> Some (Inr (code, b))))))"

definition expect_status :: "nat \<Rightarrow> nat \<Rightarrow> client_error + unit" where
  "expect_status status want = (if status = want then Inr () else Inl (ClientStatus status))"

section \<open>Requests\<close>

record signaling_client =
  sc_host_header :: rust_str

text \<open>The text of a request. Line ends are written as numbers: 13 and 10.\<close>

definition request_text :: "signaling_client \<Rightarrow> rust_str \<Rightarrow> rust_str \<Rightarrow> rust_str option \<Rightarrow> rust_str" where
  "request_text c verb path body =
     verb @ [32] @ path @ lit '' HTTP/1.1'' @ [13, 10] @ lit ''Host: '' @ sc_host_header c @ [13, 10] @
     lit ''Connection: close'' @ [13, 10] @
     (case body of
        Some b \<Rightarrow> lit ''Content-Type: application/json'' @ [13, 10] @ lit ''Content-Length: '' @ dec_str (str_len b) @ [13, 10]
      | None \<Rightarrow> []) @
     [13, 10] @ (case body of Some b \<Rightarrow> b | None \<Rightarrow> [])"

text \<open>
  \<open>exchange\<close> is the connection: the bytes read until the server closes it, or \<open>None\<close> for an
  error of the transport.
\<close>

definition client_request ::
  "(bytes \<Rightarrow> bytes option) \<Rightarrow> signaling_client \<Rightarrow> rust_str \<Rightarrow> rust_str \<Rightarrow> rust_str option \<Rightarrow> (client_error + nat \<times> rust_str) option" where
  "client_request exchange c verb path body =
     (case exchange (str_as_bytes (request_text c verb path body)) of
        None \<Rightarrow> Some (Inl ClientIo)
      | Some raw \<Rightarrow> parse_response raw)"

text \<open>A request whose answer must have a given status; \<open>f\<close> reads the body.\<close>

definition requesting ::
  "(bytes \<Rightarrow> bytes option) \<Rightarrow> signaling_client \<Rightarrow> rust_str \<Rightarrow> rust_str \<Rightarrow> rust_str option \<Rightarrow> nat \<Rightarrow>
     (rust_str \<Rightarrow> client_error + 'a) \<Rightarrow> (client_error + 'a) option" where
  "requesting exchange c verb path body want f =
     (case client_request exchange c verb path body of
        None \<Rightarrow> None
      | Some (Inl e) \<Rightarrow> Some (Inl e)
      | Some (Inr (status, text)) \<Rightarrow>
          (case expect_status status want of Inl e \<Rightarrow> Some (Inl e) | Inr _ \<Rightarrow> Some (f text)))"

definition required :: "string \<Rightarrow> 'a option \<Rightarrow> client_error + 'a" where
  "required what v = (case v of Some x \<Rightarrow> Inr x | None \<Rightarrow> Inl (Malformed what))"

abbreviation GET :: rust_str where "GET \<equiv> lit ''GET''"
abbreviation POST :: rust_str where "POST \<equiv> lit ''POST''"

definition client_create_session where
  "client_create_session exchange c =
     requesting exchange c POST (lit ''/signal/session'') None 201
       (\<lambda>body. required ''missing session_code'' (json_string_field body (lit ''session_code'')))"

definition client_post_offer where
  "client_post_offer exchange c code sdp =
     requesting exchange c POST (lit ''/signal/offer'')
       (Some (json_obj [(lit ''session_code'', code), (lit ''sdp'', sdp)])) 200 (\<lambda>_. Inr ())"

definition client_post_answer where
  "client_post_answer exchange c code sdp =
     requesting exchange c POST (lit ''/signal/answer'')
       (Some (json_obj [(lit ''session_code'', code), (lit ''sdp'', sdp)])) 200 (\<lambda>_. Inr ())"

definition client_post_candidate where
  "client_post_candidate exchange c code candidate =
     requesting exchange c POST (lit ''/signal/candidate'')
       (Some (json_obj [(lit ''session_code'', code), (lit ''candidate'', candidate)])) 202 (\<lambda>_. Inr ())"

record client_join_info =
  cj_offer :: "rust_str option"
  cj_candidates :: "rust_str list"

definition client_join where
  "client_join exchange c code =
     requesting exchange c GET (lit ''/signal/join/'' @ code) None 200
       (\<lambda>body. Inr \<lparr>cj_offer = json_string_field body (lit ''offer''),
                     cj_candidates = json_string_array_field body (lit ''candidates'')\<rparr>)"

definition client_poll_answer where
  "client_poll_answer exchange c code =
     requesting exchange c GET (lit ''/signal/answer/'' @ code) None 200
       (\<lambda>body. Inr (json_string_field body (lit ''answer'')))"

record client_turn_cred =
  ct_urls :: "rust_str list"
  ct_username :: rust_str
  ct_credential :: rust_str
  ct_ttl_secs :: nat

definition turn_of_body :: "rust_str \<Rightarrow> client_error + client_turn_cred" where
  "turn_of_body body =
     (case required ''missing username'' (json_string_field body (lit ''username'')) of
        Inl e \<Rightarrow> Inl e
      | Inr username \<Rightarrow>
          (case required ''missing credential'' (json_string_field body (lit ''credential'')) of
             Inl e \<Rightarrow> Inl e
           | Inr credential \<Rightarrow>
               Inr \<lparr>ct_urls = json_string_array_field body (lit ''urls''), ct_username = username, ct_credential = credential,
                    ct_ttl_secs = (case json_u64_field body (lit ''ttl_secs'') of Some n \<Rightarrow> n | None \<Rightarrow> 0)\<rparr>))"

definition client_turn_credential where
  "client_turn_credential exchange c = requesting exchange c POST (lit ''/signal/turn'') None 200 turn_of_body"

definition client_mark_connected where
  "client_mark_connected exchange c code =
     requesting exchange c POST (lit ''/signal/connected'') (Some (json_obj [(lit ''session_code'', code)])) 200 (\<lambda>_. Inr ())"

definition client_create_room where
  "client_create_room exchange c =
     requesting exchange c POST (lit ''/signal/room'') None 201
       (\<lambda>body. required ''missing room_code'' (json_string_field body (lit ''room_code'')))"

definition client_join_room where
  "client_join_room exchange c code participant_id pubkey_hex =
     requesting exchange c POST (lit ''/signal/room/join'')
       (Some (json_obj [(lit ''room_code'', code), (lit ''participant_id'', participant_id), (lit ''pubkey'', pubkey_hex)]))
       200 (\<lambda>_. Inr ())"

definition client_post_room_candidate where
  "client_post_room_candidate exchange c code participant_id candidate =
     requesting exchange c POST (lit ''/signal/room/candidate'')
       (Some (json_obj [(lit ''room_code'', code), (lit ''participant_id'', participant_id), (lit ''candidate'', candidate)]))
       202 (\<lambda>_. Inr ())"

definition client_room_roster where
  "client_room_roster exchange c code =
     requesting exchange c GET (lit ''/signal/room/'' @ code) None 200 (\<lambda>body. Inr (parse_participants body))"

definition roster_peers :: "client_participant list \<Rightarrow> rust_str \<Rightarrow> client_participant list" where
  "roster_peers ps me = filter (\<lambda>p. cp_id p \<noteq> me) ps"

section \<open>The chunk decoder ends\<close>

lemma window_position_bound: "window_position w bs = Some i \<Longrightarrow> i < length bs"
  by (induction bs arbitrary: i) (auto split: if_splits)

lemma window_position_prefix: "window_position w bs = Some i \<Longrightarrow> prefix w (drop i bs)"
  by (induction bs arbitrary: i) (auto split: if_splits)

lemma dechunk_loop_ends: "\<exists>r. dechunk_loop out body = Some r"
proof (induction "length body" arbitrary: out body rule: less_induct)
  case less
  show ?case
    by (subst dechunk_loop.simps)
      (auto simp: Let_def dest: window_position_bound intro!: less.hyps split: option.splits sum.splits)
qed

lemma parse_digits_bound: "parse_digits radix limit acc s = Some n \<Longrightarrow> acc < limit \<Longrightarrow> n < limit"
  by (induction radix limit acc s rule: parse_digits.induct) (auto split: option.splits if_splits)

lemma from_str_radix_bound: "from_str_radix radix limit s = Some n \<Longrightarrow> 0 < limit \<Longrightarrow> n < limit"
  by (auto simp: from_str_radix_def Let_def simp del: parse_digits.simps dest: parse_digits_bound split: if_splits list.splits)

lemma status_code_bound: "status_code head = Inr n \<Longrightarrow> n < 2 ^ 16"
  by (auto simp: status_code_def dest: from_str_radix_bound split: list.splits option.splits)

lemma dechunk_ends: "\<exists>r. dechunk body = Some r \<and> (\<forall>text. r = Inr text \<longrightarrow> valid_str text) \<and> (\<forall>n. r \<noteq> Inl (ClientStatus n))"
proof -
  obtain r where r: "dechunk_loop [] body = Some r" using dechunk_loop_ends by blast
  have "r \<noteq> Inl (ClientStatus n)" for n
  proof -
    have "dechunk_loop out body = Some r \<Longrightarrow> r \<noteq> Inl (ClientStatus n)" for out body
      by (rule dechunk_loop.raw_induct [where P = "\<lambda>_ _ r. r \<noteq> Inl (ClientStatus n)"])
        (auto simp: Let_def chunk_size_def split: option.splits sum.splits if_splits)
    then show ?thesis using r .
  qed
  then show ?thesis
    using r by (auto simp: dechunk_def dest: str_as_bytes_from_utf8 split: sum.splits option.splits)
qed



section \<open>What the server writes\<close>

text \<open>The compact JSON text of the responses: strings, arrays of strings, numbers and null.\<close>

datatype jval = JNull | JStr rust_str | JStrs "rust_str list" | JNum nat

definition render_str :: "rust_str \<Rightarrow> rust_str" where
  "render_str v = [34] @ json_escape v @ [34]"

fun render_strs :: "rust_str list \<Rightarrow> rust_str" where
  "render_strs [] = []"
| "render_strs [v] = render_str v"
| "render_strs (v # vs) = render_str v @ [44] @ render_strs vs"

fun render_val :: "jval \<Rightarrow> rust_str" where
  "render_val JNull = [110, 117, 108, 108]"
| "render_val (JStr v) = render_str v"
| "render_val (JStrs vs) = [91] @ render_strs vs @ [93]"
| "render_val (JNum n) = dec_str n"

definition render_field :: "rust_str \<times> jval \<Rightarrow> rust_str" where
  "render_field kv = [34] @ fst kv @ [34, 58] @ render_val (snd kv)"

fun render_fields :: "(rust_str \<times> jval) list \<Rightarrow> rust_str" where
  "render_fields [] = []"
| "render_fields [kv] = render_field kv"
| "render_fields (kv # kvs) = render_field kv @ [44] @ render_fields kvs"

definition render_obj :: "(rust_str \<times> jval) list \<Rightarrow> rust_str" where
  "render_obj kvs = [123] @ render_fields kvs @ [125]"

definition key_ok :: "rust_str \<Rightarrow> bool" where
  "key_ok k \<longleftrightarrow> k \<noteq> [] \<and> list_all (\<lambda>c. c = 95 \<or> 97 \<le> c \<and> c \<le> 122) k"

section \<open>Searching\<close>

lemma escape_char_cases:
  "escape_char c = [c] \<and> c \<noteq> 34 \<and> c \<noteq> 92 \<or> (\<exists>x. escape_char c = [92, x] \<and> unescape_char x = c)"
  by (auto simp: escape_char_def unescape_char_def)

lemma json_escape_simps [simp]: "json_escape [] = []" "json_escape (c # v) = escape_char c @ json_escape v"
  by (simp_all add: json_escape_def)

lemma scan_loop_escape: "scan_loop out (json_escape v @ 34 # rest) = Some (out @ v, rest)"
proof (induction v arbitrary: out)
  case (Cons c v)
  then show ?case using escape_char_cases [of c] by auto
qed simp

lemma scan_render_str: "scan_json_string (render_str v @ rest) = Some (v, rest)"
  by (simp add: scan_json_string_def render_str_def scan_loop_escape)

lemma fvs_skip: "\<not> prefix (needle k) (c # s) \<Longrightarrow> field_value_start (c # s) k = field_value_start s k"
  by (subst (1 2) field_value_start.simps, subst find_after.simps) simp

lemma fvs_Nil [simp]: "field_value_start [] k = None"
  by (subst field_value_start.simps) (simp add: find_after.simps needle_def)

lemma fvs_char [simp]: "c \<noteq> 34 \<Longrightarrow> field_value_start (c # s) k = field_value_start s k"
  by (simp add: fvs_skip needle_def)

lemma fvs_no_quote: "34 \<notin> set u \<Longrightarrow> field_value_start (u @ s) k = field_value_start s k"
  by (induction u) auto

text \<open>The characters that follow a value.\<close>

definition ender :: "rust_char \<Rightarrow> bool" where
  "ender d \<longleftrightarrow> d = 44 \<or> d = 93 \<or> d = 125"

lemma key_ok_chars: "key_ok k \<Longrightarrow> c \<in> set k \<Longrightarrow> c \<noteq> 34 \<and> c \<noteq> 92 \<and> c \<noteq> 58 \<and> \<not> ender c"
  by (auto simp: key_ok_def list_all_iff ender_def)

lemma fvs_closing_quote:
  assumes "key_ok k" "ender d \<or> d = 58"
  shows "field_value_start (34 # d # s) k = field_value_start (d # s) k"
proof (rule fvs_skip)
  obtain a k' where k: "k = a # k'" using assms(1) by (cases k) (auto simp: key_ok_def)
  then have "a \<noteq> d" using key_ok_chars [OF assms(1), of a] assms(2) by auto
  then show "\<not> prefix (needle k) (34 # d # s)" by (simp add: needle_def k)
qed

lemma prefix_key_escape:
  "\<forall>c\<in>set k. c \<noteq> 34 \<and> c \<noteq> 92 \<Longrightarrow> prefix (k @ [34]) (json_escape v @ 34 # rest) \<longleftrightarrow> json_escape v = k"
proof (induction v arbitrary: k)
  case Nil
  then show ?case by (cases k) auto
next
  case (Cons c v)
  then show ?case using escape_char_cases [of c] by (cases k) auto
qed

lemma prefix_needle_str:
  "key_ok k \<Longrightarrow> prefix (needle k) (34 # json_escape v @ 34 # rest) \<longleftrightarrow> json_escape v = k"
  using prefix_key_escape [of k v rest] key_ok_chars [of k] by (simp add: needle_def)

lemma not_space_ender: "ender d \<Longrightarrow> trim_start (d # s) = d # s \<and> d \<noteq> 58"
  by (auto simp: ender_def trim_start_def char_is_whitespace_def)

lemma fvs_quoted:
  assumes "key_ok k" "ender d" "field_value_start (json_escape v @ 34 # d # s) k = field_value_start (d # s) k"
  shows "field_value_start (34 # json_escape v @ 34 # d # s) k = field_value_start (d # s) k"
proof (cases "json_escape v = k")
  case True
  then have "find_after (needle k) (34 # json_escape v @ 34 # d # s) = Some (d # s)"
    using prefix_needle_str [OF assms(1), of v "d # s"] by (subst find_after.simps) (simp add: needle_def)
  then show ?thesis using not_space_ender [OF assms(2), of s] by (subst field_value_start.simps) simp
next
  case False
  then show ?thesis using assms(3) prefix_needle_str [OF assms(1), of v "d # s"] by (simp add: fvs_skip)
qed

lemma fvs_in_string:
  assumes "key_ok k" "ender d"
  shows "field_value_start (json_escape v @ 34 # d # s) k = field_value_start (d # s) k"
proof (induction v)
  case Nil
  then show ?case using fvs_closing_quote [OF assms(1)] assms(2) by simp
next
  case (Cons c v)
  consider "escape_char c = [c]" "c \<noteq> 34" | x where "escape_char c = [92, x]" "x \<noteq> 34" | "escape_char c = [92, 34]"
    using escape_char_cases [of c] by blast
  then show ?case
    using Cons fvs_quoted [OF assms Cons] by cases auto
qed

lemma fvs_str: "key_ok k \<Longrightarrow> ender d \<Longrightarrow> field_value_start (render_str v @ d # s) k = field_value_start (d # s) k"
  using fvs_quoted [OF _ _ fvs_in_string] by (simp add: render_str_def)

lemma fvs_strs: "key_ok k \<Longrightarrow> field_value_start (render_strs vs @ 93 # s) k = field_value_start s k"
  by (induction vs rule: render_strs.induct) (auto simp: fvs_str ender_def)

lemma dec_str_digits: "c \<in> set (dec_str n) \<Longrightarrow> is_ascii_digit c"
  by (induction n rule: dec_str.induct) (subst (asm) (2) dec_str.simps, auto simp: is_ascii_digit_def split: if_splits)

lemma fvs_val: "key_ok k \<Longrightarrow> ender d \<Longrightarrow> field_value_start (render_val v @ d # s) k = field_value_start (d # s) k"
proof (cases v)
  case (JNum n)
  have "34 \<notin> set (dec_str n)" using dec_str_digits [of 34 n] by (auto simp: is_ascii_digit_def)
  then show ?thesis by (simp add: JNum fvs_no_quote)
qed (auto simp: fvs_str fvs_strs)

lemma json_escape_key: "key_ok k \<Longrightarrow> json_escape k = k"
proof -
  have "\<forall>c\<in>set k. c = 95 \<or> 97 \<le> c \<and> c \<le> 122 \<Longrightarrow> json_escape k = k"
    by (induction k) (auto simp: escape_char_def)
  then show "key_ok k \<Longrightarrow> json_escape k = k" by (simp add: key_ok_def list_all_iff)
qed

lemma fvs_other_key:
  assumes "key_ok k" "key_ok k'" "k' \<noteq> k"
  shows "field_value_start ([34] @ k' @ [34, 58] @ s) k = field_value_start s k"
proof -
  have "\<not> prefix (needle k) (34 # k' @ 34 # 58 # s)"
    using prefix_needle_str [OF assms(1), of k' "58 # s"] assms(3) json_escape_key [OF assms(2)] by simp
  moreover have "34 \<notin> set k'" using key_ok_chars [OF assms(2)] by blast
  ultimately show ?thesis
    using fvs_closing_quote [OF assms(1), of 58 s] by (simp add: fvs_skip fvs_no_quote)
qed

lemma render_val_start: "\<exists>c t. render_val v = c # t \<and> \<not> char_is_whitespace c"
proof (cases v)
  case (JNum n)
  obtain c t where "dec_str n = c # t" by (cases "dec_str n") (auto simp: dec_str.simps [of n] split: if_splits)
  then show ?thesis using dec_str_digits [of c n] JNum by (auto simp: is_ascii_digit_def char_is_whitespace_def)
qed (auto simp: render_str_def char_is_whitespace_def)

lemma not_space_colon: "\<not> char_is_whitespace 58"
  by (simp add: char_is_whitespace_def)

lemma fvs_this_key:
  assumes "key_ok k"
  shows "field_value_start ([34] @ k @ [34, 58] @ render_val v @ s) k = Some (render_val v @ s)"
proof -
  obtain c t where v: "render_val v = c # t" "\<not> char_is_whitespace c" using render_val_start by blast
  have "find_after (needle k) ([34] @ k @ [34, 58] @ render_val v @ s) = Some (58 # render_val v @ s)"
    by (subst find_after.simps) (simp add: needle_def)
  then show ?thesis
    using v not_space_colon by (subst field_value_start.simps) (simp add: trim_start_def)
qed

lemma fvs_fields:
  assumes "key_ok k" "\<forall>kv\<in>set kvs. key_ok (fst kv)"
  shows "case map_of kvs k of
      Some v \<Rightarrow> \<exists>d t. ender d \<and> field_value_start (render_fields kvs @ 125 # s) k = Some (render_val v @ d # t)
    | None \<Rightarrow> field_value_start (render_fields kvs @ 125 # s) k = field_value_start s k"
  using assms(2)
proof (induction kvs rule: render_fields.induct)
  case (2 kv)
  obtain k' v where kv: "kv = (k', v)" by fastforce
  have e: "ender 125" by (simp add: ender_def)
  show ?case
  proof (cases "k' = k")
    case True
    then show ?thesis
      using fvs_this_key [OF assms(1), of v "125 # s"] e by (auto simp: kv render_field_def)
  next
    case False
    then show ?thesis
      using fvs_other_key [OF assms(1), of k' "render_val v @ 125 # s"] fvs_val [OF assms(1) e, of v s] "2.prems"
      by (simp add: kv render_field_def)
  qed
next
  case (3 kv kv2 kvs)
  obtain k' v where kv: "kv = (k', v)" by fastforce
  have e: "ender 44" by (simp add: ender_def)
  let ?t = "render_fields (kv2 # kvs) @ 125 # s"
  show ?case
  proof (cases "k' = k")
    case True
    then show ?thesis
      using fvs_this_key [OF assms(1), of v "44 # ?t"] e by (auto simp: kv render_field_def)
  next
    case False
    have eq: "field_value_start (render_fields (kv # kv2 # kvs) @ 125 # s) k = field_value_start ?t k"
      using fvs_other_key [OF assms(1), of k' "render_val v @ 44 # ?t"] fvs_val [OF assms(1) e, of v ?t] "3.prems" False
      by (simp add: kv render_field_def)
    have m: "map_of (kv # kv2 # kvs) k = map_of (kv2 # kvs) k" using False by (simp add: kv)
    have "\<forall>kv\<in>set (kv2 # kvs). key_ok (fst kv)" using "3.prems" by simp
    from "3.IH" [OF this] show ?thesis by (simp only: m eq)
  qed
qed simp

lemma array_loop_strs: "array_loop out (render_strs vs @ 93 # s) = out @ vs"
proof (induction vs arbitrary: out rule: render_strs.induct)
  case 1
  then show ?case by (simp add: array_loop.simps)
next
  case (2 v)
  have "render_str v @ 93 # s = 34 # json_escape v @ 34 # 93 # s" by (simp add: render_str_def)
  then show ?case
    using scan_render_str [of v "93 # s"] by (subst array_loop.simps) (simp add: array_loop.simps [of _ "93 # s"])
next
  case (3 v v2 vs)
  let ?t = "44 # render_strs (v2 # vs) @ 93 # s"
  have "array_loop (out @ [v]) ?t = array_loop (out @ [v]) (render_strs (v2 # vs) @ 93 # s)" by (subst array_loop.simps) simp
  moreover have "array_loop out (render_str v @ ?t) = array_loop (out @ [v]) ?t"
    using scan_render_str [of v ?t] by (subst array_loop.simps) (simp add: render_str_def)
  ultimately show ?case using 3 by simp
qed

lemma parse_digits_snoc:
  "parse_digits radix limit acc (s @ [c]) =
     (case parse_digits radix limit acc s of
        None \<Rightarrow> None
      | Some a \<Rightarrow> (case digit_value radix c of None \<Rightarrow> None | Some d \<Rightarrow> if limit \<le> a * radix + d then None else Some (a * radix + d)))"
  by (induction radix limit acc s rule: parse_digits.induct) (auto split: option.splits)

lemma parse_dec_str: "n < limit \<Longrightarrow> parse_digits 10 limit 0 (dec_str n) = Some n"
proof (induction n rule: dec_str.induct)
  case (1 n)
  show ?case
  proof (cases "n < 10")
    case True
    then show ?thesis using "1.prems" by (simp add: dec_str.simps digit_value_def is_ascii_digit_def)
  next
    case False
    have "digit_value 10 (48 + n mod 10) = Some (n mod 10)" by (simp add: digit_value_def is_ascii_digit_def)
    then show ?thesis using 1 False by (subst dec_str.simps) (simp add: parse_digits_snoc)
  qed
qed

lemma parse_dec_str_None: "limit \<le> n \<Longrightarrow> 0 < limit \<Longrightarrow> parse_digits 10 limit 0 (dec_str n) = None"
proof (induction n rule: dec_str.induct)
  case (1 n)
  show ?case
  proof (cases "n < 10")
    case True
    then show ?thesis using "1.prems" by (simp add: dec_str.simps digit_value_def is_ascii_digit_def)
  next
    case False
    have d: "digit_value 10 (48 + n mod 10) = Some (n mod 10)" by (simp add: digit_value_def is_ascii_digit_def)
    show ?thesis
    proof (cases "n div 10 < limit")
      case True
      then show ?thesis using 1 False d parse_dec_str [OF True] by (subst dec_str.simps) (simp add: parse_digits_snoc)
    next
      case False': False
      then show ?thesis using 1 False by (subst dec_str.simps) (simp add: parse_digits_snoc)
    qed
  qed
qed

lemma from_str_dec: "0 < limit \<Longrightarrow> from_str_radix 10 limit (dec_str n) = (if n < limit then Some n else None)"
proof -
  obtain c t where c: "dec_str n = c # t" by (cases "dec_str n") (auto simp: dec_str.simps [of n] split: if_splits)
  then have "c \<noteq> 43" using dec_str_digits [of c n] by (auto simp: is_ascii_digit_def)
  moreover assume "0 < limit"
  ultimately show ?thesis
    using c parse_dec_str [of n limit] parse_dec_str_None [of limit n] by (simp add: from_str_radix_def del: parse_digits.simps)
qed

lemma render_obj_value:
  assumes "key_ok k" "\<forall>kv\<in>set kvs. key_ok (fst kv)"
  shows "map_of kvs k = None \<Longrightarrow> field_value_start (render_obj kvs) k = None"
    and "map_of kvs k = Some v \<Longrightarrow> \<exists>d t. ender d \<and> field_value_start (render_obj kvs) k = Some (render_val v @ d # t)"
  using fvs_fields [OF assms, of "[]"] by (auto simp: render_obj_def split: option.splits)

lemma takeWhile_dec: "ender d \<Longrightarrow> takeWhile is_ascii_digit (dec_str n @ d # t) = dec_str n"
  using dec_str_digits by (subst takeWhile_append2) (auto simp: ender_def is_ascii_digit_def)

lemma dec_str_first: "\<exists>c t. dec_str n = c # t \<and> 48 \<le> c \<and> c \<le> 57"
proof -
  obtain c t where "dec_str n = c # t" by (cases "dec_str n") (auto simp: dec_str.simps [of n] split: if_splits)
  then show ?thesis using dec_str_digits [of c n] by (auto simp: is_ascii_digit_def)
qed

lemma from_str_radix_Nil [simp]: "from_str_radix radix limit [] = None"
  by (simp add: from_str_radix_def)

lemma read_value:
  assumes "field_value_start body k = Some (render_val v @ d # t)" "ender d"
  shows "json_string_field body k = (case v of JStr x \<Rightarrow> Some x | _ \<Rightarrow> None)"
    and "json_string_array_field body k = (case v of JStrs xs \<Rightarrow> xs | _ \<Rightarrow> [])"
    and "json_u64_field body k = (case v of JNum n \<Rightarrow> if n < 2 ^ 64 then Some n else None | _ \<Rightarrow> None)"
proof -
  obtain c u where n: "v = JNum n \<Longrightarrow> dec_str n = c # u \<and> 48 \<le> c \<and> c \<le> 57" for n using dec_str_first by (cases v) fastforce+
  show "json_string_field body k = (case v of JStr x \<Rightarrow> Some x | _ \<Rightarrow> None)"
    using assms n by (cases v) (auto simp: json_string_field_def lit_def scan_json_string_def scan_loop_escape render_str_def)
  show "json_string_array_field body k = (case v of JStrs xs \<Rightarrow> xs | _ \<Rightarrow> [])"
    using assms n by (cases v) (auto simp: json_string_array_field_def render_str_def array_loop_strs)
  show "json_u64_field body k = (case v of JNum n \<Rightarrow> if n < 2 ^ 64 then Some n else None | _ \<Rightarrow> None)"
    using assms
    by (cases v) (auto simp: json_u64_field_def takeWhile_dec from_str_dec from_str_radix_Nil is_ascii_digit_def render_str_def)
qed

text \<open>
  In an object as the server writes it, the search for a key finds the value of that key and nothing
  else, whatever quotes, brackets, colons or texts that look like fields the strings hold.
\<close>

lemma fields_read:
  assumes "key_ok k" "\<forall>kv\<in>set kvs. key_ok (fst kv)"
  shows "json_string_field (render_obj kvs) k = (case map_of kvs k of Some (JStr v) \<Rightarrow> Some v | _ \<Rightarrow> None)"
    and "json_string_array_field (render_obj kvs) k = (case map_of kvs k of Some (JStrs vs) \<Rightarrow> vs | _ \<Rightarrow> [])"
    and "json_u64_field (render_obj kvs) k =
      (case map_of kvs k of Some (JNum n) \<Rightarrow> if n < 2 ^ 64 then Some n else None | _ \<Rightarrow> None)"
proof -
  have "json_string_field (render_obj kvs) k = (case map_of kvs k of Some (JStr v) \<Rightarrow> Some v | _ \<Rightarrow> None) \<and>
    json_string_array_field (render_obj kvs) k = (case map_of kvs k of Some (JStrs vs) \<Rightarrow> vs | _ \<Rightarrow> []) \<and>
    json_u64_field (render_obj kvs) k =
      (case map_of kvs k of Some (JNum n) \<Rightarrow> if n < 2 ^ 64 then Some n else None | _ \<Rightarrow> None)"
  proof (cases "map_of kvs k")
    case None
    then show ?thesis
      using render_obj_value(1) [OF assms] by (simp add: json_string_field_def json_string_array_field_def json_u64_field_def)
  next
    case (Some v)
    obtain d t where "ender d" "field_value_start (render_obj kvs) k = Some (render_val v @ d # t)"
      using render_obj_value(2) [OF assms Some] by blast
    from read_value [OF this(2,1)] Some show ?thesis by (cases v) simp_all
  qed
  then show "json_string_field (render_obj kvs) k = (case map_of kvs k of Some (JStr v) \<Rightarrow> Some v | _ \<Rightarrow> None)"
    and "json_string_array_field (render_obj kvs) k = (case map_of kvs k of Some (JStrs vs) \<Rightarrow> vs | _ \<Rightarrow> [])"
    and "json_u64_field (render_obj kvs) k =
      (case map_of kvs k of Some (JNum n) \<Rightarrow> if n < 2 ^ 64 then Some n else None | _ \<Rightarrow> None)"
    by blast+
qed

section \<open>Rosters\<close>

lemma loop_in_str:
  "participants_loop r i depth st True False out (json_escape v @ 34 # cs) =
     participants_loop r (i + length (json_escape v) + 1) depth st False False out cs"
proof (induction v arbitrary: i)
  case (Cons c v)
  then show ?case using escape_char_cases [of c] by auto
qed simp

lemma loop_str:
  "participants_loop r i depth st False False out (render_str v @ cs) =
     participants_loop r (i + length (render_str v)) depth st False False out cs"
  using loop_in_str [of r "Suc i" depth st out v cs] by (simp add: render_str_def)

lemma loop_plain:
  "\<forall>c\<in>set u. c \<noteq> 34 \<and> c \<noteq> 123 \<and> c \<noteq> 125 \<and> (c \<noteq> 93 \<or> depth \<noteq> 0) \<Longrightarrow>
     participants_loop r i depth st False False out (u @ cs) = participants_loop r (i + length u) depth st False False out cs"
  by (induction u arbitrary: i) auto

lemma loop_strs:
  "participants_loop r i 1 st False False out (render_strs vs @ cs) =
     participants_loop r (i + length (render_strs vs)) 1 st False False out cs"
  by (induction vs arbitrary: i rule: render_strs.induct) (auto simp: loop_str add.assoc)

lemma loop_val:
  "participants_loop r i 1 st False False out (render_val v @ cs) =
     participants_loop r (i + length (render_val v)) 1 st False False out cs"
proof (cases v)
  case (JNum n)
  have "\<forall>c\<in>set (dec_str n). 48 \<le> c \<and> c \<le> 57" using dec_str_digits [of _ n] by (auto simp: is_ascii_digit_def)
  then show ?thesis using loop_plain [of "dec_str n" 1 r i st out cs] by (force simp: JNum)
qed (auto simp: loop_str loop_strs)

lemma loop_field:
  assumes "key_ok (fst kv)"
  shows "participants_loop r i 1 st False False out (render_field kv @ cs) =
    participants_loop r (i + length (render_field kv)) 1 st False False out cs"
proof -
  have eq: "render_field kv = render_str (fst kv) @ 58 # render_val (snd kv)"
    using json_escape_key [OF assms] by (simp add: render_field_def render_str_def)
  show ?thesis unfolding eq by (simp add: loop_str loop_val add.assoc)
qed

lemma loop_fields:
  "\<forall>kv\<in>set kvs. key_ok (fst kv) \<Longrightarrow>
   participants_loop r i 1 st False False out (render_fields kvs @ cs) =
     participants_loop r (i + length (render_fields kvs)) 1 st False False out cs"
  by (induction kvs arbitrary: i rule: render_fields.induct) (auto simp: loop_field add.assoc)

lemma loop_obj:
  assumes "\<forall>kv\<in>set kvs. key_ok (fst kv)" "drop i r = render_obj kvs @ cs"
  shows "participants_loop r i 0 None False False out (render_obj kvs @ cs) =
    participants_loop r (i + length (render_obj kvs)) 0 None False False (out @ [parse_object (render_obj kvs)]) cs"
proof -
  have "take (length (render_obj kvs)) (drop i r) = render_obj kvs" by (simp add: assms(2))
  then show ?thesis
    using loop_fields [OF assms(1), of r "Suc i" "Some i" out "125 # cs"] by (simp add: render_obj_def)
qed

fun render_objs :: "(rust_str \<times> jval) list list \<Rightarrow> rust_str" where
  "render_objs [] = []"
| "render_objs [x] = render_obj x"
| "render_objs (x # xs) = render_obj x @ [44] @ render_objs xs"

lemma loop_objs:
  assumes "\<forall>kvs\<in>set objs. \<forall>kv\<in>set kvs. key_ok (fst kv)" "drop i r = render_objs objs @ 93 # cs"
  shows "participants_loop r i 0 None False False out (render_objs objs @ 93 # cs) =
    out @ map (\<lambda>kvs. parse_object (render_obj kvs)) objs"
  using assms
proof (induction objs arbitrary: i out rule: render_objs.induct)
  case (2 x)
  then show ?case using loop_obj [of x i r "93 # cs" out] by simp
next
  case (3 x y ys)
  let ?t = "render_objs (y # ys) @ 93 # cs"
  have x: "\<forall>kv\<in>set x. key_ok (fst kv)" using "3.prems" by simp
  have d: "drop i r = render_obj x @ 44 # ?t" using "3.prems" by simp
  have "drop (length (render_obj x @ [44])) (drop i r) = ?t" unfolding d by simp
  then have d2: "drop (Suc (i + length (render_obj x))) r = ?t" by (simp add: add.commute)
  have "\<forall>kvs\<in>set (y # ys). \<forall>kv\<in>set kvs. key_ok (fst kv)" using "3.prems" by simp
  from "3.IH" [OF this d2, of "out @ [parse_object (render_obj x)]"] loop_obj [OF x d, of out] show ?case by simp
qed simp

text \<open>The text of a roster: some fields, then the participants, then anything.\<close>

definition render_roster :: "(rust_str \<times> jval) list \<Rightarrow> (rust_str \<times> jval) list list \<Rightarrow> rust_str \<Rightarrow> rust_str" where
  "render_roster before objs after =
     [123] @ concat (map (\<lambda>kv. render_field kv @ [44]) before) @
     [34] @ lit ''participants'' @ [34, 58, 91] @ render_objs objs @ [93] @ after"

definition participant_of :: "(rust_str \<times> jval) list \<Rightarrow> client_participant" where
  "participant_of kvs =
     \<lparr>cp_id = (case map_of kvs (lit ''id'') of Some (JStr v) \<Rightarrow> v | _ \<Rightarrow> []),
      cp_pubkey = (case map_of kvs (lit ''pubkey'') of Some (JStr v) \<Rightarrow> v | _ \<Rightarrow> []),
      cp_candidates = (case map_of kvs (lit ''candidates'') of Some (JStrs vs) \<Rightarrow> vs | _ \<Rightarrow> [])\<rparr>"

lemma parse_object_of: "\<forall>kv\<in>set kvs. key_ok (fst kv) \<Longrightarrow> parse_object (render_obj kvs) = participant_of kvs"
proof -
  have "key_ok (lit ''id'')" "key_ok (lit ''pubkey'')" "key_ok (lit ''candidates'')" by (simp_all add: key_ok_def lit_def)
  then show "\<forall>kv\<in>set kvs. key_ok (fst kv) \<Longrightarrow> parse_object (render_obj kvs) = participant_of kvs"
    by (auto simp: parse_object_def participant_of_def fields_read split: option.splits jval.splits)
qed

lemma fvs_before:
  assumes "key_ok k" "\<forall>kv\<in>set before. key_ok (fst kv) \<and> fst kv \<noteq> k"
  shows "field_value_start (concat (map (\<lambda>kv. render_field kv @ [44]) before) @ s) k = field_value_start s k"
  using assms(2)
proof (induction before)
  case (Cons kv before)
  let ?t = "concat (map (\<lambda>kv. render_field kv @ [44]) before) @ s"
  have "field_value_start (render_field kv @ 44 # ?t) k = field_value_start ?t k"
    using fvs_other_key [OF assms(1), of "fst kv" "render_val (snd kv) @ 44 # ?t"] Cons.prems
      fvs_val [OF assms(1), of 44 "snd kv" ?t] by (simp add: render_field_def ender_def)
  then show ?case using Cons by simp
qed simp

lemma parse_roster:
  assumes "\<forall>kv\<in>set before. key_ok (fst kv) \<and> fst kv \<noteq> lit ''participants''"
    and "\<forall>kvs\<in>set objs. \<forall>kv\<in>set kvs. key_ok (fst kv)"
  shows "parse_participants (render_roster before objs after) = map participant_of objs"
proof -
  let ?k = "lit ''participants''" and ?a = "91 # render_objs objs @ 93 # after"
  have k: "key_ok ?k" by (simp add: key_ok_def lit_def)
  have "find_after (needle ?k) ([34] @ ?k @ [34, 58] @ ?a) = Some (58 # ?a)"
    by (subst find_after.simps) (simp add: needle_def)
  then have "field_value_start ([34] @ ?k @ [34, 58] @ ?a) ?k = Some ?a"
    by (subst field_value_start.simps) (simp add: trim_start_def char_is_whitespace_def)
  then have start: "field_value_start (render_roster before objs after) ?k = Some ?a"
    using fvs_before [OF k assms(1), of "[34] @ ?k @ [34, 58] @ ?a"] by (simp add: render_roster_def)
  have "participants_loop ?a 0 0 None False False [] ?a = participants_loop ?a 1 0 None False False [] (render_objs objs @ 93 # after)"
    by simp
  also have "\<dots> = map (\<lambda>kvs. parse_object (render_obj kvs)) objs"
    using loop_objs [OF assms(2), of 1 ?a after "[]"] by simp
  also have "\<dots> = map participant_of objs" using assms(2) by (simp add: parse_object_of)
  finally show ?thesis by (simp add: parse_participants_def start)
qed

section \<open>Responses\<close>

text \<open>The lines before the body, joined by line ends.\<close>

fun join_lines :: "rust_str list \<Rightarrow> rust_str" where
  "join_lines [] = []"
| "join_lines [l] = l"
| "join_lines (l # ls) = l @ [13, 10] @ join_lines ls"

definition line_ok :: "rust_str \<Rightarrow> bool" where
  "line_ok l \<longleftrightarrow> l \<noteq> [] \<and> list_all (\<lambda>c. c < 128 \<and> c \<noteq> 13 \<and> c \<noteq> 10) l"

definition status_line :: "nat \<Rightarrow> rust_str \<Rightarrow> rust_str" where
  "status_line status reason = lit ''HTTP/1.1 '' @ dec_str status @ [32] @ reason"

definition chunked_header :: "rust_str \<Rightarrow> bool" where
  "chunked_header l \<longleftrightarrow> prefix (lit ''transfer-encoding:'') (to_ascii_lowercase l) \<and> str_contains (lit ''chunked'') (to_ascii_lowercase l)"

text \<open>A body in chunks: the size line and the data of each, the last size line and what follows it.\<close>

definition chunk_ok :: "bytes \<times> bytes \<Rightarrow> bool" where
  "chunk_ok ch \<longleftrightarrow> 13 \<notin> set (fst ch) \<and> chunk_size (fst ch) = Inr (length (snd ch)) \<and> snd ch \<noteq> []"

definition chunked_body :: "(bytes \<times> bytes) list \<Rightarrow> bytes \<Rightarrow> bytes \<Rightarrow> bytes" where
  "chunked_body chs final trailer = concat (map (\<lambda>(l, p). l @ CRLF @ p @ CRLF) chs) @ final @ CRLF @ trailer"

text \<open>\<open>raw\<close> is a response with this status and text, plain or in chunks.\<close>

definition response_of :: "bytes \<Rightarrow> nat \<Rightarrow> rust_str \<Rightarrow> bool" where
  "response_of raw status text \<longleftrightarrow>
     status < 2 ^ 16 \<and> valid_str text \<and>
     (\<exists>reason headers payload.
        raw = str_as_bytes (join_lines (status_line status reason # headers)) @ CRLF @ CRLF @ payload \<and>
        list_all (\<lambda>c. c < 128 \<and> c \<noteq> 13 \<and> c \<noteq> 10) reason \<and> list_all line_ok headers \<and>
        (if list_ex chunked_header headers
         then \<exists>chs final trailer. payload = chunked_body chs final trailer \<and> list_all chunk_ok chs \<and>
           13 \<notin> set final \<and> chunk_size final = Inr 0 \<and> concat (map snd chs) = str_as_bytes text
         else payload = str_as_bytes text))"

lemma window_skip: "w \<noteq> [] \<Longrightarrow> hd w \<notin> set u \<Longrightarrow> window_position w (u @ s) = map_option (\<lambda>i. i + length u) (window_position w s)"
  by (induction u) (auto simp: prefix_def option.map_comp comp_def neq_Nil_conv option.map_ident)

lemma window_here: "w \<noteq> [] \<Longrightarrow> window_position w (w @ s) = Some 0"
  by (cases w) auto

lemma window_after: "w \<noteq> [] \<Longrightarrow> hd w \<notin> set u \<Longrightarrow> window_position w (u @ w @ s) = Some (length u)"
  by (simp add: window_skip window_here)

lemma dechunk_loop_step:
  assumes "13 \<notin> set l" "chunk_size l = Inr n"
  shows "dechunk_loop out (l @ CRLF @ t) =
    (if n = 0 then Some (Inr out)
     else if length t < n then Some (Inl (Malformed ''truncated chunk''))
     else dechunk_loop (out @ take n t) (if prefix CRLF (drop n t) then drop 2 (drop n t) else drop n t))"
proof -
  have "window_position CRLF (l @ CRLF @ t) = Some (length l)" using assms(1) by (intro window_after) (simp_all add: CRLF_def)
  moreover have "take (length l) (l @ CRLF @ t) = l" "drop (length l + 2) (l @ CRLF @ t) = t" by (simp_all add: CRLF_def)
  ultimately show ?thesis using assms(2) by (subst dechunk_loop.simps) (simp add: Let_def del: append_assoc)
qed

lemma dechunk_chunks:
  assumes "list_all chunk_ok chs" "13 \<notin> set final" "chunk_size final = Inr 0"
  shows "dechunk_loop out (chunked_body chs final trailer) = Some (Inr (out @ concat (map snd chs)))"
  using assms(1)
proof (induction chs arbitrary: out)
  case Nil
  then show ?case using dechunk_loop_step [OF assms(2,3), of out trailer] by (simp add: chunked_body_def)
next
  case (Cons ch chs)
  obtain l p where ch: "ch = (l, p)" by fastforce
  have ok: "13 \<notin> set l" "chunk_size l = Inr (length p)" "p \<noteq> []" using Cons.prems by (simp_all add: chunk_ok_def ch)
  let ?t = "p @ CRLF @ chunked_body chs final trailer"
  have "chunked_body (ch # chs) final trailer = l @ CRLF @ ?t" by (simp add: chunked_body_def ch)
  then show ?case
    using dechunk_loop_step [OF ok(1,2), of out ?t] ok(3) Cons by (simp add: ch CRLF_def)
qed

lemma byte_of_eq_13: "c < 128 \<Longrightarrow> byte_of c = 13 \<longleftrightarrow> c = 13"
  using unat_byte_of [of c] by (auto simp: byte_of_def)

lemma line_bytes: "line_ok l \<Longrightarrow> 13 \<notin> set (str_as_bytes l)"
  using byte_of_eq_13 by (fastforce simp: str_as_bytes_ascii line_ok_def list_all_iff)

lemma head_end:
  assumes "list_all line_ok ls" "ls \<noteq> []"
  shows "window_position (CRLF @ CRLF) (str_as_bytes (join_lines ls) @ CRLF @ CRLF @ s) = Some (str_len (join_lines ls))"
  using assms
proof (induction ls rule: join_lines.induct)
  case (2 l)
  then show ?case using window_after [of "CRLF @ CRLF" "str_as_bytes l" s] line_bytes [of l] by (simp add: CRLF_def)
next
  case (3 l l2 ls)
  let ?r = "str_as_bytes (join_lines (l2 # ls)) @ CRLF @ CRLF @ s"
  obtain c t where c: "join_lines (l2 # ls) = c # t" "c \<in> set l2"
    using "3.prems" by (cases l2; cases ls) (auto simp: line_ok_def)
  have "c < 128" "c \<noteq> 13" using c(2) "3.prems" by (auto simp: line_ok_def list_all_iff)
  then obtain b r where b: "?r = b # r" "b \<noteq> 13"
    using byte_of_eq_13 [of c] by (auto simp: c(1) str_as_bytes_Cons char_encode_utf8_def)
  have "str_as_bytes (join_lines (l # l2 # ls)) @ CRLF @ CRLF @ s = str_as_bytes l @ 13 # 10 # ?r"
    by (simp add: str_as_bytes_append) (simp add: str_as_bytes_def char_encode_utf8_def byte_of_def)
  moreover have "window_position (CRLF @ CRLF) (13 # 10 # ?r) = map_option (\<lambda>i. i + 2) (window_position (CRLF @ CRLF) ?r)"
    unfolding b(1) using b(2) by (simp add: CRLF_def option.map_comp comp_def)
  ultimately show ?case
    using window_skip [of "CRLF @ CRLF" "str_as_bytes l" "13 # 10 # ?r"] line_bytes [of l] 3
    by (simp add: CRLF_def str_len_append) (simp add: str_len_def char_len_utf8_def)
qed simp

lemma lines_loop_line:
  "10 \<notin> set l \<Longrightarrow> lines_loop cur (l @ s) = lines_loop (cur @ l) s"
  by (induction l arbitrary: cur) auto

lemma str_lines_join: "list_all line_ok ls \<Longrightarrow> str_lines (join_lines ls) = ls"
proof (induction ls rule: join_lines.induct)
  case (2 l)
  then have "10 \<notin> set l" "l \<noteq> []" by (auto simp: line_ok_def list_all_iff)
  then show ?case using lines_loop_line [of l "[]" "[]"] by (simp add: str_lines_def)
next
  case (3 l l2 ls)
  then have "10 \<notin> set (l @ [13])" by (auto simp: line_ok_def list_all_iff)
  then show ?case
    using lines_loop_line [of "l @ [13]" "[]" "10 # join_lines (l2 # ls)"] 3 by (simp add: str_lines_def strip_cr_def)
qed (simp add: str_lines_def)

lemma words_loop_word: "\<forall>c\<in>set w. \<not> char_is_whitespace c \<Longrightarrow> words_loop cur (w @ s) = words_loop (cur @ w) s"
  by (induction w arbitrary: cur) auto

lemma digit_not_space: "is_ascii_digit c \<Longrightarrow> \<not> char_is_whitespace c"
  by (auto simp: is_ascii_digit_def char_is_whitespace_def)

lemma status_line_words:
  "split_whitespace (status_line status reason) = lit ''HTTP/1.1'' # dec_str status # words_loop [] reason"
proof -
  have d: "\<forall>c\<in>set (dec_str status). \<not> char_is_whitespace c" "dec_str status \<noteq> []"
    using dec_str_digits [of _ status] digit_not_space dec_str_first [of status] by auto
  have h: "\<forall>c\<in>set (lit ''HTTP/1.1''). \<not> char_is_whitespace c" by (simp add: lit_def char_is_whitespace_def)
  have "status_line status reason = lit ''HTTP/1.1'' @ 32 # dec_str status @ 32 # reason" by (simp add: status_line_def lit_def)
  then show ?thesis
    unfolding split_whitespace_def
    using words_loop_word [OF h, of "[]"] words_loop_word [OF d(1), of "[]"] d(2)
    by (simp add: char_is_whitespace_def) (simp add: lit_def)
qed

lemma status_line_ok:
  "list_all (\<lambda>c. c < 128 \<and> c \<noteq> 13 \<and> c \<noteq> 10) reason \<Longrightarrow> line_ok (status_line status reason)"
  using dec_str_digits [of _ status] by (fastforce simp: line_ok_def status_line_def lit_def list_all_iff is_ascii_digit_def)

lemma join_lines_ascii: "list_all line_ok ls \<Longrightarrow> c \<in> set (join_lines ls) \<Longrightarrow> c < 128"
  by (induction ls rule: join_lines.induct) (auto simp: line_ok_def list_all_iff)

lemma parse_response_of:
  assumes "response_of raw status text"
  shows "parse_response raw = Some (Inr (status, text))"
proof -
  obtain reason headers payload where raw: "raw = str_as_bytes (join_lines (status_line status reason # headers)) @ CRLF @ CRLF @ payload"
    and r: "list_all (\<lambda>c. c < 128 \<and> c \<noteq> 13 \<and> c \<noteq> 10) reason" "list_all line_ok headers" "status < 2 ^ 16" "valid_str text"
    and p: "if list_ex chunked_header headers
         then \<exists>chs final trailer. payload = chunked_body chs final trailer \<and> list_all chunk_ok chs \<and>
           13 \<notin> set final \<and> chunk_size final = Inr 0 \<and> concat (map snd chs) = str_as_bytes text
         else payload = str_as_bytes text"
    using assms by (auto simp: response_of_def)
  let ?ls = "status_line status reason # headers" and ?head = "join_lines (status_line status reason # headers)"
  have ls: "list_all line_ok ?ls" using r status_line_ok by simp
  have pos: "find_header_end raw = Some (str_len ?head)" using head_end [OF ls, of payload] by (simp add: raw find_header_end_def)
  have head: "str_from_utf8 (take (str_len ?head) raw) = Some ?head"
    using join_lines_ascii [OF ls] by (simp add: raw str_from_utf8_as_bytes valid_str_ascii flip: length_str_as_bytes)
  have body: "drop (str_len ?head + 4) raw = payload" by (simp add: raw CRLF_def flip: length_str_as_bytes)
  have st: "status_code ?head = Inr status"
    using r(3) by (simp add: status_code_def str_lines_join [OF ls] status_line_words from_str_dec)
  have "\<not> chunked_header (status_line status reason)"
    by (simp add: chunked_header_def status_line_def lit_def to_ascii_lowercase_def ascii_lower_def)
  then have ch: "header_is_chunked ?head \<longleftrightarrow> list_ex chunked_header headers"
    unfolding header_is_chunked_def str_lines_join [OF ls] by (simp add: Let_def flip: chunked_header_def)
  have tx: "str_from_utf8 (str_as_bytes text) = Some text" using r(4) by (simp add: str_from_utf8_as_bytes)
  show ?thesis
  proof (cases "list_ex chunked_header headers")
    case True
    then have "dechunk payload = Some (Inr text)" using p dechunk_chunks [of _ _ "[]"] tx by (auto simp: dechunk_def)
    then show ?thesis using True by (simp add: parse_response_def pos head body st ch)
  next
    case False
    then show ?thesis using p tx by (simp add: parse_response_def pos head body st ch)
  qed
qed

section \<open>Client and server\<close>

definition join_fields :: "join_info \<Rightarrow> (rust_str \<times> jval) list" where
  "join_fields ji =
     [(lit ''candidates'', JStrs (ji_candidates ji)),
      (lit ''offer'', case ji_offer ji of Some o' \<Rightarrow> JStr o' | None \<Rightarrow> JNull),
      (lit ''session_code'', JStr (ji_code ji))]"

definition answer_fields :: "rust_str option \<Rightarrow> (rust_str \<times> jval) list" where
  "answer_fields a = [(lit ''answer'', case a of Some x \<Rightarrow> JStr x | None \<Rightarrow> JNull)]"

definition participant_fields :: "room_participant \<Rightarrow> (rust_str \<times> jval) list" where
  "participant_fields p =
     [(lit ''candidates'', JStrs (rp_candidates p)), (lit ''id'', JStr (rp_id p)), (lit ''pubkey'', JStr (rp_pubkey p))]"

definition roster_text :: "rust_str \<Rightarrow> room_participant list \<Rightarrow> rust_str" where
  "roster_text code ps = render_roster [] (map participant_fields ps) ([44] @ render_fields [(lit ''room_code'', JStr code)] @ [125])"

definition turn_text :: "turn_cred \<Rightarrow> rust_str" where
  "turn_text tc =
     [123, 34] @ lit ''turn_credential'' @ [34, 58] @
     render_obj [(lit ''urls'', JStrs (tc_urls tc)), (lit ''username'', JStr (tc_username tc)),
       (lit ''credential'', JStr (tc_credential tc)), (lit ''ttl_secs'', JNum (unat (tc_ttl_secs tc)))] @ [125]"

lemma literal_keys:
  "key_ok (lit ''offer'')" "key_ok (lit ''candidates'')" "key_ok (lit ''session_code'')" "key_ok (lit ''answer'')"
  "key_ok (lit ''id'')" "key_ok (lit ''pubkey'')" "key_ok (lit ''urls'')" "key_ok (lit ''username'')"
  "key_ok (lit ''credential'')" "key_ok (lit ''ttl_secs'')" "key_ok (lit ''turn_credential'')"
  by (simp_all add: key_ok_def lit_def)

lemma requesting_response:
  assumes "\<And>req. exchange req = Some raw" "response_of raw status text"
  shows "requesting exchange c verb path body want f = Some (if status = want then f text else Inl (ClientStatus status))"
  using parse_response_of [OF assms(2)] assms(1)
  by (simp add: requesting_def client_request_def expect_status_def)

lemma read_roster: "parse_participants (roster_text code ps) =
  map (\<lambda>p. \<lparr>cp_id = rp_id p, cp_pubkey = rp_pubkey p, cp_candidates = rp_candidates p\<rparr>) ps"
proof -
  have "participant_of (participant_fields p) = \<lparr>cp_id = rp_id p, cp_pubkey = rp_pubkey p, cp_candidates = rp_candidates p\<rparr>" for p
    by (simp add: participant_of_def participant_fields_def lit_def)
  moreover have "\<forall>kvs\<in>set (map participant_fields ps). \<forall>kv\<in>set kvs. key_ok (fst kv)"
    by (auto simp: participant_fields_def literal_keys)
  ultimately show ?thesis unfolding roster_text_def by (subst parse_roster) simp_all
qed

lemma turn_text_value:
  assumes "key_ok k" "k \<noteq> lit ''turn_credential''" "\<forall>kv\<in>set kvs. key_ok (fst kv)" "map_of kvs k = Some v"
  shows "\<exists>d t. ender d \<and> field_value_start ([123, 34] @ lit ''turn_credential'' @ [34, 58] @ render_obj kvs @ [125]) k = Some (render_val v @ d # t)"
proof -
  have "field_value_start ([123, 34] @ lit ''turn_credential'' @ [34, 58] @ render_obj kvs @ [125]) k =
      field_value_start (render_fields kvs @ 125 # [125]) k"
    using fvs_other_key [OF assms(1) literal_keys(11), of "render_obj kvs @ [125]"] assms(2) by (auto simp: render_obj_def)
  then show ?thesis using fvs_fields [OF assms(1,3), of "[125]"] assms(4) by simp
qed

lemma read_turn:
  "turn_of_body (turn_text tc) =
     Inr \<lparr>ct_urls = tc_urls tc, ct_username = tc_username tc, ct_credential = tc_credential tc, ct_ttl_secs = unat (tc_ttl_secs tc)\<rparr>"
proof -
  let ?kvs = "[(lit ''urls'', JStrs (tc_urls tc)), (lit ''username'', JStr (tc_username tc)),
       (lit ''credential'', JStr (tc_credential tc)), (lit ''ttl_secs'', JNum (unat (tc_ttl_secs tc)))]"
  have ks: "\<forall>kv\<in>set ?kvs. key_ok (fst kv)" by (simp add: literal_keys)
  have neq: "lit ''urls'' \<noteq> lit ''turn_credential''" "lit ''username'' \<noteq> lit ''turn_credential''"
    "lit ''credential'' \<noteq> lit ''turn_credential''" "lit ''ttl_secs'' \<noteq> lit ''turn_credential''"
    by (simp_all add: lit_def)
  have m: "map_of ?kvs (lit ''urls'') = Some (JStrs (tc_urls tc))" "map_of ?kvs (lit ''username'') = Some (JStr (tc_username tc))"
    "map_of ?kvs (lit ''credential'') = Some (JStr (tc_credential tc))" "map_of ?kvs (lit ''ttl_secs'') = Some (JNum (unat (tc_ttl_secs tc)))"
    by (simp_all add: lit_def)
  note value_of = turn_text_value [OF _ _ ks, folded turn_text_def]
  have "unat (tc_ttl_secs tc) < 2 ^ 64" using unat_less_exp [of "tc_ttl_secs tc"] by simp
  moreover have "json_string_array_field (turn_text tc) (lit ''urls'') = tc_urls tc"
    using value_of [OF literal_keys(7) neq(1) m(1)] read_value(2) by fastforce
  moreover have "json_string_field (turn_text tc) (lit ''username'') = Some (tc_username tc)"
    using value_of [OF literal_keys(8) neq(2) m(2)] read_value(1) by fastforce
  moreover have "json_string_field (turn_text tc) (lit ''credential'') = Some (tc_credential tc)"
    using value_of [OF literal_keys(9) neq(3) m(3)] read_value(1) by fastforce
  moreover have "json_u64_field (turn_text tc) (lit ''ttl_secs'') =
      (if unat (tc_ttl_secs tc) < 2 ^ 64 then Some (unat (tc_ttl_secs tc)) else None)"
    using value_of [OF literal_keys(10) neq(4) m(4)] read_value(3) [of "turn_text tc" "lit ''ttl_secs''" "JNum (unat (tc_ttl_secs tc))"] by auto
  ultimately show ?thesis by (simp add: turn_of_body_def required_def)
qed



end
