(* ===== verification/Stun.thy ===== *)
theory Stun
  imports Secure_Session Sig_Client "HOL-Library.Monad_Syntax"
begin

unbundle bit_operations_syntax

text \<open>
  The STUN client of the daemon (\<open>core/lowbandd/src/stun.rs\<close>) with the text of socket addresses and
  keys that the daemon publishes as candidates (\<open>core/lowbandd/src/session.rs\<close>). An IPv6 address is a
  type parameter with its parser; the text of an IPv4 address is modelled as the standard
  library writes and reads it.

  A binding response is read exactly: the first XOR-MAPPED-ADDRESS of IPv4, or else the first
  MAPPED-ADDRESS, whatever other attributes are present, and only for the own transaction. Addresses and keys
  survive their texts.
\<close>

section \<open>Addresses\<close>

type_synonym ipv4 = "u8 \<times> u8 \<times> u8 \<times> u8"

datatype 'v6 socket_addr = AddrV4 ipv4 u16 | AddrV6 'v6

definition UNSPECIFIED :: ipv4 where "UNSPECIFIED = (0, 0, 0, 0)"

text \<open>The text of an address with its port.\<close>

fun v4_to_string :: "ipv4 \<Rightarrow> u16 \<Rightarrow> rust_str" where
  "v4_to_string (a, b, c, d) port =
     dec_str (unat a) @ [46] @ dec_str (unat b) @ [46] @ dec_str (unat c) @ [46] @ dec_str (unat d) @ [58] @ dec_str (unat port)"

fun addr_to_string :: "('v6 \<Rightarrow> rust_str) \<Rightarrow> 'v6 socket_addr \<Rightarrow> rust_str" where
  "addr_to_string show_v6 (AddrV4 ip port) = v4_to_string ip port"
| "addr_to_string show_v6 (AddrV6 a) = show_v6 a"

text \<open>Digits at the front of a text, at most \<open>n\<close> of them, and what follows.\<close>

fun take_digits :: "nat \<Rightarrow> rust_str \<Rightarrow> rust_str \<times> rust_str" where
  "take_digits 0 s = ([], s)"
| "take_digits (Suc n) (c # s) =
     (if is_ascii_digit c then (case take_digits n s of (ds, r) \<Rightarrow> (c # ds, r)) else ([], c # s))"
| "take_digits (Suc n) [] = ([], [])"

text \<open>One octet: up to three digits, no leading zero, below 256.\<close>

definition read_octet :: "rust_str \<Rightarrow> (u8 \<times> rust_str) option" where
  "read_octet s =
     (case take_digits 3 s of
        (ds, r) \<Rightarrow>
          if ds = [] \<or> (1 < length ds \<and> hd ds = 48) then None
          else (case parse_digits 10 256 0 ds of None \<Rightarrow> None | Some n \<Rightarrow> Some (of_nat n, r)))"

definition read_char :: "rust_char \<Rightarrow> rust_str \<Rightarrow> rust_str option" where
  "read_char c s = (case s of x # r \<Rightarrow> if x = c then Some r else None | [] \<Rightarrow> None)"

definition parse_v4 :: "rust_str \<Rightarrow> (ipv4 \<times> u16) option" where
  "parse_v4 s =
     do {
       (a, s) \<leftarrow> read_octet s; s \<leftarrow> read_char 46 s;
       (b, s) \<leftarrow> read_octet s; s \<leftarrow> read_char 46 s;
       (c, s) \<leftarrow> read_octet s; s \<leftarrow> read_char 46 s;
       (d, s) \<leftarrow> read_octet s; s \<leftarrow> read_char 58 s;
       (if s \<noteq> [] \<and> list_all is_ascii_digit s
        then map_option (\<lambda>p. ((a, b, c, d), of_nat p)) (parse_digits 10 65536 0 s) else None)
     }"

definition parse_socket_addr :: "(rust_str \<Rightarrow> 'v6 option) \<Rightarrow> rust_str \<Rightarrow> 'v6 socket_addr option" where
  "parse_socket_addr parse_v6 s =
     (case parse_v4 s of Some (ip, port) \<Rightarrow> Some (AddrV4 ip port) | None \<Rightarrow> map_option AddrV6 (parse_v6 s))"

section \<open>Keys\<close>

definition encode_key_hex :: "bytes \<Rightarrow> rust_str" where
  "encode_key_hex k = concat (map (\<lambda>b. fixed_digits 16 2 (unat b)) k)"

text \<open>\<open>to_digit(16)\<close> of a byte taken as a character.\<close>

definition hex_digit :: "u8 \<Rightarrow> nat option" where
  "hex_digit b = digit_value 16 (unat b)"

fun decode_pairs :: "bytes \<Rightarrow> bytes option" where
  "decode_pairs (a # b # bs) =
     (case hex_digit a of
        None \<Rightarrow> None
      | Some hi \<Rightarrow>
          (case hex_digit b of
             None \<Rightarrow> None
           | Some lo \<Rightarrow> map_option (\<lambda>r. (push_bit 4 (of_nat hi) OR of_nat lo) # r) (decode_pairs bs)))"
| "decode_pairs _ = Some []"

definition decode_key_hex :: "rust_str \<Rightarrow> bytes option" where
  "decode_key_hex hex = (if str_len hex \<noteq> 64 then None else decode_pairs (str_as_bytes hex))"

section \<open>Binding requests\<close>

definition MAGIC_COOKIE :: bytes where "MAGIC_COOKIE = [0x21, 0x12, 0xA4, 0x42]"
definition BINDING_REQUEST :: u16 where "BINDING_REQUEST = 0x0001"
definition BINDING_SUCCESS :: u16 where "BINDING_SUCCESS = 0x0101"
definition ATTR_MAPPED_ADDRESS :: u16 where "ATTR_MAPPED_ADDRESS = 0x0001"
definition ATTR_XOR_MAPPED_ADDRESS :: u16 where "ATTR_XOR_MAPPED_ADDRESS = 0x0020"
definition STUN_HEADER_LEN :: nat where "STUN_HEADER_LEN = 20"

definition encode_binding_request :: "bytes \<Rightarrow> bytes" where
  "encode_binding_request tx = to_be_bytes16 BINDING_REQUEST @ to_be_bytes16 0 @ MAGIC_COOKIE @ tx"

definition stun_parse_addr :: "bytes \<Rightarrow> bool \<Rightarrow> 'v6 socket_addr option" where
  "stun_parse_addr v xored =
     (if length v < 8 \<or> v ! 1 \<noteq> 0x01 then None
      else let port = from_be_bytes16 (v ! 2) (v ! 3);
               port = (if xored then port XOR from_be_bytes16 (MAGIC_COOKIE ! 0) (MAGIC_COOKIE ! 1) else port);
               octet = (\<lambda>i. if xored then v ! (4 + i) XOR MAGIC_COOKIE ! i else v ! (4 + i))
           in Some (AddrV4 (octet 0, octet 1, octet 2, octet 3) port))"

text \<open>The walk over the attributes between \<open>off\<close> and \<open>end\<close>.\<close>

function stun_attrs :: "bytes \<Rightarrow> nat \<Rightarrow> nat \<Rightarrow> 'v6 socket_addr option \<Rightarrow> 'v6 socket_addr option" where
  "stun_attrs msg end_off off fallback =
     (if off + 4 \<le> end_off then
        (let attr_type = from_be_bytes16 (msg ! off) (msg ! (off + 1));
             attr_len = unat (from_be_bytes16 (msg ! (off + 2)) (msg ! (off + 3)));
             val_start = off + 4;
             val_end = val_start + attr_len
         in if end_off < val_end then fallback
            else let v = take attr_len (drop val_start msg);
                     found = (if attr_type = ATTR_XOR_MAPPED_ADDRESS then stun_parse_addr v True else None);
                     fallback = (if attr_type = ATTR_MAPPED_ADDRESS \<and> fallback = None then stun_parse_addr v False else fallback)
                 in if found \<noteq> None then found
                    else stun_attrs msg end_off (val_start + (attr_len + 3) div 4 * 4) fallback)
      else fallback)"
  by auto

termination
  by (relation "measure (\<lambda>(msg, end_off, off, fb). end_off - off)") auto

declare stun_attrs.simps [simp del]

definition parse_binding_response :: "bytes \<Rightarrow> bytes \<Rightarrow> 'v6 socket_addr option" where
  "parse_binding_response msg tx =
     (if length msg < STUN_HEADER_LEN then None
      else if from_be_bytes16 (msg ! 0) (msg ! 1) \<noteq> BINDING_SUCCESS then None
      else let len = unat (from_be_bytes16 (msg ! 2) (msg ! 3))
           in if take 4 (drop 4 msg) \<noteq> MAGIC_COOKIE then None
              else if take 12 (drop 8 msg) \<noteq> tx then None
              else if length msg < STUN_HEADER_LEN + len then None
              else stun_attrs msg (STUN_HEADER_LEN + len) STUN_HEADER_LEN None)"

text \<open>The lower 96 bits of the clock in nanoseconds.\<close>

definition new_tx_id :: "nat \<Rightarrow> bytes" where
  "new_tx_id nanos = to_le_bytes 12 (of_nat nanos :: 128 word)"

text \<open>
  \<open>set_read_timeout(Some(t))\<close>: the standard library refuses a zero duration. What a read returns
  when the time has passed is in the socket's script.
\<close>

definition set_read_timeout :: "nat \<Rightarrow> io_error + unit" where
  "set_read_timeout t = (if t = 0 then Inl (OtherIo 22) else Inr ())"

definition gather_reflexive ::
  "nat \<Rightarrow> 'v6 socket_addr udp_socket \<Rightarrow> 'v6 socket_addr \<Rightarrow> nat \<Rightarrow> (io_error + 'v6 socket_addr option) \<times> 'v6 socket_addr udp_socket" where
  "gather_reflexive nanos sock server timeout =
     (let tx = new_tx_id nanos
      in case set_read_timeout timeout of
           Inl e \<Rightarrow> (Inl e, sock)
         | Inr _ \<Rightarrow>
             (case send_to sock (encode_binding_request tx) server of
                (Inl e, sock) \<Rightarrow> (Inl e, sock)
              | (Inr _, sock) \<Rightarrow>
                  (case recv_from sock 512 of
                     (Inl e, sock) \<Rightarrow> (Inl e, sock)
                   | (Inr (buf, _), sock) \<Rightarrow> (Inr (parse_binding_response buf tx), sock))))"

section \<open>Texts survive\<close>

lemma take_digits_all:
  "\<forall>c\<in>set ds. is_ascii_digit c \<Longrightarrow> length ds \<le> n \<Longrightarrow> \<not> is_ascii_digit c \<Longrightarrow> take_digits n (ds @ c # r) = (ds, c # r)"
proof (induction ds arbitrary: n)
  case Nil
  then show ?case by (cases n) auto
next
  case (Cons d ds)
  then show ?case by (cases n) auto
qed

lemma dec_str_length: "n < 10 ^ k \<Longrightarrow> 0 < k \<Longrightarrow> length (dec_str n) \<le> k"
proof (induction n arbitrary: k rule: dec_str.induct)
  case (1 n)
  show ?case
  proof (cases "n < 10")
    case True
    then show ?thesis using "1.prems" by (subst dec_str.simps) simp
  next
    case False
    obtain k' where k1: "k = Suc k'" using "1.prems" by (cases k) auto
    have "0 < k'" using False "1.prems" k1 by (cases k') auto
    then have k: "k = Suc k'" "0 < k'" using k1 by simp_all
    then have "n div 10 < 10 ^ k'" using "1.prems" by (simp add: less_mult_imp_div_less mult.commute)
    then show ?thesis using 1 False k by (subst dec_str.simps) simp
  qed
qed

lemma dec_str_no_zero: "1 < length (dec_str n) \<Longrightarrow> hd (dec_str n) \<noteq> 48"
proof (induction n rule: dec_str.induct)
  case (1 n)
  have ge: "\<not> n < 10" using "1.prems" by (subst (asm) dec_str.simps) (auto split: if_splits)
  obtain c t where c: "dec_str (n div 10) = c # t" using dec_str_first by blast
  have "c \<noteq> 48"
  proof (cases "t = []")
    case True
    have lt: "n div 10 < 10"
    proof (rule ccontr)
      assume "\<not> n div 10 < 10"
      then have "dec_str (n div 10) = dec_str (n div 10 div 10) @ [48 + n div 10 mod 10]" by (subst dec_str.simps) simp
      moreover obtain c' t' where "dec_str (n div 10 div 10) = c' # t'" using dec_str_first by blast
      ultimately show False using c True by simp
    qed
    then have "dec_str (n div 10) = [48 + n div 10]" by (subst dec_str.simps) simp
    then show ?thesis using c True ge by auto
  next
    case False
    then show ?thesis using "1.IH" ge c by (cases t) auto
  qed
  then show ?case using ge c by (subst dec_str.simps) simp
qed

lemma read_octet_dec: "\<not> is_ascii_digit c \<Longrightarrow> read_octet (dec_str (unat (a :: u8)) @ c # r) = Some (a, c # r)"
proof -
  assume c: "\<not> is_ascii_digit c"
  have a: "unat a < 256" using unat_less_exp [of a] by simp
  have "take_digits 3 (dec_str (unat a) @ c # r) = (dec_str (unat a), c # r)"
    using dec_str_digits [of _ "unat a"] dec_str_length [of "unat a" 3] a c by (intro take_digits_all) auto
  moreover have "dec_str (unat a) \<noteq> []" using dec_str_first [of "unat a"] by auto
  ultimately show ?thesis
    using dec_str_no_zero [of "unat a"] parse_dec_str [OF a] by (simp add: read_octet_def)
qed

lemma parse_v4_to_string: "parse_v4 (v4_to_string ip port) = Some (ip, port)"
proof -
  have sep: "\<not> is_ascii_digit 46" "\<not> is_ascii_digit 58" by (simp_all add: is_ascii_digit_def)
  have p: "unat port < 65536" using unat_less_exp [of port] by simp
  have "dec_str (unat port) \<noteq> []" "list_all is_ascii_digit (dec_str (unat port))"
    using dec_str_first [of "unat port"] dec_str_digits [of _ "unat port"] by (auto simp: list_all_iff)
  then show ?thesis
    using parse_dec_str [OF p] sep by (cases ip) (simp add: parse_v4_def read_octet_dec read_char_def)
qed

lemma parse_addr_to_string:
  "(\<And>a. parse_v4 (show_v6 a) = None \<and> parse_v6 (show_v6 a) = Some a) \<Longrightarrow>
     parse_socket_addr parse_v6 (addr_to_string show_v6 x) = Some x"
  by (cases x) (auto simp: parse_socket_addr_def parse_v4_to_string)

lemma hex_digit_char: "n < 16 \<Longrightarrow> hex_digit (byte_of (digit_char n)) = Some n"
  by (auto simp: hex_digit_def digit_value_def digit_char_def is_ascii_digit_def)

lemma key_nibbles: "push_bit 4 (of_nat (unat b div 16)) OR of_nat (unat b mod 16) = (b :: u8)"
proof -
  have "unat b < 256" using unat_less_exp [of b] by simp
  then have "(of_nat (unat b div 16) :: u8) = drop_bit 4 b" "(of_nat (unat b mod 16) :: u8) = take_bit 4 b"
    by (simp_all add: word_unat_eq_iff unsigned_of_nat take_bit_eq_mod unsigned_drop_bit_eq unsigned_take_bit_eq drop_bit_eq_div
        unat_div_distrib unat_mod_distrib)
  moreover have "push_bit 4 (drop_bit 4 b) OR take_bit 4 b = b" by (auto simp: bit_eq_iff bit_simps)
  ultimately show ?thesis by simp
qed

lemma encode_key_ascii: "c \<in> set (encode_key_hex k) \<Longrightarrow> c < 128"
  using fixed_digits_ascii [of 16] by (auto simp: encode_key_hex_def)

lemma ascii_Cons: "c < 128 \<Longrightarrow> str_as_bytes (c # s) = byte_of c # str_as_bytes s"
  by (simp add: str_as_bytes_Cons char_encode_utf8_def)

lemma decode_pairs_encode: "decode_pairs (str_as_bytes (encode_key_hex k)) = Some k"
proof (induction k)
  case (Cons b k)
  have "unat b div 16 < 16" using unat_less_exp [of b] by simp
  then have "hex_digit (byte_of (digit_char (unat b div 16 mod 16))) = Some (unat b div 16)"
    "hex_digit (byte_of (digit_char (unat b mod 16))) = Some (unat b mod 16)" by (simp_all add: hex_digit_char)
  moreover have "str_as_bytes (encode_key_hex (b # k)) =
      byte_of (digit_char (unat b div 16 mod 16)) # byte_of (digit_char (unat b mod 16)) # str_as_bytes (encode_key_hex k)"
    using encode_key_ascii [of _ "b # k"] by (simp add: ascii_Cons encode_key_hex_def numeral_2_eq_2)
  ultimately show ?case using Cons by (simp add: key_nibbles)
qed (simp add: encode_key_hex_def str_as_bytes_def)

lemma decode_encode_key: "length k = 32 \<Longrightarrow> decode_key_hex (encode_key_hex k) = Some k"
proof -
  assume "length k = 32"
  moreover have "length (encode_key_hex k) = 2 * length k" unfolding encode_key_hex_def by (induction k) auto
  ultimately show ?thesis
    using str_len_ascii [of "encode_key_hex k"] encode_key_ascii decode_pairs_encode [of k] by (simp add: decode_key_hex_def)
qed

section \<open>Responses\<close>

text \<open>An attribute as a server writes it, padded to four bytes, and a success response.\<close>

definition pad_len :: "nat \<Rightarrow> nat" where
  "pad_len n = (n + 3) div 4 * 4 - n"

definition render_attr :: "u16 \<times> bytes \<Rightarrow> bytes" where
  "render_attr tv = to_be_bytes16 (fst tv) @ to_be_bytes16 (of_nat (length (snd tv))) @ snd tv @ replicate (pad_len (length (snd tv))) 0"

definition render_response :: "bytes \<Rightarrow> (u16 \<times> bytes) list \<Rightarrow> bytes" where
  "render_response tx attrs =
     (let body = concat (map render_attr attrs)
      in to_be_bytes16 BINDING_SUCCESS @ to_be_bytes16 (of_nat (length body)) @ MAGIC_COOKIE @ tx @ body)"

fun find_map :: "('a \<Rightarrow> 'b option) \<Rightarrow> 'a list \<Rightarrow> 'b option" where
  "find_map f [] = None"
| "find_map f (x # xs) = (case f x of Some y \<Rightarrow> Some y | None \<Rightarrow> find_map f xs)"

definition xor_mapped :: "u16 \<times> bytes \<Rightarrow> 'v6 socket_addr option" where
  "xor_mapped tv = (if fst tv = ATTR_XOR_MAPPED_ADDRESS then stun_parse_addr (snd tv) True else None)"

definition mapped :: "u16 \<times> bytes \<Rightarrow> 'v6 socket_addr option" where
  "mapped tv = (if fst tv = ATTR_MAPPED_ADDRESS then stun_parse_addr (snd tv) False else None)"

definition reflexive_of :: "(u16 \<times> bytes) list \<Rightarrow> 'v6 socket_addr option \<Rightarrow> 'v6 socket_addr option" where
  "reflexive_of attrs fallback =
     (case find_map xor_mapped attrs of
        Some a \<Rightarrow> Some a
      | None \<Rightarrow> (case fallback of Some a \<Rightarrow> Some a | None \<Rightarrow> find_map mapped attrs))"

lemma pad_len_add: "n + pad_len n = (n + 3) div 4 * 4"
  by (simp add: pad_len_def)

lemma be16_at:
  assumes "drop off msg = to_be_bytes16 w @ r"
  shows "from_be_bytes16 (msg ! off) (msg ! (off + 1)) = w" "drop (off + 2) msg = r"
proof -
  have "msg ! (off + i) = (to_be_bytes16 w @ r) ! i" if "i < 2" for i
    using that assms nth_drop [of off msg i] by (cases "off \<le> length msg") (auto simp: to_be_bytes16_def)
  from this [of 0] this [of 1] show "from_be_bytes16 (msg ! off) (msg ! (off + 1)) = w"
    by (simp add: to_be_bytes16_def from_to_be_bytes16)
  have "drop (off + 2) msg = drop 2 (drop off msg)" by (simp add: add.commute)
  then show "drop (off + 2) msg = r" by (simp add: assms to_be_bytes16_def)
qed

lemma stun_attrs_render:
  assumes "drop off msg = concat (map render_attr attrs) @ rest" "end_off = off + length (concat (map render_attr attrs))"
    and "\<forall>tv\<in>set attrs. length (snd tv) < 65536"
  shows "stun_attrs msg end_off off fallback = reflexive_of attrs fallback"
  using assms
proof (induction attrs arbitrary: off fallback)
  case Nil
  then show ?case by (subst stun_attrs.simps) (simp add: reflexive_of_def split: option.splits)
next
  case (Cons tv attrs)
  obtain ty v where tv: "tv = (ty, v)" by fastforce
  let ?rest = "concat (map render_attr attrs) @ rest"
  let ?next = "off + 4 + (length v + 3) div 4 * 4"
  have d: "drop off msg = to_be_bytes16 ty @ to_be_bytes16 (of_nat (length v)) @ v @ replicate (pad_len (length v)) 0 @ ?rest"
    using Cons.prems(1) by (simp add: tv) (simp add: render_attr_def [of "(ty, v)"])
  note t = be16_at [OF d]
  note l = be16_at [OF t(2)]
  have "length v < 65536" using Cons.prems(3) by (simp add: tv)
  then have len: "unat (from_be_bytes16 (msg ! (off + 2)) (msg ! (off + 3))) = length v"
    using l(1) by (simp add: unsigned_of_nat take_bit_eq_mod numeral_3_eq_3)
  have d4: "drop (off + 4) msg = v @ replicate (pad_len (length v)) 0 @ ?rest" using l(2) by (simp add: eval_nat_numeral)
  have la: "length (render_attr tv) = 4 + (length v + 3) div 4 * 4"
    using pad_len_add [of "length v"] by (simp add: tv render_attr_def)
  have e: "off + 4 \<le> end_off" "\<not> end_off < off + 4 + length v" "end_off = ?next + length (concat (map render_attr attrs))"
    using Cons.prems(2) la pad_len_add [of "length v"] by (simp_all add: tv)
  have "drop (length v + pad_len (length v)) (drop (off + 4) msg) = ?rest" unfolding d4 by simp
  then have dn: "drop ?next msg = ?rest" using pad_len_add [of "length v"] by (simp add: add.commute add.left_commute)
  have v: "take (length v) (drop (off + 4) msg) = v" unfolding d4 by simp
  have IH: "stun_attrs msg end_off ?next fb = reflexive_of attrs fb" for fb :: "'a socket_addr option"
    using Cons.IH [OF dn e(3)] Cons.prems(3) by simp
  show ?case
    using t(1) len e(1,2) v IH
    by (subst stun_attrs.simps)
      (auto simp: Let_def reflexive_of_def xor_mapped_def mapped_def tv split: option.splits if_splits)
qed

lemma xor_cancel: "((a :: 'a::len word) XOR c) XOR c = a"
  by (auto simp: bit_eq_iff bit_simps)

text \<open>The value of an XOR-MAPPED-ADDRESS attribute of IPv4.\<close>

definition xor_value :: "ipv4 \<Rightarrow> u16 \<Rightarrow> bytes" where
  "xor_value ip port =
     (case ip of (a, b, c, d) \<Rightarrow>
        [0, 1] @ to_be_bytes16 (port XOR 0x2112) @ [a XOR 0x21, b XOR 0x12, c XOR 0xA4, d XOR 0x42])"

lemma parse_xor_value: "stun_parse_addr (xor_value ip port) True = Some (AddrV4 ip port)"
proof -
  obtain p q where pq: "to_be_bytes16 (port XOR 0x2112) = [p, q]" by (simp add: to_be_bytes16_def)
  then have "from_be_bytes16 p q = port XOR 0x2112" using from_to_be_bytes16 [of "port XOR 0x2112"] by (auto simp: to_be_bytes16_def)
  moreover have "from_be_bytes16 0x21 0x12 = (0x2112 :: u16)" by (simp add: from_be_bytes16_def)
  ultimately show ?thesis
    by (cases ip) (simp add: xor_value_def stun_parse_addr_def pq MAGIC_COOKIE_def xor_cancel nth_Cons')
qed

lemma be_binding_success: "to_be_bytes16 BINDING_SUCCESS = [1, 1]"
  unfolding BINDING_SUCCESS_def by code_simp

text \<open>
  C26: A binding response is read exactly. A success response for the own transaction, with any
  attributes and anything after the announced length, yields the first readable IPv4
  XOR-MAPPED-ADDRESS, or else the first readable MAPPED-ADDRESS, or nothing; an address that
  a server sees is recovered from its XOR form; and a response to another transaction yields nothing.
\<close>

theorem stun_response_exact:
  assumes "length tx = 12" "length (concat (map render_attr attrs)) < 65536"
  shows "parse_binding_response (render_response tx attrs @ extra) tx = (reflexive_of attrs None :: 'v6 socket_addr option) \<and>
    (tx' \<noteq> tx \<longrightarrow> parse_binding_response (render_response tx attrs @ extra) tx' = (None :: 'v6 socket_addr option)) \<and>
    (find_map xor_mapped pre = (None :: 'v6 socket_addr option) \<longrightarrow>
       reflexive_of (pre @ (ATTR_XOR_MAPPED_ADDRESS, xor_value ip port) # post) None = Some (AddrV4 ip port :: 'v6 socket_addr))"
proof -
  let ?body = "concat (map render_attr attrs)" and ?msg = "render_response tx attrs @ extra"
  obtain a b where ab: "to_be_bytes16 (of_nat (length ?body)) = [a, b]" by (simp add: to_be_bytes16_def)
  have msg: "?msg = [1, 1, a, b, 0x21, 0x12, 0xA4, 0x42] @ tx @ ?body @ extra"
    using ab be_binding_success by (simp add: render_response_def MAGIC_COOKIE_def Let_def)
  have len: "unat (from_be_bytes16 a b) = length ?body"
  proof -
    have "from_be_bytes16 a b = of_nat (length ?body)" using ab from_to_be_bytes16 [of "of_nat (length ?body)"] by (auto simp: to_be_bytes16_def)
    then show ?thesis using assms(2) by (simp add: unsigned_of_nat take_bit_eq_mod)
  qed
  have small: "\<forall>tv\<in>set attrs. length (snd tv) < 65536"
  proof
    fix tv assume "tv \<in> set attrs"
    then have "length (render_attr tv) \<le> length ?body" by (simp add: length_concat comp_def member_le_sum_list)
    then show "length (snd tv) < 65536" using assms(2) by (simp add: render_attr_def)
  qed
  have f: "from_be_bytes16 1 1 = BINDING_SUCCESS" by (simp add: from_be_bytes16_def BINDING_SUCCESS_def)
  have p: "parse_binding_response ?msg t = (if t = tx then stun_attrs ?msg (20 + length ?body) 20 None else None :: 'v6 socket_addr option)" for t
    unfolding parse_binding_response_def msg using assms(1) len f by (auto simp: STUN_HEADER_LEN_def MAGIC_COOKIE_def Let_def)
  have "drop 20 ?msg = ?body @ extra" unfolding msg using assms(1) by simp
  from stun_attrs_render [OF this refl small] p
  have "parse_binding_response ?msg tx = (reflexive_of attrs None :: 'v6 socket_addr option)" by simp
  moreover have "reflexive_of (pre @ (ATTR_XOR_MAPPED_ADDRESS, xor_value ip port) # post) None = Some (AddrV4 ip port :: 'v6 socket_addr)"
    if "find_map xor_mapped pre = (None :: 'v6 socket_addr option)"
  proof -
    have "find_map xor_mapped (pre @ (ATTR_XOR_MAPPED_ADDRESS, xor_value ip port) # post) = Some (AddrV4 ip port :: 'v6 socket_addr)"
      using that by (induction pre) (auto simp: xor_mapped_def parse_xor_value split: option.splits)
    then show ?thesis by (simp add: reflexive_of_def)
  qed
  ultimately show ?thesis using p by auto
qed

theorem stun_response_exact_witness:
  "parse_binding_response (render_response (replicate 12 7) [(0x8022, [1, 2, 3]), (ATTR_XOR_MAPPED_ADDRESS, xor_value (203, 0, 113, 9) 4660)] @ [])
     (replicate 12 7) = Some (AddrV4 (203, 0, 113, 9) 4660 :: unit socket_addr)"
proof -
  let ?attrs = "[(0x8022, [1, 2, 3]), (ATTR_XOR_MAPPED_ADDRESS, xor_value (203, 0, 113, 9) 4660)] :: (u16 \<times> bytes) list"
  have l: "length (replicate 12 (7 :: u8)) = 12" "length (concat (map render_attr ?attrs)) < 65536"
    by (simp_all add: render_attr_def xor_value_def pad_len_def to_be_bytes16_def)
  have "find_map xor_mapped [(0x8022 :: u16, [1, 2, 3 :: u8])] = (None :: unit socket_addr option)"
    by (simp add: xor_mapped_def ATTR_XOR_MAPPED_ADDRESS_def)
  then show ?thesis
    using stun_response_exact [where ?'v6.0 = unit, OF l, where extra = "[]" and pre = "[(0x8022, [1, 2, 3])]" and ip = "(203, 0, 113, 9)" and port = 4660 and post = "[]"
        and tx' = "[]"] by simp
qed

end
