(* ===== verification/Establish.thy ===== *)
theory Establish
  imports Stun Adpcm
begin

text \<open>
  How the daemon turns a join code or a room into encrypted sessions
  (\<open>core/lowbandd/src/session.rs\<close> and \<open>core/lowbandd/src/mesh.rs\<close>).

  The operations of the signaling client, the clock, the sleeping and the binding of sockets are
  a record over a world \<open>'w\<close>: whatever the other machines do in the meantime is in the world that
  a call returns. A blocking wait may not end, so its value is an option. The handshakes of
  a mesh run on sockets of their own, one thread for each peer, and are independent of each other.

  Waiting ends when the clock moves, the host finds what the joiner published in
  whatever order the posts arrive, and in a mesh both ends of a pair agree on who starts, on the
  addresses and on the keys.
\<close>

section \<open>The world\<close>

datatype establish_error =
  EsSignaling client_error | EsSession session_error | EsIo io_error | EsTimeout string

record 'w signaling_ops =
  so_create_session :: "'w \<Rightarrow> (client_error + rust_str) \<times> 'w"
  so_post_offer :: "rust_str \<Rightarrow> rust_str \<Rightarrow> 'w \<Rightarrow> (client_error + unit) \<times> 'w"
  so_post_answer :: "rust_str \<Rightarrow> rust_str \<Rightarrow> 'w \<Rightarrow> (client_error + unit) \<times> 'w"
  so_post_candidate :: "rust_str \<Rightarrow> rust_str \<Rightarrow> 'w \<Rightarrow> (client_error + unit) \<times> 'w"
  so_join :: "rust_str \<Rightarrow> 'w \<Rightarrow> (client_error + client_join_info) \<times> 'w"
  so_mark_connected :: "rust_str \<Rightarrow> 'w \<Rightarrow> (client_error + unit) \<times> 'w"
  so_join_room :: "rust_str \<Rightarrow> rust_str \<Rightarrow> rust_str \<Rightarrow> 'w \<Rightarrow> (client_error + unit) \<times> 'w"
  so_room_roster :: "rust_str \<Rightarrow> 'w \<Rightarrow> (client_error + client_participant list) \<times> 'w"
  so_post_room_candidate :: "rust_str \<Rightarrow> rust_str \<Rightarrow> rust_str \<Rightarrow> 'w \<Rightarrow> (client_error + unit) \<times> 'w"

text \<open>
  \<open>de_bind\<close> binds \<open>0.0.0.0:0\<close>; with the socket comes the answer of its \<open>local_addr\<close>. \<open>de_secret\<close> is the
  ephemeral secret that the next handshake draws, \<open>de_nanos\<close> the system clock of the STUN
  transaction.
\<close>

record ('w, 'v6) daemon_env =
  de_sig :: "'w signaling_ops"
  de_now :: "'w \<Rightarrow> nat"
  de_sleep :: "nat \<Rightarrow> 'w \<Rightarrow> 'w"
  de_bind :: "'w \<Rightarrow> (io_error + 'v6 socket_addr udp_socket \<times> (io_error + 'v6 socket_addr)) \<times> 'w"
  de_nanos :: "'w \<Rightarrow> nat"
  de_secret :: "'w \<Rightarrow> bytes"
  de_show_v6 :: "'v6 \<Rightarrow> rust_str"
  de_parse_v6 :: "rust_str \<Rightarrow> 'v6 option"

text \<open>The \<open>?\<close> operator over results that carry the world.\<close>

definition and_then ::
  "(('e + 'a) \<times> 'w) option \<Rightarrow> ('a \<Rightarrow> 'w \<Rightarrow> (('e + 'b) \<times> 'w) option) \<Rightarrow> (('e + 'b) \<times> 'w) option" where
  "and_then m f = (case m of None \<Rightarrow> None | Some (Inl e, w) \<Rightarrow> Some (Inl e, w) | Some (Inr a, w) \<Rightarrow> f a w)"

definition lift_err :: "('e \<Rightarrow> establish_error) \<Rightarrow> ('e + 'a) \<times> 'w \<Rightarrow> ((establish_error + 'a) \<times> 'w) option" where
  "lift_err wrap m = Some (map_sum wrap id (fst m), snd m)"

section \<open>Waiting and candidates\<close>

text \<open>Fifty milliseconds, in nanoseconds.\<close>

definition POLL_INTERVAL :: nat where "POLL_INTERVAL = 50000000"

partial_function (option) wait_for ::
  "('w \<Rightarrow> nat) \<Rightarrow> (nat \<Rightarrow> 'w \<Rightarrow> 'w) \<Rightarrow> nat \<Rightarrow> string \<Rightarrow> ('w \<Rightarrow> 'a option \<times> 'w) \<Rightarrow> 'w \<Rightarrow> ((establish_error + 'a) \<times> 'w) option" where
  "wait_for now sleep deadline what f w =
     (case f w of
        (Some v, w) \<Rightarrow> Some (Inr v, w)
      | (None, w) \<Rightarrow>
          if deadline \<le> now w then Some (Inl (EsTimeout what), w)
          else wait_for now sleep deadline what f (sleep POLL_INTERVAL w))"

definition strip_prefix :: "rust_str \<Rightarrow> rust_str \<Rightarrow> rust_str option" where
  "strip_prefix p s = (if take (length p) s = p then Some (drop (length p) s) else None)"

text \<open>\<open>filter_map\<close> of the prefix, then \<open>find_map\<close> of the parser.\<close>

definition first_candidate :: "rust_str \<Rightarrow> (rust_str \<Rightarrow> 'a option) \<Rightarrow> rust_str list \<Rightarrow> 'a option" where
  "first_candidate p parse cs = find_map parse (List.map_filter (strip_prefix p) cs)"

definition peer_candidate ::
  "'w signaling_ops \<Rightarrow> rust_str \<Rightarrow> rust_str \<Rightarrow> (rust_str \<Rightarrow> 'a option) \<Rightarrow> 'w \<Rightarrow> 'a option \<times> 'w" where
  "peer_candidate sig code p parse w =
     (case so_join sig code w of
        (Inl _, w) \<Rightarrow> (None, w)
      | (Inr info, w) \<Rightarrow> (first_candidate p parse (cj_candidates info), w))"

abbreviation udp_prefix :: rust_str where "udp_prefix \<equiv> lit ''udp:''"
abbreviation key_prefix :: rust_str where "key_prefix \<equiv> lit ''key:''"

text \<open>\<open>parse::<SocketAddr>().ok().filter(not own)\<close>\<close>

definition foreign_addr :: "(rust_str \<Rightarrow> 'v6 option) \<Rightarrow> 'v6 socket_addr list \<Rightarrow> rust_str \<Rightarrow> 'v6 socket_addr option" where
  "foreign_addr parse_v6 own v =
     (case parse_socket_addr parse_v6 v of
        Some a \<Rightarrow> if a \<in> set own then None else Some a
      | None \<Rightarrow> None)"

text \<open>
  Returns the published addresses and the socket, from which the STUN exchange may have taken a
  datagram.
\<close>

definition publish_local_candidates where
  "publish_local_candidates env code sock local stun_server timeout w =
     and_then (lift_err EsIo (local, w)) (\<lambda>local w.
     and_then (lift_err EsSignaling (so_post_candidate (de_sig env) code (udp_prefix @ addr_to_string (de_show_v6 env) local) w)) (\<lambda>_ w.
     (case stun_server of
        None \<Rightarrow> Some (Inr ([local], sock), w)
      | Some server \<Rightarrow>
          (case gather_reflexive (de_nanos env w) sock server timeout of
             (r, sock) \<Rightarrow>
               and_then
                 (case r of
                    Inr (Some reflexive) \<Rightarrow>
                      if reflexive \<noteq> local
                      then and_then (lift_err EsSignaling
                             (so_post_candidate (de_sig env) code (udp_prefix @ addr_to_string (de_show_v6 env) reflexive) w))
                             (\<lambda>_ w. Some (Inr [local, reflexive], w))
                      else Some (Inr [local], w)
                  | _ \<Rightarrow> Some (Inr [local], w))
                 (\<lambda>own w. and_then (lift_err EsIo (set_read_timeout timeout, w)) (\<lambda>_ w. Some (Inr (own, sock), w)))))))"

section \<open>One to one\<close>

abbreviation offer_text :: rust_str where "offer_text \<equiv> lit ''lowband/1 offer''"
abbreviation answer_text :: rust_str where "answer_text \<equiv> lit ''lowband/1 answer''"

text \<open>The part of \<open>establish_host\<close> after publishing: meeting the joiner.\<close>

definition host_meet where
  "host_meet env P code own_addrs sock static_key handshake_timeout w =
     (let deadline = de_now env w + handshake_timeout
      in
     and_then (wait_for (de_now env) (de_sleep env) deadline ''joiner static key''
       (peer_candidate (de_sig env) code key_prefix decode_key_hex) w) (\<lambda>peer_pub w.
     and_then (wait_for (de_now env) (de_sleep env) deadline ''joiner address''
       (peer_candidate (de_sig env) code udp_prefix (foreign_addr (de_parse_v6 env) own_addrs)) w) (\<lambda>peer_addr w.
     and_then (lift_err EsSession
       (fst (session_connect P (de_secret env w) (de_now env w) sock peer_addr static_key peer_pub code), w)) (\<lambda>session w.
     and_then (lift_err EsSignaling (so_mark_connected (de_sig env) code w)) (\<lambda>_ w.
     Some (Inr (code, session), w))))))"

definition establish_host where
  "establish_host env P static_key handshake_timeout stun_server on_code w =
     and_then (lift_err EsSignaling (so_create_session (de_sig env) w)) (\<lambda>code w.
     and_then (lift_err EsIo (de_bind env (on_code code w))) (\<lambda>(sock, local) w.
     and_then (lift_err EsIo (set_read_timeout handshake_timeout, w)) (\<lambda>_ w.
     and_then (lift_err EsSignaling (so_post_offer (de_sig env) code offer_text w)) (\<lambda>_ w.
     and_then (publish_local_candidates env code sock local stun_server handshake_timeout w) (\<lambda>(own_addrs, sock) w.
     host_meet env P code own_addrs sock static_key handshake_timeout w)))))"

definition establish_join where
  "establish_join env P code static_key handshake_timeout stun_server w =
     and_then (lift_err EsSignaling (so_join (de_sig env) code w)) (\<lambda>_ w.
     and_then (lift_err EsIo (de_bind env w)) (\<lambda>(sock, local) w.
     and_then (lift_err EsIo (set_read_timeout handshake_timeout, w)) (\<lambda>_ w.
     and_then (lift_err EsSignaling
       (so_post_candidate (de_sig env) code (key_prefix @ encode_key_hex (sk_public static_key)) w)) (\<lambda>_ w.
     and_then (publish_local_candidates env code sock local stun_server handshake_timeout w) (\<lambda>(_, sock) w.
     and_then (lift_err EsSignaling (so_post_answer (de_sig env) code answer_text w)) (\<lambda>_ w.
     lift_err EsSession (fst (session_accept P (de_secret env w) (de_now env w) sock static_key code), w)))))))"

section \<open>A mesh\<close>

text \<open>\<open>str\<close> is ordered by its bytes.\<close>

definition str_less :: "rust_str \<Rightarrow> rust_str \<Rightarrow> bool" where
  "str_less a b \<longleftrightarrow> str_as_bytes a < str_as_bytes b"

definition mesh_tag :: "rust_str \<Rightarrow> rust_str" where
  "mesh_tag i = lit ''mesh:'' @ i @ lit '':udp:''"

text \<open>Phase 1: a poll of the roster.\<close>

definition full_roster where
  "full_roster sig code group_size w =
     (case so_room_roster sig code w of
        (Inl _, w) \<Rightarrow> (None, w)
      | (Inr r, w) \<Rightarrow> (if group_size \<le> length r then Some r else None, w))"

text \<open>Phase 2: a socket for each peer, published under the peer's tag.\<close>

fun mesh_sockets where
  "mesh_sockets env code me timeout [] w = Some (Inr [], w)"
| "mesh_sockets env code me timeout (p # ps) w =
     and_then (lift_err EsIo (de_bind env w)) (\<lambda>(sock, local) w.
     and_then (lift_err EsIo (set_read_timeout timeout, w)) (\<lambda>_ w.
     and_then (lift_err EsIo (local, w)) (\<lambda>addr w.
     and_then (lift_err EsSignaling
       (so_post_room_candidate (de_sig env) code me (mesh_tag (cp_id p) @ addr_to_string (de_show_v6 env) addr) w)) (\<lambda>_ w.
     and_then (mesh_sockets env code me timeout ps w) (\<lambda>socks w. Some (Inr (sock # socks), w))))))"

text \<open>Phase 3a: a poll for the address that a peer has published for this node.\<close>

definition mesh_addr where
  "mesh_addr parse_v6 me pid ps =
     (case find (\<lambda>x. cp_id x = pid) ps of
        None \<Rightarrow> None
      | Some pp \<Rightarrow> first_candidate (mesh_tag me) (parse_socket_addr parse_v6) (cp_candidates pp))"

definition peer_mesh_candidate where
  "peer_mesh_candidate env code me pid w =
     (case so_room_roster (de_sig env) code w of
        (Inl _, w) \<Rightarrow> (None, w)
      | (Inr r, w) \<Rightarrow> (mesh_addr (de_parse_v6 env) me pid r, w))"

fun mesh_pairs where
  "mesh_pairs env code me deadline [] w = Some (Inr [], w)"
| "mesh_pairs env code me deadline ((p, sock) # ps) w =
     and_then (lift_err id (case decode_key_hex (cp_pubkey p) of
         None \<Rightarrow> Inl (EsTimeout ''peer static key (malformed)'') | Some k \<Rightarrow> Inr k, w)) (\<lambda>peer_pub w.
     and_then (wait_for (de_now env) (de_sleep env) deadline ''peer mesh candidate''
       (peer_mesh_candidate env code me (cp_id p)) w) (\<lambda>peer_addr w.
     and_then (mesh_pairs env code me deadline ps w) (\<lambda>pairs w.
     Some (Inr ((p, sock, peer_addr, peer_pub) # pairs), w))))"

text \<open>Phase 3b: the handshake of one pair, on the thread \<open>i\<close> with a secret of its own.\<close>

definition mesh_handshake where
  "mesh_handshake P secret now me static_key code pair =
     (case pair of (p, sock, peer_addr, peer_pub) \<Rightarrow>
        map_sum EsSession (Pair (cp_id p))
          (fst (if str_less me (cp_id p) then session_connect P secret now sock peer_addr static_key peer_pub code
                else session_accept P secret now sock static_key code)))"

text \<open>Joining the threads in order: the first error is the result.\<close>

fun collect_results :: "('e + 'a) list \<Rightarrow> 'e + 'a list" where
  "collect_results [] = Inr []"
| "collect_results (Inl e # rs) = Inl e"
| "collect_results (Inr a # rs) = map_sum id (Cons a) (collect_results rs)"

record 'a mesh_session =
  ms_me :: rust_str
  ms_peers :: "(rust_str \<times> 'a secure_session) list"

text \<open>A stable insertion sort by the bytes of the identifier, as \<open>sort_by\<close> is stable.\<close>

definition sort_by_id :: "('a \<Rightarrow> rust_str) \<Rightarrow> 'a list \<Rightarrow> 'a list" where
  "sort_by_id i xs = sort_key (\<lambda>x. str_as_bytes (i x)) xs"

text \<open>\<open>secrets i\<close> is the ephemeral secret of the \<open>i\<close>-th thread.\<close>

definition establish_mesh where
  "establish_mesh env P secrets code me static_key group_size timeout w =
     and_then (lift_err EsSignaling (so_join_room (de_sig env) code me (encode_key_hex (sk_public static_key)) w)) (\<lambda>_ w.
     let deadline = de_now env w + timeout
     in
     and_then (wait_for (de_now env) (de_sleep env) deadline ''full room roster'' (full_roster (de_sig env) code group_size) w)
       (\<lambda>roster w.
     let peers = sort_by_id cp_id (roster_peers roster me)
     in
     and_then (mesh_sockets env code me timeout peers w) (\<lambda>sockets w.
     and_then (mesh_pairs env code me deadline (zip peers sockets) w) (\<lambda>pairs w.
     and_then (lift_err id (collect_results
         (map (\<lambda>(i, pair). mesh_handshake P (secrets i) (de_now env w) me static_key code pair) (enumerate 0 pairs)), w))
       (\<lambda>peers w. Some (Inr \<lparr>ms_me = me, ms_peers = sort_by_id fst peers\<rparr>, w))))))"

section \<open>Budgets and the mix\<close>

text \<open>The count is narrowed to 32 bits; \<open>None\<close> is the panic of a division by zero.\<close>

definition per_peer_budget :: "u32 \<Rightarrow> nat \<Rightarrow> u32 option" where
  "per_peer_budget total_bps peers =
     (if peers = 0 then Some total_bps
      else let n = (of_nat peers :: u32) in if n = 0 then None else Some (total_bps div n))"

text \<open>Samples are the values of \<open>i16\<close>; the sum of two cannot leave \<open>i32\<close>.\<close>

fun add_stream :: "int list \<Rightarrow> int list \<Rightarrow> int list" where
  "add_stream (p # out) (x # s) = clamp_sample (p + x) # add_stream out s"
| "add_stream out s = out"

definition mix_streams :: "int list list \<Rightarrow> int list" where
  "mix_streams streams = fold (\<lambda>s out. add_stream out s) streams (replicate (Max (insert 0 (set (map length streams)))) 0)"

section \<open>Waiting ends\<close>

text \<open>The world of the \<open>n\<close>-th poll.\<close>

definition poll_world :: "(nat \<Rightarrow> 'w \<Rightarrow> 'w) \<Rightarrow> ('w \<Rightarrow> 'a option \<times> 'w) \<Rightarrow> nat \<Rightarrow> 'w \<Rightarrow> 'w" where
  "poll_world sleep f n = (\<lambda>w. sleep POLL_INTERVAL (snd (f w))) ^^ n"

lemma poll_world_simps:
  "poll_world sleep f 0 w = w"
  "poll_world sleep f (Suc n) w = poll_world sleep f n (sleep POLL_INTERVAL (snd (f w)))"
  unfolding poll_world_def by (simp_all add: funpow_Suc_right del: funpow.simps(2))

text \<open>The \<open>n\<close>-th poll decides the wait: it has the value, or it has none and the deadline has passed.\<close>

definition ends_at where
  "ends_at now sleep deadline what f w n \<longleftrightarrow>
     (case f (poll_world sleep f n w) of
        (Some v, w') \<Rightarrow> wait_for now sleep deadline what f w = Some (Inr v, w')
      | (None, w') \<Rightarrow> deadline \<le> now w' \<and> wait_for now sleep deadline what f w = Some (Inl (EsTimeout what), w'))"

lemma wait_for_ends:
  assumes f: "\<And>w. now w \<le> now (snd (f w))" and sleep: "\<And>w. now w + POLL_INTERVAL \<le> now (sleep POLL_INTERVAL w)"
  shows "\<exists>n \<le> (deadline - now w + (POLL_INTERVAL - 1)) div POLL_INTERVAL.
    (\<forall>i<n. fst (f (poll_world sleep f i w)) = None \<and> now (snd (f (poll_world sleep f i w))) < deadline) \<and>
    ends_at now sleep deadline what f w n"
    (is "\<exists>n \<le> ?bound w. ?done n w")
proof (induction "deadline - now w" arbitrary: w rule: less_induct)
  case less
  obtain r w1 where fw: "f w = (r, w1)" by fastforce
  show ?case
  proof (cases "r = None \<and> now w1 < deadline")
    case False
    then have "?done 0 w"
      using fw by (cases r) (auto simp: ends_at_def poll_world_simps wait_for.simps [of now sleep deadline what f w])
    with le0 [of "?bound w"] have "0 \<le> ?bound w \<and> ?done 0 w" by (rule conjI)
    then show ?thesis by (rule exI)
  next
    case True
    let ?w = "sleep POLL_INTERVAL w1"
    have ge: "now w + POLL_INTERVAL \<le> now ?w" "now w < deadline" using f [of w] sleep [of w1] fw True by auto
    moreover have pos: "0 < POLL_INTERVAL" by (simp add: POLL_INTERVAL_def)
    ultimately obtain n where n: "n \<le> ?bound ?w" "?done n ?w" using less.hyps [of ?w] by force
    have dn: "?done (Suc n) w"
      using n(2) fw True by (auto simp: ends_at_def poll_world_simps wait_for.simps [of now sleep deadline what f w] less_Suc_eq_0_disj split: option.splits prod.splits)
    have le: "Suc n \<le> ?bound w"
    proof -
      have "?bound ?w \<le> (deadline - now w - POLL_INTERVAL + (POLL_INTERVAL - 1)) div POLL_INTERVAL"
        using ge by (intro div_le_mono) simp
      also have "Suc \<dots> \<le> ?bound w"
      proof (cases "POLL_INTERVAL \<le> deadline - now w")
        case True
        then have "deadline - now w + (POLL_INTERVAL - 1) = (deadline - now w - POLL_INTERVAL + (POLL_INTERVAL - 1)) + POLL_INTERVAL" by simp
        then show ?thesis using pos by (simp only: div_add_self2)
      next
        case False
        then have "deadline - now w - POLL_INTERVAL + (POLL_INTERVAL - 1) < POLL_INTERVAL" using pos by simp
        moreover have "POLL_INTERVAL \<le> deadline - now w + (POLL_INTERVAL - 1)" using ge pos by simp
        then have "1 \<le> ?bound w" using pos div_le_mono [of POLL_INTERVAL _ POLL_INTERVAL] by simp
        ultimately show ?thesis by simp
      qed
      finally show ?thesis using n(1) by simp
    qed
    from conjI [OF le dn] show ?thesis by (rule exI)
  qed
qed

text \<open>
  Sleeping moves the clock by the interval at least, and no exchange with the server moves it back.
\<close>

definition clock_ok :: "('w, 'v6) daemon_env \<Rightarrow> bool" where
  "clock_ok env \<longleftrightarrow>
     (\<forall>w. de_now env w + POLL_INTERVAL \<le> de_now env (de_sleep env POLL_INTERVAL w)) \<and>
     (\<forall>code w. de_now env w \<le> de_now env (snd (so_join (de_sig env) code w))) \<and>
     (\<forall>code w. de_now env w \<le> de_now env (snd (so_room_roster (de_sig env) code w)))"

lemma and_then_simps [simp]:
  "and_then None f = None" "and_then (Some (Inl e, w)) f = Some (Inl e, w)" "and_then (Some (Inr a, w)) f = f a w"
  by (simp_all add: and_then_def)

lemma lift_err_simps [simp]:
  "lift_err wrap (Inl e, w) = Some (Inl (wrap e), w)" "lift_err wrap (Inr a, w) = Some (Inr a, w)"
  "lift_err wrap m \<noteq> None"
  by (simp_all add: lift_err_def)

text \<open>A computation that comes to a result.\<close>

definition ends :: "'a option \<Rightarrow> bool" where
  "ends m \<longleftrightarrow> m \<noteq> None"

lemma ends_and_then: "ends m \<Longrightarrow> (\<And>a w. ends (f a w)) \<Longrightarrow> ends (and_then m f)"
  by (auto simp: ends_def and_then_def split: option.splits sum.splits)

lemma ends_basic: "ends (lift_err wrap m)" "ends (Some x)"
  by (simp_all add: ends_def)

lemma ends_cases:
  "(\<And>a b. ends (g a b)) \<Longrightarrow> ends (case x of (a, b) \<Rightarrow> g a b)"
  "(\<And>a b w. ends (h a b w)) \<Longrightarrow> ends ((case x of (a, b) \<Rightarrow> h a b) w)"
  "ends m \<Longrightarrow> (\<And>a. ends (k a)) \<Longrightarrow> ends (case y of None \<Rightarrow> m | Some a \<Rightarrow> k a)"
  "(\<And>e. ends (l e)) \<Longrightarrow> (\<And>a. ends (k a)) \<Longrightarrow> ends (case z of Inl e \<Rightarrow> l e | Inr a \<Rightarrow> k a)"
  "ends m \<Longrightarrow> ends m' \<Longrightarrow> ends (if c then m else m')"
  by (auto split: prod.splits option.splits sum.splits)

lemmas ends_intros = ends_and_then ends_basic ends_cases

lemma poll_wait_ends:
  assumes "clock_ok env" "\<And>w. de_now env w \<le> de_now env (snd (f w))"
  shows "ends (wait_for (de_now env) (de_sleep env) deadline what f w)"
proof -
  obtain n where "ends_at (de_now env) (de_sleep env) deadline what f w n"
    using wait_for_ends [where now = "de_now env" and sleep = "de_sleep env" and f = f and deadline = deadline and w = w and what = what]
      assms by (auto simp: clock_ok_def)
  then show ?thesis by (auto simp: ends_def ends_at_def split: prod.splits option.splits)
qed

lemma polls_keep_clock:
  assumes "clock_ok env"
  shows "de_now env w \<le> de_now env (snd (peer_candidate (de_sig env) code p parse w))"
    "de_now env w \<le> de_now env (snd (full_roster (de_sig env) code n w))"
    "de_now env w \<le> de_now env (snd (peer_mesh_candidate env code me pid w))"
proof -
  have j: "de_now env w \<le> de_now env (snd (so_join (de_sig env) code w))"
    and r: "de_now env w \<le> de_now env (snd (so_room_roster (de_sig env) code w))"
    using assms by (simp_all add: clock_ok_def)
  from j show "de_now env w \<le> de_now env (snd (peer_candidate (de_sig env) code p parse w))"
    by (auto simp: peer_candidate_def split: prod.splits sum.splits)
  from r show "de_now env w \<le> de_now env (snd (full_roster (de_sig env) code n w))"
    "de_now env w \<le> de_now env (snd (peer_mesh_candidate env code me pid w))"
    by (auto simp: full_roster_def peer_mesh_candidate_def split: prod.splits sum.splits)
qed

lemma publish_ends: "ends (publish_local_candidates env code sock local stun timeout w)"
  unfolding publish_local_candidates_def by (intro ends_intros)

lemma host_meet_ends: "clock_ok env \<Longrightarrow> ends (host_meet env P code own sock key timeout w)"
  unfolding host_meet_def Let_def by (intro ends_intros poll_wait_ends polls_keep_clock)

lemma mesh_sockets_ends: "ends (mesh_sockets env code me timeout ps w)"
  by (induction ps arbitrary: w) (auto intro!: ends_intros)

lemma mesh_pairs_ends: "clock_ok env \<Longrightarrow> ends (mesh_pairs env code me deadline ps w)"
proof (induction ps arbitrary: w)
  case (Cons x ps)
  obtain p sock where x: "x = (p, sock)" by fastforce
  show ?case
    unfolding x mesh_pairs.simps by (intro ends_intros poll_wait_ends polls_keep_clock Cons)
qed (simp add: ends_basic)


text \<open>A world that is only a clock, with a server that answers every join in the same way.\<close>

definition sample_sig :: "rust_str list \<Rightarrow> client_participant list \<Rightarrow> nat signaling_ops" where
  "sample_sig cs ps =
     \<lparr>so_create_session = \<lambda>w. (Inr (lit ''lb-1''), w), so_post_offer = \<lambda>_ _ w. (Inr (), w), so_post_answer = \<lambda>_ _ w. (Inr (), w),
      so_post_candidate = \<lambda>_ _ w. (Inr (), w), so_join = \<lambda>_ w. (Inr \<lparr>cj_offer = None, cj_candidates = cs\<rparr>, w + 7),
      so_mark_connected = \<lambda>_ w. (Inr (), w), so_join_room = \<lambda>_ _ _ w. (Inr (), w), so_room_roster = \<lambda>_ w. (Inr ps, w + 7),
      so_post_room_candidate = \<lambda>_ _ _ w. (Inr (), w)\<rparr>"

definition sample_env :: "rust_str list \<Rightarrow> client_participant list \<Rightarrow> (nat, unit) daemon_env" where
  "sample_env cs ps =
     \<lparr>de_sig = sample_sig cs ps, de_now = \<lambda>w. w, de_sleep = \<lambda>d w. w + d,
      de_bind = \<lambda>w. (Inr (\<lparr>sock_in = [], sock_out = [], sock_sends = []\<rparr>, Inr (AddrV4 UNSPECIFIED 4660)), w),
      de_nanos = \<lambda>w. w, de_secret = \<lambda>w. [], de_show_v6 = \<lambda>_. lit ''[::1]:1'', de_parse_v6 = \<lambda>s. if s = lit ''[::1]:1'' then Some () else None\<rparr>"

lemma sample_clock_ok: "clock_ok (sample_env cs ps)"
  by (simp add: clock_ok_def sample_env_def sample_sig_def)


section \<open>The host finds the joiner\<close>

abbreviation udp_post :: "('v6 \<Rightarrow> rust_str) \<Rightarrow> 'v6 socket_addr \<Rightarrow> rust_str" where
  "udp_post show_v6 a \<equiv> udp_prefix @ addr_to_string show_v6 a"

definition v6_texts :: "('v6 \<Rightarrow> rust_str) \<Rightarrow> (rust_str \<Rightarrow> 'v6 option) \<Rightarrow> bool" where
  "v6_texts show_v6 parse_v6 \<longleftrightarrow>
     (\<forall>a. parse_v4 (show_v6 a) = None \<and> parse_v6 (show_v6 a) = Some a) \<and> (\<forall>s a. parse_v6 s = Some a \<longrightarrow> 117 \<notin> set s)"

lemma first_candidate_find:
  "first_candidate p parse cs = find_map (\<lambda>c. case strip_prefix p c of None \<Rightarrow> None | Some v \<Rightarrow> parse v) cs"
  unfolding first_candidate_def by (induction cs) (auto simp: List.map_filter_simps split: option.splits)

lemma find_map_none: "\<forall>x\<in>set xs. f x = None \<Longrightarrow> find_map f xs = None"
  by (induction xs) auto

lemma find_map_shuffles: "zs \<in> shuffles xs ys \<Longrightarrow> \<forall>x\<in>set xs. f x = None \<Longrightarrow> find_map f zs = find_map f ys"
proof (induction xs ys arbitrary: zs rule: shuffles.induct)
  case (3 x xs y ys)
  then show ?case by (auto split: option.splits)
qed (auto intro: find_map_none)

lemma strip_prefix_app [simp]: "strip_prefix p (p @ s) = Some s"
  by (simp add: strip_prefix_def)

lemma strip_udp_key [simp]: "strip_prefix udp_prefix (key_prefix @ s) = None" "strip_prefix key_prefix (udp_prefix @ s) = None"
  by (simp_all add: strip_prefix_def lit_def)

lemma foreign_addr_show:
  "v6_texts show_v6 parse_v6 \<Longrightarrow> foreign_addr parse_v6 own (addr_to_string show_v6 a) = (if a \<in> set own then None else Some a)"
  by (simp add: foreign_addr_def parse_addr_to_string v6_texts_def)

lemma find_map_posts:
  "v6_texts show_v6 parse_v6 \<Longrightarrow>
     find_map (\<lambda>c. case strip_prefix udp_prefix c of None \<Rightarrow> None | Some v \<Rightarrow> foreign_addr parse_v6 own v) (map (udp_post show_v6) xs) =
       find (\<lambda>a. a \<notin> set own) xs"
  by (induction xs) (auto simp: foreign_addr_show)

text \<open>What a poll finds when the server shows some of the joiner's posts among the host's.\<close>

lemma poll_finds:
  assumes "v6_texts show_v6 parse_v6" "length pub = 32"
    and "cs \<in> shuffles (map (udp_post show_v6) own) (take k ((key_prefix @ encode_key_hex pub) # map (udp_post show_v6) theirs))"
  shows "first_candidate key_prefix decode_key_hex cs = (if k = 0 then None else Some pub)"
    "first_candidate udp_prefix (foreign_addr parse_v6 own) cs = find (\<lambda>a. a \<notin> set own) (take (k - 1) theirs)"
proof -
  have own: "\<forall>c\<in>set (map (udp_post show_v6) own). (case strip_prefix key_prefix c of None \<Rightarrow> None | Some v \<Rightarrow> decode_key_hex v) = None"
    "\<forall>c\<in>set (map (udp_post show_v6) own). (case strip_prefix udp_prefix c of None \<Rightarrow> None | Some v \<Rightarrow> foreign_addr parse_v6 own v) = None"
    using assms(1) by (auto simp: foreign_addr_show)
  from find_map_shuffles [OF assms(3) own(1)] assms(2) show "first_candidate key_prefix decode_key_hex cs = (if k = 0 then None else Some pub)"
    by (cases k) (simp_all add: first_candidate_find decode_encode_key)
  from find_map_shuffles [OF assms(3) own(2)] show
    "first_candidate udp_prefix (foreign_addr parse_v6 own) cs = find (\<lambda>a. a \<notin> set own) (take (k - 1) theirs)"
    using find_map_posts [OF assms(1), of own "take (k - 1) theirs"] by (cases k) (simp_all add: first_candidate_find take_map)
qed

lemma find_take: "find P (take k xs) = Some a \<Longrightarrow> find P xs = Some a"
  by (induction xs arbitrary: k) (auto simp: take_Cons split: nat.splits if_splits)

lemma wait_for_value:
  assumes "clock_ok env" "\<And>w. de_now env w \<le> de_now env (snd (f w))"
  shows "(\<exists>u v w'. f u = (Some v, w') \<and> wait_for (de_now env) (de_sleep env) deadline what f w = Some (Inr v, w')) \<or>
    (\<exists>w'. wait_for (de_now env) (de_sleep env) deadline what f w = Some (Inl (EsTimeout what), w'))"
proof -
  obtain n where "ends_at (de_now env) (de_sleep env) deadline what f w n"
    using wait_for_ends [where now = "de_now env" and sleep = "de_sleep env" and f = f and deadline = deadline and w = w and what = what]
      assms by (auto simp: clock_ok_def)
  then show ?thesis by (auto simp: ends_at_def split: prod.splits option.splits)
qed

text \<open>
  The server answers a join with the host's own posts and, among them in their order, the joiner's
  posts so far, or with an error.
\<close>

definition shows_posts where
  "shows_posts env code own pub theirs \<longleftrightarrow>
     (\<forall>w. case fst (so_join (de_sig env) code w) of
        Inl e \<Rightarrow> True
      | Inr info \<Rightarrow> \<exists>k. cj_candidates info \<in> shuffles (map (udp_post (de_show_v6 env)) own)
                        (take k ((key_prefix @ encode_key_hex pub) # map (udp_post (de_show_v6 env)) theirs)))"

lemma poll_values:
  assumes "v6_texts (de_show_v6 env) (de_parse_v6 env)" "length pub = 32" "shows_posts env code own pub theirs"
  shows "peer_candidate (de_sig env) code key_prefix decode_key_hex w = (Some v, w') \<Longrightarrow> v = pub"
    "peer_candidate (de_sig env) code udp_prefix (foreign_addr (de_parse_v6 env) own) w = (Some a, w') \<Longrightarrow>
       find (\<lambda>a. a \<notin> set own) theirs = Some a"
proof -
  obtain r w1 where r: "so_join (de_sig env) code w = (r, w1)" by fastforce
  have k: "\<exists>k. cj_candidates info \<in> shuffles (map (udp_post (de_show_v6 env)) own)
      (take k ((key_prefix @ encode_key_hex pub) # map (udp_post (de_show_v6 env)) theirs))" if "r = Inr info" for info
    using spec [OF assms(3) [unfolded shows_posts_def], of w] r that by simp
  show "v = pub" if "peer_candidate (de_sig env) code key_prefix decode_key_hex w = (Some v, w')"
  proof (cases r)
    case (Inr info)
    then obtain k where "cj_candidates info \<in> shuffles (map (udp_post (de_show_v6 env)) own)
        (take k ((key_prefix @ encode_key_hex pub) # map (udp_post (de_show_v6 env)) theirs))" using k by blast
    from poll_finds(1) [OF assms(1,2) this] that show ?thesis
      by (auto simp: peer_candidate_def r Inr split: if_splits)
  qed (use that in \<open>simp add: peer_candidate_def r\<close>)
  show "find (\<lambda>a. a \<notin> set own) theirs = Some a"
    if "peer_candidate (de_sig env) code udp_prefix (foreign_addr (de_parse_v6 env) own) w = (Some a, w')"
  proof (cases r)
    case (Inr info)
    then obtain k where "cj_candidates info \<in> shuffles (map (udp_post (de_show_v6 env)) own)
        (take k ((key_prefix @ encode_key_hex pub) # map (udp_post (de_show_v6 env)) theirs))" using k by blast
    from poll_finds(2) [OF assms(1,2) this] that show ?thesis
      by (auto simp: peer_candidate_def r Inr intro: find_take)
  qed (use that in \<open>simp add: peer_candidate_def r\<close>)
qed


lemma sample_v6_texts: "v6_texts (de_show_v6 (sample_env cs ps)) (de_parse_v6 (sample_env cs ps))"
proof -
  have "parse_v4 (lit ''[::1]:1'') = None"
    by (simp add: parse_v4_def read_octet_def lit_def is_ascii_digit_def numeral_3_eq_3)
  moreover have "117 \<notin> set (lit ''[::1]:1'')" by (simp add: lit_def)
  ultimately show ?thesis by (auto simp: v6_texts_def sample_env_def split: if_splits)
qed

text \<open>Both machines have bound the unspecified address; the joiner knows a reflexive one.\<close>

definition sample_theirs :: "unit socket_addr list" where
  "sample_theirs = [AddrV4 UNSPECIFIED 4661, AddrV4 (203, 0, 113, 9) 4661]"

definition sample_sock :: "unit socket_addr udp_socket" where
  "sample_sock = \<lparr>sock_in = [], sock_out = [], sock_sends = []\<rparr>"

definition sample_key :: static_keypair where
  "sample_key = keypair_generate sample_prim [1]"

definition sample_cands :: "rust_str list" where
  "sample_cands = map (udp_post (\<lambda>_. lit ''[::1]:1'')) [AddrV4 UNSPECIFIED 4660 :: unit socket_addr] @
     (key_prefix @ encode_key_hex (replicate 32 5)) # map (udp_post (\<lambda>_. lit ''[::1]:1'')) sample_theirs"

lemma append_in_shuffles: "xs @ ys \<in> shuffles xs ys"
  by (induction xs) (auto intro: Cons_in_shuffles_leftI)


section \<open>Pairs of a mesh agree\<close>

lemma take_digits_split: "take_digits n s = (ds, r) \<Longrightarrow> s = ds @ r \<and> 117 \<notin> set ds"
  by (induction n s arbitrary: ds rule: take_digits.induct) (auto simp: is_ascii_digit_def split: if_splits prod.splits)

lemma read_octet_u: "read_octet s = Some (a, r) \<Longrightarrow> 117 \<in> set s \<longleftrightarrow> 117 \<in> set r"
  using take_digits_split [of 3 s] by (auto simp: read_octet_def split: prod.splits if_splits option.splits)

lemma read_char_u: "read_char c s = Some r \<Longrightarrow> c \<noteq> 117 \<Longrightarrow> 117 \<in> set s \<longleftrightarrow> 117 \<in> set r"
  by (auto simp: read_char_def split: list.splits if_splits)

lemma parse_v4_no_u: "parse_v4 s = Some x \<Longrightarrow> 117 \<notin> set s"
proof -
  have "\<not> is_ascii_digit 117" by (simp add: is_ascii_digit_def)
  then show "parse_v4 s = Some x \<Longrightarrow> 117 \<notin> set s"
    unfolding parse_v4_def
    by (auto simp: bind_eq_Some_conv list_all_iff dest!: read_octet_u read_char_u split: if_splits)
qed

lemma parse_addr_no_u: "v6_texts show_v6 parse_v6 \<Longrightarrow> parse_socket_addr parse_v6 s = Some a \<Longrightarrow> 117 \<notin> set s"
  by (auto simp: parse_socket_addr_def v6_texts_def dest: parse_v4_no_u split: option.splits)

lemma last_occurrence: "xs @ c # ys = xs' @ c # ys' \<Longrightarrow> c \<notin> set ys \<Longrightarrow> c \<notin> set ys' \<Longrightarrow> xs = xs' \<and> ys = ys'"
proof (induction xs arbitrary: xs')
  case Nil
  then show ?case by (cases xs') auto
next
  case (Cons x xs)
  then show ?case by (cases xs') auto
qed

lemma mesh_tag_exact:
  assumes "strip_prefix (mesh_tag m) (mesh_tag p @ t) = Some v" "117 \<notin> set t" "117 \<notin> set v"
  shows "m = p" "v = t"
proof -
  have "mesh_tag p @ t = mesh_tag m @ v"
    using assms(1) append_take_drop_id [of "length (mesh_tag m)" "mesh_tag p @ t"]
    by (auto simp: strip_prefix_def simp del: take_append drop_append append_take_drop_id split: if_splits)
  then have "(lit ''mesh:'' @ p @ lit '':'') @ 117 # (lit ''dp:'' @ t) = (lit ''mesh:'' @ m @ lit '':'') @ 117 # (lit ''dp:'' @ v)"
    by (simp add: mesh_tag_def lit_def)
  from last_occurrence [OF this] assms(2,3) show "m = p" "v = t" by (simp_all add: lit_def)
qed

lemma mesh_addr_posts:
  assumes v6: "v6_texts show_v6 parse_v6"
  shows "first_candidate (mesh_tag me) (parse_socket_addr parse_v6) (map (\<lambda>t. mesh_tag t @ addr_to_string show_v6 (addr t)) ts) =
    (if me \<in> set ts then Some (addr me) else None)"
proof (induction ts)
  case (Cons t ts)
  have shown: "parse_socket_addr parse_v6 (addr_to_string show_v6 a) = Some a" for a
    using v6 by (intro parse_addr_to_string) (auto simp: v6_texts_def)
  have "parse_socket_addr parse_v6 v = None"
    if "strip_prefix (mesh_tag me) (mesh_tag t @ addr_to_string show_v6 (addr t)) = Some v" "t \<noteq> me" for v
  proof (rule ccontr)
    assume "parse_socket_addr parse_v6 v \<noteq> None"
    then have "117 \<notin> set v" using parse_addr_no_u [OF v6] by auto
    from mesh_tag_exact(1) [OF that(1) parse_addr_no_u [OF v6 shown] this] that(2) show False by simp
  qed
  then show ?case using Cons shown by (cases "t = me") (auto simp: first_candidate_find split: option.splits)
qed (simp add: first_candidate_def List.map_filter_simps)

text \<open>
  C25: The two ends of every pair of a mesh agree. In a roster of distinct participants, the
  address a node finds for a peer is the one of the socket that the peer has opened for this node,
  never the one it opened for somebody else, whatever the names are; before that socket is published
  there is none. And of two different participants exactly one starts the handshake.
\<close>

theorem mesh_pair_agrees:
  assumes "v6_texts show_v6 parse_v6" "distinct (map cp_id ps)" "y \<in> set ps"
    and "cp_candidates y = map (\<lambda>t. mesh_tag t @ addr_to_string show_v6 (addr t)) ts"
    and "valid_str me" "valid_str (cp_id y)" "me \<noteq> cp_id y"
  shows "mesh_addr parse_v6 me (cp_id y) ps = (if me \<in> set ts then Some (addr me) else None) \<and>
    (str_less me (cp_id y) \<longleftrightarrow> \<not> str_less (cp_id y) me)"
proof -
  have "find (\<lambda>x. cp_id x = cp_id y) ps = Some y"
    using assms(2,3) by (induction ps) (auto simp: rev_image_eqI)
  then have "mesh_addr parse_v6 me (cp_id y) ps = (if me \<in> set ts then Some (addr me) else None)"
    using mesh_addr_posts [OF assms(1)] by (simp add: mesh_addr_def assms(4))
  moreover have "str_as_bytes me \<noteq> str_as_bytes (cp_id y)" using str_as_bytes_inj assms(5-7) by simp
  then have "str_less me (cp_id y) \<longleftrightarrow> \<not> str_less (cp_id y) me" unfolding str_less_def by auto
  ultimately show ?thesis by simp
qed

definition sample_roster :: "client_participant list" where
  "sample_roster =
     map (\<lambda>i. \<lparr>cp_id = lit i, cp_pubkey = [], cp_candidates =
            map (\<lambda>t. mesh_tag t @ v4_to_string (127, 0, 0, 1) (of_nat (length t))) [lit ''alice:udp'', lit ''alice'']\<rparr>) [''bob'', ''carol'']"

theorem mesh_pair_agrees_witness:
  "mesh_addr (de_parse_v6 (sample_env [] [])) (lit ''alice'') (lit ''bob'') sample_roster = Some (AddrV4 (127, 0, 0, 1) 5) \<and>
   str_less (lit ''alice'') (lit ''bob'') \<and> \<not> str_less (lit ''bob'') (lit ''alice'')"
proof -
  have v: "valid_str (lit ''alice'')" "valid_str (lit ''bob'')" by (rule valid_str_ascii, auto simp: lit_def)+
  have "str_less (lit ''alice'') (lit ''bob'')" unfolding str_less_def by code_simp
  moreover have "mesh_addr (de_parse_v6 (sample_env [] [])) (lit ''alice'') (cp_id (hd sample_roster)) sample_roster =
      (if lit ''alice'' \<in> set [lit ''alice:udp'', lit ''alice''] then Some (AddrV4 (127, 0, 0, 1) (of_nat (length (lit ''alice'')))) else None) \<and>
    (str_less (lit ''alice'') (cp_id (hd sample_roster)) \<longleftrightarrow> \<not> str_less (cp_id (hd sample_roster)) (lit ''alice''))"
    by (rule mesh_pair_agrees [OF sample_v6_texts]) (use v in \<open>auto simp: sample_roster_def lit_def\<close>)
  ultimately show ?thesis by (simp add: sample_roster_def lit_def)
qed

text \<open>A mesh that is established has one session for every other participant of the roster it saw.\<close>

lemma and_then_Inr: "and_then m f = Some (Inr b, w') \<longleftrightarrow> (\<exists>a w. m = Some (Inr a, w) \<and> f a w = Some (Inr b, w'))"
  by (auto simp: and_then_def split: option.splits sum.splits)

lemma lift_err_Inr: "lift_err wrap m = Some (Inr a, w) \<longleftrightarrow> m = (Inr a, w)"
  by (cases m; cases "fst m") (auto simp: lift_err_def)

lemma mesh_sockets_length: "mesh_sockets env code me timeout ps w = Some (Inr socks, w') \<Longrightarrow> length socks = length ps"
  by (induction ps arbitrary: w w' socks) (auto simp: and_then_Inr split: prod.splits)

lemma mesh_pairs_peers: "mesh_pairs env code me deadline ps w = Some (Inr pairs, w') \<Longrightarrow> map fst pairs = map fst ps"
proof (induction ps arbitrary: w w' pairs)
  case (Cons x ps)
  then show ?case by (cases x) (auto simp: and_then_Inr)
qed simp

lemma map_sum_Inr: "map_sum f g x = Inr y \<longleftrightarrow> (\<exists>z. x = Inr z \<and> y = g z)"
  by (cases x) auto

lemma mesh_handshake_id: "mesh_handshake P secret now me key code pair = Inr s \<Longrightarrow> fst s = cp_id (fst pair)"
  by (cases pair) (auto simp: mesh_handshake_def map_sum_Inr)

lemma collect_results_ids:
  "collect_results (map (\<lambda>(i, pair). mesh_handshake P (secrets i) now me key code pair) (enumerate n pairs)) = Inr ss \<Longrightarrow>
     map fst ss = map (cp_id \<circ> fst) pairs"
proof (induction pairs arbitrary: n ss)
  case (Cons pair pairs)
  obtain s where s: "mesh_handshake P (secrets n) now me key code pair = Inr s"
    using Cons.prems by (cases "mesh_handshake P (secrets n) now me key code pair") (auto simp: enumerate_simps)
  from mesh_handshake_id [OF s] Cons s show ?case by (cases "collect_results (map (\<lambda>(i, pair). mesh_handshake P (secrets i) now me key code pair) (enumerate (Suc n) pairs))") auto
qed simp

lemma mesh_is_complete:
  assumes "establish_mesh env P secrets code me key group_size timeout w = Some (Inr m, w')"
  shows "\<exists>roster ss u u'. wait_for (de_now env) (de_sleep env) (de_now env u + timeout) ''full room roster''
        (full_roster (de_sig env) code group_size) u = Some (Inr roster, u') \<and>
      ms_me m = me \<and> ms_peers m = sort_by_id fst ss \<and> map fst ss = map cp_id (sort_by_id cp_id (roster_peers roster me))"
proof -
  from assms obtain u u' roster socks w2 pairs w3 ss where
    r: "wait_for (de_now env) (de_sleep env) (de_now env u + timeout) ''full room roster'' (full_roster (de_sig env) code group_size) u =
        Some (Inr roster, u')"
    and s: "mesh_sockets env code me timeout (sort_by_id cp_id (roster_peers roster me)) u' = Some (Inr socks, w2)"
    and p: "mesh_pairs env code me (de_now env u + timeout) (zip (sort_by_id cp_id (roster_peers roster me)) socks) w2 = Some (Inr pairs, w3)"
    and c: "collect_results (map (\<lambda>(i, pair). mesh_handshake P (secrets i) (de_now env w3) me key code pair) (enumerate 0 pairs)) = Inr ss"
    and m: "m = \<lparr>ms_me = me, ms_peers = sort_by_id fst ss\<rparr>"
    unfolding establish_mesh_def Let_def by (auto simp: and_then_Inr lift_err_Inr)
  have "map fst ss = map cp_id (map fst pairs)" using collect_results_ids [OF c] by simp
  then show ?thesis using r m mesh_pairs_peers [OF p] mesh_sockets_length [OF s] by auto
qed

section \<open>The mix\<close>

lemma length_add_stream [simp]: "length (add_stream out s) = length out"
  by (induction out s rule: add_stream.induct) auto

lemma nth_add_stream: "i < length out \<Longrightarrow> add_stream out s ! i = (if i < length s then clamp_sample (out ! i + s ! i) else out ! i)"
  by (induction out s arbitrary: i rule: add_stream.induct) (auto simp: nth_Cons split: nat.splits)

text \<open>
  One sample of the mix: the streams are added one after the other and every sum is clipped, so
  the value depends on the order of the streams once a partial sum leaves the range.
\<close>

lemma fold_add_stream:
  "i < length out \<Longrightarrow> fold (\<lambda>s out. add_stream out s) streams out ! i =
     fold (\<lambda>s a. if i < length s then clamp_sample (a + s ! i) else a) streams (out ! i)"
  by (induction streams arbitrary: out) (auto simp: nth_add_stream)

lemma length_mix: "length (mix_streams streams) = Max (insert 0 (set (map length streams)))"
proof -
  have "length (fold (\<lambda>s out. add_stream out s) streams out) = length out" for out
    by (induction streams arbitrary: out) auto
  then show ?thesis by (simp add: mix_streams_def)
qed

lemma mix_sample:
  "i < length (mix_streams streams) \<Longrightarrow>
     mix_streams streams ! i = fold (\<lambda>s a. if i < length s then clamp_sample (a + s ! i) else a) streams 0"
  by (simp add: length_mix) (simp add: mix_streams_def fold_add_stream)

lemma mix_order_matters: "mix_streams [[30000], [30000], [-30000]] \<noteq> mix_streams [[30000], [-30000], [30000]]"
  by (simp add: mix_streams_def clamp_sample_def clamp_def)

end
