(* ===== verification/Daemon.thy ===== *)
theory Daemon
  imports Ipc Establish F64
begin

text \<open>
  The daemon process (\<open>core/lowbandd/src/main.rs\<close>): its command line, the drop of privileges, the
  establishment of the session, and the governor loop with the CPU ceiling
  (\<open>core/platform/src/cpu_ceiling.rs\<close>) and the quality indicator
  (\<open>core/lowbandd/src/quality_indicator.rs\<close>).

  The clock, the CPU time and the thermal reading are inputs; the system calls are a record over the
  state of the process. Percentages of type \<open>f32\<close> are the rational numbers they denote. \<open>None\<close> is a panic.
\<close>

section \<open>The command line\<close>

datatype session_mode =
  NoSession
| Host rust_str
| Join rust_str rust_str
| MeshHost rust_str rust_str nat
| MeshJoin rust_str rust_str rust_str nat

record 'v6 config =
  cfg_ipc_socket :: rust_str
  cfg_data_dir :: rust_str
  cfg_link_bps :: u32
  cfg_drop_to :: "rust_str option"
  cfg_session_mode :: session_mode
  cfg_stun_server :: "'v6 socket_addr option"

definition mesh_default_size :: nat where
  "mesh_default_size = MESH_MAX_PARTICIPANTS"

definition default_participant_id :: "nat \<Rightarrow> rust_str" where
  "default_participant_id pid = lit ''peer-'' @ dec_str pid"

text \<open>The variables of \<open>parse_args\<close>.\<close>

record 'v6 args =
  a_ipc_socket :: rust_str
  a_data_dir :: rust_str
  a_link_bps :: u32
  a_drop_to :: "rust_str option"
  a_signaling :: "rust_str option"
  a_host :: bool
  a_join_code :: "rust_str option"
  a_stun_server :: "'v6 socket_addr option"
  a_room_host :: bool
  a_room_join :: "rust_str option"
  a_room_id :: "rust_str option"
  a_room_size :: nat

definition args_new :: "'v6 args" where
  "args_new =
     \<lparr>a_ipc_socket = lit ''/tmp/lowband.sock'', a_data_dir = lit ''/var/lib/lowband'', a_link_bps = 400000, a_drop_to = None,
      a_signaling = None, a_host = False, a_join_code = None, a_stun_server = None, a_room_host = False, a_room_join = None,
      a_room_id = None, a_room_size = mesh_default_size\<rparr>"

text \<open>One flag with its value, if it takes one: \<open>v\<close> is \<open>args.next()\<close>.\<close>

definition takes_value :: "rust_str \<Rightarrow> bool" where
  "takes_value flag \<longleftrightarrow>
     flag \<in> set [lit ''--ipc-socket'', lit ''--data-dir'', lit ''--link-bps'', lit ''--drop-privs-to'', lit ''--signaling'',
       lit ''--join'', lit ''--stun'', lit ''--room-join'', lit ''--room-id'', lit ''--room-size'']"

definition apply_flag :: "(rust_str \<Rightarrow> 'v6 option) \<Rightarrow> rust_str \<Rightarrow> rust_str option \<Rightarrow> 'v6 args \<Rightarrow> 'v6 args" where
  "apply_flag parse_v6 flag v a =
     (if flag = lit ''--ipc-socket'' then (case v of Some x \<Rightarrow> a\<lparr>a_ipc_socket := x\<rparr> | None \<Rightarrow> a)
      else if flag = lit ''--data-dir'' then (case v of Some x \<Rightarrow> a\<lparr>a_data_dir := x\<rparr> | None \<Rightarrow> a)
      else if flag = lit ''--link-bps'' then
        (case v of
           Some x \<Rightarrow> (case from_str_radix 10 (2 ^ 32) x of Some n \<Rightarrow> a\<lparr>a_link_bps := of_nat n\<rparr> | None \<Rightarrow> a)
         | None \<Rightarrow> a)
      else if flag = lit ''--drop-privs-to'' then (case v of Some x \<Rightarrow> a\<lparr>a_drop_to := Some x\<rparr> | None \<Rightarrow> a)
      else if flag = lit ''--signaling'' then a\<lparr>a_signaling := v\<rparr>
      else if flag = lit ''--host'' then a\<lparr>a_host := True\<rparr>
      else if flag = lit ''--join'' then a\<lparr>a_join_code := v\<rparr>
      else if flag = lit ''--stun'' then
        a\<lparr>a_stun_server := (case v of Some x \<Rightarrow> parse_socket_addr parse_v6 x | None \<Rightarrow> None)\<rparr>
      else if flag = lit ''--room'' then a\<lparr>a_room_host := True\<rparr>
      else if flag = lit ''--room-join'' then a\<lparr>a_room_join := v\<rparr>
      else if flag = lit ''--room-id'' then a\<lparr>a_room_id := v\<rparr>
      else if flag = lit ''--room-size'' then
        (case v of
           Some x \<Rightarrow>
             (case from_str_radix 10 (2 ^ 64) x of
                Some n \<Rightarrow> a\<lparr>a_room_size := clamp n 2 MESH_MAX_PARTICIPANTS\<rparr>
              | None \<Rightarrow> a)
         | None \<Rightarrow> a)
      else a)"

fun args_loop :: "(rust_str \<Rightarrow> 'v6 option) \<Rightarrow> 'v6 args \<Rightarrow> rust_str list \<Rightarrow> 'v6 args" where
  "args_loop parse_v6 a [] = a"
| "args_loop parse_v6 a [flag] = apply_flag parse_v6 flag None a"
| "args_loop parse_v6 a (flag # v # rest) =
     (if takes_value flag then args_loop parse_v6 (apply_flag parse_v6 flag (Some v) a) rest
      else args_loop parse_v6 (apply_flag parse_v6 flag None a) (v # rest))"

definition mode_of :: "nat \<Rightarrow> 'v6 args \<Rightarrow> session_mode" where
  "mode_of pid a =
     (let me = (case a_room_id a of Some i \<Rightarrow> i | None \<Rightarrow> default_participant_id pid)
      in case (a_signaling a, a_host a, a_join_code a, a_room_host a, a_room_join a) of
           (Some sig, _, _, _, Some code) \<Rightarrow> MeshJoin sig code me (a_room_size a)
         | (Some sig, _, _, True, None) \<Rightarrow> MeshHost sig me (a_room_size a)
         | (Some sig, _, Some code, _, _) \<Rightarrow> Join sig code
         | (Some sig, True, None, _, _) \<Rightarrow> Host sig
         | _ \<Rightarrow> NoSession)"

definition parse_args :: "(rust_str \<Rightarrow> 'v6 option) \<Rightarrow> nat \<Rightarrow> rust_str list \<Rightarrow> 'v6 config" where
  "parse_args parse_v6 pid argv =
     (let a = args_loop parse_v6 args_new argv
      in \<lparr>cfg_ipc_socket = a_ipc_socket a, cfg_data_dir = a_data_dir a, cfg_link_bps = a_link_bps a, cfg_drop_to = a_drop_to a,
          cfg_session_mode = mode_of pid a, cfg_stun_server = a_stun_server a\<rparr>)"

section \<open>Sessions\<close>

text \<open>Thirty seconds.\<close>

definition ESTABLISH_TIMEOUT :: nat where "ESTABLISH_TIMEOUT = 30000000000"

text \<open>
  \<open>connects\<close> is whether the address of the server resolves; the inner result is \<open>None\<close> when there is
  no session to run, the outer one when a wait does not end.
\<close>

definition establish_peer_session where
  "establish_peer_session env P connects static_key mode stun_server w =
     (case mode of
        Host _ \<Rightarrow>
          if \<not> connects then Some (None, w)
          else map_option (\<lambda>(r, w). (case r of Inl _ \<Rightarrow> None | Inr (_, s) \<Rightarrow> Some s, w))
                 (establish_host env P static_key ESTABLISH_TIMEOUT stun_server (\<lambda>_ w. w) w)
      | Join _ code \<Rightarrow>
          if \<not> connects then Some (None, w)
          else map_option (\<lambda>(r, w). (case r of Inl _ \<Rightarrow> None | Inr s \<Rightarrow> Some s, w))
                 (establish_join env P code static_key ESTABLISH_TIMEOUT stun_server w)
      | _ \<Rightarrow> Some (None, w))"

definition sanitize :: "rust_str \<Rightarrow> rust_str" where
  "sanitize i = map (\<lambda>c. if 48 \<le> c \<and> c \<le> 57 \<or> 65 \<le> c \<and> c \<le> 90 \<or> 97 \<le> c \<and> c \<le> 122 \<or> c = 45 then c else 95) i"

text \<open>The per-peer files of \<open>spawn_mesh_worker\<close>.\<close>

definition inbox_name :: "rust_str \<Rightarrow> rust_str" where
  "inbox_name peer_id = lit ''inbox-'' @ sanitize peer_id @ lit ''.bin''"

section \<open>Privileges\<close>

text \<open>\<open>splitn(n, ':')\<close>.\<close>

fun splitn :: "nat \<Rightarrow> rust_str \<Rightarrow> rust_str \<Rightarrow> rust_str list" where
  "splitn n cur [] = [cur]"
| "splitn n cur (c # s) = (if c = 58 \<and> 1 < n then cur # splitn (n - 1) [] s else splitn n (cur @ [c]) s)"

fun lookup_lines :: "rust_str \<Rightarrow> rust_str list \<Rightarrow> (u32 \<times> u32) option" where
  "lookup_lines name [] = None"
| "lookup_lines name (line # ls) =
     (case splitn 7 [] line of
        [] \<Rightarrow> None
      | login # cols \<Rightarrow>
          if login \<noteq> name then lookup_lines name ls
          else (case tl cols of
                  u # g # _ \<Rightarrow>
                    (case from_str_radix 10 (2 ^ 32) u of
                       None \<Rightarrow> None
                     | Some uid \<Rightarrow> map_option (\<lambda>gid. (of_nat uid, of_nat gid)) (from_str_radix 10 (2 ^ 32) g))
                | _ \<Rightarrow> None))"

definition lookup_passwd :: "rust_str option \<Rightarrow> rust_str \<Rightarrow> (u32 \<times> u32) option" where
  "lookup_passwd passwd name = (case passwd of None \<Rightarrow> None | Some text \<Rightarrow> lookup_lines name (str_lines text))"

text \<open>The system calls: whether the call returned zero, and the state of the process after it.\<close>

record 'p sys_calls =
  c_setgid :: "u32 \<Rightarrow> 'p \<Rightarrow> bool \<times> 'p"
  c_setgroups_none :: "'p \<Rightarrow> bool \<times> 'p"
  c_setuid :: "u32 \<Rightarrow> 'p \<Rightarrow> bool \<times> 'p"
  c_getuid :: "'p \<Rightarrow> u32"

datatype drop_error = NoSuchUser | SetgidFailed | SetgroupsFailed | SetuidFailed | VerifyFailed

definition drop_privileges :: "'p sys_calls \<Rightarrow> rust_str option \<Rightarrow> rust_str \<Rightarrow> 'p \<Rightarrow> (drop_error + unit) \<times> 'p" where
  "drop_privileges sys passwd username p =
     (case lookup_passwd passwd username of
        None \<Rightarrow> (Inl NoSuchUser, p)
      | Some (uid, gid) \<Rightarrow>
          (case c_setgid sys gid p of
             (False, p) \<Rightarrow> (Inl SetgidFailed, p)
           | (True, p) \<Rightarrow>
               (case c_setgroups_none sys p of
                  (False, p) \<Rightarrow> (Inl SetgroupsFailed, p)
                | (True, p) \<Rightarrow>
                    (case c_setuid sys uid p of
                       (False, p) \<Rightarrow> (Inl SetuidFailed, p)
                     | (True, p) \<Rightarrow> (if c_getuid sys p \<noteq> uid then Inl VerifyFailed else Inr (), p)))))"

text \<open>The step of \<open>main\<close>: a failed drop ends the process (\<open>None\<close>).\<close>

definition main_drop :: "'p sys_calls \<Rightarrow> rust_str option \<Rightarrow> rust_str option \<Rightarrow> 'p \<Rightarrow> 'p option" where
  "main_drop sys passwd drop_to p =
     (case drop_to of
        None \<Rightarrow> Some p
      | Some user \<Rightarrow> (case drop_privileges sys passwd user p of (Inl _, _) \<Rightarrow> None | (Inr _, p) \<Rightarrow> Some p))"

section \<open>The CPU ceiling\<close>

datatype throttle_action = Continue | Sleep u64

record cpu_sampler =
  cs_last_wall :: nat
  cs_last_cpu_ns :: u64
  cs_initialized :: bool

text \<open>\<open>cpu\<close> is a reading of the CPU time of the process, \<open>wall\<close> of the clock.\<close>

definition sampler_new :: "u64 option \<Rightarrow> nat \<Rightarrow> cpu_sampler" where
  "sampler_new cpu wall = \<lparr>cs_last_wall = wall, cs_last_cpu_ns = (case cpu of Some c \<Rightarrow> c | None \<Rightarrow> 0), cs_initialized = False\<rparr>"

definition sampler_reset :: "u64 option \<Rightarrow> nat \<Rightarrow> cpu_sampler \<Rightarrow> cpu_sampler" where
  "sampler_reset cpu wall s =
     s\<lparr>cs_last_wall := wall, cs_last_cpu_ns := (case cpu of Some c \<Rightarrow> c | None \<Rightarrow> 0), cs_initialized := False\<rparr>"

definition delta_ns :: "u64 option \<Rightarrow> nat \<Rightarrow> cpu_sampler \<Rightarrow> (u64 \<times> u64) option \<times> cpu_sampler" where
  "delta_ns cpu wall s =
     (case cpu of
        None \<Rightarrow> (None, s)
      | Some now_cpu \<Rightarrow>
          let wall_ns = (of_nat (wall - cs_last_wall s) :: u64);
              cpu_ns = saturating_sub now_cpu (cs_last_cpu_ns s);
              s' = s\<lparr>cs_last_wall := wall, cs_last_cpu_ns := now_cpu, cs_initialized := True\<rparr>
          in (if cs_initialized s then Some (cpu_ns, wall_ns) else None, s'))"

record cpu_ceiling =
  cc_ceiling_pct :: f64
  cc_tier :: tier_state
  cc_logical_cpus :: u32
  cc_sampler :: cpu_sampler

text \<open>\<open>available\<close> is the answer of \<open>available_parallelism\<close>.\<close>

definition logical_cpu_count :: "nat option \<Rightarrow> u32" where
  "logical_cpu_count available = (case available of Some n \<Rightarrow> of_nat n | None \<Rightarrow> 2)"

definition CONSTRAINED_CPU_CEILING_PCT :: f64 where "CONSTRAINED_CPU_CEILING_PCT = 35"

definition ceiling_new :: "f64 \<Rightarrow> nat option \<Rightarrow> u64 option \<Rightarrow> nat \<Rightarrow> cpu_ceiling option" where
  "ceiling_new pct available cpu wall =
     (if 0 \<le> pct \<and> pct \<le> 100
      then Some \<lparr>cc_ceiling_pct = pct, cc_tier = Full, cc_logical_cpus = logical_cpu_count available, cc_sampler = sampler_new cpu wall\<rparr>
      else None)"

definition ceiling_constrained :: "nat option \<Rightarrow> u64 option \<Rightarrow> nat \<Rightarrow> cpu_ceiling option" where
  "ceiling_constrained = ceiling_new CONSTRAINED_CPU_CEILING_PCT"

definition ceiling_set_tier :: "tier_state \<Rightarrow> u64 option \<Rightarrow> nat \<Rightarrow> cpu_ceiling \<Rightarrow> cpu_ceiling" where
  "ceiling_set_tier tier cpu wall c =
     (let was_active = cpu_ceiling_active (cc_tier c); c = c\<lparr>cc_tier := tier\<rparr>
      in if cpu_ceiling_active tier \<and> \<not> was_active then c\<lparr>cc_sampler := sampler_reset cpu wall (cc_sampler c)\<rparr> else c)"

text \<open>\<open>u64::saturating_mul\<close> and the saturating cast of a double that is not negative.\<close>

definition saturating_mul64 :: "u64 \<Rightarrow> u64 \<Rightarrow> nat" where
  "saturating_mul64 a b = min (unat a * unat b) (2 ^ 64 - 1)"

definition f64_as_u64 :: "f64 \<Rightarrow> u64" where
  "f64_as_u64 x = of_nat (nat (min \<lfloor>x\<rfloor> (2 ^ 64 - 1)))"

text \<open>A quotient by a ceiling of zero is infinite, and so is the pause: the cast gives the largest number.\<close>

definition throttle_sleep :: "f64 \<Rightarrow> f64 \<Rightarrow> u64 \<Rightarrow> u64" where
  "throttle_sleep usage limit wall_ns =
     (if limit = 0 then - 1
      else let ratio = f64_sub (f64_div usage limit) 1 in f64_as_u64 (f64_mul (f64_of_nat (unat wall_ns)) ratio))"

definition throttle :: "u64 option \<Rightarrow> nat \<Rightarrow> cpu_ceiling \<Rightarrow> throttle_action \<times> cpu_ceiling" where
  "throttle cpu wall c =
     (if \<not> cpu_ceiling_active (cc_tier c) then (Continue, c)
      else case delta_ns cpu wall (cc_sampler c) of
        (d, s) \<Rightarrow>
          let c = c\<lparr>cc_sampler := s\<rparr>
          in (case d of
                None \<Rightarrow> Continue
              | Some (cpu_ns, wall_ns) \<Rightarrow>
                  if wall_ns = 0 then Continue
                  else let total = saturating_mul64 wall_ns (ucast (cc_logical_cpus c));
                           usage = f64_div (f64_of_nat (unat cpu_ns)) (f64_of_nat total);
                           limit = f64_div (cc_ceiling_pct c) 100
                       in if usage \<le> limit then Continue else Sleep (throttle_sleep usage limit wall_ns),
              c))"

section \<open>The CPU load\<close>

text \<open>\<open>/proc/self/stat\<close>: two counters after the last closing parenthesis, in hundredths of a second.\<close>

fun after_last_paren :: "rust_str \<Rightarrow> rust_str option" where
  "after_last_paren [] = None"
| "after_last_paren (c # s) =
     (case after_last_paren s of Some r \<Rightarrow> Some r | None \<Rightarrow> if c = 41 then Some s else None)"

definition stat_ticks :: "rust_str option \<Rightarrow> (u64 \<times> u64) option" where
  "stat_ticks stat =
     (case stat of
        None \<Rightarrow> None
      | Some text \<Rightarrow>
          (case after_last_paren text of
             None \<Rightarrow> None
           | Some rest \<Rightarrow>
               (let fields = split_whitespace rest
                in if length fields \<le> 12 then None
                   else case from_str_radix 10 (2 ^ 64) (fields ! 11) of
                          None \<Rightarrow> None
                        | Some utime \<Rightarrow> map_option (\<lambda>stime. (of_nat utime, of_nat stime)) (from_str_radix 10 (2 ^ 64) (fields ! 12)))))"

text \<open>The sum and the product are checked in a debug build and wrap in a release build.\<close>

definition ticks_to_ns :: "bool \<Rightarrow> u64 \<times> u64 \<Rightarrow> u64 option" where
  "ticks_to_ns overflow_checks counts =
     (if overflow_checks \<and> 2 ^ 64 \<le> (unat (fst counts) + unat (snd counts)) * 1000000000 then None
      else Some ((fst counts + snd counts) * 1000000000 div 100))"

text \<open>Outer \<open>None\<close>: a panic.\<close>

definition read_linux_process_cpu_ns :: "bool \<Rightarrow> rust_str option \<Rightarrow> u64 option option" where
  "read_linux_process_cpu_ns overflow_checks stat =
     (case stat_ticks stat of None \<Rightarrow> Some None | Some t \<Rightarrow> map_option Some (ticks_to_ns overflow_checks t))"

definition proc_cpu_ns :: "bool \<Rightarrow> rust_str option \<Rightarrow> u64 option" where
  "proc_cpu_ns overflow_checks stat =
     (case stat_ticks stat of None \<Rightarrow> Some 0 | Some t \<Rightarrow> ticks_to_ns overflow_checks t)"

record cpu_snapshot =
  sn_cpu_ns :: u64
  sn_wall :: nat

text \<open>Rounding to single precision: 24 bits, for a number that is not negative.\<close>

definition f32_round :: "rat \<Rightarrow> rat" where
  "f32_round x =
     (if x = 0 then 0 else let q = 2 powi (max (ilog2 x - 23) (- 149)) in of_int (round_half_even (x / q)) * q)"

definition pct_since :: "u64 \<Rightarrow> nat \<Rightarrow> u32 \<Rightarrow> cpu_snapshot \<Rightarrow> rat" where
  "pct_since cpu wall logical_cpus s =
     (let delta_cpu = saturating_sub cpu (sn_cpu_ns s); delta_wall = (of_nat (wall - sn_wall s) :: u64)
      in if delta_wall = 0 \<or> logical_cpus = 0 then 0
         else let capacity = saturating_mul64 delta_wall (ucast logical_cpus)
              in f32_round (clamp (f64_mul (f64_div (f64_of_nat (unat delta_cpu)) (f64_of_nat capacity)) 100) 0 100))"

fun derive_tier :: "thermal_pressure \<Rightarrow> rat \<Rightarrow> tier_state" where
  "derive_tier Critical cpu = Survival"
| "derive_tier Serious cpu = Constrained"
| "derive_tier Fair cpu = (if 35 < cpu then Constrained else Comfortable)"
| "derive_tier Nominal cpu = (if 35 < cpu then Constrained else if 20 < cpu then Comfortable else Full)"

section \<open>The quality indicator\<close>

record quality_summary =
  qs_tier :: tier_state
  qs_bitrate_bps :: u32
  qs_rtt_ms :: u32
  qs_loss_pct :: rat

definition saturating_add32 :: "u32 \<Rightarrow> u32 \<Rightarrow> u32" where
  "saturating_add32 a b = of_nat (min (unat a + unat b) (2 ^ 32 - 1))"

definition total_bitrate_bps :: "stream_budgets \<Rightarrow> u32" where
  "total_bitrate_bps b =
     saturating_add32 (saturating_add32 (saturating_add32 (saturating_add32 (saturating_add32
       (audio_bps b) (input_bps b)) (screen_coarse_bps b)) (camera_bps b)) (screen_refinement_bps b)) (xfer_bps b)"

definition quality_update ::
  "tier_state \<Rightarrow> stream_budgets \<Rightarrow> u32 \<Rightarrow> rat \<Rightarrow> quality_summary option \<Rightarrow> quality_summary \<times> quality_summary option" where
  "quality_update tier budgets rtt_ms loss_pct latest =
     (let s = \<lparr>qs_tier = tier, qs_bitrate_bps = total_bitrate_bps budgets, qs_rtt_ms = rtt_ms, qs_loss_pct = loss_pct\<rparr> in (s, Some s))"

section \<open>The governor loop\<close>

text \<open>One hundred milliseconds.\<close>

definition TICK_NS :: u64 where "TICK_NS = 100000000"

text \<open>The bit pattern of an \<open>f32\<close> that is not negative.\<close>

definition f32_to_bits :: "rat \<Rightarrow> u32" where
  "f32_to_bits x =
     (if x = 0 then 0
      else if ilog2 x < - 126 then of_int \<lfloor>x * 2 ^ 149\<rfloor>
      else of_int ((ilog2 x + 127) * 2 ^ 23 + \<lfloor>(x / 2 powi (ilog2 x) - 1) * 2 ^ 23\<rfloor>))"

record governor_state =
  gs_ceiling :: cpu_ceiling
  gs_snap :: cpu_snapshot
  gs_quality :: "quality_summary option"
  gs_tick_count :: u32
  gs_clients :: "ipc_channel list"

text \<open>The readings of one tick, in the order in which the loop takes them.\<close>

record tick_input =
  ti_thermal :: thermal_pressure
  ti_pct :: "u64 \<times> nat"
  ti_snap :: "u64 \<times> nat"
  ti_set_tier :: "u64 option \<times> nat"
  ti_throttle :: "u64 option \<times> nat"

definition loop_pause :: "throttle_action \<Rightarrow> u64" where
  "loop_pause a = (case a of Sleep d \<Rightarrow> min d TICK_NS | Continue \<Rightarrow> TICK_NS)"

text \<open>The events of a tick, from the tier, the load, the heat, the budgets and the constraints.\<close>

definition tick_events :: "tier_state \<Rightarrow> rat \<Rightarrow> thermal_pressure \<Rightarrow> stream_budgets \<Rightarrow> gear_constraints \<Rightarrow> ipc_event list" where
  "tick_events tier cpu_pct thermal budgets constraints =
     [TierUpdate tier (f32_to_bits cpu_pct) thermal, StreamBudget budgets 0 0, GearUpdate constraints]"

text \<open>Returns the pause after the tick.\<close>

definition daemon_tick ::
  "bool \<Rightarrow> (slot list \<Rightarrow> bytes) \<Rightarrow> u32 \<Rightarrow> tick_input \<Rightarrow> governor_state \<Rightarrow> (u64 \<times> governor_state) option" where
  "daemon_tick overflow_checks build link_bps inp g =
     (let thermal = ti_thermal inp;
          cpu_pct = pct_since (fst (ti_pct inp)) (snd (ti_pct inp)) (cc_logical_cpus (gs_ceiling g)) (gs_snap g);
          snap = \<lparr>sn_cpu_ns = fst (ti_snap inp), sn_wall = snd (ti_snap inp)\<rparr>;
          tier = derive_tier thermal cpu_pct;
          cc = ceiling_set_tier tier (fst (ti_set_tier inp)) (snd (ti_set_tier inp)) (gs_ceiling g);
          constraints = from_thermal thermal
      in case allocate overflow_checks link_bps constraints of
           None \<Rightarrow> None
         | Some budgets \<Rightarrow>
             if overflow_checks \<and> gs_tick_count g = - 1 then None
             else let quality = snd (quality_update tier budgets 0 0 (gs_quality g));
                      clients = fold (broadcast build) (tick_events tier cpu_pct thermal budgets constraints) (gs_clients g);
                      (action, cc) = throttle (fst (ti_throttle inp)) (snd (ti_throttle inp)) cc
                  in Some (loop_pause action,
                       \<lparr>gs_ceiling = cc, gs_snap = snap, gs_quality = quality, gs_tick_count = gs_tick_count g + 1,
                        gs_clients = clients\<rparr>))"

section \<open>The configuration is well formed\<close>

fun mode_ok :: "session_mode \<Rightarrow> bool" where
  "mode_ok (MeshHost sig me n) \<longleftrightarrow> 2 \<le> n \<and> n \<le> MESH_MAX_PARTICIPANTS"
| "mode_ok (MeshJoin sig code me n) \<longleftrightarrow> 2 \<le> n \<and> n \<le> MESH_MAX_PARTICIPANTS"
| "mode_ok _ \<longleftrightarrow> True"

text \<open>The size is in range and, when there is no such flag (\<open>quiet\<close>), no server is named.\<close>

definition args_inv :: "bool \<Rightarrow> 'v6 args \<Rightarrow> bool" where
  "args_inv quiet a \<longleftrightarrow> 2 \<le> a_room_size a \<and> a_room_size a \<le> MESH_MAX_PARTICIPANTS \<and> (quiet \<longrightarrow> a_signaling a = None)"

lemma args_inv_if: "(c \<Longrightarrow> args_inv q x) \<Longrightarrow> (\<not> c \<Longrightarrow> args_inv q y) \<Longrightarrow> args_inv q (if c then x else y)"
  by simp

lemma args_inv_option: "args_inv q x \<Longrightarrow> (\<And>v. args_inv q (f v)) \<Longrightarrow> args_inv q (case v of None \<Rightarrow> x | Some v \<Rightarrow> f v)"
  by (simp split: option.split)

lemma args_inv_updates:
  assumes "args_inv q a"
  shows "args_inv q (a\<lparr>a_ipc_socket := s\<rparr>)" "args_inv q (a\<lparr>a_data_dir := s\<rparr>)" "args_inv q (a\<lparr>a_link_bps := n\<rparr>)"
    "args_inv q (a\<lparr>a_drop_to := v\<rparr>)" "args_inv q (a\<lparr>a_host := b\<rparr>)" "args_inv q (a\<lparr>a_join_code := v\<rparr>)"
    "args_inv q (a\<lparr>a_stun_server := addr\<rparr>)" "args_inv q (a\<lparr>a_room_host := b\<rparr>)" "args_inv q (a\<lparr>a_room_join := v\<rparr>)"
    "args_inv q (a\<lparr>a_room_id := v\<rparr>)" "args_inv q (a\<lparr>a_room_size := clamp k 2 MESH_MAX_PARTICIPANTS\<rparr>)"
    "\<not> q \<Longrightarrow> args_inv q (a\<lparr>a_signaling := v\<rparr>)"
  using assms clamp_bounds [of 2 MESH_MAX_PARTICIPANTS k] by (simp_all add: args_inv_def MESH_MAX_PARTICIPANTS_def)

lemma apply_flag_inv:
  assumes "args_inv q a" "q \<Longrightarrow> flag \<noteq> lit ''--signaling''"
  shows "args_inv q (apply_flag parse_v6 flag v a)"
  unfolding apply_flag_def by (intro args_inv_if args_inv_option args_inv_updates assms(1)) (use assms(2) in blast)+

lemma args_loop_inv:
  "args_inv q a \<Longrightarrow> (q \<Longrightarrow> lit ''--signaling'' \<notin> set argv) \<Longrightarrow> args_inv q (args_loop parse_v6 a argv)"
proof (induction parse_v6 a argv rule: args_loop.induct)
  case (2 parse_v6 a flag)
  have "args_inv q (apply_flag parse_v6 flag None a)" by (rule apply_flag_inv) (use 2 in auto)
  then show ?case by simp
next
  case (3 parse_v6 a flag v rest)
  have "args_inv q (apply_flag parse_v6 flag x a)" for x by (rule apply_flag_inv) (use 3(3,4) in auto)
  with 3(1,2,4) show ?case by (cases "takes_value flag") auto
qed simp

text \<open>
  C33: Every command line gives a well-formed configuration: the size of a mesh is between two and the cap of a
  room whatever number was given, and without a rendezvous server there is no session.
\<close>

theorem config_well_formed:
  "mode_ok (cfg_session_mode (parse_args parse_v6 pid argv)) \<and>
   (lit ''--signaling'' \<notin> set argv \<longrightarrow> cfg_session_mode (parse_args parse_v6 pid argv) = NoSession)"
proof -
  let ?a = "args_loop parse_v6 args_new argv" and ?quiet = "lit ''--signaling'' \<notin> set argv"
  have new: "args_inv ?quiet args_new" by (simp add: args_inv_def args_new_def mesh_default_size_def MESH_MAX_PARTICIPANTS_def)
  have inv: "args_inv ?quiet ?a" by (rule args_loop_inv [OF new])
  then have "mode_ok (mode_of pid ?a)" by (auto simp: args_inv_def mode_of_def Let_def split: option.splits bool.splits)
  moreover have "mode_of pid ?a = NoSession" if ?quiet using inv that by (simp add: args_inv_def mode_of_def)
  ultimately show ?thesis by (simp add: parse_args_def Let_def)
qed

theorem config_well_formed_witness:
  "cfg_session_mode (parse_args (\<lambda>_. None :: unit option) 7 [lit ''--room'', lit ''--room-size'', lit ''9'']) = NoSession"
  using config_well_formed [of "\<lambda>_. None :: unit option" 7 "[lit ''--room'', lit ''--room-size'', lit ''9'']"]
  by (simp add: lit_def)

text \<open>Names of peers that differ can share the files of a transfer.\<close>

lemma inbox_names_collide: "inbox_name (lit ''a/b'') = inbox_name (lit ''a.b'')"
  by (simp add: inbox_name_def sanitize_def lit_def)

section \<open>Privileges are dropped\<close>

text \<open>
  What the theorems ask of the system calls: a successful call has its effect on the group, the
  supplementary groups or the user and keeps the others, and root may make all of them.
\<close>

definition posix_ok :: "'p sys_calls \<Rightarrow> ('p \<Rightarrow> u32) \<Rightarrow> ('p \<Rightarrow> u32) \<Rightarrow> ('p \<Rightarrow> u32 list) \<Rightarrow> bool" where
  "posix_ok sys uid_of gid_of groups_of \<longleftrightarrow>
     (\<forall>g p p'. c_setgid sys g p = (True, p') \<longrightarrow> gid_of p' = g \<and> uid_of p' = uid_of p \<and> groups_of p' = groups_of p) \<and>
     (\<forall>p p'. c_setgroups_none sys p = (True, p') \<longrightarrow> groups_of p' = [] \<and> gid_of p' = gid_of p \<and> uid_of p' = uid_of p) \<and>
     (\<forall>u p p'. c_setuid sys u p = (True, p') \<longrightarrow> gid_of p' = gid_of p \<and> groups_of p' = groups_of p) \<and>
     (\<forall>p. c_getuid sys p = uid_of p) \<and>
     (\<forall>g u p. uid_of p = 0 \<longrightarrow> fst (c_setgid sys g p) \<and> fst (c_setgroups_none sys p) \<and>
        fst (c_setuid sys u p) \<and> uid_of (snd (c_setuid sys u p)) = u)"


text \<open>A process with a user, a group and supplementary groups, where only root may change them.\<close>

definition sample_sys :: "(u32 \<times> u32 \<times> u32 list) sys_calls" where
  "sample_sys =
     \<lparr>c_setgid = \<lambda>g (u, g0, gs). if u = 0 then (True, (u, g, gs)) else (False, (u, g0, gs)),
      c_setgroups_none = \<lambda>(u, g, gs). if u = 0 then (True, (u, g, [])) else (False, (u, g, gs)),
      c_setuid = \<lambda>u' (u, g, gs). if u = 0 then (True, (u', g, gs)) else (False, (u, g, gs)),
      c_getuid = fst\<rparr>"

definition sample_passwd :: rust_str where
  "sample_passwd = lit ''root:x:0:0'' @ [10] @ lit ''_lowband:x:450:451'' @ [10]"

lemma sample_posix_ok: "posix_ok sample_sys fst (fst \<circ> snd) (snd \<circ> snd)"
  by (auto simp: posix_ok_def sample_sys_def split: prod.splits if_splits)

lemma sample_lookup: "lookup_passwd (Some sample_passwd) (lit ''_lowband'') = Some (450, 451)"
  by (simp add: sample_passwd_def lookup_passwd_def str_lines_def lit_def strip_cr_def from_str_radix_def digit_value_def is_ascii_digit_def)


section \<open>The loop\<close>

lemma derive_tier_mono:
  "thermal \<le> thermal' \<Longrightarrow> cpu \<le> cpu' \<Longrightarrow> tier_rank (derive_tier thermal' cpu') \<le> tier_rank (derive_tier thermal cpu)"
  by (cases thermal; cases thermal') (auto simp: less_eq_thermal_pressure_def)

lemma throttle_sleeps_over_ceiling:
  assumes "throttle cpu wall c = (Sleep d, c')"
  shows "cpu_ceiling_active (cc_tier c) \<and>
    (\<exists>cpu_ns wall_ns. fst (delta_ns cpu wall (cc_sampler c)) = Some (cpu_ns, wall_ns) \<and> wall_ns \<noteq> 0 \<and>
      f64_div (cc_ceiling_pct c) 100 <
        f64_div (f64_of_nat (unat cpu_ns)) (f64_of_nat (saturating_mul64 wall_ns (ucast (cc_logical_cpus c)))))"
  using assms by (auto simp: throttle_def Let_def not_le split: if_splits prod.splits option.splits)

lemma throttle_keeps_tier: "cc_tier (snd (throttle cpu wall c)) = cc_tier c"
  by (auto simp: throttle_def Let_def split: prod.splits)

lemma set_tier_tier: "cc_tier (ceiling_set_tier tier cpu wall c) = tier"
  by (simp add: ceiling_set_tier_def Let_def)

lemma throttle_inactive: "\<not> cpu_ceiling_active (cc_tier c) \<Longrightarrow> fst (throttle cpu wall c) = Continue"
  by (simp add: throttle_def)

lemma allocate_thermal: "allocate oc bps (from_thermal thermal) \<noteq> None"
proof -
  have "audio_floor_bps (from_thermal thermal) = AUDIO_FLOOR_BPS"
    by (cases thermal) (simp_all add: from_thermal_def from_thermal_with_capability_def)
  from allocate_greedy [OF this, of oc bps] show ?thesis by auto
qed

text \<open>
  C34: The CPU ceiling never slows the governor loop down. A tick ends without a panic unless the tick counter
  overflows in a debug build; the pause after it is the full interval whenever the ceiling is
  inactive and never longer when it is active, and it is shorter exactly when the throttle asks for a sleep of less than
  the interval, that is while the process uses too much. The indicator shows the tier of the
  tick, and no round trip or loss is ever reported.
\<close>

theorem daemon_tick_behaviour:
  "(daemon_tick oc build link_bps inp g = None \<longleftrightarrow> oc \<and> gs_tick_count g = - 1) \<and>
   (daemon_tick oc build link_bps inp g = Some (pause, g') \<longrightarrow>
      pause \<le> TICK_NS \<and>
      (\<not> cpu_ceiling_active (cc_tier (gs_ceiling g')) \<longrightarrow> pause = TICK_NS) \<and>
      (pause < TICK_NS \<longrightarrow> (\<exists>cpu wall c. throttle cpu wall c = (Sleep pause, gs_ceiling g'))) \<and>
      (\<exists>q. gs_quality g' = Some q \<and> qs_tier q = cc_tier (gs_ceiling g') \<and> qs_rtt_ms q = 0 \<and> qs_loss_pct q = 0))"
proof -
  obtain b where b: "allocate oc link_bps (from_thermal (ti_thermal inp)) = Some b" using allocate_thermal by blast
  let ?tier = "derive_tier (ti_thermal inp) (pct_since (fst (ti_pct inp)) (snd (ti_pct inp)) (cc_logical_cpus (gs_ceiling g)) (gs_snap g))"
  let ?c = "ceiling_set_tier ?tier (fst (ti_set_tier inp)) (snd (ti_set_tier inp)) (gs_ceiling g)"
  obtain act c' where t: "throttle (fst (ti_throttle inp)) (snd (ti_throttle inp)) ?c = (act, c')" by fastforce
  have tier: "cc_tier c' = ?tier" using throttle_keeps_tier [of "fst (ti_throttle inp)" "snd (ti_throttle inp)" ?c] t by (simp add: set_tier_tier)
  have none: "daemon_tick oc build link_bps inp g = None \<longleftrightarrow> oc \<and> gs_tick_count g = - 1"
    by (simp add: daemon_tick_def Let_def b t)
  have some: "pause = loop_pause act \<and> gs_ceiling g' = c' \<and> (\<exists>q. gs_quality g' = Some q \<and> qs_tier q = ?tier \<and> qs_rtt_ms q = 0 \<and> qs_loss_pct q = 0)"
    if "daemon_tick oc build link_bps inp g = Some (pause, g')"
    using that by (auto simp: daemon_tick_def Let_def b t quality_update_def split: if_splits)
  have "loop_pause act \<le> TICK_NS" by (simp add: loop_pause_def split: throttle_action.splits)
  moreover have "loop_pause act = TICK_NS" if "\<not> cpu_ceiling_active ?tier"
  proof -
    have "act = Continue"
      using throttle_inactive [of ?c "fst (ti_throttle inp)" "snd (ti_throttle inp)"] that t by (simp add: set_tier_tier)
    then show ?thesis by (simp add: loop_pause_def)
  qed
  moreover have "act = Sleep (loop_pause act)" if "loop_pause act < TICK_NS"
    using that by (auto simp: loop_pause_def min_def split: throttle_action.splits if_splits)
  ultimately show ?thesis using none some tier t by metis
qed

text \<open>
  A machine that has run at three quarters of its capacity under a ceiling of one half: the throttle asks for 32
  nanoseconds and the loop pauses for 32 nanoseconds instead of a hundred milliseconds.
\<close>

definition sample_governor :: governor_state where
  "sample_governor =
     \<lparr>gs_ceiling = \<lparr>cc_ceiling_pct = 50, cc_tier = Constrained, cc_logical_cpus = 1,
        cc_sampler = \<lparr>cs_last_wall = 0, cs_last_cpu_ns = 0, cs_initialized = True\<rparr>\<rparr>,
      gs_snap = \<lparr>sn_cpu_ns = 0, sn_wall = 0\<rparr>, gs_quality = None, gs_tick_count = 0, gs_clients = []\<rparr>"

definition sample_input :: tick_input where
  "sample_input = \<lparr>ti_thermal = Serious, ti_pct = (0, 0), ti_snap = (48, 64), ti_set_tier = (Some 48, 64), ti_throttle = (Some 48, 64)\<rparr>"

lemma f64_round_simple: "f64_round 48 = 48" "f64_round 64 = 64" "f64_round (3 / 4) = 3 / 4" "f64_round (1 / 2) = 1 / 2" "f64_round (3 / 2) = 3 / 2"
    "f64_round 32 = 32"
  using f64_round_eighths [of 384] f64_round_eighths [of 512] f64_round_eighths [of 6] f64_round_eighths [of 4] f64_round_eighths [of 12]
    f64_round_eighths [of 256] by simp_all

lemma sample_throttle:
  "fst (throttle (Some 48) 64 (gs_ceiling sample_governor)) = Sleep 32"
  by (simp add: throttle_def sample_governor_def cpu_ceiling_active_def delta_ns_def Let_def saturating_sub_def saturating_mul64_def
      f64_div_def f64_of_nat_def f64_round_simple throttle_sleep_def f64_sub_def f64_mul_def f64_as_u64_def)

theorem daemon_tick_behaviour_witness:
  "\<exists>g'. daemon_tick True sample_build 400000 sample_input sample_governor = Some (32, g') \<and> (32 :: u64) \<le> TICK_NS"
proof -
  obtain pause g' where g: "daemon_tick True sample_build 400000 sample_input sample_governor = Some (pause, g')"
    using daemon_tick_behaviour [of True sample_build 400000 sample_input sample_governor] by (force simp: sample_governor_def)
  moreover have "ceiling_set_tier Constrained (Some 48) 64 (gs_ceiling sample_governor) = gs_ceiling sample_governor"
    by (simp add: ceiling_set_tier_def sample_governor_def cpu_ceiling_active_def)
  then have "pause = 32"
    using g sample_throttle
    by (auto simp: daemon_tick_def Let_def sample_input_def loop_pause_def TICK_NS_def split: option.splits if_splits prod.splits)
  ultimately show ?thesis using daemon_tick_behaviour [of True sample_build 400000 sample_input sample_governor pause g'] by simp
qed

end
