(* ===== verification/Spec2Isabelle.thy ===== *)
theory Spec2Isabelle
  imports Path Mtu Hole_Punch Turn_Relay Seq Tcp_Fallback Connection Ice Tier Dataplane Consent_Ui
    Inbound Audit_Log Governor Bulk_Scheduler Temporal Concealment Congestion
    Input_Channel Signaling Session_Run Peers Daemon
begin

text \<open>
  A verification library for LowBand, a remote-assistance system for very slow links
  (voice, screen, input, files and chat over one encrypted UDP session).

  \<^bold>\<open>The program.\<close> The Rust workspace has a transport crate (\<open>core/lbtp\<close>: framing, pacing, path
  discovery, NAT traversal and fallbacks), a crypto crate (\<open>core/crypto\<close>), the application
  channels and their consent gates (\<open>core/messaging\<close>), the media governor and codecs
  (\<open>core/platform\<close>), file transfer (\<open>core/xfer\<close>), neural models (\<open>core/nn\<close>), observability
  (\<open>core/obs\<close>), signaling (\<open>core/signaling\<close>), the daemon that assembles them (\<open>core/lowbandd\<close>)
  and the user-interface shells (\<open>shells\<close>). Most components are small state machines driven by
  a 10 Hz control tick, by events from the peer and by calls of the daemon.

  \<^bold>\<open>How it is modelled.\<close> A struct is a \<open>record\<close>, an enum a \<open>datatype\<close>, a method with
  \<open>&mut self\<close> a function that returns its result and the new state. A panic is the value
  \<open>None\<close> and an \<open>Err\<close> a left injection. Machine integers are words of their width wherever
  wrap-around can happen; counters that only move between zero and a small constant behind a
  test are natural numbers. Arithmetic that panics in debug builds and wraps in release
  builds takes the build as an argument (\<open>overflow_checks\<close>, \<open>debug_assertions\<close>). The clock, the
  entropy, the peer and the operating system are arguments.

  \<^bold>\<open>Shared theories.\<close>
  \<^item> \<open>Prelude\<close>: integer names, big- and little-endian encodings with both round trips, the
    runner \<open>ticks\<close> for tick-driven controllers, and two interfaces: \<open>invariant_machine\<close> (an
    invariant of every step holds after every run) and \<open>retry_probe\<close> (a countdown that
    retransmits a bounded number of times and gives up).
  \<^item> \<open>F64\<close>: IEEE binary64 arithmetic on rationals, bit-exact for finite values (round to nearest,
    ties to even), as the pacer, the TCP penalty, the estimators of the congestion controller,
    the jitter buffer and the CPU ceiling use it. Infinities and NaN are outside; the lemmas
    bound the values so that they do not arise.
  \<^item> \<open>Rust_Str\<close>: strings as lists of Unicode scalar values, their UTF-8 encoding and the
    validating decoder, with both round trips, and the \<open>str\<close> methods the sources use.
  \<^item> \<open>Codec\<close>: little-endian integers and the interface \<open>codec\<close> (a reader accepts exactly what
    its writer produces), lifted to counted sequences.
  \<^item> \<open>Kv_Tree\<close>: what the services rely on of the ordered byte store, which is a library of its
    own: its operations are a parameter and \<open>kv_ok\<close> its documented behaviour.

  \<^bold>\<open>Transport (\<open>core/lbtp/src\<close>).\<close>
  \<^item> \<open>Path\<close> (\<open>path.rs\<close>), \<open>Mtu\<close> (\<open>mtu.rs\<close>), \<open>Hole_Punch\<close> (\<open>hole_punch.rs\<close>, \<open>nat_keepalive.rs\<close>),
    \<open>Turn_Relay\<close> (\<open>turn_relay.rs\<close>) and \<open>Ice\<close> (\<open>ice_candidate.rs\<close>): the probing controllers. Each
    instantiates \<open>retry_probe\<close>, which gives the exact trace and the exact tick on which an
    unanswered probe ends; the safety lemmas show what each controller needs to have seen
    before it changes path, size or relay.
  \<^item> \<open>Seq\<close> (\<open>seq.rs\<close>): expansion of 16-bit wire numbers; the full numbers are reconstructed
    within the reordering window.
  \<^item> \<open>Tcp_Fallback\<close> (\<open>tcp_fallback.rs\<close>): framing over a byte stream. The reassembler refines a
    byte-at-a-time reference, so chunk boundaries do not matter and every stream of non-empty
    datagrams is recovered.
  \<^item> \<open>Paced_Queue\<close>, \<open>Pacer\<close> (\<open>pacer.rs\<close>) and \<open>Connection\<close> (\<open>connection.rs\<close>): the send path. The
    interface \<open>paced_queue\<close> states what the pacer promises of its queues; its interpretation on
    the pacer gives per-channel FIFO delivery without loss for every sequence of operations of
    a connection, and the pacer lemmas give priority order, the datagram size limit and the
    accounting of tokens.
  \<^item> \<open>Congestion\<close> (loss estimators, redundancy ratio, loss classifier, cellular mode): cellular
    mode is entered and left exactly after the documented numbers of ticks.

  \<^bold>\<open>Sessions (\<open>core/crypto/src\<close>, \<open>core/lowbandd/src\<close>).\<close>
  \<^item> \<open>Noise\<close> (\<open>noise_ik.rs\<close>, \<open>key_exchange.rs\<close>) and \<open>Secure_Session\<close> (\<open>relay_guard.rs\<close>, \<open>udp_session.rs\<close>): the handshake
    and the encrypted session over a socket. The primitives are a record with their documented
    laws; forging is not excluded but named, so that every statement reads: what is accepted was
    sent, or a forgery of a stated kind exists.
  \<^item> \<open>Session_Run\<close>: a file over an encrypted session, from \<open>send_file\<close> to the router.
  \<^item> \<open>Peers\<close> (\<open>short_auth_string.rs\<close>, \<open>known_peers.rs\<close>): the phrase that two users compare and the store
    of peers, which refines a history of contacts.

  \<^bold>\<open>Rendezvous (\<open>core/signaling/src\<close>, \<open>core/lowbandd/src\<close>).\<close>
  \<^item> \<open>Signaling\<close> (\<open>lib.rs\<close>, \<open>room.rs\<close>): the service, request by request; it refines an abstract
    rendezvous of sessions and an abstract set of rooms.
  \<^item> \<open>Sig_Client\<close> (\<open>client.rs\<close>): the client with its HTTP and JSON scanners. Every request ends
    whatever the server sends, and what the server renders is what the client returns.
  \<^item> \<open>Stun\<close> (\<open>stun.rs\<close>): the binding exchange and the texts of addresses and keys.
  \<^item> \<open>Establish\<close> (\<open>session.rs\<close>, \<open>mesh.rs\<close>): from a code or a room to sessions, over a world that holds
    the server, the clock and the sockets. Waiting ends, the host finds the joiner's key and its
    first foreign address, and both ends of a mesh pair agree.

  \<^bold>\<open>Daemon and shells (\<open>core/lowbandd/src\<close>, \<open>core/platform/src\<close>).\<close>
  \<^item> \<open>Ipc\<close> (\<open>ipc.rs\<close>, \<open>elevation.rs\<close>): the event frames between the daemon and its shells, the
    reader of the FlatBuffers layout with its panics, and the broadcast over bounded queues. The
    FlatBuffers builder is a parameter.
  \<^item> \<open>Daemon\<close> (\<open>main.rs\<close>, \<open>cpu_ceiling.rs\<close>, \<open>quality_indicator.rs\<close>): the command line, the drop of
    privileges and the governor loop with the CPU ceiling.

  \<^bold>\<open>Consent and messaging (\<open>core/messaging/src\<close>, \<open>core/lowbandd/src\<close>, \<open>shells/src\<close>).\<close>
  \<^item> \<open>Grants\<close> (\<open>grants.rs\<close>): capability tokens over a store of shared revocation flags. The
    interface \<open>capability_gate\<close> is the contract of a session that enforces a token; it is
    interpreted on the view, control, file and clipboard sessions.
  \<^item> \<open>Clipboard\<close> (\<open>clipboard.rs\<close>): text and file offers; accepted names stay inside the
    receiving directory. One withdrawal ends all four capabilities for good.
  \<^item> \<open>Panic\<close> (\<open>panic_key.rs\<close>): the panic key, its notice, and both sides running together over a
    channel that delays, repeats and reorders notices.
  \<^item> \<open>Wire\<close> (\<open>chat.rs\<close>, \<open>wire.rs\<close>): the message frames; the decoder accepts exactly the encodings
    of admissible frames.
  \<^item> \<open>Dataplane\<close> (\<open>dataplane.rs\<close>): what received bytes can do to the receiver. The encrypted session
    is a parameter.
  \<^item> \<open>Inbound\<close> (\<open>inbound.rs\<close>): the router over messages, files, pictures and voice; which datagrams
    can make it panic and what the others do.
  \<^item> \<open>Audit_Log\<close> (\<open>audit.rs\<close>): the hash chain of the log; what a verified list of entries proves and
    what it does not. The keyed hash is a parameter.
  \<^item> \<open>Consent_Ui\<close> (\<open>consent_screen.rs\<close>, \<open>panic_control.rs\<close>, \<open>revocation_control.rs\<close>): the
    dialogs, characterised by the history of their events (interface \<open>latched_control\<close>).
  \<^item> \<open>Input_Channel\<close> (\<open>input_channel_sender.rs\<close>, \<open>cursor_sender.rs\<close>, parts of \<open>input_injection.rs\<close>,
    \<open>pointer_overlay.rs\<close>): the delta coding of input events, coalesced motion and the cursor.

  \<^bold>\<open>Governor (\<open>core/platform/src\<close>).\<close> \<open>Tier\<close> (\<open>tier.rs\<close>, \<open>tier_downgrade_guard.rs\<close>,
  \<open>tier_upgrade_guard.rs\<close>, \<open>tier_classifier.rs\<close>): the quality tier; every change is explained by
  the bandwidth samples before it, and a steady bandwidth settles it within 150 ticks.
  \<open>Governor\<close> (\<open>gear_policy.rs\<close>, \<open>control_loop.rs\<close> and the policies around them): the decisions once the
  tier is known; the budget allocator is the greedy allocation in priority order, and the
  control loop refines the tier emitter with it. \<open>Temporal\<close>: layers and frame dropping of the
  camera encoder. \<open>Concealment\<close>: the concealment chain, redundancy and the jitter buffer.

  \<^bold>\<open>Voice and screen (\<open>core/lowbandd/src\<close>, \<open>core/platform/src\<close>).\<close>
  \<^item> \<open>Adpcm\<close> (\<open>adpcm.rs\<close>) and \<open>Voice\<close> (\<open>dtx.rs\<close>, \<open>voice.rs\<close>): the codec, whose decoder follows the
    encoder exactly, and the call with its silences.
  \<^item> \<open>Bits\<close>, \<open>Palette\<close>, \<open>Screen\<close> and \<open>Screen_Run\<close> (\<open>screen_encoder.rs\<close>, \<open>screen_transfer.rs\<close>): the bit
    streams, the palette coders (interface \<open>tile_codec\<close>), the tile grid and whole pictures.

  \<^bold>\<open>File transfer (\<open>core/xfer/src\<close>, \<open>core/lowbandd/src\<close>).\<close>
  \<^item> \<open>Chunk_Cache\<close> (\<open>cache.rs\<close>, \<open>persistent_cache.rs\<close>): the index of chunks the peer holds, in
    memory and as a log. The interface \<open>chunk_cache\<close> is interpreted on both; the log refines a
    set over insertions, removals and restarts.
  \<^item> \<open>Resume\<close> (\<open>resume.rs\<close>): the state file of a transfer, byte by byte; what was recorded is
    what is resumed, and only for the same manifest. Both theories also show what a partial
    record left by a crash does to the records appended behind it.
  \<^item> \<open>File_Transfer\<close> and \<open>Transfer_Run\<close> (\<open>file_transfer.rs\<close>): frames, wire format and the receiver.
    Over every sequence of fragments, repeated offers and restarts, a reported completion means
    that the destination is the sent file, and resending completes it. The hash is a
    parameter; what is relied on is its length and that no fragment has a second preimage.
  \<^item> \<open>Bulk_Scheduler\<close> (\<open>scheduler.rs\<close>): the queue of file frames behind the interactive streams.

  \<^bold>\<open>Bounds.\<close> No operation needs fuel. Most loops are structural recursions or have a termination
  proof (the reassembler by the bytes left, the pacer's drain by the frames queued, the
  descent of the tier by its rank, the attribute walk by the distance to its end). Two loops
  may not end by themselves and are partial functions into an option: the chunk decoder of the client
  and the polling of the establishment; both are shown to end, the second under the assumption
  that sleeping moves the clock. Tick counts in the statements (44, 51, 60, 150) are
  exact consequences of the constants in the sources.

  \<^bold>\<open>Not modelled.\<close> The cryptographic primitives, the audio and video codecs, the neural models and
  the compressors are third-party code or numerical computations; where modelled code calls them they are
  parameters. Capture, playback, sensors, threads that only move samples, named pipes and process entries are
  input and output. Of the remaining logic, the forward error correction and the chunker of
  \<open>core/xfer\<close>, the compressed message channel and the session records of \<open>core/messaging\<close>, the
  watchdogs of \<open>core/nn\<close>, the metrics of \<open>core/obs\<close> and the display widgets of \<open>shells\<close> are not
  covered; nor are the block-transform coders of the screen encoder.
\<close>

end
